(* ===== verification/Prelude.thy ===== *)
theory Prelude
  imports Main "HOL-Library.Word"
begin

text \<open>
  Shared vocabulary of the development: the machine integer types of the C++
  sources, little-endian encodings of words, byte-addressed memory with
  \<^verbatim>\<open>memcpy\<close>-like loads and stores, and the collections of rewrite
  rules (\<open>mem_simps\<close>, \<open>codec_simps\<close>) that the component proofs use.

  Memory is a total function from addresses to bytes.  The C++ code writes
  through raw pointers without bounds checks, so a store always takes effect at
  the address it names; the component theories prove that the addresses stay
  inside the page, segment or ring the store is meant for.
\<close>

unbundle bit_operations_syntax

type_synonym byte = "8 word"
type_synonym u16 = "16 word"
type_synonym u32 = "32 word"
type_synonym u64 = "64 word"
type_synonym mem = "nat \<Rightarrow> byte"

named_theorems mem_simps \<open>loads over stores\<close>
named_theorems codec_simps \<open>decoding what an encoder wrote\<close>


section \<open>Little-endian words\<close>

definition le_bytes :: "nat \<Rightarrow> 'a::len word \<Rightarrow> byte list" where
  "le_bytes n w = map (\<lambda>i. ucast (drop_bit (8 * i) w)) [0..<n]"

fun le_word :: "byte list \<Rightarrow> 'a::len word" where
  "le_word [] = 0"
| "le_word (b # bs) = ucast b OR push_bit 8 (le_word bs)"

lemma length_le_bytes [simp]: "length (le_bytes n w) = n"
  by (simp add: le_bytes_def)

lemma le_bytes_0 [simp]: "le_bytes 0 w = []"
  by (simp add: le_bytes_def)

lemma le_bytes_Suc: "le_bytes (Suc n) w = ucast w # le_bytes n (drop_bit 8 w)"
  by (simp add: le_bytes_def upt_conv_Cons map_Suc_upt [symmetric] add.commute del: upt_Suc)

lemma le_word_le_bytes_take: "le_word (le_bytes n w) = take_bit (8 * n) w"
proof (induction n arbitrary: w)
  case 0
  show ?case by simp
next
  case (Suc n)
  show ?case
    by (rule bit_eqI) (auto simp: le_bytes_Suc Suc bit_simps)
qed

lemma le_word_le_bytes [simp, codec_simps]:
  "LENGTH('a) \<le> 8 * n \<Longrightarrow> le_word (le_bytes n (w :: 'a::len word)) = w"
  by (simp add: le_word_le_bytes_take take_bit_word_eq_self)

lemma le_bytes_le_word [simp]:
  "8 * length bs \<le> LENGTH('a) \<Longrightarrow> le_bytes (length bs) (le_word bs :: 'a::len word) = bs"
proof (induction bs)
  case Nil
  show ?case by simp
next
  case (Cons b bs)
  have hi: "drop_bit 8 (ucast b OR push_bit 8 (le_word bs) :: 'a word) = take_bit (LENGTH('a) - 8) (le_word bs)"
    using Cons.prems by (intro bit_eqI) (auto simp: bit_simps dest: bit_imp_le_length)
  have sz: "le_bytes (length bs) (take_bit (LENGTH('a) - 8) (le_word bs) :: 'a word)
      = le_bytes (length bs) (le_word bs :: 'a word)"
    unfolding le_bytes_def
  proof (rule map_cong [OF refl])
    fix i assume "i \<in> set [0..<length bs]"
    then have "8 * i + 8 \<le> LENGTH('a) - 8" using Cons.prems by simp
    then show "(ucast (drop_bit (8 * i) (take_bit (LENGTH('a) - 8) (le_word bs :: 'a word))) :: byte)
        = ucast (drop_bit (8 * i) (le_word bs :: 'a word))"
      by (intro bit_eqI) (auto simp: bit_simps)
  qed
  have lo: "ucast (ucast b OR push_bit 8 (le_word bs) :: 'a word) = b"
    using Cons.prems by (intro bit_eqI) (auto simp: bit_simps)
  show ?case
    using Cons by (simp add: le_bytes_Suc hi sz lo del: drop_bit_or)
qed

lemma unat_of_nat_small: "n < 2 ^ LENGTH('a) \<Longrightarrow> unat (of_nat n :: 'a::len word) = n"
  by (simp add: unsigned_of_nat take_bit_nat_eq_self)


section \<open>Reading a list at an offset\<close>

lemma drop_append_cons: "drop n xs = ys @ zs \<Longrightarrow> drop (n + length ys) xs = zs"
  by (metis add.commute append_eq_conv_conj drop_drop)

lemma drop_cons_step: 
  assumes "drop n xs = y # zs" 
  shows "xs ! n = y" "n < length xs" "drop (n + 1) xs = zs"
  using assms by (metis nth_via_drop, metis drop_eq_Nil list.distinct(1) not_le,
    metis Suc_eq_plus1 drop_Suc drop_tl list.sel(3))

lemma drop_append_le: "drop n xs = ys @ zs \<Longrightarrow> ys \<noteq> [] \<Longrightarrow> n + length ys \<le> length xs"
  using length_drop [of n xs] by (cases "n \<le> length xs") auto


section \<open>Byte-addressed memory\<close>

definition load_bytes :: "nat \<Rightarrow> nat \<Rightarrow> mem \<Rightarrow> byte list" where
  "load_bytes a n m = map m [a..<a + n]"

definition store_bytes :: "nat \<Rightarrow> byte list \<Rightarrow> mem \<Rightarrow> mem" where
  "store_bytes a bs m = (\<lambda>x. if a \<le> x \<and> x < a + length bs then bs ! (x - a) else m x)"

lemma length_load_bytes [simp]: "length (load_bytes a n m) = n"
  by (simp add: load_bytes_def)

lemma load_bytes_0 [simp]: "load_bytes a 0 m = []"
  by (simp add: load_bytes_def)

lemma nth_load_bytes [simp]: "i < n \<Longrightarrow> load_bytes a n m ! i = m (a + i)"
  by (simp add: load_bytes_def)

lemma store_bytes_Nil [simp]: "store_bytes a [] m = m"
  by (rule ext) (auto simp: store_bytes_def)

lemma store_bytes_out [mem_simps]: "x < a \<or> a + length bs \<le> x \<Longrightarrow> store_bytes a bs m x = m x"
  by (auto simp: store_bytes_def)

lemma store_bytes_in [mem_simps]: "a \<le> x \<Longrightarrow> x < a + length bs \<Longrightarrow> store_bytes a bs m x = bs ! (x - a)"
  by (simp add: store_bytes_def)

lemma load_store_same [simp, mem_simps]: "n = length bs \<Longrightarrow> load_bytes a n (store_bytes a bs m) = bs"
  by (auto simp: load_bytes_def store_bytes_def intro: nth_equalityI)

lemma load_store_disjoint [mem_simps]:
  "a + n \<le> b \<or> b + length bs \<le> a \<Longrightarrow> load_bytes a n (store_bytes b bs m) = load_bytes a n m"
  by (auto simp: load_bytes_def store_bytes_def)

lemma load_bytes_cong:
  "(\<And>x. a \<le> x \<Longrightarrow> x < a + n \<Longrightarrow> m x = m' x) \<Longrightarrow> load_bytes a n m = load_bytes a n m'"
  by (simp add: load_bytes_def)

lemma store_load_id [simp]: "store_bytes a (load_bytes a n m) m = m"
  by (rule ext) (auto simp: store_bytes_def)

lemma store_store_same [simp, mem_simps]:
  "length bs = length cs \<Longrightarrow> store_bytes a bs (store_bytes a cs m) = store_bytes a bs m"
  by (auto simp: store_bytes_def)

lemma store_store_swap:
  "a + length bs \<le> b \<or> b + length cs \<le> a \<Longrightarrow>
   store_bytes a bs (store_bytes b cs m) = store_bytes b cs (store_bytes a bs m)"
  by (auto simp: store_bytes_def)

lemma store_bytes_append:
  "store_bytes a (bs @ cs) m = store_bytes a bs (store_bytes (a + length bs) cs m)"
  by (auto simp: store_bytes_def nth_append intro!: ext)

lemma load_bytes_split: "load_bytes a (n + k) m = load_bytes a n m @ load_bytes (a + n) k m"
  by (rule nth_equalityI) (auto simp: nth_append add.assoc)


section \<open>Bits of sums\<close>

lemma bit_high_add:
  assumes "(a :: nat) < 2 ^ m"
  shows "bit (a + 2 ^ m * x) i \<longleftrightarrow> (if i < m then bit a i else bit x (i - m))"
proof (cases "i < m")
  case True
  then have "(2::nat) ^ m * x = 2 ^ i * (2 ^ (m - i) * x)"
    by (simp add: power_add [symmetric] mult.assoc [symmetric])
  then have "(a + 2 ^ m * x) div 2 ^ i = a div 2 ^ i + 2 ^ (m - i) * x"
    by (metis div_mult_self2 power_not_zero zero_neq_numeral add.commute)
  with True show ?thesis by (simp add: bit_iff_odd)
next
  case False
  then have "(2::nat) ^ i = 2 ^ m * 2 ^ (i - m)"
    by (simp add: power_add [symmetric])
  then have "(a + 2 ^ m * x) div 2 ^ i = x div 2 ^ (i - m)"
    using assms by (simp add: div_mult2_eq)
  with False show ?thesis by (simp add: bit_iff_odd)
qed

end
