(* ===== verification/Address.thy ===== *)
theory Address
  imports Prelude
begin

text \<open>
  Global addresses and the replica map.  \<^verbatim>\<open>GlobalAddress\<close> of \<^verbatim>\<open>include/Common.h\<close> is
  a 64-bit union: a 16-bit node (logical region) id below a 48-bit offset.  The
  replica map of \<^verbatim>\<open>storage/rdma.cc\<close> sends a logical region to its physical copies,
  the primary first, and translates a logical offset to an address on one copy.
\<close>

section \<open>Global addresses\<close>

datatype GlobalAddress = GlobalAddress (nodeID: u16) (goffset: "48 word")

definition gval :: "GlobalAddress \<Rightarrow> u64" where
  "gval g = ucast (nodeID g) OR push_bit 16 (ucast (goffset g))"

definition gaddr_of_val :: "u64 \<Rightarrow> GlobalAddress" where
  "gaddr_of_val v = GlobalAddress (ucast v) (ucast (drop_bit 16 v))"

definition GlobalAddress_Null :: GlobalAddress where
  "GlobalAddress_Null = GlobalAddress 0 0"

definition Alloc_Granu :: nat where
  "Alloc_Granu = 512 * 1024 * 1024"

definition kLeafPageSize :: nat where
  "kLeafPageSize = 16384 + 8"

definition kInternalPageSize :: nat where
  "kInternalPageSize = 16384 + 8"

definition TOPAGE :: "GlobalAddress \<Rightarrow> GlobalAddress" where
  "TOPAGE addr =
    (let off = unat (goffset addr);
         bulk_offset = off div Alloc_Granu;
         in_bulk = off mod Alloc_Granu
     in GlobalAddress (nodeID addr)
          (of_nat (bulk_offset * Alloc_Granu + (in_bulk div kLeafPageSize) * kLeafPageSize)))"

definition GADD :: "GlobalAddress \<Rightarrow> int \<Rightarrow> GlobalAddress" where
  "GADD addr off = GlobalAddress (nodeID addr) (goffset addr + of_int off)"

text \<open>The comparison operators of \<^verbatim>\<open>Common.h\<close> make global addresses a linear order.\<close>

instantiation GlobalAddress :: linorder
begin

definition less_GlobalAddress :: "GlobalAddress \<Rightarrow> GlobalAddress \<Rightarrow> bool" where
  "less_GlobalAddress lhs rhs \<longleftrightarrow>
    nodeID lhs < nodeID rhs \<or> (nodeID lhs = nodeID rhs \<and> goffset lhs < goffset rhs)"

definition less_eq_GlobalAddress :: "GlobalAddress \<Rightarrow> GlobalAddress \<Rightarrow> bool" where
  "less_eq_GlobalAddress lhs rhs \<longleftrightarrow>
    \<not> (nodeID rhs < nodeID lhs \<or> (nodeID rhs = nodeID lhs \<and> goffset rhs < goffset lhs))"

instance
  by standard (auto simp: less_GlobalAddress_def less_eq_GlobalAddress_def GlobalAddress.expand)

end

definition buffer_is_not_all_zero :: "byte list \<Rightarrow> nat \<Rightarrow> bool" where
  "buffer_is_not_all_zero buf n \<longleftrightarrow> list_ex (\<lambda>b. b \<noteq> 0) (take n buf)"

lemma gaddr_of_val_gval [simp]: "gaddr_of_val (gval g) = g"
proof -
  have "ucast (gval g) = nodeID g"
    unfolding gval_def by (rule bit_word_eqI) (auto simp: bit_simps)
  moreover have "ucast (drop_bit 16 (gval g)) = goffset g"
    unfolding gval_def by (rule bit_word_eqI) (auto simp: bit_simps dest: bit_imp_le_length)
  ultimately show ?thesis by (simp add: gaddr_of_val_def)
qed

lemma gval_gaddr_of_val [simp]: "gval (gaddr_of_val v) = v"
  unfolding gval_def gaddr_of_val_def
proof (rule bit_word_eqI)
  fix n assume "n < LENGTH(64)"
  then show "bit (ucast (nodeID (GlobalAddress (ucast v) (ucast (drop_bit 16 v))))
      OR push_bit 16 (ucast (goffset (GlobalAddress (ucast v) (ucast (drop_bit 16 v))))) :: u64) n = bit v n"
    by (cases "n < 16") (auto simp: bit_simps)
qed

lemma gval_inject: "gval g = gval h \<longleftrightarrow> g = h"
  by (metis gaddr_of_val_gval)

definition page_base :: "nat \<Rightarrow> nat" where
  "page_base off = off div Alloc_Granu * Alloc_Granu
    + off mod Alloc_Granu div kLeafPageSize * kLeafPageSize"

lemma page_base_le: "page_base off \<le> off" and page_base_near: "off - page_base off < kLeafPageSize"
proof -
  have "off mod Alloc_Granu = off mod Alloc_Granu div kLeafPageSize * kLeafPageSize
      + off mod Alloc_Granu mod kLeafPageSize"
    by simp
  moreover have "off = off div Alloc_Granu * Alloc_Granu + off mod Alloc_Granu" by simp
  ultimately have e: "off = page_base off + off mod Alloc_Granu mod kLeafPageSize"
    unfolding page_base_def by linarith
  have "off mod Alloc_Granu mod kLeafPageSize < kLeafPageSize"
    by (simp add: kLeafPageSize_def)
  with e show "page_base off \<le> off" "off - page_base off < kLeafPageSize" by linarith+
qed

lemma page_base_idem: "page_base (page_base off) = page_base off"
proof -
  let ?q = "off div Alloc_Granu" and ?p = "off mod Alloc_Granu div kLeafPageSize * kLeafPageSize"
  have "?p \<le> off mod Alloc_Granu" by simp
  also have "\<dots> < Alloc_Granu" by (simp add: Alloc_Granu_def)
  finally have lt: "?p < Alloc_Granu" .
  have "page_base off = ?q * Alloc_Granu + ?p" by (simp add: page_base_def)
  then have "page_base off div Alloc_Granu = ?q" "page_base off mod Alloc_Granu = ?p"
    using lt by simp_all
  then show ?thesis
    by (simp add: page_base_def [of "page_base off"])
      (simp add: page_base_def kLeafPageSize_def)
qed

lemma TOPAGE_page_base:
  "nodeID (TOPAGE g) = nodeID g" "unat (goffset (TOPAGE g)) = page_base (unat (goffset g))"
proof -
  have "page_base (unat (goffset g)) < 2 ^ LENGTH(48)"
    using page_base_le [of "unat (goffset g)"] unsigned_less [of "goffset g", where ?'a = nat]
    by (simp add: le_less_trans)
  from unat_of_nat_small [OF this]
  show "unat (goffset (TOPAGE g)) = page_base (unat (goffset g))"
    by (simp add: TOPAGE_def page_base_def Let_def)
qed (simp add: TOPAGE_def Let_def)


lemma page_base_same_bulk: "page_base off div Alloc_Granu = off div Alloc_Granu"
proof -
  have "off mod Alloc_Granu div kLeafPageSize * kLeafPageSize \<le> off mod Alloc_Granu" by simp
  also have "\<dots> < Alloc_Granu" by (simp add: Alloc_Granu_def)
  finally show ?thesis by (simp add: page_base_def)
qed

lemma page_base_between:
  assumes "page_base off \<le> x" "x \<le> off"
  shows "page_base x = page_base off"
proof -
  have bulk: "x div Alloc_Granu = off div Alloc_Granu"
    using div_le_mono [OF assms(1), of Alloc_Granu] div_le_mono [OF assms(2), of Alloc_Granu]
    by (simp add: page_base_same_bulk)
  have "x mod Alloc_Granu \<le> off mod Alloc_Granu"
    "off mod Alloc_Granu div kLeafPageSize * kLeafPageSize \<le> x mod Alloc_Granu"
    using assms div_mult_mod_eq [of x Alloc_Granu, unfolded bulk] div_mult_mod_eq [of off Alloc_Granu]
    unfolding page_base_def by linarith+
  from div_le_mono [OF this(1), of kLeafPageSize] div_le_mono [OF this(2), of kLeafPageSize]
  have "x mod Alloc_Granu div kLeafPageSize = off mod Alloc_Granu div kLeafPageSize"
    by (simp add: kLeafPageSize_def)
  then show ?thesis by (simp add: page_base_def bulk)
qed

text \<open>
  Page addresses.  \<^verbatim>\<open>TOPAGE\<close> maps an address to the start of the page that contains it: the
  region is kept, the start lies less than a page below the address and inside the same 512 MB
  bulk, every address between the start and the original has the same page, and taking the page
  of a page start changes nothing.  The 64-bit value of an address determines it and conversely.
\<close>

theorem page_of_address:
  "nodeID (TOPAGE g) = nodeID g
   \<and> unat (goffset (TOPAGE g)) \<le> unat (goffset g)
   \<and> unat (goffset g) < unat (goffset (TOPAGE g)) + kLeafPageSize
   \<and> unat (goffset (TOPAGE g)) div Alloc_Granu = unat (goffset g) div Alloc_Granu
   \<and> TOPAGE (TOPAGE g) = TOPAGE g
   \<and> (TOPAGE g \<le> h \<and> h \<le> g \<longrightarrow> TOPAGE h = TOPAGE g)
   \<and> gaddr_of_val (gval g) = g \<and> gval (gaddr_of_val v) = v"
proof -
  have near: "unat (goffset g) < page_base (unat (goffset g)) + kLeafPageSize"
    using page_base_near [of "unat (goffset g)"] page_base_le [of "unat (goffset g)"] by linarith
  have same: "TOPAGE x = TOPAGE g"
    if "nodeID x = nodeID g" "page_base (unat (goffset x)) = page_base (unat (goffset g))" for x
    using that TOPAGE_page_base [of x] TOPAGE_page_base [of g]
    by (simp add: GlobalAddress.expand word_unat_eq_iff)
  have "TOPAGE h = TOPAGE g" if "TOPAGE g \<le> h" "h \<le> g"
  proof -
    have "nodeID h = nodeID g \<and> goffset (TOPAGE g) \<le> goffset h \<and> goffset h \<le> goffset g"
      using that TOPAGE_page_base(1) [of g] by (auto simp: less_eq_GlobalAddress_def)
    then show ?thesis
      using same [of h] page_base_between [of "unat (goffset g)" "unat (goffset h)"]
      by (simp add: word_le_nat_alt TOPAGE_page_base)
  qed
  moreover have "TOPAGE (TOPAGE g) = TOPAGE g"
    by (rule same) (simp_all add: TOPAGE_page_base page_base_idem)
  ultimately show ?thesis
    using near by (simp add: TOPAGE_page_base page_base_le page_base_same_bulk)
qed

theorem page_of_address_witness:
  "TOPAGE (GlobalAddress 3 40000) = GlobalAddress 3 32784
   \<and> TOPAGE (GlobalAddress 3 40000) \<le> GlobalAddress 3 33000 \<and> GlobalAddress 3 33000 \<le> GlobalAddress 3 40000
   \<and> TOPAGE (GlobalAddress 3 33000) = GlobalAddress 3 32784"
proof -
  have "TOPAGE (GlobalAddress 3 40000) = GlobalAddress 3 32784"
    by (simp add: TOPAGE_def Let_def Alloc_Granu_def kLeafPageSize_def)
  moreover have "GlobalAddress 3 32784 \<le> GlobalAddress 3 33000 \<and> GlobalAddress 3 33000 \<le> GlobalAddress 3 40000"
    by (simp add: less_eq_GlobalAddress_def)
  ultimately show ?thesis using page_of_address [of "GlobalAddress 3 40000" "GlobalAddress 3 33000"] by simp
qed


section \<open>Logical groups and replicas\<close>

record PhysicalRegion =
  phys_id :: u16
  base_ptr :: u64
  rkey :: u32

record LogicalGroup =
  physical_regions :: "PhysicalRegion list"
  lg_bytes :: u64

type_synonym logical_groups = "u16 \<rightharpoonup> LogicalGroup"

fun update_region :: "u16 \<Rightarrow> u64 \<Rightarrow> u32 \<Rightarrow> PhysicalRegion list \<Rightarrow> PhysicalRegion list" where
  "update_region pid b k [] = []"
| "update_region pid b k (r # rs) =
    (if phys_id r = pid then r\<lparr>base_ptr := b, rkey := k\<rparr> # rs else r # update_region pid b k rs)"

definition UpdateReplicaMetadata :: "u16 \<Rightarrow> u16 \<Rightarrow> u64 \<Rightarrow> u32 \<Rightarrow> logical_groups \<Rightarrow> logical_groups" where
  "UpdateReplicaMetadata logical_id physical_id b k gs =
    (case gs logical_id of
       None \<Rightarrow> gs
     | Some g \<Rightarrow> gs(logical_id \<mapsto> g\<lparr>physical_regions := update_region physical_id b k (physical_regions g)\<rparr>))"

definition GetReplicaSet :: "logical_groups \<Rightarrow> u16 \<Rightarrow> PhysicalRegion list" where
  "GetReplicaSet gs logical_id =
    (case gs logical_id of None \<Rightarrow> [] | Some g \<Rightarrow> physical_regions g)"

definition GetPrimaryPhysicalId :: "logical_groups \<Rightarrow> u16 \<Rightarrow> u16" where
  "GetPrimaryPhysicalId gs logical_id =
    (case gs logical_id of
       Some g \<Rightarrow> (case physical_regions g of r # _ \<Rightarrow> phys_id r | [] \<Rightarrow> logical_id)
     | None \<Rightarrow> logical_id)"

text \<open>The translation is undefined (\<open>None\<close>) where the code falls off the end of the
  function or trips its assertion.\<close>

definition TranslateLogicalToPhysicalAddress :: "logical_groups \<Rightarrow> u16 \<Rightarrow> u64 \<Rightarrow> u16 \<Rightarrow> u64 option" where
  "TranslateLogicalToPhysicalAddress gs logical_id logical_offset physical_id =
    (case gs logical_id of
       None \<Rightarrow> None
     | Some g \<Rightarrow>
         (case find (\<lambda>r. phys_id r = physical_id) (physical_regions g) of
            None \<Rightarrow> None
          | Some r \<Rightarrow> Some (base_ptr r + logical_offset)))"

definition GetPhysicalRkey :: "logical_groups \<Rightarrow> u16 \<Rightarrow> u16 \<Rightarrow> u32" where
  "GetPhysicalRkey gs logical_id physical_id =
    (case gs logical_id of
       None \<Rightarrow> 0
     | Some g \<Rightarrow>
         (case find (\<lambda>r. phys_id r = physical_id) (physical_regions g) of
            None \<Rightarrow> 0 | Some r \<Rightarrow> rkey r))"

definition RemoveFailedMemoryNodeFromLogicalGroups :: "u16 \<Rightarrow> logical_groups \<Rightarrow> logical_groups" where
  "RemoveFailedMemoryNodeFromLogicalGroups failed_node gs =
    (\<lambda>l. map_option (\<lambda>g. g\<lparr>physical_regions :=
        filter (\<lambda>r. phys_id r \<noteq> failed_node) (physical_regions g)\<rparr>) (gs l))"

definition HardRemovePrimaryFromAllLogicalGroups :: "logical_groups \<Rightarrow> logical_groups" where
  "HardRemovePrimaryFromAllLogicalGroups gs =
    (\<lambda>l. map_option (\<lambda>g.
        if length (physical_regions g) > 1 then g\<lparr>physical_regions := tl (physical_regions g)\<rparr> else g)
      (gs l))"

lemma find_filter_other:
  "p \<noteq> f \<Longrightarrow> find (\<lambda>r. phys_id r = p) (filter (\<lambda>r. phys_id r \<noteq> f) rs) = find (\<lambda>r. phys_id r = p) rs"
  by (induction rs) auto

lemma GetReplicaSet_RemoveFailed:
  "GetReplicaSet (RemoveFailedMemoryNodeFromLogicalGroups f gs) l
    = filter (\<lambda>r. phys_id r \<noteq> f) (GetReplicaSet gs l)"
  by (cases "gs l") (simp_all add: GetReplicaSet_def RemoveFailedMemoryNodeFromLogicalGroups_def)

lemma GetPrimaryPhysicalId_eq:
  "GetPrimaryPhysicalId gs l = (case GetReplicaSet gs l of r # _ \<Rightarrow> phys_id r | [] \<Rightarrow> l)"
  by (simp add: GetPrimaryPhysicalId_def GetReplicaSet_def split: option.splits)

text \<open>
  C30: failover.  Removing a failed memory node from the logical groups leaves it in no replica
  set; a primary that did not fail stays the primary; when the primary failed, the first
  surviving copy, if there is one, becomes the primary; and the addresses of every surviving
  copy are translated as before.
\<close>

theorem failover_promotes_survivor:
  assumes "GetReplicaSet gs l = p # rs"
    and "gs' = RemoveFailedMemoryNodeFromLogicalGroups f gs"
  shows "f \<notin> phys_id ` set (GetReplicaSet gs' l)
    \<and> (phys_id p \<noteq> f \<longrightarrow> GetPrimaryPhysicalId gs' l = phys_id p)
    \<and> (phys_id p = f \<longrightarrow> (\<forall>as r bs. rs = as @ r # bs \<and> phys_id r \<noteq> f \<and> (\<forall>x \<in> set as. phys_id x = f)
          \<longrightarrow> GetPrimaryPhysicalId gs' l = phys_id r))
    \<and> (\<forall>q off. q \<noteq> f \<longrightarrow> TranslateLogicalToPhysicalAddress gs' l off q
          = TranslateLogicalToPhysicalAddress gs l off q)"
proof -
  have fe: "filter (\<lambda>x. phys_id x \<noteq> f) as = []" if "\<forall>x \<in> set as. phys_id x = f" for as
    using that by (simp add: filter_empty_conv)
  have "TranslateLogicalToPhysicalAddress gs' l off q = TranslateLogicalToPhysicalAddress gs l off q"
    if "q \<noteq> f" for q off
    using that by (simp add: assms(2) TranslateLogicalToPhysicalAddress_def find_filter_other
        RemoveFailedMemoryNodeFromLogicalGroups_def split: option.splits)
  then show ?thesis
    using assms(1) fe by (auto simp: assms(2) GetPrimaryPhysicalId_eq GetReplicaSet_RemoveFailed)
qed

theorem failover_promotes_survivor_witness:
  "\<exists>gs' gs. gs' = RemoveFailedMemoryNodeFromLogicalGroups 1 gs
    \<and> GetPrimaryPhysicalId gs 5 = 1 \<and> GetPrimaryPhysicalId gs' 5 = 3
    \<and> TranslateLogicalToPhysicalAddress gs' 5 64 3 = Some 4160"
proof -
  let ?p = "\<lparr>phys_id = 1, base_ptr = 8192, rkey = 7\<rparr>" and ?r = "\<lparr>phys_id = 3, base_ptr = 4096, rkey = 9\<rparr>"
  let ?gs = "[5 \<mapsto> \<lparr>physical_regions = [?p, ?r], lg_bytes = 0\<rparr>]"
  let ?gs' = "RemoveFailedMemoryNodeFromLogicalGroups 1 ?gs"
  have set: "GetReplicaSet ?gs 5 = ?p # [?r]" by (simp add: GetReplicaSet_def)
  from failover_promotes_survivor [OF set refl, of 1]
  have "[?r] = [] @ ?r # [] \<and> phys_id ?r \<noteq> 1 \<and> (\<forall>x \<in> set []. phys_id x = 1)
      \<longrightarrow> GetPrimaryPhysicalId ?gs' 5 = phys_id ?r"
    "TranslateLogicalToPhysicalAddress ?gs' 5 64 3 = TranslateLogicalToPhysicalAddress ?gs 5 64 3"
    by (force, force)
  then have "GetPrimaryPhysicalId ?gs' 5 = 3" "TranslateLogicalToPhysicalAddress ?gs' 5 64 3 = Some 4160"
    by (simp_all add: TranslateLogicalToPhysicalAddress_def)
  moreover have "GetPrimaryPhysicalId ?gs 5 = 1" by (simp add: GetPrimaryPhysicalId_def)
  ultimately show ?thesis by blast
qed

end
