(* ===== verification/Coding.thy ===== *)
theory Coding
  imports Prelude
begin

text \<open>
  The byte codecs of \<^verbatim>\<open>utils/coding.h\<close> and \<^verbatim>\<open>utils/coding.cc\<close>: fixed-width
  little-endian integers, varints, zigzag-coded signed integers and
  length-prefixed slices.  A \<^verbatim>\<open>Slice\<close> that a reader consumes is the list of its
  remaining bytes; a reader that fails returns \<open>None\<close>.  The locale \<open>codec\<close> is
  the contract between an encoder and its reader, and every codec of the two
  files is an interpretation of it.
\<close>

section \<open>The codec contract\<close>

locale codec =
  fixes enc :: "'v \<Rightarrow> byte list"
    and dec :: "byte list \<Rightarrow> ('v \<times> byte list) option"
  assumes dec_enc: "dec (enc v @ rest) = Some (v, rest)"
begin

lemma enc_prefix_free:
  assumes "enc v @ r = enc w @ s"
  shows "v = w \<and> r = s"
proof -
  have "dec (enc v @ r) = dec (enc w @ s)" using assms by simp
  then show ?thesis by (simp add: dec_enc)
qed

lemma enc_inj: "inj enc"
proof (rule injI)
  fix v w assume "enc v = enc w"
  then have "enc v @ [] = enc w @ []" by simp
  then show "v = w" using enc_prefix_free by blast
qed

lemma dec_enc_Nil: "dec (enc v) = Some (v, [])"
  using dec_enc [of v "[]"] by simp

end


section \<open>Fixed-width integers\<close>

definition EncodeFixed16 :: "u16 \<Rightarrow> byte list" where
  "EncodeFixed16 v = le_bytes 2 v"

definition EncodeFixed32 :: "u32 \<Rightarrow> byte list" where
  "EncodeFixed32 v = le_bytes 4 v"

definition EncodeFixed64 :: "u64 \<Rightarrow> byte list" where
  "EncodeFixed64 v = le_bytes 8 v"

definition DecodeFixed16 :: "byte list \<Rightarrow> u16" where
  "DecodeFixed16 p = le_word (take 2 p)"

definition DecodeFixed32 :: "byte list \<Rightarrow> u32" where
  "DecodeFixed32 p = le_word (take 4 p)"

definition DecodeFixed64 :: "byte list \<Rightarrow> u64" where
  "DecodeFixed64 p = le_word (take 8 p)"

definition GetFixed16 :: "byte list \<Rightarrow> (u16 \<times> byte list) option" where
  "GetFixed16 input = (if length input < 2 then None else Some (DecodeFixed16 input, drop 2 input))"

definition GetFixed32 :: "byte list \<Rightarrow> (u32 \<times> byte list) option" where
  "GetFixed32 input = (if length input < 4 then None else Some (DecodeFixed32 input, drop 4 input))"

definition GetFixed64 :: "byte list \<Rightarrow> (u64 \<times> byte list) option" where
  "GetFixed64 input = (if length input < 8 then None else Some (DecodeFixed64 input, drop 8 input))"


section \<open>Varints\<close>

definition kMaxVarint64Length :: nat where
  "kMaxVarint64Length = 10"

definition EncodeVarint32 :: "u32 \<Rightarrow> byte list" where
  "EncodeVarint32 v =
    (if v < 2 ^ 7 then [ucast v]
     else if v < 2 ^ 14 then [ucast (v OR 128), ucast (drop_bit 7 v)]
     else if v < 2 ^ 21 then
       [ucast (v OR 128), ucast (drop_bit 7 v OR 128), ucast (drop_bit 14 v)]
     else if v < 2 ^ 28 then
       [ucast (v OR 128), ucast (drop_bit 7 v OR 128), ucast (drop_bit 14 v OR 128),
        ucast (drop_bit 21 v)]
     else
       [ucast (v OR 128), ucast (drop_bit 7 v OR 128), ucast (drop_bit 14 v OR 128),
        ucast (drop_bit 21 v OR 128), ucast (drop_bit 28 v)])"

lemma drop_bit_7_less:
  fixes v :: "'a::len word"
  assumes "128 \<le> unat v"
  shows "unat (drop_bit 7 v) < unat v"
proof -
  have "unat (drop_bit 7 v) = unat v div 2 ^ 7"
    unfolding unat_drop_bit_eq by (rule drop_bit_eq_div)
  then show ?thesis using assms by simp
qed

function EncodeVarint64 :: "u64 \<Rightarrow> byte list" where
  "EncodeVarint64 v =
    (if v \<ge> 128 then ucast ((v AND 127) OR 128) # EncodeVarint64 (drop_bit 7 v) else [ucast v])"
  by auto
termination
  by (relation "measure unat") (auto simp: word_le_nat_alt intro: drop_bit_7_less)

function VarintLength :: "u64 \<Rightarrow> nat" where
  "VarintLength v = (if v \<ge> 128 then Suc (VarintLength (drop_bit 7 v)) else 1)"
  by auto
termination
  by (relation "measure unat") (auto simp: word_le_nat_alt intro: drop_bit_7_less)

declare EncodeVarint64.simps [simp del] VarintLength.simps [simp del]

text \<open>The loop shared by the two readers: \<open>maxs\<close> is the largest shift the loop
  condition allows, 28 for 32-bit and 63 for 64-bit values.\<close>

fun GetVarint_loop :: "nat \<Rightarrow> nat \<Rightarrow> 'a::len word \<Rightarrow> byte list \<Rightarrow> ('a word \<times> byte list) option" where
  "GetVarint_loop maxs shift result [] = None"
| "GetVarint_loop maxs shift result (b # p) =
    (if shift \<le> maxs then
       if b AND 128 \<noteq> 0
       then GetVarint_loop maxs (shift + 7) (result OR push_bit shift (ucast b AND 127)) p
       else Some (result OR push_bit shift (ucast b), p)
     else None)"

definition GetVarint32PtrFallback :: "byte list \<Rightarrow> (u32 \<times> byte list) option" where
  "GetVarint32PtrFallback p = GetVarint_loop 28 0 0 p"

definition GetVarint64Ptr :: "byte list \<Rightarrow> (u64 \<times> byte list) option" where
  "GetVarint64Ptr p = GetVarint_loop 63 0 0 p"

definition GetVarint32Ptr :: "byte list \<Rightarrow> (u32 \<times> byte list) option" where
  "GetVarint32Ptr p =
    (if p \<noteq> [] \<and> hd p AND 128 = 0 then Some (ucast (hd p), tl p) else GetVarint32PtrFallback p)"

definition GetVarint32 :: "byte list \<Rightarrow> (u32 \<times> byte list) option" where
  "GetVarint32 input = GetVarint32Ptr input"

definition GetVarint64 :: "byte list \<Rightarrow> (u64 \<times> byte list) option" where
  "GetVarint64 input = GetVarint64Ptr input"

definition PutVarint32 :: "byte list \<Rightarrow> u32 \<Rightarrow> byte list" where
  "PutVarint32 dst v = dst @ EncodeVarint32 v"

definition PutVarint64 :: "byte list \<Rightarrow> u64 \<Rightarrow> byte list" where
  "PutVarint64 dst v = dst @ EncodeVarint64 v"


section \<open>Signed integers and slices\<close>

definition i64ToZigzag :: "u64 \<Rightarrow> u64" where
  "i64ToZigzag l = push_bit 1 l XOR signed_drop_bit 63 l"

definition zigzagToI64 :: "u64 \<Rightarrow> u64" where
  "zigzagToI64 n = drop_bit 1 n XOR - (n AND 1)"

definition PutVarsignedint64 :: "byte list \<Rightarrow> u64 \<Rightarrow> byte list" where
  "PutVarsignedint64 dst v = dst @ EncodeVarint64 (i64ToZigzag v)"

definition GetVarsignedint64 :: "byte list \<Rightarrow> (u64 \<times> byte list) option" where
  "GetVarsignedint64 input =
    (case GetVarint64Ptr input of None \<Rightarrow> None | Some (u, q) \<Rightarrow> Some (zigzagToI64 u, q))"

definition PutLengthPrefixedSlice :: "byte list \<Rightarrow> byte list \<Rightarrow> byte list" where
  "PutLengthPrefixedSlice dst value = PutVarint32 dst (of_nat (length value)) @ value"

definition PutLengthPrefixedSliceParts :: "byte list \<Rightarrow> nat \<Rightarrow> byte list list \<Rightarrow> byte list" where
  "PutLengthPrefixedSliceParts dst total_bytes parts =
    PutVarint32 dst (of_nat (total_bytes + sum_list (map length parts))) @ concat parts"

definition PutLengthPrefixedSlicePartsWithPadding :: "byte list \<Rightarrow> byte list list \<Rightarrow> nat \<Rightarrow> byte list" where
  "PutLengthPrefixedSlicePartsWithPadding dst parts pad_sz =
    PutLengthPrefixedSliceParts dst pad_sz parts @ replicate pad_sz 0"

text \<open>When the declared length exceeds the input the reader fails, and the
  length it has read is already consumed.\<close>

definition GetLengthPrefixedSlice :: "byte list \<Rightarrow> byte list option \<times> byte list" where
  "GetLengthPrefixedSlice input =
    (case GetVarint32 input of
       None \<Rightarrow> (None, input)
     | Some (len, input') \<Rightarrow>
         if length input' \<ge> unat len
         then (Some (take (unat len) input'), drop (unat len) input')
         else (None, input'))"

definition GetSliceUntil :: "byte list \<Rightarrow> byte \<Rightarrow> byte list \<times> byte list" where
  "GetSliceUntil input delimiter =
    (let ret = takeWhile (\<lambda>c. c \<noteq> delimiter) input; len = length ret
     in (ret, drop (len + (if len < length input then 1 else 0)) input))"


section \<open>What a reader makes of an encoder's bytes\<close>

lemma bit_128: "bit (128 :: 'a::len word) n \<longleftrightarrow> n = 7 \<and> 7 < LENGTH('a)"
proof -
  have "(128 :: 'a word) = push_bit 7 1" by (simp add: push_bit_eq_mult)
  then show ?thesis by (simp only: bit_simps) auto
qed

lemma bit_128_int: "bit (128 :: int) n \<longleftrightarrow> n = 7"
proof -
  have "(128 :: int) = push_bit 7 1" by (simp add: push_bit_eq_mult)
  then show ?thesis by (simp only: bit_simps) auto
qed

lemma and_128_iff: "(b :: byte) AND 128 = 0 \<longleftrightarrow> \<not> bit b 7"
proof
  assume "b AND 128 = 0"
  then have "\<not> bit (b AND 128) 7" by simp
  then show "\<not> bit b 7" by (simp add: bit_simps bit_128)
next
  assume "\<not> bit b 7"
  then show "b AND 128 = 0" by (intro bit_eqI) (auto simp only: bit_and_iff bit_128 bit_0_eq)
qed

lemma and_127: "(v :: 'a::len word) AND 127 = take_bit 7 v"
proof -
  have "(127 :: 'a word) = mask 7" by (simp add: mask_eq_exp_minus_1)
  then show ?thesis by (simp only: take_bit_eq_mask)
qed

lemma take_bit_unat_less: "unat v < 2 ^ n \<Longrightarrow> take_bit n v = v" for v :: "'a::len word"
  by (simp add: word_unat_eq_iff unsigned_take_bit_eq take_bit_nat_eq_self)

lemma loop_more:
  fixes v :: "'a::len word"
  assumes "8 \<le> LENGTH('a)" "s \<le> maxs"
  shows "GetVarint_loop maxs s acc (ucast (v OR 128) # p)
    = GetVarint_loop maxs (s + 7) (acc OR push_bit s (take_bit 7 v)) p"
proof -
  have "take_bit 7 (ucast (ucast (v OR 128) :: byte)) = (take_bit 7 v :: 'a word)"
    using assms by (intro bit_eqI) (auto simp: bit_simps bit_128 bit_128_int)
  moreover have "bit (ucast (v OR 128) :: byte) 7"
    using assms by (simp add: bit_simps bit_128)
  ultimately show ?thesis using assms by (simp add: and_128_iff and_127)
qed

lemma loop_last:
  fixes v :: "'a::len word"
  assumes "8 \<le> LENGTH('a)" "s \<le> maxs" "take_bit 7 v = v"
  shows "GetVarint_loop maxs s acc (ucast v # p) = Some (acc OR push_bit s v, p)"
proof -
  have v: "bit v n \<Longrightarrow> n < 7" for n using assms(3) by (metis bit_take_bit_iff)
  have "ucast (ucast v :: byte) = v"
    using assms by (intro bit_eqI) (auto simp: bit_simps dest: v)
  moreover have "\<not> bit (ucast v :: byte) 7" using v by (auto simp: bit_simps)
  ultimately show ?thesis using assms by (simp add: and_128_iff)
qed

lemma take_or_drop_7: "take_bit 7 v OR push_bit 7 (drop_bit 7 v) = v" for v :: "'a::len word"
proof (rule bit_word_eqI)
  fix n assume "n < LENGTH('a)"
  then show "bit (take_bit 7 v OR push_bit 7 (drop_bit 7 v)) n = bit v n"
    by (cases "n < 7") (auto simp: bit_simps)
qed

lemma push_take_or_drop_7:
  "push_bit s (take_bit 7 v) OR push_bit (s + 7) (drop_bit 7 v) = push_bit s v" for v :: "'a::len word"
proof -
  have "push_bit (s + 7) (drop_bit 7 v) = push_bit s (push_bit 7 (drop_bit 7 v))"
    by (simp add: push_bit_push_bit)
  then show ?thesis
    using push_bit_or [of s "take_bit 7 v" "push_bit 7 (drop_bit 7 v)"] by (simp only: take_or_drop_7)
qed

function uvarint :: "'a::len word \<Rightarrow> byte list" where
  "uvarint v = (if 128 \<le> unat v then ucast (v OR 128) # uvarint (drop_bit 7 v) else [ucast v])"
  by auto
termination
  by (relation "measure unat") (auto intro: drop_bit_7_less)

declare uvarint.simps [simp del]

lemma unat_drop_bit_div: "unat (drop_bit n v) = unat v div 2 ^ n" for v :: "'a::len word"
  unfolding unat_drop_bit_eq by (rule drop_bit_eq_div)

lemma loop_uvarint:
  fixes v :: "'a::len word"
  assumes "8 \<le> LENGTH('a)" "s + 7 * k \<le> maxs" "unat v < 2 ^ (7 * Suc k)"
  shows "GetVarint_loop maxs s acc (uvarint v @ rest) = Some (acc OR push_bit s v, rest)"
  using assms
proof (induction v arbitrary: s acc k rule: uvarint.induct)
  case (1 v)
  show ?case
  proof (cases "128 \<le> unat v")
    case False
    then have "take_bit 7 v = v"
      by (simp add: take_bit_unat_less)
    then show ?thesis using False 1(2,3)
      by (simp add: uvarint.simps loop_last del: GetVarint_loop.simps)
  next
    case True
    then obtain j where j: "k = Suc j" using 1(4) by (cases k) auto
    have lt: "unat (drop_bit 7 v) < 2 ^ (7 * Suc j)"
      using 1(4) unfolding j unat_drop_bit_div
      by (intro less_mult_imp_div_less) (simp add: power_add)
    have "GetVarint_loop maxs s acc (uvarint v @ rest)
      = GetVarint_loop maxs (s + 7) (acc OR push_bit s (take_bit 7 v)) (uvarint (drop_bit 7 v) @ rest)"
      using True 1(2,3)
      by (subst uvarint.simps) (simp add: loop_more del: GetVarint_loop.simps)
    also have "\<dots> = Some ((acc OR push_bit s (take_bit 7 v)) OR push_bit (s + 7) (drop_bit 7 v), rest)"
      using True 1(2,3) lt j by (intro 1(1)) auto
    finally show ?thesis by (simp only: push_take_or_drop_7 or.assoc)
  qed
qed

lemma EncodeVarint64_eq: "EncodeVarint64 v = uvarint v"
proof (induction v rule: EncodeVarint64.induct)
  case (1 v)
  have "ucast ((v AND 127) OR 128) = (ucast (v OR 128) :: byte)"
    by (rule bit_eqI) (auto simp: and_127 bit_simps bit_128 less_Suc_eq numeral_eq_Suc)
  then show ?case using 1
    by (simp add: EncodeVarint64.simps [of v] uvarint.simps [of v] word_le_nat_alt)
qed

lemma uvarint_drop:
  "uvarint (drop_bit n v) = (if unat v < 2 ^ (n + 7) then [ucast (drop_bit n v)]
     else ucast (drop_bit n v OR 128) # uvarint (drop_bit (n + 7) v))" for v :: "'a::len word"
proof -
  have "128 \<le> unat v div 2 ^ n \<longleftrightarrow> \<not> unat v < 2 ^ (n + 7)"
    by (simp add: less_eq_div_iff_mult_less_eq power_add not_less mult.commute)
  then show ?thesis
    by (subst uvarint.simps) (simp add: unat_drop_bit_div add.commute)
qed

lemma EncodeVarint32_eq: "EncodeVarint32 v = uvarint v"
proof -
  have "unat v < 2 ^ 35" using unsigned_less [of v, where ?'a = nat] by simp
  then show ?thesis
    using uvarint_drop [of 0 v] uvarint_drop [of 7 v] uvarint_drop [of 14 v]
      uvarint_drop [of 21 v] uvarint_drop [of 28 v]
    by (simp add: EncodeVarint32_def word_less_nat_alt)
qed

lemma GetVarint32_EncodeVarint32 [codec_simps]: "GetVarint32 (EncodeVarint32 v @ rest) = Some (v, rest)"
proof -
  have fb: "GetVarint32Ptr p = GetVarint32PtrFallback p" for p
    by (cases p) (auto simp: GetVarint32Ptr_def GetVarint32PtrFallback_def)
  have "unat v < 2 ^ (7 * Suc 4)" using unsigned_less [of v, where ?'a = nat] by simp
  from loop_uvarint [OF _ _ this, of 0 28 0 rest] show ?thesis
    by (simp add: GetVarint32_def fb GetVarint32PtrFallback_def EncodeVarint32_eq)
qed

lemma GetVarint64_EncodeVarint64 [codec_simps]: "GetVarint64 (EncodeVarint64 v @ rest) = Some (v, rest)"
proof -
  have "unat v < 2 ^ (7 * Suc 9)" using unsigned_less [of v, where ?'a = nat] by simp
  from loop_uvarint [OF _ _ this, of 0 63 0 rest] show ?thesis
    by (simp add: GetVarint64_def GetVarint64Ptr_def EncodeVarint64_eq)
qed

lemma VarintLength_eq: "VarintLength v = length (EncodeVarint64 v)"
  by (induction v rule: VarintLength.induct)
    (simp add: VarintLength.simps EncodeVarint64.simps)

lemma length_uvarint: "unat v < 2 ^ (7 * Suc k) \<Longrightarrow> length (uvarint v) \<le> Suc k" for v :: "'a::len word"
proof (induction v arbitrary: k rule: uvarint.induct)
  case (1 v)
  show ?case
  proof (cases "128 \<le> unat v")
    case True
    then obtain j where j: "k = Suc j" using 1(2) by (cases k) auto
    have "unat (drop_bit 7 v) < 2 ^ (7 * Suc j)"
      using 1(2) unfolding j unat_drop_bit_div
      by (intro less_mult_imp_div_less) (simp add: power_add)
    from 1(1) [OF True this] show ?thesis using True by (simp add: uvarint.simps [of v] j)
  qed (simp add: uvarint.simps [of v])
qed

lemma length_EncodeVarint64: "length (EncodeVarint64 v) \<le> kMaxVarint64Length"
  using length_uvarint [of v 9] unsigned_less [of v, where ?'a = nat]
  by (simp add: EncodeVarint64_eq kMaxVarint64Length_def)

lemma length_EncodeVarint32: "length (EncodeVarint32 v) \<le> 5"
  by (simp add: EncodeVarint32_def)

lemma signed_drop_63: "signed_drop_bit 63 v = (if bit v 63 then - 1 else 0)" for v :: u64
  by (rule bit_word_eqI) (auto simp: bit_signed_drop_bit_iff not_le Suc_le_eq)

lemma bit_i64ToZigzag:
  "n < 64 \<Longrightarrow> bit (i64ToZigzag v) n \<longleftrightarrow> (n \<noteq> 0 \<and> bit v (n - 1)) \<noteq> bit v 63"
  unfolding i64ToZigzag_def signed_drop_63 by (cases n) (simp_all only: bit_simps, auto)

lemma zigzagToI64_i64ToZigzag [codec_simps]: "zigzagToI64 (i64ToZigzag v) = v"
proof -
  have low: "i64ToZigzag v AND 1 = of_bool (bit v 63)"
    by (rule bit_word_eqI) (auto simp: bit_i64ToZigzag bit_and_iff bit_1_iff)
  show ?thesis
    unfolding zigzagToI64_def low
  proof (rule bit_word_eqI)
    fix n assume n: "n < LENGTH(64)"
    have "bit (drop_bit 1 (i64ToZigzag v)) n \<longleftrightarrow> n < 63 \<and> bit v n \<noteq> bit v 63"
    proof (cases "n = 63")
      case True
      then show ?thesis using bit_imp_le_length [of "i64ToZigzag v" 64] by (auto simp: bit_drop_bit_eq)
    next
      case False
      then show ?thesis using n by (simp add: bit_drop_bit_eq bit_i64ToZigzag)
    qed
    then show "bit (drop_bit 1 (i64ToZigzag v) XOR - of_bool (bit v 63)) n = bit v n"
      using n by (cases "n = 63") (auto simp: bit_xor_iff)
  qed
qed

lemma i64ToZigzag_zigzagToI64: "i64ToZigzag (zigzagToI64 n) = n"
proof -
  have "inj i64ToZigzag" by (metis injI zigzagToI64_i64ToZigzag)
  then have "surj i64ToZigzag" by (rule finite_UNIV_inj_surj [rotated]) simp
  then obtain l where "n = i64ToZigzag l" by blast
  then show ?thesis by (simp add: zigzagToI64_i64ToZigzag)
qed

section \<open>The codecs meet their contract\<close>

lemma GetFixed16_EncodeFixed16 [codec_simps]: "GetFixed16 (EncodeFixed16 v @ rest) = Some (v, rest)"
  by (simp add: GetFixed16_def EncodeFixed16_def DecodeFixed16_def)

lemma GetFixed32_EncodeFixed32 [codec_simps]: "GetFixed32 (EncodeFixed32 v @ rest) = Some (v, rest)"
  by (simp add: GetFixed32_def EncodeFixed32_def DecodeFixed32_def)

lemma GetFixed64_EncodeFixed64 [codec_simps]: "GetFixed64 (EncodeFixed64 v @ rest) = Some (v, rest)"
  by (simp add: GetFixed64_def EncodeFixed64_def DecodeFixed64_def)

lemma GetVarsignedint64_Put [codec_simps]: "GetVarsignedint64 (PutVarsignedint64 [] v @ rest) = Some (v, rest)"
  using GetVarint64_EncodeVarint64 [of "i64ToZigzag v" rest]
  by (simp add: GetVarsignedint64_def PutVarsignedint64_def GetVarint64_def zigzagToI64_i64ToZigzag)

interpretation fixed16: codec EncodeFixed16 GetFixed16
  by unfold_locales (rule GetFixed16_EncodeFixed16)

interpretation fixed32: codec EncodeFixed32 GetFixed32
  by unfold_locales (rule GetFixed32_EncodeFixed32)

interpretation fixed64: codec EncodeFixed64 GetFixed64
  by unfold_locales (rule GetFixed64_EncodeFixed64)

interpretation varint32: codec EncodeVarint32 GetVarint32
  by unfold_locales (rule GetVarint32_EncodeVarint32)

interpretation varint64: codec EncodeVarint64 GetVarint64
  by unfold_locales (rule GetVarint64_EncodeVarint64)

interpretation varsignedint64: codec "PutVarsignedint64 []" GetVarsignedint64
  by unfold_locales (rule GetVarsignedint64_Put)

lemma GetLengthPrefixedSlice_Put:
  assumes "length value < 2 ^ 32"
  shows "GetLengthPrefixedSlice (PutLengthPrefixedSlice [] value @ rest) = (Some value, rest)"
  using assms
  by (simp add: GetLengthPrefixedSlice_def PutLengthPrefixedSlice_def PutVarint32_def
      codec_simps unat_of_nat_small)

lemma GetLengthPrefixedSlice_PutParts:
  assumes "length (concat parts) + pad_sz < 2 ^ 32"
  shows "GetLengthPrefixedSlice (PutLengthPrefixedSlicePartsWithPadding [] parts pad_sz @ rest)
    = (Some (concat parts @ replicate pad_sz 0), rest)"
proof -
  have "pad_sz + sum_list (map length parts) < 2 ^ LENGTH(32)"
    using assms by (simp add: length_concat)
  from unat_of_nat_small [OF this] show ?thesis
    by (simp add: GetLengthPrefixedSlice_def PutLengthPrefixedSlicePartsWithPadding_def
        PutLengthPrefixedSliceParts_def PutVarint32_def codec_simps length_concat del: of_nat_add)
qed

lemma GetSliceUntil_split:
  assumes "delimiter \<notin> set xs"
  shows "GetSliceUntil (xs @ delimiter # rest) delimiter = (xs, rest)"
    and "GetSliceUntil xs delimiter = (xs, [])"
proof -
  have tw: "takeWhile (\<lambda>c. c \<noteq> delimiter) xs = xs" "\<forall>x\<in>set xs. x \<noteq> delimiter"
    using assms by (auto simp: takeWhile_eq_all_conv)
  show "GetSliceUntil (xs @ delimiter # rest) delimiter = (xs, rest)"
    and "GetSliceUntil xs delimiter = (xs, [])"
    unfolding GetSliceUntil_def Let_def using tw(2) by (simp_all add: tw(1) takeWhile_append2)
qed

section \<open>Properties of the codecs\<close>

lemma uvarint_ucast: "uvarint (ucast (v :: u32) :: u64) = uvarint v"
proof (induction v rule: uvarint.induct)
  case (1 v)
  have u: "unat (ucast v :: u64) = unat v" 
    using unsigned_less [of v, where ?'a = nat] by (simp add: unsigned_ucast_eq take_bit_nat_eq_self)
  have d: "drop_bit 7 (ucast v :: u64) = ucast (drop_bit 7 v)"
    by (rule bit_word_eqI) (auto simp: bit_simps dest: bit_imp_le_length)
  have c: "ucast ((ucast v :: u64) OR 128) = (ucast (v OR 128) :: byte)"
    by (rule bit_word_eqI) (auto simp: bit_simps bit_128)
  have b: "ucast (ucast v :: u64) = (ucast v :: byte)"
    by (rule bit_word_eqI) (auto simp: bit_simps)
  show ?case using 1 by (simp add: uvarint.simps [of v] uvarint.simps [of "ucast v"] u d c b)
qed

lemma GetVarint_loop_consumes:
  "GetVarint_loop maxs s acc input = Some (v, rest) \<Longrightarrow>
   \<exists>p. input = p @ rest \<and> p \<noteq> [] \<and> s + 7 * (length p - 1) \<le> maxs"
proof (induction maxs s acc input rule: GetVarint_loop.induct)
  case (2 maxs s acc b p)
  show ?case
  proof (cases "b AND 128 = 0")
    case True
    then show ?thesis using "2.prems" by (intro exI [of _ "[b]"]) (auto split: if_splits)
  next
    case False
    then obtain q where "p = q @ rest" "q \<noteq> []" "s + 7 + 7 * (length q - 1) \<le> maxs"
      using 2 by (auto split: if_splits)
    then show ?thesis by (intro exI [of _ "b # q"]) (cases q, auto)
  qed
qed simp

text \<open>
  Round trips of the integer codecs.  Every fixed-width, varint and zigzag reader returns
  the value its writer encoded and leaves the bytes that follow, and the zigzag map is a
  bijection.
\<close>

theorem integer_codecs_roundtrip:
  "GetFixed16 (EncodeFixed16 a @ rest) = Some (a, rest)
   \<and> GetFixed32 (EncodeFixed32 b @ rest) = Some (b, rest)
   \<and> GetFixed64 (EncodeFixed64 c @ rest) = Some (c, rest)
   \<and> GetVarint32 (PutVarint32 [] b @ rest) = Some (b, rest)
   \<and> GetVarint64 (PutVarint64 [] c @ rest) = Some (c, rest)
   \<and> GetVarsignedint64 (PutVarsignedint64 [] c @ rest) = Some (c, rest)
   \<and> zigzagToI64 (i64ToZigzag c) = c \<and> i64ToZigzag (zigzagToI64 c) = c"
  by (simp add: fixed16.dec_enc fixed32.dec_enc fixed64.dec_enc varint32.dec_enc varint64.dec_enc
      varsignedint64.dec_enc PutVarint32_def PutVarint64_def zigzagToI64_i64ToZigzag i64ToZigzag_zigzagToI64)

text \<open>
  C32: the unrolled 32-bit varint writer and the loop of the 64-bit writer produce the same
  bytes for the same number, \<^verbatim>\<open>VarintLength\<close> is the number of bytes written, no encoding is longer than
  the buffers the callers reserve, and no encoding is a prefix of the encoding of another value.
\<close>

theorem varint_writers_agree:
  "EncodeVarint32 v = EncodeVarint64 (ucast v)
   \<and> length (EncodeVarint64 w) = VarintLength w \<and> 1 \<le> VarintLength w \<and> VarintLength w \<le> kMaxVarint64Length
   \<and> length (EncodeVarint32 v) \<le> 5
   \<and> (EncodeVarint64 w @ r = EncodeVarint64 w' @ r' \<longleftrightarrow> w = w' \<and> r = r')"
proof -
  have "1 \<le> VarintLength w" by (subst VarintLength.simps) simp
  moreover have "EncodeVarint64 w @ r = EncodeVarint64 w' @ r' \<longleftrightarrow> w = w' \<and> r = r'"
    using varint64.enc_prefix_free by blast
  ultimately show ?thesis
    using VarintLength_eq [of w] length_EncodeVarint64 [of w] length_EncodeVarint32 [of v]
    by (simp add: EncodeVarint32_eq EncodeVarint64_eq uvarint_ucast)
qed

text \<open>
  A varint reader is safe on arbitrary input.  When it succeeds it has consumed a non-empty
  prefix of at most five (32-bit) or ten (64-bit) bytes of the input; on an empty input and on
  more continuation bytes than that it fails.
\<close>

theorem varint_readers_bounded:
  "(\<forall>v rest. GetVarint32 input = Some (v, rest) \<longrightarrow> (\<exists>p. input = p @ rest \<and> 1 \<le> length p \<and> length p \<le> 5))
   \<and> (\<forall>v rest. GetVarint64 input = Some (v, rest) \<longrightarrow>
        (\<exists>p. input = p @ rest \<and> 1 \<le> length p \<and> length p \<le> kMaxVarint64Length))
   \<and> GetVarint32 [] = None \<and> GetVarint64 [] = None"
proof -
  have fb: "GetVarint32Ptr p = GetVarint32PtrFallback p" for p
    by (cases p) (auto simp: GetVarint32Ptr_def GetVarint32PtrFallback_def)
  have c32: "\<exists>p. input = p @ rest \<and> 1 \<le> length p \<and> length p \<le> 5" if "GetVarint32 input = Some (v, rest)" for v rest
    using GetVarint_loop_consumes [of 28 0 0 input v rest] that
    by (auto simp: GetVarint32_def fb GetVarint32PtrFallback_def Suc_le_eq)
  have "\<exists>p. input = p @ rest \<and> 1 \<le> length p \<and> length p \<le> kMaxVarint64Length"
    if "GetVarint64 input = Some (v, rest)" for v rest
    using GetVarint_loop_consumes [of 63 0 0 input v rest] that
    by (auto simp: GetVarint64_def GetVarint64Ptr_def Suc_le_eq kMaxVarint64Length_def)
  with c32 show ?thesis
    by (simp add: GetVarint32_def GetVarint64_def GetVarint64Ptr_def fb GetVarint32PtrFallback_def)
qed

theorem varint_readers_bounded_witness:
  "GetVarint32 [172, 2, 7] = Some (300, [7]) \<and> (\<exists>p. [172, 2, 7 :: byte] = p @ [7] \<and> 1 \<le> length p \<and> length p \<le> 5)
   \<and> GetVarint32 [255, 255, 255, 255, 255, 255] = None"
proof -
  have "GetVarint32 [172, 2, 7] = Some (300, [7])" by code_simp
  moreover have "GetVarint32 [255, 255, 255, 255, 255, 255] = None" by code_simp
  ultimately show ?thesis using varint_readers_bounded [of "[172, 2, 7]"] by blast
qed

text \<open>
  Length-prefixed slices are read back whole, also those written in parts with padding; a slice
  written up to a delimiter it does not contain is read back without the delimiter.
\<close>

lemma slice_roundtrip:
  assumes "length (concat parts) + pad_sz < 2 ^ 32" "delimiter \<notin> set tok"
  shows "GetLengthPrefixedSlice (PutLengthPrefixedSlicePartsWithPadding [] parts pad_sz @ rest)
      = (Some (concat parts @ replicate pad_sz 0), rest)
    \<and> GetLengthPrefixedSlice (PutLengthPrefixedSlice [] (concat parts) @ rest) = (Some (concat parts), rest)
    \<and> GetSliceUntil (tok @ delimiter # rest) delimiter = (tok, rest)"
  using assms GetLengthPrefixedSlice_PutParts GetSliceUntil_split(1) GetLengthPrefixedSlice_Put [of "concat parts" rest]
  by auto

end
