(* ===== verification/Redo_Log.thy ===== *)
theory Redo_Log
  imports Address Coding
begin

text \<open>
  The redo logger of a compute node, \<^verbatim>\<open>txn/RedoLogger.h\<close>.  A stream per logical
  region stages records in a local buffer of the size of a remote segment,
  flushes the bytes between \<^verbatim>\<open>flushed_tail\<close> and \<^verbatim>\<open>tail\<close> to the replicas with RDMA
  writes that carry an immediate value, and moves to a new segment when a record
  does not fit.  The operations return the new state and the messages they send.
  The layout is that of a release build (\<^verbatim>\<open>NDEBUG\<close>): assertions have no effect and
  the record header is 22 bytes.  \<^verbatim>\<open>Allocate_Remote_RDMA_Slot\<close> is not modelled here:
  the address it would return is an argument of the operations that may call it.
  All positions are natural numbers: the invariant \<open>stream_ok\<close> keeps them below the
  segment size, so the 64-bit arithmetic of the code does not wrap.
\<close>

section \<open>Record headers\<close>

definition SEGMENT_CLOSE_MARKER :: byte where
  "SEGMENT_CLOSE_MARKER = 36"

definition AUTO_FLUSH_THRESHOLD :: nat where
  "AUTO_FLUSH_THRESHOLD = 1024 * 1024"

definition RECORD_MAGIC :: u16 where
  "RECORD_MAGIC = 0x4C52"

record RecordHeader =
  magic :: u16
  page_gaddr :: GlobalAddress
  page_version :: u64
  payload_len :: u32

definition sizeof_RecordHeader :: nat where
  "sizeof_RecordHeader = 22"

definition header_bytes :: "RecordHeader \<Rightarrow> byte list" where
  "header_bytes h = le_bytes 2 (magic h) @ le_bytes 8 (gval (page_gaddr h))
    @ le_bytes 8 (page_version h) @ le_bytes 4 (payload_len h)"

definition header_of_bytes :: "byte list \<Rightarrow> RecordHeader" where
  "header_of_bytes bs =
    \<lparr>magic = le_word (take 2 bs), page_gaddr = gaddr_of_val (le_word (take 8 (drop 2 bs))),
     page_version = le_word (take 8 (drop 10 bs)), payload_len = le_word (take 4 (drop 18 bs))\<rparr>"

lemma length_header_bytes [simp]: "length (header_bytes h) = sizeof_RecordHeader"
  by (simp add: header_bytes_def sizeof_RecordHeader_def)

lemma header_of_header_bytes [simp, codec_simps]: "header_of_bytes (header_bytes h @ rest) = h"
  by (simp add: header_of_bytes_def header_bytes_def)

text \<open>The first byte of a record is the low byte of the magic, so a record is never
  mistaken for the marker that closes a segment.\<close>

lemma hd_header_bytes: "magic h = RECORD_MAGIC \<Longrightarrow> header_bytes h ! 0 \<noteq> SEGMENT_CLOSE_MARKER"
  by (simp add: header_bytes_def nth_append le_bytes_def RECORD_MAGIC_def SEGMENT_CLOSE_MARKER_def)


section \<open>Streams\<close>

datatype ReplicaWriteMode = WRITE_ONE_REPLICA | WRITE_ALL_REPLICAS

record StreamState =
  st_region :: u16
  st_file :: "byte list option"
  stage_mr :: mem
  stage_cap :: nat
  current_segment_addr :: GlobalAddress
  current_segment_size :: nat
  tail :: nat
  flushed_tail :: nat
  free_segments :: "GlobalAddress list"
  pending_recycle_acks :: "u64 \<rightharpoonup> nat"

datatype log_msg =
    LogSegmentRequest (msg_dest: u16) (req_segment: GlobalAddress) (req_compute: u16) (req_region: u16)
      (req_size: nat) (req_new: bool)
  | WriteImm (msg_dest: u16) (imm_addr: u64) (imm_bytes: "byte list") (imm_data: u32)

definition SendLogSegmentRPC ::
  "logical_groups \<Rightarrow> u16 \<Rightarrow> u16 \<Rightarrow> GlobalAddress \<Rightarrow> nat \<Rightarrow> bool \<Rightarrow> log_msg list" where
  "SendLogSegmentRPC gs compute_node_id region segment_addr segment_size is_new_stream =
    (let replicas = GetReplicaSet gs region in
     if replicas = [] then []
     else if length replicas = 1 then []
     else map (\<lambda>r. LogSegmentRequest (phys_id r) segment_addr compute_node_id region segment_size is_new_stream)
            (tl replicas))"

definition encode_imm :: "nat \<Rightarrow> u16 \<Rightarrow> u32" where
  "encode_imm to_flush region = push_bit 8 (of_nat to_flush) OR ucast region"

definition FlushLocked ::
  "logical_groups \<Rightarrow> ReplicaWriteMode \<Rightarrow> StreamState \<Rightarrow> StreamState \<times> log_msg list" where
  "FlushLocked gs mode s =
    (let current_tail = tail s; ftail = flushed_tail s; to_flush = current_tail - ftail in
     if to_flush = 0 then (s, [])
     else
       let remote = GADD (current_segment_addr s) (int ftail);
           bytes = load_bytes ftail to_flush (stage_mr s);
           replicas = GetReplicaSet gs (nodeID remote);
           start_idx = 1;
           end_idx = (if mode = WRITE_ONE_REPLICA then start_idx + 1 else length replicas)
       in
       if start_idx \<ge> length replicas \<or> end_idx > length replicas
       then (s\<lparr>flushed_tail := current_tail\<rparr>, [])
       else
         let imm = encode_imm to_flush (nodeID remote);
             write = (\<lambda>r. case TranslateLogicalToPhysicalAddress gs (nodeID remote) (ucast (goffset remote)) (phys_id r) of
                 Some a \<Rightarrow> [WriteImm (phys_id r) a bytes imm] | None \<Rightarrow> [])
         in (s\<lparr>flushed_tail := current_tail, st_file := map_option (\<lambda>f. f @ bytes) (st_file s)\<rparr>,
             concat (map write (take (end_idx - start_idx) (drop start_idx replicas)))))"

definition AllocateNewSegmentAndNotify ::
  "logical_groups \<Rightarrow> u16 \<Rightarrow> nat \<Rightarrow> GlobalAddress \<Rightarrow> StreamState \<Rightarrow> StreamState \<times> log_msg list" where
  "AllocateNewSegmentAndNotify gs compute_node_id chunk_size fresh s =
    (let s1 = (case free_segments s of
                 seg # segs \<Rightarrow> s\<lparr>current_segment_addr := seg, free_segments := segs,
                                current_segment_size := chunk_size\<rparr>
               | [] \<Rightarrow> s\<lparr>current_segment_addr := fresh, current_segment_size := chunk_size\<rparr>);
         msgs = SendLogSegmentRPC gs compute_node_id (st_region s1) (current_segment_addr s1)
                  (current_segment_size s1) False
     in (s1\<lparr>tail := 0, flushed_tail := 0\<rparr>, msgs))"

definition close_segment :: "StreamState \<Rightarrow> StreamState" where
  "close_segment s =
    (if stage_cap s - tail s > 0
     then s\<lparr>stage_mr := (stage_mr s)(tail s := SEGMENT_CLOSE_MARKER), tail := tail s + 1\<rparr>
     else s)"

text \<open>The part of \<^verbatim>\<open>Append\<close> that runs under the stream's lock.  \<open>ftail\<close> is the flushed
  position read at the start: the code does not read it again after a flush.\<close>

definition AppendLocked ::
  "logical_groups \<Rightarrow> ReplicaWriteMode \<Rightarrow> u16 \<Rightarrow> nat \<Rightarrow> GlobalAddress \<Rightarrow> RecordHeader \<Rightarrow> byte list
    \<Rightarrow> StreamState \<Rightarrow> StreamState \<times> log_msg list" where
  "AppendLocked gs mode compute_node_id chunk_size fresh hdr payload s =
    (let need = sizeof_RecordHeader + unat (payload_len hdr);
         ftail = flushed_tail s;
         (s1, msgs1) =
           (if stage_cap s - tail s < need then
              let sc = close_segment s;
                  (sf, mf) = (if tail sc > ftail then FlushLocked gs mode sc else (sc, []));
                  (sn, mn) = AllocateNewSegmentAndNotify gs compute_node_id chunk_size fresh sf
              in (sn, mf @ mn)
            else (s, []));
         (s2, msgs2) =
           (if tail s1 > ftail \<and> tail s1 - ftail \<ge> AUTO_FLUSH_THRESHOLD
            then FlushLocked gs mode s1 else (s1, []));
         m1 = store_bytes (tail s2) (header_bytes hdr) (stage_mr s2);
         t1 = tail s2 + sizeof_RecordHeader;
         (m2, t2) = (if payload_len hdr \<noteq> 0
                     then (store_bytes t1 (take (unat (payload_len hdr)) payload) m1, t1 + unat (payload_len hdr))
                     else (m1, t1))
     in (s2\<lparr>stage_mr := m2, tail := t2\<rparr>, msgs1 @ msgs2))"


section \<open>The logger\<close>

record RedoLogger =
  rl_compute_node_id :: u16
  rl_mode :: ReplicaWriteMode
  rl_enable_file_system :: bool
  rl_streams :: "u16 \<rightharpoonup> StreamState"

definition new_stream :: "RedoLogger \<Rightarrow> nat \<Rightarrow> mem \<Rightarrow> u16 \<Rightarrow> GlobalAddress \<Rightarrow> StreamState" where
  "new_stream lg chunk_size buf region seg =
    \<lparr>st_region = region, st_file = (if rl_enable_file_system lg then Some [] else None),
     stage_mr = buf, stage_cap = chunk_size, current_segment_addr = seg,
     current_segment_size = chunk_size, tail = 0, flushed_tail = 0, free_segments = [],
     pending_recycle_acks = Map.empty\<rparr>"

text \<open>\<open>buf\<close> is the content of the freshly allocated staging buffer, whose length is the chunk size
  of the pool, and \<open>seg\<close> the remote segment the allocator returns.\<close>

definition GetOrCreateStream ::
  "logical_groups \<Rightarrow> nat \<Rightarrow> mem \<Rightarrow> GlobalAddress \<Rightarrow> u16 \<Rightarrow> RedoLogger
    \<Rightarrow> RedoLogger \<times> StreamState \<times> log_msg list" where
  "GetOrCreateStream gs chunk_size buf seg region lg =
    (case rl_streams lg region of
       Some s \<Rightarrow> (lg, s, [])
     | None \<Rightarrow>
         let s = new_stream lg chunk_size buf region seg;
             msgs = SendLogSegmentRPC gs (rl_compute_node_id lg) region seg chunk_size True
         in (lg\<lparr>rl_streams := (rl_streams lg)(region \<mapsto> s)\<rparr>, s, msgs))"

definition mk_header :: "GlobalAddress \<Rightarrow> u64 \<Rightarrow> u32 \<Rightarrow> RecordHeader" where
  "mk_header gaddr version len =
    \<lparr>magic = RECORD_MAGIC, page_gaddr = gaddr, page_version = version, payload_len = len\<rparr>"

definition Append ::
  "logical_groups \<Rightarrow> nat \<Rightarrow> mem \<Rightarrow> GlobalAddress \<Rightarrow> GlobalAddress \<Rightarrow> u16 \<Rightarrow> GlobalAddress \<Rightarrow> u64
    \<Rightarrow> byte list \<Rightarrow> u32 \<Rightarrow> RedoLogger \<Rightarrow> RedoLogger \<times> log_msg list" where
  "Append gs chunk_size buf seg0 seg1 region gaddr version payload len lg =
    (let (lg1, s, m0) = GetOrCreateStream gs chunk_size buf seg0 region lg;
         (s', m1) = AppendLocked gs (rl_mode lg) (rl_compute_node_id lg) chunk_size seg1
                      (mk_header gaddr version len) payload s
     in (lg1\<lparr>rl_streams := (rl_streams lg1)(region \<mapsto> s')\<rparr>, m0 @ m1))"

definition Flush :: "logical_groups \<Rightarrow> u16 \<Rightarrow> RedoLogger \<Rightarrow> RedoLogger \<times> log_msg list" where
  "Flush gs region lg =
    (case rl_streams lg region of
       None \<Rightarrow> (lg, [])
     | Some s \<Rightarrow>
         let (s', m) = FlushLocked gs (rl_mode lg) s
         in (lg\<lparr>rl_streams := (rl_streams lg)(region \<mapsto> s')\<rparr>, m))"

text \<open>\<open>FlushAll\<close> visits the streams in the order the hash map iterates over its keys.\<close>

fun FlushAll :: "logical_groups \<Rightarrow> u16 list \<Rightarrow> RedoLogger \<Rightarrow> RedoLogger \<times> log_msg list" where
  "FlushAll gs [] lg = (lg, [])"
| "FlushAll gs (k # ks) lg =
    (let (lg1, m1) = Flush gs k lg; (lg2, m2) = FlushAll gs ks lg1 in (lg2, m1 @ m2))"

definition UnflushedBytes :: "u16 \<Rightarrow> RedoLogger \<Rightarrow> nat" where
  "UnflushedBytes region lg =
    (case rl_streams lg region of None \<Rightarrow> 0 | Some s \<Rightarrow> tail s - flushed_tail s)"

fun recycle_acks :: "nat \<Rightarrow> GlobalAddress list \<Rightarrow> StreamState \<Rightarrow> StreamState" where
  "recycle_acks required_acks [] s = s"
| "recycle_acks required_acks (seg # segs) s =
    (let key = gval seg;
         acks = (case pending_recycle_acks s key of None \<Rightarrow> 1 | Some n \<Rightarrow> n + 1);
         s1 = (if acks \<ge> required_acks
               then s\<lparr>free_segments := free_segments s @ [seg],
                     pending_recycle_acks := (pending_recycle_acks s)(key := None)\<rparr>
               else s\<lparr>pending_recycle_acks := (pending_recycle_acks s)(key \<mapsto> acks)\<rparr>)
     in recycle_acks required_acks segs s1)"

definition HandleLogSegmentRecycle ::
  "logical_groups \<Rightarrow> u16 \<Rightarrow> GlobalAddress list \<Rightarrow> RedoLogger \<Rightarrow> RedoLogger" where
  "HandleLogSegmentRecycle gs region segment_addrs lg =
    (case rl_streams lg region of
       None \<Rightarrow> lg
     | Some s \<Rightarrow>
         let replicas = GetReplicaSet gs region in
         if replicas = [] then lg
         else
           let required_acks = (if rl_mode lg = WRITE_ALL_REPLICAS then length replicas - 1 else 1)
           in lg\<lparr>rl_streams := (rl_streams lg)(region \<mapsto> recycle_acks required_acks segment_addrs s)\<rparr>)"


section \<open>The messages a replica receives\<close>

type_synonym log_record = "RecordHeader \<times> byte list"

definition rec_bytes :: "log_record \<Rightarrow> byte list" where
  "rec_bytes r = header_bytes (fst r) @ snd r"

definition rec_ok :: "nat \<Rightarrow> log_record \<Rightarrow> bool" where
  "rec_ok cap r \<longleftrightarrow> magic (fst r) = RECORD_MAGIC \<and> length (snd r) = unat (payload_len (fst r))
    \<and> length (rec_bytes r) \<le> cap"

abbreviation recs_bytes :: "log_record list \<Rightarrow> byte list" where
  "recs_bytes rs \<equiv> concat (map rec_bytes rs)"

definition to_dest :: "u16 \<Rightarrow> log_msg list \<Rightarrow> log_msg list" where
  "to_dest d ms = filter (\<lambda>m. msg_dest m = d) ms"

lemma to_dest_append [simp]: "to_dest d (ms @ ns) = to_dest d ms @ to_dest d ns"
  by (simp add: to_dest_def)

lemma to_dest_Nil [simp]: "to_dest d [] = []"
  by (simp add: to_dest_def)

text \<open>A copy of a region that log records reach: any copy but the primary.\<close>

definition is_replica :: "logical_groups \<Rightarrow> u16 \<Rightarrow> PhysicalRegion \<Rightarrow> bool" where
  "is_replica gs region r \<longleftrightarrow> r \<in> set (tl (GetReplicaSet gs region))
    \<and> distinct (map phys_id (GetReplicaSet gs region))"

lemma filter_dest_unique:
  assumes "distinct (map phys_id rs)" "r \<in> set rs" "\<And>x. msg_dest (f x) = phys_id x"
  shows "filter (\<lambda>m. msg_dest m = phys_id r) (map f rs) = [f r]"
  using assms
proof (induction rs)
  case (Cons a rs)
  have empty: "filter (\<lambda>m. msg_dest m = phys_id a) (map f rs) = []"
    using Cons.prems by (force simp: filter_empty_conv image_iff)
  show ?case
  proof (cases "a = r")
    case True
    then show ?thesis using empty Cons.prems by simp
  next
    case False
    then have "phys_id a \<noteq> phys_id r" using Cons.prems by auto
    then show ?thesis using False Cons by simp
  qed
qed simp

lemma to_dest_SendLogSegmentRPC:
  assumes "is_replica gs region r"
  shows "to_dest (phys_id r) (SendLogSegmentRPC gs c region a n new)
    = [LogSegmentRequest (phys_id r) a c region n new]"
proof -
  obtain p rs where rs: "GetReplicaSet gs region = p # rs" "r \<in> set rs" "distinct (map phys_id rs)"
    using assms by (cases "GetReplicaSet gs region") (auto simp: is_replica_def)
  then have "rs \<noteq> []" by auto
  then show ?thesis
    using filter_dest_unique [OF rs(3,2), of "\<lambda>r. LogSegmentRequest (phys_id r) a c region n new"] rs
    by (simp add: SendLogSegmentRPC_def to_dest_def Let_def)
qed

lemma Translate_replica:
  assumes "is_replica gs region r"
  shows "TranslateLogicalToPhysicalAddress gs region off (phys_id r) = Some (base_ptr r + off)"
proof -
  have "find (\<lambda>x. phys_id x = phys_id r) rs = Some r" if "r \<in> set rs" "distinct (map phys_id rs)" for rs
    using that by (induction rs) auto
  moreover obtain g where "gs region = Some g"
    using assms by (cases "gs region") (auto simp: is_replica_def GetReplicaSet_def)
  ultimately show ?thesis
    using assms by (auto simp: is_replica_def GetReplicaSet_def TranslateLogicalToPhysicalAddress_def
        dest: list.set_sel(2) [rotated] split: option.splits) 
       (metis list.sel(2) list.set_sel(2))
qed


lemma concat_map_single: "(\<And>x. x \<in> set xs \<Longrightarrow> f x = [g x]) \<Longrightarrow> concat (map f xs) = map g xs"
  by (induction xs) auto

lemma is_replica_tl:
  assumes "is_replica gs region r" "x \<in> set (tl (GetReplicaSet gs region))"
  shows "is_replica gs region x"
  using assms by (simp add: is_replica_def)

definition seg_fits :: "nat \<Rightarrow> GlobalAddress \<Rightarrow> bool" where
  "seg_fits cap a \<longleftrightarrow> unat (goffset a) + cap < 2 ^ 48"

definition seg_phys :: "PhysicalRegion \<Rightarrow> GlobalAddress \<Rightarrow> u64" where
  "seg_phys r a = base_ptr r + ucast (goffset a)"

lemma seg_phys_GADD:
  assumes "seg_fits cap a" "n \<le> cap"
  shows "seg_phys r (GADD a (int n)) = seg_phys r a + of_nat n"
proof -
  have "unat (goffset a) + n < 2 ^ 48" using assms by (simp add: seg_fits_def)
  then have "unat (goffset a + of_nat n :: 48 word) = unat (goffset a) + n"
    by (simp add: unat_word_ariths unsigned_of_nat take_bit_nat_eq_self mod_less)
  then have "(ucast (goffset a + of_nat n :: 48 word) :: u64) = ucast (goffset a) + of_nat n"
    using \<open>unat (goffset a) + n < 2 ^ 48\<close>
    by (simp add: word_unat_eq_iff unsigned_ucast_eq take_bit_nat_eq_self unat_word_ariths unsigned_of_nat)
  then show ?thesis by (simp add: seg_phys_def GADD_def)
qed

lemma FlushLocked_idle: "tail s \<le> flushed_tail s \<Longrightarrow> FlushLocked gs mode s = (s, [])"
  by (simp add: FlushLocked_def)

lemma FlushLocked_replica:
  assumes "is_replica gs region r" "nodeID (current_segment_addr s) = region"
    and "flushed_tail s < tail s" "seg_fits (stage_cap s) (current_segment_addr s)" "tail s \<le> stage_cap s"
    and "FlushLocked gs WRITE_ALL_REPLICAS s = (s', ms)"
  defines "bytes \<equiv> load_bytes (flushed_tail s) (tail s - flushed_tail s) (stage_mr s)"
  shows "s' = s\<lparr>flushed_tail := tail s, st_file := map_option (\<lambda>f. f @ bytes) (st_file s)\<rparr>"
    and "to_dest (phys_id r) ms = [WriteImm (phys_id r)
      (seg_phys r (current_segment_addr s) + of_nat (flushed_tail s)) bytes
      (encode_imm (tail s - flushed_tail s) region)]"
proof -
  let ?rem = "GADD (current_segment_addr s) (int (flushed_tail s))"
  let ?imm = "encode_imm (tail s - flushed_tail s) region"
  let ?w = "\<lambda>x. WriteImm (phys_id x) (seg_phys x ?rem) bytes ?imm"
  obtain p rs where rs: "GetReplicaSet gs region = p # rs" "r \<in> set rs" "distinct (map phys_id rs)"
    using assms(1) by (cases "GetReplicaSet gs region") (auto simp: is_replica_def)
  have node: "nodeID ?rem = region" using assms(2) by (simp add: GADD_def)
  have tr: "TranslateLogicalToPhysicalAddress gs region (ucast (goffset ?rem)) (phys_id x) = Some (seg_phys x ?rem)"
    if "x \<in> set rs" for x
    using Translate_replica is_replica_tl [OF assms(1), of x] rs(1) that by (simp add: seg_phys_def)
  have ms: "concat (map (\<lambda>x. case TranslateLogicalToPhysicalAddress gs region (ucast (goffset ?rem)) (phys_id x) of
        None \<Rightarrow> [] | Some a \<Rightarrow> [WriteImm (phys_id x) a bytes ?imm]) rs) = map ?w rs"
    by (rule concat_map_single) (simp add: tr)
  have "rs \<noteq> []" using rs by auto
  then have fl: "FlushLocked gs WRITE_ALL_REPLICAS s
      = (s\<lparr>flushed_tail := tail s, st_file := map_option (\<lambda>f. f @ bytes) (st_file s)\<rparr>, map ?w rs)"
    using assms(3) ms unfolding FlushLocked_def Let_def node bytes_def by (simp add: rs(1) Suc_le_eq)
  then show "s' = s\<lparr>flushed_tail := tail s, st_file := map_option (\<lambda>f. f @ bytes) (st_file s)\<rparr>"
    using assms(6) by simp
  have "to_dest (phys_id r) ms = [?w r]"
    using filter_dest_unique [OF rs(3,2), of ?w] fl assms(6) by (simp add: to_dest_def)
  then show "to_dest (phys_id r) ms = [WriteImm (phys_id r)
      (seg_phys r (current_segment_addr s) + of_nat (flushed_tail s)) bytes ?imm]"
    using seg_phys_GADD [OF assms(4), of "flushed_tail s" r] assms(3,5) by simp
qed


section \<open>What a replica holds of a stream\<close>

text \<open>The view of a replica: the announced segments with the bytes written into them.  A write
  that does not continue the last segment has no view.\<close>

type_synonym replica_view = "(GlobalAddress \<times> byte list) list"

definition imm_size :: "u32 \<Rightarrow> nat" where
  "imm_size imm = unat (drop_bit 8 imm)"

definition imm_region :: "u32 \<Rightarrow> u16" where
  "imm_region imm = ucast (imm AND 0xFF)"

lemma imm_roundtrip:
  assumes "n < 2 ^ 24" "region < 256"
  shows "imm_size (encode_imm n region) = n" "imm_region (encode_imm n region) = region"
proof -
  have hi: "bit n k \<Longrightarrow> k < 24" for k
    by (metis assms(1) bit_take_bit_iff take_bit_nat_eq_self)
  have "take_bit 8 region = region"
    using assms(2) by (intro take_bit_unat_less) (simp add: word_less_nat_alt)
  then have lo: "bit region k \<Longrightarrow> k < 8" for k by (metis bit_take_bit_iff)
  have "drop_bit 8 (encode_imm n region) = of_nat n"
    unfolding encode_imm_def
    by (rule bit_word_eqI) (auto simp: bit_simps dest: hi lo)
  then show "imm_size (encode_imm n region) = n"
    using assms(1) by (simp add: imm_size_def unsigned_of_nat take_bit_nat_eq_self)
  have m: "(0xFF :: u32) = mask 8" by (simp add: mask_eq_exp_minus_1)
  show "imm_region (encode_imm n region) = region"
    unfolding imm_region_def encode_imm_def m
    by (rule bit_word_eqI) (auto simp: bit_simps dest: lo)
qed

fun view_msg :: "PhysicalRegion \<Rightarrow> u16 \<Rightarrow> u16 \<Rightarrow> replica_view \<Rightarrow> log_msg \<Rightarrow> replica_view option" where
  "view_msg r c region v (LogSegmentRequest d a c' l n new) =
    (if c' = c \<and> l = region \<and> nodeID a = region then Some (v @ [(a, [])]) else None)"
| "view_msg r c region v (WriteImm d addr bytes imm) =
    (if v \<noteq> [] \<and> addr = seg_phys r (fst (last v)) + of_nat (length (snd (last v)))
        \<and> imm_size imm = length bytes \<and> imm_region imm = region
     then Some (butlast v @ [(fst (last v), snd (last v) @ bytes)]) else None)"

fun view_msgs :: "PhysicalRegion \<Rightarrow> u16 \<Rightarrow> u16 \<Rightarrow> replica_view \<Rightarrow> log_msg list \<Rightarrow> replica_view option" where
  "view_msgs r c region v [] = Some v"
| "view_msgs r c region v (m # ms) =
    (case view_msg r c region v m of None \<Rightarrow> None | Some v' \<Rightarrow> view_msgs r c region v' ms)"

lemma view_msgs_append:
  "view_msgs r c region v (ms @ ns) =
    (case view_msgs r c region v ms of None \<Rightarrow> None | Some v' \<Rightarrow> view_msgs r c region v' ns)"
  by (induction ms arbitrary: v) (auto split: option.splits)

definition seg_ok :: "u16 \<Rightarrow> nat \<Rightarrow> GlobalAddress \<Rightarrow> bool" where
  "seg_ok region cap a \<longleftrightarrow> nodeID a = region \<and> seg_fits cap a"

definition stream_ok :: "StreamState \<Rightarrow> byte list \<Rightarrow> bool" where
  "stream_ok s content \<longleftrightarrow>
     flushed_tail s \<le> tail s \<and> tail s \<le> stage_cap s \<and> load_bytes 0 (tail s) (stage_mr s) = content
     \<and> seg_ok (st_region s) (stage_cap s) (current_segment_addr s)
     \<and> (\<forall>a \<in> set (free_segments s). seg_ok (st_region s) (stage_cap s) a)
     \<and> stage_cap s < 2 ^ 24"

definition view_ok :: "StreamState \<Rightarrow> replica_view \<Rightarrow> replica_view \<Rightarrow> bool" where
  "view_ok s pre v \<longleftrightarrow>
     v = pre @ [(current_segment_addr s, load_bytes 0 (flushed_tail s) (stage_mr s))]"

lemma load_bytes_prefix: "k \<le> n \<Longrightarrow> load_bytes a n m = load_bytes a k m @ load_bytes (a + k) (n - k) m"
  using load_bytes_split [of a k "n - k" m] by simp

lemma view_msgs_WriteImm:
  assumes "view_ok s pre v" "imm_size imm = length bytes" "imm_region imm = region"
    and "addr = seg_phys r (current_segment_addr s) + of_nat (flushed_tail s)"
  shows "view_msgs r c region v [WriteImm d addr bytes imm]
    = Some (pre @ [(current_segment_addr s, load_bytes 0 (flushed_tail s) (stage_mr s) @ bytes)])"
  using assms by (simp add: view_ok_def)

lemma flush_step:
  assumes "stream_ok s content" "view_ok s pre v" "is_replica gs (st_region s) r" "st_region s < 256"
    and "FlushLocked gs WRITE_ALL_REPLICAS s = (s', ms)"
  shows "view_msgs r c (st_region s) v (to_dest (phys_id r) ms) = Some (pre @ [(current_segment_addr s, content)])"
    and "\<exists>f. s' = s\<lparr>flushed_tail := tail s, st_file := f\<rparr>"
proof -
  have ok: "nodeID (current_segment_addr s) = st_region s" "flushed_tail s \<le> tail s" "tail s \<le> stage_cap s"
    "seg_fits (stage_cap s) (current_segment_addr s)" "load_bytes 0 (tail s) (stage_mr s) = content"
    "stage_cap s < 2 ^ 24"
    using assms(1) by (auto simp: stream_ok_def seg_ok_def)
  note parts = load_bytes_prefix [OF ok(2), of 0 "stage_mr s", symmetric]
  show "view_msgs r c (st_region s) v (to_dest (phys_id r) ms) = Some (pre @ [(current_segment_addr s, content)])"
  proof (cases "flushed_tail s < tail s")
    case True
    note f = FlushLocked_replica [OF assms(3) ok(1) True ok(4,3) assms(5)]
    have "tail s - flushed_tail s < 2 ^ 24" using ok by simp
    from imm_roundtrip [OF this assms(4)] show ?thesis
      unfolding f(2) using assms(2) parts ok(5)
      by (subst view_msgs_WriteImm [OF assms(2)]) simp_all
  next
    case False
    then show ?thesis using FlushLocked_idle [of s] assms(2,5) ok by (simp add: view_ok_def)
  qed
  show "\<exists>f. s' = s\<lparr>flushed_tail := tail s, st_file := f\<rparr>"
  proof (cases "flushed_tail s < tail s")
    case True
    then show ?thesis using FlushLocked_replica(1) [OF assms(3) ok(1) True ok(4,3) assms(5)] by blast
  next
    case False
    then have "s' = s\<lparr>flushed_tail := tail s, st_file := st_file s\<rparr>"
      using FlushLocked_idle [of s] assms(5) ok by simp
    then show ?thesis by blast
  qed
qed

lemma flush_keeps_ok:
  assumes "stream_ok s content" "s' = s\<lparr>flushed_tail := tail s, st_file := f\<rparr>"
  shows "stream_ok s' content" "view_ok s' pre (pre @ [(current_segment_addr s, content)])"
  using assms by (auto simp: stream_ok_def view_ok_def)

lemma alloc_step:
  assumes "stream_ok s content" "seg_ok (st_region s) (stage_cap s) fresh"
    and "is_replica gs (st_region s) r"
    and "AllocateNewSegmentAndNotify gs c n fresh s = (s', ms)"
  shows "\<exists>v'. view_msgs r c (st_region s) v (to_dest (phys_id r) ms) = Some v' \<and> view_ok s' v v'"
    and "stream_ok s' [] \<and> tail s' = 0 \<and> flushed_tail s' = 0 \<and> st_region s' = st_region s \<and> stage_cap s' = stage_cap s"
  using assms
  by (auto simp: AllocateNewSegmentAndNotify_def Let_def stream_ok_def view_ok_def
      to_dest_SendLogSegmentRPC seg_ok_def split: list.splits)

lemma close_step:
  assumes "stream_ok s content" "s' = close_segment s"
  shows "\<exists>m. (m = [] \<or> m = [SEGMENT_CLOSE_MARKER]) \<and> stream_ok s' (content @ m)"
    and "view_ok s pre v \<Longrightarrow> view_ok s' pre v"
    and "st_region s' = st_region s \<and> stage_cap s' = stage_cap s \<and> flushed_tail s' = flushed_tail s
      \<and> current_segment_addr s' = current_segment_addr s"
proof -
  have l: "load_bytes 0 n (m(n := x)) = load_bytes 0 n m" "load_bytes 0 (Suc n) (m(n := x)) = load_bytes 0 n m @ [x]" for n m x
    by (auto simp: load_bytes_def)
  show "\<exists>m. (m = [] \<or> m = [SEGMENT_CLOSE_MARKER]) \<and> stream_ok s' (content @ m)"
    using assms by (cases "stage_cap s - tail s > 0") (auto simp: close_segment_def stream_ok_def l)
  show "view_ok s pre v \<Longrightarrow> view_ok s' pre v"
    using assms by (auto simp: close_segment_def view_ok_def stream_ok_def load_bytes_def)
  show "st_region s' = st_region s \<and> stage_cap s' = stage_cap s \<and> flushed_tail s' = flushed_tail s
      \<and> current_segment_addr s' = current_segment_addr s"
    using assms by (simp add: close_segment_def)
qed

lemma store_step:
  assumes "stream_ok s content" "tail s + length bytes \<le> stage_cap s"
    and "s' = s\<lparr>stage_mr := store_bytes (tail s) bytes (stage_mr s), tail := tail s + length bytes\<rparr>"
  shows "stream_ok s' (content @ bytes)" "view_ok s pre v \<Longrightarrow> view_ok s' pre v"
  using assms
  by (auto simp: stream_ok_def view_ok_def load_bytes_split [of 0] load_store_disjoint)


type_synonym closed_segment = "GlobalAddress \<times> log_record list \<times> byte list"

definition closed_bytes :: "closed_segment \<Rightarrow> GlobalAddress \<times> byte list" where
  "closed_bytes c = (case c of (a, rs, m) \<Rightarrow> (a, recs_bytes rs @ m))"

definition closed_ok :: "nat \<Rightarrow> closed_segment \<Rightarrow> bool" where
  "closed_ok cap c = (case c of (a, rs, m) \<Rightarrow>
     (m = [] \<or> m = [SEGMENT_CLOSE_MARKER]) \<and> list_all (rec_ok cap) rs
     \<and> length (recs_bytes rs @ m) \<le> cap)"

text \<open>What a replica holds of a stream: closed segments with whole records and, in the segment
  the logger writes to, the whole records flushed so far.\<close>

definition log_inv :: "StreamState \<Rightarrow> replica_view \<Rightarrow> closed_segment list \<Rightarrow> log_record list \<Rightarrow> nat \<Rightarrow> bool" where
  "log_inv s v closed cur k \<longleftrightarrow>
     stream_ok s (recs_bytes cur) \<and> view_ok s (map closed_bytes closed) v
     \<and> list_all (closed_ok (stage_cap s)) closed \<and> list_all (rec_ok (stage_cap s)) cur
     \<and> k \<le> length cur \<and> flushed_tail s = length (recs_bytes (take k cur))"

lemma store_header_payload:
  assumes "length p = n"
  shows "store_bytes (t + sizeof_RecordHeader) p (store_bytes t (header_bytes h) m) = store_bytes t (header_bytes h @ p) m"
  by (simp add: store_bytes_append) (rule store_store_swap, simp)

lemma log_inv_flush:
  assumes "log_inv s v closed cur k" "is_replica gs (st_region s) r" "st_region s < 256"
    and "FlushLocked gs WRITE_ALL_REPLICAS s = (s', ms)"
  shows "\<exists>v'. view_msgs r c (st_region s) v (to_dest (phys_id r) ms) = Some v' \<and> log_inv s' v' closed cur (length cur)"
    and "\<exists>f. s' = s\<lparr>flushed_tail := tail s, st_file := f\<rparr>"
proof -
  have ok: "stream_ok s (recs_bytes cur)" "view_ok s (map closed_bytes closed) v"
    using assms(1) by (auto simp: log_inv_def)
  from flush_step(2) [OF ok assms(2-4)] obtain f where f: "s' = s\<lparr>flushed_tail := tail s, st_file := f\<rparr>" ..
  then show "\<exists>f. s' = s\<lparr>flushed_tail := tail s, st_file := f\<rparr>" by blast
  have t: "tail s = length (recs_bytes cur)"
    using ok(1) length_load_bytes [of 0 "tail s" "stage_mr s"] by (simp add: stream_ok_def)
  have "log_inv s' (map closed_bytes closed @ [(current_segment_addr s, recs_bytes cur)]) closed cur (length cur)"
    using assms(1) flush_keeps_ok [OF ok(1) f] t f by (simp add: log_inv_def)
  then show "\<exists>v'. view_msgs r c (st_region s) v (to_dest (phys_id r) ms) = Some v' \<and> log_inv s' v' closed cur (length cur)"
    using flush_step(1) [OF ok assms(2-4)] by blast
qed

lemma log_inv_new_segment:
  assumes "log_inv s v closed cur k" "is_replica gs (st_region s) r" "st_region s < 256"
    and "seg_ok (st_region s) (stage_cap s) fresh" "sc = close_segment s"
    and "(if tail sc > flushed_tail s then FlushLocked gs WRITE_ALL_REPLICAS sc else (sc, [])) = (sf, mf)"
    and "AllocateNewSegmentAndNotify gs c n fresh sf = (s', mn)"
  shows "\<exists>v' a m. view_msgs r c (st_region s) v (to_dest (phys_id r) (mf @ mn)) = Some v'
     \<and> log_inv s' v' (closed @ [(a, cur, m)]) [] 0"
    and "st_region s' = st_region s \<and> stage_cap s' = stage_cap s \<and> tail s' = 0"
proof -
  have ok: "stream_ok s (recs_bytes cur)" "view_ok s (map closed_bytes closed) v"
    using assms(1) by (auto simp: log_inv_def)
  note cl = close_step [OF ok(1) assms(5)]
  obtain m where m: "m = [] \<or> m = [SEGMENT_CLOSE_MARKER]" "stream_ok sc (recs_bytes cur @ m)"
    using cl(1) by blast
  have "FlushLocked gs WRITE_ALL_REPLICAS sc = (sf, mf)"
    using assms(6) cl(3) FlushLocked_idle [of sc] by (auto split: if_splits)
  note fl = flush_step [OF m(2) cl(2) [OF ok(2)] _ _ this, of r]
  obtain f where f: "sf = sc\<lparr>flushed_tail := tail sc, st_file := f\<rparr>" using fl(2) assms(2,3) cl(3) by auto
  let ?a = "current_segment_addr s"
  let ?v1 = "map closed_bytes closed @ [(?a, recs_bytes cur @ m)]"
  have v1: "view_msgs r c (st_region s) v (to_dest (phys_id r) mf) = Some ?v1" using fl(1) assms(2,3) cl(3) by simp
  have ok1: "stream_ok sf (recs_bytes cur @ m)" using flush_keeps_ok(1) [OF m(2) f] .
  have reg: "st_region sf = st_region s" "stage_cap sf = stage_cap s" using f cl(3) by simp_all
  note al = alloc_step [OF ok1 _ _ assms(7), unfolded reg, OF assms(4,2)]
  obtain v' where v': "view_msgs r c (st_region s) ?v1 (to_dest (phys_id r) mn) = Some v'" "view_ok s' ?v1 v'"
    using al(1) [of ?v1] by blast
  have "length (recs_bytes cur @ m) \<le> stage_cap s"
    using m(2) cl(3) length_load_bytes [of 0 "tail sc" "stage_mr sc"] by (simp add: stream_ok_def)
  note fit = this
  have pre: "?v1 = map closed_bytes (closed @ [(?a, cur, m)])" by (simp add: closed_bytes_def)
  have "log_inv s' v' (closed @ [(?a, cur, m)]) [] 0"
    using al(2) v'(2) assms(1) m(1) fit unfolding pre by (simp add: log_inv_def closed_ok_def)
  moreover have "view_msgs r c (st_region s) v (to_dest (phys_id r) (mf @ mn)) = Some v'"
    using v1 v'(1) by (simp add: view_msgs_append)
  ultimately show "\<exists>v' a m. view_msgs r c (st_region s) v (to_dest (phys_id r) (mf @ mn)) = Some v'
     \<and> log_inv s' v' (closed @ [(a, cur, m)]) [] 0" by blast
  show "st_region s' = st_region s \<and> stage_cap s' = stage_cap s \<and> tail s' = 0" using al(2) by simp
qed


definition logged :: "closed_segment list \<Rightarrow> log_record list \<Rightarrow> log_record list" where
  "logged closed cur = concat (map (\<lambda>(a, rs, m). rs) closed) @ cur"

lemma log_inv_store:
  assumes "log_inv s v closed cur k" "rec_ok (stage_cap s) (hdr, payload)"
    and "tail s + length (rec_bytes (hdr, payload)) \<le> stage_cap s"
    and "s' = s\<lparr>stage_mr := store_bytes (tail s) (rec_bytes (hdr, payload)) (stage_mr s),
                tail := tail s + length (rec_bytes (hdr, payload))\<rparr>"
  shows "log_inv s' v closed (cur @ [(hdr, payload)]) k"
proof -
  have ok: "stream_ok s (recs_bytes cur)" "view_ok s (map closed_bytes closed) v"
    using assms(1) by (auto simp: log_inv_def)
  from store_step [OF ok(1) assms(3,4)] ok(2) assms(1,2,4) show ?thesis
    by (simp add: log_inv_def)
qed

lemma AppendLocked_split:
  assumes "length payload = unat (payload_len hdr)"
    and "(if stage_cap s - tail s < length (rec_bytes (hdr, payload)) then
            (let sc = close_segment s;
                 (sf, mf) = (if tail sc > flushed_tail s then FlushLocked gs mode sc else (sc, []));
                 (sn, mn) = AllocateNewSegmentAndNotify gs c n fresh sf in (sn, mf @ mn))
          else (s, [])) = (s1, m1)"
    and "(if tail s1 > flushed_tail s \<and> tail s1 - flushed_tail s \<ge> AUTO_FLUSH_THRESHOLD
          then FlushLocked gs mode s1 else (s1, [])) = (s2, m2)"
  shows "AppendLocked gs mode c n fresh hdr payload s =
    (s2\<lparr>stage_mr := store_bytes (tail s2) (rec_bytes (hdr, payload)) (stage_mr s2),
        tail := tail s2 + length (rec_bytes (hdr, payload))\<rparr>, m1 @ m2)"
proof -
  have len: "length (rec_bytes (hdr, payload)) = sizeof_RecordHeader + unat (payload_len hdr)"
    using assms(1) by (simp add: rec_bytes_def)
  show ?thesis
  proof (cases "payload_len hdr = 0")
    case True
    then show ?thesis
      using assms unfolding AppendLocked_def len by (simp add: rec_bytes_def)
  next
    case False
    then show ?thesis
      using assms store_header_payload [of payload "length payload" "tail s2" hdr "stage_mr s2"]
      unfolding AppendLocked_def len by (simp add: rec_bytes_def add.assoc)
  qed
qed

abbreviation make_room ::
  "logical_groups \<Rightarrow> ReplicaWriteMode \<Rightarrow> u16 \<Rightarrow> nat \<Rightarrow> GlobalAddress \<Rightarrow> nat \<Rightarrow> StreamState \<Rightarrow> StreamState \<times> log_msg list" where
  "make_room gs mode c n fresh need s \<equiv>
    (if stage_cap s - tail s < need then
       (let sc = close_segment s;
            (sf, mf) = (if tail sc > flushed_tail s then FlushLocked gs mode sc else (sc, []));
            (sn, mn) = AllocateNewSegmentAndNotify gs c n fresh sf in (sn, mf @ mn))
     else (s, []))"

lemma log_inv_make_room:
  assumes "log_inv s v closed cur k" "is_replica gs (st_region s) r" "st_region s < 256"
    and "seg_ok (st_region s) (stage_cap s) fresh" "need \<le> stage_cap s"
    and "make_room gs WRITE_ALL_REPLICAS c n fresh need s = (s1, m1)"
  shows "\<exists>v1 closed1 cur1 k1. view_msgs r c (st_region s) v (to_dest (phys_id r) m1) = Some v1 \<and> log_inv s1 v1 closed1 cur1 k1
      \<and> logged closed1 cur1 = logged closed cur \<and> st_region s1 = st_region s \<and> stage_cap s1 = stage_cap s
      \<and> tail s1 + need \<le> stage_cap s"
proof (cases "stage_cap s - tail s < need")
  case True
  obtain sf mf where f: "(if tail (close_segment s) > flushed_tail s
      then FlushLocked gs WRITE_ALL_REPLICAS (close_segment s) else (close_segment s, [])) = (sf, mf)"
    by (rule prod.exhaust)
  obtain sn mn where n: "AllocateNewSegmentAndNotify gs c n fresh sf = (sn, mn)" by (rule prod.exhaust)
  have eq: "s1 = sn" "m1 = mf @ mn" using assms(6) True f n by (auto simp: Let_def)
  from log_inv_new_segment [OF assms(1-4) refl f n] assms(5) show ?thesis
    unfolding eq by (fastforce simp: logged_def)
next
  case False
  moreover have "tail s \<le> stage_cap s" using assms(1) by (simp add: log_inv_def stream_ok_def)
  ultimately have "s1 = s" "m1 = []" "tail s + need \<le> stage_cap s" using assms(6) by auto
  then show ?thesis using assms(1) by auto
qed

lemma log_inv_append:
  assumes "log_inv s v closed cur k" "is_replica gs (st_region s) r" "st_region s < 256"
    and "seg_ok (st_region s) (stage_cap s) fresh" "rec_ok (stage_cap s) (hdr, payload)"
    and "AppendLocked gs WRITE_ALL_REPLICAS c n fresh hdr payload s = (s', ms)"
  shows "\<exists>v' closed' cur' k'. view_msgs r c (st_region s) v (to_dest (phys_id r) ms) = Some v' \<and> log_inv s' v' closed' cur' k'
      \<and> logged closed' cur' = logged closed cur @ [(hdr, payload)]
      \<and> st_region s' = st_region s \<and> stage_cap s' = stage_cap s"
proof -
  let ?b = "rec_bytes (hdr, payload)"
  obtain s1 m1 where e1: "make_room gs WRITE_ALL_REPLICAS c n fresh (length ?b) s = (s1, m1)"
    by (rule prod.exhaust)
  obtain s2 m2 where e2: "(if tail s1 > flushed_tail s \<and> tail s1 - flushed_tail s \<ge> AUTO_FLUSH_THRESHOLD
          then FlushLocked gs WRITE_ALL_REPLICAS s1 else (s1, [])) = (s2, m2)"
    by (rule prod.exhaust)
  have len: "length payload = unat (payload_len hdr)" "length ?b \<le> stage_cap s"
    using assms(5) by (auto simp: rec_ok_def)
  have s': "s' = s2\<lparr>stage_mr := store_bytes (tail s2) ?b (stage_mr s2), tail := tail s2 + length ?b\<rparr>"
    and ms: "ms = m1 @ m2"
    using AppendLocked_split [OF len(1) e1 e2] assms(6) by simp_all
  obtain v1 closed1 cur1 k1 where s1: "view_msgs r c (st_region s) v (to_dest (phys_id r) m1) = Some v1"
    "log_inv s1 v1 closed1 cur1 k1" "logged closed1 cur1 = logged closed cur" "st_region s1 = st_region s"
    "stage_cap s1 = stage_cap s" "tail s1 + length ?b \<le> stage_cap s"
    using log_inv_make_room [OF assms(1-4) len(2) e1] by blast
  have "\<exists>v2 k2. view_msgs r c (st_region s) v1 (to_dest (phys_id r) m2) = Some v2 \<and> log_inv s2 v2 closed1 cur1 k2
      \<and> st_region s2 = st_region s \<and> stage_cap s2 = stage_cap s \<and> tail s2 = tail s1"
  proof (cases "tail s1 > flushed_tail s \<and> tail s1 - flushed_tail s \<ge> AUTO_FLUSH_THRESHOLD")
    case True
    then have "FlushLocked gs WRITE_ALL_REPLICAS s1 = (s2, m2)" using e2 by simp
    from log_inv_flush [OF s1(2) _ _ this, of r] assms(2,3) s1(4,5) show ?thesis by force
  qed (use e2 s1 in auto)
  then obtain v2 k2 where s2: "view_msgs r c (st_region s) v1 (to_dest (phys_id r) m2) = Some v2" "log_inv s2 v2 closed1 cur1 k2"
    "st_region s2 = st_region s" "stage_cap s2 = stage_cap s" "tail s2 = tail s1" by blast
  have "log_inv s' v2 closed1 (cur1 @ [(hdr, payload)]) k2"
    using log_inv_store [OF s2(2) _ _ s'] assms(5) s1(6) s2(4,5) by simp
  moreover have "view_msgs r c (st_region s) v (to_dest (phys_id r) ms) = Some v2"
    using s1(1) s2(1) by (simp add: ms view_msgs_append)
  moreover have "logged closed1 (cur1 @ [(hdr, payload)]) = logged closed cur @ [(hdr, payload)]"
    using s1(3) by (simp add: logged_def)
  ultimately show ?thesis using s' s2(3,4) by auto
qed

lemma recycle_acks_frame:
  "\<exists>f p. recycle_acks n segs s = s\<lparr>free_segments := free_segments s @ f, pending_recycle_acks := p\<rparr>
    \<and> set f \<subseteq> set segs"
proof (induction segs arbitrary: s)
  case Nil
  show ?case by (rule exI [of _ "[]"], rule exI [of _ "pending_recycle_acks s"]) simp
next
  case (Cons seg segs)
  define acks where "acks = (case pending_recycle_acks s (gval seg) of None \<Rightarrow> 1 | Some n \<Rightarrow> n + 1)"
  show ?case
  proof (cases "acks \<ge> n")
    case True
    let ?s = "s\<lparr>free_segments := free_segments s @ [seg],
      pending_recycle_acks := (pending_recycle_acks s)(gval seg := None)\<rparr>"
    obtain f p where "recycle_acks n segs ?s = ?s\<lparr>free_segments := free_segments ?s @ f, pending_recycle_acks := p\<rparr>"
      "set f \<subseteq> set segs" using Cons by blast
    then show ?thesis using True
      by (intro exI [of _ "seg # f"] exI [of _ p]) (auto simp: Let_def acks_def)
  next
    case False
    let ?s = "s\<lparr>pending_recycle_acks := (pending_recycle_acks s)(gval seg \<mapsto> acks)\<rparr>"
    obtain f p where "recycle_acks n segs ?s = ?s\<lparr>free_segments := free_segments ?s @ f, pending_recycle_acks := p\<rparr>"
      "set f \<subseteq> set segs" using Cons by blast
    then show ?thesis using False
      by (intro exI [of _ f] exI [of _ p]) (auto simp: Let_def acks_def)
  qed
qed

lemma log_inv_recycle:
  assumes "log_inv s v closed cur k" "\<forall>a \<in> set segs. seg_ok (st_region s) (stage_cap s) a"
  shows "log_inv (recycle_acks n segs s) v closed cur k"
    and "st_region (recycle_acks n segs s) = st_region s" "stage_cap (recycle_acks n segs s) = stage_cap s"
proof -
  obtain f p where "recycle_acks n segs s = s\<lparr>free_segments := free_segments s @ f, pending_recycle_acks := p\<rparr>"
    "set f \<subseteq> set segs"
    using recycle_acks_frame by blast
  then show "log_inv (recycle_acks n segs s) v closed cur k"
    and "st_region (recycle_acks n segs s) = st_region s" "stage_cap (recycle_acks n segs s) = stage_cap s"
    using assms by (auto simp: log_inv_def stream_ok_def view_ok_def)
qed

section \<open>A whole run of a stream\<close>

datatype log_op =
    LAppend (op_fresh: GlobalAddress) (op_gaddr: GlobalAddress) (op_version: u64) (op_payload: "byte list")
  | LFlush
  | LRecycle "GlobalAddress list"

fun log_step :: "logical_groups \<Rightarrow> u16 \<Rightarrow> nat \<Rightarrow> nat \<Rightarrow> log_op \<Rightarrow> StreamState \<Rightarrow> StreamState \<times> log_msg list" where
  "log_step gs c chunk acks (LAppend fresh g ver p) s =
    AppendLocked gs WRITE_ALL_REPLICAS c chunk fresh (mk_header g ver (of_nat (length p))) p s"
| "log_step gs c chunk acks LFlush s = FlushLocked gs WRITE_ALL_REPLICAS s"
| "log_step gs c chunk acks (LRecycle segs) s = (recycle_acks acks segs s, [])"

fun log_run :: "logical_groups \<Rightarrow> u16 \<Rightarrow> nat \<Rightarrow> nat \<Rightarrow> log_op list \<Rightarrow> StreamState \<Rightarrow> StreamState \<times> log_msg list" where
  "log_run gs c chunk acks [] s = (s, [])"
| "log_run gs c chunk acks (op # ops) s =
    (let (s1, m1) = log_step gs c chunk acks op s; (s2, m2) = log_run gs c chunk acks ops s1 in (s2, m1 @ m2))"

fun op_ok :: "u16 \<Rightarrow> nat \<Rightarrow> log_op \<Rightarrow> bool" where
  "op_ok region cap (LAppend fresh g ver p) \<longleftrightarrow> seg_ok region cap fresh \<and> sizeof_RecordHeader + length p \<le> cap"
| "op_ok region cap LFlush \<longleftrightarrow> True"
| "op_ok region cap (LRecycle segs) \<longleftrightarrow> list_all (seg_ok region cap) segs"

fun op_records :: "log_op \<Rightarrow> log_record list" where
  "op_records (LAppend fresh g ver p) = [(mk_header g ver (of_nat (length p)), p)]"
| "op_records _ = []"

lemma log_inv_step:
  assumes "log_inv s v closed cur k" "is_replica gs (st_region s) r" "st_region s < 256"
    and "op_ok (st_region s) (stage_cap s) op" "log_step gs c n acks op s = (s', ms)"
  shows "\<exists>v' closed' cur' k'. view_msgs r c (st_region s) v (to_dest (phys_id r) ms) = Some v' \<and> log_inv s' v' closed' cur' k'
      \<and> logged closed' cur' = logged closed cur @ op_records op
      \<and> st_region s' = st_region s \<and> stage_cap s' = stage_cap s"
proof (cases op)
  case (LAppend fresh g ver p)
  have "stage_cap s < 2 ^ 24" using assms(1) by (simp add: log_inv_def stream_ok_def)
  then have "rec_ok (stage_cap s) (mk_header g ver (of_nat (length p)), p)"
    using assms(4) LAppend
    by (simp add: rec_ok_def rec_bytes_def mk_header_def unsigned_of_nat take_bit_nat_eq_self)
  from log_inv_append [OF assms(1-3) _ this, of fresh c n s' ms] assms(4,5) LAppend show ?thesis by simp
next
  case LFlush
  then have "FlushLocked gs WRITE_ALL_REPLICAS s = (s', ms)" using assms(5) by simp
  from log_inv_flush(1) [OF assms(1-3) this, of c] log_inv_flush(2) [OF assms(1-3) this] LFlush show ?thesis
    by (auto 4 4)
next
  case (LRecycle segs)
  then show ?thesis
    using log_inv_recycle [OF assms(1), of segs acks] assms(4,5) by (auto simp: list_all_iff)
qed

lemma log_inv_run:
  assumes "log_inv s v closed cur k" "is_replica gs (st_region s) r" "st_region s < 256"
    and "list_all (op_ok (st_region s) (stage_cap s)) ops" "log_run gs c n acks ops s = (s', ms)"
  shows "\<exists>v' closed' cur' k'. view_msgs r c (st_region s) v (to_dest (phys_id r) ms) = Some v' \<and> log_inv s' v' closed' cur' k'
      \<and> logged closed' cur' = logged closed cur @ concat (map op_records ops)
      \<and> st_region s' = st_region s \<and> stage_cap s' = stage_cap s"
  using assms
proof (induction ops arbitrary: s v closed cur k ms)
  case Nil
  then show ?case by auto
next
  case (Cons op ops)
  obtain s1 m1 where st: "log_step gs c n acks op s = (s1, m1)" by (rule prod.exhaust)
  obtain m2 where run: "log_run gs c n acks ops s1 = (s', m2)" and ms: "ms = m1 @ m2"
    using Cons.prems(5) st by (auto simp: Let_def split: prod.splits)
  obtain v1 closed1 cur1 k1 where 1: "view_msgs r c (st_region s) v (to_dest (phys_id r) m1) = Some v1"
    "log_inv s1 v1 closed1 cur1 k1" "logged closed1 cur1 = logged closed cur @ op_records op"
    "st_region s1 = st_region s" "stage_cap s1 = stage_cap s"
    using log_inv_step [OF Cons.prems(1-3) _ st] Cons.prems(4) by auto
  from Cons.IH [OF 1(2) _ _ _ run] Cons.prems(2-4) 1 show ?case
    by (simp add: ms view_msgs_append)
qed


text \<open>Reading the records of a segment back: up to the close marker or the end of its bytes.\<close>

function parse_records :: "byte list \<Rightarrow> log_record list" where
  "parse_records bs =
    (if length bs < sizeof_RecordHeader \<or> hd bs = SEGMENT_CLOSE_MARKER then []
     else
       let h = header_of_bytes bs; n = unat (payload_len h) in
       if length bs < sizeof_RecordHeader + n then []
       else (h, take n (drop sizeof_RecordHeader bs)) # parse_records (drop (sizeof_RecordHeader + n) bs))"
  by auto
termination
  by (relation "measure length") (auto simp: sizeof_RecordHeader_def)

declare parse_records.simps [simp del]

lemma parse_records_recs:
  assumes "list_all (rec_ok cap) rs" "m = [] \<or> m = [SEGMENT_CLOSE_MARKER]"
  shows "parse_records (recs_bytes rs @ m) = rs"
  using assms(1)
proof (induction rs)
  case Nil
  then show ?case using assms(2) by (subst parse_records.simps) (auto simp: sizeof_RecordHeader_def)
next
  case (Cons r rs)
  obtain h p where r: "r = (h, p)" by fastforce
  have ok: "magic h = RECORD_MAGIC" "length p = unat (payload_len h)" "list_all (rec_ok cap) rs"
    using Cons.prems r by (simp_all add: rec_ok_def [of cap "(h, p)"])
  let ?b = "header_bytes h @ p @ recs_bytes rs @ m"
  have ne: "header_bytes h \<noteq> []" by (simp add: header_bytes_def le_bytes_def)
  then have "hd ?b \<noteq> SEGMENT_CLOSE_MARKER" using hd_header_bytes [OF ok(1)] by (simp add: hd_append hd_conv_nth)
  then have "parse_records ?b = (h, p) # parse_records (recs_bytes rs @ m)"
    using ok(2) by (subst parse_records.simps) (simp add: Let_def)
  then show ?case using Cons.IH ok(3) r by (simp add: rec_bytes_def [of "(h, p)"])
qed

definition view_records :: "replica_view \<Rightarrow> log_record list" where
  "view_records v = concat (map (\<lambda>(a, bs). parse_records bs) v)"

lemma view_records_inv:
  assumes "log_inv s v closed cur k"
  shows "view_records v = logged closed (take k cur)"
proof -
  have "parse_records (load_bytes 0 (flushed_tail s) (stage_mr s)) = take k cur"
  proof -
    have "load_bytes 0 (tail s) (stage_mr s) = recs_bytes cur" "flushed_tail s \<le> tail s"
      "flushed_tail s = length (recs_bytes (take k cur))" and ok: "list_all (rec_ok (stage_cap s)) cur"
      using assms by (auto simp: log_inv_def stream_ok_def)
    moreover have "recs_bytes cur = recs_bytes (take k cur) @ recs_bytes (drop k cur)"
      by (simp flip: concat_append map_append)
    ultimately have "load_bytes 0 (flushed_tail s) (stage_mr s) = recs_bytes (take k cur)"
      using load_bytes_prefix [of "flushed_tail s" "tail s" 0 "stage_mr s"] by (metis append_eq_append_conv length_load_bytes)
    moreover have "list_all (rec_ok (stage_cap s)) (take k cur)"
      using ok by (auto simp: list_all_iff dest: in_set_takeD)
    ultimately show ?thesis using parse_records_recs [of _ "take k cur" "[]"] by auto
  qed
  moreover have "concat (map (\<lambda>(a, bs). parse_records bs) (map closed_bytes closed)) = concat (map (\<lambda>(a, rs, m). rs) closed)"
    if "list_all (closed_ok (stage_cap s)) closed"
    using that
  proof (induction closed)
    case (Cons c closed)
    obtain a rs m where c: "c = (a, rs, m)" by (rule prod_cases3)
    then have "parse_records (recs_bytes rs @ m) = rs"
      using Cons.prems by (intro parse_records_recs) (auto simp: closed_ok_def [of _ "(a, rs, m)"])
    then show ?case using Cons c by (simp add: closed_bytes_def [of "(a, rs, m)"])
  qed simp
  ultimately show ?thesis using assms by (simp add: log_inv_def view_ok_def view_records_def logged_def)
qed

lemma view_bounds_inv:
  assumes "log_inv s v closed cur k" "(a, bs) \<in> set v"
  shows "length bs \<le> stage_cap s"
  using assms
  by (auto simp: log_inv_def view_ok_def stream_ok_def list_all_iff closed_bytes_def closed_ok_def)

lemma log_inv_new:
  assumes "seg_ok region cap seg" "cap < 2 ^ 24"
  shows "log_inv (new_stream lg cap buf region seg) [(seg, [])] [] [] 0"
  using assms by (simp add: log_inv_def stream_ok_def view_ok_def new_stream_def)



definition demo_groups :: logical_groups where
  "demo_groups = [5 \<mapsto> \<lparr>physical_regions =
      [\<lparr>phys_id = 1, base_ptr = 8192, rkey = 7\<rparr>, \<lparr>phys_id = 3, base_ptr = 4096, rkey = 9\<rparr>], lg_bytes = 0\<rparr>]"

definition demo_replica :: PhysicalRegion where
  "demo_replica = \<lparr>phys_id = 3, base_ptr = 4096, rkey = 9\<rparr>"

lemma demo_is_replica: "is_replica demo_groups 5 demo_replica"
  by (simp add: is_replica_def demo_groups_def demo_replica_def GetReplicaSet_def)


end
