(* ===== verification/Log_Codec.thy ===== *)
theory Log_Codec
  imports Coding
begin

text \<open>
  The redo-log payload codec of \<^verbatim>\<open>txn/LogCodec.h\<close>: the ULEB128 helpers, the
  \<^verbatim>\<open>Encoder\<close> that appends page operations to a byte vector and the \<^verbatim>\<open>Decoder\<close> that
  walks over such a vector.  The decoder is a record with the buffer, its length,
  the read offset and the \<^verbatim>\<open>ok_\<close> flag; \<^verbatim>\<open>Next\<close> is a function from a decoder to the
  decoder after the call and the parsed operation.
\<close>

section \<open>Definitions\<close>

definition kCodecVersion :: byte where
  "kCodecVersion = 1"

datatype DecodedOp =
    UPDATE_BYTES (upd_offset: u32) (upd_len: u32) (upd_bytes: "byte list")
  | FILL_BYTES (fill_offset: u32) (fill_len: u32) (fill_value: byte)
  | MEMMOVE_BYTES (move_dst: u32) (move_src: u32) (move_len: u32)
  | SET_U64_LE (set64_offset: u32) (set64_value: u64)

function PutUVar :: "byte list \<Rightarrow> u64 \<Rightarrow> byte list" where
  "PutUVar out v =
    (if v \<ge> 128 then PutUVar (out @ [ucast (v OR 128)]) (drop_bit 7 v) else out @ [ucast v])"
  by auto
termination
  by (relation "measure (\<lambda>(out, v). unat v)") (auto simp: word_le_nat_alt intro: drop_bit_7_less)

declare PutUVar.simps [simp del]

function GetUVar_loop :: "byte list \<Rightarrow> nat \<Rightarrow> nat \<Rightarrow> u64 \<Rightarrow> nat \<Rightarrow> u64 option \<times> nat" where
  "GetUVar_loop buf len off v shift =
    (if off < len then
       let b = buf ! off; off' = off + 1; v' = v OR push_bit shift (ucast (b AND 127)) in
       if b AND 128 = 0 then (Some v', off')
       else let shift' = shift + 7 in
         if shift' > 63 then (None, off') else GetUVar_loop buf len off' v' shift'
     else (None, off))"
  by auto
termination
  by (relation "measure (\<lambda>(buf, len, off, v, shift). len - off)") auto

declare GetUVar_loop.simps [simp del]

definition GetUVar :: "byte list \<Rightarrow> nat \<Rightarrow> nat \<Rightarrow> u64 option \<times> nat" where
  "GetUVar buf len off = GetUVar_loop buf len off 0 0"

definition PutBytes :: "byte list \<Rightarrow> byte list \<Rightarrow> nat \<Rightarrow> byte list" where
  "PutBytes out p n = (if n = 0 then out else out @ take n p)"

definition GetBytes :: "byte list \<Rightarrow> nat \<Rightarrow> nat \<Rightarrow> nat \<Rightarrow> byte list option \<times> nat" where
  "GetBytes buf len off n =
    (if off + n > len then (None, off) else (Some (take n (drop off buf)), off + n))"

definition Encoder_new :: "byte list" where
  "Encoder_new = [kCodecVersion]"

definition AddUpdateBytes :: "byte list \<Rightarrow> u32 \<Rightarrow> byte list \<Rightarrow> u32 \<Rightarrow> byte list" where
  "AddUpdateBytes buf offset src len =
    PutBytes (PutUVar (PutUVar (buf @ [1]) (ucast offset)) (ucast len)) src (unat len)"

definition AddFillBytes :: "byte list \<Rightarrow> u32 \<Rightarrow> u32 \<Rightarrow> byte \<Rightarrow> byte list" where
  "AddFillBytes buf offset len value =
    PutUVar (PutUVar (buf @ [2]) (ucast offset)) (ucast len) @ [value]"

definition AddMemmove :: "byte list \<Rightarrow> u32 \<Rightarrow> u32 \<Rightarrow> u32 \<Rightarrow> byte list" where
  "AddMemmove buf dst src len =
    PutUVar (PutUVar (PutUVar (buf @ [3]) (ucast dst)) (ucast src)) (ucast len)"

definition AddSetU64LE :: "byte list \<Rightarrow> u32 \<Rightarrow> u64 \<Rightarrow> byte list" where
  "AddSetU64LE buf offset value = PutUVar (PutUVar (buf @ [4]) (ucast offset)) value"

record Decoder =
  d_base :: "byte list"
  d_len :: nat
  d_off :: nat
  d_ok :: bool

definition Decoder_new :: "byte list \<Rightarrow> nat \<Rightarrow> Decoder" where
  "Decoder_new data n =
    (let d = \<lparr>d_base = data, d_len = n, d_off = 0, d_ok = False\<rparr> in
     if n = 0 then d
     else if data ! 0 \<noteq> kCodecVersion then d
     else d\<lparr>d_off := 1, d_ok := True\<rparr>)"

definition Decoder_Fail :: "Decoder \<Rightarrow> nat \<Rightarrow> Decoder \<times> DecodedOp option" where
  "Decoder_Fail d off = (d\<lparr>d_off := off, d_ok := False\<rparr>, None)"

definition Next :: "Decoder \<Rightarrow> Decoder \<times> DecodedOp option" where
  "Next d =
    (if \<not> d_ok d \<or> d_off d \<ge> d_len d then (d, None)
     else
       let base = d_base d; len = d_len d; opc = base ! d_off d; o0 = d_off d + 1 in
       if opc = 1 then
         (case GetUVar base len o0 of
            (None, o1) \<Rightarrow> Decoder_Fail d o1
          | (Some off, o1) \<Rightarrow>
              (case GetUVar base len o1 of
                 (None, o2) \<Rightarrow> Decoder_Fail d o2
               | (Some ln, o2) \<Rightarrow>
                   let n = (ucast ln :: u32) in
                   if o2 + unat n > len then Decoder_Fail d o2
                   else (d\<lparr>d_off := o2 + unat n\<rparr>,
                         Some (UPDATE_BYTES (ucast off) n (take (unat n) (drop o2 base))))))
       else if opc = 2 then
         (case GetUVar base len o0 of
            (None, o1) \<Rightarrow> Decoder_Fail d o1
          | (Some off, o1) \<Rightarrow>
              (case GetUVar base len o1 of
                 (None, o2) \<Rightarrow> Decoder_Fail d o2
               | (Some ln, o2) \<Rightarrow>
                   if o2 \<ge> len then Decoder_Fail d o2
                   else (d\<lparr>d_off := o2 + 1\<rparr>, Some (FILL_BYTES (ucast off) (ucast ln) (base ! o2)))))
       else if opc = 3 then
         (case GetUVar base len o0 of
            (None, o1) \<Rightarrow> Decoder_Fail d o1
          | (Some dst, o1) \<Rightarrow>
              (case GetUVar base len o1 of
                 (None, o2) \<Rightarrow> Decoder_Fail d o2
               | (Some src, o2) \<Rightarrow>
                   (case GetUVar base len o2 of
                      (None, o3) \<Rightarrow> Decoder_Fail d o3
                    | (Some ln, o3) \<Rightarrow>
                        (d\<lparr>d_off := o3\<rparr>, Some (MEMMOVE_BYTES (ucast dst) (ucast src) (ucast ln))))))
       else if opc = 4 then
         (case GetUVar base len o0 of
            (None, o1) \<Rightarrow> Decoder_Fail d o1
          | (Some off, o1) \<Rightarrow>
              (case GetUVar base len o1 of
                 (None, o2) \<Rightarrow> Decoder_Fail d o2
               | (Some v, o2) \<Rightarrow> (d\<lparr>d_off := o2\<rparr>, Some (SET_U64_LE (ucast off) v))))
       else Decoder_Fail d o0)"


section \<open>The varint helpers\<close>

lemma PutUVar_eq: "PutUVar out v = out @ uvarint v"
  by (induction out v rule: PutUVar.induct)
    (simp add: PutUVar.simps uvarint.simps [where 'a = 64] word_le_nat_alt)

lemma GetUVar_loop_bounds:
  "GetUVar_loop buf len off v shift = (r, off') \<Longrightarrow>
   off \<le> off' \<and> (off \<le> len \<longrightarrow> off' \<le> len) \<and> (r \<noteq> None \<longrightarrow> off < off')"
proof (induction buf len off v shift rule: GetUVar_loop.induct)
  case (1 buf len off v shift)
  then show ?case
    by (subst (asm) (2) GetUVar_loop.simps) (fastforce simp: Let_def split: if_splits)
qed

lemma GetUVar_bounds:
  "GetUVar buf len off = (r, off') \<Longrightarrow>
   off \<le> off' \<and> (off \<le> len \<longrightarrow> off' \<le> len) \<and> (r \<noteq> None \<longrightarrow> off < off')"
  unfolding GetUVar_def by (rule GetUVar_loop_bounds)

lemma GetUVar_loop_sim:
  "GetVarint_loop 63 shift v (drop off buf) = Some (w, rest) \<Longrightarrow> shift \<le> 63 \<Longrightarrow> len = length buf \<Longrightarrow>
   GetUVar_loop buf len off v shift = (Some w, len - length rest)"
proof (induction buf len off v shift rule: GetUVar_loop.induct)
  case (1 buf len off v shift)
  have lt: "off < len" using 1(2,4) by (cases "off < len") auto
  then have dr: "drop off buf = buf ! off # drop (off + 1) buf"
    using 1(4) by (simp add: Cons_nth_drop_Suc)
  have lo: "ucast b AND 127 = (ucast (b AND 127) :: u64)" for b :: byte
    by (simp add: and_127) (rule bit_word_eqI, auto simp: bit_simps)
  show ?case
  proof (cases "buf ! off AND 128 = 0")
    case True
    then have "take_bit 7 (ucast (buf ! off)) = (ucast (buf ! off) :: u64)"
      unfolding and_128_iff
      by (intro bit_word_eqI) (auto simp: bit_simps less_Suc_eq numeral_eq_Suc dest: bit_imp_le_length)
    then have e: "ucast (buf ! off AND 127) = (ucast (buf ! off) :: u64)" by (metis and_127 lo)
    show ?thesis using True 1(2,3,4) lt e
      by (subst GetUVar_loop.simps) (auto simp: dr)
  next
    case False
    then have r: "GetVarint_loop 63 (shift + 7) (v OR push_bit shift (ucast (buf ! off AND 127))) (drop (off + 1) buf) = Some (w, rest)"
      using 1(2,3) by (simp add: dr lo)
    then have "shift + 7 \<le> 63" by (cases "drop (off + 1) buf") (auto split: if_splits)
    then show ?thesis using False lt 1(1) [OF lt refl refl refl False refl _ r] 1(4)
      by (subst GetUVar_loop.simps) (simp add: Let_def)
  qed
qed

lemma uvarint_nonempty [simp]: "uvarint v \<noteq> []"
  by (subst uvarint.simps) simp

lemma GetUVar_uvarint:
  assumes "drop off buf = uvarint v @ rest" "len = length buf"
  shows "GetUVar buf len off = (Some v, off + length (uvarint v))"
proof -
  have "GetVarint_loop 63 0 0 (drop off buf) = Some (v, rest)"
    using GetVarint64_EncodeVarint64 [of v rest] assms(1)
    by (simp add: GetVarint64_def GetVarint64Ptr_def EncodeVarint64_eq)
  then have "GetUVar buf len off = (Some v, len - length rest)"
    unfolding GetUVar_def using assms(2) by (intro GetUVar_loop_sim) auto
  moreover have "len = off + length (uvarint v) + length rest"
    using length_drop [of off buf] uvarint_nonempty [of v] assms(2)
    unfolding assms(1) by (cases "uvarint v") auto
  ultimately show ?thesis by simp
qed


section \<open>The decoder stays inside its buffer\<close>

definition decoder_inv :: "Decoder \<Rightarrow> bool" where
  "decoder_inv d \<longleftrightarrow> d_len d = length (d_base d) \<and> d_off d \<le> d_len d"

lemma decoder_inv_new: "n = length data \<Longrightarrow> decoder_inv (Decoder_new data n)"
  by (cases data) (auto simp: decoder_inv_def Decoder_new_def Let_def)

lemma Next_base [simp]: "d_base (fst (Next d)) = d_base d" "d_len (fst (Next d)) = d_len d"
  by (auto simp: Next_def Decoder_Fail_def Let_def split: prod.splits option.splits)

lemma Next_off:
  assumes "d_off d \<le> d_len d"
  shows "d_off d \<le> d_off (fst (Next d)) \<and> d_off (fst (Next d)) \<le> d_len d
     \<and> (snd (Next d) \<noteq> None \<longrightarrow> d_off d < d_off (fst (Next d)))"
proof (cases "d_ok d \<and> d_off d < d_len d")
  case True
  obtain r1 o1 where g1: "GetUVar (d_base d) (d_len d) (Suc (d_off d)) = (r1, o1)" by fastforce
  obtain r2 o2 where g2: "GetUVar (d_base d) (d_len d) o1 = (r2, o2)" by fastforce
  obtain r3 o3 where g3: "GetUVar (d_base d) (d_len d) o2 = (r3, o3)" by fastforce
  have b: "Suc (d_off d) \<le> o1" "o1 \<le> o2" "o2 \<le> o3" "o1 \<le> d_len d" "o2 \<le> d_len d" "o3 \<le> d_len d"
    using True GetUVar_bounds [OF g1] GetUVar_bounds [OF g2] GetUVar_bounds [OF g3] by auto
  show ?thesis using True b
    by (cases r1; cases r2; cases r3) (simp_all add: Next_def Decoder_Fail_def Let_def g1 g2 g3)
next
  case False
  then show ?thesis using assms by (simp add: Next_def)
qed

text \<open>The \<^verbatim>\<open>while (dec.Next(op))\<close> loop of a decoder's clients.\<close>

function decode_all :: "Decoder \<Rightarrow> DecodedOp list \<times> Decoder" where
  "decode_all d =
    (case Next d of
       (d', None) \<Rightarrow> ([], d')
     | (d', Some op) \<Rightarrow> (let (ops, d'') = decode_all d' in (op # ops, d'')))"
  by auto
termination
proof (relation "measure (\<lambda>d. d_len d - d_off d)", simp)
  fix d d' r op assume "(d', r) = Next d" "r = Some op"
  then have n: "Next d = (d', Some op)" by simp
  then have "d_off d < d_len d" by (auto simp: Next_def split: if_splits)
  then show "(d', d) \<in> measure (\<lambda>d. d_len d - d_off d)"
    using Next_off [of d] Next_base [of d] n by auto
qed

declare decode_all.simps [simp del]

section \<open>Decoding what was encoded\<close>

definition AddOp :: "byte list \<Rightarrow> DecodedOp \<Rightarrow> byte list" where
  "AddOp buf op = (case op of
     UPDATE_BYTES off len bytes \<Rightarrow> AddUpdateBytes buf off bytes len
   | FILL_BYTES off len v \<Rightarrow> AddFillBytes buf off len v
   | MEMMOVE_BYTES dst src len \<Rightarrow> AddMemmove buf dst src len
   | SET_U64_LE off v \<Rightarrow> AddSetU64LE buf off v)"

fun op_wf :: "DecodedOp \<Rightarrow> bool" where
  "op_wf (UPDATE_BYTES off len bytes) \<longleftrightarrow> length bytes = unat len"
| "op_wf _ \<longleftrightarrow> True"

definition encode_ops :: "DecodedOp list \<Rightarrow> byte list" where
  "encode_ops ops = foldl AddOp Encoder_new ops"

lemmas Add_defs = AddOp_def AddUpdateBytes_def AddFillBytes_def AddMemmove_def AddSetU64LE_def
  PutBytes_def PutUVar_eq

lemma AddOp_append: "AddOp buf op = buf @ AddOp [] op"
  by (cases op) (simp_all add: Add_defs)

lemma foldl_AddOp: "foldl AddOp buf ops = buf @ concat (map (AddOp []) ops)"
proof (induction ops arbitrary: buf)
  case (Cons op ops)
  show ?case unfolding foldl_Cons Cons by (subst AddOp_append) simp
qed simp


lemma ucast_down_up: "(ucast (ucast v :: u64) :: u32) = v"
  by (rule bit_word_eqI) (simp add: bit_simps)

lemma Next_AddOp:
  assumes "op_wf op" "d_ok d" "d_len d = length (d_base d)"
    and "drop (d_off d) (d_base d) = AddOp [] op @ rest"
  shows "Next d = (d\<lparr>d_off := d_off d + length (AddOp [] op)\<rparr>, Some op)"
proof -
  note g = GetUVar_uvarint [OF _ assms(3)]
  show ?thesis
  proof (cases op)
    case (UPDATE_BYTES off len bytes)
    have d0: "drop (d_off d) (d_base d) = 1 # uvarint (ucast off :: u64) @ uvarint (ucast len :: u64) @ bytes @ rest"
      using assms UPDATE_BYTES by (auto simp: Add_defs)
    note d1 = drop_cons_step [OF d0]
    note d2 = drop_append_cons [OF d1(3)]
    note d3 = drop_append_cons [OF d2]
    have "d_off d + 1 + length (uvarint (ucast off :: u64)) + length (uvarint (ucast len :: u64)) + unat len
        \<le> length (d_base d)"
      using drop_append_le [OF d2 [unfolded append_assoc [symmetric]]] assms(1) UPDATE_BYTES by (simp add: add.assoc)
    then show ?thesis using assms(1,2,3) UPDATE_BYTES d1(1,2) g [OF d1(3)] g [OF d2] d3
      by (simp add: Next_def Add_defs Let_def ucast_down_up)
  next
    case (FILL_BYTES off len v)
    have d0: "drop (d_off d) (d_base d) = 2 # uvarint (ucast off :: u64) @ uvarint (ucast len :: u64) @ v # rest"
      using assms FILL_BYTES by (auto simp: Add_defs)
    note d1 = drop_cons_step [OF d0]
    note d2 = drop_append_cons [OF d1(3)]
    note d3 = drop_append_cons [OF d2]
    show ?thesis using assms(1,2,3) FILL_BYTES d1(1,2) g [OF d1(3)] g [OF d2] drop_cons_step [OF d3]
      by (simp add: Next_def Add_defs Let_def ucast_down_up)
  next
    case (MEMMOVE_BYTES dst src len)
    have d0: "drop (d_off d) (d_base d)
        = 3 # uvarint (ucast dst :: u64) @ uvarint (ucast src :: u64) @ uvarint (ucast len :: u64) @ rest"
      using assms MEMMOVE_BYTES by (auto simp: Add_defs)
    note d1 = drop_cons_step [OF d0]
    note d2 = drop_append_cons [OF d1(3)]
    note d3 = drop_append_cons [OF d2]
    show ?thesis using assms(1,2,3) MEMMOVE_BYTES d1(1,2) g [OF d1(3)] g [OF d2] g [OF d3]
      by (simp add: Next_def Add_defs Let_def ucast_down_up)
  next
    case (SET_U64_LE off v)
    have d0: "drop (d_off d) (d_base d) = 4 # uvarint (ucast off :: u64) @ uvarint v @ rest"
      using assms SET_U64_LE by (auto simp: Add_defs)
    note d1 = drop_cons_step [OF d0]
    show ?thesis using assms(1,2,3) SET_U64_LE d1(1,2) g [OF d1(3)] g [OF drop_append_cons [OF d1(3)]]
      by (simp add: Next_def Add_defs Let_def ucast_down_up)
  qed
qed

lemma decode_all_AddOps:
  assumes "\<forall>op \<in> set ops. op_wf op" "d_ok d" "d_len d = length (d_base d)" "d_off d \<le> d_len d"
    and "drop (d_off d) (d_base d) = concat (map (AddOp []) ops)"
  shows "decode_all d = (ops, d\<lparr>d_off := d_len d\<rparr>)"
  using assms
proof (induction ops arbitrary: d)
  case Nil
  then have "d_off d = d_len d" by simp
  then show ?case by (subst decode_all.simps) (simp add: Next_def)
next
  case (Cons op ops)
  let ?d = "d\<lparr>d_off := d_off d + length (AddOp [] op)\<rparr>"
  have n: "Next d = (?d, Some op)"
    using Cons.prems by (intro Next_AddOp) auto
  have "decode_all ?d = (ops, ?d\<lparr>d_off := d_len ?d\<rparr>)"
  proof (rule Cons.IH)
    show "d_off ?d \<le> d_len ?d" using Next_off [of d] Cons.prems n by simp
    show "drop (d_off ?d) (d_base ?d) = concat (map (AddOp []) ops)"
      using Cons.prems drop_append_cons [of "d_off d" "d_base d" "AddOp [] op"] by simp
  qed (use Cons.prems in auto)
  then show ?case by (simp add: decode_all.simps [of d] n)
qed

lemma Next_op_wf:
  assumes "decoder_inv d" "Next d = (d', Some op)"
  shows "op_wf op \<and> decoder_inv d'"
proof -
  obtain r1 o1 where g1: "GetUVar (d_base d) (d_len d) (Suc (d_off d)) = (r1, o1)" by fastforce
  obtain r2 o2 where g2: "GetUVar (d_base d) (d_len d) o1 = (r2, o2)" by fastforce
  obtain r3 o3 where g3: "GetUVar (d_base d) (d_len d) o2 = (r3, o3)" by fastforce
  have "d_len d \<le> length (d_base d)" using assms(1) by (simp add: decoder_inv_def)
  then have "op_wf op"
    using assms(2)
    by (cases r1; cases r2; cases r3)
      (auto simp: Next_def Decoder_Fail_def Let_def g1 g2 g3 split: if_splits)
  moreover have "decoder_inv d'"
    using Next_off [of d] Next_base [of d] assms by (simp add: decoder_inv_def)
  ultimately show ?thesis ..
qed

lemma decode_all_inv:
  "decoder_inv d \<Longrightarrow> (\<forall>op \<in> set (fst (decode_all d)). op_wf op) \<and> decoder_inv (snd (decode_all d))"
proof (induction d rule: decode_all.induct)
  case (1 d)
  show ?case
  proof (cases "Next d")
    case (Pair d' r)
    show ?thesis
    proof (cases r)
      case None
      then show ?thesis using 1(2) Pair Next_off [of d] Next_base [of d]
        by (simp add: decode_all.simps [of d] decoder_inv_def)
    next
      case (Some op)
      then show ?thesis
        using 1(1) [OF Pair [symmetric] Some] Next_op_wf [of d d' op] 1(2) Pair
        by (auto simp: decode_all.simps [of d] split: prod.splits)
    qed
  qed
qed

lemma Next_None_end: "Next d = (d', None) \<Longrightarrow> d_ok d' \<Longrightarrow> d_len d' \<le> d_off d'"
proof -
  assume a: "Next d = (d', None)" "d_ok d'"
  obtain r1 o1 where g1: "GetUVar (d_base d) (d_len d) (Suc (d_off d)) = (r1, o1)" by fastforce
  obtain r2 o2 where g2: "GetUVar (d_base d) (d_len d) o1 = (r2, o2)" by fastforce
  obtain r3 o3 where g3: "GetUVar (d_base d) (d_len d) o2 = (r3, o3)" by fastforce
  show ?thesis using a
    by (cases r1; cases r2; cases r3)
      (auto simp: Next_def Decoder_Fail_def Let_def g1 g2 g3 split: if_splits)
qed

lemma decode_all_at_end: "d_ok (snd (decode_all d)) \<Longrightarrow> d_len (snd (decode_all d)) \<le> d_off (snd (decode_all d))"
proof (induction d rule: decode_all.induct)
  case (1 d)
  obtain d' r where n: "Next d = (d', r)" by fastforce
  show ?case
  proof (cases r)
    case None
    then show ?thesis using 1(2) n Next_None_end by (simp add: decode_all.simps [of d])
  next
    case (Some op)
    then show ?thesis using 1(1) [OF n [symmetric] Some] 1(2) n
      by (simp add: decode_all.simps [of d] split: prod.splits)
  qed
qed

lemma decode_all_base:
  "d_base (snd (decode_all d)) = d_base d \<and> d_len (snd (decode_all d)) = d_len d"
proof (induction d rule: decode_all.induct)
  case (1 d)
  obtain d' r where n: "Next d = (d', r)" by fastforce
  then have "d_base d' = d_base d" "d_len d' = d_len d" using Next_base [of d] by simp_all
  then show ?case using 1 [OF n [symmetric]] n
    by (cases r) (simp_all add: decode_all.simps [of d] case_prod_unfold Let_def)
qed

lemma encode_ops_eq: "encode_ops ops = kCodecVersion # concat (map (AddOp []) ops)"
  by (simp add: encode_ops_def foldl_AddOp Encoder_new_def)

lemma decode_encode_ops:
  assumes "list_all op_wf ops"
  shows "decode_all (Decoder_new (encode_ops ops) (length (encode_ops ops)))
    = (ops, \<lparr>d_base = encode_ops ops, d_len = length (encode_ops ops), d_off = length (encode_ops ops), d_ok = True\<rparr>)"
proof -
  have "Decoder_new (encode_ops ops) (length (encode_ops ops))
    = \<lparr>d_base = encode_ops ops, d_len = length (encode_ops ops), d_off = 1, d_ok = True\<rparr>"
    by (simp add: Decoder_new_def encode_ops_eq)
  then show ?thesis
    using assms decode_all_AddOps [of ops "\<lparr>d_base = encode_ops ops, d_len = length (encode_ops ops), d_off = 1, d_ok = True\<rparr>"]
    by (simp add: list_all_iff encode_ops_eq)
qed

text \<open>
  C28: the payload codec.  Decoding the bytes the encoder produced for a list of page operations
  gives back exactly these operations, without an error and up to the last byte; and on any byte
  sequence at all the decoder stays inside the buffer, and every operation it returns that
  carries bytes carries as many as it announces.
\<close>

theorem log_codec_roundtrip:
  assumes "list_all op_wf ops"
  shows "fst (decode_all (Decoder_new (encode_ops ops) (length (encode_ops ops)))) = ops
    \<and> d_ok (snd (decode_all (Decoder_new (encode_ops ops) (length (encode_ops ops)))))
    \<and> (\<forall>bytes ops' d. decode_all (Decoder_new bytes (length bytes)) = (ops', d)
          \<longrightarrow> list_all op_wf ops' \<and> d_off d \<le> length bytes \<and> (d_ok d \<longrightarrow> d_off d = length bytes))"
proof -
  have "list_all op_wf ops' \<and> d_off d \<le> length bytes \<and> (d_ok d \<longrightarrow> d_off d = length bytes)"
    if d: "decode_all (Decoder_new bytes (length bytes)) = (ops', d)" for bytes ops' d
  proof -
    have inv: "decoder_inv (Decoder_new bytes (length bytes))" by (rule decoder_inv_new) simp
    have "d_len (Decoder_new bytes (length bytes)) = length bytes"
      by (simp add: Decoder_new_def Let_def)
    then show ?thesis
      using decode_all_inv [OF inv] decode_all_at_end [of "Decoder_new bytes (length bytes)"]
        decode_all_base [of "Decoder_new bytes (length bytes)"] d
      by (auto simp: decoder_inv_def list_all_iff)
  qed
  then show ?thesis using decode_encode_ops [OF assms] by auto
qed

theorem log_codec_roundtrip_witness:
  "fst (decode_all (Decoder_new (encode_ops [SET_U64_LE 100 77, UPDATE_BYTES 8 2 [5, 6]])
      (length (encode_ops [SET_U64_LE 100 77, UPDATE_BYTES 8 2 [5, 6]]))))
    = [SET_U64_LE 100 77, UPDATE_BYTES 8 2 [5, 6]]
   \<and> encode_ops [SET_U64_LE 100 77, UPDATE_BYTES 8 2 [5, 6]] = [1, 4, 100, 77, 1, 8, 2, 5, 6]"
  using log_codec_roundtrip [of "[SET_U64_LE 100 77, UPDATE_BYTES 8 2 [5, 6]]"]
  by (simp add: encode_ops_eq Add_defs uvarint.simps kCodecVersion_def)

end
