(* ===== verification/Log_Replay.thy ===== *)
theory Log_Replay
  imports Redo_Log Log_Codec
begin

text \<open>
  The replay side of the redo log, \<^verbatim>\<open>memory_node/LogReplayerManager.h\<close> and
  \<^verbatim>\<open>.cpp\<close>, for a release build.  A memory node keeps, per compute node and logical
  region, the list of announced log segments with the bytes received in each,
  replays records in the order of the page versions and returns fully replayed
  segments to the compute node.  Log segments and pages live in the same memory;
  a node is described by its replica map, its physical id and its memory.
  Byte counters are natural numbers (the code counts in 64 bits).
\<close>

section \<open>Applying one record\<close>

record replay_node =
  rn_groups :: logical_groups
  rn_id :: u16

text \<open>Offset of \<^verbatim>\<open>hdr.p_version\<close> in a page: after the 8-byte latch word and the first 8 bytes of
  the header, for data pages and index pages alike.\<close>

definition P_VERSION_OFF :: nat where
  "P_VERSION_OFF = 16"

text \<open>The address of a page on this node; 0 stands for a failed translation.\<close>

definition page_phys :: "replay_node \<Rightarrow> GlobalAddress \<Rightarrow> nat" where
  "page_phys P g =
    (case TranslateLogicalToPhysicalAddress (rn_groups P) (nodeID g) (ucast (goffset g)) (rn_id P) of
       None \<Rightarrow> 0 | Some a \<Rightarrow> unat a)"

fun apply_op :: "nat \<Rightarrow> DecodedOp \<Rightarrow> mem \<Rightarrow> mem" where
  "apply_op page (UPDATE_BYTES off len bytes) m = store_bytes (page + unat off) (take (unat len) bytes) m"
| "apply_op page (SET_U64_LE off v) m = store_bytes (page + unat off) (le_bytes 8 v) m"
| "apply_op page (FILL_BYTES off len v) m = store_bytes (page + unat off) (replicate (unat len) v) m"
| "apply_op page (MEMMOVE_BYTES dst src len) m =
    store_bytes (page + unat dst) (load_bytes (page + unat src) (unat len) m) m"

definition apply_ops :: "nat \<Rightarrow> DecodedOp list \<Rightarrow> mem \<Rightarrow> mem" where
  "apply_ops page ops m = foldl (\<lambda>m op. apply_op page op m) m ops"

definition ProcessLogRecord :: "replay_node \<Rightarrow> RecordHeader \<Rightarrow> byte list \<Rightarrow> mem \<Rightarrow> bool \<times> mem" where
  "ProcessLogRecord P h payload m =
    (let page = page_phys P (page_gaddr h) in
     if page = 0 then (False, m)
     else let (ops, d) = decode_all (Decoder_new payload (length payload))
          in (d_ok d, apply_ops page ops m))"

definition GetCurrentPageVersion :: "replay_node \<Rightarrow> GlobalAddress \<Rightarrow> mem \<Rightarrow> u64" where
  "GetCurrentPageVersion P g m =
    (let page = page_phys P g in
     if page = 0 then 0 else le_word (load_bytes (page + P_VERSION_OFF) 8 m))"

definition SetCurrentPageVersion :: "replay_node \<Rightarrow> GlobalAddress \<Rightarrow> u64 \<Rightarrow> mem \<Rightarrow> mem" where
  "SetCurrentPageVersion P g v m =
    (let page = page_phys P g in
     if page = 0 then m else store_bytes (page + P_VERSION_OFF) (le_bytes 8 v) m)"


section \<open>Streams of log segments\<close>

record LogSegment =
  segment_addr :: GlobalAddress
  segment_size :: nat
  received_length :: nat
  physical_ptr :: nat

record LogStreamState =
  ls_compute_node_id :: u16
  ls_logical_region_id :: u16
  ls_segments :: "LogSegment list"
  received_log_length :: nat
  replayed_log_length :: nat
  recycled_prefix_bytes :: nat

text \<open>How the loop over the records of a segment ends: it ran out of bytes, met the close marker
  or malformed data (\<open>Drained\<close>), met a record of an old version or one that could not be
  applied, which leave the stream without storing its progress (\<open>Aborted\<close>), or met a record
  of a later version (\<open>Future\<close>).  The numbers are bytes passed and records applied.\<close>

datatype replay_exit = Drained nat nat mem | Aborted mem | Future nat nat mem

function replay_segment :: "replay_node \<Rightarrow> nat \<Rightarrow> nat \<Rightarrow> nat \<Rightarrow> nat \<Rightarrow> mem \<Rightarrow> replay_exit" where
  "replay_segment P buf todo done recs m =
    (if done < todo then
       if m (buf + done) = SEGMENT_CLOSE_MARKER then Drained (done + 1) recs m
       else if done + sizeof_RecordHeader > todo then Drained done recs m
       else
         let h = header_of_bytes (load_bytes (buf + done) sizeof_RecordHeader m) in
         if magic h \<noteq> RECORD_MAGIC then Drained done recs m
         else
           let size = sizeof_RecordHeader + unat (payload_len h) in
           if done + size > todo then Drained done recs m
           else
             let payload = load_bytes (buf + done + sizeof_RecordHeader) (unat (payload_len h)) m;
                 current = GetCurrentPageVersion P (page_gaddr h) m
             in
             if page_version h \<le> current then Aborted m
             else if page_version h = current + 1 then
               (case ProcessLogRecord P h payload m of
                  (True, m1) \<Rightarrow>
                    replay_segment P buf todo (done + size) (recs + 1)
                      (SetCurrentPageVersion P (page_gaddr h) (page_version h) m1)
                | (False, m1) \<Rightarrow> Aborted m1)
             else Future done recs m
     else Drained done recs m)"
  by auto
termination
  by (relation "measure (\<lambda>(P, buf, todo, done, recs, m). todo - done)") (auto simp: sizeof_RecordHeader_def)

declare replay_segment.simps [simp del]

text \<open>The segment that holds the byte at a position, with the bytes of the segments before it.\<close>

fun find_segment :: "nat \<Rightarrow> nat \<Rightarrow> LogSegment list \<Rightarrow> (LogSegment \<times> nat) option" where
  "find_segment off acc [] = None"
| "find_segment off acc (seg # segs) =
    (if off < acc + received_length seg then Some (seg, acc)
     else find_segment off (acc + received_length seg) segs)"

text \<open>\<open>recycle_loop\<close> is the loop of \<^verbatim>\<open>RecycleSegments\<close>; it never returns (\<open>None\<close>) on a segment without
  a physical pointer, where the code executes \<^verbatim>\<open>continue\<close> without a change.\<close>

fun recycle_loop :: "mem \<Rightarrow> nat \<Rightarrow> LogSegment list \<Rightarrow> (LogSegment list \<times> LogSegment list) option" where
  "recycle_loop m recyclable (seg # seg2 # segs) =
    (if received_length seg = 0 \<or> recyclable < received_length seg then Some ([], seg # seg2 # segs)
     else if recyclable = received_length seg \<and> received_length seg < segment_size seg \<and> physical_ptr seg = 0 then None
     else if recyclable > received_length seg \<or> received_length seg \<ge> segment_size seg
        \<or> m (physical_ptr seg + received_length seg - 1) = SEGMENT_CLOSE_MARKER
     then map_option (\<lambda>(rs, rest). (seg # rs, rest))
            (recycle_loop m (recyclable - received_length seg) (seg2 # segs))
     else Some ([], seg # seg2 # segs))"
| "recycle_loop m recyclable segs = Some ([], segs)"

datatype recycle_msg = LogSegmentRecycle (rc_dest: u16) (rc_memory_node: u16) (rc_region: u16)
  (rc_segments: "GlobalAddress list")

definition MAX_SEGMENTS_PER_RPC :: nat where
  "MAX_SEGMENTS_PER_RPC = 16"

function SendSegmentRecycleRPC :: "u16 \<Rightarrow> LogStreamState \<Rightarrow> LogSegment list \<Rightarrow> recycle_msg list" where
  "SendSegmentRecycleRPC node st segs =
    (if segs = [] then []
     else LogSegmentRecycle (ls_compute_node_id st) node (ls_logical_region_id st)
            (map segment_addr (take MAX_SEGMENTS_PER_RPC segs))
          # SendSegmentRecycleRPC node st (drop MAX_SEGMENTS_PER_RPC segs))"
  by auto
termination
  by (relation "measure (\<lambda>(node, st, segs). length segs)") (auto simp: MAX_SEGMENTS_PER_RPC_def)

declare SendSegmentRecycleRPC.simps [simp del]

definition RecycleSegments :: "replay_node \<Rightarrow> mem \<Rightarrow> LogStreamState \<Rightarrow> (LogStreamState \<times> recycle_msg list) option" where
  "RecycleSegments P m st =
    (if replayed_log_length st \<le> recycled_prefix_bytes st then Some (st, [])
     else map_option
       (\<lambda>(rs, rest). (st\<lparr>ls_segments := rest,
           recycled_prefix_bytes := recycled_prefix_bytes st + sum_list (map received_length rs)\<rparr>,
         SendSegmentRecycleRPC (rn_id P) st rs))
       (recycle_loop m (replayed_log_length st - recycled_prefix_bytes st) (ls_segments st)))"

text \<open>\<^verbatim>\<open>ReplayLogData\<close>.  The outer loop need not end (on malformed data it makes no progress), which
  is the value \<open>None\<close>.\<close>

partial_function (option) replay_loop ::
  "replay_node \<Rightarrow> nat \<Rightarrow> nat \<Rightarrow> nat \<Rightarrow> LogStreamState \<Rightarrow> mem \<Rightarrow> (LogStreamState \<times> nat \<times> bool \<times> mem) option" where
  "replay_loop P available seen recs st m =
    (if seen < available then
       case find_segment (replayed_log_length st - recycled_prefix_bytes st) 0 (ls_segments st) of
         None \<Rightarrow> Some (st, recs, True, m)
       | Some (seg, acc) \<Rightarrow>
           let off = replayed_log_length st - recycled_prefix_bytes st - acc;
               todo = min (available - seen) (received_length seg - off)
           in
           if physical_ptr seg = 0 then Some (st, recs, True, m)
           else
             (case replay_segment P (physical_ptr seg + off) todo 0 recs m of
                Aborted m' \<Rightarrow> Some (st, recs, False, m')
              | Future n recs' m' \<Rightarrow>
                  Some (st\<lparr>replayed_log_length := replayed_log_length st + n\<rparr>, recs', True, m')
              | Drained n recs' m' \<Rightarrow>
                  replay_loop P available (seen + n) recs'
                    (st\<lparr>replayed_log_length := replayed_log_length st + n\<rparr>) m')
     else Some (st, recs, True, m))"

definition ReplayLogData ::
  "replay_node \<Rightarrow> nat \<Rightarrow> LogStreamState \<Rightarrow> mem \<Rightarrow> (LogStreamState \<times> mem \<times> recycle_msg list) option" where
  "ReplayLogData P available st m =
    (case replay_loop P available 0 0 st m of
       None \<Rightarrow> None
     | Some (st', recs, normal, m') \<Rightarrow>
         if normal \<and> recs > 0
         then map_option (\<lambda>(st'', msgs). (st'', m', msgs)) (RecycleSegments P m' st')
         else Some (st', m', []))"

section \<open>The manager of a memory node\<close>

definition MAX_COMPUTE_NODES :: nat where
  "MAX_COMPUTE_NODES = 32"

definition MAX_LOGICAL_REGIONS :: nat where
  "MAX_LOGICAL_REGIONS = 32"

definition MAX_STREAMS :: nat where
  "MAX_STREAMS = MAX_COMPUTE_NODES * MAX_LOGICAL_REGIONS"

definition MakeStreamIndex :: "u16 \<Rightarrow> u16 \<Rightarrow> nat" where
  "MakeStreamIndex compute_id region_id = unat compute_id * MAX_LOGICAL_REGIONS + unat region_id"

record SegmentInfo =
  si_compute_node_id :: u16
  si_logical_region_id :: u16
  si_segment_size :: nat
  si_base_addr :: u64

record LogReplayerManager =
  lm_node :: replay_node
  lm_streams :: "nat \<rightharpoonup> LogStreamState"
  lm_segment_to_stream :: "u64 \<rightharpoonup> SegmentInfo"
  lm_replayers :: "u16 list"

definition new_LogStreamState :: "u16 \<Rightarrow> u16 \<Rightarrow> LogStreamState" where
  "new_LogStreamState compute_id region_id =
    \<lparr>ls_compute_node_id = compute_id, ls_logical_region_id = region_id, ls_segments = [],
     received_log_length = 0, replayed_log_length = 0, recycled_prefix_bytes = 0\<rparr>"

definition GetOrInitializeStreamState ::
  "u16 \<Rightarrow> u16 \<Rightarrow> LogReplayerManager \<Rightarrow> (LogStreamState \<times> LogReplayerManager) option" where
  "GetOrInitializeStreamState compute_id region_id mg =
    (let idx = MakeStreamIndex compute_id region_id in
     if idx \<ge> MAX_STREAMS then None
     else case lm_streams mg idx of
       Some st \<Rightarrow> Some (st, mg)
     | None \<Rightarrow> let st = new_LogStreamState compute_id region_id
               in Some (st, mg\<lparr>lm_streams := (lm_streams mg)(idx \<mapsto> st)\<rparr>))"

text \<open>A region's replayer thread is started once; the list holds the regions that have one.\<close>

definition GetOrCreateRegionReplayer :: "u16 \<Rightarrow> LogReplayerManager \<Rightarrow> LogReplayerManager" where
  "GetOrCreateRegionReplayer region mg =
    (if unat region \<ge> MAX_LOGICAL_REGIONS then mg
     else if region \<in> set (lm_replayers mg) then mg
     else mg\<lparr>lm_replayers := region # lm_replayers mg\<rparr>)"

definition HandleLogSegmentRequest ::
  "GlobalAddress \<Rightarrow> u16 \<Rightarrow> u16 \<Rightarrow> nat \<Rightarrow> LogReplayerManager \<Rightarrow> LogReplayerManager" where
  "HandleLogSegmentRequest seg_addr compute_id region_id seg_size mg =
    (let idx = MakeStreamIndex compute_id region_id in
     if idx \<ge> MAX_STREAMS then mg
     else case GetOrInitializeStreamState compute_id region_id mg of
       None \<Rightarrow> mg
     | Some (st, mg1) \<Rightarrow>
         let ptr = page_phys (lm_node mg) seg_addr in
         if ptr = 0 then mg1
         else
           let seg = \<lparr>segment_addr = seg_addr, segment_size = seg_size, received_length = 0, physical_ptr = ptr\<rparr>;
               info = \<lparr>si_compute_node_id = compute_id, si_logical_region_id = region_id,
                       si_segment_size = seg_size, si_base_addr = gval seg_addr\<rparr>;
               mg2 = mg1\<lparr>lm_streams := (lm_streams mg1)(idx \<mapsto> st\<lparr>ls_segments := ls_segments st @ [seg]\<rparr>),
                         lm_segment_to_stream := (lm_segment_to_stream mg1)(gval seg_addr \<mapsto> info)\<rparr>
           in GetOrCreateRegionReplayer region_id mg2)"

definition add_received :: "nat \<Rightarrow> LogSegment list \<Rightarrow> LogSegment list" where
  "add_received n segs =
    (if segs = [] then []
     else butlast segs @ [(last segs)\<lparr>received_length := received_length (last segs) + n\<rparr>])"

definition HandleWriteWithImm :: "u16 \<Rightarrow> u16 \<Rightarrow> nat \<Rightarrow> LogReplayerManager \<Rightarrow> LogReplayerManager" where
  "HandleWriteWithImm compute_id region_id transferred_size mg =
    (let idx = MakeStreamIndex compute_id region_id in
     if idx \<ge> MAX_STREAMS then mg
     else case lm_streams mg idx of
       None \<Rightarrow> mg
     | Some st \<Rightarrow>
         GetOrCreateRegionReplayer region_id
           (mg\<lparr>lm_streams := (lm_streams mg)(idx \<mapsto>
              st\<lparr>received_log_length := received_log_length st + transferred_size,
                 ls_segments := add_received transferred_size (ls_segments st)\<rparr>)\<rparr>))"

definition GetLogicalRegionsForComputeNode :: "u16 \<Rightarrow> LogReplayerManager \<Rightarrow> u16 list" where
  "GetLogicalRegionsForComputeNode compute_id mg =
    concat (map (\<lambda>i. case lm_streams mg i of
        Some st \<Rightarrow> if ls_compute_node_id st = compute_id then [ls_logical_region_id st] else []
      | None \<Rightarrow> []) [0..<MAX_STREAMS])"

definition StopAllReplayers :: "LogReplayerManager \<Rightarrow> LogReplayerManager" where
  "StopAllReplayers mg = mg\<lparr>lm_streams := Map.empty, lm_replayers := []\<rparr>"

text \<open>The condition \<^verbatim>\<open>WaitForAllLogsReplayed\<close> waits for.\<close>

definition all_logs_replayed :: "LogReplayerManager \<Rightarrow> bool" where
  "all_logs_replayed mg \<longleftrightarrow> list_all (\<lambda>i. case lm_streams mg i of
      Some st \<Rightarrow> \<not> received_log_length st > replayed_log_length st | None \<Rightarrow> True) [0..<MAX_STREAMS]"

text \<open>One round of a region's replayer thread over the streams of all compute nodes.\<close>

fun replay_round ::
  "u16 list \<Rightarrow> u16 \<Rightarrow> LogReplayerManager \<Rightarrow> mem \<Rightarrow> (LogReplayerManager \<times> mem \<times> recycle_msg list) option" where
  "replay_round [] region mg m = Some (mg, m, [])"
| "replay_round (c # cs) region mg m =
    (let idx = MakeStreamIndex c region in
     case lm_streams mg idx of
       None \<Rightarrow> replay_round cs region mg m
     | Some st \<Rightarrow>
         if received_log_length st > replayed_log_length st then
           (case ReplayLogData (lm_node mg) (received_log_length st - replayed_log_length st) st m of
              None \<Rightarrow> None
            | Some (st', m', msgs) \<Rightarrow>
                (case replay_round cs region (mg\<lparr>lm_streams := (lm_streams mg)(idx \<mapsto> st')\<rparr>) m' of
                   None \<Rightarrow> None
                 | Some (mg', m'', msgs') \<Rightarrow> Some (mg', m'', msgs @ msgs')))
         else replay_round cs region mg m)"

definition ReplayerThread_round ::
  "u16 \<Rightarrow> LogReplayerManager \<Rightarrow> mem \<Rightarrow> (LogReplayerManager \<times> mem \<times> recycle_msg list) option" where
  "ReplayerThread_round region mg m = replay_round (map of_nat [0..<MAX_COMPUTE_NODES]) region mg m"


section \<open>Replay at the level of records\<close>

datatype replay_status = AllApplied | StaleOrFailed | FutureVersion

definition apply_record :: "replay_node \<Rightarrow> log_record \<Rightarrow> mem \<Rightarrow> mem" where
  "apply_record P r m =
    SetCurrentPageVersion P (page_gaddr (fst r)) (page_version (fst r))
      (snd (ProcessLogRecord P (fst r) (snd r) m))"

fun replay_records :: "replay_node \<Rightarrow> log_record list \<Rightarrow> mem \<Rightarrow> nat \<times> replay_status \<times> mem" where
  "replay_records P [] m = (0, AllApplied, m)"
| "replay_records P (r # rs) m =
    (let current = GetCurrentPageVersion P (page_gaddr (fst r)) m in
     if page_version (fst r) \<le> current then (0, StaleOrFailed, m)
     else if page_version (fst r) = current + 1 then
       if fst (ProcessLogRecord P (fst r) (snd r) m)
       then (case replay_records P rs (apply_record P r m) of (n, st, m') \<Rightarrow> (Suc n, st, m'))
       else (0, StaleOrFailed, snd (ProcessLogRecord P (fst r) (snd r) m))
     else (0, FutureVersion, m))"

text \<open>A record that changes nothing in the address range \<open>[lo, hi)\<close>: its page lies outside and its
  operations stay inside the page.\<close>

fun op_in_page :: "DecodedOp \<Rightarrow> bool" where
  "op_in_page (UPDATE_BYTES off len bytes) \<longleftrightarrow> unat off + unat len \<le> kLeafPageSize"
| "op_in_page (SET_U64_LE off v) \<longleftrightarrow> unat off + 8 \<le> kLeafPageSize"
| "op_in_page (FILL_BYTES off len v) \<longleftrightarrow> unat off + unat len \<le> kLeafPageSize"
| "op_in_page (MEMMOVE_BYTES dst src len) \<longleftrightarrow> unat dst + unat len \<le> kLeafPageSize"

definition record_clear :: "replay_node \<Rightarrow> nat \<Rightarrow> nat \<Rightarrow> log_record \<Rightarrow> bool" where
  "record_clear P lo hi r \<longleftrightarrow>
    list_all op_in_page (fst (decode_all (Decoder_new (snd r) (length (snd r)))))
    \<and> (let page = page_phys P (page_gaddr (fst r)) in page + kLeafPageSize \<le> lo \<or> hi \<le> page)"

lemma apply_op_frame:
  assumes "op_in_page op" "x < page \<or> page + kLeafPageSize \<le> x"
  shows "apply_op page op m x = m x"
  using assms by (cases op) (auto simp: store_bytes_def)

lemma apply_ops_frame:
  assumes "list_all op_in_page ops" "x < page \<or> page + kLeafPageSize \<le> x"
  shows "apply_ops page ops m x = m x"
  using assms(1)
proof (induction ops arbitrary: m)
  case (Cons op ops)
  then show ?case using apply_op_frame [of op x page m] assms(2) by (simp add: apply_ops_def)
qed (simp add: apply_ops_def)

lemma ProcessLogRecord_frame:
  assumes "record_clear P lo hi r" "lo \<le> x" "x < hi"
  shows "snd (ProcessLogRecord P (fst r) (snd r) m) x = m x"
  using assms apply_ops_frame
  by (auto simp: ProcessLogRecord_def record_clear_def Let_def split: prod.splits)

lemma apply_record_frame:
  assumes "record_clear P lo hi r" "lo \<le> x" "x < hi"
  shows "apply_record P r m x = m x"
  using assms ProcessLogRecord_frame [OF assms]
  by (auto simp: apply_record_def SetCurrentPageVersion_def record_clear_def Let_def P_VERSION_OFF_def
      kLeafPageSize_def store_bytes_def)

definition exit_of :: "log_record list \<Rightarrow> nat \<Rightarrow> nat \<Rightarrow> byte list \<Rightarrow> nat \<times> replay_status \<times> mem \<Rightarrow> replay_exit" where
  "exit_of rs done recs mark res = (case res of (n, st, m) \<Rightarrow>
     (case st of
        AllApplied \<Rightarrow> Drained (done + length (recs_bytes rs @ mark)) (recs + n) m
      | StaleOrFailed \<Rightarrow> Aborted m
      | FutureVersion \<Rightarrow> Future (done + length (recs_bytes (take n rs))) (recs + n) m))"

lemma load_bytes_append_iff:
  "load_bytes a (length xs + length ys) m = xs @ ys \<longleftrightarrow> load_bytes a (length xs) m = xs \<and> load_bytes (a + length xs) (length ys) m = ys"
  by (simp add: load_bytes_split)

lemma replay_segment_record:
  assumes "load_bytes (buf + done) (sizeof_RecordHeader + length p) m = header_bytes h @ p"
    and "done + (sizeof_RecordHeader + length p) \<le> todo"
    and "magic h = RECORD_MAGIC" "length p = unat (payload_len h)"
  shows "replay_segment P buf todo done recs m =
      (let cur = GetCurrentPageVersion P (page_gaddr h) m in
       if page_version h \<le> cur then Aborted m
       else if page_version h = cur + 1 then
         (case ProcessLogRecord P h p m of
            (True, m1) \<Rightarrow> replay_segment P buf todo (done + (sizeof_RecordHeader + length p)) (recs + 1)
                (SetCurrentPageVersion P (page_gaddr h) (page_version h) m1)
          | (False, m1) \<Rightarrow> Aborted m1)
       else Future done recs m)"
proof -
  have ld: "load_bytes (buf + done) sizeof_RecordHeader m = header_bytes h"
    "load_bytes (buf + done + sizeof_RecordHeader) (length p) m = p"
    using assms(1) by (simp_all add: load_bytes_split)
  have "header_bytes h ! 0 = m (buf + done)"
    by (simp add: ld(1) [symmetric] sizeof_RecordHeader_def)
  then have hd: "m (buf + done) \<noteq> SEGMENT_CLOSE_MARKER" using hd_header_bytes [OF assms(3)] by simp
  have lt: "done < todo" "\<not> todo < done + sizeof_RecordHeader"
    "\<not> todo < done + (sizeof_RecordHeader + unat (payload_len h))"
    using assms(2,4) by (simp_all add: sizeof_RecordHeader_def)
  have h: "header_of_bytes (load_bytes (buf + done) sizeof_RecordHeader m) = h"
    using header_of_header_bytes [of h "[]"] by (simp add: ld(1))
  show ?thesis
    using lt hd assms(3) ld(2) unfolding assms(4) by (subst replay_segment.simps) (simp add: h Let_def)
qed

text \<open>The byte-level loop of the replayer does to a segment what the record-level replay does to the
  records in it.\<close>

lemma replay_segment_refines:
  assumes "load_bytes (buf + done) (length (recs_bytes rs @ mark)) m = recs_bytes rs @ mark"
    and "todo = done + length (recs_bytes rs @ mark)"
    and "list_all (rec_ok cap) rs" "mark = [] \<or> mark = [SEGMENT_CLOSE_MARKER]"
    and "list_all (record_clear P buf (buf + todo)) rs"
  shows "replay_segment P buf todo done recs m = exit_of rs done recs mark (replay_records P rs m)"
  using assms(1,2,3,5)
proof (induction rs arbitrary: "done" recs m)
  case Nil
  have "m (buf + done) = mark ! 0" if "mark \<noteq> []"
    using Nil(1) that nth_load_bytes [of 0 "length mark" "buf + done" m] by simp
  then show ?case
    using assms(4) Nil(2) by (subst replay_segment.simps) (auto simp: exit_of_def)
next
  case (Cons r rs)
  obtain h p where r: "r = (h, p)" by fastforce
  have ok: "magic h = RECORD_MAGIC" "length p = unat (payload_len h)" "list_all (rec_ok cap) rs"
    using Cons.prems(3) r by (simp_all add: rec_ok_def [of cap "(h, p)"])
  let ?tl = "recs_bytes rs @ mark" and ?n = "sizeof_RecordHeader + length p"
  have "load_bytes (buf + done) (sizeof_RecordHeader + (length p + length ?tl)) m = header_bytes h @ p @ ?tl"
    using Cons.prems(1) r by (simp add: rec_bytes_def [of "(h, p)"] add.assoc)
  then have ld: "load_bytes (buf + done) ?n m = header_bytes h @ p" "load_bytes (buf + (done + ?n)) (length ?tl) m = ?tl"
    by (simp_all add: load_bytes_split add.assoc)
  have todo: "todo = done + ?n + length ?tl"
    using Cons.prems(2) r by (simp add: rec_bytes_def [of "(h, p)"])
  then have "done + ?n \<le> todo" by simp
  note unf = replay_segment_record [OF ld(1) this ok(1,2), of P recs, unfolded Let_def]
  let ?cur = "GetCurrentPageVersion P (page_gaddr h) m" and ?m = "apply_record P (h, p) m"
  obtain b m1 where pr: "ProcessLogRecord P h p m = (b, m1)" by (rule prod.exhaust)
  show ?case
  proof (cases "\<not> page_version h \<le> ?cur \<and> page_version h = ?cur + 1 \<and> b")
    case True
    have m1: "?m = SetCurrentPageVersion P (page_gaddr h) (page_version h) m1"
      by (simp add: apply_record_def pr)
    have clear: "record_clear P buf (buf + todo) (h, p)" "list_all (record_clear P buf (buf + todo)) rs"
      using Cons.prems(4) r by simp_all
    have "load_bytes (buf + (done + ?n)) (length ?tl) ?m = ?tl"
      using ld(2) todo load_bytes_cong [of "buf + (done + ?n)" "length ?tl" ?m m]
        apply_record_frame [OF clear(1)] by fastforce
    then have ih: "replay_segment P buf todo (done + ?n) (recs + 1) ?m
        = exit_of rs (done + ?n) (recs + 1) mark (replay_records P rs ?m)"
      using todo ok(3) clear(2) by (intro Cons.IH) simp_all
    obtain n st m2 where rr: "replay_records P rs ?m = (n, st, m2)" by (rule prod_cases3)
    have "replay_segment P buf todo done recs m = replay_segment P buf todo (done + ?n) (recs + 1) ?m"
      using True by (auto simp: unf pr m1)
    moreover have "replay_records P ((h, p) # rs) m = (Suc n, st, m2)"
      using True rr by (auto simp: pr Let_def)
    ultimately show ?thesis
      unfolding r ih rr exit_of_def by (cases st) (simp_all add: rec_bytes_def [of "(h, p)"])
  next
    case False
    then show ?thesis by (auto simp: unf pr r exit_of_def)
  qed
qed

lemma replay_records_append:
  "replay_records P (xs @ ys) m =
    (case replay_records P xs m of
       (n, AllApplied, m') \<Rightarrow> (case replay_records P ys m' of (k, st, m'') \<Rightarrow> (n + k, st, m''))
     | res \<Rightarrow> res)"
  by (induction xs arbitrary: m) (auto simp: Let_def split: prod.splits replay_status.splits)

lemma replay_records_frame:
  "list_all (record_clear P lo hi) rs \<Longrightarrow> lo \<le> x \<Longrightarrow> x < hi \<Longrightarrow> snd (snd (replay_records P rs m)) x = m x"
proof (induction rs arbitrary: m)
  case (Cons r rs)
  then show ?case
    using apply_record_frame [of P lo hi r x m] ProcessLogRecord_frame [of P lo hi r x m] Cons.IH [of "apply_record P r m"]
    by (auto simp: Let_def case_prod_unfold)
qed simp

lemma record_clear_mono: "record_clear P lo hi r \<Longrightarrow> lo \<le> lo' \<Longrightarrow> hi' \<le> hi \<Longrightarrow> record_clear P lo' hi' r"
  by (auto simp: record_clear_def Let_def)


lemma find_segment_skip:
  "find_segment (acc + sum_list (map received_length ds) + o1) acc (ds @ segs)
    = find_segment (acc + sum_list (map received_length ds) + o1) (acc + sum_list (map received_length ds)) segs"
proof (induction ds arbitrary: acc)
  case (Cons d ds)
  from Cons [of "acc + received_length d"] show ?case by (simp add: add.assoc)
qed simp

text \<open>The part of a stream that is still to be replayed: per segment the offset replay has reached,
  the records from there on and the close marker if there is one.\<close>

type_synonym pending = "LogSegment \<times> nat \<times> log_record list \<times> byte list"

definition pending_bytes :: "pending \<Rightarrow> byte list" where
  "pending_bytes q = (case q of (seg, off, rs, mark) \<Rightarrow> recs_bytes rs @ mark)"

definition pending_recs :: "pending list \<Rightarrow> log_record list" where
  "pending_recs qs = concat (map (\<lambda>(seg, off, rs, mark). rs) qs)"

definition pending_ok :: "nat \<Rightarrow> mem \<Rightarrow> pending \<Rightarrow> bool" where
  "pending_ok cap m q = (case q of (seg, off, rs, mark) \<Rightarrow>
     physical_ptr seg \<noteq> 0 \<and> received_length seg = off + length (recs_bytes rs @ mark)
     \<and> load_bytes (physical_ptr seg + off) (length (recs_bytes rs @ mark)) m = recs_bytes rs @ mark
     \<and> list_all (rec_ok cap) rs \<and> (mark = [] \<or> mark = [SEGMENT_CLOSE_MARKER]))"

definition pending_clear :: "replay_node \<Rightarrow> log_record list \<Rightarrow> pending \<Rightarrow> bool" where
  "pending_clear P rs q = (case q of (seg, off, _, _) \<Rightarrow>
     list_all (record_clear P (physical_ptr seg) (physical_ptr seg + received_length seg)) rs)"

lemma pending_ok_frame:
  assumes "pending_ok cap m q" "pending_clear P rs q"
  shows "pending_ok cap (snd (snd (replay_records P rs m))) q"
proof -
  obtain seg off rs' mark where q: "q = (seg, off, rs', mark)" by (rule prod_cases4)
  have "load_bytes (physical_ptr seg + off) (length (recs_bytes rs' @ mark)) (snd (snd (replay_records P rs m)))
     = load_bytes (physical_ptr seg + off) (length (recs_bytes rs' @ mark)) m"
    using assms replay_records_frame [of P "physical_ptr seg" "physical_ptr seg + received_length seg" rs _ m]
    by (intro load_bytes_cong) (auto simp: q pending_ok_def pending_clear_def)
  then show ?thesis using assms(1) by (simp add: q pending_ok_def)
qed

lemma pending_recs_Cons [simp]: "pending_recs ((seg, off, rs, mark) # qs) = rs @ pending_recs qs"
  by (simp add: pending_recs_def)

lemma pending_clear_append [simp]:
  "pending_clear P (xs @ ys) q \<longleftrightarrow> pending_clear P xs q \<and> pending_clear P ys q"
  by (auto simp: pending_clear_def split: prod.splits)

lemma rec_bytes_nonempty [simp]: "rec_bytes r \<noteq> []"
  by (simp add: rec_bytes_def header_bytes_def le_bytes_def)

definition replay_pos :: "LogStreamState \<Rightarrow> LogSegment list \<Rightarrow> pending list \<Rightarrow> bool" where
  "replay_pos st ds qs \<longleftrightarrow> ls_segments st = ds @ map fst qs \<and> (\<forall>q \<in> set (tl qs). fst (snd q) = 0)
    \<and> replayed_log_length st = recycled_prefix_bytes st + sum_list (map received_length ds)
          + (case qs of [] \<Rightarrow> 0 | q # _ \<Rightarrow> fst (snd q))"

lemma replay_loop_segment:
  assumes "ls_segments st = ds @ seg # segs"
    and "replayed_log_length st - recycled_prefix_bytes st = sum_list (map received_length ds) + off"
    and "pending_ok cap m (seg, off, rs, mark)" "pending_clear P rs (seg, off, rs, mark)"
    and "recs_bytes rs @ mark \<noteq> []" "seen + length (recs_bytes rs @ mark) \<le> available"
  shows "replay_loop P available seen recs st m =
        (case exit_of rs 0 recs mark (replay_records P rs m) of
           Aborted m' \<Rightarrow> Some (st, recs, False, m')
         | Future k recs' m' \<Rightarrow> Some (st\<lparr>replayed_log_length := replayed_log_length st + k\<rparr>, recs', True, m')
         | Drained k recs' m' \<Rightarrow>
             replay_loop P available (seen + k) recs' (st\<lparr>replayed_log_length := replayed_log_length st + k\<rparr>) m')"
proof -
  let ?b = "recs_bytes rs @ mark"
  have ok: "physical_ptr seg \<noteq> 0" "received_length seg = off + length ?b"
    "load_bytes (physical_ptr seg + off) (length ?b) m = ?b" "list_all (rec_ok cap) rs"
    "mark = [] \<or> mark = [SEGMENT_CLOSE_MARKER]"
    using assms(3) by (auto simp: pending_ok_def)
  have clear: "list_all (record_clear P (physical_ptr seg + off) (physical_ptr seg + off + length ?b)) rs"
    using assms(4) ok(2) by (auto simp: pending_clear_def list_all_iff intro: record_clear_mono)
  have lt: "seen < available" "min (available - seen) (length ?b) = length ?b"
    using assms(6) length_greater_0_conv [THEN iffD2, OF assms(5)] by linarith+
  have find: "find_segment (sum_list (map received_length ds) + off) 0 (ds @ seg # segs)
      = Some (seg, sum_list (map received_length ds))"
    using find_segment_skip [of 0 ds off "seg # segs"] ok(2) assms(5) by simp
  have "replay_segment P (physical_ptr seg + off) (length ?b) 0 recs m = exit_of rs 0 recs mark (replay_records P rs m)"
    using ok clear by (intro replay_segment_refines) simp_all
  then show ?thesis
    using lt ok(1,2) find by (subst replay_loop.simps) (simp add: assms(1,2))
qed

lemma replay_loop_refines:
  assumes "replay_pos st ds qs" "\<forall>q \<in> set qs. pending_ok cap m q"
    and "\<forall>q \<in> set qs. pending_clear P (pending_recs qs) q"
    and "available = seen + length (concat (map pending_bytes qs))"
    and "replay_records P (pending_recs qs) m = (n, status, m')"
  shows "\<exists>st' recs'. replay_loop P available seen recs st m = Some (st', recs', status \<noteq> StaleOrFailed, m')
     \<and> (status \<noteq> StaleOrFailed \<longrightarrow> recs' = recs + n)
     \<and> (status = AllApplied \<longrightarrow> st' = st\<lparr>replayed_log_length := replayed_log_length st + length (concat (map pending_bytes qs))\<rparr>)"
  using assms
proof (induction qs arbitrary: ds seen recs st m n)
  case Nil
  then show ?case by (subst replay_loop.simps) (simp add: pending_recs_def)
next
  case (Cons q qs)
  obtain seg off rs mark where q: "q = (seg, off, rs, mark)" by (rule prod_cases4)
  let ?b = "recs_bytes rs @ mark"
  obtain n1 st1 m1 where r1: "replay_records P rs m = (n1, st1, m1)" by (rule prod_cases3)
  show ?case
  proof (cases "?b = []")
    case True
    then have e: "rs = []" "mark = []" by (cases rs; simp)+
    have "replay_pos st (ds @ [seg]) qs"
      using Cons.prems(1,2) by (cases qs) (auto simp: q e replay_pos_def pending_ok_def)
    then show ?thesis
      using Cons.IH [of st "ds @ [seg]" m seen n recs] Cons.prems
      by (simp add: q e pending_bytes_def)
  next
    case False
    have step: "replay_loop P available seen recs st m =
        (case exit_of rs 0 recs mark (n1, st1, m1) of
           Aborted m' \<Rightarrow> Some (st, recs, False, m')
         | Future k recs' m' \<Rightarrow> Some (st\<lparr>replayed_log_length := replayed_log_length st + k\<rparr>, recs', True, m')
         | Drained k recs' m' \<Rightarrow>
             replay_loop P available (seen + k) recs' (st\<lparr>replayed_log_length := replayed_log_length st + k\<rparr>) m')"
      unfolding r1 [symmetric] using Cons.prems(1-4) False
      by (intro replay_loop_segment [where ds = ds and seg = seg and segs = "map fst qs" and off = off and cap = cap])
        (auto simp: q replay_pos_def pending_bytes_def)
    show ?thesis
    proof (cases st1)
      case AllApplied
      let ?st = "st\<lparr>replayed_log_length := replayed_log_length st + length ?b\<rparr>"
      have m1: "m1 = snd (snd (replay_records P rs m))" by (simp add: r1)
      obtain k where r2: "replay_records P (pending_recs qs) m1 = (k, status, m')" "n = n1 + k"
        using Cons.prems(5) r1 AllApplied
        by (auto simp: q replay_records_append split: prod.splits)
      have pos: "replay_pos ?st (ds @ [seg]) qs"
        using Cons.prems(1,2) by (cases qs) (auto simp: q replay_pos_def pending_ok_def)
      have "\<forall>x \<in> set qs. pending_ok cap m1 x"
        unfolding m1 using Cons.prems(2,3) by (auto simp: q intro: pending_ok_frame)
      from Cons.IH [OF pos this _ _ r2(1), of "seen + length ?b" "recs + n1"] Cons.prems(3,4) r2(2)
      show ?thesis unfolding step
        by (simp add: AllApplied exit_of_def q pending_bytes_def [of "(seg, off, rs, mark)"] add.assoc)
    qed (use Cons.prems(5) r1 step in \<open>auto simp: exit_of_def q replay_records_append split: prod.splits\<close>)
  qed
qed

section \<open>Recycling\<close>

lemma recycle_loop_split:
  "recycle_loop m n segs = Some (rs, rest) \<Longrightarrow>
   segs = rs @ rest \<and> (segs \<noteq> [] \<longrightarrow> rest \<noteq> []) \<and> sum_list (map received_length rs) \<le> n"
proof (induction m n segs arbitrary: rs rest rule: recycle_loop.induct)
  case (1 m n seg seg2 segs)
  show ?case
  proof (cases "rs = []")
    case True
    then show ?thesis using "1.prems" by (auto split: if_splits)
  next
    case False
    then obtain rs' where "rs = seg # rs'" "recycle_loop m (n - received_length seg) (seg2 # segs) = Some (rs', rest)"
      "\<not> n < received_length seg"
      using "1.prems" by (auto split: if_splits)
    with "1.IH" [OF _ _ _ this(2)] "1.prems" show ?thesis
      by (auto split: if_splits)
  qed
qed auto

lemma recycle_loop_returns:
  "\<forall>seg \<in> set segs. physical_ptr seg \<noteq> 0 \<Longrightarrow> \<exists>rs rest. recycle_loop m n segs = Some (rs, rest)"
  by (induction m n segs rule: recycle_loop.induct) fastforce+

lemma SendSegmentRecycleRPC_batches:
  "concat (map rc_segments (SendSegmentRecycleRPC node st segs)) = map segment_addr segs
   \<and> (\<forall>msg \<in> set (SendSegmentRecycleRPC node st segs). length (rc_segments msg) \<le> MAX_SEGMENTS_PER_RPC
        \<and> rc_dest msg = ls_compute_node_id st \<and> rc_region msg = ls_logical_region_id st)"
proof (induction node st segs rule: SendSegmentRecycleRPC.induct)
  case (1 node st segs)
  show ?case
  proof (cases "segs = []")
    case False
    then show ?thesis using 1
      by (subst (1 2) SendSegmentRecycleRPC.simps) (simp flip: map_append take_map drop_map)
  qed (simp add: SendSegmentRecycleRPC.simps)
qed

lemma RecycleSegments_effect:
  assumes "\<forall>seg \<in> set (ls_segments st). physical_ptr seg \<noteq> 0"
  shows "\<exists>st' msgs rs. RecycleSegments P m st = Some (st', msgs)
     \<and> ls_segments st = rs @ ls_segments st' \<and> (ls_segments st \<noteq> [] \<longrightarrow> ls_segments st' \<noteq> [])
     \<and> recycled_prefix_bytes st' = recycled_prefix_bytes st + sum_list (map received_length rs)
     \<and> (recycled_prefix_bytes st \<le> replayed_log_length st \<longrightarrow> recycled_prefix_bytes st' \<le> replayed_log_length st)
     \<and> replayed_log_length st' = replayed_log_length st
     \<and> concat (map rc_segments msgs) = map segment_addr rs"
proof (cases "replayed_log_length st \<le> recycled_prefix_bytes st")
  case True
  then show ?thesis by (auto simp: RecycleSegments_def)
next
  case False
  obtain rs rest where r: "recycle_loop m (replayed_log_length st - recycled_prefix_bytes st) (ls_segments st) = Some (rs, rest)"
    using recycle_loop_returns [OF assms] by blast
  let ?st = "st\<lparr>ls_segments := rest, recycled_prefix_bytes := recycled_prefix_bytes st + sum_list (map received_length rs)\<rparr>"
  have "RecycleSegments P m st = Some (?st, SendSegmentRecycleRPC (rn_id P) st rs)"
    using False by (simp add: RecycleSegments_def r)
  then show ?thesis using recycle_loop_split [OF r] False
    by (intro exI [of _ ?st] exI [of _ "SendSegmentRecycleRPC (rn_id P) st rs"] exI [of _ rs])
      (auto simp: SendSegmentRecycleRPC_batches)
qed

lemma ReplayLogData_refines:
  assumes "replay_pos st ds qs" "\<forall>q \<in> set qs. pending_ok cap m q"
    and "\<forall>q \<in> set qs. pending_clear P (pending_recs qs) q" "\<forall>seg \<in> set ds. physical_ptr seg \<noteq> 0"
    and "available = length (concat (map pending_bytes qs))"
    and "replay_records P (pending_recs qs) m = (n, AllApplied, m')"
  shows "\<exists>st' msgs rs. ReplayLogData P available st m = Some (st', m', msgs)
     \<and> replayed_log_length st' = replayed_log_length st + available
     \<and> ls_segments st = rs @ ls_segments st' \<and> (ls_segments st \<noteq> [] \<longrightarrow> ls_segments st' \<noteq> [])
     \<and> recycled_prefix_bytes st' = recycled_prefix_bytes st + sum_list (map received_length rs)
     \<and> recycled_prefix_bytes st' \<le> replayed_log_length st'
     \<and> concat (map rc_segments msgs) = map segment_addr rs"
proof -
  let ?st = "st\<lparr>replayed_log_length := replayed_log_length st + available\<rparr>"
  have loop: "replay_loop P available 0 0 st m = Some (?st, n, True, m')"
    using replay_loop_refines [OF assms(1-3) _ assms(6), of available 0 0] assms(5) by auto
  have le: "recycled_prefix_bytes st \<le> replayed_log_length st" using assms(1) by (simp add: replay_pos_def)
  show ?thesis
  proof (cases "n > 0")
    case True
    have "\<forall>seg \<in> set (ls_segments ?st). physical_ptr seg \<noteq> 0"
      using assms(1,2,4) by (auto simp: replay_pos_def pending_ok_def split: prod.splits)
    from RecycleSegments_effect [OF this, of P m'] obtain st' msgs rs where
      "RecycleSegments P m' ?st = Some (st', msgs)" "ls_segments ?st = rs @ ls_segments st'"
      "ls_segments ?st \<noteq> [] \<longrightarrow> ls_segments st' \<noteq> []"
      "recycled_prefix_bytes st' = recycled_prefix_bytes ?st + sum_list (map received_length rs)"
      "recycled_prefix_bytes ?st \<le> replayed_log_length ?st \<longrightarrow> recycled_prefix_bytes st' \<le> replayed_log_length ?st"
      "replayed_log_length st' = replayed_log_length ?st"
      "concat (map rc_segments msgs) = map segment_addr rs"
      by blast
    then show ?thesis using loop True le by (simp add: ReplayLogData_def)
  next
    case False
    then show ?thesis using loop le by (simp add: ReplayLogData_def)
  qed
qed


section \<open>Properties of replay and recycling\<close>

lemma replay_loop_keeps:
  assumes "replay_loop P available seen recs st m = Some y"
  shows "ls_segments (fst y) = ls_segments st \<and> recycled_prefix_bytes (fst y) = recycled_prefix_bytes st
     \<and> replayed_log_length st \<le> replayed_log_length (fst y)"
proof -
  let ?Q = "\<lambda>((((((P :: replay_node), (available :: nat)), (seen :: nat)), (recs :: nat)), st), (m :: mem)) (y :: LogStreamState \<times> nat \<times> bool \<times> mem).
     ls_segments (fst y) = ls_segments st \<and> recycled_prefix_bytes (fst y) = recycled_prefix_bytes st
     \<and> replayed_log_length st \<le> replayed_log_length (fst y)"
  have "?Q (((((P, available), seen), recs), st), m) y"
  proof (rule replay_loop.raw_induct [where Pa = ?Q, OF _ assms], goal_cases)
    case (1 loop P available seen recs st m y)
    from 1(2) show ?case
      by (auto simp: Let_def split: if_splits option.splits prod.splits replay_exit.splits dest!: 1(1))
  qed
  then show ?thesis by simp
qed

lemma replay_loop_stuck:
  assumes "find_segment (replayed_log_length st - recycled_prefix_bytes st) 0 (ls_segments st) = Some (seg, acc)"
    and "seen < available" "physical_ptr seg \<noteq> 0"
    and "off = replayed_log_length st - recycled_prefix_bytes st - acc"
    and "replay_segment P (physical_ptr seg + off) (min (available - seen) (received_length seg - off)) 0 recs m = Drained 0 recs m"
  shows "replay_loop P available seen recs st m = None"
proof (rule ccontr)
  assume "replay_loop P available seen recs st m \<noteq> None"
  then obtain y where y: "replay_loop P available seen recs st m = Some y" by blast
  let ?Q = "\<lambda>args (y :: LogStreamState \<times> nat \<times> bool \<times> mem). args \<noteq> (((((P, available), seen), recs), st), m)"
  have "?Q (((((P, available), seen), recs), st), m) y"
  proof (rule replay_loop.raw_induct [where Pa = ?Q, OF _ y], rule notI, goal_cases)
    case (1 loop P' available' seen' recs' st' m' y')
    then have "loop P available seen recs st m = Some y'"
      using assms by (simp add: Let_def)
    then show False using 1(1) by blast
  qed
  then show False by simp
qed

text \<open>
  C23: recycling.  When every announced segment has a translated address, \<^verbatim>\<open>RecycleSegments\<close> returns;
  the segments it gives back are the oldest ones, all their bytes have been replayed, the segment
  the compute node is writing to is never among them, the messages to the compute node list
  exactly these segments in order, at most sixteen per message, and the position of the replay in
  the stream is unchanged.
\<close>

theorem recycling_safe:
  assumes "\<forall>seg \<in> set (ls_segments st). physical_ptr seg \<noteq> 0" "recycled_prefix_bytes st \<le> replayed_log_length st"
  shows "\<exists>st' msgs rs. RecycleSegments P m st = Some (st', msgs)
     \<and> ls_segments st = rs @ ls_segments st' \<and> (ls_segments st \<noteq> [] \<longrightarrow> ls_segments st' \<noteq> [])
     \<and> recycled_prefix_bytes st' = recycled_prefix_bytes st + sum_list (map received_length rs)
     \<and> recycled_prefix_bytes st' \<le> replayed_log_length st' \<and> replayed_log_length st' = replayed_log_length st
     \<and> concat (map rc_segments msgs) = map segment_addr rs
     \<and> (\<forall>msg \<in> set msgs. length (rc_segments msg) \<le> MAX_SEGMENTS_PER_RPC \<and> rc_dest msg = ls_compute_node_id st)"
proof -
  obtain st' msgs rs where r: "RecycleSegments P m st = Some (st', msgs)"
    "ls_segments st = rs @ ls_segments st'" "ls_segments st \<noteq> [] \<longrightarrow> ls_segments st' \<noteq> []"
    "recycled_prefix_bytes st' = recycled_prefix_bytes st + sum_list (map received_length rs)"
    "recycled_prefix_bytes st' \<le> replayed_log_length st" "replayed_log_length st' = replayed_log_length st"
    "concat (map rc_segments msgs) = map segment_addr rs"
    using RecycleSegments_effect [OF assms(1), of P m] assms(2) by blast
  have "length (rc_segments msg) \<le> MAX_SEGMENTS_PER_RPC \<and> rc_dest msg = ls_compute_node_id st" if "msg \<in> set msgs" for msg
    using r(1) that SendSegmentRecycleRPC_batches
    by (auto simp: RecycleSegments_def split: if_splits)
  then show ?thesis using r by fastforce
qed

definition demo_log :: LogStreamState where
  "demo_log = \<lparr>ls_compute_node_id = 2, ls_logical_region_id = 5,
     ls_segments = [\<lparr>segment_addr = GlobalAddress 5 4096, segment_size = 64, received_length = 64, physical_ptr = 4096\<rparr>,
       \<lparr>segment_addr = GlobalAddress 5 8192, segment_size = 64, received_length = 30, physical_ptr = 8192\<rparr>],
     received_log_length = 94, replayed_log_length = 64, recycled_prefix_bytes = 0\<rparr>"

abbreviation demo_node :: replay_node where
  "demo_node \<equiv> \<lparr>rn_groups = Map.empty, rn_id = 3\<rparr>"

theorem recycling_safe_witness:
  "\<exists>st' msgs. RecycleSegments demo_node (\<lambda>_. 0) demo_log = Some (st', msgs)
     \<and> concat (map rc_segments msgs) = [GlobalAddress 5 4096] \<and> recycled_prefix_bytes st' = 64"
proof -
  have "RecycleSegments demo_node (\<lambda>_. 0) demo_log = Some (demo_log\<lparr>ls_segments := [last (ls_segments demo_log)],
      recycled_prefix_bytes := 64\<rparr>, [LogSegmentRecycle 2 3 5 [GlobalAddress 5 4096]])"
    by (simp add: RecycleSegments_def demo_log_def SendSegmentRecycleRPC.simps MAX_SEGMENTS_PER_RPC_def)
  then show ?thesis using recycling_safe [of demo_log demo_node "\<lambda>_. 0"] by (simp add: demo_log_def)
qed

text \<open>
  C40: malformed data.  When the next bytes to replay are neither the close marker nor a record with
  the magic number, \<^verbatim>\<open>ReplayLogData\<close> does not return: the inner loop stops without progress and the
  outer loop starts it again on the same bytes.
\<close>

theorem replay_hangs_on_malformed:
  assumes "find_segment (replayed_log_length st - recycled_prefix_bytes st) 0 (ls_segments st) = Some (seg, acc)"
    and "off = replayed_log_length st - recycled_prefix_bytes st - acc" "physical_ptr seg \<noteq> 0"
    and "sizeof_RecordHeader \<le> available" "sizeof_RecordHeader \<le> received_length seg - off"
    and "m (physical_ptr seg + off) \<noteq> SEGMENT_CLOSE_MARKER"
    and "magic (header_of_bytes (load_bytes (physical_ptr seg + off) sizeof_RecordHeader m)) \<noteq> RECORD_MAGIC"
  shows "ReplayLogData P available st m = None"
proof -
  have "0 < available" using assms(4) by (simp add: sizeof_RecordHeader_def)
  moreover have "replay_segment P (physical_ptr seg + off) (min available (received_length seg - off)) 0 0 m = Drained 0 0 m"
    using assms(4-7) by (subst replay_segment.simps) (simp add: Let_def sizeof_RecordHeader_def)
  ultimately have "replay_loop P available 0 0 st m = None"
    using replay_loop_stuck [OF assms(1) _ assms(3,2), of 0 available P 0 m] by simp
  then show ?thesis by (simp add: ReplayLogData_def)
qed

theorem replay_hangs_on_malformed_witness:
  "ReplayLogData demo_node 30 demo_log (\<lambda>_. 0) = None"
proof -
  let ?seg = "last (ls_segments demo_log)"
  have "take 2 (load_bytes 8192 sizeof_RecordHeader (\<lambda>_. 0)) = [0, 0]"
    by (simp add: load_bytes_def sizeof_RecordHeader_def)
  then have "magic (header_of_bytes (load_bytes 8192 sizeof_RecordHeader (\<lambda>_. 0))) \<noteq> RECORD_MAGIC"
    by (simp add: header_of_bytes_def RECORD_MAGIC_def)
  then show ?thesis
    using replay_hangs_on_malformed [of demo_log ?seg 64 0 30 "\<lambda>_. 0" demo_node]
    by (simp add: demo_log_def sizeof_RecordHeader_def SEGMENT_CLOSE_MARKER_def)
qed

text \<open>
  Stream numbering.  Distinct pairs of a compute node and a region below 32 have distinct
  stream slots inside the table; beyond that the numbering is not injective: region 32 of compute
  node 0 shares the slot of region 0 of compute node 1 and is accepted.
\<close>

theorem stream_index_unique:
  assumes "unat c < MAX_COMPUTE_NODES" "unat r < MAX_LOGICAL_REGIONS"
    and "unat c' < MAX_COMPUTE_NODES" "unat r' < MAX_LOGICAL_REGIONS"
  shows "MakeStreamIndex c r < MAX_STREAMS
    \<and> (MakeStreamIndex c r = MakeStreamIndex c' r' \<longleftrightarrow> c = c' \<and> r = r')
    \<and> MakeStreamIndex 0 32 = MakeStreamIndex 1 0 \<and> MakeStreamIndex 0 32 < MAX_STREAMS"
proof -
  note ds = MakeStreamIndex_def MAX_STREAMS_def MAX_COMPUTE_NODES_def MAX_LOGICAL_REGIONS_def
  have dm: "(a * 32 + b) div 32 = a" "(a * 32 + b) mod 32 = b" if "b < 32" for a b :: nat
    using that by simp_all
  have "unat c = unat c' \<and> unat r = unat r'" if "unat c * 32 + unat r = unat c' * 32 + unat r'"
    using that assms(2,4) dm [of "unat r" "unat c"] dm [of "unat r'" "unat c'"] unfolding ds by simp
  then show ?thesis using assms by (auto simp: ds word_unat_eq_iff)
qed

theorem stream_index_unique_witness:
  "MakeStreamIndex 2 5 < MAX_STREAMS \<and> MakeStreamIndex 2 5 \<noteq> MakeStreamIndex 5 2"
proof -
  have "unat (2 :: u16) < MAX_COMPUTE_NODES" "unat (5 :: u16) < MAX_LOGICAL_REGIONS"
    "unat (5 :: u16) < MAX_COMPUTE_NODES" "unat (2 :: u16) < MAX_LOGICAL_REGIONS" "(2 :: u16) \<noteq> 5"
    by (simp_all add: MAX_COMPUTE_NODES_def MAX_LOGICAL_REGIONS_def)
  then show ?thesis using stream_index_unique [of 2 5 5 2] by blast
qed

end
