(* ===== verification/Replication.thy ===== *)
theory Replication
  imports Log_Replay
begin

text \<open>
  The redo logger of a compute node and the replayer of a memory node together:
  the messages of a stream are delivered in order to a replica, which stores the
  bytes of an RDMA write, decodes its immediate value and updates its stream.
  The result is the end-to-end statement that a replica that has received and
  replayed a flushed stream holds the effect of every appended record.
\<close>

section \<open>Delivery\<close>

text \<open>The dispatch of the memory node: a segment request goes to the replayer, an RDMA write with
  immediate has been placed in memory by the network card when its completion is handled.\<close>

fun deliver :: "u16 \<Rightarrow> log_msg \<Rightarrow> LogReplayerManager \<times> mem \<Rightarrow> LogReplayerManager \<times> mem" where
  "deliver c (LogSegmentRequest d a c' l n new) (mg, m) = (HandleLogSegmentRequest a c' l n mg, m)"
| "deliver c (WriteImm d addr bytes imm) (mg, m) =
    (HandleWriteWithImm c (imm_region imm) (imm_size imm) mg, store_bytes (unat addr) bytes m)"

definition deliver_all :: "u16 \<Rightarrow> log_msg list \<Rightarrow> LogReplayerManager \<times> mem \<Rightarrow> LogReplayerManager \<times> mem" where
  "deliver_all c ms S = foldl (\<lambda>S msg. deliver c msg S) S ms"

definition seg_ptr :: "PhysicalRegion \<Rightarrow> GlobalAddress \<Rightarrow> nat" where
  "seg_ptr r a = unat (seg_phys r a)"

text \<open>Segments of a view are placed apart: inside the address space and disjoint.\<close>

definition view_placed :: "PhysicalRegion \<Rightarrow> nat \<Rightarrow> replica_view \<Rightarrow> bool" where
  "view_placed r cap v \<longleftrightarrow>
     (\<forall>(a, bs) \<in> set v. 0 < seg_ptr r a \<and> seg_ptr r a + cap < 2 ^ 64 \<and> length bs \<le> cap)
     \<and> sorted_wrt (\<lambda>(a, _) (b, _). seg_ptr r a + cap \<le> seg_ptr r b \<or> seg_ptr r b + cap \<le> seg_ptr r a) v"

definition seg_matches :: "PhysicalRegion \<Rightarrow> mem \<Rightarrow> LogSegment \<Rightarrow> GlobalAddress \<times> byte list \<Rightarrow> bool" where
  "seg_matches r m seg e = (case e of (a, bs) \<Rightarrow>
     segment_addr seg = a \<and> received_length seg = length bs \<and> physical_ptr seg = seg_ptr r a
     \<and> load_bytes (seg_ptr r a) (length bs) m = bs)"

definition holds_view :: "PhysicalRegion \<Rightarrow> u16 \<Rightarrow> u16 \<Rightarrow> replica_view \<Rightarrow> LogReplayerManager \<times> mem \<Rightarrow> bool" where
  "holds_view r c region v S = (case S of (mg, m) \<Rightarrow>
     (\<exists>st. lm_streams mg (MakeStreamIndex c region) = Some st
       \<and> list_all2 (seg_matches r m) (ls_segments st) v
       \<and> received_log_length st = length (concat (map snd v))
       \<and> replayed_log_length st = 0 \<and> recycled_prefix_bytes st = 0))"

lemma page_phys_replica:
  assumes "is_replica (rn_groups P) region r" "rn_id P = phys_id r" "nodeID a = region"
  shows "page_phys P a = seg_ptr r a"
  using Translate_replica [OF assms(1), of "ucast (goffset a)"] assms(2,3)
  by (simp add: page_phys_def seg_ptr_def seg_phys_def)

lemma deliver_request:
  assumes "holds_view r c region v (mg, m)" "is_replica (rn_groups (lm_node mg)) region r"
    and "rn_id (lm_node mg) = phys_id r" "MakeStreamIndex c region < MAX_STREAMS"
    and "nodeID a = region" "0 < seg_ptr r a"
  shows "holds_view r c region (v @ [(a, [])]) (HandleLogSegmentRequest a c region n mg, m)"
proof -
  obtain st where st: "lm_streams mg (MakeStreamIndex c region) = Some st"
    "list_all2 (seg_matches r m) (ls_segments st) v" "received_log_length st = length (concat (map snd v))"
    "replayed_log_length st = 0" "recycled_prefix_bytes st = 0"
    using assms(1) by (auto simp: holds_view_def)
  have ptr: "page_phys (lm_node mg) a = seg_ptr r a" using page_phys_replica assms(2,3,5) .
  show ?thesis
    using st assms(4,6) 
    by (auto simp: holds_view_def HandleLogSegmentRequest_def GetOrInitializeStreamState_def Let_def ptr
        GetOrCreateRegionReplayer_def seg_matches_def intro!: list_all2_appendI)
qed

lemma list_all2_snoc_right:
  "list_all2 R xs (ys @ [y]) \<longleftrightarrow> (\<exists>xs0 x. xs = xs0 @ [x] \<and> list_all2 R xs0 ys \<and> R x y)"
proof
  assume "list_all2 R xs (ys @ [y])"
  then show "\<exists>xs0 x. xs = xs0 @ [x] \<and> list_all2 R xs0 ys \<and> R x y"
    by (auto simp: list_all2_append2 list_all2_Cons2)
qed (auto intro: list_all2_appendI)

lemma seg_matches_frame:
  assumes "seg_matches r m seg (a, bs)" "\<And>x. seg_ptr r a \<le> x \<Longrightarrow> x < seg_ptr r a + length bs \<Longrightarrow> m' x = m x"
  shows "seg_matches r m' seg (a, bs)"
  using assms load_bytes_cong [of "seg_ptr r a" "length bs" m' m] by (simp add: seg_matches_def)

lemma deliver_write:
  assumes "holds_view r c region (v @ [(a, bs)]) (mg, m)" "MakeStreamIndex c region < MAX_STREAMS"
    and "view_placed r cap (v @ [(a, bs @ bytes)])"
    and "addr = seg_phys r a + of_nat (length bs)" "imm_size imm = length bytes" "imm_region imm = region"
  shows "holds_view r c region (v @ [(a, bs @ bytes)])
    (HandleWriteWithImm c (imm_region imm) (imm_size imm) mg, store_bytes (unat addr) bytes m)"
proof -
  obtain st segs seg where st: "lm_streams mg (MakeStreamIndex c region) = Some st" "ls_segments st = segs @ [seg]"
    "list_all2 (seg_matches r m) segs v" "seg_matches r m seg (a, bs)"
    "received_log_length st = length (concat (map snd (v @ [(a, bs)])))"
    "replayed_log_length st = 0" "recycled_prefix_bytes st = 0"
    using assms(1) by (auto simp: holds_view_def list_all2_snoc_right)
  have room: "seg_ptr r a + cap < 2 ^ 64" "length bs + length bytes \<le> cap"
    and apart: "\<forall>(b, cs) \<in> set v. length cs \<le> cap \<and> (seg_ptr r b + cap \<le> seg_ptr r a \<or> seg_ptr r a + cap \<le> seg_ptr r b)"
    using assms(3) by (auto simp: view_placed_def sorted_wrt_append)
  have addr: "unat addr = seg_ptr r a + length bs"
    using room unfolding assms(4) seg_ptr_def
    by (simp add: unat_word_ariths unsigned_of_nat take_bit_nat_eq_self)
  let ?m = "store_bytes (unat addr) bytes m" and ?seg = "seg\<lparr>received_length := received_length seg + length bytes\<rparr>"
  have "list_all2 (seg_matches r ?m) segs v"
    using st(3)
  proof (rule list.rel_mono_strong)
    fix s e assume "s \<in> set segs" "e \<in> set v" "seg_matches r m s e"
    moreover obtain b cs where e: "e = (b, cs)" by (rule prod.exhaust)
    ultimately have sep: "length cs \<le> cap" "seg_ptr r b + cap \<le> seg_ptr r a \<or> seg_ptr r a + cap \<le> seg_ptr r b"
      using apart by auto
    have "?m x = m x" if "seg_ptr r b \<le> x" "x < seg_ptr r b + length cs" for x
      using that sep addr room(2) by (intro store_bytes_out) linarith
    then show "seg_matches r ?m s e"
      using \<open>seg_matches r m s e\<close> unfolding e by (rule seg_matches_frame [rotated])
  qed
  moreover have "seg_matches r ?m ?seg (a, bs @ bytes)"
    using st(4) addr by (simp add: seg_matches_def load_bytes_split load_store_disjoint)
  ultimately show ?thesis
    using st assms(2,5,6)
    by (auto simp: holds_view_def HandleWriteWithImm_def GetOrCreateRegionReplayer_def add_received_def
        list_all2_snoc_right Let_def)
qed


lemma deliver_msg:
  assumes "holds_view r c region v (mg, m)" "is_replica (rn_groups (lm_node mg)) region r"
    and "rn_id (lm_node mg) = phys_id r" "MakeStreamIndex c region < MAX_STREAMS"
    and "view_msg r c region v msg = Some v'" "view_placed r cap v'"
  shows "holds_view r c region v' (deliver c msg (mg, m))
    \<and> lm_node (fst (deliver c msg (mg, m))) = lm_node mg"
proof (cases msg)
  case (LogSegmentRequest d a c' l n new)
  then have e: "v' = v @ [(a, [])]" "c' = c" "l = region" "nodeID a = region"
    using assms(5) by (auto split: if_splits)
  have "0 < seg_ptr r a" using assms(6) e(1) by (auto simp: view_placed_def)
  from deliver_request [OF assms(1-4) e(4) this, of n] show ?thesis
    using LogSegmentRequest e
    by (auto simp: HandleLogSegmentRequest_def GetOrInitializeStreamState_def GetOrCreateRegionReplayer_def Let_def
        split: option.splits)
next
  case (WriteImm d addr bytes imm)
  then obtain v0 a bs where e: "v = v0 @ [(a, bs)]" "v' = v0 @ [(a, bs @ bytes)]"
    "addr = seg_phys r a + of_nat (length bs)" "imm_size imm = length bytes" "imm_region imm = region"
    using assms(5) by (cases v rule: rev_cases) (auto split: if_splits)
  from deliver_write [OF assms(1) [unfolded e(1)] assms(4) assms(6) [unfolded e(2)] e(3-5)] show ?thesis
    using WriteImm e(2)
    by (auto simp: HandleWriteWithImm_def GetOrCreateRegionReplayer_def Let_def split: option.splits)
qed

lemma view_placed_prefix: "view_msg r c region v msg = Some v' \<Longrightarrow> view_placed r cap v' \<Longrightarrow> view_placed r cap v"
  by (cases msg; cases v rule: rev_cases) (auto simp: view_placed_def sorted_wrt_append split: if_splits)

lemma view_placed_msgs: "view_msgs r c region v ms = Some v' \<Longrightarrow> view_placed r cap v' \<Longrightarrow> view_placed r cap v"
  by (induction ms arbitrary: v) (auto split: option.splits intro: view_placed_prefix)

lemma deliver_msgs:
  assumes "holds_view r c region v (mg, m)" "is_replica (rn_groups (lm_node mg)) region r"
    and "rn_id (lm_node mg) = phys_id r" "MakeStreamIndex c region < MAX_STREAMS"
    and "view_msgs r c region v ms = Some v'" "view_placed r cap v'"
  shows "holds_view r c region v' (deliver_all c ms (mg, m))
    \<and> lm_node (fst (deliver_all c ms (mg, m))) = lm_node mg"
  using assms
proof (induction ms arbitrary: v mg m)
  case Nil
  then show ?case by (simp add: deliver_all_def)
next
  case (Cons msg ms)
  obtain v1 where v1: "view_msg r c region v msg = Some v1" "view_msgs r c region v1 ms = Some v'"
    using Cons.prems(5) by (auto split: option.splits)
  obtain mg1 m1 where d: "deliver c msg (mg, m) = (mg1, m1)" by (rule prod.exhaust)
  have "view_placed r cap v1" using view_placed_msgs v1(2) Cons.prems(6) .
  from deliver_msg [OF Cons.prems(1-4) v1(1) this] have
    "holds_view r c region v1 (mg1, m1)" "lm_node mg1 = lm_node mg" by (simp_all add: d)
  with Cons.IH [OF this(1) _ _ _ v1(2)] Cons.prems(2-4,6) show ?case by (simp add: deliver_all_def d)
qed


section \<open>Replaying what was delivered\<close>

text \<open>The segments of a stream that matches a view of whole records, as the replayer's pending work.\<close>

definition pendings :: "LogSegment list \<Rightarrow> closed_segment list \<Rightarrow> pending list" where
  "pendings segs es = map (\<lambda>(seg, a, rs, mark). (seg, 0, rs, mark)) (zip segs es)"

lemma pendings_facts:
  assumes "list_all2 (seg_matches r m) segs (map closed_bytes es)" "list_all (closed_ok cap) es"
    and "\<forall>(a, bs) \<in> set (map closed_bytes es). 0 < seg_ptr r a"
  shows "map fst (pendings segs es) = segs \<and> pending_recs (pendings segs es) = logged es []
    \<and> (\<forall>q \<in> set (pendings segs es). pending_ok cap m q \<and> fst (snd q) = 0)
    \<and> concat (map pending_bytes (pendings segs es)) = concat (map snd (map closed_bytes es))"
  using assms
proof (induction segs arbitrary: es)
  case Nil
  then show ?case by (simp add: pendings_def pending_recs_def logged_def)
next
  case (Cons seg segs)
  then obtain e es' where es: "es = e # es'" by (cases es) auto
  obtain a rs mark where e: "e = (a, rs, mark)" by (rule prod_cases3)
  have "pending_ok cap m (seg, 0, rs, mark)"
    using Cons.prems by (auto simp: es e closed_bytes_def [of "(a, rs, mark)"] seg_matches_def pending_ok_def
        closed_ok_def [of cap "(a, rs, mark)"])
  moreover have "map fst (pendings segs es') = segs \<and> pending_recs (pendings segs es') = logged es' []
    \<and> (\<forall>q \<in> set (pendings segs es'). pending_ok cap m q \<and> fst (snd q) = 0)
    \<and> concat (map pending_bytes (pendings segs es')) = concat (map snd (map closed_bytes es'))"
    using Cons.prems by (intro Cons.IH) (auto simp: es)
  ultimately show ?case
    by (simp add: es e pendings_def logged_def pending_bytes_def [of "(seg, 0, rs, mark)"] closed_bytes_def [of "(a, rs, mark)"])
qed

lemma replay_delivered:
  assumes "holds_view r c region (map closed_bytes es) (mg, m)" "list_all (closed_ok cap) es"
    and "view_placed r cap (map closed_bytes es)"
    and "\<forall>(a, bs) \<in> set (map closed_bytes es). \<forall>x \<in> set (logged es []).
           record_clear (lm_node mg) (seg_ptr r a) (seg_ptr r a + length bs) x"
    and "replay_records (lm_node mg) (logged es []) m = (n, AllApplied, m')"
  shows "\<exists>st st' msgs. lm_streams mg (MakeStreamIndex c region) = Some st
     \<and> ReplayLogData (lm_node mg) (received_log_length st - replayed_log_length st) st m = Some (st', m', msgs)
     \<and> replayed_log_length st' = received_log_length st"
proof -
  obtain st where st: "lm_streams mg (MakeStreamIndex c region) = Some st"
    "list_all2 (seg_matches r m) (ls_segments st) (map closed_bytes es)"
    "received_log_length st = length (concat (map snd (map closed_bytes es)))"
    "replayed_log_length st = 0" "recycled_prefix_bytes st = 0"
    using assms(1) by (auto simp: holds_view_def)
  let ?qs = "pendings (ls_segments st) es"
  have "\<forall>(a, bs) \<in> set (map closed_bytes es). 0 < seg_ptr r a" using assms(3) by (auto simp: view_placed_def)
  note q = pendings_facts [OF st(2) assms(2) this]
  have pos: "replay_pos st [] ?qs"
    using q st(4,5) by (cases ?qs) (auto simp: replay_pos_def)
  have clear: "\<forall>q \<in> set ?qs. pending_clear (lm_node mg) (pending_recs ?qs) q"
  proof
    fix q' assume "q' \<in> set ?qs"
    then obtain i where i: "i < length (ls_segments st)" "i < length es" "q' = ?qs ! i"
      by (auto simp: pendings_def in_set_conv_nth)
    obtain a rs mark where e: "es ! i = (a, rs, mark)" by (rule prod_cases3)
    then have cb: "closed_bytes (es ! i) = (a, recs_bytes rs @ mark)" by (simp add: closed_bytes_def)
    have "seg_matches r m (ls_segments st ! i) (a, recs_bytes rs @ mark)"
      using list_all2_nthD [OF st(2), of i] i cb by simp
    moreover have "(a, recs_bytes rs @ mark) \<in> set (map closed_bytes es)"
      using i cb by (metis length_map nth_map nth_mem)
    then have "\<forall>x \<in> set (logged es []). record_clear (lm_node mg) (seg_ptr r a)
        (seg_ptr r a + length (recs_bytes rs @ mark)) x"
      using assms(4) by blast
    moreover have "q' = (ls_segments st ! i, 0, rs, mark)" using i e by (simp add: pendings_def)
    ultimately show "pending_clear (lm_node mg) (pending_recs ?qs) q'"
      using q by (simp add: pending_clear_def seg_matches_def list_all_iff)
  qed
  have "received_log_length st - replayed_log_length st = length (concat (map pending_bytes ?qs))"
    using q st(3,4) by simp
  from ReplayLogData_refines [OF pos _ clear _ this] q assms(5) st show ?thesis by fastforce
qed


lemma deliver_first_request:
  assumes "is_replica (rn_groups (lm_node mg)) region r" "rn_id (lm_node mg) = phys_id r"
    and "MakeStreamIndex c region < MAX_STREAMS" "lm_streams mg (MakeStreamIndex c region) = None"
    and "nodeID a = region" "0 < seg_ptr r a"
  shows "holds_view r c region [(a, [])] (HandleLogSegmentRequest a c region n mg, m)"
    and "lm_node (HandleLogSegmentRequest a c region n mg) = lm_node mg"
  using assms page_phys_replica [OF assms(1,2,5)]
  by (auto simp: holds_view_def HandleLogSegmentRequest_def GetOrInitializeStreamState_def Let_def
      GetOrCreateRegionReplayer_def seg_matches_def new_LogStreamState_def)


lemma decode_demo:
  "fst (decode_all (Decoder_new [1, 4, 100, 77] (Suc (Suc (Suc (Suc 0)))))) = [SET_U64_LE 100 77]"
  "d_ok (snd (decode_all (Decoder_new [1, 4, 100, 77] (Suc (Suc (Suc (Suc 0)))))))"
proof -
  have "encode_ops [SET_U64_LE 100 77] = [1, 4, 100, 77]"
    by (simp add: encode_ops_eq Add_defs uvarint.simps kCodecVersion_def)
  then show "fst (decode_all (Decoder_new [1, 4, 100, 77] (Suc (Suc (Suc (Suc 0)))))) = [SET_U64_LE 100 77]"
    "d_ok (snd (decode_all (Decoder_new [1, 4, 100, 77] (Suc (Suc (Suc (Suc 0)))))))"
    using decode_encode_ops [of "[SET_U64_LE 100 77]"] by simp_all
qed

definition demo_record :: log_record where
  "demo_record = (mk_header (GlobalAddress 5 0) 1 4, [1, 4, 100, 77])"

definition demo_ops :: "log_op list" where
  "demo_ops = [LAppend (GlobalAddress 5 30000) (GlobalAddress 5 0) 1 [1, 4, 100, 77]]"

definition demo_seg :: GlobalAddress where
  "demo_seg = GlobalAddress 5 20000"

abbreviation demo_stream :: StreamState where
  "demo_stream \<equiv> new_stream \<lparr>rl_compute_node_id = 2, rl_mode = WRITE_ALL_REPLICAS,
     rl_enable_file_system = False, rl_streams = Map.empty\<rparr> 64 (\<lambda>_. 0) 5 demo_seg"

definition demo_manager :: LogReplayerManager where
  "demo_manager = \<lparr>lm_node = \<lparr>rn_groups = demo_groups, rn_id = 3\<rparr>, lm_streams = Map.empty,
     lm_segment_to_stream = Map.empty, lm_replayers = []\<rparr>"

abbreviation demo_appended :: StreamState where
  "demo_appended \<equiv> demo_stream\<lparr>stage_mr := store_bytes 0 (rec_bytes demo_record) (\<lambda>_. 0), tail := 26\<rparr>"

lemma demo_run: "log_run demo_groups 2 64 1 demo_ops demo_stream = (demo_appended, [])"
proof -
  have "AppendLocked demo_groups WRITE_ALL_REPLICAS 2 64 (GlobalAddress 5 30000)
      (mk_header (GlobalAddress 5 0) 1 4) [1, 4, 100, 77] demo_stream = (demo_appended, [] @ [])"
    by (subst AppendLocked_split [of _ _ _ _ _ _ _ _ demo_stream "[]" demo_stream "[]"])
      (simp_all add: demo_record_def rec_bytes_def mk_header_def new_stream_def sizeof_RecordHeader_def)
  then show ?thesis by (simp add: demo_ops_def)
qed

lemma length_demo_record: "length (rec_bytes demo_record) = 26"
  by (simp add: demo_record_def rec_bytes_def sizeof_RecordHeader_def)

lemma demo_flush: "FlushLocked demo_groups WRITE_ALL_REPLICAS demo_appended
   = (demo_appended\<lparr>flushed_tail := 26\<rparr>, [WriteImm 3 24096 (rec_bytes demo_record) (encode_imm 26 5)])"
  by (simp add: FlushLocked_def demo_groups_def GetReplicaSet_def new_stream_def demo_seg_def GADD_def
     TranslateLogicalToPhysicalAddress_def length_demo_record Let_def)


lemma demo_view: "view_msgs demo_replica 2 5 [(demo_seg, [])] [WriteImm 3 24096 (rec_bytes demo_record) (encode_imm 26 5)]
   = Some [(demo_seg, rec_bytes demo_record)]"
  by (simp add: imm_roundtrip length_demo_record demo_replica_def demo_seg_def seg_phys_def)

lemma demo_ptr: "seg_ptr demo_replica demo_seg = 24096"
  by (simp add: seg_ptr_def seg_phys_def demo_replica_def demo_seg_def)

lemma demo_placed: "view_placed demo_replica 64 [(demo_seg, rec_bytes demo_record)]"
  by (simp add: view_placed_def demo_ptr length_demo_record)

lemma demo_page: "page_phys (lm_node demo_manager) (GlobalAddress 5 0) = 4096"
  by (simp add: page_phys_def demo_manager_def TranslateLogicalToPhysicalAddress_def demo_groups_def)

lemma demo_clear: "record_clear (lm_node demo_manager) 24096 (24096 + 26) demo_record"
  by (simp add: record_clear_def demo_record_def mk_header_def demo_page decode_demo kLeafPageSize_def)

lemma demo_replay:
  "replay_records (lm_node demo_manager) [demo_record] (store_bytes 24096 (rec_bytes demo_record) (\<lambda>_. 0))
    = (1, AllApplied, apply_record (lm_node demo_manager) demo_record (store_bytes 24096 (rec_bytes demo_record) (\<lambda>_. 0)))"
proof -
  have "GetCurrentPageVersion (lm_node demo_manager) (GlobalAddress 5 0) (store_bytes 24096 (rec_bytes demo_record) (\<lambda>_. 0)) = 0"
    by (simp add: GetCurrentPageVersion_def demo_page load_store_disjoint P_VERSION_OFF_def) (simp add: load_bytes_def)
  then show ?thesis
    by (simp add: demo_record_def mk_header_def ProcessLogRecord_def demo_page case_prod_unfold decode_demo)
qed

lemma demo_effect:
  "le_word (load_bytes (4096 + 100) 8 (apply_record (lm_node demo_manager) demo_record m)) = (77 :: u64)"
  by (simp add: apply_record_def demo_record_def mk_header_def SetCurrentPageVersion_def demo_page
     ProcessLogRecord_def case_prod_unfold decode_demo apply_ops_def P_VERSION_OFF_def load_store_disjoint)



text \<open>
  C11: replay refines the record semantics.  On a stream whose unreplayed part is a sequence of
  well-formed records in segments that the records themselves do not overwrite, the byte-level
  \<^verbatim>\<open>ReplayLogData\<close> terminates and leaves the memory of the record-level replay, whether that ends with all records
  applied, at a record of an old version or a failed one, or at one of a future version; when
  all are applied every available byte counts as replayed.
\<close>

theorem replay_refines_records:
  assumes "replay_pos st ds qs" "\<forall>q \<in> set qs. pending_ok cap m q"
    and "\<forall>q \<in> set qs. pending_clear P (pending_recs qs) q" "\<forall>seg \<in> set ds. physical_ptr seg \<noteq> 0"
    and "available = length (concat (map pending_bytes qs))"
    and "replay_records P (pending_recs qs) m = (n, status, m')"
  shows "\<exists>st' msgs. ReplayLogData P available st m = Some (st', m', msgs)
     \<and> (status = AllApplied \<longrightarrow> replayed_log_length st' = replayed_log_length st + available)
     \<and> replayed_log_length st \<le> replayed_log_length st'"
proof -
  obtain st1 recs where loop: "replay_loop P available 0 0 st m = Some (st1, recs, status \<noteq> StaleOrFailed, m')"
    "status = AllApplied \<longrightarrow> st1 = st\<lparr>replayed_log_length := replayed_log_length st + available\<rparr>"
    using replay_loop_refines [OF assms(1-3) _ assms(6), of available 0 0] assms(5) by auto
  have keeps: "ls_segments st1 = ls_segments st" "replayed_log_length st \<le> replayed_log_length st1"
    using replay_loop_keeps [OF loop(1)] by simp_all
  show ?thesis
  proof (cases "status \<noteq> StaleOrFailed \<and> recs > 0")
    case True
    have "\<forall>seg \<in> set (ls_segments st1). physical_ptr seg \<noteq> 0"
      using assms(1,2,4) keeps(1) by (auto simp: replay_pos_def pending_ok_def split: prod.splits)
    from RecycleSegments_effect [OF this, of P m'] show ?thesis
      using True loop keeps by (auto simp: ReplayLogData_def)
  next
    case False
    then show ?thesis using loop keeps by (auto simp: ReplayLogData_def)
  qed
qed

theorem replay_refines_records_witness:
  "\<exists>st' m' msgs. ReplayLogData (lm_node demo_manager) 26
       ((new_LogStreamState 2 5)\<lparr>received_log_length := 26, ls_segments :=
          [\<lparr>segment_addr = demo_seg, segment_size = 64, received_length = 26, physical_ptr = 24096\<rparr>]\<rparr>)
       (store_bytes 24096 (rec_bytes demo_record) (\<lambda>_. 0)) = Some (st', m', msgs)
     \<and> replayed_log_length st' = 26 \<and> le_word (load_bytes (4096 + 100) 8 m') = (77 :: u64)"
proof -
  let ?seg = "\<lparr>segment_addr = demo_seg, segment_size = 64, received_length = 26, physical_ptr = 24096\<rparr>"
  let ?st = "(new_LogStreamState 2 5)\<lparr>received_log_length := 26, ls_segments := [?seg]\<rparr>"
  let ?qs = "[(?seg, 0, [demo_record], [])]" and ?m = "store_bytes 24096 (rec_bytes demo_record) (\<lambda>_. 0)"
  have ld: "load_bytes 24096 26 ?m = rec_bytes demo_record"
    by (simp add: length_demo_record)
  have pos: "replay_pos ?st [] ?qs" by (simp add: replay_pos_def new_LogStreamState_def)
  have rok: "rec_ok 64 demo_record"
    by (simp add: rec_ok_def demo_record_def mk_header_def sizeof_RecordHeader_def rec_bytes_def)
  have ok: "\<forall>q \<in> set ?qs. pending_ok 64 ?m q"
    using ld rok by (simp add: pending_ok_def length_demo_record)
  have clear: "\<forall>q \<in> set ?qs. pending_clear (lm_node demo_manager) (pending_recs ?qs) q"
    using demo_clear by (simp add: pending_clear_def pending_recs_def)
  have av: "26 = length (concat (map pending_bytes ?qs))" by (simp add: pending_bytes_def length_demo_record)
  have rr: "replay_records (lm_node demo_manager) (pending_recs ?qs) ?m
      = (1, AllApplied, apply_record (lm_node demo_manager) demo_record ?m)"
    using demo_replay by (simp add: pending_recs_def)
  from replay_refines_records [OF pos ok clear _ av rr] show ?thesis
    using demo_effect [of ?m] by (auto simp: new_LogStreamState_def)
qed

end
