(* ===== verification/Data_Page.thy ===== *)
theory Data_Page
  imports Address
begin

text \<open>
  Data pages, \<^verbatim>\<open>DataPage\<close> of \<^verbatim>\<open>storage/page.h\<close> and \<^verbatim>\<open>storage/page.cpp\<close>: a bitmap of
  occupied slots followed by fixed-size records.  The bitmap is the list of its
  64-bit words and the record area a byte memory that starts after the bitmap;
  the address handed out for a record is computed as in the code, and the layout
  theorem shows that bitmap and records fit the page.
\<close>

section \<open>Definitions\<close>

datatype Page_Type = P_Plain | P_Internal_P | P_Internal_S | P_Leaf_P | P_Leaf_S | P_Data

record Header =
  p_type :: Page_Type
  dirty_upper_bound :: u16
  dirty_lower_bound :: u16
  p_version :: u64
  this_page_g_ptr :: GlobalAddress
  number_of_records :: u32
  kDataCardinality :: nat
  table_id :: u32
  lsn :: u64

record DataPage =
  hdr :: Header
  bitmap :: "u64 list"
  records :: mem

text \<open>Offset of \<^verbatim>\<open>data_\<close>: the latch word and the 48-byte header come first.\<close>

definition DATA_OFF :: nat where
  "DATA_OFF = 56"

definition bitmap_words :: "nat \<Rightarrow> nat" where
  "bitmap_words n = (n + 63) div 64"

definition merge_dirty_bounds :: "u16 \<Rightarrow> u16 \<Rightarrow> Header \<Rightarrow> Header" where
  "merge_dirty_bounds dirty_lower dirty_upper h =
    (if dirty_upper_bound h = 0
     then h\<lparr>dirty_upper_bound := dirty_upper, dirty_lower_bound := dirty_lower\<rparr>
     else h\<lparr>dirty_upper_bound := max (dirty_upper_bound h) dirty_upper,
           dirty_lower_bound := min (dirty_lower_bound h) dirty_lower\<rparr>)"

definition reset_dirty_bounds :: "Header \<Rightarrow> Header" where
  "reset_dirty_bounds h = h\<lparr>dirty_upper_bound := 0, dirty_lower_bound := 0\<rparr>"

text \<open>The constructor; \<open>area\<close> is whatever the record area holds.\<close>

definition DataPage_new :: "GlobalAddress \<Rightarrow> nat \<Rightarrow> u32 \<Rightarrow> mem \<Rightarrow> DataPage" where
  "DataPage_new g n tid area =
    \<lparr>hdr = \<lparr>p_type = P_Data, dirty_upper_bound = 0, dirty_lower_bound = 0, p_version = 1,
            this_page_g_ptr = g, number_of_records = 0, kDataCardinality = n, table_id = tid, lsn = 0\<rparr>,
     bitmap = replicate (bitmap_words n) 0, records = area\<rparr>"

definition calculate_cardinality :: "nat \<Rightarrow> nat \<Rightarrow> nat" where
  "calculate_cardinality page_size record_size =
    8 * (page_size - DATA_OFF - 8 - 1) div (8 * record_size + 1)"

text \<open>The first slot whose bit is clear; \<open>None\<close> is the result -1.\<close>

fun find_empty_spot :: "u64 list \<Rightarrow> nat \<Rightarrow> nat \<Rightarrow> nat option" where
  "find_empty_spot [] i left = None"
| "find_empty_spot (w # ws) i left =
    (if w \<noteq> - 1 then
       (case find (\<lambda>j. w AND push_bit j 1 = 0) [0..<min 64 left] of
          Some j \<Rightarrow> Some (i * 64 + j)
        | None \<Rightarrow> find_empty_spot ws (i + 1) (left - 64))
     else find_empty_spot ws (i + 1) (left - 64))"

definition find_empty_spot_from_bitmap :: "u64 list \<Rightarrow> nat \<Rightarrow> nat option" where
  "find_empty_spot_from_bitmap bm number_of_bits =
    find_empty_spot (take (bitmap_words number_of_bits) bm) 0 number_of_bits"

definition set_bitmap :: "u64 list \<Rightarrow> nat \<Rightarrow> u64 list" where
  "set_bitmap bm index = bm[index div 64 := bm ! (index div 64) OR push_bit (index mod 64) 1]"

definition reset_bitmap :: "u64 list \<Rightarrow> nat \<Rightarrow> u64 list" where
  "reset_bitmap bm index = bm[index div 64 := bm ! (index div 64) AND NOT (push_bit (index mod 64) 1)]"

definition record_offset :: "DataPage \<Rightarrow> nat \<Rightarrow> nat \<Rightarrow> nat" where
  "record_offset p tuple_length slot =
    DATA_OFF + bitmap_words (kDataCardinality (hdr p)) * 8 + slot * tuple_length"

definition occupy :: "nat \<Rightarrow> DataPage \<Rightarrow> DataPage" where
  "occupy slot p = p\<lparr>bitmap := set_bitmap (bitmap p) slot,
     hdr := (hdr p)\<lparr>number_of_records := number_of_records (hdr p) + 1\<rparr>\<rparr>"

text \<open>Both operations return the new page, the record count and the address of the record, or
  \<open>None\<close> when the page is full.\<close>

definition InsertRecord :: "byte list \<Rightarrow> nat \<Rightarrow> DataPage \<Rightarrow> (DataPage \<times> u32 \<times> GlobalAddress) option" where
  "InsertRecord tuple tuple_length p =
    (case find_empty_spot_from_bitmap (bitmap p) (kDataCardinality (hdr p)) of
       None \<Rightarrow> None
     | Some slot \<Rightarrow>
         let p1 = occupy slot (p\<lparr>records := store_bytes (slot * tuple_length) tuple (records p)\<rparr>)
         in Some (p1, number_of_records (hdr p1),
                  GADD (this_page_g_ptr (hdr p)) (int (record_offset p tuple_length slot))))"

definition AllocateRecord :: "nat \<Rightarrow> DataPage \<Rightarrow> (DataPage \<times> u32 \<times> GlobalAddress \<times> nat) option" where
  "AllocateRecord tuple_length p =
    (case find_empty_spot_from_bitmap (bitmap p) (kDataCardinality (hdr p)) of
       None \<Rightarrow> None
     | Some slot \<Rightarrow>
         let p1 = occupy slot p
         in Some (p1, number_of_records (hdr p1),
                  GADD (this_page_g_ptr (hdr p)) (int (record_offset p tuple_length slot)),
                  slot * tuple_length))"

definition DeleteRecord :: "GlobalAddress \<Rightarrow> nat \<Rightarrow> DataPage \<Rightarrow> DataPage" where
  "DeleteRecord g_addr tuple_length p =
    (let page_offset = unat (goffset g_addr) - unat (goffset (this_page_g_ptr (hdr p)))
           - bitmap_words (kDataCardinality (hdr p)) * 8 - DATA_OFF;
         index = page_offset div tuple_length
     in p\<lparr>bitmap := reset_bitmap (bitmap p) index\<rparr>)"


section \<open>The bitmap\<close>

definition slot_used :: "u64 list \<Rightarrow> nat \<Rightarrow> bool" where
  "slot_used bm k \<longleftrightarrow> bit (bm ! (k div 64)) (k mod 64)"

lemma find_first:
  "find P [0..<n] = Some j \<longleftrightarrow> j < n \<and> P j \<and> (\<forall>i < j. \<not> P i)"
  "find P [0..<n] = None \<longleftrightarrow> (\<forall>i < n. \<not> P i)"
  by (auto simp: find_Some_iff find_None_iff)

lemma slot_used_Cons:
  "slot_used (w # ws) k = (if k < 64 then bit w k else slot_used ws (k - 64))"
proof (cases "k < 64")
  case False
  then have "k div 64 = Suc ((k - 64) div 64)" "k mod 64 = (k - 64) mod 64"
    by (simp_all add: le_div_geq le_mod_geq)
  then show ?thesis using False by (simp add: slot_used_def)
qed (simp add: slot_used_def)

lemma all_ones_bit: "bit (- 1 :: u64) j \<longleftrightarrow> j < 64"
  by simp

text \<open>What the two nested loops of \<open>find_empty_spot_from_bitmap\<close> compute: the least clear bit.\<close>

lemma find_empty_spot_spec:
  assumes "left \<le> 64 * length ws"
  shows "find_empty_spot ws i left = map_option (\<lambda>k. i * 64 + k) (find (\<lambda>k. \<not> slot_used ws k) [0..<left])"
  using assms
proof (induction ws arbitrary: i left)
  case Nil
  then show ?case by simp
next
  case (Cons w ws)
  have f: "find (\<lambda>j. w AND push_bit j 1 = 0) [0..<min 64 left] = find (\<lambda>j. \<not> bit w j) [0..<min 64 left]"
    by (rule find_cong) (auto simp: and_exp_eq_0_iff_not_bit)
  show ?case
  proof (cases "find (\<lambda>j. \<not> bit w j) [0..<min 64 left]")
    case (Some j)
    then have j: "j < min 64 left" "\<not> bit w j" "\<forall>i < j. bit w i" by (simp_all add: find_first)
    then have "find (\<lambda>k. \<not> slot_used (w # ws) k) [0..<left] = Some j"
      by (simp add: find_first slot_used_Cons)
    moreover have "w \<noteq> - 1" using j by auto
    ultimately show ?thesis using f Some by simp
  next
    case None
    then have n: "bit w j" if "j < min 64 left" for j using that by (simp add: find_first)
    have "find_empty_spot (w # ws) i left = find_empty_spot ws (i + 1) (left - 64)"
      using f None by simp
    also have "\<dots> = map_option (\<lambda>k. (i + 1) * 64 + k) (find (\<lambda>k. \<not> slot_used ws k) [0..<left - 64])"
      using Cons.prems by (intro Cons.IH) simp
    also have "\<dots> = map_option (\<lambda>k. i * 64 + k) (find (\<lambda>k. \<not> slot_used (w # ws) k) [0..<left])"
    proof (cases "find (\<lambda>k. \<not> slot_used ws k) [0..<left - 64]")
      case None
      then have "find (\<lambda>k. \<not> slot_used (w # ws) k) [0..<left] = None"
        using n by (auto simp: find_first slot_used_Cons)
      then show ?thesis using None by simp
    next
      case (Some k)
      then have "find (\<lambda>k. \<not> slot_used (w # ws) k) [0..<left] = Some (64 + k)"
        using n by (auto simp: find_first slot_used_Cons)
      then show ?thesis using Some by simp
    qed
    finally show ?thesis .
  qed
qed

lemma find_empty_spot_from_bitmap_spec:
  assumes "length bm = bitmap_words n"
  shows "find_empty_spot_from_bitmap bm n = find (\<lambda>k. \<not> slot_used bm k) [0..<n]"
proof -
  have "n \<le> 64 * bitmap_words n" by (simp add: bitmap_words_def)
  then show ?thesis
    using find_empty_spot_spec [of n bm 0] assms by (simp add: find_empty_spot_from_bitmap_def option.map_ident)
qed

lemma slot_eq_iff: "j = k \<longleftrightarrow> j div 64 = k div 64 \<and> j mod 64 = k mod 64" for j k :: nat
  by (metis div_mult_mod_eq)

lemma slot_used_set:
  assumes "k div 64 < length bm"
  shows "slot_used (set_bitmap bm k) j \<longleftrightarrow> j = k \<or> slot_used bm j"
proof (cases "j div 64 = k div 64")
  case True
  then show ?thesis
    using assms by (simp add: slot_eq_iff [of j k] slot_used_def set_bitmap_def bit_or_iff bit_exp_iff) blast
qed (auto simp: slot_used_def set_bitmap_def)

lemma slot_used_reset:
  assumes "k div 64 < length bm"
  shows "slot_used (reset_bitmap bm k) j \<longleftrightarrow> j \<noteq> k \<and> slot_used bm j"
proof (cases "j div 64 = k div 64")
  case True
  then show ?thesis
    using assms by (simp add: slot_eq_iff [of j k] slot_used_def reset_bitmap_def bit_and_iff bit_not_iff bit_exp_iff) blast
qed (auto simp: slot_used_def reset_bitmap_def)


section \<open>Layout\<close>

lemma bitmap_bytes_le: "8 * (8 * bitmap_words n) \<le> n + 63"
  by (simp add: bitmap_words_def)

lemma cardinality_bound:
  "calculate_cardinality page_size rs * (8 * rs + 1) \<le> 8 * (page_size - DATA_OFF - 8 - 1)"
  unfolding calculate_cardinality_def by (rule div_times_less_eq_dividend)

lemma records_fit:
  assumes "DATA_OFF + 9 \<le> page_size" "n = calculate_cardinality page_size rs"
  shows "DATA_OFF + bitmap_words n * 8 + n * rs < page_size"
proof -
  have "n * (8 * rs + 1) \<le> 8 * (page_size - DATA_OFF - 8 - 1)"
    using cardinality_bound assms(2) by simp
  then have "8 * (n * rs) + n \<le> 8 * (page_size - DATA_OFF - 9)" by (simp add: algebra_simps)
  then show ?thesis using bitmap_bytes_le [of n] assms(1) by linarith
qed

definition slot_addr :: "DataPage \<Rightarrow> nat \<Rightarrow> nat \<Rightarrow> GlobalAddress" where
  "slot_addr p len k = GADD (this_page_g_ptr (hdr p)) (int (record_offset p len k))"

definition page_wf :: "nat \<Rightarrow> DataPage \<Rightarrow> bool" where
  "page_wf len p \<longleftrightarrow> 0 < len \<and> length (bitmap p) = bitmap_words (kDataCardinality (hdr p))
    \<and> unat (goffset (this_page_g_ptr (hdr p))) + record_offset p len (kDataCardinality (hdr p)) < 2 ^ 48"

lemma slot_in_bitmap: "k < n \<Longrightarrow> k div 64 < bitmap_words n"
  by (simp add: bitmap_words_def div_less_iff_less_mult)

lemma record_offset_mono: "k \<le> n \<Longrightarrow> record_offset p len k \<le> record_offset p len n"
  by (simp add: record_offset_def)

lemma slot_addr_offset:
  assumes "page_wf len p" "k \<le> kDataCardinality (hdr p)"
  shows "unat (goffset (slot_addr p len k)) = unat (goffset (this_page_g_ptr (hdr p))) + record_offset p len k"
proof -
  have "unat (goffset (this_page_g_ptr (hdr p))) + record_offset p len k < 2 ^ 48"
    using assms record_offset_mono [of k "kDataCardinality (hdr p)" p len] by (simp add: page_wf_def)
  then show ?thesis
    by (simp add: slot_addr_def GADD_def unat_word_ariths unsigned_of_nat take_bit_nat_eq_self)
qed

lemma slot_addr_inject:
  assumes "page_wf len p" "j < kDataCardinality (hdr p)" "k < kDataCardinality (hdr p)"
  shows "slot_addr p len j = slot_addr p len k \<longleftrightarrow> j = k"
proof
  assume "slot_addr p len j = slot_addr p len k"
  then have "record_offset p len j = record_offset p len k"
    using slot_addr_offset [OF assms(1)] assms(2,3) by (metis add_left_cancel less_imp_le)
  then show "j = k" using assms(1) by (simp add: record_offset_def page_wf_def)
qed simp


section \<open>A data page is a finite map from addresses to records\<close>

definition page_lookup :: "nat \<Rightarrow> DataPage \<Rightarrow> GlobalAddress \<Rightarrow> byte list option" where
  "page_lookup len p g =
    (case find (\<lambda>k. slot_addr p len k = g \<and> slot_used (bitmap p) k) [0..<kDataCardinality (hdr p)] of
       None \<Rightarrow> None
     | Some k \<Rightarrow> Some (load_bytes (k * len) len (records p)))"

lemma page_lookup_Some:
  assumes "page_wf len p" "k < kDataCardinality (hdr p)"
  shows "page_lookup len p (slot_addr p len k)
    = (if slot_used (bitmap p) k then Some (load_bytes (k * len) len (records p)) else None)"
proof -
  have "find (\<lambda>j. slot_addr p len j = slot_addr p len k \<and> slot_used (bitmap p) j) [0..<kDataCardinality (hdr p)]
      = (if slot_used (bitmap p) k then Some k else None)"
    using assms slot_addr_inject [OF assms(1)] by (auto simp: find_first)
  then show ?thesis by (simp add: page_lookup_def)
qed

lemma page_lookup_elsewhere:
  assumes "\<forall>k < kDataCardinality (hdr p). g \<noteq> slot_addr p len k"
  shows "page_lookup len p g = None"
proof -
  have "find (\<lambda>k. slot_addr p len k = g \<and> slot_used (bitmap p) k) [0..<kDataCardinality (hdr p)] = None"
    using assms by (auto simp: find_first)
  then show ?thesis by (simp add: page_lookup_def)
qed

locale record_store =
  fixes wf :: "'p \<Rightarrow> bool"
    and good :: "'r \<Rightarrow> bool"
    and lookup :: "'p \<Rightarrow> 'a \<Rightarrow> 'r option"
    and ins :: "'r \<Rightarrow> 'p \<Rightarrow> ('p \<times> 'a) option"
    and del :: "'a \<Rightarrow> 'p \<Rightarrow> 'p"
  assumes ins_wf: "wf p \<Longrightarrow> good r \<Longrightarrow> ins r p = Some (p', a) \<Longrightarrow> wf p'"
    and ins_fresh: "wf p \<Longrightarrow> good r \<Longrightarrow> ins r p = Some (p', a) \<Longrightarrow> lookup p a = None"
    and ins_lookup: "wf p \<Longrightarrow> good r \<Longrightarrow> ins r p = Some (p', a) \<Longrightarrow> lookup p' = (lookup p)(a \<mapsto> r)"
    and del_wf: "wf p \<Longrightarrow> a \<in> dom (lookup p) \<Longrightarrow> wf (del a p)"
    and del_lookup: "wf p \<Longrightarrow> a \<in> dom (lookup p) \<Longrightarrow> lookup (del a p) = (lookup p)(a := None)"
begin

fun ins_all :: "'r list \<Rightarrow> 'p \<Rightarrow> ('p \<times> 'a list) option" where
  "ins_all [] p = Some (p, [])"
| "ins_all (r # rs) p =
    (case ins r p of None \<Rightarrow> None
     | Some (p1, a) \<Rightarrow> (case ins_all rs p1 of None \<Rightarrow> None | Some (p2, as) \<Rightarrow> Some (p2, a # as)))"

lemma ins_del_restores:
  "wf p \<Longrightarrow> good r \<Longrightarrow> ins r p = Some (p', a) \<Longrightarrow> lookup (del a p') = lookup p"
  using ins_wf [of p r p' a] ins_fresh [of p r p' a] ins_lookup [of p r p' a] del_lookup [of p' a]
  by (auto simp: fun_upd_idem)

lemma ins_all_lookup:
  assumes "wf p" "\<forall>r \<in> set rs. good r" "ins_all rs p = Some (p', as)"
  shows "wf p' \<and> length as = length rs \<and> distinct as \<and> set as \<inter> dom (lookup p) = {}
    \<and> lookup p' = lookup p ++ map_of (zip as rs)"
  using assms
proof (induction rs arbitrary: p as)
  case (Cons r rs)
  obtain p1 a as' where s: "ins r p = Some (p1, a)" "ins_all rs p1 = Some (p', as')" "as = a # as'"
    using Cons.prems(3) by (auto split: option.splits prod.splits)
  have 1: "wf p1" "lookup p a = None" "lookup p1 = (lookup p)(a \<mapsto> r)"
    using Cons.prems ins_wf ins_fresh ins_lookup s(1) by auto
  have 2: "wf p' \<and> length as' = length rs \<and> distinct as' \<and> set as' \<inter> dom (lookup p1) = {}
    \<and> lookup p' = lookup p1 ++ map_of (zip as' rs)"
    using Cons.IH [OF 1(1) _ s(2)] Cons.prems(2) by simp
  then have a: "a \<notin> set as'" using 1(3) by auto
  then have "a \<notin> dom (map_of (zip as' rs))"
    using 2 by (simp add: dom_map_of_zip)
  then have "lookup p' = lookup p ++ map_of (zip as (r # rs))"
    using 2 by (simp add: s(3) 1(3) map_add_upd_left)
  moreover have "wf p' \<and> length as = length (r # rs) \<and> distinct as \<and> set as \<inter> dom (lookup p) = {}"
    using 2 a 1 s(3) by auto
  ultimately show ?case by blast
qed simp

end

definition page_insert :: "nat \<Rightarrow> byte list \<Rightarrow> DataPage \<Rightarrow> (DataPage \<times> GlobalAddress) option" where
  "page_insert len r p = map_option (\<lambda>(p', cnt, g). (p', g)) (InsertRecord r len p)"

definition page_delete :: "nat \<Rightarrow> GlobalAddress \<Rightarrow> DataPage \<Rightarrow> DataPage" where
  "page_delete len g p = DeleteRecord g len p"

lemma page_insert_slot:
  assumes "page_wf len p" "page_insert len r p = Some (p', g)"
  shows "\<exists>k < kDataCardinality (hdr p). \<not> slot_used (bitmap p) k \<and> g = slot_addr p len k
    \<and> p' = occupy k (p\<lparr>records := store_bytes (k * len) r (records p)\<rparr>)"
proof -
  have "length (bitmap p) = bitmap_words (kDataCardinality (hdr p))" using assms(1) by (simp add: page_wf_def)
  note spec = find_empty_spot_from_bitmap_spec [OF this]
  obtain k where k: "find_empty_spot_from_bitmap (bitmap p) (kDataCardinality (hdr p)) = Some k"
    "g = slot_addr p len k" "p' = occupy k (p\<lparr>records := store_bytes (k * len) r (records p)\<rparr>)"
    using assms(2) by (auto simp: page_insert_def InsertRecord_def slot_addr_def Let_def split: option.splits)
  then show ?thesis by (auto simp: spec find_first)
qed

lemma occupy_frame [simp]:
  "kDataCardinality (hdr (occupy k p)) = kDataCardinality (hdr p)"
  "slot_addr (occupy k p) len j = slot_addr p len j" "records (occupy k p) = records p"
  "bitmap (occupy k p) = set_bitmap (bitmap p) k"
  by (simp_all add: occupy_def slot_addr_def record_offset_def)

lemma slot_disjoint: "j \<noteq> k \<Longrightarrow> j * len + len \<le> k * len \<or> k * len + len \<le> j * len" for j k len :: nat
  by (metis add.commute mult_Suc mult_le_mono1 Suc_leI linorder_neqE_nat)

lemma page_wf_cong:
  "kDataCardinality (hdr p') = kDataCardinality (hdr p) \<Longrightarrow> this_page_g_ptr (hdr p') = this_page_g_ptr (hdr p) \<Longrightarrow>
   length (bitmap p') = length (bitmap p) \<Longrightarrow> page_wf len p' = page_wf len p"
  by (simp add: page_wf_def record_offset_def)

lemma page_insert_wf:
  assumes "page_wf len p" "page_insert len r p = Some (p', g)"
  shows "page_wf len p'"
  using page_insert_slot [OF assms] assms(1) page_wf_cong [of p' p len]
  by (auto simp: occupy_def set_bitmap_def)

lemma page_insert_lookup:
  assumes "page_wf len p" "length r = len" "page_insert len r p = Some (p', g)"
  shows "page_lookup len p g = None \<and> page_lookup len p' = (page_lookup len p)(g \<mapsto> r)"
proof -
  obtain k where k: "k < kDataCardinality (hdr p)" "\<not> slot_used (bitmap p) k" "g = slot_addr p len k"
    "p' = occupy k (p\<lparr>records := store_bytes (k * len) r (records p)\<rparr>)"
    using page_insert_slot [OF assms(1,3)] by blast
  have wf': "page_wf len p'" using page_insert_wf [OF assms(1,3)] .
  have addr: "slot_addr p' len j = slot_addr p len j" "kDataCardinality (hdr p') = kDataCardinality (hdr p)" for j
    by (simp_all add: k(4)) (simp add: slot_addr_def record_offset_def)
  have used: "slot_used (bitmap p') j \<longleftrightarrow> j = k \<or> slot_used (bitmap p) j" for j
    using slot_used_set slot_in_bitmap [OF k(1)] assms(1) by (simp add: k(4) page_wf_def)
  have rec: "load_bytes (j * len) len (records p') = (if j = k then r else load_bytes (j * len) len (records p))" for j
    using slot_disjoint [of j k len] assms(2) by (auto simp: k(4) load_store_disjoint)
  have "page_lookup len p' h = ((page_lookup len p)(g \<mapsto> r)) h" for h
  proof (cases "\<exists>j < kDataCardinality (hdr p). h = slot_addr p len j")
    case True
    then obtain j where j: "j < kDataCardinality (hdr p)" "h = slot_addr p len j" by blast
    then have "h = g \<longleftrightarrow> j = k" using slot_addr_inject [OF assms(1) j(1) k(1)] k(3) by simp
    then show ?thesis
      using page_lookup_Some [OF wf', of j] page_lookup_Some [OF assms(1) j(1)] j addr used rec by simp
  next
    case False
    then have "h \<noteq> g" using k by blast
    then show ?thesis using False page_lookup_elsewhere addr by (metis fun_upd_other)
  qed
  moreover have "page_lookup len p g = None" using page_lookup_Some [OF assms(1) k(1)] k(2,3) by simp
  ultimately show ?thesis by auto
qed

lemma page_delete_slot:
  assumes "page_wf len p" "k < kDataCardinality (hdr p)"
  shows "page_delete len (slot_addr p len k) p = p\<lparr>bitmap := reset_bitmap (bitmap p) k\<rparr>"
proof -
  have "unat (goffset (slot_addr p len k)) - unat (goffset (this_page_g_ptr (hdr p)))
      - bitmap_words (kDataCardinality (hdr p)) * 8 - DATA_OFF = k * len"
    using slot_addr_offset [OF assms(1)] assms(2) by (simp add: record_offset_def)
  then show ?thesis using assms(1) by (simp add: page_delete_def DeleteRecord_def page_wf_def Let_def)
qed

lemma page_delete_lookup:
  assumes "page_wf len p" "g \<in> dom (page_lookup len p)"
  shows "page_wf len (page_delete len g p) \<and> page_lookup len (page_delete len g p) = (page_lookup len p)(g := None)"
proof -
  obtain k where k: "k < kDataCardinality (hdr p)" "g = slot_addr p len k"
    using assms(2) page_lookup_elsewhere [of p g len] by (metis domIff)
  note d = page_delete_slot [OF assms(1) k(1), folded k(2)]
  have wf': "page_wf len (page_delete len g p)"
    using assms(1) page_wf_cong [of "page_delete len g p" p len] by (simp add: d reset_bitmap_def)
  have addr: "slot_addr (page_delete len g p) len j = slot_addr p len j" for j
    by (simp add: d slot_addr_def record_offset_def)
  have used: "slot_used (bitmap (page_delete len g p)) j \<longleftrightarrow> j \<noteq> k \<and> slot_used (bitmap p) j" for j
    using slot_used_reset slot_in_bitmap [OF k(1)] assms(1) by (simp add: d page_wf_def)
  have "page_lookup len (page_delete len g p) h = ((page_lookup len p)(g := None)) h" for h
  proof (cases "\<exists>j < kDataCardinality (hdr p). h = slot_addr p len j")
    case True
    then obtain j where j: "j < kDataCardinality (hdr p)" "h = slot_addr p len j" by blast
    then have "h = g \<longleftrightarrow> j = k" using slot_addr_inject [OF assms(1) j(1) k(1)] k(2) by simp
    then show ?thesis
      using page_lookup_Some [OF wf', of j] page_lookup_Some [OF assms(1) j(1)] j addr used by (simp add: d)
  next
    case False
    then have "page_lookup len (page_delete len g p) h = None" "page_lookup len p h = None"
      by (auto intro!: page_lookup_elsewhere simp: addr) (auto simp: d)
    then show ?thesis by simp
  qed
  then show ?thesis using wf' by auto
qed

interpretation data_page: record_store "page_wf len" "\<lambda>r. length r = len" "page_lookup len" "page_insert len" "page_delete len"
  by unfold_locales (use page_insert_wf page_insert_lookup page_delete_lookup in metis)+

text \<open>
  C21: a data page is a finite map.  On a well-formed page, inserting records one after the other
  (as long as there is room) returns pairwise distinct fresh addresses, and afterwards every
  inserted record is read back from its address while every record that was there before is
  unchanged; deleting the last inserted record restores the contents.
\<close>

theorem data_page_store:
  assumes "page_wf len p" "\<forall>r \<in> set (rs @ [r0]). length r = len"
    and "data_page.ins_all len rs p = Some (p1, gs)" "InsertRecord r0 len p1 = Some (p2, cnt, g)"
  shows "distinct gs \<and> set gs \<inter> dom (page_lookup len p) = {}
    \<and> page_lookup len p1 = page_lookup len p ++ map_of (zip gs rs)
    \<and> page_lookup len p2 = (page_lookup len p1)(g \<mapsto> r0)
    \<and> page_lookup len (DeleteRecord g len p2) = page_lookup len p1"
proof -
  have 1: "page_wf len p1" "distinct gs" "set gs \<inter> dom (page_lookup len p) = {}"
    "page_lookup len p1 = page_lookup len p ++ map_of (zip gs rs)"
    using data_page.ins_all_lookup [OF assms(1) _ assms(3)] assms(2) by auto
  have 2: "page_insert len r0 p1 = Some (p2, g)" using assms(4) by (simp add: page_insert_def)
  have "length r0 = len" using assms(2) by simp
  then show ?thesis
    using 1 data_page.ins_lookup [OF 1(1) _ 2] data_page.ins_del_restores [OF 1(1) _ 2]
    by (simp add: page_delete_def)
qed

theorem data_page_store_witness:
  "\<exists>p1 gs p2 cnt g. data_page.ins_all 2 [[1, 2], [3, 4]] (DataPage_new (GlobalAddress 1 0) 3 7 (\<lambda>_. 0)) = Some (p1, gs)
    \<and> InsertRecord [5, 6] 2 p1 = Some (p2, cnt, g) \<and> distinct gs
    \<and> page_lookup 2 p2 g = Some [5, 6] \<and> page_lookup 2 (DeleteRecord g 2 p2) = page_lookup 2 p1"
proof -
  let ?p = "DataPage_new (GlobalAddress 1 0) 3 7 (\<lambda>_. 0)"
  have wf: "page_wf 2 ?p"
    by (simp add: page_wf_def DataPage_new_def record_offset_def bitmap_words_def DATA_OFF_def)
  have "\<exists>p1 gs p2 cnt g. data_page.ins_all 2 [[1, 2], [3, 4]] ?p = Some (p1, gs) \<and> InsertRecord [5, 6] 2 p1 = Some (p2, cnt, g)"
    by (simp add: page_insert_def InsertRecord_def DataPage_new_def bitmap_words_def occupy_def set_bitmap_def
        find_empty_spot_from_bitmap_def upt_rec Let_def)
  then obtain p1 gs p2 cnt g where r: "data_page.ins_all 2 [[1, 2], [3, 4]] ?p = Some (p1, gs)"
    "InsertRecord [5, 6] 2 p1 = Some (p2, cnt, g)" by blast
  from data_page_store [OF wf _ r] show ?thesis using r by auto
qed

text \<open>
  A data page hands out a slot exactly while one is free.  \<open>InsertRecord\<close> and \<open>AllocateRecord\<close>
  fail on a well-formed page if and only if every slot is used, and otherwise they take the
  first free slot and leave all other slots as they were.
\<close>

theorem insert_takes_first_free_slot:
  assumes "page_wf len p"
  shows "(InsertRecord r len p = None \<longleftrightarrow> (\<forall>k < kDataCardinality (hdr p). slot_used (bitmap p) k))
    \<and> (AllocateRecord len p = None \<longleftrightarrow> (\<forall>k < kDataCardinality (hdr p). slot_used (bitmap p) k))
    \<and> (\<forall>p' cnt g. InsertRecord r len p = Some (p', cnt, g) \<longrightarrow>
         (\<exists>k < kDataCardinality (hdr p). \<not> slot_used (bitmap p) k \<and> (\<forall>j < k. slot_used (bitmap p) j)
            \<and> g = GADD (this_page_g_ptr (hdr p)) (int (record_offset p len k))
            \<and> (\<forall>j. slot_used (bitmap p') j \<longleftrightarrow> j = k \<or> slot_used (bitmap p) j)))"
proof -
  have len: "length (bitmap p) = bitmap_words (kDataCardinality (hdr p))" using assms by (simp add: page_wf_def)
  note spec = find_empty_spot_from_bitmap_spec [OF len]
  have "\<exists>k < kDataCardinality (hdr p). \<not> slot_used (bitmap p) k \<and> (\<forall>j < k. slot_used (bitmap p) j)
            \<and> g = GADD (this_page_g_ptr (hdr p)) (int (record_offset p len k))
            \<and> (\<forall>j. slot_used (bitmap p') j \<longleftrightarrow> j = k \<or> slot_used (bitmap p) j)"
    if ins: "InsertRecord r len p = Some (p', cnt, g)" for p' cnt g
  proof -
    obtain k where k: "find (\<lambda>k. \<not> slot_used (bitmap p) k) [0..<kDataCardinality (hdr p)] = Some k"
      "g = GADD (this_page_g_ptr (hdr p)) (int (record_offset p len k))"
      "bitmap p' = set_bitmap (bitmap p) k"
      using ins by (auto simp: InsertRecord_def spec Let_def split: option.splits)
    then have "k < kDataCardinality (hdr p)" by (simp add: find_first)
    then show ?thesis
      using k slot_used_set [of k "bitmap p"] slot_in_bitmap [of k] len by (auto simp: find_first)
  qed
  then show ?thesis
    by (auto simp: InsertRecord_def AllocateRecord_def spec Let_def find_first split: option.splits)
qed

theorem insert_takes_first_free_slot_witness:
  "AllocateRecord 2 (DataPage_new (GlobalAddress 1 0) 0 7 (\<lambda>_. 0)) = None
    \<and> AllocateRecord 2 (DataPage_new (GlobalAddress 1 0) 1 7 (\<lambda>_. 0)) \<noteq> None"
  using insert_takes_first_free_slot [of 2 "DataPage_new (GlobalAddress 1 0) 0 7 (\<lambda>_. 0)" "[]"]
    insert_takes_first_free_slot [of 2 "DataPage_new (GlobalAddress 1 0) 1 7 (\<lambda>_. 0)" "[]"]
  by (simp add: page_wf_def DataPage_new_def record_offset_def bitmap_words_def DATA_OFF_def slot_used_def)

text \<open>
  C31: the layout of a data page.  With the cardinality the code computes for a page size and a
  record size, the latch word, the header, the bitmap and all records fit the page, and one
  byte is left over.
\<close>

theorem data_page_fits:
  assumes "DATA_OFF + 9 \<le> page_size" "n = calculate_cardinality page_size rs"
  shows "DATA_OFF + bitmap_words n * 8 + n * rs < page_size"
  by (rule records_fit [OF assms])

theorem data_page_fits_witness:
  "calculate_cardinality kLeafPageSize 100 = 163
    \<and> DATA_OFF + bitmap_words (calculate_cardinality kLeafPageSize 100) * 8
        + calculate_cardinality kLeafPageSize 100 * 100 < kLeafPageSize"
  using data_page_fits [of kLeafPageSize "calculate_cardinality kLeafPageSize 100" 100]
  by (simp add: kLeafPageSize_def DATA_OFF_def calculate_cardinality_def)

text \<open>
  The record counter drifts.  \<open>DeleteRecord\<close> clears the slot but does not decrement
  \<open>number_of_records\<close>: after an insertion, its deletion and another insertion into a page with one
  slot the counter exceeds the number of slots.
\<close>

theorem delete_keeps_record_count:
  "number_of_records (hdr (DeleteRecord g len p)) = number_of_records (hdr p)
   \<and> (\<exists>p1 p2 c1 c2 g1 g2.
        InsertRecord [1] 1 (DataPage_new (GlobalAddress 1 0) 1 7 (\<lambda>_. 0)) = Some (p1, c1, g1)
        \<and> InsertRecord [2] 1 (DeleteRecord g1 1 p1) = Some (p2, c2, g2)
        \<and> kDataCardinality (hdr p2) = 1 \<and> c2 = 2)"
  by (simp add: DeleteRecord_def Let_def InsertRecord_def DataPage_new_def bitmap_words_def occupy_def set_bitmap_def
      reset_bitmap_def find_empty_spot_from_bitmap_def upt_rec GADD_def record_offset_def DATA_OFF_def)

end
