(* ===== verification/Latch.thy ===== *)
theory Latch
  imports Address
begin

text \<open>
  The global latch word of a page and the one-sided operations on it
  (\<^verbatim>\<open>storage/rdma.cc\<close>, the functions \<^verbatim>\<open>global_Rlock...\<close>, \<^verbatim>\<open>global_Wlock...\<close>,
  \<^verbatim>\<open>global_RUnlock\<close> and the invalidation RPCs of the requester).

  The latch word lives in the first eight bytes of the page on the memory node.
  Its top byte holds \<open>100 + id div 2\<close> of the exclusive holder and bit
  \<open>id div 2 + 1\<close> is set for every shared holder.  An acquisition loop of the code
  talks to the network in rounds: each round may send an invalidation message
  and then issues one RDMA atomic.  The loops below take the answers of the
  network as a list of rounds and return the requests they issue, so that the
  outcome \<open>Running\<close> means that the loop is still retrying when the list ends.
  Spin waits and statistics counters are left out.
\<close>


section \<open>The latch word\<close>

definition excl :: "nat \<Rightarrow> u64" where
  "excl n = push_bit 56 (of_nat (n div 2 + 100))"

definition shared_bit :: "nat \<Rightarrow> u64" where
  "shared_bit n = push_bit (n div 2 + 1) 1"

definition substract :: "u64 \<Rightarrow> u64" where
  "substract add = NOT add + 1"

definition write_byte :: "u64 \<Rightarrow> nat" where
  "write_byte w = unat (drop_bit 56 w)"

definition INVALIDATION_INTERVAL :: nat where
  "INVALIDATION_INTERVAL = 5"

definition ATOMIC_OUTSTANDING_SIZE :: nat where
  "ATOMIC_OUTSTANDING_SIZE = 16"

definition starvation_ladder :: "nat \<Rightarrow> nat \<Rightarrow> nat" where
  "starvation_ladder retry_cnt level =
     (if retry_cnt < 20 then level
      else if retry_cnt < 40 then 1
      else if retry_cnt < 80 then 2
      else if retry_cnt < 160 then 3
      else if retry_cnt < 200 then 4
      else if retry_cnt < 1000 then 5
      else if 5 + retry_cnt div 1000 < 255 then 5 + retry_cnt div 1000 else 255)"


section \<open>Requests and messages\<close>

datatype RDMA_Command_Type = invalid_command | reader_invalidate_modified
  | writer_invalidate_modified | writer_invalidate_shared

datatype Page_Forward_Reply_Type = waiting | processed | dropped | pending | ignored

record inv_message =
  im_command :: RDMA_Command_Type
  im_target :: nat
  im_page :: GlobalAddress
  im_level :: nat
  im_reminder :: bool
  im_buffer :: nat
  im_rkey :: u32

record lock_cfg =
  lc_node :: nat
  lc_ncompute :: nat
  lc_page :: GlobalAddress
  lc_buffer :: nat
  lc_rkey :: u32

datatype lock_act = Send inv_message | Faa u64 | Cas u64 u64 | ReadPage

definition mk_inv :: "lock_cfg \<Rightarrow> RDMA_Command_Type \<Rightarrow> nat \<Rightarrow> nat \<Rightarrow> bool \<Rightarrow> inv_message" where
  "mk_inv c cmd target level reminder =
     \<lparr>im_command = cmd, im_target = target, im_page = lc_page c, im_level = level,
      im_reminder = reminder, im_buffer = lc_buffer c, im_rkey = lc_rkey c\<rparr>"

text \<open>
  The resend loop of the two modified-page RPCs.  The argument \<open>k\<close> counts how
  often the pending timer fires before the reply leaves \<open>pending\<close>; the first
  message carries \<open>reminder = False\<close>, every resent one \<open>True\<close>.
\<close>
fun inv_resend :: "lock_cfg \<Rightarrow> RDMA_Command_Type \<Rightarrow> nat \<Rightarrow> nat \<Rightarrow> bool \<Rightarrow> nat \<Rightarrow> nat
    \<Rightarrow> lock_act list \<times> nat \<times> nat" where
  "inv_resend c cmd target 0 rm level retry_cnt =
     (let r = retry_cnt + 1; l = starvation_ladder r level
      in ([Send (mk_inv c cmd target l rm)], l, r))"
| "inv_resend c cmd target (Suc k) rm level retry_cnt =
     (let r = retry_cnt + 1; l = starvation_ladder r level;
          (as, l', r') = inv_resend c cmd target k True l r
      in (Send (mk_inv c cmd target l rm) # as, l', r'))"

definition Reader_Invalidate_Modified_RPC :: "lock_cfg \<Rightarrow> nat \<Rightarrow> nat \<Rightarrow> nat \<Rightarrow> nat
    \<Rightarrow> lock_act list \<times> nat \<times> nat" where
  "Reader_Invalidate_Modified_RPC c target k level retry_cnt =
     inv_resend c reader_invalidate_modified target k False level retry_cnt"

definition Writer_Invalidate_Modified_RPC :: "lock_cfg \<Rightarrow> nat \<Rightarrow> nat \<Rightarrow> nat \<Rightarrow> nat
    \<Rightarrow> lock_act list \<times> nat \<times> nat" where
  "Writer_Invalidate_Modified_RPC c target k level retry_cnt =
     inv_resend c writer_invalidate_modified target k False level retry_cnt"

text \<open>
  The shared-page RPC names a reply slot at index \<open>pos\<close> of the thread's read
  buffer (one byte per reply), not the page buffer.
\<close>
definition Writer_Invalidate_Shared_RPC :: "lock_cfg \<Rightarrow> nat \<times> u32 \<Rightarrow> nat \<Rightarrow> nat \<Rightarrow> nat \<Rightarrow> lock_act" where
  "Writer_Invalidate_Shared_RPC c recv target level pos =
     Send ((mk_inv c writer_invalidate_shared target level False)
       \<lparr>im_buffer := fst recv + pos, im_rkey := snd recv\<rparr>)"


section \<open>Shared acquisition\<close>

record rlock_state =
  rl_retry :: nat
  rl_level :: nat
  rl_target :: nat
  rl_last :: u64

record lock_round =
  lr_reminders :: nat
  lr_reply :: Page_Forward_Reply_Type
  lr_old :: u64

datatype lock_result = Acquired | Forwarded | GaveUp | Running

definition rlock_init :: rlock_state where
  "rlock_init = \<lparr>rl_retry = 0, rl_level = 0, rl_target = 0, rl_last = 0\<rparr>"

definition rlock_gives_up :: "nat \<Rightarrow> nat \<Rightarrow> bool" where
  "rlock_gives_up r_times retry_cnt \<longleftrightarrow> 0 < r_times \<and> r_times \<le> retry_cnt"

definition rlock_invalidate :: "lock_cfg \<Rightarrow> lock_round \<Rightarrow> rlock_state \<Rightarrow> lock_act list \<times> rlock_state \<times> bool" where
  "rlock_invalidate c x st =
     (let st1 = st\<lparr>rl_retry := rl_retry st + 1\<rparr>
      in if rl_retry st mod INVALIDATION_INTERVAL = 1
         then let st2 = st1\<lparr>rl_level := starvation_ladder (rl_retry st1) (rl_level st1)\<rparr>
              in if rl_target st2 \<noteq> lc_node c \<and> rl_target st2 < lc_ncompute c * 2
                 then let (as, l, r) = Reader_Invalidate_Modified_RPC c (rl_target st2)
                            (lr_reminders x) (rl_level st2) (rl_retry st2)
                      in (as, st2\<lparr>rl_level := l, rl_retry := r\<rparr>, lr_reply x = processed)
                 else ([], st2, False)
         else ([], st1, False))"

definition rlock_conflict :: "u64 \<Rightarrow> rlock_state \<Rightarrow> rlock_state" where
  "rlock_conflict old st =
     st\<lparr>rl_retry := (if drop_bit 56 (rl_last st) \<noteq> drop_bit 56 old
                     then rl_retry st div INVALIDATION_INTERVAL else rl_retry st),
        rl_last := old,
        rl_target := ((write_byte old - 100) * 2) mod 256\<rparr>"

fun rlock_loop :: "lock_cfg \<Rightarrow> nat \<Rightarrow> rlock_state \<Rightarrow> lock_round list \<Rightarrow> lock_act list \<times> lock_result" where
  "rlock_loop c r_times st [] =
     ([], if rlock_gives_up r_times (rl_retry st) then GaveUp else Running)"
| "rlock_loop c r_times st (x # xs) =
     (if rlock_gives_up r_times (rl_retry st) then ([], GaveUp)
      else let (as, st1, fwd) = rlock_invalidate c x st
           in if fwd then (as, Forwarded)
              else let add = shared_bit (lc_node c)
                   in if 100 \<le> write_byte (lr_old x)
                      then let (bs, res) = rlock_loop c r_times (rlock_conflict (lr_old x) st1) xs
                           in (as @ [Faa add, ReadPage, Faa (substract add)] @ bs, res)
                      else (as @ [Faa add, ReadPage], Acquired))"

definition global_Rlock_and_read_page_with_INVALID ::
    "lock_cfg \<Rightarrow> nat \<Rightarrow> lock_round list \<Rightarrow> lock_act list \<times> lock_result" where
  "global_Rlock_and_read_page_with_INVALID c r_times xs = rlock_loop c r_times rlock_init xs"

definition lock_returns :: "lock_result \<Rightarrow> bool option" where
  "lock_returns r = (case r of Acquired \<Rightarrow> Some True | Forwarded \<Rightarrow> Some True
     | GaveUp \<Rightarrow> Some False | Running \<Rightarrow> None)"


section \<open>Exclusive acquisition\<close>

text \<open>
  The decoder of a latch word that made a compare-and-swap fail.  The scan over
  the reader bits gives up (\<open>None\<close>) at a bit that belongs to no compute node.
\<close>
fun scan_readers :: "nat \<Rightarrow> u64 \<Rightarrow> nat list \<Rightarrow> nat list option" where
  "scan_readers n w [] = Some []"
| "scan_readers n w (i # is) =
     (if bit w i
      then if n < i then None else map_option (\<lambda>ts. (i - 1) * 2 # ts) (scan_readers n w is)
      else scan_readers n w is)"

datatype wlock_rpc = No_RPC | Shared_RPC "nat list" | Modified_RPC nat

datatype wlock_seen = Retry wlock_rpc | Fall_through

definition wlock_decode :: "lock_cfg \<Rightarrow> u64 \<Rightarrow> wlock_seen" where
  "wlock_decode c old =
     (let b = write_byte old
      in if drop_bit 56 old = drop_bit 56 (excl (lc_node c)) then Retry No_RPC
         else if 100 \<le> b
           then if lc_ncompute c + 100 \<le> b then Retry No_RPC else Retry (Modified_RPC ((b - 100) * 2))
         else (case scan_readers (lc_ncompute c) old [1..<56] of
             None \<Rightarrow> Retry No_RPC
           | Some [] \<Rightarrow> Fall_through
           | Some ts \<Rightarrow> Retry (Shared_RPC ts)))"

record wlock_state =
  wl_retry :: nat
  wl_level :: nat
  wl_rpc :: wlock_rpc

definition wlock_init :: wlock_state where
  "wlock_init = \<lparr>wl_retry = 0, wl_level = 0, wl_rpc = No_RPC\<rparr>"

fun shared_rpcs :: "lock_cfg \<Rightarrow> nat \<times> u32 \<Rightarrow> nat \<Rightarrow> nat \<Rightarrow> nat list \<Rightarrow> lock_act list" where
  "shared_rpcs c recv level i [] = []"
| "shared_rpcs c recv level i (t # ts) =
     (if t \<noteq> lc_node c
      then Writer_Invalidate_Shared_RPC c recv t level i # shared_rpcs c recv level (i + 1) ts
      else shared_rpcs c recv level i ts)"

definition wlock_invalidate :: "lock_cfg \<Rightarrow> nat \<times> u32 \<Rightarrow> lock_round \<Rightarrow> wlock_state
    \<Rightarrow> lock_act list \<times> wlock_state \<times> bool" where
  "wlock_invalidate c recv x st =
     (let st1 = st\<lparr>wl_retry := wl_retry st + 1\<rparr>
      in if wl_retry st mod INVALIDATION_INTERVAL = 1
         then let st2 = st1\<lparr>wl_level := starvation_ladder (wl_retry st1) (wl_level st1)\<rparr>
              in (case wl_rpc st2 of
                   No_RPC \<Rightarrow> ([], st2, False)
                 | Shared_RPC ts \<Rightarrow> (shared_rpcs c recv (wl_level st2) 0 ts, st2, False)
                 | Modified_RPC t \<Rightarrow>
                     if t \<noteq> lc_node c
                     then let (as, l, r) = Writer_Invalidate_Modified_RPC c t (lr_reminders x)
                                (wl_level st2) (wl_retry st2)
                          in (as, st2\<lparr>wl_level := l, wl_retry := r\<rparr>, lr_reply x = processed)
                     else ([], st2, False))
         else ([], st1, False))"

text \<open>
  The third component is the starvation level reported through the out
  parameter \<^verbatim>\<open>starv_level\<close>; it stays \<open>0\<close> unless the acquisition had to
  invalidate readers.  When the word decodes to no holder the code runs into a
  debug assertion and, in a release build, on to the successful return.
\<close>
definition wlock_starv :: "wlock_state \<Rightarrow> nat" where
  "wlock_starv st = (case wl_rpc st of Shared_RPC ts \<Rightarrow> wl_level st | _ \<Rightarrow> 0)"

fun wlock_loop :: "lock_cfg \<Rightarrow> nat \<times> u32 \<Rightarrow> nat \<Rightarrow> wlock_state \<Rightarrow> lock_round list
    \<Rightarrow> lock_act list \<times> lock_result \<times> nat" where
  "wlock_loop c recv r_times st [] =
     ([], if rlock_gives_up r_times (wl_retry st) then GaveUp else Running, 0)"
| "wlock_loop c recv r_times st (x # xs) =
     (if rlock_gives_up r_times (wl_retry st) then ([], GaveUp, 0)
      else let (as, st1, fwd) = wlock_invalidate c recv x st
           in if fwd then (as, Forwarded, 0)
              else let acts = as @ [Cas 0 (excl (lc_node c)), ReadPage]
                   in if lr_old x = 0 then (acts, Acquired, wlock_starv st1)
                      else (case wlock_decode c (lr_old x) of
                          Fall_through \<Rightarrow> (acts, Acquired, 0)
                        | Retry rpc \<Rightarrow>
                            let (bs, res, sv) = wlock_loop c recv r_times (st1\<lparr>wl_rpc := rpc\<rparr>) xs
                            in (acts @ bs, res, sv)))"

definition global_Wlock_and_read_page_with_INVALID :: "lock_cfg \<Rightarrow> nat \<times> u32 \<Rightarrow> nat \<Rightarrow> lock_round list
    \<Rightarrow> lock_act list \<times> lock_result \<times> nat" where
  "global_Wlock_and_read_page_with_INVALID c recv r_times xs = wlock_loop c recv r_times wlock_init xs"

text \<open>
  The one-shot upgrade of a shared latch, with the result of its
  compare-and-swap as argument: a conflict releases the shared latch.
\<close>
definition global_RUnlock :: "nat \<Rightarrow> bool \<Rightarrow> nat \<Rightarrow> lock_act list \<times> nat \<times> bool" where
  "global_RUnlock node async counter =
     (let act = Faa (substract (shared_bit node))
      in if async
         then if counter < ATOMIC_OUTSTANDING_SIZE - 3 then ([act], counter + 1, True)
              else ([act], 0, False)
         else ([act], counter, False))"

definition global_Rlock_update :: "nat \<Rightarrow> u64 \<Rightarrow> lock_act list \<times> bool" where
  "global_Rlock_update node old =
     (let compare = shared_bit node; cas = Cas compare (excl node)
      in if old \<noteq> compare then (cas # fst (global_RUnlock node False 0), False)
         else ([cas], True))"

fun global_unlock_addr :: "nat \<Rightarrow> bool \<Rightarrow> u64 list \<Rightarrow> lock_act list \<times> bool" where
  "global_unlock_addr node async [] = ([], False)"
| "global_unlock_addr node async (old # olds) =
     (let cas = Cas (excl node) 0
      in if async \<or> old = excl node then ([cas], True)
         else let (as, d) = global_unlock_addr node async olds in (cas # as, d))"


section \<open>Net effect of the acquisition loops\<close>

fun faa_sum :: "lock_act list \<Rightarrow> u64" where
  "faa_sum [] = 0"
| "faa_sum (Faa d # as) = d + faa_sum as"
| "faa_sum (a # as) = faa_sum as"

lemma substract_eq: "substract w = - w"
  by (simp add: substract_def minus_eq_not_plus_1)

lemma faa_sum_append [simp]: "faa_sum (as @ bs) = faa_sum as + faa_sum bs"
  by (induction as rule: faa_sum.induct) (simp_all add: add.assoc)

definition only_sends :: "(inv_message \<Rightarrow> bool) \<Rightarrow> lock_act list \<Rightarrow> bool" where
  "only_sends P as \<longleftrightarrow> (\<forall>a\<in>set as. \<exists>m. a = Send m \<and> P m)"

definition sends_ok :: "(inv_message \<Rightarrow> bool) \<Rightarrow> lock_act list \<Rightarrow> bool" where
  "sends_ok P as \<longleftrightarrow> (\<forall>m. Send m \<in> set as \<longrightarrow> P m)"

lemma only_sends_simps [simp]:
  "only_sends P []"
  "only_sends P (a # as) \<longleftrightarrow> (\<exists>m. a = Send m \<and> P m) \<and> only_sends P as"
  by (auto simp: only_sends_def)

lemma only_sends_faa_sum: "only_sends P as \<Longrightarrow> faa_sum as = 0"
  by (induction as rule: faa_sum.induct) auto

lemma sends_ok_simps [simp]:
  "sends_ok P []"
  "sends_ok P (Send m # as) \<longleftrightarrow> P m \<and> sends_ok P as"
  "sends_ok P (Faa d # as) \<longleftrightarrow> sends_ok P as"
  "sends_ok P (Cas x y # as) \<longleftrightarrow> sends_ok P as"
  "sends_ok P (ReadPage # as) \<longleftrightarrow> sends_ok P as"
  "sends_ok P (as @ bs) \<longleftrightarrow> sends_ok P as \<and> sends_ok P bs"
  by (auto simp: sends_ok_def)

lemma only_sends_ok: "only_sends P as \<Longrightarrow> sends_ok P as"
  by (fastforce simp: only_sends_def sends_ok_def)

lemma starvation_ladder_le: "level \<le> 255 \<Longrightarrow> starvation_ladder r level \<le> 255"
  by (simp add: starvation_ladder_def)

definition inv_ok :: "lock_cfg \<Rightarrow> RDMA_Command_Type \<Rightarrow> nat \<Rightarrow> inv_message \<Rightarrow> bool" where
  "inv_ok c cmd t m \<longleftrightarrow> im_command m = cmd \<and> im_target m = t \<and> im_page m = lc_page c \<and> im_level m \<le> 255"

lemma inv_resend_ok:
  assumes "inv_resend c cmd t k rm level r = (as, l', r')" "level \<le> 255"
  shows "only_sends (inv_ok c cmd t) as" and "l' \<le> 255" and "r < r'"
    and "length as = Suc k"
    and "\<forall>i<length as. \<exists>m. as ! i = Send m \<and> im_reminder m = (rm \<or> 0 < i)"
proof -
  have "only_sends (inv_ok c cmd t) as \<and> l' \<le> 255 \<and> r < r' \<and> length as = Suc k
      \<and> (\<forall>i<length as. \<exists>m. as ! i = Send m \<and> im_reminder m = (rm \<or> 0 < i))"
    using assms
  proof (induction k arbitrary: rm level r as l' r')
    case 0
    then show ?case
      by (auto simp: Let_def inv_ok_def mk_inv_def starvation_ladder_le)
  next
    case (Suc k)
    obtain bs where bs: "inv_resend c cmd t k True (starvation_ladder (r + 1) level) (r + 1) = (bs, l', r')"
      and as: "as = Send (mk_inv c cmd t (starvation_ladder (r + 1) level) rm) # bs"
      using Suc.prems(1) by (auto simp: Let_def split: prod.splits)
    from Suc.IH [OF bs] Suc.prems(2) show ?case
      by (auto simp: as inv_ok_def mk_inv_def starvation_ladder_le nth_Cons split: nat.split)
  qed
  then show "only_sends (inv_ok c cmd t) as" "l' \<le> 255" "r < r'" "length as = Suc k"
    "\<forall>i<length as. \<exists>m. as ! i = Send m \<and> im_reminder m = (rm \<or> 0 < i)"
    by blast+
qed

definition reader_inv_ok :: "lock_cfg \<Rightarrow> inv_message \<Rightarrow> bool" where
  "reader_inv_ok c m \<longleftrightarrow> inv_ok c reader_invalidate_modified (im_target m) m
     \<and> im_target m \<noteq> lc_node c \<and> im_target m < lc_ncompute c * 2"

lemma only_sends_mono: "only_sends P as \<Longrightarrow> (\<And>m. P m \<Longrightarrow> Q m) \<Longrightarrow> only_sends Q as"
  by (fastforce simp: only_sends_def)

lemma rlock_invalidate_ok:
  assumes "rlock_invalidate c x st = (as, st1, fwd)" "rl_level st \<le> 255"
  shows "only_sends (reader_inv_ok c) as" and "rl_level st1 \<le> 255" and "rl_retry st < rl_retry st1"
    and "fwd \<longrightarrow> lr_reply x = processed" and "rl_last st1 = rl_last st"
proof -
  let ?l = "starvation_ladder (rl_retry st + 1) (rl_level st)"
  have "only_sends (reader_inv_ok c) as \<and> rl_level st1 \<le> 255 \<and> rl_retry st < rl_retry st1
      \<and> (fwd \<longrightarrow> lr_reply x = processed) \<and> rl_last st1 = rl_last st"
  proof (cases "rl_retry st mod INVALIDATION_INTERVAL = 1 \<and> rl_target st \<noteq> lc_node c \<and> rl_target st < lc_ncompute c * 2")
    case True
    obtain bs l r where rpc: "Reader_Invalidate_Modified_RPC c (rl_target st) (lr_reminders x) ?l (rl_retry st + 1) = (bs, l, r)"
      using prod_cases3 by blast
    note ok = inv_resend_ok [OF rpc [unfolded Reader_Invalidate_Modified_RPC_def] starvation_ladder_le [OF assms(2)]]
    have "only_sends (reader_inv_ok c) bs"
      using ok(1) by (rule only_sends_mono) (use True in \<open>auto simp: reader_inv_ok_def inv_ok_def\<close>)
    with ok(2,3) True assms(1) rpc show ?thesis
      by (auto simp: rlock_invalidate_def Let_def)
  next
    case False
    then show ?thesis
      using assms starvation_ladder_le [OF assms(2)]
      by (auto simp: rlock_invalidate_def Let_def split: if_splits)
  qed
  then show "only_sends (reader_inv_ok c) as" "rl_level st1 \<le> 255" "rl_retry st < rl_retry st1"
    "fwd \<longrightarrow> lr_reply x = processed" "rl_last st1 = rl_last st"
    by blast+
qed


lemma rlock_loop_ok:
  assumes "rlock_loop c r_times st xs = (as, res)" "rl_level st \<le> 255"
  shows "faa_sum as = (if res = Acquired then shared_bit (lc_node c) else 0)
    \<and> sends_ok (reader_inv_ok c) as
    \<and> (res = Acquired \<longrightarrow> (\<exists>x\<in>set xs. write_byte (lr_old x) < 100))
    \<and> (res = Forwarded \<longrightarrow> (\<exists>x\<in>set xs. lr_reply x = processed))"
  using assms
proof (induction xs arbitrary: st as res)
  case Nil
  then show ?case by (auto split: if_splits)
next
  case (Cons x xs)
  obtain bs st1 fwd where inv: "rlock_invalidate c x st = (bs, st1, fwd)"
    using prod_cases3 by blast
  note ok = rlock_invalidate_ok [OF inv Cons.prems(2)]
  note bs = only_sends_faa_sum [OF ok(1)] only_sends_ok [OF ok(1)]
  show ?case
  proof (cases "rlock_gives_up r_times (rl_retry st) \<or> fwd \<or> write_byte (lr_old x) < 100")
    case True
    then show ?thesis
      using Cons.prems bs ok(4) by (auto simp: inv Let_def split: if_splits prod.splits)
  next
    case False
    obtain cs where rest: "rlock_loop c r_times (rlock_conflict (lr_old x) st1) xs = (cs, res)"
      and as: "as = bs @ [Faa (shared_bit (lc_node c)), ReadPage, Faa (substract (shared_bit (lc_node c)))] @ cs"
      using Cons.prems False by (auto simp: inv Let_def split: prod.splits)
    have "rl_level (rlock_conflict (lr_old x) st1) \<le> 255"
      using ok(2) by (simp add: rlock_conflict_def)
    from Cons.IH [OF rest this] bs show ?thesis
      by (auto simp: as substract_eq)
  qed
qed

lemma rlock_loop_returns:
  assumes "0 < r_times" "rl_level st \<le> 255" "r_times < rl_retry st + length xs"
    "\<forall>x\<in>set xs. drop_bit 56 (lr_old x) = drop_bit 56 (rl_last st)"
  shows "snd (rlock_loop c r_times st xs) \<noteq> Running"
  using assms(2-)
proof (induction xs arbitrary: st)
  case Nil
  with assms(1) show ?case by (simp add: rlock_gives_up_def)
next
  case (Cons x xs)
  obtain bs st1 fwd where inv: "rlock_invalidate c x st = (bs, st1, fwd)"
    using prod_cases3 by blast
  note ok = rlock_invalidate_ok [OF inv Cons.prems(1)]
  let ?st = "rlock_conflict (lr_old x) st1"
  have "rl_retry ?st = rl_retry st1" "rl_level ?st \<le> 255" "rl_last ?st = lr_old x"
    using ok(2,5) Cons.prems by (simp_all add: rlock_conflict_def)
  then have "snd (rlock_loop c r_times ?st xs) \<noteq> Running"
    using ok(3) Cons.prems by (intro Cons.IH) auto
  then show ?case
    by (auto simp: inv Let_def split: prod.splits)
qed

lemma rlock_loop_sees_free:
  assumes "\<exists>x\<in>set xs. write_byte (lr_old x) < 100"
  shows "snd (rlock_loop c r_times st xs) \<noteq> Running"
  using assms
proof (induction xs arbitrary: st)
  case (Cons x xs)
  then show ?case
    by (cases "write_byte (lr_old x) < 100") (auto simp: Let_def case_prod_unfold)
qed simp

text \<open>
  Acquiring a shared latch leaves the latch word with exactly one reader
  bit of this node when the loop acquired it, and unchanged when it gave up or
  is still retrying (every failed attempt takes its bit back).  When the page
  was forwarded the net change is also zero: the old holder adds the bit on the
  requester's behalf.  It only acquires after seeing a word without a writer, only reports a
  forwarded page after the reply \<open>processed\<close>, and invalidation messages go to
  other, existing compute nodes with a level that fits in a byte.
\<close>
theorem rlock_net_effect:
  assumes "global_Rlock_and_read_page_with_INVALID c r_times xs = (as, res)"
  shows "faa_sum as = (if res = Acquired then shared_bit (lc_node c) else 0)
    \<and> sends_ok (reader_inv_ok c) as
    \<and> (res = Acquired \<longrightarrow> (\<exists>x\<in>set xs. write_byte (lr_old x) < 100))
    \<and> (res = Forwarded \<longrightarrow> (\<exists>x\<in>set xs. lr_reply x = processed))"
  using rlock_loop_ok [OF assms [unfolded global_Rlock_and_read_page_with_INVALID_def]]
  by (simp add: rlock_init_def)

lemma case_Send: "(case a of Send m \<Rightarrow> P m | _ \<Rightarrow> False) \<longleftrightarrow> (\<exists>m. a = Send m \<and> P m)"
  by (cases a) auto

definition demo_cfg :: lock_cfg where
  "demo_cfg = \<lparr>lc_node = 2, lc_ncompute = 4, lc_page = GlobalAddress_Null, lc_buffer = 0, lc_rkey = 0\<rparr>"

definition demo_busy :: lock_round where
  "demo_busy = \<lparr>lr_reminders = 1, lr_reply = dropped, lr_old = excl 4\<rparr>"

definition demo_free :: lock_round where
  "demo_free = \<lparr>lr_reminders = 0, lr_reply = dropped, lr_old = 0\<rparr>"

theorem rlock_net_effect_witness:
  "\<exists>as. global_Rlock_and_read_page_with_INVALID demo_cfg 0 [demo_busy, demo_busy, demo_busy, demo_free] = (as, Acquired)
     \<and> faa_sum as = shared_bit 2 \<and> (\<exists>m. Send m \<in> set as \<and> im_target m = 4) \<and> sends_ok (reader_inv_ok demo_cfg) as"
proof -
  let ?xs = "[demo_busy, demo_busy, demo_busy, demo_free]"
  obtain as res where run: "global_Rlock_and_read_page_with_INVALID demo_cfg 0 ?xs = (as, res)"
    by (cases "global_Rlock_and_read_page_with_INVALID demo_cfg 0 ?xs") auto
  have "snd (global_Rlock_and_read_page_with_INVALID demo_cfg 0 ?xs) = Acquired"
    and "list_ex (\<lambda>a. case a of Send m \<Rightarrow> im_target m = 4 | _ \<Rightarrow> False)
      (fst (global_Rlock_and_read_page_with_INVALID demo_cfg 0 ?xs))"
    by code_simp+
  then have "res = Acquired \<and> (\<exists>m. Send m \<in> set as \<and> im_target m = 4)"
    using run by (auto simp: list_ex_iff case_Send)
  then show ?thesis
    using rlock_net_effect [OF run] run by (auto simp: demo_cfg_def)
qed


text \<open>
  A bounded shared acquisition returns: once every attempt sees the same
  writer, \<open>r_times + 2\<close> rounds are enough for a result, whatever the
  holder answers; and even an unbounded one returns as soon as one attempt sees
  a word without a writer.
\<close>
theorem rlock_returns:
  assumes "(0 < r_times \<and> r_times + 2 \<le> length xs \<and> (\<forall>x\<in>set xs. drop_bit 56 (lr_old x) = b))
    \<or> (\<exists>x\<in>set xs. write_byte (lr_old x) < 100)"
  shows "\<exists>as res. global_Rlock_and_read_page_with_INVALID c r_times xs = (as, res) \<and> lock_returns res \<noteq> None"
proof -
  have "snd (rlock_loop c r_times rlock_init xs) \<noteq> Running"
    using assms
  proof (elim disjE conjE)
    assume 1: "0 < r_times" "r_times + 2 \<le> length xs" "\<forall>x\<in>set xs. drop_bit 56 (lr_old x) = b"
    then obtain x ys where xs: "xs = x # ys" by (cases xs) auto
    obtain bs st1 fwd where inv: "rlock_invalidate c x rlock_init = (bs, st1, fwd)"
      using prod_cases3 by blast
    note ok = rlock_invalidate_ok [OF inv]
    let ?st = "rlock_conflict (lr_old x) st1"
    have "snd (rlock_loop c r_times ?st ys) \<noteq> Running"
      using ok(2) 1 by (intro rlock_loop_returns) (auto simp: rlock_conflict_def rlock_init_def xs)
    then show ?thesis
      by (auto simp: xs inv Let_def case_prod_unfold)
  qed (rule rlock_loop_sees_free)
  then show ?thesis
    by (cases "rlock_loop c r_times rlock_init xs")
      (auto simp: global_Rlock_and_read_page_with_INVALID_def lock_returns_def split: lock_result.splits)
qed

theorem rlock_returns_witness:
  "\<exists>as res. global_Rlock_and_read_page_with_INVALID demo_cfg 2 (replicate 4 demo_busy) = (as, res)
     \<and> lock_returns res \<noteq> None"
  by (rule rlock_returns [where b = "drop_bit 56 (excl 4)"]) (simp add: demo_busy_def)


section \<open>What an exclusive acquisition sees\<close>

lemma scan_readers_Some:
  "scan_readers n w is = Some ts \<longleftrightarrow>
     (\<forall>i\<in>set is. bit w i \<longrightarrow> i \<le> n) \<and> ts = map (\<lambda>i. (i - 1) * 2) (filter (bit w) is)"
  by (induction "is" arbitrary: ts) auto

text \<open>
  A word that is not zero but names no holder at all: the top byte is below
  100 and no reader bit is set.
\<close>
definition holderless :: "u64 \<Rightarrow> bool" where
  "holderless w \<longleftrightarrow> w \<noteq> 0 \<and> write_byte w < 100 \<and> (\<forall>i\<in>{1..<56}. \<not> bit w i)"

lemma write_byte_push:
  assumes "x < 256"
  shows "write_byte (push_bit 56 (of_nat x)) = x"
proof -
  have "unat (of_nat x :: u64) = x"
    using assms by (intro unat_of_nat_small) simp
  moreover have "take_bit 8 (of_nat x :: u64) = of_nat x"
    using assms by (simp add: take_bit_of_nat take_bit_nat_eq_self)
  moreover have "drop_bit 56 (push_bit 56 w) = take_bit 8 w" for w :: u64
    by (rule bit_eqI) (auto simp: bit_simps dest: bit_imp_le_length)
  ultimately show ?thesis
    by (simp add: write_byte_def)
qed

lemma write_byte_excl: "n < 112 \<Longrightarrow> write_byte (excl n) = n div 2 + 100"
  unfolding excl_def by (rule write_byte_push) simp

lemma wlock_decode_Fall_through:
  assumes "lc_node c < 112" "w \<noteq> 0"
  shows "wlock_decode c w = Fall_through \<longleftrightarrow> holderless w"
proof -
  have own: "drop_bit 56 w = drop_bit 56 (excl (lc_node c)) \<Longrightarrow> 100 \<le> write_byte w"
    using write_byte_excl [OF assms(1)] by (simp add: write_byte_def)
  have empty: "scan_readers n w [1..<56] = Some [] \<longleftrightarrow> (\<forall>i\<in>{1..<56}. \<not> bit w i)" for n
    by (auto simp: scan_readers_Some filter_empty_conv)
  show ?thesis
    using assms(2) own empty [of "lc_ncompute c"]
    by (cases "scan_readers (lc_ncompute c) w [1..<56]")
      (auto simp: wlock_decode_def Let_def holderless_def split: list.splits)
qed


definition names_holder :: "lock_cfg \<Rightarrow> u64 \<Rightarrow> inv_message \<Rightarrow> bool" where
  "names_holder c w m \<longleftrightarrow> im_target m \<noteq> lc_node c \<and>
     (im_command m = writer_invalidate_modified \<and> write_byte w = im_target m div 2 + 100
      \<or> im_command m = writer_invalidate_shared \<and> write_byte w < 100 \<and> bit w (im_target m div 2 + 1))"

definition rpc_from :: "u64 \<Rightarrow> wlock_rpc \<Rightarrow> bool" where
  "rpc_from w rpc = (case rpc of No_RPC \<Rightarrow> True
     | Shared_RPC ts \<Rightarrow> write_byte w < 100 \<and> (\<forall>t\<in>set ts. bit w (t div 2 + 1))
     | Modified_RPC t \<Rightarrow> write_byte w = t div 2 + 100)"

lemma wlock_decode_rpc_from:
  assumes "wlock_decode c w = Retry rpc"
  shows "rpc_from w rpc"
proof (cases "scan_readers (lc_ncompute c) w [1..<56]")
  case None
  with assms show ?thesis
    by (auto simp: wlock_decode_def rpc_from_def Let_def split: if_splits)
next
  case (Some ts)
  then have "\<forall>t\<in>set ts. bit w (t div 2 + 1)"
    by (auto simp: scan_readers_Some)
  with assms Some show ?thesis
    by (auto simp: wlock_decode_def rpc_from_def Let_def split: if_splits list.splits)
qed

lemma shared_rpcs_ok:
  assumes "rpc_from w (Shared_RPC ts)"
  shows "only_sends (names_holder c w) (shared_rpcs c recv level i ts)"
  using assms
  by (induction ts arbitrary: i)
    (auto simp: rpc_from_def names_holder_def Writer_Invalidate_Shared_RPC_def mk_inv_def)

lemma wlock_invalidate_ok:
  assumes "wlock_invalidate c recv x st = (as, st1, fwd)" "rpc_from w (wl_rpc st)" "wl_level st \<le> 255"
  shows "only_sends (names_holder c w) as \<and> wl_level st1 \<le> 255 \<and> wl_retry st < wl_retry st1
    \<and> (fwd \<longrightarrow> lr_reply x = processed) \<and> wl_rpc st1 = wl_rpc st"
proof (cases "wl_retry st mod INVALIDATION_INTERVAL = 1 \<and> (\<exists>t. wl_rpc st = Modified_RPC t \<and> t \<noteq> lc_node c)")
  case True
  then obtain t where t: "wl_rpc st = Modified_RPC t" "t \<noteq> lc_node c" by blast
  let ?l = "starvation_ladder (wl_retry st + 1) (wl_level st)"
  obtain bs l r where rpc: "Writer_Invalidate_Modified_RPC c t (lr_reminders x) ?l (wl_retry st + 1) = (bs, l, r)"
    using prod_cases3 by blast
  note ok = inv_resend_ok [OF rpc [unfolded Writer_Invalidate_Modified_RPC_def] starvation_ladder_le [OF assms(3)]]
  have "only_sends (names_holder c w) bs"
    using ok(1) by (rule only_sends_mono) (use t assms(2) in \<open>auto simp: rpc_from_def names_holder_def inv_ok_def\<close>)
  with ok(2,3) True t assms(1) rpc show ?thesis
    by (auto simp: wlock_invalidate_def Let_def)
next
  case False
  then show ?thesis
    using assms shared_rpcs_ok [of w _ c recv] starvation_ladder_le [OF assms(3)]
    by (auto simp: wlock_invalidate_def Let_def split: if_splits wlock_rpc.splits)
qed


text \<open>
  A round that satisfies \<open>P\<close>, with no successful compare-and-swap before it.
\<close>
fun first_hit :: "(lock_round \<Rightarrow> bool) \<Rightarrow> lock_round list \<Rightarrow> bool" where
  "first_hit P [] \<longleftrightarrow> False"
| "first_hit P (x # xs) \<longleftrightarrow> P x \<or> lr_old x \<noteq> 0 \<and> first_hit P xs"

definition wlock_spec :: "lock_cfg \<Rightarrow> u64 set \<Rightarrow> lock_round list \<Rightarrow> lock_act list \<times> lock_result \<times> nat \<Rightarrow> bool" where
  "wlock_spec c W xs = (\<lambda>(as, res, sv).
     sends_ok (\<lambda>m. \<exists>w\<in>W. names_holder c w m) as
     \<and> (\<forall>d. Faa d \<notin> set as) \<and> (\<forall>x y. Cas x y \<in> set as \<longrightarrow> x = 0 \<and> y = excl (lc_node c))
     \<and> (res = Acquired \<longrightarrow> first_hit (\<lambda>x. lr_old x = 0 \<or> holderless (lr_old x)) xs)
     \<and> (res = Forwarded \<longrightarrow> first_hit (\<lambda>x. lr_reply x = processed) xs)
     \<and> sv \<le> 255)"

lemma wlock_loop_ok:
  assumes "rpc_from w (wl_rpc st)" "wl_level st \<le> 255" "lc_node c < 112" "w \<in> W" "lr_old ` set xs \<subseteq> W"
  shows "wlock_spec c W xs (wlock_loop c recv r_times st xs)"
  using assms
proof (induction xs arbitrary: st w)
  case Nil
  then show ?case by (auto simp: wlock_spec_def)
next
  case (Cons x xs)
  obtain bs st1 fwd where inv: "wlock_invalidate c recv x st = (bs, st1, fwd)"
    using prod_cases3 by blast
  note ok = wlock_invalidate_ok [OF inv Cons.prems(1,2)]
  have bs: "sends_ok (\<lambda>m. \<exists>w\<in>W. names_holder c w m) bs" "\<forall>d. Faa d \<notin> set bs" "\<forall>u v. Cas u v \<notin> set bs"
    using ok Cons.prems(4) by (fastforce simp: sends_ok_def only_sends_def)+
  consider "rlock_gives_up r_times (wl_retry st) \<or> fwd \<or> lr_old x = 0"
    | "\<not> rlock_gives_up r_times (wl_retry st)" "\<not> fwd" "lr_old x \<noteq> 0" "wlock_decode c (lr_old x) = Fall_through"
    | rpc where "\<not> rlock_gives_up r_times (wl_retry st)" "\<not> fwd" "lr_old x \<noteq> 0" "wlock_decode c (lr_old x) = Retry rpc"
    by (cases "wlock_decode c (lr_old x)") auto
  then show ?case
  proof cases
    case 1
    then show ?thesis
      using bs ok by (auto simp: inv Let_def wlock_starv_def wlock_spec_def split: wlock_rpc.splits)
  next
    case 2
    then show ?thesis
      using bs wlock_decode_Fall_through [OF Cons.prems(3), of "lr_old x"]
      by (auto simp: inv Let_def wlock_spec_def)
  next
    case 3
    have "rpc_from (lr_old x) rpc" "wl_level (st1\<lparr>wl_rpc := rpc\<rparr>) \<le> 255" "lr_old x \<in> W" "lr_old ` set xs \<subseteq> W"
      using wlock_decode_rpc_from [OF 3(4)] ok Cons.prems by auto
    then have "wlock_spec c W xs (wlock_loop c recv r_times (st1\<lparr>wl_rpc := rpc\<rparr>) xs)"
      using Cons.prems by (intro Cons.IH [of "lr_old x"]) auto
    with 3 bs show ?thesis
      by (auto simp: inv Let_def wlock_spec_def split: prod.splits)
  qed
qed

text \<open>
  C24: an exclusive acquisition issues only compare-and-swaps from the free word to this node's
  exclusive word; it reports success only after the first of them that found the word
  free, or after a page was forwarded, or, because a failed debug assertion is
  skipped, after it met a word that names no holder.  Every invalidation message
  goes to another node that one of the observed words names as a holder.
\<close>
theorem wlock_outcome:
  assumes "lc_node c < 112"
    and "global_Wlock_and_read_page_with_INVALID c recv r_times xs = (as, res, sv)"
  shows "(\<forall>m. Send m \<in> set as \<longrightarrow> (\<exists>x\<in>set xs. names_holder c (lr_old x) m))
    \<and> (\<forall>d. Faa d \<notin> set as) \<and> (\<forall>x y. Cas x y \<in> set as \<longrightarrow> x = 0 \<and> y = excl (lc_node c))
    \<and> (res = Acquired \<longrightarrow> first_hit (\<lambda>x. lr_old x = 0 \<or> holderless (lr_old x)) xs)
    \<and> (res = Forwarded \<longrightarrow> first_hit (\<lambda>x. lr_reply x = processed) xs)
    \<and> sv \<le> 255"
proof (cases xs)
  case Nil
  then show ?thesis
    using assms(2) by (auto simp: global_Wlock_and_read_page_with_INVALID_def split: if_splits)
next
  case (Cons y ys)
  have "wlock_spec c (lr_old ` set xs) xs (wlock_loop c recv r_times wlock_init xs)"
    using assms(1) by (intro wlock_loop_ok [of "lr_old y"]) (auto simp: wlock_init_def rpc_from_def Cons)
  with assms(2) show ?thesis
    by (auto simp: global_Wlock_and_read_page_with_INVALID_def wlock_spec_def sends_ok_def)
qed

definition demo_readers :: lock_round where
  "demo_readers = \<lparr>lr_reminders = 0, lr_reply = dropped, lr_old = shared_bit 0 + shared_bit 6\<rparr>"

theorem wlock_outcome_witness:
  "\<exists>as. global_Wlock_and_read_page_with_INVALID demo_cfg (0, 0) 0 [demo_readers, demo_readers, demo_free]
        = (as, Acquired, 0)
     \<and> length (filter (\<lambda>a. case a of Send m \<Rightarrow> True | _ \<Rightarrow> False) as) = 2
     \<and> (\<forall>m. Send m \<in> set as \<longrightarrow> (\<exists>x\<in>{demo_readers, demo_free}. names_holder demo_cfg (lr_old x) m))"
proof -
  let ?run = "global_Wlock_and_read_page_with_INVALID demo_cfg (0, 0) 0 [demo_readers, demo_readers, demo_free]"
  have "fst (snd ?run) = Acquired" "snd (snd ?run) = 0"
    "length (filter (\<lambda>a. case a of Send m \<Rightarrow> True | _ \<Rightarrow> False) (fst ?run)) = 2"
    by code_simp+
  moreover obtain as res sv where run: "?run = (as, res, sv)"
    using prod_cases3 by blast
  ultimately show ?thesis
    using wlock_outcome [OF _ run] by (auto simp: demo_cfg_def)
qed

end
