(* ===== verification/Write_Back.thy ===== *)
theory Write_Back
  imports Latch
begin

text \<open>
  Releasing and passing on the exclusive latch (\<^verbatim>\<open>storage/rdma.cc\<close>): the page
  write-backs \<^verbatim>\<open>global_write_page_and_Wunlock_Async\<close>,
  \<^verbatim>\<open>global_write_page_and_WHandover_Async\<close>,
  \<^verbatim>\<open>global_write_page_and_WdowntoR_Async\<close> and \<^verbatim>\<open>global_blind_write\<close>, and the
  latch-only \<^verbatim>\<open>global_WHandover\<close>.

  An operation is the list of work requests it posts, in posting order, with
  the completions it polls; one thread's requests to one memory node are executed in
  that order.  A release by an asynchronous request stages its data in a private
  buffer, so a write carries the bytes at the time of posting.
\<close>


section \<open>Work requests\<close>

datatype post =
    PWrite u16 GlobalAddress "byte list" bool
  | PFaa u16 GlobalAddress u64 bool
  | PPoll u16

datatype replica_mode = Write_Primary_Only | Write_All

text \<open>Page buffer of a compute node: its image and the dirty bounds of its header.\<close>
record page_buf =
  pb_mem :: mem
  pb_lower :: u16
  pb_upper :: u16

definition HDR_OFF :: nat where
  "HDR_OFF = 8"

definition flush_range :: "page_buf \<Rightarrow> nat \<Rightarrow> nat \<times> nat" where
  "flush_range pb page_size =
     (if pb_upper pb = 0 then (HDR_OFF, page_size - HDR_OFF)
      else (unat (pb_lower pb), unat (pb_upper pb) - unat (pb_lower pb)))"

definition flushed_bounds :: "page_buf \<Rightarrow> page_buf" where
  "flushed_bounds pb = (if pb_upper pb = 0 then pb else pb\<lparr>pb_lower := 0, pb_upper := 0\<rparr>)"

definition Prepare_WR_Write_Replication :: "GlobalAddress \<Rightarrow> byte list \<Rightarrow> bool \<Rightarrow> u16 \<Rightarrow> post" where
  "Prepare_WR_Write_Replication g bs signaled pid = PWrite pid g bs signaled"

definition Prepare_WR_Write :: "logical_groups \<Rightarrow> GlobalAddress \<Rightarrow> byte list \<Rightarrow> bool \<Rightarrow> post" where
  "Prepare_WR_Write gs g bs signaled = PWrite (GetPrimaryPhysicalId gs (nodeID g)) g bs signaled"

definition Prepare_WR_FAA :: "logical_groups \<Rightarrow> GlobalAddress \<Rightarrow> u64 \<Rightarrow> bool \<Rightarrow> post" where
  "Prepare_WR_FAA gs g d signaled = PFaa (GetPrimaryPhysicalId gs (nodeID g)) g d signaled"

definition Batch_Submit_WRs :: "post list \<Rightarrow> nat \<Rightarrow> u16 \<Rightarrow> post list" where
  "Batch_Submit_WRs sr poll_num pid = sr @ replicate poll_num (PPoll pid)"

text \<open>
  The part the three write-back functions share: the posts for the page and the
  atomic \<open>d\<close> on the latch word.  \<open>limit\<close> bounds the outstanding asynchronous
  requests and \<open>early\<close> is the number of completions polled right after each
  backup write, before the common polling loop.
\<close>
definition release_page :: "replica_mode \<Rightarrow> logical_groups \<Rightarrow> nat \<Rightarrow> nat \<Rightarrow> nat \<Rightarrow> GlobalAddress \<Rightarrow> byte list
    \<Rightarrow> GlobalAddress \<Rightarrow> u64 \<Rightarrow> post list \<times> nat \<times> bool" where
  "release_page mode gs limit early counter g bs lock_addr d =
     (case mode of
        Write_Primary_Only \<Rightarrow>
          let pid = GetPrimaryPhysicalId gs (nodeID g);
              use_async = counter < limit;
              sr = [Prepare_WR_Write gs g bs False, Prepare_WR_FAA gs lock_addr d (\<not> use_async)]
          in (Batch_Submit_WRs sr (if use_async then 0 else 1) pid,
              if use_async then counter + 2 else 0, use_async)
      | Write_All \<Rightarrow>
          let replicas = map phys_id (GetReplicaSet gs (nodeID g));
              backups = tl replicas;
              step1 = concat (map (\<lambda>pid. Batch_Submit_WRs [Prepare_WR_Write_Replication g bs True pid] early pid) backups);
              step2 = map PPoll backups;
              step3 = Batch_Submit_WRs
                [Prepare_WR_Write_Replication g bs False (hd replicas), Prepare_WR_FAA gs lock_addr d True] 1 (hd replicas)
          in (step1 @ step2 @ step3, counter, False))"

definition flush_addr :: "GlobalAddress \<Rightarrow> nat \<Rightarrow> GlobalAddress" where
  "flush_addr page_addr off = GlobalAddress (nodeID page_addr) (goffset page_addr + of_nat off)"

definition global_write_page_and_Wunlock_Async :: "nat \<Rightarrow> replica_mode \<Rightarrow> logical_groups \<Rightarrow> nat \<Rightarrow> page_buf
    \<Rightarrow> GlobalAddress \<Rightarrow> nat \<Rightarrow> GlobalAddress \<Rightarrow> post list \<times> nat \<times> bool" where
  "global_write_page_and_Wunlock_Async node mode gs counter pb page_addr page_size lock_addr =
     (let (off, len) = flush_range pb page_size
      in release_page mode gs (ATOMIC_OUTSTANDING_SIZE - 3) 1 counter (flush_addr page_addr off)
           (load_bytes off len (pb_mem pb)) lock_addr (substract (excl node)))"

definition global_write_page_and_WdowntoR_Async :: "nat \<Rightarrow> nat \<Rightarrow> replica_mode \<Rightarrow> logical_groups \<Rightarrow> nat \<Rightarrow> page_buf
    \<Rightarrow> GlobalAddress \<Rightarrow> nat \<Rightarrow> GlobalAddress \<Rightarrow> post list \<times> nat \<times> bool" where
  "global_write_page_and_WdowntoR_Async node next_holder_id mode gs counter pb page_addr page_size lock_addr =
     (let (off, len) = flush_range pb page_size;
          add = shared_bit node + shared_bit next_holder_id
      in release_page mode gs (ATOMIC_OUTSTANDING_SIZE - 2) 0 counter (flush_addr page_addr off)
           (load_bytes off len (pb_mem pb)) lock_addr (substract (excl node) + add))"

text \<open>\<^verbatim>\<open>None\<close> is the exception for an out-of-range target.\<close>
definition global_write_page_and_WHandover_Async :: "nat \<Rightarrow> nat \<Rightarrow> replica_mode \<Rightarrow> logical_groups \<Rightarrow> nat \<Rightarrow> page_buf
    \<Rightarrow> GlobalAddress \<Rightarrow> nat \<Rightarrow> GlobalAddress \<Rightarrow> (post list \<times> nat \<times> bool) option" where
  "global_write_page_and_WHandover_Async node next_holder_id mode gs counter pb page_addr page_size lock_addr =
     (if 32 < next_holder_id then None
      else Some (release_page mode gs (ATOMIC_OUTSTANDING_SIZE - 2) 1 counter (flush_addr page_addr HDR_OFF)
             (load_bytes HDR_OFF (page_size - HDR_OFF) (pb_mem pb)) lock_addr
             (substract (excl node) + excl next_holder_id)))"

definition global_WHandover :: "nat \<Rightarrow> nat \<Rightarrow> bool \<Rightarrow> logical_groups \<Rightarrow> nat \<Rightarrow> GlobalAddress \<Rightarrow> GlobalAddress
    \<Rightarrow> post list \<times> nat \<times> bool" where
  "global_WHandover node next_holder_id async gs counter page_addr lock_addr =
     (let pid = GetPrimaryPhysicalId gs (nodeID page_addr);
          d = substract (excl node) + excl next_holder_id
      in if async
         then if counter < ATOMIC_OUTSTANDING_SIZE - 3
              then (Batch_Submit_WRs [Prepare_WR_FAA gs lock_addr d False] 0 pid, counter + 1, True)
              else (Batch_Submit_WRs [Prepare_WR_FAA gs lock_addr d True] 1 pid, 0, False)
         else (Batch_Submit_WRs [Prepare_WR_FAA gs lock_addr d True] 1 pid, counter, False))"

definition global_blind_write :: "replica_mode \<Rightarrow> logical_groups \<Rightarrow> page_buf \<Rightarrow> GlobalAddress \<Rightarrow> nat \<Rightarrow> post list" where
  "global_blind_write mode gs pb page_addr page_size =
     (let g = flush_addr page_addr HDR_OFF; bs = load_bytes HDR_OFF (page_size - HDR_OFF) (pb_mem pb)
      in case mode of
           Write_Primary_Only \<Rightarrow>
             Batch_Submit_WRs [Prepare_WR_Write gs g bs True] 1 (GetPrimaryPhysicalId gs (nodeID page_addr))
         | Write_All \<Rightarrow>
             concat (map (\<lambda>pid. Batch_Submit_WRs [Prepare_WR_Write_Replication g bs True pid] 1 pid)
               (map phys_id (GetReplicaSet gs (nodeID page_addr)))))"


section \<open>Executing posts\<close>

text \<open>
  \<open>exec_post\<close> runs one request on the memories of the nodes, addressed by
  logical offset, and counts the completions waiting per node; polling a node
  with no completion blocks for ever, which is \<open>None\<close>.
\<close>
record net =
  n_mem :: "u16 \<Rightarrow> mem"
  n_cq :: "u16 \<Rightarrow> nat"

definition complete :: "u16 \<Rightarrow> bool \<Rightarrow> net \<Rightarrow> net" where
  "complete pid signaled s = (if signaled then s\<lparr>n_cq := (n_cq s)(pid := n_cq s pid + 1)\<rparr> else s)"

definition latch_of :: "mem \<Rightarrow> nat \<Rightarrow> u64" where
  "latch_of m a = le_word (load_bytes a 8 m)"

definition set_latch :: "nat \<Rightarrow> u64 \<Rightarrow> mem \<Rightarrow> mem" where
  "set_latch a w m = store_bytes a (le_bytes 8 w) m"

fun exec_post :: "post \<Rightarrow> net \<Rightarrow> net option" where
  "exec_post (PWrite pid g bs sg) s =
     Some (complete pid sg (s\<lparr>n_mem := (n_mem s)(pid := store_bytes (unat (goffset g)) bs (n_mem s pid))\<rparr>))"
| "exec_post (PFaa pid g d sg) s =
     (let a = unat (goffset g); m = n_mem s pid
      in Some (complete pid sg (s\<lparr>n_mem := (n_mem s)(pid := set_latch a (latch_of m a + d) m)\<rparr>)))"
| "exec_post (PPoll pid) s =
     (if n_cq s pid = 0 then None else Some (s\<lparr>n_cq := (n_cq s)(pid := n_cq s pid - 1)\<rparr>))"

fun exec_posts :: "post list \<Rightarrow> net \<Rightarrow> net option" where
  "exec_posts [] s = Some s"
| "exec_posts (p # ps) s = (case exec_post p s of None \<Rightarrow> None | Some s' \<Rightarrow> exec_posts ps s')"


section \<open>What a release publishes\<close>

lemma exec_posts_append: "exec_posts (ps @ qs) s = (case exec_posts ps s of None \<Rightarrow> None | Some s' \<Rightarrow> exec_posts qs s')"
  by (induction ps arbitrary: s) (auto split: option.splits)

lemma complete_simps [simp]:
  "n_mem (complete p b s) = n_mem s"
  "n_cq (complete p True s) = (n_cq s)(p := n_cq s p + 1)"
  "n_cq (complete p False s) = n_cq s"
  by (simp_all add: complete_def)

text \<open>The dirty bounds lie inside the page, behind the latch word.\<close>
definition bounds_ok :: "page_buf \<Rightarrow> nat \<Rightarrow> bool" where
  "bounds_ok pb psz \<longleftrightarrow> pb_upper pb = 0 \<or>
     HDR_OFF \<le> unat (pb_lower pb) \<and> pb_lower pb \<le> pb_upper pb \<and> unat (pb_upper pb) \<le> psz"

text \<open>A copy of the page that differs from the buffer only inside the dirty bounds.\<close>
definition clean_copy :: "page_buf \<Rightarrow> nat \<Rightarrow> nat \<Rightarrow> mem \<Rightarrow> bool" where
  "clean_copy pb a psz m \<longleftrightarrow> pb_upper pb = 0 \<or>
     (\<forall>i. HDR_OFF \<le> i \<and> i < psz \<and> \<not> (unat (pb_lower pb) \<le> i \<and> i < unat (pb_upper pb)) \<longrightarrow> m (a + i) = pb_mem pb i)"

definition same_page :: "page_buf \<Rightarrow> nat \<Rightarrow> nat \<Rightarrow> mem \<Rightarrow> bool" where
  "same_page pb a psz m \<longleftrightarrow> (\<forall>i. HDR_OFF \<le> i \<and> i < psz \<longrightarrow> m (a + i) = pb_mem pb i)"

definition same_outside :: "nat \<Rightarrow> nat \<Rightarrow> mem \<Rightarrow> mem \<Rightarrow> bool" where
  "same_outside a psz m m' \<longleftrightarrow> (\<forall>x. x < a \<or> a + psz \<le> x \<longrightarrow> m' x = m x)"

definition flush_mem :: "page_buf \<Rightarrow> nat \<Rightarrow> nat \<Rightarrow> mem \<Rightarrow> mem" where
  "flush_mem pb a psz m = (let (off, len) = flush_range pb psz
     in store_bytes (a + off) (load_bytes off len (pb_mem pb)) m)"

lemma flush_range_bounds:
  assumes "bounds_ok pb psz" "HDR_OFF \<le> psz" "flush_range pb psz = (off, len)"
  shows "HDR_OFF \<le> off \<and> off + len \<le> psz"
  using assms by (auto simp: flush_range_def bounds_ok_def word_le_nat_alt split: if_splits)

lemma unat_flush_addr:
  assumes "unat (goffset g) + psz < 2 ^ 48" "off \<le> psz"
  shows "unat (goffset (flush_addr g off)) = unat (goffset g) + off"
proof -
  have "unat (of_nat off :: 48 word) = off"
    using assms by (intro unat_of_nat_small) simp
  then show ?thesis
    using assms by (simp add: flush_addr_def unat_add_lem [THEN iffD1])
qed

lemma flush_mem_page:
  assumes "bounds_ok pb psz" "HDR_OFF \<le> psz" "clean_copy pb a psz m"
  shows "same_page pb a psz (flush_mem pb a psz m)"
    and "latch_of (flush_mem pb a psz m) a = latch_of m a"
    and "same_outside a psz m (flush_mem pb a psz m)"
proof -
  obtain off len where r: "flush_range pb psz = (off, len)"
    by (cases "flush_range pb psz")
  note b = flush_range_bounds [OF assms(1,2) r]
  let ?m = "flush_mem pb a psz m"
  have m: "?m = store_bytes (a + off) (load_bytes off len (pb_mem pb)) m"
    by (simp add: flush_mem_def r)
  have "?m (a + i) = pb_mem pb i" if i: "HDR_OFF \<le> i" "i < psz" for i
  proof (cases "off \<le> i \<and> i < off + len")
    case True
    then have "i - off < len" by auto
    with True show ?thesis by (simp add: m mem_simps)
  next
    case False
    then have "?m (a + i) = m (a + i)" by (auto simp: m mem_simps)
    moreover have "pb_upper pb \<noteq> 0 \<and> \<not> (unat (pb_lower pb) \<le> i \<and> i < unat (pb_upper pb))"
      using False i r assms(1) by (auto simp: flush_range_def bounds_ok_def word_le_nat_alt split: if_splits)
    ultimately show ?thesis using assms(3) i by (auto simp: clean_copy_def)
  qed
  then show "same_page pb a psz ?m" by (simp add: same_page_def)
  show "latch_of ?m a = latch_of m a"
    using b by (simp add: latch_of_def m HDR_OFF_def mem_simps)
  show "same_outside a psz m ?m"
    using b by (auto simp: same_outside_def m mem_simps)
qed

lemma set_latch_page:
  assumes "8 \<le> psz"
  shows "latch_of (set_latch a w m) a = w"
    and "same_page pb a psz (set_latch a w m) \<longleftrightarrow> same_page pb a psz m"
    and "same_outside a psz m (set_latch a w m)"
  using assms by (auto simp: set_latch_def latch_of_def same_page_def same_outside_def HDR_OFF_def mem_simps)


lemma exec_writes:
  assumes "distinct B"
  shows "exec_posts (map (\<lambda>pid. PWrite pid g bs True) B) s =
    Some (s\<lparr>n_mem := (\<lambda>p. if p \<in> set B then store_bytes (unat (goffset g)) bs (n_mem s p) else n_mem s p),
            n_cq := (\<lambda>p. if p \<in> set B then n_cq s p + 1 else n_cq s p)\<rparr>)"
  using assms
proof (induction B arbitrary: s)
  case (Cons b B)
  then show ?case
    by (cases s) (auto simp: complete_def fun_eq_iff)
qed (cases s; simp)

lemma exec_polls:
  assumes "distinct B" "\<forall>p\<in>set B. 0 < n_cq s p"
  shows "exec_posts (map PPoll B) s =
    Some (s\<lparr>n_cq := (\<lambda>p. if p \<in> set B then n_cq s p - 1 else n_cq s p)\<rparr>)"
  using assms
proof (induction B arbitrary: s)
  case (Cons b B)
  then show ?case
    by (cases s) (auto simp: fun_eq_iff)
qed (cases s; simp)

lemma exec_write_poll:
  "\<exists>s'. exec_posts (concat (map (\<lambda>pid. [PWrite pid g bs True, PPoll pid]) B)) s = Some s' \<and> n_cq s' = n_cq s"
proof (induction B arbitrary: s)
  case (Cons b B)
  show ?case
    using Cons [of "complete b True (s\<lparr>n_mem := (n_mem s)(b := store_bytes (unat (goffset g)) bs (n_mem s b))\<rparr>)
        \<lparr>n_cq := n_cq s\<rparr>"]
    by (simp add: complete_def)
qed simp

text \<open>
  \<open>published\<close>: every copy in \<open>R\<close> equals the page buffer behind the latch word, the
  latch word of the primary copy \<open>pid\<close> has moved by \<open>d\<close>, nothing else changed, and no
  completion is left over or missing.
\<close>
definition published :: "page_buf \<Rightarrow> nat \<Rightarrow> nat \<Rightarrow> u64 \<Rightarrow> u16 \<Rightarrow> u16 set \<Rightarrow> net \<Rightarrow> net \<Rightarrow> bool" where
  "published pb a psz d pid R s s' \<longleftrightarrow>
     (\<forall>p\<in>R. same_page pb a psz (n_mem s' p) \<and> same_outside a psz (n_mem s p) (n_mem s' p)
        \<and> latch_of (n_mem s' p) a = latch_of (n_mem s p) a + (if p = pid then d else 0))
     \<and> (\<forall>p. p \<notin> R \<longrightarrow> n_mem s' p = n_mem s p) \<and> n_cq s' = n_cq s"

text \<open>Both modes first bring every copy up to date and only then move the latch word.\<close>
lemma published_by:
  assumes "bounds_ok pb psz" "8 \<le> psz" "\<forall>p\<in>R. clean_copy pb a psz (n_mem s p)" "pid \<in> R"
    and "n_mem s' = (\<lambda>p. if p \<in> R then flush_mem pb a psz (n_mem s p) else n_mem s p)
        (pid := set_latch a (latch_of (flush_mem pb a psz (n_mem s pid)) a + d) (flush_mem pb a psz (n_mem s pid)))"
    and "n_cq s' = n_cq s"
  shows "published pb a psz d pid R s s'"
proof -
  have f: "same_page pb a psz (flush_mem pb a psz (n_mem s p))"
    "latch_of (flush_mem pb a psz (n_mem s p)) a = latch_of (n_mem s p) a"
    "same_outside a psz (n_mem s p) (flush_mem pb a psz (n_mem s p))" if "p \<in> R" for p
    using flush_mem_page [OF assms(1)] assms(2,3) that by (auto simp: HDR_OFF_def)
  have trans: "same_outside a psz m m' \<Longrightarrow> same_outside a psz m' m'' \<Longrightarrow> same_outside a psz m m''" for m m' m''
    by (simp add: same_outside_def)
  show ?thesis
    unfolding published_def
    using f assms(4-) set_latch_page [OF assms(2)] trans [OF f(3) [OF assms(4)] set_latch_page(3) [OF assms(2)]]
    by (auto simp: assms(5))
qed


definition replica_ids :: "logical_groups \<Rightarrow> u16 \<Rightarrow> u16 list" where
  "replica_ids gs l = map phys_id (GetReplicaSet gs l)"

definition targets :: "replica_mode \<Rightarrow> logical_groups \<Rightarrow> u16 \<Rightarrow> u16 set" where
  "targets mode gs l = (case mode of Write_Primary_Only \<Rightarrow> {GetPrimaryPhysicalId gs l} | Write_All \<Rightarrow> set (replica_ids gs l))"

lemma primary_is_hd: "replica_ids gs l = p # ps \<Longrightarrow> GetPrimaryPhysicalId gs l = p"
  by (auto simp: replica_ids_def GetReplicaSet_def GetPrimaryPhysicalId_def split: option.splits)

lemma release_page_published:
  assumes r: "flush_range pb psz = (off, len)" and b: "bounds_ok pb psz" "8 \<le> psz"
    and a: "unat (goffset g) + psz < 2 ^ 48"
    and c: "\<forall>p\<in>targets mode gs (nodeID g). clean_copy pb (unat (goffset g)) psz (n_mem s p)"
    and m: "mode = Write_All \<Longrightarrow> distinct (replica_ids gs (nodeID g)) \<and> replica_ids gs (nodeID g) \<noteq> [] \<and> early = 0"
  shows "\<exists>s'. exec_posts (fst (release_page mode gs limit early counter (flush_addr g off) (load_bytes off len (pb_mem pb)) g d)) s = Some s'
    \<and> published pb (unat (goffset g)) psz d (GetPrimaryPhysicalId gs (nodeID g)) (targets mode gs (nodeID g)) s s'"
proof -
  let ?a = "unat (goffset g)"
  have off: "off \<le> psz" using flush_range_bounds [OF b(1) _ r] b(2) by (simp add: HDR_OFF_def)
  have st: "store_bytes (unat (goffset (flush_addr g off))) (load_bytes off len (pb_mem pb)) m = flush_mem pb ?a psz m" for m
    by (simp add: unat_flush_addr [OF a off] flush_mem_def r)
  have n: "nodeID (flush_addr g off) = nodeID g" by (simp add: flush_addr_def)
  let ?pid = "GetPrimaryPhysicalId gs (nodeID g)" and ?R = "targets mode gs (nodeID g)"
  let ?s' = "s\<lparr>n_mem := (\<lambda>p. if p \<in> ?R then flush_mem pb ?a psz (n_mem s p) else n_mem s p)
        (?pid := set_latch ?a (latch_of (flush_mem pb ?a psz (n_mem s ?pid)) ?a + d) (flush_mem pb ?a psz (n_mem s ?pid)))\<rparr>"
  note defs = release_page_def Batch_Submit_WRs_def Prepare_WR_Write_def Prepare_WR_FAA_def
    Prepare_WR_Write_Replication_def Let_def
  have "exec_posts (fst (release_page mode gs limit early counter (flush_addr g off) (load_bytes off len (pb_mem pb)) g d)) s
      = Some ?s' \<and> ?pid \<in> ?R"
  proof (cases mode)
    case Write_Primary_Only
    then show ?thesis
      by (cases s) (auto simp: defs n st targets_def complete_def fun_eq_iff)
  next
    case Write_All
    then obtain p ps where ids: "replica_ids gs (nodeID g) = p # ps"
      using m by (cases "replica_ids gs (nodeID g)") auto
    then have d: "distinct ps" "p \<notin> set ps" "?pid = p" and e: "early = 0"
      using m Write_All primary_is_hd by auto
    have one: "concat (map (\<lambda>pid. [f pid]) B) = map f B" for f :: "u16 \<Rightarrow> post" and B
      by (induction B) auto
    show ?thesis
      using d e ids Write_All
      by (cases s) (auto simp: defs n st targets_def replica_ids_def [symmetric] one exec_posts_append exec_writes exec_polls
          complete_def fun_eq_iff)
  qed
  moreover have "published pb ?a psz d ?pid ?R s ?s'"
    by (rule published_by [OF b c]) (use calculation in simp_all)
  ultimately show ?thesis by blast
qed



definition wb_groups :: logical_groups where
  "wb_groups = [3 \<mapsto> \<lparr>physical_regions = [\<lparr>phys_id = 1, base_ptr = 0, rkey = 0\<rparr>,
     \<lparr>phys_id = 5, base_ptr = 0, rkey = 0\<rparr>], lg_bytes = 0\<rparr>]"

definition wb_page :: page_buf where
  "wb_page = \<lparr>pb_mem = (\<lambda>i. 7), pb_lower = 0, pb_upper = 0\<rparr>"

definition wb_net :: net where
  "wb_net = \<lparr>n_mem = (\<lambda>p i. 0), n_cq = (\<lambda>p. 0)\<rparr>"

definition wb_addr :: GlobalAddress where
  "wb_addr = GlobalAddress 3 0"

lemma wb_demo:
  "GetPrimaryPhysicalId wb_groups 3 = 1" "replica_ids wb_groups 3 = [1, 5]"
  "bounds_ok wb_page psz" "clean_copy wb_page a psz m" "nodeID wb_addr = 3" "unat (goffset wb_addr) = 0"
  by (simp_all add: wb_groups_def wb_page_def wb_addr_def GetPrimaryPhysicalId_def replica_ids_def
      GetReplicaSet_def bounds_ok_def clean_copy_def)


text \<open>
  Downgrading from exclusive to shared publishes the page to every copy
  that the replication mode writes, returns without waiting for a completion that never
  arrives, and moves the latch word from this node's exclusive value to the
  reader bits of this node and of the requester.
\<close>
theorem downgrade_publishes:
  assumes "bounds_ok pb psz" "8 \<le> psz" "unat (goffset g) + psz < 2 ^ 48"
    and "\<forall>p\<in>targets mode gs (nodeID g). clean_copy pb (unat (goffset g)) psz (n_mem s p)"
    and "distinct (replica_ids gs (nodeID g))" "replica_ids gs (nodeID g) \<noteq> []"
  shows "\<exists>s'. exec_posts (fst (global_write_page_and_WdowntoR_Async node next_holder mode gs counter pb g psz g)) s = Some s'
    \<and> published pb (unat (goffset g)) psz (shared_bit node + shared_bit next_holder - excl node)
        (GetPrimaryPhysicalId gs (nodeID g)) (targets mode gs (nodeID g)) s s'"
proof -
  obtain off len where r: "flush_range pb psz = (off, len)" by (cases "flush_range pb psz")
  have "substract (excl node) + (shared_bit node + shared_bit next_holder)
      = shared_bit node + shared_bit next_holder - excl node"
    by (simp add: substract_eq)
  then show ?thesis
    using release_page_published [OF r assms(1-4), of 0] assms(5,6)
    by (simp add: global_write_page_and_WdowntoR_Async_def r)
qed

theorem downgrade_publishes_witness:
  "\<exists>s'. exec_posts (fst (global_write_page_and_WdowntoR_Async 4 0 Write_All wb_groups 0 wb_page wb_addr kLeafPageSize wb_addr)) wb_net = Some s'
    \<and> published wb_page 0 kLeafPageSize (shared_bit 4 + shared_bit 0 - excl 4) 1 {1, 5} wb_net s'"
  using downgrade_publishes [of wb_page kLeafPageSize wb_addr Write_All wb_groups wb_net 4 0 0]
  by (simp add: wb_demo targets_def kLeafPageSize_def)

text \<open>
  With all copies written and at least one backup, the exclusive unlock
  never returns: it polls the completion of each backup write right after posting it,
  and then polls every backup once more.
\<close>
theorem wunlock_write_all_blocks:
  assumes "replica_ids gs (nodeID g) = p # q # ps" "n_cq s = (\<lambda>p. 0)"
  shows "exec_posts (fst (global_write_page_and_Wunlock_Async node Write_All gs counter pb g psz lock_addr)) s = None"
proof -
  obtain off len where r: "flush_range pb psz = (off, len)" by (cases "flush_range pb psz")
  let ?bs = "load_bytes off len (pb_mem pb)" and ?g = "flush_addr g off"
  have ids: "map phys_id (GetReplicaSet gs (nodeID ?g)) = p # q # ps"
    using assms(1) by (simp add: replica_ids_def flush_addr_def)
  obtain s' where s': "exec_posts (concat (map (\<lambda>pid. [PWrite pid ?g ?bs True, PPoll pid]) (q # ps))) s = Some s'"
      "n_cq s' = n_cq s"
    using exec_write_poll by blast
  show ?thesis
    unfolding global_write_page_and_Wunlock_Async_def release_page_def Batch_Submit_WRs_def
      Prepare_WR_Write_Replication_def r ids replica_mode.case Let_def prod.case fst_conv list.sel
      replicate_Suc replicate_0 One_nat_def append_Cons append_Nil exec_posts_append s'(1) option.case
    by (simp add: s'(2) assms(2))
qed

theorem wunlock_write_all_blocks_witness:
  "exec_posts (fst (global_write_page_and_Wunlock_Async 4 Write_All wb_groups 0 wb_page wb_addr kLeafPageSize wb_addr)) wb_net = None"
  using wunlock_write_all_blocks [of wb_groups wb_addr 1 5 "[]" wb_net]
  by (simp add: wb_demo wb_net_def)

end
