(* ===== verification/Latch_Protocol.thy ===== *)
theory Latch_Protocol
  imports Write_Back
begin

text \<open>
  The coherence protocol of one page as a transition system.  Compute node
  number \<open>k\<close> (identifier \<open>2 * k\<close>) is idle, backing off from a failed shared
  attempt, waiting for an invalidation reply, holds a cached copy in shared or
  exclusive state, or has been granted the page by a forward that is still on its way.  Every
  transition is one atomic of \<open>Latch\<close> or \<open>Write_Back\<close> with the state change
  that goes with it; an asynchronous atomic counts from the moment it
  reaches the memory node.  \<open>cur\<close> is the last value written by any holder.

  A forward is received after the atomic that grants it has been
  executed.  The code does not enforce this order; the last section
  shows what the latch word looks like when it is violated.
\<close>

datatype 'p nstate = NIdle | NBackoff | NWaitR nat | NWaitW nat
  | NShared 'p | NGrantS 'p | NExcl 'p | NGrantX 'p

record 'p pstate =
  word :: u64
  page :: 'p
  node :: "nat \<Rightarrow> 'p nstate"
  cur :: 'p

fun has_bit :: "'p nstate \<Rightarrow> bool" where
  "has_bit NBackoff = True" | "has_bit (NShared p) = True" | "has_bit (NGrantS p) = True" | "has_bit _ = False"

fun has_excl :: "'p nstate \<Rightarrow> bool" where
  "has_excl (NExcl p) = True" | "has_excl (NGrantX p) = True" | "has_excl _ = False"

fun reads :: "'p nstate \<Rightarrow> bool" where
  "reads (NShared p) = True" | "reads (NGrantS p) = True" | "reads _ = False"

definition set_node :: "nat \<Rightarrow> 'p nstate \<Rightarrow> 'p pstate \<Rightarrow> 'p pstate" where
  "set_node k n s = s\<lparr>node := (node s)(k := n)\<rparr>"

definition faa :: "u64 \<Rightarrow> 'p pstate \<Rightarrow> 'p pstate" where
  "faa d s = s\<lparr>word := word s + d\<rparr>"

text \<open>The atomic on the latch word among the work requests of an operation.\<close>
fun latch_delta :: "post list \<Rightarrow> u64" where
  "latch_delta [] = 0"
| "latch_delta (PFaa p g d b # ps) = d + latch_delta ps"
| "latch_delta (q # ps) = latch_delta ps"

inductive lstep :: "nat \<Rightarrow> 'p pstate \<Rightarrow> 'p pstate \<Rightarrow> bool" for N where
  shared_ok: "k < N \<Longrightarrow> node s k = NIdle \<Longrightarrow> write_byte (word s) < 100 \<Longrightarrow>
     lstep N s (set_node k (NShared (page s)) (faa (shared_bit (2 * k)) s))"
| shared_blocked: "k < N \<Longrightarrow> node s k = NIdle \<Longrightarrow> 100 \<le> write_byte (word s) \<Longrightarrow>
     lstep N s (set_node k NBackoff (faa (shared_bit (2 * k)) s))"
| back_off: "k < N \<Longrightarrow> node s k = NBackoff \<Longrightarrow>
     lstep N s (set_node k NIdle (faa (substract (shared_bit (2 * k))) s))"
| ask_reader: "k < N \<Longrightarrow> node s k = NIdle \<Longrightarrow> h < N \<Longrightarrow> h \<noteq> k \<Longrightarrow> lstep N s (set_node k (NWaitR h) s)"
| ask_writer: "k < N \<Longrightarrow> node s k = NIdle \<Longrightarrow> h < N \<Longrightarrow> h \<noteq> k \<Longrightarrow> lstep N s (set_node k (NWaitW h) s)"
| dropped_r: "k < N \<Longrightarrow> node s k = NWaitR h \<Longrightarrow> lstep N s (set_node k NIdle s)"
| dropped_w: "k < N \<Longrightarrow> node s k = NWaitW h \<Longrightarrow> lstep N s (set_node k NIdle s)"
| excl_ok: "k < N \<Longrightarrow> node s k = NIdle \<Longrightarrow> word s = 0 \<Longrightarrow>
     lstep N s (set_node k (NExcl (page s)) (s\<lparr>word := excl (2 * k)\<rparr>))"
| upgrade_ok: "k < N \<Longrightarrow> node s k = NShared p \<Longrightarrow> snd (global_Rlock_update (2 * k) (word s)) \<Longrightarrow>
     lstep N s (set_node k (NExcl p) (s\<lparr>word := excl (2 * k)\<rparr>))"
| upgrade_fails: "k < N \<Longrightarrow> node s k = NShared p \<Longrightarrow> \<not> snd (global_Rlock_update (2 * k) (word s)) \<Longrightarrow>
     lstep N s (set_node k NIdle (faa (faa_sum (fst (global_Rlock_update (2 * k) (word s)))) s))"
| shared_release: "k < N \<Longrightarrow> node s k = NShared p \<Longrightarrow>
     lstep N s (set_node k NIdle (faa (faa_sum (fst (global_RUnlock (2 * k) async counter))) s))"
| write_page: "k < N \<Longrightarrow> node s k = NExcl p \<Longrightarrow> lstep N s (set_node k (NExcl v) (s\<lparr>cur := v\<rparr>))"
| excl_release: "k < N \<Longrightarrow> node s k = NExcl p \<Longrightarrow>
     d = latch_delta (fst (global_write_page_and_Wunlock_Async (2 * k) mode gs counter pb g sz la)) \<Longrightarrow>
     lstep N s (set_node k NIdle (faa d s\<lparr>page := p\<rparr>))"
| handover: "k < N \<Longrightarrow> node s k = NExcl p \<Longrightarrow> j < N \<Longrightarrow> node s j = NWaitW k \<Longrightarrow>
     d = latch_delta (fst (global_WHandover (2 * k) (2 * j) async gs counter g la)) \<Longrightarrow>
     lstep N s (set_node j (NGrantX p) (set_node k NIdle (faa d s)))"
| downgrade: "k < N \<Longrightarrow> node s k = NExcl p \<Longrightarrow> j < N \<Longrightarrow> node s j = NWaitR k \<Longrightarrow>
     d = latch_delta (fst (global_write_page_and_WdowntoR_Async (2 * k) (2 * j) mode gs counter pb g sz la)) \<Longrightarrow>
     lstep N s (set_node j (NGrantS p) (set_node k (NShared p) (faa d s\<lparr>page := p\<rparr>)))"
| receive_s: "k < N \<Longrightarrow> node s k = NGrantS p \<Longrightarrow> lstep N s (set_node k (NShared p) s)"
| receive_x: "k < N \<Longrightarrow> node s k = NGrantX p \<Longrightarrow> lstep N s (set_node k (NExcl p) s)"

inductive lreach :: "nat \<Rightarrow> 'p pstate \<Rightarrow> bool" for N where
  init: "lreach N \<lparr>word = 0, page = v, node = (\<lambda>k. NIdle), cur = v\<rparr>"
| step: "lreach N s \<Longrightarrow> lstep N s s' \<Longrightarrow> lreach N s'"


section \<open>The latch word counts its holders\<close>

definition cval :: "nat \<Rightarrow> 'p nstate \<Rightarrow> nat" where
  "cval k n = (if has_bit n then 2 ^ (k + 1) else 0) + (if has_excl n then (k + 100) * 2 ^ 56 else 0)"

definition total_val :: "nat \<Rightarrow> 'p pstate \<Rightarrow> nat" where
  "total_val N s = (\<Sum>k<N. cval k (node s k))"

definition excl_inv :: "nat \<Rightarrow> 'p pstate \<Rightarrow> bool" where
  "excl_inv N s \<longleftrightarrow> (\<forall>k<N. has_excl (node s k) \<longrightarrow>
     (\<forall>j<N. j \<noteq> k \<longrightarrow> \<not> has_excl (node s j) \<and> \<not> reads (node s j)))"

definition word_inv :: "nat \<Rightarrow> 'p pstate \<Rightarrow> bool" where
  "word_inv N s \<longleftrightarrow> word s = of_nat (total_val N s)"

lemma excl_eq: "excl (2 * k) = of_nat ((k + 100) * 2 ^ 56)"
  by (simp add: excl_def push_bit_eq_mult)

lemma shared_bit_eq: "shared_bit (2 * k) = of_nat (2 ^ (k + 1))"
  by (simp add: shared_bit_def push_bit_eq_mult)

lemma sum_pow2_less: "(\<Sum>k<N. 2 ^ (k + 1) :: nat) < 2 ^ (N + 1)"
  by (induction N) auto

lemma bits_part_less:
  assumes "N \<le> 55"
  shows "(\<Sum>k<N. if P k then 2 ^ (k + 1) else 0 :: nat) < 2 ^ 56"
proof -
  have "(\<Sum>k<N. if P k then 2 ^ (k + 1) else 0 :: nat) \<le> (\<Sum>k<N. 2 ^ (k + 1))"
    by (rule sum_mono) simp
  also have "\<dots> < 2 ^ (N + 1)" by (rule sum_pow2_less)
  also have "\<dots> \<le> 2 ^ 56" using assms by (intro power_increasing) auto
  finally show ?thesis .
qed


definition bits_val :: "nat \<Rightarrow> 'p pstate \<Rightarrow> nat" where
  "bits_val N s = (\<Sum>k<N. if has_bit (node s k) then 2 ^ (k + 1) else 0)"

lemma total_val_no_writer:
  assumes "\<forall>k<N. \<not> has_excl (node s k)"
  shows "total_val N s = bits_val N s"
  unfolding total_val_def bits_val_def cval_def using assms by (intro sum.cong) auto

lemma total_val_writer:
  assumes "excl_inv N s" "k < N" "has_excl (node s k)"
  shows "total_val N s = bits_val N s + (k + 100) * 2 ^ 56"
proof -
  have one: "has_excl (node s j) \<longleftrightarrow> j = k" if "j < N" for j
    using assms that unfolding excl_inv_def by blast
  have "total_val N s = bits_val N s + (\<Sum>j<N. if has_excl (node s j) then (j + 100) * 2 ^ 56 else 0)"
    by (simp only: total_val_def bits_val_def cval_def sum.distrib)
  also have "(\<Sum>j<N. if has_excl (node s j) then (j + 100) * 2 ^ 56 else 0) =
      (\<Sum>j<N. if j = k then (j + 100) * 2 ^ 56 else (0 :: nat))"
    by (rule sum.cong) (simp_all only: one lessThan_iff)
  also have "\<dots> = (k + 100) * 2 ^ 56"
    using assms(2) by (simp only: sum.delta' [OF finite_lessThan] sum.delta [OF finite_lessThan] lessThan_iff if_True)
  finally show ?thesis .
qed

lemma write_byte_div: "write_byte w = unat w div 2 ^ 56"
  by (simp only: write_byte_def unat_drop_bit_eq, simp only: drop_bit_eq_div)

lemma bits_val_less: "N \<le> 55 \<Longrightarrow> bits_val N s < 2 ^ 56"
  unfolding bits_val_def by (rule bits_part_less)

lemma word_no_writer:
  assumes "N \<le> 55" "word_inv N s" "\<forall>k<N. \<not> has_excl (node s k)"
  shows "unat (word s) = bits_val N s" and "write_byte (word s) = 0"
proof -
  note b = bits_val_less [OF assms(1), of s]
  show "unat (word s) = bits_val N s"
    using assms(2) b by (simp add: word_inv_def total_val_no_writer [OF assms(3)] unat_of_nat_small)
  with b show "write_byte (word s) = 0" by (simp add: write_byte_div)
qed

lemma word_writer:
  assumes "N \<le> 55" "word_inv N s" "excl_inv N s" "k < N" "has_excl (node s k)"
  shows "unat (word s) = bits_val N s + (k + 100) * 2 ^ 56" and "write_byte (word s) = k + 100"
proof -
  note b = bits_val_less [OF assms(1), of s]
  have "bits_val N s + (k + 100) * 2 ^ 56 < 2 ^ 64"
    using b assms(1,4) by (simp add: algebra_simps)
  then show "unat (word s) = bits_val N s + (k + 100) * 2 ^ 56"
    using assms(2) by (simp add: word_inv_def total_val_writer [OF assms(3-5)] unat_of_nat_small del: of_nat_add of_nat_mult)
  with b show "write_byte (word s) = k + 100" by (simp add: write_byte_div)
qed

text \<open>What the three tests of the code on the latch word say about the nodes.\<close>

lemma no_writer_seen:
  assumes "N \<le> 55" "word_inv N s" "excl_inv N s"
  shows "write_byte (word s) < 100 \<longleftrightarrow> (\<forall>k<N. \<not> has_excl (node s k))"
  using assms word_no_writer(2) word_writer(2) by (metis not_add_less2 zero_less_numeral)

lemma free_word_seen:
  assumes "N \<le> 55" "word_inv N s" "excl_inv N s" "word s = 0"
  shows "\<forall>k<N. \<not> has_excl (node s k) \<and> \<not> has_bit (node s k)"
proof -
  have w: "\<forall>k<N. \<not> has_excl (node s k)"
    using assms no_writer_seen [OF assms(1-3)] by (simp add: write_byte_def)
  then have "bits_val N s = 0" using word_no_writer(1) assms by fastforce
  with w show ?thesis by (auto simp: bits_val_def split: if_splits)
qed

lemma own_bit_seen:
  assumes "N \<le> 55" "word_inv N s" "excl_inv N s" "k < N" "has_bit (node s k)" "word s = shared_bit (2 * k)"
  shows "\<forall>j<N. \<not> has_excl (node s j) \<and> (j \<noteq> k \<longrightarrow> \<not> has_bit (node s j))"
proof -
  have p: "(2::nat) ^ (k + 1) < 2 ^ 56"
    using assms(1,4) by (intro power_strict_increasing) auto
  then have u: "unat (word s) = 2 ^ (k + 1)"
    by (simp add: assms(6) shared_bit_eq unat_of_nat_small del: of_nat_power power_Suc)
  with p have w: "\<forall>j<N. \<not> has_excl (node s j)"
    using no_writer_seen [OF assms(1-3)] by (simp add: write_byte_div)
  have "bits_val N s = 2 ^ (k + 1) + (\<Sum>j\<in>{..<N} - {k}. if has_bit (node s j) then 2 ^ (j + 1) else 0)"
    using assms(4,5) by (simp add: bits_val_def sum.remove [of "{..<N}" k])
  with u word_no_writer(1) [OF assms(1,2) w]
  have "(\<Sum>j\<in>{..<N} - {k}. if has_bit (node s j) then 2 ^ (j + 1) else (0::nat)) = 0" by simp
  with w show ?thesis by (auto split: if_splits)
qed


section \<open>Preservation\<close>

lemma frame_simps [simp]:
  "node (faa d s) = node s" "word (faa d s) = word s + d" "page (faa d s) = page s" "cur (faa d s) = cur s"
  "word (set_node k n s) = word s" "page (set_node k n s) = page s" "cur (set_node k n s) = cur s"
  "node (set_node k n s) = (node s)(k := n)"
  by (simp_all add: faa_def set_node_def)

lemma latch_delta_append: "latch_delta (ps @ qs) = latch_delta ps + latch_delta qs"
  by (induction ps rule: latch_delta.induct) (simp_all add: add.assoc)

lemma latch_delta_no_faa: "(\<forall>q\<in>set ps. case q of PFaa p g d b \<Rightarrow> False | _ \<Rightarrow> True) \<Longrightarrow> latch_delta ps = 0"
  by (induction ps rule: latch_delta.induct) auto

lemma latch_delta_release_page:
  "latch_delta (fst (release_page mode gs limit early counter g bs la d)) = d"
proof -
  have "latch_delta (concat (map (\<lambda>pid. PWrite pid g bs True # replicate n (PPoll pid)) B)) = 0"
    and "latch_delta (map PPoll B) = 0" and "latch_delta (replicate n (PPoll p)) = 0" for n B p
    by (rule latch_delta_no_faa; auto)+
  then show ?thesis
    by (cases mode)
      (auto simp: release_page_def Let_def Batch_Submit_WRs_def Prepare_WR_Write_def Prepare_WR_FAA_def
        Prepare_WR_Write_Replication_def latch_delta_append)
qed

lemma deltas [simp]:
  "latch_delta (fst (global_write_page_and_Wunlock_Async k mode gs counter pb g sz la)) = - excl k"
  "latch_delta (fst (global_write_page_and_WdowntoR_Async k j mode gs counter pb g sz la))
     = shared_bit k + shared_bit j - excl k"
  "latch_delta (fst (global_WHandover k j async gs counter g la)) = excl j - excl k"
  "faa_sum (fst (global_RUnlock k async counter)) = - shared_bit k"
  "snd (global_Rlock_update k w) \<longleftrightarrow> w = shared_bit k"
  "w \<noteq> shared_bit k \<Longrightarrow> faa_sum (fst (global_Rlock_update k w)) = - shared_bit k"
  by (simp_all add: global_write_page_and_Wunlock_Async_def global_write_page_and_WdowntoR_Async_def
      global_WHandover_def global_RUnlock_def global_Rlock_update_def latch_delta_release_page case_prod_unfold
      Let_def substract_eq Batch_Submit_WRs_def Prepare_WR_FAA_def)

lemma total_set_node:
  assumes "k < N"
  shows "total_val N (set_node k n s) + cval k (node s k) = total_val N s + cval k n"
proof -
  have "total_val N t = cval k (node t k) + (\<Sum>j\<in>{..<N} - {k}. cval j (node t j))" for t :: "'a pstate"
    using assms by (simp add: total_val_def sum.remove [of "{..<N}" k])
  moreover have "(\<Sum>j\<in>{..<N} - {k}. cval j (node (set_node k n s) j)) = (\<Sum>j\<in>{..<N} - {k}. cval j (node s j))"
    by (rule sum.cong) auto
  ultimately show ?thesis by simp
qed

lemma word_inv_set_node:
  assumes "word_inv N s" "k < N" "d = of_nat (cval k n) - of_nat (cval k (node s k))"
    "word s' = word s + d" "node s' = (node s)(k := n)"
  shows "word_inv N s'"
proof -
  have "of_nat (total_val N (set_node k n s)) + of_nat (cval k (node s k)) = (of_nat (total_val N s) + of_nat (cval k n) :: u64)"
    by (metis total_set_node [OF assms(2)] of_nat_add)
  moreover have "total_val N s' = total_val N (set_node k n s)"
    by (simp add: total_val_def assms(5))
  ultimately show ?thesis
    using assms(1) by (simp add: word_inv_def assms(3,4) diff_eq_eq add_diff_eq)
qed

lemma cval_simps:
  "of_nat (cval k NIdle) = (0 :: u64)" "of_nat (cval k (NWaitR h)) = (0 :: u64)" "of_nat (cval k (NWaitW h)) = (0 :: u64)"
  "of_nat (cval k NBackoff) = shared_bit (2 * k)" "of_nat (cval k (NShared p)) = shared_bit (2 * k)"
  "of_nat (cval k (NGrantS p)) = shared_bit (2 * k)"
  "of_nat (cval k (NExcl p)) = excl (2 * k)" "of_nat (cval k (NGrantX p)) = excl (2 * k)"
  by (simp_all only: cval_def has_bit.simps has_excl.simps if_True if_False add_0 add_0_right
      semiring_1_class.of_nat_0 excl_eq shared_bit_eq)

lemma word_inv_step:
  assumes "lstep N s s'" "word_inv N s"
  shows "word_inv N s'"
  using assms(1)
proof cases
  case (handover k p j d async gs counter g la)
  then have "word_inv N (set_node k NIdle (faa (- excl (2 * k)) s))"
    by (intro word_inv_set_node [OF assms(2)]) (simp_all add: cval_simps)
  then show ?thesis
    by (rule word_inv_set_node [where k = j and n = "NGrantX p" and d = "excl (2 * j)"])
      (use handover in \<open>auto simp: cval_simps\<close>)
next
  case (downgrade k p j d mode gs counter pb g sz la)
  then have "word_inv N (set_node k (NShared p) (faa (shared_bit (2 * k) - excl (2 * k)) s))"
    by (intro word_inv_set_node [OF assms(2)]) (simp_all add: cval_simps)
  then show ?thesis
    by (rule word_inv_set_node [where k = j and n = "NGrantS p" and d = "shared_bit (2 * j)"])
      (use downgrade in \<open>auto simp: cval_simps\<close>)
qed (auto intro!: word_inv_set_node [OF assms(2)] simp: cval_simps substract_eq)


lemma excl_inv_weaken:
  assumes "excl_inv N s" "has_excl n \<longrightarrow> has_excl (node s k)" "reads n \<longrightarrow> reads (node s k) \<or> has_excl (node s k)"
    "node s' = (node s)(k := n)"
  shows "excl_inv N s'"
  using assms unfolding excl_inv_def by (metis fun_upd_apply)

lemma excl_inv_no_writer:
  assumes "\<forall>j<N. \<not> has_excl (node s j)"
  shows "excl_inv N s"
  using assms by (simp add: excl_inv_def)

lemma excl_inv_only:
  assumes "\<forall>j<N. j \<noteq> k \<longrightarrow> \<not> has_excl (node s j) \<and> \<not> reads (node s j)"
  shows "excl_inv N s"
  using assms unfolding excl_inv_def by metis

lemma reads_has_bit: "reads n \<Longrightarrow> has_bit n"
  by (cases n) auto

lemma excl_inv_step:
  assumes "lstep N s s'" "N \<le> 55" "word_inv N s" "excl_inv N s"
  shows "excl_inv N s'"
  using assms(1)
proof cases
  case (shared_ok k)
  then have "\<forall>j<N. \<not> has_excl (node s j)" using no_writer_seen [OF assms(2-4)] by blast
  with shared_ok show ?thesis by (intro excl_inv_no_writer) simp
next
  case (excl_ok k)
  with free_word_seen [OF assms(2-4)] show ?thesis
    by (intro excl_inv_only [of N k]) (auto dest: reads_has_bit)
next
  case (upgrade_ok k p)
  with own_bit_seen [OF assms(2-4)] show ?thesis
    by (intro excl_inv_only [of N k]) (auto dest: reads_has_bit)
next
  case (handover k p j d async gs counter g la)
  then have "\<forall>i<N. i \<noteq> k \<longrightarrow> \<not> has_excl (node s i) \<and> \<not> reads (node s i)"
    using assms(4) by (auto simp: excl_inv_def)
  with handover show ?thesis by (intro excl_inv_only [of N j]) auto
next
  case (downgrade k p j d mode gs counter pb g sz la)
  then have "\<forall>i<N. i \<noteq> k \<longrightarrow> \<not> has_excl (node s i) \<and> \<not> reads (node s i)"
    using assms(4) by (auto simp: excl_inv_def)
  with downgrade show ?thesis by (intro excl_inv_no_writer) auto
qed (rule excl_inv_weaken [OF assms(4)]; auto)+

fun copy_of :: "'p nstate \<Rightarrow> 'p option" where
  "copy_of (NShared p) = Some p" | "copy_of (NGrantS p) = Some p"
| "copy_of (NExcl p) = Some p" | "copy_of (NGrantX p) = Some p" | "copy_of _ = None"

definition data_inv :: "nat \<Rightarrow> 'p pstate \<Rightarrow> bool" where
  "data_inv N s \<longleftrightarrow> (\<forall>k<N. \<forall>p. copy_of (node s k) = Some p \<longrightarrow> p = cur s)
     \<and> ((\<forall>k<N. \<not> has_excl (node s k)) \<longrightarrow> page s = cur s)"

lemma copy_of_None: "\<not> reads n \<Longrightarrow> \<not> has_excl n \<Longrightarrow> copy_of n = None"
  by (cases n) auto

lemma data_inv_copy: "data_inv N s \<Longrightarrow> k < N \<Longrightarrow> copy_of (node s k) = Some p \<Longrightarrow> p = cur s"
  by (simp add: data_inv_def)

lemma data_inv_set_node:
  assumes "data_inv N s" "k < N" "node s' = (node s)(k := n)" "cur s' = cur s"
    "\<And>p. copy_of n = Some p \<Longrightarrow> p = cur s"
    "page s' = cur s \<or> page s' = page s \<and> (has_excl (node s k) \<longrightarrow> has_excl n)"
  shows "data_inv N s'"
  unfolding data_inv_def
proof (intro conjI allI impI)
  fix j p assume "j < N" "copy_of (node s' j) = Some p"
  then show "p = cur s'" using assms(1,3,4,5) by (cases "j = k") (auto dest: data_inv_copy)
next
  assume free: "\<forall>j<N. \<not> has_excl (node s' j)"
  from assms(6) show "page s' = cur s'"
  proof
    assume p: "page s' = page s \<and> (has_excl (node s k) \<longrightarrow> has_excl n)"
    have "\<not> has_excl (node s j)" if "j < N" for j
      using free [rule_format, OF that] p assms(2,3) free by (cases "j = k") auto
    with p assms(1,4) show ?thesis by (simp add: data_inv_def)
  qed (simp add: assms(4))
qed

lemma data_inv_keep:
  assumes "data_inv N s" "k < N" "node t = node s" "cur t = cur s" "page t = page s"
    "copy_of n = None \<or> copy_of n = copy_of (node s k)" "has_excl (node s k) \<Longrightarrow> has_excl n"
  shows "data_inv N (set_node k n t)"
  by (rule data_inv_set_node [OF assms(1,2)]) (use assms in \<open>auto dest: data_inv_copy\<close>)

lemma data_inv_step:
  assumes "lstep N s s'" "N \<le> 55" "word_inv N s" "excl_inv N s" "data_inv N s"
  shows "data_inv N s'"
  using assms(1)
proof cases
  case (shared_ok k)
  then have "page s = cur s" using no_writer_seen [OF assms(2-4)] assms(5) by (simp add: data_inv_def)
  with shared_ok show ?thesis by (intro data_inv_set_node [OF assms(5), of k]) auto
next
  case (excl_ok k)
  then have "page s = cur s" using free_word_seen [OF assms(2-4)] assms(5) by (simp add: data_inv_def)
  with excl_ok show ?thesis by (intro data_inv_set_node [OF assms(5), of k]) auto
next
  case (write_page k p v)
  then have "copy_of (node s j) = None" if "j < N" "j \<noteq> k" for j
    using assms(4) that by (intro copy_of_None) (auto simp: excl_inv_def)
  then show ?thesis using write_page by (auto simp: data_inv_def)
next
  case (excl_release k p d mode gs counter pb g sz la)
  then have "p = cur s" using data_inv_copy [OF assms(5), of k p] by simp
  with excl_release show ?thesis by (intro data_inv_set_node [OF assms(5), of k]) auto
next
  case (handover k p j d async gs counter g la)
  then have p: "p = cur s" "j \<noteq> k" using data_inv_copy [OF assms(5), of k p] by auto
  have "data_inv N (set_node j (NGrantX p) s)"
    using handover p by (intro data_inv_set_node [OF assms(5), of j]) auto
  with handover p show ?thesis by (auto simp: data_inv_def)
next
  case (downgrade k p j d mode gs counter pb g sz la)
  then have p: "p = cur s" "j \<noteq> k" using data_inv_copy [OF assms(5), of k p] by auto
  have "data_inv N (set_node k (NShared p) (s\<lparr>page := p\<rparr>))"
    using downgrade p by (intro data_inv_set_node [OF assms(5), of k]) auto
  with downgrade p show ?thesis by (auto simp: data_inv_def)
qed (auto intro!: data_inv_keep [OF assms(5)])


lemma lreach_inv:
  assumes "lreach N s" "N \<le> 55"
  shows "word_inv N s \<and> excl_inv N s \<and> data_inv N s"
  using assms(1)
proof induction
  case (init v)
  show ?case by (simp add: word_inv_def excl_inv_def data_inv_def total_val_def cval_def)
next
  case (step s s')
  then show ?case
    using assms(2) word_inv_step excl_inv_step data_inv_step by blast
qed


definition demo_start :: "nat pstate" where
  "demo_start = \<lparr>word = 0, page = 0, node = (\<lambda>k. NIdle), cur = 0\<rparr>"

text \<open>Node 0 acquires the page, writes it, and hands it over to node 1.\<close>
definition demo_written :: "nat pstate" where
  "demo_written = set_node 1 (NWaitW 0) (set_node 0 (NExcl 7) (demo_start\<lparr>word := excl 0, cur := 7\<rparr>))"

definition demo_moved :: "nat pstate" where
  "demo_moved = set_node 1 (NExcl 7) (set_node 0 NIdle (faa (excl 2 - excl 0) demo_written))"

lemma demo_written_reach: "lreach 2 demo_written"
proof -
  have 1: "lreach 2 demo_start" unfolding demo_start_def by (rule lreach.init)
  have 2: "lreach 2 (set_node 0 (NExcl 0) (demo_start\<lparr>word := excl 0\<rparr>))"
    using lreach.step [OF 1 lstep.excl_ok [of 0]] by (simp add: demo_start_def)
  have 3: "lreach 2 (set_node 0 (NExcl 7) (demo_start\<lparr>word := excl 0, cur := 7\<rparr>))"
    using lreach.step [OF 2 lstep.write_page [of 0 _ _ 0 7]] by (simp add: demo_start_def set_node_def)
  show ?thesis
    using lreach.step [OF 3 lstep.ask_writer [of 1 _ _ 0]]
    by (simp add: demo_start_def demo_written_def set_node_def)
qed

lemma demo_moved_reach: "lreach 2 demo_moved"
proof -
  have "lreach 2 (set_node 1 (NGrantX 7) (set_node 0 NIdle (faa (excl 2 - excl 0) demo_written)))"
    using lreach.step [OF demo_written_reach lstep.handover [of 0 _ _ 7 1]]
    by (simp add: demo_written_def demo_start_def)
  from lreach.step [OF this lstep.receive_x [of 1 _ _ 7]] show ?thesis
    by (simp add: demo_moved_def set_node_def)
qed



section \<open>Decoding the latch word\<close>

lemma bit_sum_pow2:
  "bit (\<Sum>k<N. if P k then 2 ^ (k + 1) else 0 :: nat) i \<longleftrightarrow> 0 < i \<and> i \<le> N \<and> P (i - 1)"
proof (induction N arbitrary: i)
  case (Suc N)
  let ?S = "\<Sum>k<N. if P k then 2 ^ (k + 1) else 0 :: nat"
  have "?S \<le> (\<Sum>k<N. 2 ^ (k + 1))" by (rule sum_mono) simp
  then have less: "?S < 2 ^ (N + 1)" using sum_pow2_less [of N] by (rule le_less_trans)
  have "(\<Sum>k<Suc N. if P k then 2 ^ (k + 1) else 0) = ?S + 2 ^ (N + 1) * of_bool (P N)"
    by simp
  then have "bit (\<Sum>k<Suc N. if P k then 2 ^ (k + 1) else 0 :: nat) i
      \<longleftrightarrow> (if i < N + 1 then bit ?S i else bit (of_bool (P N) :: nat) (i - (N + 1)))"
    by (simp only: bit_high_add [OF less])
  also have "bit (of_bool (P N) :: nat) (i - (N + 1)) \<longleftrightarrow> P N \<and> i \<le> N + 1"
    by (auto simp: bit_of_bool_iff)
  finally show ?case
    by (auto simp: Suc.IH le_Suc_eq not_less)
qed auto

lemma reader_bits:
  assumes "N \<le> 55" "word_inv N s" "excl_inv N s" "0 < i" "i < 56"
  shows "bit (word s) i \<longleftrightarrow> i \<le> N \<and> has_bit (node s (i - 1))"
proof -
  have "\<exists>x. unat (word s) = bits_val N s + 2 ^ 56 * x"
  proof (cases "\<forall>k<N. \<not> has_excl (node s k)")
    case True
    with word_no_writer(1) [OF assms(1,2)] show ?thesis by (intro exI [of _ 0]) simp
  next
    case False
    then obtain k where "k < N" "has_excl (node s k)" by blast
    with word_writer(1) [OF assms(1-3)] show ?thesis by (metis mult.commute)
  qed
  then obtain x where "unat (word s) = bits_val N s + 2 ^ 56 * x" ..
  moreover have "bit (word s) i \<longleftrightarrow> bit (unat (word s)) i"
    by (simp add: bit_unsigned_iff)
  ultimately show ?thesis
    using bit_high_add [OF bits_val_less [OF assms(1)], of s x i] assms(4,5)
    by (simp add: bits_val_def bit_sum_pow2)
qed




section \<open>Latch words outside the protocol\<close>

text \<open>
  The atomics of a handover and of a downgrade are posted asynchronously,
  and the page is forwarded without waiting for them, so an atomic
  of the new holder can reach the memory node first.
\<close>

text \<open>
  C39: when node \<open>a\<close> hands the page to node \<open>b\<close> and gets it back, and the second handover's atomic
  overtakes the first, the latch word can name no holder while \<open>a\<close> holds the page exclusively:
  a shared acquisition then succeeds at once, and an exclusive acquisition whose compare-and-swap fails still reports
  success.
\<close>
theorem handover_overtakes:
  assumes "2 * a < b" "b < 56" "lc_node c < 112"
    and "w = excl (2 * a) + latch_delta (fst (global_WHandover (2 * b) (2 * a) async gs counter g la))"
  shows "w \<noteq> 0 \<and> holderless w
    \<and> snd (global_Rlock_and_read_page_with_INVALID c r_times [\<lparr>lr_reminders = 0, lr_reply = dropped, lr_old = w\<rparr>]) = Acquired
    \<and> fst (snd (global_Wlock_and_read_page_with_INVALID c recv r_times [\<lparr>lr_reminders = 0, lr_reply = dropped, lr_old = w\<rparr>])) = Acquired"
proof -
  have e: "excl (2 * k) = (of_nat k + 100) * 2 ^ 56" for k
    by (simp add: excl_def push_bit_eq_mult)
  have "push_bit 56 (of_nat (2 * a + 100 - b)) = (2 * of_nat a + 100 - of_nat b) * (2 ^ 56 :: u64)"
    using assms(2) by (simp add: push_bit_eq_mult of_nat_diff)
  then have w: "w = push_bit 56 (of_nat (2 * a + 100 - b))"
    unfolding assms(4) deltas e by (simp add: algebra_simps)
  have b: "write_byte w = 2 * a + 100 - b"
    unfolding w using assms(1,2) by (intro write_byte_push) simp
  have "\<not> bit w i" if "i < 56" for i
    unfolding w using that by (simp add: bit_push_bit_iff)
  moreover have "w \<noteq> 0" using b assms(1,2) by (auto simp: write_byte_def)
  ultimately have h: "holderless w"
    using b assms(1,2) by (simp add: holderless_def)
  have "w \<noteq> 0" using h by (simp add: holderless_def)
  moreover have "\<not> rlock_gives_up r_times 0" by (auto simp: rlock_gives_up_def)
  moreover have "write_byte w < 100" using h by (simp add: holderless_def)
  ultimately show ?thesis
    using h wlock_decode_Fall_through [OF assms(3), of w]
    by (simp add: global_Rlock_and_read_page_with_INVALID_def global_Wlock_and_read_page_with_INVALID_def
        rlock_init_def wlock_init_def rlock_invalidate_def wlock_invalidate_def INVALIDATION_INTERVAL_def Let_def)
qed

theorem handover_overtakes_witness:
  "holderless (excl 0 + latch_delta (fst (global_WHandover 2 0 True wb_groups 0 wb_addr wb_addr)))"
  using handover_overtakes [of 0 1 demo_cfg _ True wb_groups 0 wb_addr wb_addr 0 "(0, 0)", OF _ _ _ refl]
  by (simp add: demo_cfg_def)

text \<open>
  When the reader that a downgrade grants gives its latch back before the atomic of the downgrade
  arrives, the borrow lowers the top byte by one: node 0 then
  disappears from the latch word and a shared acquisition succeeds at once, while the page
  on the memory node has not been written back yet.
\<close>
theorem release_overtakes_downgrade:
  assumes "0 < b" "b < 55"
  shows "write_byte (excl 0 + faa_sum (fst (global_RUnlock (2 * b) async counter))) = 99"
proof -
  have p: "(2::nat) ^ (b + 1) \<le> 2 ^ 55"
    using assms by (intro power_increasing) auto
  have "excl 0 - shared_bit (2 * b) = of_nat (100 * 2 ^ 56 - 2 ^ (b + 1))"
    using p excl_eq [of 0] by (simp add: shared_bit_eq of_nat_diff)
  then have "unat (excl 0 - shared_bit (2 * b)) = 100 * 2 ^ 56 - 2 ^ (b + 1)"
    by (simp only:) (rule unat_of_nat_small, simp)
  moreover have "99 * 2 ^ 56 \<le> 100 * 2 ^ 56 - (2::nat) ^ (b + 1)" "100 * 2 ^ 56 - (2::nat) ^ (b + 1) < 100 * 2 ^ 56"
    using p by simp_all
  ultimately have "unat (excl 0 - shared_bit (2 * b)) div 2 ^ 56 = 99"
    by (intro div_nat_eqI) simp_all
  then show ?thesis
    by (simp only: deltas write_byte_div add_uminus_conv_diff)
qed

theorem release_overtakes_downgrade_witness:
  "write_byte (excl 0 + faa_sum (fst (global_RUnlock 2 True 0))) = 99"
  using release_overtakes_downgrade [of 1 True 0] by simp

end
