(* ===== verification/RW_Latch.thy ===== *)
theory RW_Latch
  imports Prelude
begin

text \<open>
  The reader-writer spin latch that protects a cached page inside one compute
  node (\<^verbatim>\<open>RWSpinMutex\<close> of \<^verbatim>\<open>utils/mutexlock.h\<close>, the variant without
  \<^verbatim>\<open>USE_STD_LOCKS\<close>).  The latch is one 64-bit word: bit 0 marks an active
  writer, bit 1 a waiting writer, the remaining bits count readers.

  Each function below is one atomic update of the word: a load followed by a
  successful compare-and-exchange from the loaded value, or a fetch-and-modify.
  \<open>None\<close> means that the test on the loaded value failed.  The transition
  system interleaves these updates for any number of threads; a failed
  compare-and-exchange leaves the word and the thread where they were.
\<close>


section \<open>Atomic updates of the latch word\<close>

definition WRITER_ACTIVE_MASK :: u64 where "WRITER_ACTIVE_MASK = 1"
definition WRITER_WAITING_MASK :: u64 where "WRITER_WAITING_MASK = 2"
definition READER_COUNT_MASK :: u64 where "READER_COUNT_MASK = NOT 3"
definition READER_COUNT_INCREMENT :: u64 where "READER_COUNT_INCREMENT = 4"

definition try_shared_lock :: "bool \<Rightarrow> u64 \<Rightarrow> u64 option" where
  "try_shared_lock writerPrioritized cur =
     (if writerPrioritized
      then if cur AND (WRITER_ACTIVE_MASK OR WRITER_WAITING_MASK) \<noteq> 0 then None
           else Some (cur + READER_COUNT_INCREMENT)
      else if cur AND WRITER_ACTIVE_MASK \<noteq> 0 then None
           else Some (cur + READER_COUNT_INCREMENT))"

definition unlock_shared :: "u64 \<Rightarrow> u64" where
  "unlock_shared cur = cur - READER_COUNT_INCREMENT"

definition set_writer_waiting :: "u64 \<Rightarrow> u64" where
  "set_writer_waiting cur = (if cur AND WRITER_WAITING_MASK \<noteq> 0 then cur else cur OR WRITER_WAITING_MASK)"

definition lock_attempt :: "bool \<Rightarrow> u64 \<Rightarrow> u64 option" where
  "lock_attempt writerPrioritized cur =
     (if cur AND READER_COUNT_MASK = 0 \<and> cur AND WRITER_ACTIVE_MASK = 0
      then Some (if writerPrioritized then (cur OR WRITER_ACTIVE_MASK) AND NOT WRITER_WAITING_MASK
                 else cur OR WRITER_ACTIVE_MASK)
      else None)"

definition unlock :: "u64 \<Rightarrow> u64" where
  "unlock cur = cur AND NOT WRITER_ACTIVE_MASK"

text \<open>
  The writer-prioritised \<^verbatim>\<open>try_lock\<close> first marks a waiting writer, then
  re-reads the word and either takes the latch or clears the mark.
\<close>
definition try_lock_mark :: "u64 \<Rightarrow> u64 option" where
  "try_lock_mark cur =
     (if cur AND (WRITER_ACTIVE_MASK OR WRITER_WAITING_MASK) \<noteq> 0 then None
      else Some (cur OR WRITER_WAITING_MASK))"

definition clear_writer_waiting :: "u64 \<Rightarrow> u64" where
  "clear_writer_waiting cur = cur AND NOT WRITER_WAITING_MASK"

definition try_upgrade :: "u64 \<Rightarrow> u64 option" where
  "try_upgrade cur =
     (if cur AND READER_COUNT_MASK \<noteq> READER_COUNT_INCREMENT \<or> cur AND WRITER_ACTIVE_MASK \<noteq> 0 then None
      else Some ((cur - READER_COUNT_INCREMENT) OR WRITER_ACTIVE_MASK))"

definition rw_downgrade :: "u64 \<Rightarrow> u64" where
  "rw_downgrade cur =
     ((cur AND NOT WRITER_ACTIVE_MASK) AND NOT WRITER_WAITING_MASK) + READER_COUNT_INCREMENT"

definition islocked :: "u64 \<Rightarrow> bool" where
  "islocked cur \<longleftrightarrow> cur AND WRITER_ACTIVE_MASK \<noteq> 0"

definition issharelocked :: "u64 \<Rightarrow> bool" where
  "issharelocked cur \<longleftrightarrow> cur AND READER_COUNT_MASK \<noteq> 0"


section \<open>Threads\<close>

datatype tstate = TIdle | TReader | TWaitW | TTryW | TWriter

record rw_state =
  latch :: u64
  thr :: "nat \<Rightarrow> tstate"

inductive rw_step :: "bool \<Rightarrow> nat \<Rightarrow> rw_state \<Rightarrow> rw_state \<Rightarrow> bool" for prio T where
  lock_shared: "t < T \<Longrightarrow> thr s t = TIdle \<Longrightarrow> try_shared_lock prio (latch s) = Some w \<Longrightarrow>
     rw_step prio T s (s\<lparr>latch := w, thr := (thr s)(t := TReader)\<rparr>)"
| unlock_shared: "t < T \<Longrightarrow> thr s t = TReader \<Longrightarrow>
     rw_step prio T s (s\<lparr>latch := unlock_shared (latch s), thr := (thr s)(t := TIdle)\<rparr>)"
| lock_wait: "prio \<Longrightarrow> t < T \<Longrightarrow> thr s t = TIdle \<Longrightarrow>
     rw_step prio T s (s\<lparr>latch := set_writer_waiting (latch s), thr := (thr s)(t := TWaitW)\<rparr>)"
| lock_acquire: "t < T \<Longrightarrow> thr s t = (if prio then TWaitW else TIdle) \<Longrightarrow> lock_attempt prio (latch s) = Some w \<Longrightarrow>
     rw_step prio T s (s\<lparr>latch := w, thr := (thr s)(t := TWriter)\<rparr>)"
| unlock: "t < T \<Longrightarrow> thr s t = TWriter \<Longrightarrow>
     rw_step prio T s (s\<lparr>latch := unlock (latch s), thr := (thr s)(t := TIdle)\<rparr>)"
| try_lock_mark: "prio \<Longrightarrow> t < T \<Longrightarrow> thr s t = TIdle \<Longrightarrow> try_lock_mark (latch s) = Some w \<Longrightarrow>
     rw_step prio T s (s\<lparr>latch := w, thr := (thr s)(t := TTryW)\<rparr>)"
| try_lock_ok: "prio \<Longrightarrow> t < T \<Longrightarrow> thr s t = TTryW \<Longrightarrow> lock_attempt prio (latch s) = Some w \<Longrightarrow>
     rw_step prio T s (s\<lparr>latch := w, thr := (thr s)(t := TWriter)\<rparr>)"
| try_lock_fail: "prio \<Longrightarrow> t < T \<Longrightarrow> thr s t = TTryW \<Longrightarrow>
     rw_step prio T s (s\<lparr>latch := clear_writer_waiting (latch s), thr := (thr s)(t := TIdle)\<rparr>)"
| upgrade: "t < T \<Longrightarrow> thr s t = TReader \<Longrightarrow> try_upgrade (latch s) = Some w \<Longrightarrow>
     rw_step prio T s (s\<lparr>latch := w, thr := (thr s)(t := TWriter)\<rparr>)"
| downgrade: "t < T \<Longrightarrow> thr s t = TWriter \<Longrightarrow>
     rw_step prio T s (s\<lparr>latch := rw_downgrade (latch s), thr := (thr s)(t := TReader)\<rparr>)"

inductive rw_reach :: "bool \<Rightarrow> nat \<Rightarrow> rw_state \<Rightarrow> bool" for prio T where
  init: "rw_reach prio T \<lparr>latch = 0, thr = (\<lambda>t. TIdle)\<rparr>"
| step: "rw_reach prio T s \<Longrightarrow> rw_step prio T s s' \<Longrightarrow> rw_reach prio T s'"


section \<open>The word as a triple\<close>

definition enc :: "nat \<Rightarrow> bool \<Rightarrow> bool \<Rightarrow> u64" where
  "enc r wt ac = of_nat (4 * r + 2 * of_bool wt + of_bool ac)"

lemma bit_enc:
  "bit (enc r wt ac) i \<longleftrightarrow> i < 64 \<and> (if i = 0 then ac else if i = 1 then wt else bit r (i - 2))"
proof -
  let ?f = "2 * of_bool wt + of_bool ac :: nat"
  have s: "?f < 2 ^ 2" by simp
  have "4 * r + 2 * of_bool wt + of_bool ac = ?f + 2 ^ 2 * r" by simp
  then have b: "bit (4 * r + 2 * of_bool wt + of_bool ac) i \<longleftrightarrow> (if i < 2 then bit ?f i else bit r (i - 2))"
    by (simp only: bit_high_add [OF s])
  have f: "bit ?f 0 \<longleftrightarrow> ac" "bit ?f 1 \<longleftrightarrow> wt"
    by (cases wt; cases ac; simp add: bit_iff_odd)+
  have "bit (enc r wt ac) i \<longleftrightarrow> i < 64 \<and> bit (4 * r + 2 * of_bool wt + of_bool ac) i"
    unfolding enc_def by (simp only: bit_of_nat_iff possible_bit_word) simp
  with b f show ?thesis
    by (cases "i = 0"; cases "i = 1") auto
qed


definition rw_bound :: nat where
  "rw_bound = 2 ^ 62"

lemma enc_readers_zero: "r < rw_bound \<Longrightarrow> enc r wt ac AND READER_COUNT_MASK = 0 \<longleftrightarrow> r = 0"
proof
  assume r: "r < rw_bound" and z: "enc r wt ac AND READER_COUNT_MASK = 0"
  have "\<not> bit r i" for i
  proof (cases "i < 62")
    case True
    have "\<not> bit (enc r wt ac AND READER_COUNT_MASK) (i + 2)" by (simp add: z)
    with True show ?thesis
      by (simp add: READER_COUNT_MASK_def bit_simps bit_enc)
  next
    case False
    then have "r < 2 ^ i" using r unfolding rw_bound_def
      by (meson less_le_trans not_less one_le_numeral power_increasing)
    then show ?thesis by (simp add: bit_iff_odd)
  qed
  then show "r = 0" by (metis bit_eqI bit_0_eq bot_apply bot_bool_def)
next
  assume "r = 0"
  then show "enc r wt ac AND READER_COUNT_MASK = 0"
    by (intro bit_word_eqI) (auto simp: READER_COUNT_MASK_def bit_simps bit_enc)
qed

lemma enc_inject:
  assumes "r < rw_bound" "r' < rw_bound"
  shows "enc r wt ac = enc r' wt' ac' \<longleftrightarrow> r = r' \<and> wt = wt' \<and> ac = ac'"
proof -
  have "unat (enc q x y) = 4 * q + 2 * of_bool x + of_bool y" if "q < rw_bound" for q x y
    unfolding enc_def using that by (intro unat_of_nat_small) (cases x; cases y; simp add: rw_bound_def)
  note u = this [OF assms(1), of wt ac] this [OF assms(2), of wt' ac']
  show ?thesis
  proof
    assume "enc r wt ac = enc r' wt' ac'"
    with u have "4 * r + 2 * of_bool wt + of_bool ac = 4 * r' + 2 * of_bool wt' + of_bool ac'" by simp
    then show "r = r' \<and> wt = wt' \<and> ac = ac'"
      by (cases wt; cases wt'; cases ac; cases ac'; simp; presburger)
  qed simp
qed

lemma and_mask_bit: "w AND push_bit k 1 = 0 \<longleftrightarrow> \<not> bit w k" if "k < LENGTH('a)" for w :: "'a::len word"
  using that by (simp add: and_exp_eq_0_iff_not_bit)

lemma enc_flags [simp]:
  "enc r wt ac AND WRITER_ACTIVE_MASK = 0 \<longleftrightarrow> \<not> ac"
  "enc r wt ac AND WRITER_WAITING_MASK = 0 \<longleftrightarrow> \<not> wt"
  "enc r wt ac AND (WRITER_ACTIVE_MASK OR WRITER_WAITING_MASK) = 0 \<longleftrightarrow> \<not> ac \<and> \<not> wt"
proof -
  show a: "enc r wt ac AND WRITER_ACTIVE_MASK = 0 \<longleftrightarrow> \<not> ac"
    using and_mask_bit [of 0 "enc r wt ac"] by (simp add: WRITER_ACTIVE_MASK_def bit_enc)
  show w: "enc r wt ac AND WRITER_WAITING_MASK = 0 \<longleftrightarrow> \<not> wt"
    using and_mask_bit [of 1 "enc r wt ac"] by (simp add: WRITER_WAITING_MASK_def bit_enc)
  show "enc r wt ac AND (WRITER_ACTIVE_MASK OR WRITER_WAITING_MASK) = 0 \<longleftrightarrow> \<not> ac \<and> \<not> wt"
    using a w by (simp add: bit.conj_disj_distrib or_eq_0_iff)
qed

lemma enc_updates [simp]:
  "enc r wt ac OR WRITER_ACTIVE_MASK = enc r wt True"
  "enc r wt ac OR WRITER_WAITING_MASK = enc r True ac"
  "enc r wt ac AND NOT WRITER_ACTIVE_MASK = enc r wt False"
  "enc r wt ac AND NOT WRITER_WAITING_MASK = enc r False ac"
  "enc r wt ac + READER_COUNT_INCREMENT = enc (Suc r) wt ac"
  "enc (Suc r) wt ac - READER_COUNT_INCREMENT = enc r wt ac"
proof -
  have masks: "bit WRITER_ACTIVE_MASK i \<longleftrightarrow> i = 0" "bit WRITER_WAITING_MASK i \<longleftrightarrow> i = 1" for i
    using bit_exp_iff [of 1 i, where 'a = u64]
    by (auto simp: WRITER_ACTIVE_MASK_def WRITER_WAITING_MASK_def bit_1_iff)
  show "enc r wt ac OR WRITER_ACTIVE_MASK = enc r wt True"
    "enc r wt ac OR WRITER_WAITING_MASK = enc r True ac"
    "enc r wt ac AND NOT WRITER_ACTIVE_MASK = enc r wt False"
    "enc r wt ac AND NOT WRITER_WAITING_MASK = enc r False ac"
    by (rule bit_word_eqI; auto simp: bit_enc masks bit_or_iff bit_and_iff bit_not_iff)+
  show "enc r wt ac + READER_COUNT_INCREMENT = enc (Suc r) wt ac"
    "enc (Suc r) wt ac - READER_COUNT_INCREMENT = enc r wt ac"
    by (simp_all add: enc_def READER_COUNT_INCREMENT_def)
qed

lemma enc_one_reader:
  assumes "r < rw_bound"
  shows "enc r wt ac AND READER_COUNT_MASK = READER_COUNT_INCREMENT \<longleftrightarrow> r = 1"
proof -
  have one: "READER_COUNT_INCREMENT = enc 1 False False" by (simp add: enc_def READER_COUNT_INCREMENT_def)
  have "enc r wt ac AND READER_COUNT_MASK = enc r False False"
  proof -
    have "READER_COUNT_MASK = NOT WRITER_ACTIVE_MASK AND NOT WRITER_WAITING_MASK"
      by (simp add: READER_COUNT_MASK_def WRITER_ACTIVE_MASK_def WRITER_WAITING_MASK_def)
    then have "enc r wt ac AND READER_COUNT_MASK = (enc r wt ac AND NOT WRITER_ACTIVE_MASK) AND NOT WRITER_WAITING_MASK"
      by (simp only: and.assoc)
    then show ?thesis by simp
  qed
  then show ?thesis
    using enc_inject [OF assms, of 1] by (simp add: one rw_bound_def)
qed


section \<open>Invariant\<close>

definition cnt :: "nat \<Rightarrow> tstate \<Rightarrow> (nat \<Rightarrow> tstate) \<Rightarrow> nat" where
  "cnt T x f = card {t. t < T \<and> f t = x}"

lemma cnt_upd:
  assumes "t < T"
  shows "cnt T y (f(t := x)) = (if x = y then if f t = y then cnt T y f else Suc (cnt T y f)
    else if f t = y then cnt T y f - 1 else cnt T y f)"
proof -
  have "{u. u < T \<and> (f(t := x)) u = y} =
      (if x = y then insert t {u. u < T \<and> f u = y} else {u. u < T \<and> f u = y} - {t})"
    using assms by auto
  then show ?thesis
    using assms by (auto simp: cnt_def insert_absorb)
qed

lemma cnt_pos: "t < T \<Longrightarrow> f t = x \<Longrightarrow> 0 < cnt T x f"
  by (auto simp: cnt_def card_gt_0_iff)

lemma cnt_posE: "0 < cnt T x f \<Longrightarrow> \<exists>t<T. f t = x"
  by (auto simp: cnt_def card_gt_0_iff)

lemma cnt_le: "cnt T x f \<le> T"
  unfolding cnt_def by (metis (no_types, lifting) card_lessThan card_mono finite_lessThan lessThan_iff mem_Collect_eq subsetI)

lemma cnt_unique: "cnt T x f \<le> 1 \<Longrightarrow> t < T \<Longrightarrow> u < T \<Longrightarrow> f t = x \<Longrightarrow> f u = x \<Longrightarrow> t = u"
  unfolding cnt_def by (rule card_le_Suc0_iff_eq [THEN iffD1, rule_format]) auto

definition acquiring :: "nat \<Rightarrow> (nat \<Rightarrow> tstate) \<Rightarrow> bool" where
  "acquiring T f \<longleftrightarrow> (\<exists>t<T. f t = TWaitW \<or> f t = TTryW)"

definition rw_inv :: "nat \<Rightarrow> rw_state \<Rightarrow> bool" where
  "rw_inv T s \<longleftrightarrow> (\<exists>wt. latch s = enc (cnt T TReader (thr s)) wt (0 < cnt T TWriter (thr s))
     \<and> (wt \<longrightarrow> acquiring T (thr s)))
     \<and> cnt T TWriter (thr s) \<le> 1 \<and> (0 < cnt T TWriter (thr s) \<longrightarrow> cnt T TReader (thr s) = 0)"

lemma rw_invI:
  "latch s = enc r wt ac \<Longrightarrow> cnt T TReader (thr s) = r \<Longrightarrow> cnt T TWriter (thr s) = of_bool ac \<Longrightarrow>
   (wt \<Longrightarrow> acquiring T (thr s)) \<Longrightarrow> (ac \<Longrightarrow> r = 0) \<Longrightarrow> rw_inv T s"
  unfolding rw_inv_def by (cases ac) auto

lemma acquiring_upd:
  assumes "acquiring T f" "f t \<noteq> TWaitW" "f t \<noteq> TTryW"
  shows "acquiring T (f(t := x))"
  using assms unfolding acquiring_def by (metis fun_upd_apply)

lemma rw_inv_step:
  assumes "rw_step prio T s s'" "T < rw_bound" "rw_inv T s"
  shows "rw_inv T s'"
proof -
  have w: "cnt T TWriter (thr s) \<le> 1" and x: "0 < cnt T TWriter (thr s) \<longrightarrow> cnt T TReader (thr s) = 0"
    and ex: "\<exists>wt. latch s = enc (cnt T TReader (thr s)) wt (0 < cnt T TWriter (thr s)) \<and> (wt \<longrightarrow> acquiring T (thr s))"
    using assms(3) unfolding rw_inv_def by simp_all
  obtain wt where l: "latch s = enc (cnt T TReader (thr s)) wt (0 < cnt T TWriter (thr s))"
    and wt: "wt \<longrightarrow> acquiring T (thr s)"
    using ex by (elim exE conjE)
  have r: "cnt T TReader (thr s) < rw_bound" using cnt_le [of T TReader] assms(2) le_less_trans by blast
  note z = enc_readers_zero [OF r] enc_one_reader [OF r]
  from assms(1) show ?thesis
  proof cases
    case (lock_shared t v)
    then have "v = enc (Suc (cnt T TReader (thr s))) wt False \<and> cnt T TWriter (thr s) = 0"
      using w by (auto simp: try_shared_lock_def l split: if_splits)
    with lock_shared show ?thesis
      by (intro rw_invI [of _ "Suc (cnt T TReader (thr s))" wt False]) (auto simp: cnt_upd intro: acquiring_upd wt [rule_format])
  next
    case (unlock_shared t)
    obtain n where n: "cnt T TReader (thr s) = Suc n"
      using cnt_pos [of t T "thr s", OF unlock_shared(2,3)] by (cases "cnt T TReader (thr s)") auto
    then have "cnt T TWriter (thr s) = 0" using x by fastforce
    with unlock_shared n l show ?thesis
      by (intro rw_invI [of _ n wt False]) (auto simp: unlock_shared_def cnt_upd intro: acquiring_upd wt [rule_format])
  next
    case (lock_wait t)
    have "set_writer_waiting (latch s) = enc (cnt T TReader (thr s)) True (0 < cnt T TWriter (thr s))"
      by (auto simp: set_writer_waiting_def l)
    with lock_wait w x show ?thesis
      by (intro rw_invI [of _ "cnt T TReader (thr s)" True "0 < cnt T TWriter (thr s)"]) (auto simp: cnt_upd acquiring_def)
  next
    case (lock_acquire t v)
    then have "cnt T TReader (thr s) = 0 \<and> cnt T TWriter (thr s) = 0 \<and> v = enc 0 (\<not> prio \<and> wt) True"
      using w by (auto simp: lock_attempt_def l z split: if_splits)
    with lock_acquire show ?thesis
      by (intro rw_invI [of _ 0 "\<not> prio \<and> wt" True]) (auto simp: cnt_upd intro: acquiring_upd wt [rule_format])
  next
    case (unlock t)
    then have "cnt T TWriter (thr s) = 1" "cnt T TReader (thr s) = 0"
      using w x cnt_pos [of t T "thr s", OF unlock(2,3)] by auto
    with unlock l show ?thesis
      by (intro rw_invI [of _ 0 wt False]) (auto simp: unlock_def cnt_upd intro: acquiring_upd wt [rule_format])
  next
    case (try_lock_mark t v)
    then have "v = enc (cnt T TReader (thr s)) True False \<and> cnt T TWriter (thr s) = 0"
      using w by (auto simp: try_lock_mark_def l split: if_splits)
    with try_lock_mark show ?thesis
      by (intro rw_invI [of _ "cnt T TReader (thr s)" True False]) (auto simp: cnt_upd acquiring_def)
  next
    case (try_lock_ok t v)
    then have "cnt T TReader (thr s) = 0 \<and> cnt T TWriter (thr s) = 0 \<and> v = enc 0 False True"
      using w by (auto simp: lock_attempt_def l z split: if_splits)
    with try_lock_ok show ?thesis
      by (intro rw_invI [of _ 0 False True]) (auto simp: cnt_upd)
  next
    case (try_lock_fail t)
    with l w x show ?thesis
      by (intro rw_invI [of _ "cnt T TReader (thr s)" False "0 < cnt T TWriter (thr s)"])
        (auto simp: clear_writer_waiting_def cnt_upd)
  next
    case (upgrade t v)
    then have "cnt T TReader (thr s) = 1 \<and> cnt T TWriter (thr s) = 0 \<and> v = enc 0 wt True"
      using w enc_updates(6) [of 0] by (auto simp: try_upgrade_def l z split: if_splits)
    with upgrade show ?thesis
      by (intro rw_invI [of _ 0 wt True]) (auto simp: cnt_upd intro: acquiring_upd wt [rule_format])
  next
    case (downgrade t)
    then have "cnt T TWriter (thr s) = 1" "cnt T TReader (thr s) = 0"
      using w x cnt_pos [of t T "thr s", OF downgrade(2,3)] by auto
    with downgrade l show ?thesis
      by (intro rw_invI [of _ 1 False False]) (auto simp: rw_downgrade_def cnt_upd)
  qed
qed


lemma rw_reach_inv:
  assumes "rw_reach prio T s" "T < rw_bound"
  shows "rw_inv T s"
  using assms(1)
proof induction
  case init
  show ?case by (rule rw_invI [of _ 0 False False]) (simp_all add: enc_def cnt_def)
next
  case (step s s')
  then show ?case using assms(2) rw_inv_step by blast
qed

text \<open>
  C15: the page latch of a compute node is a correct reader-writer latch for
  any number of threads below \<open>2^62\<close>: a writer excludes every other writer and
  every reader; the test functions report exactly whether there is a writer or a
  reader; and a latch without a writer that no thread is acquiring accepts a
  new reader, so no stale waiting mark is left behind.
\<close>
theorem rw_latch_exclusion:
  assumes "rw_reach prio T s" "T < 2 ^ 62"
  shows "(\<forall>t<T. \<forall>u<T. thr s t = TWriter \<and> u \<noteq> t \<longrightarrow> thr s u \<noteq> TWriter \<and> thr s u \<noteq> TReader)
    \<and> (islocked (latch s) \<longleftrightarrow> (\<exists>t<T. thr s t = TWriter))
    \<and> (issharelocked (latch s) \<longleftrightarrow> (\<exists>t<T. thr s t = TReader))
    \<and> ((\<forall>t<T. thr s t = TIdle \<or> thr s t = TReader) \<longrightarrow> try_shared_lock prio (latch s) \<noteq> None)"
proof -
  have T: "T < rw_bound" using assms(2) by (simp add: rw_bound_def)
  note inv = rw_reach_inv [OF assms(1) T]
  have w: "cnt T TWriter (thr s) \<le> 1" and x: "0 < cnt T TWriter (thr s) \<longrightarrow> cnt T TReader (thr s) = 0"
    using inv unfolding rw_inv_def by simp_all
  from inv obtain wt where l: "latch s = enc (cnt T TReader (thr s)) wt (0 < cnt T TWriter (thr s))"
    and wt: "wt \<longrightarrow> acquiring T (thr s)"
    unfolding rw_inv_def by (elim exE conjE)
  have iff: "0 < cnt T y (thr s) \<longleftrightarrow> (\<exists>t<T. thr s t = y)" for y
    using cnt_pos cnt_posE by blast
  have r: "cnt T TReader (thr s) < rw_bound" using cnt_le [of T TReader] T le_less_trans by blast
  have 1: "thr s u \<noteq> TWriter \<and> thr s u \<noteq> TReader" if "t < T" "u < T" "thr s t = TWriter" "u \<noteq> t" for t u
    using that w x cnt_unique [of T TWriter "thr s" t u] cnt_pos [of t T "thr s" TWriter] cnt_pos [of u T "thr s" TReader] by auto
  have 2: "islocked (latch s) \<longleftrightarrow> (\<exists>t<T. thr s t = TWriter)"
    using iff [of TWriter] by (simp add: islocked_def l)
  have 3: "issharelocked (latch s) \<longleftrightarrow> (\<exists>t<T. thr s t = TReader)"
    using iff [of TReader] by (simp add: issharelocked_def l enc_readers_zero [OF r])
  have 4: "try_shared_lock prio (latch s) \<noteq> None" if q: "\<forall>t<T. thr s t = TIdle \<or> thr s t = TReader"
  proof -
    have "\<not> wt" using wt q by (fastforce simp: acquiring_def)
    moreover have "cnt T TWriter (thr s) = 0" using iff [of TWriter] q by fastforce
    ultimately show ?thesis by (simp add: try_shared_lock_def l)
  qed
  from 1 2 3 4 show ?thesis by blast
qed

definition rw_demo :: rw_state where
  "rw_demo = \<lparr>latch = 1, thr = (\<lambda>t. TIdle)(0 := TWriter)\<rparr>"

theorem rw_latch_exclusion_witness:
  "rw_reach True 2 rw_demo \<and> islocked (latch rw_demo) \<and> thr rw_demo 1 \<noteq> TReader"
proof -
  have 1: "rw_reach True 2 \<lparr>latch = 2, thr = (\<lambda>t. TIdle)(0 := TWaitW)\<rparr>"
    using rw_reach.step [OF rw_reach.init rw_step.lock_wait [of True 0]]
    by (simp add: set_writer_waiting_def WRITER_WAITING_MASK_def)
  have "lock_attempt True 2 = Some 1" by code_simp
  then have r: "rw_reach True 2 rw_demo"
    using rw_reach.step [OF 1 rw_step.lock_acquire [of 0 2 _ True 1]] by (simp add: rw_demo_def)
  then show ?thesis
    using rw_latch_exclusion [OF r] by (auto simp: rw_demo_def)
qed

end
