(* ===== verification/Cache_Handle.thy ===== *)
theory Cache_Handle
  imports Latch_Protocol RW_Latch
begin

text \<open>
  A cached page on a compute node (\<^verbatim>\<open>Cache_Handle\<close> of \<^verbatim>\<open>include/cache.h\<close>
  and \<^verbatim>\<open>storage/cache.cc\<close>) and the handlers of invalidation messages
  (\<^verbatim>\<open>Writer_Inv_Shared_handler\<close>, \<^verbatim>\<open>Reader_Inv_Modified_handler\<close>,
  \<^verbatim>\<open>Writer_Inv_Modified_handler\<close> of \<^verbatim>\<open>storage/rdma.cc\<close>).

  A handle records the global latch status of the page (0 none, 1 shared, 2
  exclusive), at most one buffered invalidation request, the starvation counters
  and the local reader-writer latch word.  Operations return the new handle with the list of
  network actions they perform; the outcome of a global latch
  operation is an argument.  A blocking latch call that cannot proceed is \<open>None\<close>.
  Statistics, debug bookkeeping and memory fences are left out.  The handle always has a buffer
  (\<^verbatim>\<open>PAGE_FREE_LIST\<close>), so the branches that allocate one are left out.
\<close>


section \<open>The handle\<close>

definition Invalid_Node_ID :: nat where
  "Invalid_Node_ID = 255"

definition PARALLEL_DEGREE :: u16 where
  "PARALLEL_DEGREE = 8"

definition STARVATION_THRESHOLD :: u16 where
  "STARVATION_THRESHOLD = 256"

definition WRITER_STARV_SPIN_BASE :: nat where
  "WRITER_STARV_SPIN_BASE = 16"

record PendingPageForward =
  next_holder_id :: nat
  next_receive_page_buf :: nat
  next_receive_rkey :: u32
  starvation_priority :: nat
  next_inv_message_type :: RDMA_Command_Type

record Cache_Handle =
  remote_lock_status :: nat
  lock_pending_num :: int
  reader_spin_time :: nat
  last_writer_starvation_priority :: nat
  read_lock_counter :: u16
  write_lock_counter :: u16
  remote_urging_type :: nat
  buffer_inv_message :: PendingPageForward
  rw_mtx :: u64

datatype hact =
    HReleaseShared bool
  | HReleaseExcl
  | HDowngrade nat
  | HHandover nat
  | HForward nat nat u32
  | HReply nat nat u32 Page_Forward_Reply_Type
  | HSpin nat
  | HAcquireShared lock_result
  | HAcquireExcl lock_result
  | HUpgrade bool

definition SetStates :: "nat \<Rightarrow> nat \<Rightarrow> u32 \<Rightarrow> nat \<Rightarrow> RDMA_Command_Type \<Rightarrow> PendingPageForward" where
  "SetStates holder buf rk priority ty =
     \<lparr>next_holder_id = holder, next_receive_page_buf = buf, next_receive_rkey = rk,
      starvation_priority = priority, next_inv_message_type = ty\<rparr>"

definition ClearStates :: PendingPageForward where
  "ClearStates = \<lparr>next_holder_id = Invalid_Node_ID, next_receive_page_buf = 0, next_receive_rkey = 0,
     starvation_priority = 0, next_inv_message_type = invalid_command\<rparr>"

definition clear_pending_inv_states :: "Cache_Handle \<Rightarrow> Cache_Handle" where
  "clear_pending_inv_states h = h\<lparr>read_lock_counter := 0, write_lock_counter := 0, remote_urging_type := 0,
     last_writer_starvation_priority := 0, buffer_inv_message := ClearStates\<rparr>"

definition handover_degree :: "Cache_Handle \<Rightarrow> u16" where
  "handover_degree h = write_lock_counter h + read_lock_counter h div PARALLEL_DEGREE"

text \<open>The reply flag sits in the last byte of the requester's page buffer.\<close>
definition flag_addr :: "nat \<Rightarrow> nat" where
  "flag_addr buf = buf + kLeafPageSize - 1"

definition drop_buffered_inv_message :: "Cache_Handle \<Rightarrow> Cache_Handle \<times> hact list" where
  "drop_buffered_inv_message h =
     (let b = buffer_inv_message h
      in (h\<lparr>buffer_inv_message := ClearStates\<rparr>,
          [HReply (next_holder_id b) (flag_addr (next_receive_page_buf b)) (next_receive_rkey b) dropped]))"

definition release_shared_for_writer :: "bool \<Rightarrow> Cache_Handle \<Rightarrow> Cache_Handle \<times> hact list" where
  "release_shared_for_writer need_spin h =
     (let p = starvation_priority (buffer_inv_message h); h1 = h\<lparr>remote_lock_status := 0\<rparr>
      in if 0 < p
         then if need_spin then (h1, [HReleaseShared True, HSpin (WRITER_STARV_SPIN_BASE * p)])
              else (h1\<lparr>reader_spin_time := WRITER_STARV_SPIN_BASE * p\<rparr>, [HReleaseShared True])
         else (h1, [HReleaseShared True]))"

definition process_buffered_inv_message :: "bool \<Rightarrow> Cache_Handle \<Rightarrow> Cache_Handle \<times> hact list" where
  "process_buffered_inv_message need_spin h =
     (let b = buffer_inv_message h;
          fwd = HForward (next_holder_id b) (next_receive_page_buf b) (next_receive_rkey b);
          (h1, as) =
            (if remote_lock_status h = 1 then release_shared_for_writer need_spin h
             else if remote_lock_status h = 2
               then if remote_urging_type h = 1 \<and> next_inv_message_type b = reader_invalidate_modified
                    then (h\<lparr>remote_lock_status := 1\<rparr>, [fwd, HDowngrade (next_holder_id b)])
                    else if remote_urging_type h = 2 \<and> next_inv_message_type b = writer_invalidate_modified
                    then (h\<lparr>remote_lock_status := 0\<rparr>, [HHandover (next_holder_id b), fwd])
                    else (h, [])
             else (h, []))
      in (clear_pending_inv_states h1, as))"


text \<open>
  The deleter of a cached page (\<^verbatim>\<open>include/DDSM.h\<close>) runs when the last reference is gone: it serves the
  buffered request, gives up the latch, writing a modified page back, and resets the handle.
\<close>
definition Deallocate_MR_WITH_CCP :: "Cache_Handle \<Rightarrow> Cache_Handle \<times> hact list" where
  "Deallocate_MR_WITH_CCP h =
     (let (h1, as) = (if next_holder_id (buffer_inv_message h) \<noteq> Invalid_Node_ID
                      then process_buffered_inv_message False h else (h, []));
          (h2, bs) = (if remote_lock_status h1 = 1 then (h1\<lparr>remote_lock_status := 0\<rparr>, [HReleaseShared False])
                      else if remote_lock_status h1 = 2 then (h1\<lparr>remote_lock_status := 0\<rparr>, [HReleaseExcl])
                      else (h1, []))
      in ((clear_pending_inv_states h2)\<lparr>reader_spin_time := 0\<rparr>, as @ bs))"


section \<open>Invalidation handlers\<close>

text \<open>
  \<^verbatim>\<open>try_lock\<close> and \<^verbatim>\<open>lock\<close> of the local latch without interference, from the
  atomic updates of \<open>RW_Latch\<close>.
\<close>
definition try_lock :: "u64 \<Rightarrow> u64 \<times> bool" where
  "try_lock w = (case try_lock_mark w of
      None \<Rightarrow> (w, False)
    | Some w1 \<Rightarrow> (case lock_attempt True w1 of
          Some w2 \<Rightarrow> (w2, True)
        | None \<Rightarrow> (clear_writer_waiting w1, False)))"

definition rw_lock :: "u64 \<Rightarrow> u64 option" where
  "rw_lock w = lock_attempt True (set_writer_waiting w)"

definition lock_h :: "Cache_Handle \<Rightarrow> Cache_Handle \<times> bool" where
  "lock_h h = (let (w, ok) = try_lock (rw_mtx h) in (h\<lparr>rw_mtx := w\<rparr>, ok))"

definition unlock_h :: "Cache_Handle \<Rightarrow> Cache_Handle" where
  "unlock_h h = h\<lparr>rw_mtx := unlock (rw_mtx h)\<rparr>"

text \<open>An incoming request: the message and the node it came from.\<close>
record inv_request =
  rq_from :: nat
  rq_msg :: inv_message

definition buffer_request :: "inv_request \<Rightarrow> nat \<Rightarrow> Cache_Handle \<Rightarrow> Cache_Handle" where
  "buffer_request r urging h = h\<lparr>
     buffer_inv_message := SetStates (rq_from r) (im_buffer (rq_msg r)) (im_rkey (rq_msg r))
       (im_level (rq_msg r)) (im_command (rq_msg r)),
     remote_urging_type := urging\<rparr>"

definition empty_buffer :: "Cache_Handle \<Rightarrow> bool" where
  "empty_buffer h \<longleftrightarrow> next_holder_id (buffer_inv_message h) = Invalid_Node_ID"

text \<open>First part of a handler, up to \<^verbatim>\<open>message_reply\<close>: the handle, messages sent and the reply type.\<close>
definition Writer_Inv_Shared_receive :: "inv_request \<Rightarrow> Cache_Handle \<Rightarrow> Cache_Handle \<times> Page_Forward_Reply_Type" where
  "Writer_Inv_Shared_receive r h =
     (let (h1, ok) = lock_h h
      in if \<not> ok
         then if remote_lock_status h1 = 1 \<and> empty_buffer h1 then (buffer_request r 2 h1, dropped)
              else (h1, dropped)
         else if remote_lock_status h1 = 1 then (buffer_request r 2 h1, processed)
         else (unlock_h h1, dropped))"

definition Writer_Inv_Shared_handler :: "inv_request \<Rightarrow> Cache_Handle option \<Rightarrow> Cache_Handle option \<times> hact list" where
  "Writer_Inv_Shared_handler r ho =
     (let reply = HReply (rq_from r) (im_buffer (rq_msg r)) (im_rkey (rq_msg r))
      in case ho of
           None \<Rightarrow> (None, [reply dropped])
         | Some h \<Rightarrow>
             (case Writer_Inv_Shared_receive r h of
                (h1, ty) \<Rightarrow>
                  if ty = processed
                  then let (h2, as) = process_buffered_inv_message False h1
                       in (Some (unlock_h h2), as @ [reply processed])
                  else (Some h1, [reply dropped])))"


text \<open>
  The two handlers of requests for an exclusively held page differ in the urging
  type and in the reply type of an unanswered reminder (\<^verbatim>\<open>dropped\<close> against
  \<^verbatim>\<open>ignored\<close>).
\<close>
definition replace_buffered :: "inv_request \<Rightarrow> nat \<Rightarrow> Cache_Handle \<Rightarrow> Cache_Handle \<times> hact list" where
  "replace_buffered r urging h =
     (let (h1, as) = (if empty_buffer h then (h, []) else drop_buffered_inv_message h)
      in (buffer_request r urging h1, as))"

definition Modified_busy :: "Page_Forward_Reply_Type \<Rightarrow> nat \<Rightarrow> inv_request \<Rightarrow> Cache_Handle
    \<Rightarrow> Cache_Handle \<times> hact list \<times> Page_Forward_Reply_Type" where
  "Modified_busy quiet urging r h =
     (if remote_lock_status h = 2
      then if im_reminder (rq_msg r)
           then if next_holder_id (buffer_inv_message h) = rq_from r
                then (buffer_request r urging h, [], quiet)
                else (h, [], quiet)
           else if starvation_priority (buffer_inv_message h) < im_level (rq_msg r)
           then let (h1, as) = replace_buffered r urging h in (h1, as, pending)
           else (h, [], dropped)
      else (h, [], dropped))"

definition Modified_free :: "Page_Forward_Reply_Type \<Rightarrow> nat \<Rightarrow> inv_request \<Rightarrow> Cache_Handle
    \<Rightarrow> Cache_Handle \<times> hact list \<times> Page_Forward_Reply_Type" where
  "Modified_free quiet urging r h =
     (if im_reminder (rq_msg r)
      then if \<not> empty_buffer h then (h, [], processed) else (unlock_h h, [], quiet)
      else if starvation_priority (buffer_inv_message h) \<le> im_level (rq_msg r)
      then if remote_lock_status h = 2
           then let (h1, as) = replace_buffered r urging h in (h1, as, processed)
           else (unlock_h h, [], dropped)
      else if \<not> empty_buffer h
      then let (h1, as) = process_buffered_inv_message False h in (unlock_h h1, as, dropped)
      else (unlock_h h, [], dropped))"

definition Modified_handler :: "Page_Forward_Reply_Type \<Rightarrow> nat \<Rightarrow> inv_request \<Rightarrow> Cache_Handle option
    \<Rightarrow> Cache_Handle option \<times> hact list" where
  "Modified_handler quiet urging r ho =
     (let reply = HReply (rq_from r) (flag_addr (im_buffer (rq_msg r))) (im_rkey (rq_msg r))
      in case ho of
           None \<Rightarrow> (None, if im_reminder (rq_msg r) then [] else [reply dropped])
         | Some h \<Rightarrow>
             let (h1, ok) = lock_h h;
                 (h2, as, ty) = (if ok then Modified_free quiet urging r h1 else Modified_busy quiet urging r h1)
             in (case ty of
                   processed \<Rightarrow>
                     let (h3, bs) = process_buffered_inv_message False h2 in (Some (unlock_h h3), as @ bs)
                 | pending \<Rightarrow> (Some h2, as @ [reply pending])
                 | dropped \<Rightarrow> (Some h2, as @ (if im_reminder (rq_msg r) then [] else [reply dropped]))
                 | _ \<Rightarrow> (Some h2, as)))"

definition Reader_Inv_Modified_handler :: "inv_request \<Rightarrow> Cache_Handle option \<Rightarrow> Cache_Handle option \<times> hact list" where
  "Reader_Inv_Modified_handler r ho = Modified_handler dropped 1 r ho"

definition Writer_Inv_Modified_handler :: "inv_request \<Rightarrow> Cache_Handle option \<Rightarrow> Cache_Handle option \<times> hact list" where
  "Writer_Inv_Modified_handler r ho = Modified_handler ignored 2 r ho"


section \<open>Page access\<close>

text \<open>
  Entering a page while a remote request is urging counts the access; the
  waiting loop before the latch call ends when the handover degree is below the
  threshold, so a handle above it blocks.
\<close>
definition urged_lock_shared :: "Cache_Handle \<Rightarrow> Cache_Handle option" where
  "urged_lock_shared h =
     (if 0 < remote_urging_type h
      then if STARVATION_THRESHOLD < handover_degree h then None
           else map_option (\<lambda>w. h\<lparr>rw_mtx := w, read_lock_counter := read_lock_counter h + 1\<rparr>)
                  (try_shared_lock True (rw_mtx h))
      else map_option (\<lambda>w. h\<lparr>rw_mtx := w\<rparr>) (try_shared_lock True (rw_mtx h)))"

definition urged_lock :: "Cache_Handle \<Rightarrow> Cache_Handle option" where
  "urged_lock h =
     (if 0 < remote_urging_type h
      then if STARVATION_THRESHOLD < handover_degree h then None
           else map_option (\<lambda>w. h\<lparr>rw_mtx := w, write_lock_counter := write_lock_counter h + 1\<rparr>) (rw_lock (rw_mtx h))
      else map_option (\<lambda>w. h\<lparr>rw_mtx := w\<rparr>) (rw_lock (rw_mtx h)))"

text \<open>The part of a shared access under the exclusive local latch, for any handle found there.\<close>
definition reader_fill :: "lock_result \<Rightarrow> Cache_Handle \<Rightarrow> Cache_Handle \<times> hact list" where
  "reader_fill res h =
     (if remote_lock_status h = 0
      then let spin = (if 0 < reader_spin_time h then [HSpin (reader_spin_time h)] else [])
           in (h\<lparr>reader_spin_time := 0, remote_lock_status := 1, rw_mtx := rw_downgrade (rw_mtx h)\<rparr>,
               spin @ [HAcquireShared res])
      else (h\<lparr>rw_mtx := rw_downgrade (rw_mtx h)\<rparr>, []))"

definition reader_pre_access :: "lock_result \<Rightarrow> Cache_Handle \<Rightarrow> (Cache_Handle \<times> hact list) option" where
  "reader_pre_access res h =
     (case urged_lock_shared h of
        None \<Rightarrow> None
      | Some h1 \<Rightarrow>
          if remote_lock_status h1 = 0
          then (case rw_lock (unlock_shared (rw_mtx h1)) of
                  None \<Rightarrow> None
                | Some w \<Rightarrow> Some (reader_fill res (h1\<lparr>rw_mtx := w\<rparr>)))
          else Some (h1, []))"

definition reader_post_access :: "Cache_Handle \<Rightarrow> (Cache_Handle \<times> hact list) option" where
  "reader_post_access h =
     (if 0 < remote_urging_type h \<and> STARVATION_THRESHOLD < handover_degree h
      then (case rw_lock (unlock_shared (rw_mtx h)) of
              None \<Rightarrow> None
            | Some w \<Rightarrow>
                let h1 = h\<lparr>rw_mtx := w\<rparr>;
                    (h2, as) = (if 0 < remote_urging_type h1 \<and> STARVATION_THRESHOLD < handover_degree h1
                                then process_buffered_inv_message True h1 else (h1, []))
                in Some (unlock_h h2, as))
      else Some (h\<lparr>rw_mtx := unlock_shared (rw_mtx h)\<rparr>, []))"

definition updater_writer_post_access :: "Cache_Handle \<Rightarrow> Cache_Handle \<times> hact list" where
  "updater_writer_post_access h =
     (let (h1, as) = (if 0 < remote_urging_type h \<and> STARVATION_THRESHOLD < handover_degree h
                      then process_buffered_inv_message True h else (h, []))
      in (unlock_h h1, as))"


text \<open>The non-blocking variants return whether the page may be accessed.\<close>
definition try_reader_pre_access :: "lock_result \<Rightarrow> Cache_Handle \<Rightarrow> Cache_Handle \<times> hact list \<times> bool" where
  "try_reader_pre_access res h =
     (case try_shared_lock True (rw_mtx h) of
        None \<Rightarrow> (h, [], False)
      | Some w \<Rightarrow>
          let h1 = h\<lparr>rw_mtx := w, read_lock_counter := read_lock_counter h + (if 0 < remote_urging_type h then 1 else 0)\<rparr>
          in if remote_lock_status h1 = 0
             then let (v, ok) = try_lock (unlock_shared w); h2 = h1\<lparr>rw_mtx := v\<rparr>
                  in if \<not> ok then (h2, [], False)
                     else if res = GaveUp then (unlock_h h2, [HAcquireShared res], False)
                     else (h2\<lparr>remote_lock_status := 1, rw_mtx := rw_downgrade v\<rparr>, [HAcquireShared res], True)
             else (h1, [], True))"

definition Cache_Handle_global_Rlock_update :: "bool \<Rightarrow> Cache_Handle \<Rightarrow> Cache_Handle" where
  "Cache_Handle_global_Rlock_update succfully_updated h =
     (if succfully_updated
      then (if empty_buffer h then h else clear_pending_inv_states h)\<lparr>remote_lock_status := 2\<rparr>
      else h\<lparr>remote_lock_status := 0\<rparr>)"

text \<open>
  Taking the global exclusive latch under the local one: the latch is acquired
  with outcome \<open>res\<close>, or a shared latch is upgraded (\<open>upd\<close>), and a failed upgrade falls
  back to an acquisition.  Only the updater clears a request that was buffered for the
  released shared latch.
\<close>
definition updater_fill :: "lock_result \<Rightarrow> nat \<Rightarrow> bool \<Rightarrow> Cache_Handle \<Rightarrow> Cache_Handle \<times> hact list" where
  "updater_fill res sv upd h =
     (if remote_lock_status h = 0
      then (h\<lparr>last_writer_starvation_priority := sv, remote_lock_status := 2\<rparr>, [HAcquireExcl res])
      else if remote_lock_status h = 1
      then let h1 = Cache_Handle_global_Rlock_update upd h
           in if upd then (h1, [HUpgrade True])
              else let h2 = (if empty_buffer h1 then h1 else clear_pending_inv_states h1)
                   in (h2\<lparr>last_writer_starvation_priority := sv, remote_lock_status := 2\<rparr>,
                       [HUpgrade False, HAcquireExcl res])
      else (h, []))"

definition updater_pre_access :: "lock_result \<Rightarrow> nat \<Rightarrow> bool \<Rightarrow> Cache_Handle \<Rightarrow> (Cache_Handle \<times> hact list) option" where
  "updater_pre_access res sv upd h = map_option (updater_fill res sv upd) (urged_lock h)"

definition plain_fill :: "lock_result \<Rightarrow> bool \<Rightarrow> Cache_Handle \<Rightarrow> Cache_Handle \<times> hact list" where
  "plain_fill res upd h =
     (if remote_lock_status h = 0 then (h\<lparr>remote_lock_status := 2\<rparr>, [HAcquireExcl res])
      else if remote_lock_status h = 1
      then let h1 = Cache_Handle_global_Rlock_update upd h
           in if upd then (h1, [HUpgrade True])
              else (h1\<lparr>remote_lock_status := 2\<rparr>, [HUpgrade False, HAcquireExcl res])
      else (h, []))"

definition upgrade_pre_access :: "lock_result \<Rightarrow> bool \<Rightarrow> Cache_Handle \<Rightarrow> (Cache_Handle \<times> hact list) option" where
  "upgrade_pre_access res upd h =
     map_option (plain_fill res upd) (urged_lock (h\<lparr>rw_mtx := unlock_shared (rw_mtx h)\<rparr>))"

definition writer_pre_access :: "lock_result \<Rightarrow> bool \<Rightarrow> Cache_Handle \<Rightarrow> (Cache_Handle \<times> hact list) option" where
  "writer_pre_access res upd h = map_option (plain_fill res upd) (urged_lock h)"

definition try_fill :: "lock_result \<Rightarrow> bool \<Rightarrow> Cache_Handle \<Rightarrow> Cache_Handle \<times> hact list \<times> bool" where
  "try_fill res upd h =
     (if remote_lock_status h = 0
      then if res = GaveUp then (unlock_h h, [HAcquireExcl res], False)
           else (h\<lparr>remote_lock_status := 2\<rparr>, [HAcquireExcl res], True)
      else if remote_lock_status h = 1
      then let h1 = Cache_Handle_global_Rlock_update upd h
           in if upd then (h1, [HUpgrade True], True)
              else (unlock_h (if empty_buffer h1 then h1 else clear_pending_inv_states h1), [HUpgrade False], False)
      else (h, [], True))"

definition try_updater_pre_access :: "lock_result \<Rightarrow> bool \<Rightarrow> Cache_Handle \<Rightarrow> Cache_Handle \<times> hact list \<times> bool" where
  "try_updater_pre_access res upd h =
     (let (w, ok) = try_lock (rw_mtx h)
      in if \<not> ok then (h\<lparr>rw_mtx := w\<rparr>, [], False)
         else try_fill res upd (h\<lparr>rw_mtx := w,
                write_lock_counter := write_lock_counter h + (if 0 < remote_urging_type h then 1 else 0)\<rparr>))"

definition try_upgrade_pre_access :: "lock_result \<Rightarrow> bool \<Rightarrow> Cache_Handle \<Rightarrow> Cache_Handle \<times> hact list \<times> bool" where
  "try_upgrade_pre_access res upd h =
     (case try_upgrade (rw_mtx h) of
        None \<Rightarrow> (h, [], False)
      | Some w \<Rightarrow> try_fill res upd (h\<lparr>rw_mtx := w,
                write_lock_counter := write_lock_counter h + (if 0 < remote_urging_type h then 1 else 0)\<rparr>))"


section \<open>The buffered request matches the latch status\<close>

definition handle_ok :: "Cache_Handle \<Rightarrow> bool" where
  "handle_ok h \<longleftrightarrow> remote_lock_status h \<in> {0, 1, 2} \<and>
     (case next_inv_message_type (buffer_inv_message h) of
        invalid_command \<Rightarrow> empty_buffer h \<and> remote_urging_type h = 0 \<and> starvation_priority (buffer_inv_message h) = 0
      | writer_invalidate_shared \<Rightarrow> \<not> empty_buffer h \<and> remote_lock_status h = 1 \<and> remote_urging_type h = 2
      | reader_invalidate_modified \<Rightarrow> \<not> empty_buffer h \<and> remote_lock_status h = 2 \<and> remote_urging_type h = 1
      | writer_invalidate_modified \<Rightarrow> \<not> empty_buffer h \<and> remote_lock_status h = 2 \<and> remote_urging_type h = 2)"

definition request_ok :: "RDMA_Command_Type \<Rightarrow> inv_request \<Rightarrow> bool" where
  "request_ok cmd r \<longleftrightarrow> im_command (rq_msg r) = cmd \<and> rq_from r \<noteq> Invalid_Node_ID"

text \<open>Fields that decide \<open>handle_ok\<close>.\<close>
definition same_view :: "Cache_Handle \<Rightarrow> Cache_Handle \<Rightarrow> bool" where
  "same_view h h' \<longleftrightarrow> remote_lock_status h' = remote_lock_status h \<and> buffer_inv_message h' = buffer_inv_message h
     \<and> remote_urging_type h' = remote_urging_type h"

lemma handle_ok_cong: "same_view h h' \<Longrightarrow> handle_ok h' \<longleftrightarrow> handle_ok h"
  by (simp add: same_view_def handle_ok_def empty_buffer_def cong: RDMA_Command_Type.case_cong)

lemma handle_ok_clear [simp]:
  "handle_ok (clear_pending_inv_states h) \<longleftrightarrow> remote_lock_status h \<in> {0, 1, 2}"
  by (simp add: handle_ok_def clear_pending_inv_states_def ClearStates_def empty_buffer_def)

lemma handle_ok_status: "handle_ok h \<Longrightarrow> remote_lock_status h \<in> {0, 1, 2}"
  by (simp add: handle_ok_def)

lemma handle_ok_empty:
  assumes "handle_ok h"
  shows "empty_buffer h \<longleftrightarrow> remote_urging_type h = 0"
    and "empty_buffer h \<Longrightarrow> starvation_priority (buffer_inv_message h) = 0"
    and "empty_buffer h \<Longrightarrow> next_inv_message_type (buffer_inv_message h) = invalid_command"
    and "remote_lock_status h = 0 \<Longrightarrow> empty_buffer h"
  using assms by (auto simp: handle_ok_def split: RDMA_Command_Type.splits)

lemma handle_ok_buffer_request:
  "request_ok writer_invalidate_shared r \<Longrightarrow> remote_lock_status h = 1 \<Longrightarrow> handle_ok (buffer_request r 2 h)"
  "request_ok reader_invalidate_modified r \<Longrightarrow> remote_lock_status h = 2 \<Longrightarrow> handle_ok (buffer_request r 1 h)"
  "request_ok writer_invalidate_modified r \<Longrightarrow> remote_lock_status h = 2 \<Longrightarrow> handle_ok (buffer_request r 2 h)"
  by (simp_all add: handle_ok_def buffer_request_def SetStates_def request_ok_def empty_buffer_def)

lemma status_frame [simp]:
  "remote_lock_status (clear_pending_inv_states h) = remote_lock_status h"
  "remote_lock_status (buffer_request r u h) = remote_lock_status h"
  "remote_lock_status (unlock_h h) = remote_lock_status h"
  "remote_lock_status (fst (drop_buffered_inv_message h)) = remote_lock_status h"
  "remote_lock_status (fst (lock_h h)) = remote_lock_status h"
  "remote_lock_status (fst (replace_buffered r u h)) = remote_lock_status h"
  by (simp_all add: clear_pending_inv_states_def buffer_request_def unlock_h_def drop_buffered_inv_message_def
      lock_h_def replace_buffered_def Let_def case_prod_unfold)

lemma same_view_frame [simp]:
  "same_view h (unlock_h h)" "same_view h (fst (lock_h h))" "same_view h h" "same_view h (h\<lparr>rw_mtx := w\<rparr>)"
  by (simp_all add: same_view_def unlock_h_def lock_h_def Let_def case_prod_unfold)

lemma handle_ok_unlock [simp]: "handle_ok (unlock_h h) \<longleftrightarrow> handle_ok h"
  by (rule handle_ok_cong) simp

lemma handle_ok_lock [simp]: "handle_ok (fst (lock_h h)) \<longleftrightarrow> handle_ok h"
  by (rule handle_ok_cong) simp

lemma process_status:
  "remote_lock_status (fst (process_buffered_inv_message sp h)) =
     (if remote_lock_status h = 1 then 0
      else if remote_lock_status h = 2
        then if remote_urging_type h = 1 \<and> next_inv_message_type (buffer_inv_message h) = reader_invalidate_modified then 1
             else if remote_urging_type h = 2 \<and> next_inv_message_type (buffer_inv_message h) = writer_invalidate_modified then 0
             else 2
      else remote_lock_status h)"
  by (simp add: process_buffered_inv_message_def release_shared_for_writer_def Let_def)

lemma handle_ok_process [simp]:
  "remote_lock_status h \<in> {0, 1, 2} \<Longrightarrow> handle_ok (fst (process_buffered_inv_message sp h))"
proof -
  assume "remote_lock_status h \<in> {0, 1, 2}"
  then have "remote_lock_status (fst (process_buffered_inv_message sp h)) \<in> {0, 1, 2}"
    by (simp only: process_status) auto
  then show ?thesis
    by (simp add: process_buffered_inv_message_def case_prod_unfold Let_def)
qed

lemma handle_ok_shared_handler:
  assumes "handle_ok h" "request_ok writer_invalidate_shared r" "Writer_Inv_Shared_handler r (Some h) = (Some h', as)"
  shows "handle_ok h'"
proof -
  obtain h1 ok where l: "lock_h h = (h1, ok)" by (cases "lock_h h")
  then have h1: "handle_ok h1" "remote_lock_status h1 = remote_lock_status h"
    using handle_ok_lock [of h] status_frame(5) [of h] assms(1) by simp_all
  have p: "handle_ok (fst (process_buffered_inv_message False (buffer_request r 2 h1)))" if "remote_lock_status h1 = 1"
    using that by (intro handle_ok_process) simp
  show ?thesis
    using assms(2,3) h1 p handle_ok_buffer_request(1) [OF assms(2), of h1]
    by (auto simp: Writer_Inv_Shared_handler_def Writer_Inv_Shared_receive_def l Let_def case_prod_unfold split: if_splits)
qed

lemma handle_ok_modified_handler:
  assumes "handle_ok h" "Modified_handler quiet u r (Some h) = (Some h', as)"
    and "request_ok reader_invalidate_modified r \<and> u = 1 \<or> request_ok writer_invalidate_modified r \<and> u = 2"
  shows "handle_ok h'"
proof -
  obtain h1 ok where l: "lock_h h = (h1, ok)" by (cases "lock_h h")
  then have h1: "handle_ok h1" using handle_ok_lock [of h] assms(1) by simp
  have br: "handle_ok (buffer_request r u h2)" if "remote_lock_status h2 = 2" for h2
    using assms(3) handle_ok_buffer_request(2,3) [of r h2] that by blast
  have busy: "handle_ok (fst (Modified_busy quiet u r h1))"
    using h1 br by (auto simp: Modified_busy_def replace_buffered_def Let_def case_prod_unfold)
  have free: "handle_ok (fst (Modified_free quiet u r h1))"
    using h1 br handle_ok_status [OF h1] by (auto simp: Modified_free_def replace_buffered_def Let_def case_prod_unfold)
  let ?x = "if ok then Modified_free quiet u r h1 else Modified_busy quiet u r h1"
  have x: "handle_ok (fst ?x)" using busy free by simp
  then have "handle_ok (fst (process_buffered_inv_message False (fst ?x)))"
    by (intro handle_ok_process handle_ok_status)
  with x assms(2) show ?thesis
    by (auto simp: Modified_handler_def l Let_def case_prod_unfold split: Page_Forward_Reply_Type.splits if_splits)
qed


section \<open>Operations of a handle\<close>

datatype hop = Inv_Shared inv_request | Inv_Reader inv_request | Inv_Writer inv_request
  | Read_Pre lock_result | Read_Post | Try_Read lock_result
  | Update_Pre lock_result nat bool | Update_Post | Try_Update lock_result bool | Try_Upgrade lock_result bool
  | Upgrade_Pre lock_result bool | Write_Pre lock_result bool | Evict

definition drop_ok :: "Cache_Handle \<times> hact list \<times> bool \<Rightarrow> Cache_Handle \<times> hact list" where
  "drop_ok x = (fst x, fst (snd x))"

definition the_handle :: "Cache_Handle option \<times> hact list \<Rightarrow> (Cache_Handle \<times> hact list) option" where
  "the_handle x = map_option (\<lambda>h. (h, snd x)) (fst x)"

fun run_hop :: "hop \<Rightarrow> Cache_Handle \<Rightarrow> (Cache_Handle \<times> hact list) option" where
  "run_hop (Inv_Shared r) h = the_handle (Writer_Inv_Shared_handler r (Some h))"
| "run_hop (Inv_Reader r) h = the_handle (Reader_Inv_Modified_handler r (Some h))"
| "run_hop (Inv_Writer r) h = the_handle (Writer_Inv_Modified_handler r (Some h))"
| "run_hop (Read_Pre res) h = reader_pre_access res h"
| "run_hop Read_Post h = reader_post_access h"
| "run_hop (Try_Read res) h = Some (drop_ok (try_reader_pre_access res h))"
| "run_hop (Update_Pre res sv upd) h = updater_pre_access res sv upd h"
| "run_hop Update_Post h = Some (updater_writer_post_access h)"
| "run_hop (Try_Update res upd) h = Some (drop_ok (try_updater_pre_access res upd h))"
| "run_hop (Try_Upgrade res upd) h = Some (drop_ok (try_upgrade_pre_access res upd h))"
| "run_hop (Upgrade_Pre res upd) h = upgrade_pre_access res upd h"
| "run_hop (Write_Pre res upd) h = writer_pre_access res upd h"
| "run_hop Evict h = Some (Deallocate_MR_WITH_CCP h)"

text \<open>
  Requests carry their own command, unbounded acquisitions only return
  successfully, bounded ones may give up.  The two operations that
  do not clear the buffer need it empty.
\<close>
fun hop_ok :: "hop \<Rightarrow> Cache_Handle \<Rightarrow> bool" where
  "hop_ok (Inv_Shared r) h \<longleftrightarrow> request_ok writer_invalidate_shared r"
| "hop_ok (Inv_Reader r) h \<longleftrightarrow> request_ok reader_invalidate_modified r"
| "hop_ok (Inv_Writer r) h \<longleftrightarrow> request_ok writer_invalidate_modified r"
| "hop_ok (Read_Pre res) h \<longleftrightarrow> res = Acquired \<or> res = Forwarded"
| "hop_ok (Try_Read res) h \<longleftrightarrow> res \<noteq> Running"
| "hop_ok (Update_Pre res sv upd) h \<longleftrightarrow> res = Acquired \<or> res = Forwarded"
| "hop_ok (Try_Update res upd) h \<longleftrightarrow> res \<noteq> Running"
| "hop_ok (Try_Upgrade res upd) h \<longleftrightarrow> res \<noteq> Running"
| "hop_ok (Upgrade_Pre res upd) h \<longleftrightarrow> (res = Acquired \<or> res = Forwarded) \<and> empty_buffer h"
| "hop_ok (Write_Pre res upd) h \<longleftrightarrow> (res = Acquired \<or> res = Forwarded) \<and> empty_buffer h"
| "hop_ok _ h \<longleftrightarrow> True"

lemma urged_view:
  "urged_lock_shared h = Some h' \<Longrightarrow> same_view h h'"
  "urged_lock h = Some h' \<Longrightarrow> same_view h h'"
  by (auto simp: urged_lock_shared_def urged_lock_def same_view_def split: if_splits option.splits)

lemma same_view_ok: "same_view h h' \<Longrightarrow> handle_ok h \<Longrightarrow> handle_ok h'"
  using handle_ok_cong by blast

lemma same_view_simps:
  "same_view h h' \<Longrightarrow> remote_lock_status h' = remote_lock_status h"
  "same_view h h' \<Longrightarrow> empty_buffer h' \<longleftrightarrow> empty_buffer h"
  by (simp_all add: same_view_def empty_buffer_def)

lemma handle_ok_set_status:
  assumes "handle_ok h" "empty_buffer h" "n \<in> {0, 1, 2}" "remote_lock_status h' = n"
    "buffer_inv_message h' = buffer_inv_message h" "remote_urging_type h' = remote_urging_type h"
  shows "handle_ok h'"
  using assms by (auto simp: handle_ok_def empty_buffer_def split: RDMA_Command_Type.splits)

lemma empty_buffer_simps [simp]:
  "empty_buffer (clear_pending_inv_states h)" "empty_buffer (h\<lparr>remote_lock_status := n\<rparr>) \<longleftrightarrow> empty_buffer h"
  "empty_buffer (h\<lparr>last_writer_starvation_priority := m\<rparr>) \<longleftrightarrow> empty_buffer h"
  by (simp_all add: empty_buffer_def clear_pending_inv_states_def ClearStates_def)

lemma clear_set_status [simp]:
  "(clear_pending_inv_states h)\<lparr>remote_lock_status := n\<rparr> = clear_pending_inv_states (h\<lparr>remote_lock_status := n\<rparr>)"
  by (cases h) (simp add: clear_pending_inv_states_def)

lemma handle_ok_starv [simp]:
  "handle_ok (h\<lparr>last_writer_starvation_priority := m\<rparr>) \<longleftrightarrow> handle_ok h"
  "handle_ok (h\<lparr>last_writer_starvation_priority := m, remote_lock_status := n\<rparr>) \<longleftrightarrow> handle_ok (h\<lparr>remote_lock_status := n\<rparr>)"
  by (rule handle_ok_cong, simp add: same_view_def)+

lemma handle_ok_counters [simp]:
  "handle_ok (h\<lparr>rw_mtx := w\<rparr>) \<longleftrightarrow> handle_ok h" "handle_ok (h\<lparr>read_lock_counter := c\<rparr>) \<longleftrightarrow> handle_ok h"
  "handle_ok (h\<lparr>write_lock_counter := c\<rparr>) \<longleftrightarrow> handle_ok h"
  "handle_ok (h\<lparr>read_lock_counter := c, remote_lock_status := n\<rparr>) \<longleftrightarrow> handle_ok (h\<lparr>remote_lock_status := n\<rparr>)"
  by (rule handle_ok_cong, simp add: same_view_def)+

lemma handle_ok_cleared:
  assumes "handle_ok h" "n \<in> {0, 1, 2}" "g = h \<or> g = h\<lparr>remote_lock_status := m\<rparr>"
  shows "handle_ok ((if empty_buffer g then g else clear_pending_inv_states g)\<lparr>remote_lock_status := n\<rparr>)"
proof (cases "empty_buffer h")
  case True
  with assms show ?thesis
    by (intro handle_ok_set_status [OF assms(1) True assms(2)]) auto
next
  case False
  with assms(2,3) show ?thesis by auto
qed

lemma fills_ok:
  assumes "handle_ok h"
  shows "handle_ok (fst (reader_fill res h))"
    and "handle_ok (fst (updater_fill res sv upd h))"
    and "handle_ok (fst (try_fill res upd h))"
    and "empty_buffer h \<Longrightarrow> handle_ok (fst (plain_fill res upd h))"
proof -
  have set: "handle_ok (h\<lparr>remote_lock_status := n\<rparr>)" if "empty_buffer h" "n \<in> {0, 1, 2}" for n
    using that by (intro handle_ok_set_status [OF assms]) auto
  have e: "remote_lock_status h = 0 \<Longrightarrow> empty_buffer h" using handle_ok_empty(4) [OF assms] .
  have view: "handle_ok (h\<lparr>rw_mtx := w\<rparr>)" for w
    by (rule same_view_ok [OF _ assms]) simp
  show "handle_ok (fst (reader_fill res h))"
    using view e by (auto simp: reader_fill_def Let_def intro: handle_ok_set_status [OF assms])
  show "handle_ok (fst (updater_fill res sv upd h))"
    using assms e set [of 2]
    by (auto simp: updater_fill_def Cache_Handle_global_Rlock_update_def Let_def)
  show "handle_ok (fst (try_fill res upd h))"
    using assms e set [of 2] set [of 0]
    by (auto simp: try_fill_def Cache_Handle_global_Rlock_update_def Let_def)
  show "handle_ok (fst (plain_fill res upd h))" if "empty_buffer h"
    using assms set [OF that] that
    by (auto simp: plain_fill_def Cache_Handle_global_Rlock_update_def Let_def)
qed

lemma urged_ok:
  assumes "handle_ok h"
  shows "urged_lock_shared h = Some h' \<Longrightarrow> handle_ok h'" and "urged_lock h = Some h' \<Longrightarrow> handle_ok h'"
    and "urged_lock h = Some h' \<Longrightarrow> empty_buffer h \<Longrightarrow> empty_buffer h'"
  using assms urged_view same_view_ok same_view_simps(2) by blast+

lemma Deallocate_MR_WITH_CCP_resets:
  assumes "remote_lock_status h \<in> {0, 1, 2}"
  shows "remote_lock_status (fst (Deallocate_MR_WITH_CCP h)) = 0"
    and "buffer_inv_message (fst (Deallocate_MR_WITH_CCP h)) = ClearStates"
    and "remote_urging_type (fst (Deallocate_MR_WITH_CCP h)) = 0"
    and "handle_ok (fst (Deallocate_MR_WITH_CCP h))"
proof -
  let ?p = "if next_holder_id (buffer_inv_message h) \<noteq> Invalid_Node_ID then process_buffered_inv_message False h else (h, [])"
  have "remote_lock_status (fst ?p) \<in> {0, 1, 2}" using assms by (auto simp: process_status)
  then show "remote_lock_status (fst (Deallocate_MR_WITH_CCP h)) = 0"
    "buffer_inv_message (fst (Deallocate_MR_WITH_CCP h)) = ClearStates"
    "remote_urging_type (fst (Deallocate_MR_WITH_CCP h)) = 0"
    by (auto simp: Deallocate_MR_WITH_CCP_def Let_def case_prod_unfold clear_pending_inv_states_def)
  then show "handle_ok (fst (Deallocate_MR_WITH_CCP h))"
    by (simp add: handle_ok_def ClearStates_def empty_buffer_def)
qed

lemma handle_ok_step:
  assumes "handle_ok h" "hop_ok op h" "run_hop op h = Some (h', as)"
  shows "handle_ok h'"
proof -
  have rw: "handle_ok (h\<lparr>rw_mtx := w\<rparr>)" for w by (rule same_view_ok [OF _ assms(1)]) simp
  have st: "remote_lock_status g \<in> {0, 1, 2}" if "handle_ok g" for g using handle_ok_status that .
  show ?thesis
  proof (cases op)
    case (Inv_Shared r)
    then show ?thesis using assms handle_ok_shared_handler
      by (auto simp: the_handle_def prod_eq_iff)
  next
    case (Inv_Reader r)
    then show ?thesis using assms handle_ok_modified_handler [OF assms(1), of dropped 1 r]
      by (auto simp: the_handle_def Reader_Inv_Modified_handler_def prod_eq_iff)
  next
    case (Inv_Writer r)
    then show ?thesis using assms handle_ok_modified_handler [OF assms(1), of ignored 2 r]
      by (auto simp: the_handle_def Writer_Inv_Modified_handler_def prod_eq_iff)
  next
    case (Read_Pre res)
    then obtain h1 where u: "urged_lock_shared h = Some h1" and h1: "handle_ok h1"
      using assms urged_ok(1) [OF assms(1)] by (auto simp: reader_pre_access_def split: option.splits)
    have "handle_ok (fst (reader_fill res (h1\<lparr>rw_mtx := w\<rparr>)))" for w
      by (rule fills_ok) (rule same_view_ok [OF _ h1], simp)
    with Read_Pre assms u h1 show ?thesis
      by (auto simp: reader_pre_access_def prod_eq_iff split: option.splits if_splits)
  next
    case Read_Post
    have "handle_ok (fst (process_buffered_inv_message True (h\<lparr>rw_mtx := w\<rparr>)))" for w
      by (rule handle_ok_process) (use st [OF assms(1)] in simp)
    with Read_Post assms rw show ?thesis
      by (auto simp: reader_post_access_def Let_def case_prod_unfold split: option.splits if_splits)
  next
    case (Try_Read res)
    have "handle_ok (h\<lparr>remote_lock_status := 1\<rparr>)" if "remote_lock_status h = 0"
      by (rule handle_ok_set_status [OF assms(1) handle_ok_empty(4) [OF assms(1) that], of 1]) simp_all
    with Try_Read assms show ?thesis
      by (auto simp: try_reader_pre_access_def drop_ok_def Let_def case_prod_unfold split: option.splits if_splits)
  next
    case (Update_Pre res sv upd)
    then obtain h1 where u: "urged_lock h = Some h1" and h1: "handle_ok h1"
      using assms urged_ok(2) [OF assms(1)] by (auto simp: updater_pre_access_def)
    with Update_Pre assms fills_ok(2) [OF h1] show ?thesis
      by (auto simp: updater_pre_access_def prod_eq_iff)
  next
    case Update_Post
    have "handle_ok (fst (process_buffered_inv_message True h))"
      by (rule handle_ok_process [OF st [OF assms(1)]])
    with Update_Post assms show ?thesis
      by (auto simp: updater_writer_post_access_def Let_def case_prod_unfold split: if_splits)
  next
    case (Try_Update res upd)
    then show ?thesis using assms
      by (auto simp: try_updater_pre_access_def drop_ok_def Let_def case_prod_unfold intro!: fills_ok(3) split: if_splits)
  next
    case (Try_Upgrade res upd)
    then show ?thesis using assms
      by (auto simp: try_upgrade_pre_access_def drop_ok_def intro!: fills_ok(3) split: option.splits)
  next
    case (Upgrade_Pre res upd)
    let ?g = "h\<lparr>rw_mtx := unlock_shared (rw_mtx h)\<rparr>"
    have "empty_buffer ?g" using Upgrade_Pre assms(2) by (simp add: empty_buffer_def)
    then obtain h1 where u: "urged_lock ?g = Some h1" and h1: "handle_ok h1" "empty_buffer h1"
      using Upgrade_Pre assms(3) urged_ok(2,3) [OF rw] by (auto simp: upgrade_pre_access_def)
    with Upgrade_Pre assms fills_ok(4) [OF h1] show ?thesis
      by (auto simp: upgrade_pre_access_def prod_eq_iff)
  next
    case (Write_Pre res upd)
    then obtain h1 where u: "urged_lock h = Some h1" and h1: "handle_ok h1" "empty_buffer h1"
      using assms urged_ok(2,3) [OF assms(1)] by (auto simp: writer_pre_access_def)
    with Write_Pre assms fills_ok(4) [OF h1] show ?thesis
      by (auto simp: writer_pre_access_def prod_eq_iff)
  next
    case Evict
    then show ?thesis
      using assms(3) Deallocate_MR_WITH_CCP_resets(4) [OF st [OF assms(1)]] by simp
  qed
qed



definition demo_handle :: Cache_Handle where
  "demo_handle = \<lparr>remote_lock_status = 2, lock_pending_num = 0, reader_spin_time = 0,
     last_writer_starvation_priority = 0, read_lock_counter = 0, write_lock_counter = 0,
     remote_urging_type = 0, buffer_inv_message = ClearStates, rw_mtx = 1\<rparr>"

definition demo_request :: "RDMA_Command_Type \<Rightarrow> nat \<Rightarrow> inv_request" where
  "demo_request cmd n = \<lparr>rq_from = n, rq_msg = \<lparr>im_command = cmd, im_target = 0, im_page = GlobalAddress_Null,
     im_level = 1, im_reminder = False, im_buffer = 4096, im_rkey = 0\<rparr>\<rparr>"



section \<open>The latch status accounts for the latch word\<close>

definition claim :: "nat \<Rightarrow> nat \<Rightarrow> u64" where
  "claim me status = (if status = 1 then shared_bit me else if status = 2 then excl me else 0)"

text \<open>What an action adds to the latch word, what it grants to another node, and what another node granted.\<close>
fun hdelta :: "nat \<Rightarrow> hact \<Rightarrow> u64" where
  "hdelta me (HReleaseShared async) = faa_sum (fst (global_RUnlock me async 0))"
| "hdelta me HReleaseExcl = - excl me"
| "hdelta me (HDowngrade j) = shared_bit me + shared_bit j - excl me"
| "hdelta me (HHandover j) = excl j - excl me"
| "hdelta me (HAcquireShared res) = (if res = Acquired then shared_bit me else 0)"
| "hdelta me (HAcquireExcl res) = (if res = Acquired then excl me else 0)"
| "hdelta me (HUpgrade ok) = (if ok then excl me - shared_bit me else - shared_bit me)"
| "hdelta me _ = 0"

fun granted :: "hact \<Rightarrow> u64" where
  "granted (HDowngrade j) = shared_bit j"
| "granted (HHandover j) = excl j"
| "granted _ = 0"

fun received :: "nat \<Rightarrow> hact \<Rightarrow> u64" where
  "received me (HAcquireShared Forwarded) = shared_bit me"
| "received me (HAcquireExcl Forwarded) = excl me"
| "received me _ = 0"

definition balance :: "nat \<Rightarrow> hact list \<Rightarrow> u64" where
  "balance me as = (\<Sum>a\<leftarrow>as. hdelta me a + received me a - granted a)"

lemma balance_simps [simp]:
  "balance me [] = 0" "balance me (a # as) = hdelta me a + received me a - granted a + balance me as"
  "balance me (as @ bs) = balance me as + balance me bs"
  by (simp_all add: balance_def)

text \<open>The latch effect of each action is that of the operation of \<open>Write_Back\<close> and \<open>Latch\<close> it stands for.\<close>
lemma hdelta_ops:
  "hdelta k (HDowngrade j) = latch_delta (fst (global_write_page_and_WdowntoR_Async k j mode gs counter pb g sz la))"
  "hdelta k (HHandover j) = latch_delta (fst (global_WHandover k j async gs counter g la))"
  "hdelta k (HReleaseShared async) = faa_sum (fst (global_RUnlock k async counter))"
  "hdelta k HReleaseExcl = latch_delta (fst (global_write_page_and_Wunlock_Async k mode gs counter pb g sz la))"
  by simp_all

definition balanced :: "nat \<Rightarrow> Cache_Handle \<Rightarrow> Cache_Handle \<times> hact list \<Rightarrow> bool" where
  "balanced me h r \<longleftrightarrow> balance me (snd r) = claim me (remote_lock_status (fst r)) - claim me (remote_lock_status h)"

lemma balanced_process: "balanced me h (process_buffered_inv_message sp h)"
  by (auto simp: balanced_def process_buffered_inv_message_def release_shared_for_writer_def Let_def claim_def)


lemma balanced_shared_handler:
  assumes "handle_ok h" "Writer_Inv_Shared_handler r (Some h) = (Some h', as)"
  shows "balanced me h (h', as)"
proof -
  obtain h1 ok where l: "lock_h h = (h1, ok)" by (cases "lock_h h")
  then have st: "remote_lock_status h1 = remote_lock_status h" using status_frame(5) [of h] by simp
  show ?thesis
    using assms(2) st balanced_process [of me "buffer_request r 2 h1" False]
    by (auto simp: Writer_Inv_Shared_handler_def Writer_Inv_Shared_receive_def l Let_def case_prod_unfold balanced_def
        split: if_splits)
qed

lemma balance_replies: "balance me (snd (replace_buffered r u h)) = 0"
  by (simp add: replace_buffered_def drop_buffered_inv_message_def Let_def)

lemma balanced_modified_handler:
  assumes "Modified_handler quiet u r (Some h) = (Some h', as)"
  shows "balanced me h (h', as)"
proof -
  obtain h1 ok where l: "lock_h h = (h1, ok)" by (cases "lock_h h")
  then have st: "remote_lock_status h1 = remote_lock_status h" using status_frame(5) [of h] by simp
  obtain h2 cs ty where x: "(if ok then Modified_free quiet u r h1 else Modified_busy quiet u r h1) = (h2, cs, ty)"
    using prod_cases3 by blast
  have h2: "balanced me h (h2, cs)"
    using x st balanced_process [of me h1 False] balance_replies [of me r u h1] status_frame(6) [of r u h1]
    by (auto simp: Modified_free_def Modified_busy_def balanced_def Let_def case_prod_unfold split: if_splits)
  obtain h3 bs where p: "process_buffered_inv_message False h2 = (h3, bs)"
    by (cases "process_buffered_inv_message False h2")
  have "(case ty of processed \<Rightarrow> (Some (unlock_h h3), cs @ bs)
      | pending \<Rightarrow> (Some h2, cs @ [HReply (rq_from r) (flag_addr (im_buffer (rq_msg r))) (im_rkey (rq_msg r)) pending])
      | dropped \<Rightarrow> (Some h2, cs @ (if im_reminder (rq_msg r) then []
          else [HReply (rq_from r) (flag_addr (im_buffer (rq_msg r))) (im_rkey (rq_msg r)) dropped]))
      | _ \<Rightarrow> (Some h2, cs)) = (Some h', as)"
    using assms by (simp add: Modified_handler_def l x p Let_def)
  then show ?thesis
    using h2 balanced_process [of me h2 False]
    by (auto simp: p balanced_def split: Page_Forward_Reply_Type.splits if_splits)
qed

lemma balanced_fills:
  assumes "remote_lock_status h \<in> {0, 1, 2}"
  shows "res = Acquired \<or> res = Forwarded \<Longrightarrow> balanced me h (reader_fill res h)"
    and "res = Acquired \<or> res = Forwarded \<Longrightarrow> balanced me h (updater_fill res sv upd h)"
    and "res = Acquired \<or> res = Forwarded \<Longrightarrow> balanced me h (plain_fill res upd h)"
    and "res \<noteq> Running \<Longrightarrow> balanced me h (drop_ok (try_fill res upd h))"
proof -
  show "balanced me h (reader_fill res h)" if "res = Acquired \<or> res = Forwarded"
    using assms that by (auto simp: balanced_def reader_fill_def Let_def claim_def)
  show "balanced me h (updater_fill res sv upd h)" if "res = Acquired \<or> res = Forwarded"
    using assms that by (auto simp: balanced_def updater_fill_def Let_def claim_def Cache_Handle_global_Rlock_update_def)
  show "balanced me h (plain_fill res upd h)" if "res = Acquired \<or> res = Forwarded"
    using assms that by (auto simp: balanced_def plain_fill_def Let_def claim_def Cache_Handle_global_Rlock_update_def)
  show "balanced me h (drop_ok (try_fill res upd h))" if "res \<noteq> Running"
    using assms that
    by (cases res) (auto simp: balanced_def drop_ok_def try_fill_def Let_def claim_def Cache_Handle_global_Rlock_update_def)
qed


lemma balanced_view:
  assumes "balanced me g r" "remote_lock_status g = remote_lock_status h"
  shows "balanced me h r"
  using assms by (simp add: balanced_def)

lemma balanced_Deallocate:
  assumes "remote_lock_status h \<in> {0, 1, 2}"
  shows "balanced me h (Deallocate_MR_WITH_CCP h)"
proof -
  let ?p = "if next_holder_id (buffer_inv_message h) \<noteq> Invalid_Node_ID then process_buffered_inv_message False h else (h, [])"
  have "balanced me h ?p" using balanced_process by (simp add: balanced_def)
  moreover have "remote_lock_status (fst ?p) \<in> {0, 1, 2}" using assms by (auto simp: process_status)
  ultimately show ?thesis
    by (auto simp: Deallocate_MR_WITH_CCP_def balanced_def Let_def case_prod_unfold claim_def)
qed

lemma balanced_step:
  assumes "remote_lock_status h \<in> {0, 1, 2}" "hop_ok op h" "run_hop op h = Some r"
    "handle_ok h"
  shows "balanced me h r"
proof (cases op)
  case (Inv_Shared q)
  with assms(3) have "Writer_Inv_Shared_handler q (Some h) = (Some (fst r), snd r)"
    by (auto simp: the_handle_def prod_eq_iff)
  from balanced_shared_handler [OF assms(4) this] show ?thesis by simp
next
  case (Inv_Reader q)
  with assms(3) have "Modified_handler dropped 1 q (Some h) = (Some (fst r), snd r)"
    by (auto simp: the_handle_def Reader_Inv_Modified_handler_def prod_eq_iff)
  from balanced_modified_handler [OF this] show ?thesis by simp
next
  case (Inv_Writer q)
  with assms(3) have "Modified_handler ignored 2 q (Some h) = (Some (fst r), snd r)"
    by (auto simp: the_handle_def Writer_Inv_Modified_handler_def prod_eq_iff)
  from balanced_modified_handler [OF this] show ?thesis by simp
next
  case (Read_Pre res)
  then obtain h1 where u: "urged_lock_shared h = Some h1"
    using assms(3) by (auto simp: reader_pre_access_def split: option.splits)
  note st = same_view_simps(1) [OF urged_view(1) [OF u]]
  have "balanced me h (reader_fill res (h1\<lparr>rw_mtx := w\<rparr>))" for w
    using assms(1,2) st Read_Pre by (intro balanced_view [OF balanced_fills(1)]) auto
  then show ?thesis
    using Read_Pre assms(3) u st by (auto simp: reader_pre_access_def balanced_def split: option.splits if_splits)
next
  case Read_Post
  have "balanced me h (process_buffered_inv_message True (h\<lparr>rw_mtx := w\<rparr>))" for w
    by (intro balanced_view [OF balanced_process]) simp
  then show ?thesis
    using Read_Post assms(3)
    by (auto simp: reader_post_access_def balanced_def Let_def case_prod_unfold split: option.splits if_splits)
next
  case (Try_Read res)
  then show ?thesis using assms
    by (cases res) (auto simp: try_reader_pre_access_def drop_ok_def balanced_def claim_def Let_def case_prod_unfold
        split: option.splits if_splits)
next
  case (Update_Pre res sv upd)
  then obtain h1 where u: "urged_lock h = Some h1" "r = updater_fill res sv upd h1"
    using assms(3) by (auto simp: updater_pre_access_def)
  note st = same_view_simps(1) [OF urged_view(2) [OF u(1)]]
  show ?thesis
    unfolding u(2) by (rule balanced_view [OF balanced_fills(2)]) (use assms(1,2) Update_Pre st in auto)
next
  case Update_Post
  then show ?thesis
    using assms(3) balanced_process [of me h True]
    by (auto simp: updater_writer_post_access_def balanced_def Let_def case_prod_unfold split: if_splits)
next
  case (Try_Update res upd)
  have f: "balanced me h (drop_ok (try_fill res upd g))" if "remote_lock_status g = remote_lock_status h" for g
    by (rule balanced_view [OF balanced_fills(4)]) (use assms(1,2) Try_Update that in auto)
  have "balanced me h (drop_ok (g, [], False))" if "remote_lock_status g = remote_lock_status h" for g
    using that by (simp add: balanced_def drop_ok_def)
  with f Try_Update assms(3) show ?thesis
    by (cases "try_lock (rw_mtx h)") (auto simp: try_updater_pre_access_def)
next
  case (Try_Upgrade res upd)
  have f: "balanced me h (drop_ok (try_fill res upd g))" if "remote_lock_status g = remote_lock_status h" for g
    by (rule balanced_view [OF balanced_fills(4)]) (use assms(1,2) Try_Upgrade that in auto)
  have "balanced me h (drop_ok (h, [], False))"
    by (simp add: balanced_def drop_ok_def)
  with f Try_Upgrade assms(3) show ?thesis
    by (auto simp: try_upgrade_pre_access_def split: option.splits)
next
  case (Upgrade_Pre res upd)
  then obtain h1 where u: "urged_lock (h\<lparr>rw_mtx := unlock_shared (rw_mtx h)\<rparr>) = Some h1" "r = plain_fill res upd h1"
    using assms(3) by (auto simp: upgrade_pre_access_def)
  have st: "remote_lock_status h1 = remote_lock_status h"
    using same_view_simps(1) [OF urged_view(2) [OF u(1)]] by simp
  show ?thesis
    unfolding u(2) by (rule balanced_view [OF balanced_fills(3)]) (use assms(1,2) Upgrade_Pre st in auto)
next
  case (Write_Pre res upd)
  then obtain h1 where u: "urged_lock h = Some h1" "r = plain_fill res upd h1"
    using assms(3) by (auto simp: writer_pre_access_def)
  note st = same_view_simps(1) [OF urged_view(2) [OF u(1)]]
  show ?thesis
    unfolding u(2) by (rule balanced_view [OF balanced_fills(3)]) (use assms(1,2) Write_Pre st in auto)
next
  case Evict
  then show ?thesis
    using assms(3) balanced_Deallocate [OF handle_ok_status [OF assms(4)]] by simp
qed


text \<open>
  The latch status of a cached page accounts for the latch word: whatever an operation adds to
  the word, plus what other nodes granted it by forwarding, minus
  what it granted to others, is the difference between the claims of the status before and
  after (nothing, one reader bit, or the exclusive value).
\<close>
theorem handle_accounts_latch:
  assumes "handle_ok h" "hop_ok op h" "run_hop op h = Some (h', as)"
  shows "balance me as = claim me (remote_lock_status h') - claim me (remote_lock_status h)"
  using balanced_step [OF handle_ok_status [OF assms(1)] assms(2,3,1), of me] by (simp add: balanced_def)

theorem handle_accounts_latch_witness:
  "\<exists>h' as. run_hop (Update_Pre Acquired 0 False) (demo_handle\<lparr>remote_lock_status := 1, rw_mtx := 0\<rparr>) = Some (h', as)
     \<and> as = [HUpgrade False, HAcquireExcl Acquired] \<and> balance 4 as = excl 4 - shared_bit 4"
proof -
  let ?h = "demo_handle\<lparr>remote_lock_status := 1, rw_mtx := 0\<rparr>"
  have "rw_lock 0 = Some 1" by code_simp
  then obtain h' where run: "run_hop (Update_Pre Acquired 0 False) ?h = Some (h', [HUpgrade False, HAcquireExcl Acquired])"
    and st: "remote_lock_status h' = 2"
    by (simp add: updater_pre_access_def urged_lock_def updater_fill_def Cache_Handle_global_Rlock_update_def
        demo_handle_def empty_buffer_def ClearStates_def)
  have ok: "handle_ok ?h" "hop_ok (Update_Pre Acquired 0 False) ?h"
    by (simp_all add: handle_ok_def demo_handle_def ClearStates_def empty_buffer_def)
  show ?thesis
    using run st handle_accounts_latch [OF ok run, of 4] by (simp add: claim_def demo_handle_def)
qed


section \<open>Every request is answered\<close>

definition answers :: "inv_request \<Rightarrow> hact \<Rightarrow> bool" where
  "answers r a = (case a of
      HReply n b k t \<Rightarrow> n = rq_from r \<and> b = flag_addr (im_buffer (rq_msg r))
    | HForward n b k \<Rightarrow> n = rq_from r \<and> b = im_buffer (rq_msg r)
    | _ \<Rightarrow> False)"

lemma answers_simps [simp]:
  "answers r (HReply (rq_from r) (flag_addr (im_buffer (rq_msg r))) k t)"
  "answers r (HForward (rq_from r) (im_buffer (rq_msg r)) k)"
  "\<not> answers r (HDowngrade j)" "\<not> answers r (HHandover j)" "\<not> answers r (HReleaseShared async)" "\<not> answers r (HSpin d)"
  "n \<noteq> rq_from r \<Longrightarrow> \<not> answers r (HReply n b k t)" "n \<noteq> rq_from r \<Longrightarrow> \<not> answers r (HForward n b k)"
  by (simp_all add: answers_def)

lemma replace_no_answer:
  assumes "next_holder_id (buffer_inv_message h) \<noteq> rq_from r"
  shows "filter (answers r) (snd (replace_buffered r u h)) = []"
  using assms by (simp add: replace_buffered_def drop_buffered_inv_message_def Let_def)

lemma process_no_answer:
  assumes "next_holder_id (buffer_inv_message h) \<noteq> rq_from r"
  shows "filter (answers r) (snd (process_buffered_inv_message sp h)) = []"
  using assms by (simp add: process_buffered_inv_message_def release_shared_for_writer_def Let_def)

lemma process_answers:
  assumes "remote_lock_status h = 2"
    and "request_ok reader_invalidate_modified r \<and> u = 1 \<or> request_ok writer_invalidate_modified r \<and> u = 2"
  shows "length (filter (answers r) (snd (process_buffered_inv_message sp (fst (replace_buffered r u h))))) = 1"
  using assms
  by (auto simp: process_buffered_inv_message_def replace_buffered_def buffer_request_def SetStates_def request_ok_def
      drop_buffered_inv_message_def Let_def case_prod_unfold)

lemma lock_h_buffer: "buffer_inv_message (fst (lock_h h)) = buffer_inv_message h"
  by (simp add: lock_h_def Let_def case_prod_unfold)

lemma modified_handler_answers:
  assumes "request_ok reader_invalidate_modified r \<and> u = 1 \<or> request_ok writer_invalidate_modified r \<and> u = 2"
    and "\<not> im_reminder (rq_msg r)" "next_holder_id (buffer_inv_message h) \<noteq> rq_from r"
  shows "length (filter (answers r) (snd (Modified_handler quiet u r (Some h)))) = 1"
proof -
  obtain h1 ok where l: "lock_h h = (h1, ok)" by (cases "lock_h h")
  then have n: "next_holder_id (buffer_inv_message h1) \<noteq> rq_from r"
    using assms(3) lock_h_buffer [of h] by simp
  note rep = replace_no_answer [OF n, of u] and pro = process_no_answer [OF n]
  note ans = process_answers [OF _ assms(1), of h1 False]
  show ?thesis
  proof (cases ok)
    case True
    then show ?thesis
      using assms(2) rep pro ans
      by (simp add: Modified_handler_def l Modified_free_def Let_def case_prod_unfold)
  next
    case False
    then show ?thesis
      using assms(2) rep
      by (simp add: Modified_handler_def l Modified_busy_def Let_def case_prod_unfold)
  qed
qed

text \<open>
  A request for a modified page gets exactly one answer from the handler, in the
  requester's page buffer: the page itself, or a dropped or pending flag, also when the
  page is not cached; and a shared-copy request is answered in its reply slot.
\<close>
theorem requests_answered:
  assumes "\<not> im_reminder (rq_msg r)" "\<And>h. ho = Some h \<Longrightarrow> next_holder_id (buffer_inv_message h) \<noteq> rq_from r"
  shows "(request_ok reader_invalidate_modified r \<longrightarrow> length (filter (answers r) (snd (Reader_Inv_Modified_handler r ho))) = 1)
    \<and> (request_ok writer_invalidate_modified r \<longrightarrow> length (filter (answers r) (snd (Writer_Inv_Modified_handler r ho))) = 1)
    \<and> (\<exists>t. last (snd (Writer_Inv_Shared_handler r ho)) = HReply (rq_from r) (im_buffer (rq_msg r)) (im_rkey (rq_msg r)) t)"
proof (cases ho)
  case None
  then show ?thesis
    using assms(1)
    by (simp add: Reader_Inv_Modified_handler_def Writer_Inv_Modified_handler_def Modified_handler_def
        Writer_Inv_Shared_handler_def)
next
  case (Some h)
  have "\<exists>t. last (snd (Writer_Inv_Shared_handler r (Some h))) = HReply (rq_from r) (im_buffer (rq_msg r)) (im_rkey (rq_msg r)) t"
    by (auto simp: Writer_Inv_Shared_handler_def Let_def split: prod.splits)
  then show ?thesis
    using modified_handler_answers [OF _ assms(1) assms(2) [OF Some], of 1 dropped]
      modified_handler_answers [OF _ assms(1) assms(2) [OF Some], of 2 ignored]
    by (simp add: Some Reader_Inv_Modified_handler_def Writer_Inv_Modified_handler_def)
qed

theorem requests_answered_witness:
  "length (filter (answers (demo_request reader_invalidate_modified 6))
     (snd (Reader_Inv_Modified_handler (demo_request reader_invalidate_modified 6) (Some demo_handle)))) = 1"
  using requests_answered [of "demo_request reader_invalidate_modified 6" "Some demo_handle"]
  by (simp add: demo_request_def demo_handle_def ClearStates_def request_ok_def Invalid_Node_ID_def)


section \<open>A request that survives an upgrade\<close>

lemma stale_drop:
  assumes "remote_lock_status h = 2" "\<not> empty_buffer h" "\<not> im_reminder (rq_msg r)"
    "starvation_priority (buffer_inv_message h) < im_level (rq_msg r)"
  shows "HReply (next_holder_id (buffer_inv_message h)) (flag_addr (next_receive_page_buf (buffer_inv_message h)))
      (next_receive_rkey (buffer_inv_message h)) dropped \<in> set (snd (Writer_Inv_Modified_handler r (Some h)))"
proof -
  obtain h1 ok where l: "lock_h h = (h1, ok)" by (cases "lock_h h")
  then have h1: "buffer_inv_message h1 = buffer_inv_message h" "remote_lock_status h1 = 2" "\<not> empty_buffer h1"
    using lock_h_buffer [of h] status_frame(5) [of h] assms(1,2) by (simp_all add: empty_buffer_def)
  then show ?thesis
    using assms
    by (cases ok)
      (auto simp: Writer_Inv_Modified_handler_def Modified_handler_def l Modified_free_def Modified_busy_def
        replace_buffered_def drop_buffered_inv_message_def Let_def case_prod_unfold)
qed

text \<open>
  The blind-write access keeps a request that another node had buffered for
  the shared copy when the upgrade fails: the page is then exclusive with a
  request of the wrong kind, and the next writer's request sends a flag
  almost a page behind that node's one-byte reply slot.
\<close>
theorem stale_request_after_write:
  assumes "handle_ok h" "next_inv_message_type (buffer_inv_message h) = writer_invalidate_shared"
    and "writer_pre_access Acquired False h = Some (h', as)"
    and "\<not> im_reminder (rq_msg r)" "starvation_priority (buffer_inv_message h) < im_level (rq_msg r)"
  shows "\<not> handle_ok h' \<and> HReply (next_holder_id (buffer_inv_message h))
      (next_receive_page_buf (buffer_inv_message h) + kLeafPageSize - 1) (next_receive_rkey (buffer_inv_message h)) dropped
      \<in> set (snd (Writer_Inv_Modified_handler r (Some h')))"
proof -
  have h: "remote_lock_status h = 1" "\<not> empty_buffer h"
    using assms(1,2) by (simp_all add: handle_ok_def)
  obtain h1 where u: "urged_lock h = Some h1" and f: "plain_fill Acquired False h1 = (h', as)"
    using assms(3) by (auto simp: writer_pre_access_def)
  have v: "same_view h h1" using urged_view(2) u by blast
  then have "h' = h1\<lparr>remote_lock_status := 2\<rparr>"
    using f h same_view_simps(1) [OF v] by (simp add: plain_fill_def Cache_Handle_global_Rlock_update_def)
  then have h': "remote_lock_status h' = 2" "buffer_inv_message h' = buffer_inv_message h" "\<not> empty_buffer h'"
    using v h(2) by (simp_all add: same_view_def empty_buffer_def)
  with assms(2) have "\<not> handle_ok h'" by (simp add: handle_ok_def)
  moreover have "HReply (next_holder_id (buffer_inv_message h')) (flag_addr (next_receive_page_buf (buffer_inv_message h')))
      (next_receive_rkey (buffer_inv_message h')) dropped \<in> set (snd (Writer_Inv_Modified_handler r (Some h')))"
    by (rule stale_drop) (use h' assms(4,5) in simp_all)
  ultimately show ?thesis by (simp add: h'(2) flag_addr_def)
qed

definition demo_stale :: Cache_Handle where
  "demo_stale = demo_handle\<lparr>remote_lock_status := 1, remote_urging_type := 2, rw_mtx := 0,
     buffer_inv_message := SetStates 8 512 0 0 writer_invalidate_shared\<rparr>"

theorem stale_request_after_write_witness:
  "\<exists>h' as. writer_pre_access Acquired False demo_stale = Some (h', as)
     \<and> HReply 8 (512 + kLeafPageSize - 1) 0 dropped
        \<in> set (snd (Writer_Inv_Modified_handler (demo_request writer_invalidate_modified 6) (Some h')))"
proof -
  have "rw_lock 0 = Some 1" by code_simp
  then obtain h' as where w: "writer_pre_access Acquired False demo_stale = Some (h', as)"
    by (simp add: writer_pre_access_def urged_lock_def demo_stale_def demo_handle_def handover_degree_def
        PARALLEL_DEGREE_def STARVATION_THRESHOLD_def) (metis surj_pair)
  have ok: "handle_ok demo_stale" "next_inv_message_type (buffer_inv_message demo_stale) = writer_invalidate_shared"
    by (simp_all add: handle_ok_def demo_stale_def SetStates_def empty_buffer_def Invalid_Node_ID_def)
  have "buffer_inv_message demo_stale = SetStates 8 512 0 0 writer_invalidate_shared" by (simp add: demo_stale_def)
  with stale_request_after_write [OF ok w, of "demo_request writer_invalidate_modified 6"] w show ?thesis
    by (auto simp: SetStates_def demo_request_def)
qed

end
