(* ===== verification/Handle_Table.thy ===== *)
theory Handle_Table
  imports Cache_Handle
begin

text \<open>
  The hash table of a cache shard (\<^verbatim>\<open>HandleTable\<close> of \<^verbatim>\<open>include/cache.h\<close>) and the hash function it
  is used with (\<^verbatim>\<open>utils/hash.cc\<close>).  A page handle of the cache (\<^verbatim>\<open>LRUHandle\<close>) extends a
  \<open>Cache_Handle\<close>; handles are numbered and live in a store.  The collision chain
  of a bucket, linked by \<^verbatim>\<open>next_hash\<close> in the code, is the list of its handles.  The contract of
  the table towards the cache is the locale \<open>keyed_table\<close>.
\<close>


section \<open>Handles and the hash function\<close>

record LRUHandle = Cache_Handle +
  gptr :: GlobalAddress
  refs :: nat
  hvalue :: nat
  charge :: nat
  lh_hash :: u32
  in_cache :: bool

type_synonym handles = "nat \<Rightarrow> LRUHandle"

definition hash_key :: "LRUHandle \<Rightarrow> u32 \<times> GlobalAddress" where
  "hash_key h = (lh_hash h, gptr h)"

definition hash_m :: u32 where
  "hash_m = 0xc6a4a793"

definition hash_r :: nat where
  "hash_r = 24"

fun hash_words :: "u32 \<Rightarrow> byte list \<Rightarrow> u32 \<times> byte list" where
  "hash_words h (a # b # c # d # data) =
     (let h1 = (h + le_word [a, b, c, d]) * hash_m in hash_words (h1 XOR drop_bit 16 h1) data)"
| "hash_words h data = (h, data)"

definition Hash :: "byte list \<Rightarrow> u32 \<Rightarrow> u32" where
  "Hash data seed =
     (let (h, rest) = hash_words (seed XOR (of_nat (length data) * hash_m)) data;
          h2 = (if 3 \<le> length rest then h + push_bit 16 (scast (rest ! 2)) else h);
          h1 = (if 2 \<le> length rest then h2 + push_bit 8 (scast (rest ! 1)) else h2);
          h0 = (h1 + scast (rest ! 0)) * hash_m
      in if rest = [] then h else h0 XOR drop_bit hash_r h0)"


section \<open>The table\<close>

record HandleTable =
  ht_length :: nat
  ht_elems :: nat
  ht_list :: "nat list list"

text \<open>The loop that doubles the table length in 32-bit arithmetic; it does not end (\<open>None\<close>) once the
  length has wrapped to zero.\<close>
partial_function (option) grow :: "nat \<Rightarrow> nat \<Rightarrow> nat option" where
  "grow new_length elems = (if new_length < elems then grow (new_length * 2 mod 2 ^ 32) elems else Some new_length)"

definition bucket :: "nat \<Rightarrow> u32 \<Rightarrow> nat" where
  "bucket len h = unat (h AND (of_nat len - 1))"

definition place :: "handles \<Rightarrow> nat \<Rightarrow> nat list list \<Rightarrow> nat \<Rightarrow> nat list list" where
  "place hs len nl h = (let i = bucket len (lh_hash (hs h)) in nl[i := h # nl ! i])"

definition Resize :: "handles \<Rightarrow> HandleTable \<Rightarrow> HandleTable option" where
  "Resize hs t =
     (case grow 4 (ht_elems t) of
        None \<Rightarrow> None
      | Some n \<Rightarrow> Some (t\<lparr>ht_length := n,
          ht_list := foldl (place hs n) (replicate n []) (concat (take (ht_length t) (ht_list t)))\<rparr>))"

definition new_table :: "handles \<Rightarrow> HandleTable option" where
  "new_table hs = Resize hs \<lparr>ht_length = 0, ht_elems = 0, ht_list = []\<rparr>"

text \<open>A pointer to a slot of a chain is the pair of the handles before the slot and from it on.\<close>
fun find_slot :: "handles \<Rightarrow> GlobalAddress \<Rightarrow> u32 \<Rightarrow> nat list \<Rightarrow> nat list \<times> nat list" where
  "find_slot hs key h [] = ([], [])"
| "find_slot hs key h (x # xs) =
     (if lh_hash (hs x) \<noteq> h \<or> key \<noteq> gptr (hs x)
      then let (pre, post) = find_slot hs key h xs in (x # pre, post)
      else ([], x # xs))"

definition FindPointer :: "handles \<Rightarrow> GlobalAddress \<Rightarrow> u32 \<Rightarrow> HandleTable \<Rightarrow> nat \<times> nat list \<times> nat list" where
  "FindPointer hs key h t = (let i = bucket (ht_length t) h in (i, find_slot hs key h (ht_list t ! i)))"

definition deref :: "nat list \<Rightarrow> nat option" where
  "deref post = (case post of [] \<Rightarrow> None | x # _ \<Rightarrow> Some x)"

definition HandleTable_Lookup :: "handles \<Rightarrow> GlobalAddress \<Rightarrow> u32 \<Rightarrow> HandleTable \<Rightarrow> nat option" where
  "HandleTable_Lookup hs key h t = (case FindPointer hs key h t of (i, pre, post) \<Rightarrow> deref post)"

definition HandleTable_Insert :: "handles \<Rightarrow> nat \<Rightarrow> HandleTable \<Rightarrow> (HandleTable \<times> nat option) option" where
  "HandleTable_Insert hs x t =
     (case FindPointer hs (gptr (hs x)) (lh_hash (hs x)) t of (i, pre, post) \<Rightarrow>
        let old = deref post; t1 = t\<lparr>ht_list := (ht_list t)[i := pre @ x # tl post]\<rparr>
        in if old = None
           then let t2 = t1\<lparr>ht_elems := (ht_elems t + 1) mod 2 ^ 32\<rparr>
                in if ht_elems t2 > ht_length t2 then map_option (\<lambda>t3. (t3, old)) (Resize hs t2) else Some (t2, old)
           else Some (t1, old))"

definition HandleTable_Remove :: "handles \<Rightarrow> GlobalAddress \<Rightarrow> u32 \<Rightarrow> HandleTable \<Rightarrow> HandleTable \<times> nat option" where
  "HandleTable_Remove hs key h t =
     (case FindPointer hs key h t of (i, pre, post) \<Rightarrow>
        let result = deref post
        in if result \<noteq> None
           then (t\<lparr>ht_list := (ht_list t)[i := pre @ tl post], ht_elems := ht_elems t - 1\<rparr>, result)
           else (t, None))"

section \<open>The contract of a keyed table\<close>

text \<open>
  What the cache relies on: a table holds a set of entries with pairwise different keys, a lookup
  finds the entry of a key, an insertion replaces the entry of the same key and returns it, and
  a removal takes it out and returns it.  An insertion needs room.
\<close>
locale keyed_table =
  fixes inv :: "'t \<Rightarrow> bool"
    and room :: "'t \<Rightarrow> bool"
    and entries :: "'t \<Rightarrow> 'e set"
    and key :: "'e \<Rightarrow> 'k"
    and look :: "'k \<Rightarrow> 't \<Rightarrow> 'e option"
    and ins :: "'e \<Rightarrow> 't \<Rightarrow> ('t \<times> 'e option) option"
    and rem :: "'k \<Rightarrow> 't \<Rightarrow> 't \<times> 'e option"
  assumes look_iff: "inv t \<Longrightarrow> look k t = Some x \<longleftrightarrow> x \<in> entries t \<and> key x = k"
    and ins_effect: "inv t \<Longrightarrow> room t \<Longrightarrow> x \<notin> entries t \<Longrightarrow>
      \<exists>t'. ins x t = Some (t', look (key x) t) \<and> inv t' \<and> entries t' = insert x {y \<in> entries t. key y \<noteq> key x}"
    and rem_effect: "inv t \<Longrightarrow>
      \<exists>t'. rem k t = (t', look k t) \<and> inv t' \<and> entries t' = {y \<in> entries t. key y \<noteq> k}"
begin

lemma look_None: "inv t \<Longrightarrow> look k t = None \<longleftrightarrow> (\<forall>x \<in> entries t. key x \<noteq> k)"
  using look_iff [of t k] by (metis not_None_eq option.distinct(1))

lemma keys_unique: "inv t \<Longrightarrow> x \<in> entries t \<Longrightarrow> y \<in> entries t \<Longrightarrow> key x = key y \<Longrightarrow> x = y"
  using look_iff [of t "key x"] by (metis option.inject)

lemma look_ins:
  assumes "inv t" "room t" "x \<notin> entries t" "ins x t = Some (t', old)"
  shows "look k t' = (if k = key x then Some x else look k t)"
proof -
  have t': "inv t'" "entries t' = insert x {y \<in> entries t. key y \<noteq> key x}"
    using ins_effect [OF assms(1-3)] assms(4) by auto
  show ?thesis
  proof (cases "k = key x")
    case True
    then show ?thesis using look_iff [OF t'(1), of k x] t'(2) by simp
  next
    case False
    then have "look k t' = Some y \<longleftrightarrow> look k t = Some y" for y
      using look_iff [OF t'(1), of k y] look_iff [OF assms(1), of k y] t'(2) by auto
    then show ?thesis using False by (metis option.exhaust)
  qed
qed

lemma look_rem:
  assumes "inv t" "rem k t = (t', r)"
  shows "look k' t' = (if k' = k then None else look k' t)"
proof -
  have t': "inv t'" "entries t' = {y \<in> entries t. key y \<noteq> k}"
    using rem_effect [OF assms(1), of k] assms(2) by auto
  have "look k' t' = Some y \<longleftrightarrow> k' \<noteq> k \<and> look k' t = Some y" for y
    using look_iff [OF t'(1), of k' y] look_iff [OF assms(1), of k' y] t'(2) by auto
  then show ?thesis by (metis option.exhaust)
qed

lemma ins_new:
  assumes "inv t" "room t" "x \<notin> entries t" "look (key x) t = None"
  shows "\<exists>t'. ins x t = Some (t', None) \<and> inv t' \<and> entries t' = insert x (entries t)"
  using ins_effect [OF assms(1-3)] assms(4) look_None [OF assms(1)] by auto

lemma rem_entry:
  assumes "inv t" "x \<in> entries t"
  shows "\<exists>t'. rem (key x) t = (t', Some x) \<and> inv t' \<and> entries t' = entries t - {x}"
proof -
  have "look (key x) t = Some x" using look_iff assms by blast
  moreover have "{y \<in> entries t. key y \<noteq> key x} = entries t - {x}"
    using keys_unique assms by blast
  ultimately show ?thesis using rem_effect [OF assms(1), of "key x"] by simp
qed

end


section \<open>The table meets the contract\<close>

definition ht_entries :: "HandleTable \<Rightarrow> nat set" where
  "ht_entries t = set (concat (ht_list t))"

definition chains_ok :: "handles \<Rightarrow> nat \<Rightarrow> nat list list \<Rightarrow> bool" where
  "chains_ok hs n l \<longleftrightarrow> length l = n
     \<and> (\<forall>i < n. distinct (l ! i) \<and> (\<forall>x \<in> set (l ! i). bucket n (lh_hash (hs x)) = i))"

definition ht_ok :: "handles \<Rightarrow> HandleTable \<Rightarrow> bool" where
  "ht_ok hs t \<longleftrightarrow> (\<exists>k. 2 \<le> k \<and> k \<le> 31 \<and> ht_length t = 2 ^ k)
     \<and> chains_ok hs (ht_length t) (ht_list t) \<and> ht_elems t = sum_list (map length (ht_list t))
     \<and> inj_on (\<lambda>x. hash_key (hs x)) (ht_entries t) \<and> ht_elems t \<le> ht_length t"

definition ht_room :: "HandleTable \<Rightarrow> bool" where
  "ht_room t \<longleftrightarrow> ht_elems t < 2 ^ 31"

lemma bucket_mod:
  assumes "k \<le> 31"
  shows "bucket (2 ^ k) h = unat h mod 2 ^ k"
proof -
  have "(of_nat (2 ^ k) - 1 :: u32) = mask k" by (simp add: mask_eq_exp_minus_1)
  then have "bucket (2 ^ k) h = unat (take_bit k h)" by (simp only: bucket_def take_bit_eq_mask)
  also have "\<dots> = take_bit k (unat h)" by (rule unsigned_take_bit_eq)
  finally show ?thesis by (simp only: take_bit_eq_mod)
qed

lemma bucket_less: "k \<le> 31 \<Longrightarrow> n = 2 ^ k \<Longrightarrow> bucket n h < n"
  using bucket_mod [of k h] by simp

lemma grow_result:
  assumes "elems \<le> 2 ^ 31" "2 \<le> k" "k \<le> 31"
  shows "\<exists>j. grow (2 ^ k) elems = Some (2 ^ j) \<and> k \<le> j \<and> j \<le> 31 \<and> elems \<le> 2 ^ j"
  using assms
proof (induction "31 - k" arbitrary: k)
  case 0
  then have "k = 31" by simp
  then show ?case using 0 by (intro exI [of _ 31], subst grow.simps) simp
next
  case (Suc d)
  show ?case
  proof (cases "2 ^ k < elems")
    case False
    then show ?thesis using Suc.prems by (subst grow.simps) auto
  next
    case True
    then have k: "k < 31" using Suc by auto
    then have "(2 :: nat) ^ Suc k \<le> 2 ^ 31" by (intro power_increasing) auto
    then have "(2 :: nat) ^ k * 2 mod 2 ^ 32 = 2 ^ Suc k" by simp
    then have "grow (2 ^ k) elems = grow (2 ^ Suc k) elems" using True by (subst grow.simps) simp
    with Suc(1) [of "Suc k"] Suc(2,3,4) k show ?thesis by force
  qed
qed

lemma distinct_chains:
  assumes "\<forall>i < length l. distinct (l ! i) \<and> (\<forall>x \<in> set (l ! i). f x = i)"
  shows "distinct (concat l)"
  using assms
proof (induction l rule: rev_induct)
  case (snoc c l)
  have l: "\<forall>i < length l. distinct (l ! i) \<and> (\<forall>x \<in> set (l ! i). f x = i)"
  proof (intro allI impI)
    fix i assume "i < length l"
    then show "distinct (l ! i) \<and> (\<forall>x \<in> set (l ! i). f x = i)"
      using snoc.prems [THEN spec, of i] by (simp add: nth_append)
  qed
  have c: "distinct c" "\<forall>x \<in> set c. f x = length l" using snoc.prems [THEN spec, of "length l"] by simp_all
  have "f x < length l" if "x \<in> set (concat l)" for x
    using that l by (auto simp: in_set_conv_nth [of _ l])
  then show ?case using snoc.IH [OF l] c by fastforce
qed simp

lemma chains_ok_distinct: "chains_ok hs n l \<Longrightarrow> distinct (concat l)"
  by (rule distinct_chains [of l "\<lambda>x. bucket n (lh_hash (hs x))"]) (simp add: chains_ok_def)

lemma ht_elems_card: "ht_ok hs t \<Longrightarrow> ht_elems t = card (ht_entries t)"
  using chains_ok_distinct [of hs "ht_length t" "ht_list t"] distinct_card [of "concat (ht_list t)"]
  by (simp add: ht_ok_def ht_entries_def length_concat)

lemma find_slot_split:
  "find_slot hs key h xs = (pre, post) \<Longrightarrow> xs = pre @ post \<and> (\<forall>x \<in> set pre. hash_key (hs x) \<noteq> (h, key))
     \<and> (post \<noteq> [] \<longrightarrow> hash_key (hs (hd post)) = (h, key))"
proof (induction xs arbitrary: pre post)
  case (Cons x xs)
  obtain a b where ab: "find_slot hs key h xs = (a, b)" by (cases "find_slot hs key h xs")
  show ?case
  proof (cases "hash_key (hs x) = (h, key)")
    case True
    then have "pre = []" "post = x # xs" using Cons.prems by (auto simp: hash_key_def)
    then show ?thesis using True by simp
  next
    case False
    then have "pre = x # a" "post = b" using Cons.prems by (auto simp: hash_key_def ab split: if_splits)
    then show ?thesis using False Cons.IH [OF ab] by simp
  qed
qed simp

lemma nth_chain_entries: "i < length (ht_list t) \<Longrightarrow> x \<in> set (ht_list t ! i) \<Longrightarrow> x \<in> ht_entries t"
  by (auto simp: ht_entries_def)

lemma entry_chain:
  assumes "chains_ok hs n l" "x \<in> set (concat l)"
  shows "bucket n (lh_hash (hs x)) < n \<and> x \<in> set (l ! bucket n (lh_hash (hs x)))"
proof -
  obtain c where "c \<in> set l" "x \<in> set c" using assms(2) by auto
  then obtain i where "i < length l" "x \<in> set (l ! i)" by (auto simp: in_set_conv_nth [of c])
  then show ?thesis using assms(1) by (auto simp: chains_ok_def)
qed

lemma entries_update:
  assumes "i < length l"
  shows "set (concat (l[i := c])) = set c \<union> (\<Union>j \<in> {..<length l} - {i}. set (l ! j))"
proof (rule set_eqI)
  fix x
  show "x \<in> set (concat (l[i := c])) \<longleftrightarrow> x \<in> set c \<union> (\<Union>j \<in> {..<length l} - {i}. set (l ! j))"
    using assms by (auto simp: set_conv_nth [of "l[i := c]"] nth_list_update split: if_splits)
qed

text \<open>The chain of a key, split at the slot of the key.\<close>
lemma FindPointer_split:
  assumes "ht_ok hs t" "FindPointer hs key h t = (i, pre, post)"
  shows "i = bucket (ht_length t) h" "i < ht_length t" "i < length (ht_list t)" "ht_list t ! i = pre @ post"
    "\<forall>x \<in> set pre. hash_key (hs x) \<noteq> (h, key)" "post \<noteq> [] \<Longrightarrow> hash_key (hs (hd post)) = (h, key)"
    "\<forall>x \<in> set (tl post). hash_key (hs x) \<noteq> (h, key)"
proof -
  show i: "i = bucket (ht_length t) h" using assms(2) by (simp add: FindPointer_def Let_def)
  show lt: "i < ht_length t" using assms(1) bucket_less unfolding i ht_ok_def by blast
  show len: "i < length (ht_list t)" using lt assms(1) by (simp add: ht_ok_def chains_ok_def)
  have f: "find_slot hs key h (ht_list t ! i) = (pre, post)"
    using assms(2) i by (simp add: FindPointer_def Let_def)
  note s = find_slot_split [OF f]
  then show c: "ht_list t ! i = pre @ post" "\<forall>x \<in> set pre. hash_key (hs x) \<noteq> (h, key)"
    and p: "post \<noteq> [] \<Longrightarrow> hash_key (hs (hd post)) = (h, key)" by blast+
  show "\<forall>x \<in> set (tl post). hash_key (hs x) \<noteq> (h, key)"
  proof
    fix x assume x: "x \<in> set (tl post)"
    then have ne: "post \<noteq> []" by auto
    have "distinct (ht_list t ! i)" using assms(1) lt by (simp add: ht_ok_def chains_ok_def)
    then have d: "distinct (pre @ post)" by (simp only: c(1))
    have "x \<noteq> hd post" using d x ne by (cases post) auto
    moreover have "x \<in> ht_entries t" "hd post \<in> ht_entries t"
      using nth_chain_entries [OF len, of x] nth_chain_entries [OF len, of "hd post"] x ne
      by (auto simp: c(1) list.set_sel)
    ultimately show "hash_key (hs x) \<noteq> (h, key)"
      using assms(1) p [OF ne] by (auto simp: ht_ok_def inj_on_def)
  qed
qed

lemma HandleTable_Lookup_iff:
  assumes "ht_ok hs t"
  shows "HandleTable_Lookup hs key h t = Some x \<longleftrightarrow> x \<in> ht_entries t \<and> hash_key (hs x) = (h, key)"
proof -
  obtain i pre post where f: "FindPointer hs key h t = (i, pre, post)" by (rule prod_cases3)
  note s = FindPointer_split [OF assms f]
  have l: "HandleTable_Lookup hs key h t = deref post" by (simp add: HandleTable_Lookup_def f)
  show ?thesis
  proof
    assume "HandleTable_Lookup hs key h t = Some x"
    then obtain ys where "post = x # ys" by (auto simp: l deref_def split: list.splits)
    then show "x \<in> ht_entries t \<and> hash_key (hs x) = (h, key)"
      using s(4,6) nth_chain_entries [OF s(3), of x] by simp
  next
    assume x: "x \<in> ht_entries t \<and> hash_key (hs x) = (h, key)"
    have "chains_ok hs (ht_length t) (ht_list t)" using assms by (simp add: ht_ok_def)
    from entry_chain [OF this, of x] x s(1,4) have "x \<in> set pre \<or> x \<in> set post"
      by (auto simp: ht_entries_def hash_key_def)
    then have "post = x # tl post" using s(5,7) x by (cases post) auto
    then show "HandleTable_Lookup hs key h t = Some x" by (metis l deref_def list.simps(5))
  qed
qed

lemma chains_ok_update:
  assumes "chains_ok hs n l" "i < n" "distinct c" "\<forall>x \<in> set c. bucket n (lh_hash (hs x)) = i"
  shows "chains_ok hs n (l[i := c])"
  using assms by (auto simp: chains_ok_def nth_list_update)

lemma length_chains_update:
  assumes "i < length l"
  shows "sum_list (map length (l[i := c])) + length (l ! i) = sum_list (map length l) + length c"
proof -
  have "length (l ! i) \<le> sum_list (map length l)"
    using assms by (intro member_le_sum_list) auto
  then show ?thesis using assms sum_list_update [of i "map length l" "length c"] by (simp add: map_update)
qed

text \<open>Replacing the slot at which \<open>FindPointer\<close> stopped.\<close>
lemma entries_replace:
  assumes "chains_ok hs n l" "i < n" "l ! i = pre @ post"
  shows "set (concat (l[i := pre @ ys @ tl post])) = set ys \<union> (set (concat l) - set (take 1 post))"
proof -
  have len: "i < length l" using assms by (simp add: chains_ok_def)
  let ?rest = "\<Union>j \<in> {..<length l} - {i}. set (l ! j)"
  have "distinct (l ! i)" using assms(1,2) by (simp add: chains_ok_def)
  then have d: "set (take 1 post) \<inter> (set pre \<union> set (tl post)) = {}"
    by (cases post) (auto simp: assms(3))
  have r: "set (l ! i) \<inter> ?rest = {}"
  proof (rule equals0I)
    fix x assume "x \<in> set (l ! i) \<inter> ?rest"
    then obtain j where "x \<in> set (l ! i)" "j < n" "j \<noteq> i" "x \<in> set (l ! j)"
      using assms(1) by (auto simp: chains_ok_def)
    then have "bucket n (lh_hash (hs x)) = i" "bucket n (lh_hash (hs x)) = j"
      using assms(1,2) unfolding chains_ok_def by blast+
    with \<open>j \<noteq> i\<close> show False by simp
  qed
  have post: "set post = set (take 1 post) \<union> set (tl post)" by (cases post) auto
  have "set (concat l) = set (l ! i) \<union> ?rest" using entries_update [OF len, of "l ! i"] by simp
  then have "set (concat l) - set (take 1 post) = set pre \<union> set (tl post) \<union> ?rest"
    using d r post by (auto simp: assms(3))
  then show ?thesis using entries_update [OF len, of "pre @ ys @ tl post"] by auto
qed

lemma place_fold:
  assumes "n = 2 ^ k" "k \<le> 31"
  shows "chains_ok hs n nl \<Longrightarrow> distinct xs \<Longrightarrow> set xs \<inter> set (concat nl) = {} \<Longrightarrow>
    chains_ok hs n (foldl (place hs n) nl xs)
    \<and> set (concat (foldl (place hs n) nl xs)) = set xs \<union> set (concat nl)
    \<and> sum_list (map length (foldl (place hs n) nl xs)) = length xs + sum_list (map length nl)"
proof (induction xs arbitrary: nl)
  case (Cons x xs)
  let ?i = "bucket n (lh_hash (hs x))"
  let ?nl = "nl[?i := x # nl ! ?i]"
  have i: "?i < n" "?i < length nl" using bucket_less [OF assms(2,1)] Cons.prems(1) by (simp_all add: chains_ok_def)
  have x: "x \<notin> set (nl ! ?i)" using Cons.prems(3) i(2) by auto
  have e: "set (concat ?nl) = insert x (set (concat nl))"
    using entries_update [OF i(2), of "x # nl ! ?i"] entries_update [OF i(2), of "nl ! ?i"] by simp
  have c: "chains_ok hs n ?nl"
    using Cons.prems(1) i x by (intro chains_ok_update) (auto simp: chains_ok_def)
  have l: "sum_list (map length ?nl) = Suc (sum_list (map length nl))"
    using length_chains_update [OF i(2), of "x # nl ! ?i"] by simp
  have "set xs \<inter> set (concat ?nl) = {}" using Cons.prems(2,3) unfolding e by auto
  from Cons.IH [OF c _ this] Cons.prems(2) e l show ?case by (simp add: place_def Let_def)
qed simp

lemma Resize_effect:
  assumes "chains_ok hs (ht_length t) (ht_list t)" "ht_elems t = sum_list (map length (ht_list t))"
    and "inj_on (\<lambda>x. hash_key (hs x)) (ht_entries t)" "ht_elems t \<le> 2 ^ 31"
  shows "\<exists>t'. Resize hs t = Some t' \<and> ht_ok hs t' \<and> ht_entries t' = ht_entries t \<and> ht_elems t' = ht_elems t"
proof -
  obtain j where j: "grow 4 (ht_elems t) = Some (2 ^ j)" "2 \<le> j" "j \<le> 31" "ht_elems t \<le> 2 ^ j"
    using grow_result [of "ht_elems t" 2] assms(4) by auto
  let ?l = "foldl (place hs (2 ^ j)) (replicate (2 ^ j) []) (concat (ht_list t))"
  have "chains_ok hs (2 ^ j) (replicate (2 ^ j) [])" by (simp add: chains_ok_def)
  moreover have "set (concat (replicate (2 ^ j) [] :: nat list list)) = {}" by simp
  ultimately have l: "chains_ok hs (2 ^ j) ?l" "set (concat ?l) = ht_entries t"
      "sum_list (map length ?l) = ht_elems t"
    using place_fold [OF refl j(3), of hs "replicate (2 ^ j) []" "concat (ht_list t)"]
      chains_ok_distinct [OF assms(1)] assms(2)
    by (simp_all add: ht_entries_def length_concat sum_list_replicate)
  have "take (ht_length t) (ht_list t) = ht_list t" using assms(1) by (simp add: chains_ok_def)
  then have "Resize hs t = Some (t\<lparr>ht_length := 2 ^ j, ht_list := ?l\<rparr>)" by (simp add: Resize_def j(1))
  moreover have "ht_entries (t\<lparr>ht_length := 2 ^ j, ht_list := ?l\<rparr>) = ht_entries t"
    using l(2) by (simp add: ht_entries_def)
  ultimately show ?thesis using l j assms(3) by (auto simp: ht_ok_def)
qed

lemma HandleTable_Insert_effect:
  assumes "ht_ok hs t" "ht_room t" "x \<notin> ht_entries t"
  shows "\<exists>t'. HandleTable_Insert hs x t = Some (t', HandleTable_Lookup hs (gptr (hs x)) (lh_hash (hs x)) t)
    \<and> ht_ok hs t' \<and> ht_entries t' = insert x {y \<in> ht_entries t. hash_key (hs y) \<noteq> hash_key (hs x)}"
proof -
  obtain i pre post where f: "FindPointer hs (gptr (hs x)) (lh_hash (hs x)) t = (i, pre, post)" by (rule prod_cases3)
  note s = FindPointer_split [OF assms(1) f]
  have ok: "chains_ok hs (ht_length t) (ht_list t)" "ht_elems t = sum_list (map length (ht_list t))"
    "inj_on (\<lambda>x. hash_key (hs x)) (ht_entries t)" "ht_elems t \<le> ht_length t"
    using assms(1) by (simp_all add: ht_ok_def)
  let ?l = "(ht_list t)[i := pre @ [x] @ tl post]"
  have chain: "x \<notin> set (ht_list t ! i)" "distinct (ht_list t ! i)"
      "\<forall>y \<in> set (ht_list t ! i). bucket (ht_length t) (lh_hash (hs y)) = i"
    using nth_chain_entries [OF s(3), of x] assms(3) ok(1) s(2) by (auto simp: chains_ok_def)
  then have "distinct (pre @ [x] @ tl post)" "\<forall>y \<in> set (pre @ [x] @ tl post). bucket (ht_length t) (lh_hash (hs y)) = i"
    unfolding s(4) using s(1) by (cases post; auto)+
  from chains_ok_update [OF ok(1) s(2) this] have c: "chains_ok hs (ht_length t) ?l" .
  have same: "y \<in> set (take 1 post) \<longleftrightarrow> y \<in> ht_entries t \<and> hash_key (hs y) = hash_key (hs x)" for y
    using HandleTable_Lookup_iff [OF assms(1), of "gptr (hs x)" "lh_hash (hs x)" y]
    by (cases post) (auto simp: HandleTable_Lookup_def f deref_def hash_key_def)
  have e: "set (concat ?l) = insert x {y \<in> ht_entries t. hash_key (hs y) \<noteq> hash_key (hs x)}"
    unfolding entries_replace [OF ok(1) s(2,4)] using same by (auto simp: ht_entries_def)
  have inj: "inj_on (\<lambda>x. hash_key (hs x)) (set (concat ?l))"
    unfolding e using ok(3) by (auto simp: inj_on_def)
  have look: "HandleTable_Lookup hs (gptr (hs x)) (lh_hash (hs x)) t = deref post"
    by (simp add: HandleTable_Lookup_def f)
  have len: "sum_list (map length ?l) + length (pre @ post) = ht_elems t + length (pre @ [x] @ tl post)"
    using length_chains_update [OF s(3), of "pre @ [x] @ tl post"] ok(2) by (simp add: s(4))
  show ?thesis
  proof (cases post)
    case (Cons y ys)
    then show ?thesis using c e inj len ok assms(1) unfolding look
      by (intro exI [of _ "t\<lparr>ht_list := ?l\<rparr>"])
        (auto simp: HandleTable_Insert_def f deref_def ht_ok_def ht_entries_def Let_def)
  next
    case Nil
    let ?t = "t\<lparr>ht_list := ?l, ht_elems := ht_elems t + 1\<rparr>"
    have n: "(ht_elems t + 1) mod 2 ^ 32 = ht_elems t + 1" "ht_elems t + 1 \<le> 2 ^ 31"
      using assms(2) by (simp_all add: ht_room_def)
    have tab: "ht_entries ?t = set (concat ?l)" by (simp add: ht_entries_def)
    have sum: "ht_elems ?t = sum_list (map length (ht_list ?t))" using len Nil by simp
    have ins: "HandleTable_Insert hs x t = (if ht_length t < ht_elems t + 1
        then map_option (\<lambda>t3. (t3, deref post)) (Resize hs ?t) else Some (?t, deref post))"
      using n(1) Nil by (simp add: HandleTable_Insert_def f deref_def Let_def)
    show ?thesis
    proof (cases "ht_length t < ht_elems t + 1")
      case True
      have "chains_ok hs (ht_length ?t) (ht_list ?t)" using c by simp
      from Resize_effect [OF this sum] inj n(2) tab obtain t' where
        "Resize hs ?t = Some t'" "ht_ok hs t'" "ht_entries t' = ht_entries ?t" by auto
      then show ?thesis using True e tab unfolding ins look by auto
    next
      case False
      then have "ht_ok hs ?t" using c inj sum tab assms(1) by (auto simp: ht_ok_def)
      then show ?thesis using False e tab unfolding ins look by auto
    qed
  qed
qed

lemma HandleTable_Remove_effect:
  assumes "ht_ok hs t"
  shows "\<exists>t'. HandleTable_Remove hs key h t = (t', HandleTable_Lookup hs key h t)
    \<and> ht_ok hs t' \<and> ht_entries t' = {y \<in> ht_entries t. hash_key (hs y) \<noteq> (h, key)}"
proof -
  obtain i pre post where f: "FindPointer hs key h t = (i, pre, post)" by (rule prod_cases3)
  note s = FindPointer_split [OF assms f]
  have ok: "chains_ok hs (ht_length t) (ht_list t)" "ht_elems t = sum_list (map length (ht_list t))"
    "inj_on (\<lambda>x. hash_key (hs x)) (ht_entries t)" "ht_elems t \<le> ht_length t"
    using assms(1) by (simp_all add: ht_ok_def)
  let ?l = "(ht_list t)[i := pre @ [] @ tl post]"
  have same: "y \<in> set (take 1 post) \<longleftrightarrow> y \<in> ht_entries t \<and> hash_key (hs y) = (h, key)" for y
    using HandleTable_Lookup_iff [OF assms, of key h y]
    by (cases post) (auto simp: HandleTable_Lookup_def f deref_def hash_key_def)
  have look: "HandleTable_Lookup hs key h t = deref post" by (simp add: HandleTable_Lookup_def f)
  show ?thesis
  proof (cases post)
    case Nil
    then have "{y \<in> ht_entries t. hash_key (hs y) \<noteq> (h, key)} = ht_entries t" using same by auto
    then show ?thesis using Nil assms by (simp add: HandleTable_Remove_def f look deref_def)
  next
    case (Cons y ys)
    have chain: "distinct (ht_list t ! i)" "\<forall>y \<in> set (ht_list t ! i). bucket (ht_length t) (lh_hash (hs y)) = i"
      using ok(1) s(2) by (auto simp: chains_ok_def)
    then have "distinct (pre @ [] @ tl post)" "\<forall>y \<in> set (pre @ [] @ tl post). bucket (ht_length t) (lh_hash (hs y)) = i"
      unfolding s(4) Cons by auto
    from chains_ok_update [OF ok(1) s(2) this] have c: "chains_ok hs (ht_length t) ?l" .
    have e: "set (concat ?l) = {y \<in> ht_entries t. hash_key (hs y) \<noteq> (h, key)}"
      unfolding entries_replace [OF ok(1) s(2,4)] using same by (auto simp: ht_entries_def)
    have len: "sum_list (map length ?l) + 1 = ht_elems t"
      using length_chains_update [OF s(3), of "pre @ [] @ tl post"] ok(2) by (simp add: s(4) Cons)
    let ?t = "t\<lparr>ht_list := ?l, ht_elems := ht_elems t - 1\<rparr>"
    have "inj_on (\<lambda>x. hash_key (hs x)) (set (concat ?l))" unfolding e using ok(3) by (auto simp: inj_on_def)
    then have "ht_ok hs ?t" using c len assms by (auto simp: ht_ok_def ht_entries_def)
    then show ?thesis using e Cons by (auto simp: HandleTable_Remove_def f look deref_def ht_entries_def Let_def)
  qed
qed

interpretation ht: keyed_table "ht_ok hs" ht_room ht_entries "\<lambda>x. hash_key (hs x)"
  "\<lambda>k. HandleTable_Lookup hs (snd k) (fst k)" "HandleTable_Insert hs" "\<lambda>k. HandleTable_Remove hs (snd k) (fst k)"
  for hs
proof (unfold_locales, goal_cases)
  case (1 t k x)
  then show ?case by (simp add: HandleTable_Lookup_iff)
next
  case (2 t x)
  then show ?case using HandleTable_Insert_effect [of hs t x] by (simp add: hash_key_def)
next
  case (3 t k)
  then show ?case using HandleTable_Remove_effect [of hs t "snd k" "fst k"] by simp
qed

lemma new_table_ok: "\<exists>t. new_table hs = Some t \<and> ht_ok hs t \<and> ht_entries t = {}"
  using Resize_effect [of hs "\<lparr>ht_length = 0, ht_elems = 0, ht_list = []\<rparr>"]
  by (auto simp: new_table_def chains_ok_def ht_entries_def)

text \<open>
  C20: the hash table of a cache shard is a finite map.  Inserting a handle into a well-formed table
  of fewer than \<open>2 ^ 31\<close> entries terminates, also when the table is resized, returns the
  handle that had the same key, and afterwards every lookup finds what the map update says;
  removing a key returns its handle and afterwards it alone is not found.  The table stays
  well formed, counts its entries exactly, and has at least as many buckets as entries.
\<close>

theorem handle_table_is_map:
  assumes "ht_ok hs t" "ht_room t" "x \<notin> ht_entries t"
  shows "\<exists>t' t''. HandleTable_Insert hs x t = Some (t', HandleTable_Lookup hs (gptr (hs x)) (lh_hash (hs x)) t)
    \<and> (\<forall>key h. HandleTable_Lookup hs key h t' =
          (if h = lh_hash (hs x) \<and> key = gptr (hs x) then Some x else HandleTable_Lookup hs key h t))
    \<and> HandleTable_Remove hs k0 h0 t' = (t'', HandleTable_Lookup hs k0 h0 t')
    \<and> (\<forall>key h. HandleTable_Lookup hs key h t'' =
          (if h = h0 \<and> key = k0 then None else HandleTable_Lookup hs key h t'))
    \<and> ht_ok hs t' \<and> ht_ok hs t'' \<and> ht_elems t' = card (ht_entries t') \<and> ht_elems t' \<le> ht_length t'"
proof -
  obtain t' where i: "HandleTable_Insert hs x t = Some (t', HandleTable_Lookup hs (gptr (hs x)) (lh_hash (hs x)) t)"
      "ht_ok hs t'"
    using ht.ins_effect [OF assms] by (auto simp: hash_key_def)
  obtain t'' where r: "HandleTable_Remove hs k0 h0 t' = (t'', HandleTable_Lookup hs k0 h0 t')" "ht_ok hs t''"
    using ht.rem_effect [OF i(2), of "(h0, k0)"] by auto
  have "HandleTable_Lookup hs key h t' =
      (if h = lh_hash (hs x) \<and> key = gptr (hs x) then Some x else HandleTable_Lookup hs key h t)" for key h
    using ht.look_ins [OF assms i(1), of "(h, key)"] by (simp add: hash_key_def)
  moreover have "HandleTable_Lookup hs key h t'' = (if h = h0 \<and> key = k0 then None else HandleTable_Lookup hs key h t')"
    for key h
    using ht.look_rem [OF i(2), of "(h0, k0)" t'' _ "(h, key)"] r(1) by simp
  moreover have "ht_elems t' \<le> ht_length t'" using i(2) by (simp add: ht_ok_def)
  ultimately show ?thesis using i r ht_elems_card [OF i(2)] by auto
qed

abbreviation demo_lru :: LRUHandle where
  "demo_lru \<equiv> \<lparr>remote_lock_status = 0, lock_pending_num = 0, reader_spin_time = 0,
     last_writer_starvation_priority = 0, read_lock_counter = 0, write_lock_counter = 0,
     remote_urging_type = 0, buffer_inv_message = ClearStates, rw_mtx = 0,
     gptr = GlobalAddress 1 64, refs = 0, hvalue = 0, charge = 0, lh_hash = 7, in_cache = False\<rparr>"

theorem handle_table_is_map_witness:
  "\<exists>t t' t''. new_table (\<lambda>_. demo_lru) = Some t \<and> HandleTable_Insert (\<lambda>_. demo_lru) 3 t = Some (t', None)
     \<and> HandleTable_Lookup (\<lambda>_. demo_lru) (GlobalAddress 1 64) 7 t' = Some 3
     \<and> HandleTable_Remove (\<lambda>_. demo_lru) (GlobalAddress 1 64) 7 t' = (t'', Some 3)"
proof -
  obtain t where t: "new_table (\<lambda>_. demo_lru) = Some t" "ht_ok (\<lambda>_. demo_lru) t" "ht_entries t = {}"
    using new_table_ok by blast
  have room: "ht_room t" using ht_elems_card [OF t(2)] t(3) by (simp add: ht_room_def)
  have none: "HandleTable_Lookup (\<lambda>_. demo_lru) key h t = None" for key h
    using ht.look_None [OF t(2), of "(h, key)"] t(3) by simp
  have "3 \<notin> ht_entries t" using t(3) by simp
  from handle_table_is_map [OF t(2) room this, of "GlobalAddress 1 64" 7] t(1) none show ?thesis by auto
qed

end
