(* ===== verification/LRU_Cache.thy ===== *)
theory LRU_Cache
  imports Handle_Table "HOL-Library.Monad_Syntax"
begin

text \<open>
  The page cache of a compute node: \<^verbatim>\<open>LRUCache\<close> and \<^verbatim>\<open>ShardedLRUCache\<close> of \<^verbatim>\<open>storage/cache.cc\<close> with the
  page free list (\<^verbatim>\<open>PAGE_FREE_LIST\<close>).  The eviction list, the list of handles in use and the free
  list are circular doubly linked lists through \<^verbatim>\<open>next\<close> and \<^verbatim>\<open>prev\<close>; they are modelled with these
  pointers, and the operations that dereference a null pointer have the value \<open>None\<close>.
  An operation that holds the mutexes of the code is one step; the last section looks at
  steps that run between the two mutexes.  The deleter of every handle is
  \<open>Deallocate_MR_WITH_CCP\<close>; what it does on the network is recorded in \<open>evicted\<close>.
  Counters are natural numbers; the invariant shows that no subtraction underflows.
\<close>


section \<open>Doubly linked lists\<close>

record links =
  nxt :: "nat \<Rightarrow> nat option"
  prv :: "nat \<Rightarrow> nat option"

text \<open>The dummy heads of the three lists.\<close>
definition lru_head :: nat where "lru_head = 0"
definition in_use_head :: nat where "in_use_head = 1"
definition free_head :: nat where "free_head = 2"

definition List_Remove :: "nat \<Rightarrow> links \<Rightarrow> links option" where
  "List_Remove e l =
     (case (nxt l e, prv l e) of
        (Some n, Some p) \<Rightarrow>
          let l1 = l\<lparr>prv := (prv l)(n := Some p)\<rparr>;
              l2 = l1\<lparr>nxt := (nxt l1)(p := Some n)\<rparr>
          in Some (l2\<lparr>nxt := (nxt l2)(e := None), prv := (prv l2)(e := None)\<rparr>)
      | _ \<Rightarrow> None)"

definition List_Append :: "nat \<Rightarrow> nat \<Rightarrow> links \<Rightarrow> links option" where
  "List_Append list e l =
     (case prv l list of
        None \<Rightarrow> None
      | Some p \<Rightarrow>
          let l1 = l\<lparr>nxt := (nxt l)(e := Some list), prv := (prv l)(e := Some p)\<rparr>;
              l2 = l1\<lparr>nxt := (nxt l1)(p := Some e)\<rparr>
          in Some (l2\<lparr>prv := (prv l2)(list := Some e)\<rparr>))"


section \<open>A shard\<close>

record LRUCache =
  capacity :: nat
  usage :: nat
  table :: HandleTable
  lnk :: links
  lru_size :: nat
  free_list_size :: nat
  free_list_trigger_limit :: nat
  hs :: handles
  evicted :: "(GlobalAddress \<times> hact list) list"

definition upd :: "nat \<Rightarrow> (LRUHandle \<Rightarrow> LRUHandle) \<Rightarrow> LRUCache \<Rightarrow> LRUCache" where
  "upd e f c = c\<lparr>hs := (hs c)(e := f (hs c e))\<rparr>"

definition call_deleter :: "nat \<Rightarrow> LRUCache \<Rightarrow> LRUCache" where
  "call_deleter e c =
     (let (h, as) = Deallocate_MR_WITH_CCP (Cache_Handle.Cache_Handle.truncate (hs c e))
      in c\<lparr>hs := (hs c)(e := Cache_Handle.Cache_Handle.extend h (Cache_Handle.Cache_Handle.more (hs c e))),
           evicted := evicted c @ [(gptr (hs c e), as)]\<rparr>)"

definition push_free_list :: "nat \<Rightarrow> LRUCache \<Rightarrow> LRUCache option" where
  "push_free_list e c = do {
     l \<leftarrow> List_Append free_head e (lnk c);
     Some (c\<lparr>lnk := l, free_list_size := free_list_size c + 1\<rparr>) }"

definition pop_free_list :: "LRUCache \<Rightarrow> (nat \<times> LRUCache) option" where
  "pop_free_list c = do {
     e \<leftarrow> nxt (lnk c) free_head;
     if e \<noteq> free_head
     then do { l \<leftarrow> List_Remove e (lnk c); Some (e, c\<lparr>lnk := l, free_list_size := free_list_size c - 1\<rparr>) }
     else Some (e, c) }"

text \<open>The parts of \<^verbatim>\<open>Ref\<close> and \<^verbatim>\<open>Unref\<close> that run under the list mutex.\<close>
definition move_to_in_use :: "nat \<Rightarrow> LRUCache \<Rightarrow> LRUCache option" where
  "move_to_in_use e c = do {
     l1 \<leftarrow> List_Remove e (lnk c);
     l2 \<leftarrow> List_Append in_use_head e l1;
     Some (c\<lparr>lnk := l2, lru_size := lru_size c - 1\<rparr>) }"

definition move_to_lru :: "nat \<Rightarrow> LRUCache \<Rightarrow> LRUCache option" where
  "move_to_lru e c = do {
     l1 \<leftarrow> List_Remove e (lnk c);
     l2 \<leftarrow> List_Append lru_head e l1;
     Some (c\<lparr>lnk := l2, lru_size := lru_size c + 1\<rparr>) }"

definition fetch_add_refs :: "nat \<Rightarrow> LRUCache \<Rightarrow> LRUCache" where
  "fetch_add_refs e c = upd e (\<lambda>h. h\<lparr>refs := refs h + 1\<rparr>) c"

definition fetch_sub_refs :: "nat \<Rightarrow> LRUCache \<Rightarrow> LRUCache" where
  "fetch_sub_refs e c = upd e (\<lambda>h. h\<lparr>refs := refs h - 1\<rparr>) c"

definition Ref :: "nat \<Rightarrow> LRUCache \<Rightarrow> LRUCache option" where
  "Ref e c =
     (let ticket = refs (hs c e); c1 = fetch_add_refs e c
      in if ticket = 1 \<and> in_cache (hs c e) then move_to_in_use e c1 else Some c1)"

definition Unref :: "nat \<Rightarrow> LRUCache \<Rightarrow> LRUCache option" where
  "Unref e c =
     (let ticket = refs (hs c e); c1 = fetch_sub_refs e c
      in if ticket = 1 then push_free_list e (call_deleter e c1)
         else if in_cache (hs c e) \<and> ticket = 2 then move_to_lru e c1 else Some c1)"

definition Unref_hard :: "nat \<Rightarrow> LRUCache \<Rightarrow> LRUCache option" where
  "Unref_hard e c = push_free_list e (fetch_sub_refs e c)"

text \<open>Dropping the last reference in \<^verbatim>\<open>Unref_Inv\<close>, behind a failing assertion, frees the handle; that is \<open>None\<close>.\<close>
definition Unref_Inv :: "nat \<Rightarrow> LRUCache \<Rightarrow> LRUCache option" where
  "Unref_Inv e c =
     (let ticket = refs (hs c e); c1 = fetch_sub_refs e c
      in if ticket = 1 then None
         else if in_cache (hs c e) \<and> ticket = 2
         then do {
           l1 \<leftarrow> List_Remove e (lnk c1);
           first \<leftarrow> nxt l1 lru_head;
           l2 \<leftarrow> List_Append first e l1;
           Some (c1\<lparr>lnk := l2, lru_size := lru_size c1 + 1\<rparr>) }
         else Some c1)"

definition FinishErase :: "nat option \<Rightarrow> LRUCache \<Rightarrow> (LRUCache \<times> bool) option" where
  "FinishErase eo c =
     (case eo of
        None \<Rightarrow> Some (c, False)
      | Some e \<Rightarrow> do {
          l \<leftarrow> List_Remove e (lnk c);
          c1 \<leftarrow> Unref e (upd e (\<lambda>h. h\<lparr>in_cache := False\<rparr>) (c\<lparr>lnk := l, usage := usage c - charge (hs c e)\<rparr>));
          Some (c1, True) })"

definition FinishErase_hard :: "nat option \<Rightarrow> LRUCache \<Rightarrow> (LRUCache \<times> bool) option" where
  "FinishErase_hard eo c =
     (case eo of
        None \<Rightarrow> Some (c, False)
      | Some e \<Rightarrow> do {
          l \<leftarrow> List_Remove e (lnk c);
          c1 \<leftarrow> Unref_hard e (upd e (\<lambda>h. h\<lparr>in_cache := False\<rparr>) (c\<lparr>lnk := l, usage := usage c - charge (hs c e)\<rparr>));
          Some (c1, True) })"

definition Erase :: "GlobalAddress \<Rightarrow> u32 \<Rightarrow> LRUCache \<Rightarrow> LRUCache option" where
  "Erase key h c =
     (let (t, r) = HandleTable_Remove (hs c) key h (table c) in map_option fst (FinishErase r (c\<lparr>table := t\<rparr>)))"

partial_function (option) Prune :: "LRUCache \<Rightarrow> LRUCache option" where
  "Prune c =
     (case nxt (lnk c) lru_head of
        None \<Rightarrow> None
      | Some e \<Rightarrow>
          if e \<noteq> lru_head
          then (case Erase (gptr (hs c e)) (lh_hash (hs c e)) c of None \<Rightarrow> None | Some c1 \<Rightarrow> Prune c1)
          else Some c)"

definition LRUCache_Lookup :: "GlobalAddress \<Rightarrow> u32 \<Rightarrow> LRUCache \<Rightarrow> (nat option \<times> LRUCache) option" where
  "LRUCache_Lookup key h c =
     (case HandleTable_Lookup (hs c) key h (table c) of
        None \<Rightarrow> Some (None, c)
      | Some e \<Rightarrow> map_option (\<lambda>c1. (Some e, c1)) (Ref e c))"

definition LRUCache_Release :: "nat \<Rightarrow> LRUCache \<Rightarrow> LRUCache option" where
  "LRUCache_Release e c = Unref e c"

definition LRUCache_Release_Inv :: "nat \<Rightarrow> LRUCache \<Rightarrow> LRUCache option" where
  "LRUCache_Release_Inv e c = Unref_Inv e c"

text \<open>
  A handle for a new page: from the free list or, when that is empty, the oldest one of the
  eviction list.  The code does not check that the eviction list is not empty.
\<close>
definition evict_oldest :: "bool \<Rightarrow> LRUCache \<Rightarrow> (nat \<times> LRUCache) option" where
  "evict_oldest mark c = do {
     old \<leftarrow> nxt (lnk c) lru_head;
     let (t, r) = HandleTable_Remove (hs c) (gptr (hs c old)) (lh_hash (hs c old)) (table c);
     l \<leftarrow> List_Remove old (lnk c);
     let c1 = c\<lparr>table := t, lnk := l, lru_size := lru_size c - 1, usage := usage c - charge (hs c old)\<rparr>;
     let c2 = fetch_sub_refs old (if mark then upd old (\<lambda>h. h\<lparr>in_cache := True\<rparr>) c1 else c1);
     Some (old, call_deleter old c2) }"

definition take_handle :: "bool \<Rightarrow> LRUCache \<Rightarrow> (nat \<times> LRUCache) option" where
  "take_handle mark c = do {
     (e, c1) \<leftarrow> pop_free_list c;
     if e = free_head then evict_oldest mark c1 else Some (e, c1) }"

text \<open>The part shared by \<^verbatim>\<open>LookupInsert\<close> and \<^verbatim>\<open>Insert\<close>: filling the handle in and entering it.\<close>
definition enter_handle :: "nat \<Rightarrow> GlobalAddress \<Rightarrow> u32 \<Rightarrow> nat \<Rightarrow> nat \<Rightarrow> LRUCache \<Rightarrow> LRUCache option" where
  "enter_handle e key h val chrg c =
     (let c1 = upd e (\<lambda>x. x\<lparr>gptr := key, hvalue := val, charge := chrg, lh_hash := h, in_cache := True, refs := 1\<rparr>) c
      in if capacity c > 0
         then do {
           l \<leftarrow> List_Append in_use_head e (lnk c1);
           let c2 = fetch_add_refs e (c1\<lparr>lnk := l, usage := usage c1 + chrg\<rparr>);
           (t, old) \<leftarrow> HandleTable_Insert (hs c2) e (table c2);
           map_option fst (FinishErase old (c2\<lparr>table := t\<rparr>)) }
         else Some (c1\<lparr>lnk := (lnk c1)\<lparr>nxt := (nxt (lnk c1))(e := None)\<rparr>\<rparr>))"

definition LRUCache_LookupInsert ::
  "GlobalAddress \<Rightarrow> u32 \<Rightarrow> nat \<Rightarrow> nat \<Rightarrow> LRUCache \<Rightarrow> (nat \<times> LRUCache) option" where
  "LRUCache_LookupInsert key h val chrg c =
     (case HandleTable_Lookup (hs c) key h (table c) of
        Some e \<Rightarrow> map_option (\<lambda>c1. (e, c1)) (Ref e c)
      | None \<Rightarrow> do {
          (e, c1) \<leftarrow> take_handle True c;
          c2 \<leftarrow> enter_handle e key h (if val \<noteq> 0 then val else hvalue (hs c1 e)) chrg c1;
          Some (e, c2) })"

definition LRUCache_Insert ::
  "GlobalAddress \<Rightarrow> u32 \<Rightarrow> nat \<Rightarrow> nat \<Rightarrow> LRUCache \<Rightarrow> (nat \<times> LRUCache) option" where
  "LRUCache_Insert key h val chrg c = do {
     (e, c1) \<leftarrow> take_handle False c;
     c2 \<leftarrow> enter_handle e key h val chrg c1;
     Some (e, c2) }"

definition need_eviction :: "LRUCache \<Rightarrow> bool" where
  "need_eviction c \<longleftrightarrow> free_list_size c < free_list_trigger_limit c"

fun advance :: "nat \<Rightarrow> links \<Rightarrow> nat \<Rightarrow> nat option" where
  "advance 0 l e = Some e"
| "advance (Suc n) l e = (case nxt l e of None \<Rightarrow> None | Some e' \<Rightarrow> advance n l e')"

definition bulk_remove_LRU_list :: "nat \<Rightarrow> links \<Rightarrow> ((nat \<times> nat) \<times> links) option" where
  "bulk_remove_LRU_list n l = do {
     start \<leftarrow> nxt l lru_head;
     fin \<leftarrow> advance (n - 1) l start;
     after \<leftarrow> nxt l fin;
     before \<leftarrow> prv l start;
     let l1 = l\<lparr>prv := (prv l)(after := Some before)\<rparr>;
     let l2 = l1\<lparr>nxt := (nxt l1)(before := Some after)\<rparr>;
     Some ((start, fin), l2\<lparr>nxt := (nxt l2)(fin := None), prv := (prv l2)(start := None)\<rparr>) }"

definition bulk_insert_free_list :: "nat \<times> nat \<Rightarrow> links \<Rightarrow> links option" where
  "bulk_insert_free_list se l = do {
     let l1 = l\<lparr>nxt := (nxt l)(snd se := Some free_head)\<rparr>;
     before \<leftarrow> prv l1 free_head;
     let l2 = l1\<lparr>prv := (prv l1)(fst se := Some before)\<rparr>;
     let l3 = l2\<lparr>prv := (prv l2)(free_head := Some (snd se))\<rparr>;
     p \<leftarrow> prv l3 (fst se);
     Some (l3\<lparr>nxt := (nxt l3)(p := Some (fst se))\<rparr>) }"

text \<open>The handles of a chain that ends in a null pointer, in the order the two loops of
  \<^verbatim>\<open>prepare_free_list\<close> visit them.\<close>
partial_function (option) chain :: "links \<Rightarrow> nat \<Rightarrow> nat list option" where
  "chain l e = (case nxt l e of None \<Rightarrow> Some [e] | Some e' \<Rightarrow> Option.bind (chain l e') (\<lambda>es. Some (e # es)))"

definition leave_table :: "LRUCache \<Rightarrow> nat \<Rightarrow> LRUCache" where
  "leave_table c e =
     (let c1 = upd e (\<lambda>h. h\<lparr>in_cache := False\<rparr>) (c\<lparr>usage := usage c - charge (hs c e)\<rparr>)
      in c1\<lparr>table := fst (HandleTable_Remove (hs c1) (gptr (hs c1 e)) (lh_hash (hs c1 e)) (table c1))\<rparr>)"

definition drop_page :: "LRUCache \<Rightarrow> nat \<Rightarrow> LRUCache" where
  "drop_page c e = call_deleter e (fetch_sub_refs e c)"

definition prepare_free_list :: "LRUCache \<Rightarrow> LRUCache option" where
  "prepare_free_list c =
     (if need_eviction c
      then let recycle_num = free_list_trigger_limit c - free_list_size c
           in do {
             (se, l) \<leftarrow> bulk_remove_LRU_list recycle_num (lnk c);
             es \<leftarrow> chain l (fst se);
             let c1 = foldl drop_page (foldl leave_table (c\<lparr>lnk := l\<rparr>) es) es;
             l2 \<leftarrow> bulk_insert_free_list se (lnk c1);
             Some (c1\<lparr>lnk := l2, free_list_size := free_list_size c1 + recycle_num\<rparr>) }
      else Some c)"

definition LRUCache_TotalCharge :: "LRUCache \<Rightarrow> nat" where
  "LRUCache_TotalCharge c = usage c"

definition flushes :: "LRUHandle \<Rightarrow> bool" where
  "flushes h \<longleftrightarrow> in_cache h \<and> remote_lock_status h = 2 \<and> refs h = 1 \<and> hvalue h \<noteq> 0"

text \<open>The pages that \<^verbatim>\<open>SoftFlushAllDirtyPages\<close> passes to \<^verbatim>\<open>global_blind_write\<close>, in order.\<close>
definition SoftFlushAllDirtyPages :: "LRUCache \<Rightarrow> GlobalAddress list" where
  "SoftFlushAllDirtyPages c = map (\<lambda>e. gptr (hs c e)) (filter (\<lambda>e. flushes (hs c e)) (concat (ht_list (table c))))"

definition hard_invalidate :: "(LRUHandle \<Rightarrow> bool) \<Rightarrow> LRUCache \<Rightarrow> LRUCache" where
  "hard_invalidate sel c = foldl (\<lambda>c e.
     if in_cache (hs c e) \<and> sel (hs c e) \<and> (remote_lock_status (hs c e) = 1 \<or> remote_lock_status (hs c e) = 2)
     then upd e (\<lambda>h. h\<lparr>remote_lock_status := 0\<rparr>) c else c) c (concat (ht_list (table c)))"

definition HardInvalidateByLogicalId :: "u16 \<Rightarrow> LRUCache \<Rightarrow> LRUCache" where
  "HardInvalidateByLogicalId logical_id c = hard_invalidate (\<lambda>h. nodeID (gptr h) = logical_id) c"

definition HardInvalidateAll :: "LRUCache \<Rightarrow> LRUCache" where
  "HardInvalidateAll c = hard_invalidate (\<lambda>h. True) c"


section \<open>The sharded cache\<close>

definition kNumShardBits :: nat where "kNumShardBits = 7"
definition kNumShards :: nat where "kNumShards = 2 ^ kNumShardBits"

definition HashSlice :: "GlobalAddress \<Rightarrow> u32" where
  "HashSlice key = Hash (le_bytes 8 (gval key)) 0"

definition Shard :: "u32 \<Rightarrow> nat" where
  "Shard h = unat (drop_bit (32 - kNumShardBits) h)"

type_synonym shards = "nat \<Rightarrow> LRUCache"

definition ShardedLRUCache_Lookup :: "GlobalAddress \<Rightarrow> shards \<Rightarrow> (nat option \<times> shards) option" where
  "ShardedLRUCache_Lookup key s =
     (let h = HashSlice key
      in map_option (\<lambda>(r, c). (r, s(Shard h := c))) (LRUCache_Lookup key h (s (Shard h))))"

definition ShardedLRUCache_LookupInsert :: "GlobalAddress \<Rightarrow> nat \<Rightarrow> nat \<Rightarrow> shards \<Rightarrow> (nat \<times> shards) option" where
  "ShardedLRUCache_LookupInsert key val chrg s =
     (let h = HashSlice key
      in map_option (\<lambda>(r, c). (r, s(Shard h := c))) (LRUCache_LookupInsert key h val chrg (s (Shard h))))"

definition ShardedLRUCache_Insert :: "GlobalAddress \<Rightarrow> nat \<Rightarrow> nat \<Rightarrow> shards \<Rightarrow> (nat \<times> shards) option" where
  "ShardedLRUCache_Insert key val chrg s =
     (let h = HashSlice key
      in map_option (\<lambda>(r, c). (r, s(Shard h := c))) (LRUCache_Insert key h val chrg (s (Shard h))))"

definition ShardedLRUCache_Erase :: "GlobalAddress \<Rightarrow> shards \<Rightarrow> shards option" where
  "ShardedLRUCache_Erase key s =
     (let h = HashSlice key in map_option (\<lambda>c. s(Shard h := c)) (Erase key h (s (Shard h))))"

text \<open>A handle is known by its shard and its number there; the code finds the shard by the hash in the handle.\<close>
definition ShardedLRUCache_Release :: "nat \<times> nat \<Rightarrow> shards \<Rightarrow> shards option" where
  "ShardedLRUCache_Release p s =
     (let j = Shard (lh_hash (hs (s (fst p)) (snd p))) in map_option (\<lambda>c. s(j := c)) (LRUCache_Release (snd p) (s j)))"

definition ShardedLRUCache_Release_Inv :: "nat \<times> nat \<Rightarrow> shards \<Rightarrow> shards option" where
  "ShardedLRUCache_Release_Inv p s =
     (let j = Shard (lh_hash (hs (s (fst p)) (snd p))) in map_option (\<lambda>c. s(j := c)) (LRUCache_Release_Inv (snd p) (s j)))"

fun prune_shards :: "nat list \<Rightarrow> shards \<Rightarrow> shards option" where
  "prune_shards [] s = Some s"
| "prune_shards (i # is) s = do { c \<leftarrow> Prune (s i); prune_shards is (s(i := c)) }"

definition ShardedLRUCache_Prune :: "shards \<Rightarrow> shards option" where
  "ShardedLRUCache_Prune s = prune_shards [0..<kNumShards] s"

definition ShardedLRUCache_SoftFlushAllDirtyPages :: "shards \<Rightarrow> GlobalAddress list" where
  "ShardedLRUCache_SoftFlushAllDirtyPages s = concat (map (\<lambda>i. SoftFlushAllDirtyPages (s i)) [0..<kNumShards])"

definition ShardedLRUCache_HardInvalidateByLogicalId :: "u16 \<Rightarrow> shards \<Rightarrow> shards" where
  "ShardedLRUCache_HardInvalidateByLogicalId logical_id s =
     (\<lambda>i. if i < kNumShards then HardInvalidateByLogicalId logical_id (s i) else s i)"

definition ShardedLRUCache_HardInvalidateAll :: "shards \<Rightarrow> shards" where
  "ShardedLRUCache_HardInvalidateAll s = (\<lambda>i. if i < kNumShards then HardInvalidateAll (s i) else s i)"

text \<open>One round of the background thread on a random shard.\<close>
definition free_list_thread_round :: "nat \<Rightarrow> shards \<Rightarrow> shards option" where
  "free_list_thread_round j s =
     (if need_eviction (s j) then map_option (\<lambda>c. s(j := c)) (prepare_free_list (s j)) else Some s)"

definition ShardedLRUCache_TotalCharge :: "shards \<Rightarrow> nat" where
  "ShardedLRUCache_TotalCharge s = (\<Sum>i\<leftarrow>[0..<kNumShards]. LRUCache_TotalCharge (s i))"

section \<open>Linked lists represent lists\<close>

fun linked :: "links \<Rightarrow> nat \<Rightarrow> nat list \<Rightarrow> nat \<Rightarrow> bool" where
  "linked l a [] b \<longleftrightarrow> nxt l a = Some b \<and> prv l b = Some a"
| "linked l a (x # xs) b \<longleftrightarrow> nxt l a = Some x \<and> prv l x = Some a \<and> linked l x xs b"

definition ring :: "links \<Rightarrow> nat \<Rightarrow> nat list \<Rightarrow> bool" where
  "ring l h xs \<longleftrightarrow> linked l h xs h \<and> distinct (h # xs)"

text \<open>Two link states that agree on a set of nodes.\<close>
definition agree :: "nat set \<Rightarrow> links \<Rightarrow> links \<Rightarrow> bool" where
  "agree A l l' \<longleftrightarrow> (\<forall>x \<in> A. nxt l' x = nxt l x \<and> prv l' x = prv l x)"

lemma linked_append: "linked l a (xs @ y # ys) b \<longleftrightarrow> linked l a xs y \<and> linked l y ys b"
  by (induction xs arbitrary: a) auto

lemma linked_cong:
  assumes "\<forall>x \<in> set (a # xs). nxt l' x = nxt l x" "\<forall>x \<in> set (xs @ [b]). prv l' x = prv l x"
  shows "linked l' a xs b \<longleftrightarrow> linked l a xs b"
  using assms by (induction xs arbitrary: a) auto

lemma linked_first: "linked l a xs b \<Longrightarrow> nxt l a = Some (hd (xs @ [b]))"
  by (cases xs) auto

lemma linked_last: "linked l a xs b \<Longrightarrow> prv l b = Some (last (a # xs))"
  by (induction xs arbitrary: a) auto

lemma ring_frame: "ring l h xs \<Longrightarrow> agree (set (h # xs)) l l' \<Longrightarrow> ring l' h xs"
  using linked_cong [of h xs l' l h] by (auto simp: ring_def agree_def)

lemma ring_first: "ring l h xs \<Longrightarrow> nxt l h = Some (hd (xs @ [h]))"
  by (simp add: ring_def linked_first)

lemma ring_last: "ring l h xs \<Longrightarrow> prv l h = Some (last (h # xs))"
  using linked_last [of l h xs h] by (simp add: ring_def)

lemma agree_mono: "agree A l l' \<Longrightarrow> B \<subseteq> A \<Longrightarrow> agree B l l'"
  by (auto simp: agree_def)

lemma agree_trans: "agree A l l' \<Longrightarrow> agree A l' l'' \<Longrightarrow> agree A l l''"
  by (auto simp: agree_def)

text \<open>Taking an element out of a list.\<close>
lemma List_Remove_ring:
  assumes "ring l h (xs @ e # ys)"
  shows "\<exists>l'. List_Remove e l = Some l' \<and> ring l' h (xs @ ys) \<and> agree (- set (h # xs @ e # ys)) l l'"
proof -
  let ?p = "last (h # xs)" and ?n = "hd (ys @ [h])"
  have d: "distinct (h # xs @ e # ys)" and lk: "linked l h xs e" "linked l e ys h"
    using assms by (auto simp: ring_def linked_append)
  have n: "nxt l e = Some ?n" "prv l e = Some ?p" using linked_first [OF lk(2)] linked_last [OF lk(1)] by simp_all
  let ?l = "\<lparr>nxt = (nxt l)(?p := Some ?n, e := None), prv = (prv l)(?n := Some ?p, e := None)\<rparr>"
  have e: "?p \<noteq> e" "?n \<noteq> e" using d by (auto simp: hd_append split: if_splits)
  have rem: "List_Remove e l = Some ?l"
    unfolding List_Remove_def n by (simp add: Let_def)
  have "linked ?l h (xs @ ys) h"
  proof (cases xs rule: rev_cases)
    case Nil
    show ?thesis
    proof (cases ys)
      case (Cons y zs)
      then have "linked ?l y zs h \<longleftrightarrow> linked l y zs h"
        using d Nil by (intro linked_cong) auto
      then show ?thesis using lk(2) e Cons Nil by simp
    qed (use e Nil in simp)
  next
    case (snoc zs z)
    have z: "linked ?l h zs z \<longleftrightarrow> linked l h zs z"
      using d snoc by (intro linked_cong) (auto simp: hd_append split: if_splits)
    show ?thesis
    proof (cases ys)
      case Nil
      then show ?thesis using z lk(1) snoc e by (simp add: linked_append)
    next
      case (Cons y ws)
      then have "linked ?l y ws h \<longleftrightarrow> linked l y ws h"
        using d snoc by (intro linked_cong) auto
      then show ?thesis using z lk snoc e Cons by (simp add: linked_append)
    qed
  qed
  moreover have "agree (- set (h # xs @ e # ys)) l ?l"
    by (auto simp: agree_def hd_append)
  ultimately show ?thesis using rem d by (auto simp: ring_def)
qed

text \<open>Inserting an element before a node of the list; the head stands for the end.\<close>
lemma List_Append_ring:
  assumes "ring l h (xs @ ys)" "e \<notin> set (h # xs @ ys)" "n = hd (ys @ [h])"
  shows "\<exists>l'. List_Append n e l = Some l' \<and> ring l' h (xs @ e # ys) \<and> agree (- set (h # e # xs @ ys)) l l'"
proof -
  let ?p = "last (h # xs)"
  have d: "distinct (h # xs @ ys)" using assms(1) by (simp add: ring_def)
  have lk: "linked l h (xs @ ys) h" using assms(1) by (simp add: ring_def)
  have p: "prv l n = Some ?p"
  proof (cases ys)
    case Nil
    then show ?thesis using linked_last [OF lk] assms(3) by simp
  next
    case (Cons y zs)
    then show ?thesis using lk assms(3) linked_last [of l h xs y] by (simp add: linked_append)
  qed
  let ?l = "\<lparr>nxt = (nxt l)(e := Some n, ?p := Some e), prv = (prv l)(e := Some ?p, n := Some e)\<rparr>"
  have app: "List_Append n e l = Some ?l" unfolding List_Append_def p by (simp add: Let_def)
  have ne: "n \<noteq> e" "?p \<noteq> e" using assms(2,3) by (auto simp: hd_append split: if_splits)
  have 1: "linked ?l h xs e"
  proof (cases xs rule: rev_cases)
    case (snoc zs z)
    then have "linked ?l h zs z \<longleftrightarrow> linked l h zs z"
      using d assms(2,3) by (intro linked_cong) (auto simp: hd_append split: if_splits)
    moreover have "linked l h zs z" using lk snoc linked_append [of l h zs z ys h] by simp
    ultimately show ?thesis using snoc ne by (simp add: linked_append)
  qed (use ne in simp)
  have 2: "linked ?l e ys h"
  proof (cases ys)
    case (Cons y zs)
    then have "?p \<notin> set ys" using d by (cases xs rule: rev_cases) auto
    with Cons have "linked ?l y zs h \<longleftrightarrow> linked l y zs h"
      using d assms(2,3) by (intro linked_cong) auto
    then show ?thesis using Cons lk ne assms(3) by (simp add: linked_append)
  qed (use ne assms(3) in simp)
  have "ring ?l h (xs @ e # ys)" using 1 2 d assms(2) by (auto simp: ring_def linked_append)
  moreover have "agree (- set (h # e # xs @ ys)) l ?l" using assms(3) by (auto simp: agree_def hd_append)
  ultimately show ?thesis using app by blast
qed

text \<open>The three lists together, indexed by their heads.\<close>
definition lists_ok :: "links \<Rightarrow> (nat \<Rightarrow> nat list) \<Rightarrow> bool" where
  "lists_ok l f \<longleftrightarrow> (\<forall>h < 3. ring l h (f h))
     \<and> (\<forall>h < 3. \<forall>h' < 3. h \<noteq> h' \<longrightarrow> set (h # f h) \<inter> set (h' # f h') = {})"

definition listed :: "(nat \<Rightarrow> nat list) \<Rightarrow> nat set" where
  "listed f = set (f 0) \<union> set (f 1) \<union> set (f 2)"

lemma less_3: "(h :: nat) < 3 \<longleftrightarrow> h = 0 \<or> h = 1 \<or> h = 2"
  by auto

lemma lists_ok_disjoint:
  assumes "lists_ok l f"
  shows "set (f 0) \<inter> set (f 1) = {}" "set (f 0) \<inter> set (f 2) = {}" "set (f 1) \<inter> set (f 2) = {}"
    "e \<in> listed f \<Longrightarrow> 3 \<le> e" "h < 3 \<Longrightarrow> distinct (f h)"
proof -
  have s: "set (h # f h) \<inter> set (h' # f h') = {}" if "h < 3" "h' < 3" "h \<noteq> h'" for h h'
    using assms that unfolding lists_ok_def by blast
  show "set (f 0) \<inter> set (f 1) = {}" "set (f 0) \<inter> set (f 2) = {}" "set (f 1) \<inter> set (f 2) = {}"
    using s [of 0 1] s [of 0 2] s [of 1 2] by auto
  have r: "ring l h (f h)" if "h < 3" for h using assms that unfolding lists_ok_def by blast
  show "distinct (f h)" if "h < 3" using r [OF that] by (simp add: ring_def)
  show "3 \<le> e" if "e \<in> listed f"
  proof -
    have "e \<noteq> 0" "e \<noteq> 1" "e \<noteq> 2"
      using that s [of 0 1] s [of 0 2] s [of 1 2] r [of 0] r [of 1] r [of 2]
      by (auto simp: listed_def ring_def)
    then show ?thesis by linarith
  qed
qed

lemma lists_ok_ring: "lists_ok l f \<Longrightarrow> h < 3 \<Longrightarrow> ring l h (f h)"
  unfolding lists_ok_def by blast

lemma lists_ok_oldest: "lists_ok l f \<Longrightarrow> h < 3 \<Longrightarrow> nxt l h = Some (hd (f h @ [h]))"
  by (rule ring_first [OF lists_ok_ring])

lemma lists_remove:
  assumes "lists_ok l f" "h < 3" "e \<in> set (f h)"
  shows "\<exists>l'. List_Remove e l = Some l' \<and> lists_ok l' (f(h := remove1 e (f h)))"
proof -
  obtain xs ys where e: "f h = xs @ e # ys" "e \<notin> set xs" using split_list_first [OF assms(3)] by blast
  then have rem: "remove1 e (f h) = xs @ ys" by (simp add: remove1_append)
  have "ring l h (xs @ e # ys)" using assms(1,2) e(1) unfolding lists_ok_def by metis
  from List_Remove_ring [OF this] obtain l' where
    l': "List_Remove e l = Some l'" "ring l' h (xs @ ys)" "agree (- set (h # f h)) l l'"
    by (auto simp: e(1))
  have s: "set (h # f h) \<inter> set (h' # f h') = {}" if "h' < 3" "h \<noteq> h'" for h'
    using assms(1,2) that unfolding lists_ok_def by blast
  have "ring l' h' ((f(h := xs @ ys)) h')" if "h' < 3" for h'
  proof (cases "h' = h")
    case False
    then have "agree (set (h' # f h')) l l'"
      using l'(3) s [OF that] by (intro agree_mono [OF l'(3)]) auto
    moreover have "ring l h' (f h')" using assms(1) that unfolding lists_ok_def by blast
    ultimately show ?thesis using False ring_frame by simp
  qed (use l'(2) in simp)
  moreover have "set (h1 # (f(h := xs @ ys)) h1) \<inter> set (h2 # (f(h := xs @ ys)) h2) = {}"
    if "h1 < 3" "h2 < 3" "h1 \<noteq> h2" for h1 h2
  proof -
    have "set (h1 # f h1) \<inter> set (h2 # f h2) = {}" using assms(1) that unfolding lists_ok_def by blast
    then show ?thesis using e(1) that by (auto split: if_splits)
  qed
  ultimately show ?thesis using l'(1) unfolding rem lists_ok_def by blast
qed

lemma lists_insert:
  assumes "lists_ok l f" "h < 3" "f h = xs @ ys" "n = hd (ys @ [h])" "3 \<le> e" "e \<notin> listed f"
  shows "\<exists>l'. List_Append n e l = Some l' \<and> lists_ok l' (f(h := xs @ e # ys))"
proof -
  have e: "e \<notin> set (h' # f h')" if "h' < 3" for h'
    using assms(5,6) that unfolding listed_def less_3 by auto
  have "ring l h (xs @ ys)" using assms(1-3) unfolding lists_ok_def by metis
  from List_Append_ring [OF this _ assms(4), of e] e [OF assms(2)] obtain l' where
    l': "List_Append n e l = Some l'" "ring l' h (xs @ e # ys)" "agree (- set (e # h # f h)) l l'"
    by (auto simp: assms(3) insert_commute)
  have s: "set (h # f h) \<inter> set (h' # f h') = {}" if "h' < 3" "h \<noteq> h'" for h'
    using assms(1,2) that unfolding lists_ok_def by blast
  have "ring l' h' ((f(h := xs @ e # ys)) h')" if "h' < 3" for h'
  proof (cases "h' = h")
    case False
    then have "agree (set (h' # f h')) l l'"
      using e [OF that] s [OF that] by (intro agree_mono [OF l'(3)]) auto
    moreover have "ring l h' (f h')" using assms(1) that unfolding lists_ok_def by blast
    ultimately show ?thesis using False ring_frame by simp
  qed (use l'(2) in simp)
  moreover have "set (h1 # (f(h := xs @ e # ys)) h1) \<inter> set (h2 # (f(h := xs @ e # ys)) h2) = {}"
    if "h1 < 3" "h2 < 3" "h1 \<noteq> h2" for h1 h2
  proof -
    have "set (h1 # f h1) \<inter> set (h2 # f h2) = {}" using assms(1) that unfolding lists_ok_def by blast
    then show ?thesis using assms(3) that e [of h1] e [of h2] by (auto split: if_splits)
  qed
  ultimately show ?thesis using l'(1) unfolding lists_ok_def by blast
qed

lemma lists_append:
  assumes "lists_ok l f" "h < 3" "3 \<le> e" "e \<notin> listed f"
  shows "\<exists>l'. List_Append h e l = Some l' \<and> lists_ok l' (f(h := f h @ [e]))"
  using lists_insert [OF assms(1,2), of "f h" "[]" h e] assms(3,4) by simp

section \<open>The invariant of a shard\<close>

definition idle :: "LRUHandle \<Rightarrow> bool" where
  "idle h \<longleftrightarrow> remote_lock_status h = 0 \<and> buffer_inv_message h = ClearStates \<and> remote_urging_type h = 0"

text \<open>\<open>X\<close> is the set of handles that an operation has taken out of a list and not yet put back.\<close>
definition handles_ok :: "nat set \<Rightarrow> handles \<Rightarrow> (nat \<Rightarrow> nat list) \<Rightarrow> bool" where
  "handles_ok X s f \<longleftrightarrow> (\<forall>e \<in> set (f 0). refs (s e) = 1 \<and> in_cache (s e))
     \<and> (\<forall>e \<in> set (f 1). 2 \<le> refs (s e) \<and> in_cache (s e))
     \<and> (\<forall>e \<in> set (f 2). refs (s e) = 0 \<and> idle (s e))
     \<and> (\<forall>e. e \<notin> set (f 0) \<union> set (f 1) \<union> X \<longrightarrow> \<not> in_cache (s e))
     \<and> (\<forall>e. remote_lock_status (s e) \<le> 2)"

definition cache_inv :: "nat set \<Rightarrow> LRUCache \<Rightarrow> (nat \<Rightarrow> nat list) \<Rightarrow> bool" where
  "cache_inv X c f \<longleftrightarrow> lists_ok (lnk c) f \<and> handles_ok X (hs c) f \<and> X \<inter> listed f = {}
     \<and> ht_ok (hs c) (table c) \<and> ht_entries (table c) = set (f 0) \<union> set (f 1)
     \<and> free_list_size c = length (f 2) \<and> length (f 0) \<le> lru_size c
     \<and> usage c = (\<Sum>e \<in> ht_entries (table c). charge (hs c e)) \<and> 0 < capacity c"

text \<open>The invariant without the table, for the moments when the table does not match the lists.\<close>
definition cache_core :: "LRUCache \<Rightarrow> (nat \<Rightarrow> nat list) \<Rightarrow> bool" where
  "cache_core c f \<longleftrightarrow> lists_ok (lnk c) f \<and> handles_ok {} (hs c) f
     \<and> free_list_size c = length (f 2) \<and> length (f 0) \<le> lru_size c
     \<and> usage c = (\<Sum>e \<in> set (f 0) \<union> set (f 1). charge (hs c e)) \<and> 0 < capacity c"

lemma cache_inv_core: "cache_inv {} c f \<longleftrightarrow> cache_core c f \<and> ht_ok (hs c) (table c) \<and> ht_entries (table c) = set (f 0) \<union> set (f 1)"
  by (auto simp: cache_inv_def cache_core_def)

lemma cache_coreD:
  assumes "cache_core c f"
  shows "lists_ok (lnk c) f" "handles_ok {} (hs c) f" "free_list_size c = length (f 2)" "length (f 0) \<le> lru_size c"
    "usage c = (\<Sum>e \<in> set (f 0) \<union> set (f 1). charge (hs c e))" "0 < capacity c"
  using assms by (auto simp: cache_core_def)

lemmas heads = lru_head_def in_use_head_def free_head_def

lemma cache_invD:
  assumes "cache_inv X c f"
  shows "lists_ok (lnk c) f" "handles_ok X (hs c) f" "X \<inter> listed f = {}" "ht_ok (hs c) (table c)"
    "ht_entries (table c) = set (f 0) \<union> set (f 1)" "free_list_size c = length (f 2)" "length (f 0) \<le> lru_size c"
    "usage c = (\<Sum>e \<in> ht_entries (table c). charge (hs c e))" "0 < capacity c"
  using assms by (auto simp: cache_inv_def)

lemma ht_ok_cong:
  assumes "ht_ok s t" "\<forall>x \<in> ht_entries t. hash_key (s' x) = hash_key (s x)"
  shows "ht_ok s' t"
proof -
  have "lh_hash (s' x) = lh_hash (s x)" if "x \<in> ht_entries t" for x
    using assms(2) that by (auto simp: hash_key_def)
  then have "chains_ok s' (ht_length t) (ht_list t)"
    using assms(1) nth_chain_entries [of _ t] by (auto simp: ht_ok_def chains_ok_def)
  moreover have "inj_on (\<lambda>x. hash_key (s' x)) (ht_entries t)"
    using assms by (auto simp: ht_ok_def inj_on_def)
  ultimately show ?thesis using assms(1) by (simp add: ht_ok_def)
qed

lemma charge_sum_upd:
  assumes "charge h = charge (s e)"
  shows "(\<Sum>x \<in> A. charge ((s(e := h)) x)) = (\<Sum>x \<in> A. charge (s x))"
  using assms by (intro sum.cong) auto

lemma finite_entries [simp]: "finite (ht_entries t)"
  by (simp add: ht_entries_def)

text \<open>A reference taken by a lookup: the handle is in use afterwards.\<close>
lemma Ref_effect:
  assumes "cache_inv {} c f" "e \<in> ht_entries (table c)"
  shows "\<exists>c' f'. Ref e c = Some c' \<and> cache_inv {} c' f' \<and> table c' = table c
     \<and> hs c' = (hs c)(e := (hs c e)\<lparr>refs := refs (hs c e) + 1\<rparr>) \<and> e \<in> set (f' 1)
     \<and> (f' = f \<or> f' = f(0 := remove1 e (f 0), 1 := f 1 @ [e])) \<and> evicted c' = evicted c"
proof -
  note inv = cache_invD [OF assms(1)]
  note dj = lists_ok_disjoint [OF inv(1)]
  let ?h = "(hs c e)\<lparr>refs := refs (hs c e) + 1\<rparr>"
  let ?s = "(hs c)(e := ?h)"
  have tab: "ht_ok ?s (table c)" by (rule ht_ok_cong [OF inv(4)]) (simp add: hash_key_def)
  have sum: "(\<Sum>x \<in> ht_entries (table c). charge (?s x)) = usage c" 
    unfolding inv(8) by (rule charge_sum_upd) simp
  show ?thesis
  proof (cases "e \<in> set (f 0)")
    case False
    then have e: "e \<in> set (f 1)" using assms(2) inv(5) by simp
    have "handles_ok {} ?s f" using inv(2) e dj by (auto simp: handles_ok_def idle_def)
    moreover have "Ref e c = Some (c\<lparr>hs := ?s\<rparr>)"
      using inv(2) e by (auto simp: Ref_def fetch_add_refs_def upd_def handles_ok_def Let_def)
    ultimately show ?thesis using inv tab sum e
      by (intro exI [of _ "c\<lparr>hs := ?s\<rparr>"] exI [of _ f]) (auto simp: cache_inv_def)
  next
    case True
    let ?g = "f(0 := remove1 e (f 0))"
    let ?f = "f(0 := remove1 e (f 0), 1 := f 1 @ [e])"
    obtain l1 where l1: "List_Remove e (lnk c) = Some l1" "lists_ok l1 ?g"
      using lists_remove [OF inv(1), of 0 e] True by auto
    have d0: "distinct (f 0)" using dj(5) by simp
    have e: "e \<notin> listed ?g" "3 \<le> e" using True dj d0 by (auto simp: listed_def set_remove1_eq)
    obtain l2 where l2: "List_Append in_use_head e l1 = Some l2" "lists_ok l2 ?f"
      using lists_append [OF l1(2) _ e(2,1), of 1] by (auto simp: heads)
    let ?c = "c\<lparr>hs := ?s, lnk := l2, lru_size := lru_size c - 1\<rparr>"
    have ref: "Ref e c = Some ?c"
      using inv(2) True l1 l2 by (auto simp: Ref_def fetch_add_refs_def upd_def handles_ok_def move_to_in_use_def Let_def)
    have "handles_ok {} ?s ?f"
      using inv(2) True dj d0 by (auto simp: handles_ok_def set_remove1_eq)
    moreover have "ht_entries (table c) = set (?f 0) \<union> set (?f 1)" using inv(5) True d0 by (auto simp: set_remove1_eq)
    moreover have "length (?f 0) \<le> lru_size c - 1" using inv(7) True by (simp add: length_remove1)
    ultimately have "cache_inv {} ?c ?f" using inv l2(2) tab sum by (simp add: cache_inv_def)
    then show ?thesis using ref by (intro exI [of _ ?c] exI [of _ ?f]) simp
  qed
qed

lemma call_deleter_simps [simp]:
  "lnk (call_deleter e c) = lnk c" "table (call_deleter e c) = table c" "usage (call_deleter e c) = usage c"
  "lru_size (call_deleter e c) = lru_size c" "free_list_size (call_deleter e c) = free_list_size c"
  "capacity (call_deleter e c) = capacity c" "free_list_trigger_limit (call_deleter e c) = free_list_trigger_limit c"
  "x \<noteq> e \<Longrightarrow> hs (call_deleter e c) x = hs c x"
  "gptr (hs (call_deleter e c) x) = gptr (hs c x)" "refs (hs (call_deleter e c) x) = refs (hs c x)"
  "charge (hs (call_deleter e c) x) = charge (hs c x)" "lh_hash (hs (call_deleter e c) x) = lh_hash (hs c x)"
  "in_cache (hs (call_deleter e c) x) = in_cache (hs c x)" "hvalue (hs (call_deleter e c) x) = hvalue (hs c x)"
  by (cases "hs c e"; cases "fst (Deallocate_MR_WITH_CCP (Cache_Handle.Cache_Handle.truncate (hs c e)))";
      simp add: call_deleter_def Let_def case_prod_unfold Cache_Handle.Cache_Handle.defs)+

lemma call_deleter_idle:
  assumes "remote_lock_status (hs c e) \<le> 2"
  shows "idle (hs (call_deleter e c) e)"
proof -
  have "remote_lock_status (hs c e) \<in> {0, 1, 2}" using assms by auto
  then show ?thesis
    using Deallocate_MR_WITH_CCP_resets(1-3) [of "Cache_Handle.Cache_Handle.truncate (hs c e)"]
    by (simp add: call_deleter_def idle_def Let_def case_prod_unfold Cache_Handle.Cache_Handle.defs)
qed

lemma fetch_simps [simp]:
  "lnk (fetch_sub_refs e c) = lnk c" "table (fetch_sub_refs e c) = table c" "usage (fetch_sub_refs e c) = usage c"
  "lru_size (fetch_sub_refs e c) = lru_size c" "free_list_size (fetch_sub_refs e c) = free_list_size c"
  "capacity (fetch_sub_refs e c) = capacity c" "evicted (fetch_sub_refs e c) = evicted c"
  "free_list_trigger_limit (fetch_sub_refs e c) = free_list_trigger_limit c"
  "hs (fetch_sub_refs e c) = (hs c)(e := (hs c e)\<lparr>refs := refs (hs c e) - 1\<rparr>)"
  by (simp_all add: fetch_sub_refs_def upd_def)

text \<open>Giving up a reference to a handle in use.\<close>
lemma Unref_in_use:
  assumes "cache_inv {} c f" "e \<in> set (f 1)"
  shows "\<exists>c' f'. Unref e c = Some c' \<and> cache_inv {} c' f' \<and> table c' = table c
     \<and> hs c' = (hs c)(e := (hs c e)\<lparr>refs := refs (hs c e) - 1\<rparr>) \<and> evicted c' = evicted c
     \<and> f' = (if refs (hs c e) = 2 then f(1 := remove1 e (f 1), 0 := f 0 @ [e]) else f)"
proof -
  note inv = cache_invD [OF assms(1)]
  note dj = lists_ok_disjoint [OF inv(1)]
  let ?h = "(hs c e)\<lparr>refs := refs (hs c e) - 1\<rparr>"
  let ?s = "(hs c)(e := ?h)"
  have r: "2 \<le> refs (hs c e)" "in_cache (hs c e)" using inv(2) assms(2) by (auto simp: handles_ok_def)
  have e0: "e \<notin> set (f 0)" using assms(2) dj(1) by auto
  have tab: "ht_ok ?s (table c)" by (rule ht_ok_cong [OF inv(4)]) (simp add: hash_key_def)
  have sum: "(\<Sum>x \<in> ht_entries (table c). charge (?s x)) = usage c"
    unfolding inv(8) by (rule charge_sum_upd) simp
  show ?thesis
  proof (cases "refs (hs c e) = 2")
    case False
    have "handles_ok {} ?s f" using inv(2) assms(2) r False e0 dj(3) by (auto simp: handles_ok_def idle_def)
    moreover have "Unref e c = Some (c\<lparr>hs := ?s\<rparr>)"
      using r False by (simp add: Unref_def fetch_sub_refs_def upd_def Let_def)
    ultimately show ?thesis using inv tab sum False
      by (intro exI [of _ "c\<lparr>hs := ?s\<rparr>"] exI [of _ f]) (auto simp: cache_inv_def)
  next
    case True
    let ?f1 = "f(1 := remove1 e (f 1))"
    let ?f = "f(1 := remove1 e (f 1), 0 := f 0 @ [e])"
    obtain l1 where l1: "List_Remove e (lnk c) = Some l1" "lists_ok l1 ?f1"
      using lists_remove [OF inv(1), of 1 e] assms(2) by auto
    have d1: "distinct (f 1)" using dj(5) by simp
    have "e \<notin> listed ?f1" "3 \<le> e" using assms(2) dj d1 by (auto simp: listed_def set_remove1_eq)
    from lists_append [OF l1(2), of 0 e] this obtain l2 where
      l2: "List_Append lru_head e l1 = Some l2" "lists_ok l2 ?f" by (auto simp: heads)
    let ?c = "c\<lparr>hs := ?s, lnk := l2, lru_size := lru_size c + 1\<rparr>"
    have ref: "Unref e c = Some ?c"
      using r True l1 l2 by (simp add: Unref_def fetch_sub_refs_def upd_def move_to_lru_def Let_def)
    have "handles_ok {} ?s ?f"
      using inv(2) True dj d1 assms(2) r by (auto simp: handles_ok_def set_remove1_eq)
    moreover have "ht_entries (table c) = set (?f 0) \<union> set (?f 1)" using inv(5) assms(2) d1 by (auto simp: set_remove1_eq)
    ultimately have "cache_inv {} ?c ?f" using inv l2(2) tab sum by (simp add: cache_inv_def)
    then show ?thesis using ref True by (intro exI [of _ ?c] exI [of _ ?f]) simp
  qed
qed

text \<open>Giving up a reference to a handle that has left the table: the last one frees it.\<close>
lemma Unref_detached:
  assumes "cache_inv {} c f" "e \<notin> listed f" "3 \<le> e" "1 \<le> refs (hs c e)"
  shows "\<exists>c' f'. Unref e c = Some c' \<and> cache_inv {} c' f' \<and> table c' = table c
     \<and> (\<forall>x. x \<noteq> e \<longrightarrow> hs c' x = hs c x) \<and> refs (hs c' e) = refs (hs c e) - 1
     \<and> f' = (if refs (hs c e) = 1 then f(2 := f 2 @ [e]) else f)"
proof -
  note inv = cache_invD [OF assms(1)]
  have out: "\<not> in_cache (hs c e)" "e \<notin> ht_entries (table c)"
    using inv(2,5) assms(2) by (auto simp: handles_ok_def listed_def)
  let ?c = "fetch_sub_refs e c"
  have sum: "(\<Sum>x \<in> ht_entries (table c). charge (s x)) = usage c" if "\<forall>x. x \<noteq> e \<longrightarrow> s x = hs c x" for s
    unfolding inv(8) using out(2) that by (intro sum.cong) auto
  have tab: "ht_ok s (table c)" if "\<forall>x. x \<noteq> e \<longrightarrow> s x = hs c x" for s
    by (rule ht_ok_cong [OF inv(4)]) (use that out(2) in force)
  show ?thesis
  proof (cases "refs (hs c e) = 1")
    case False
    have "handles_ok {} (hs ?c) f"
      using inv(2) assms(2) by (auto simp: handles_ok_def listed_def idle_def)
    then have "cache_inv {} ?c f" using inv tab [of "hs ?c"] sum [of "hs ?c"] by (simp add: cache_inv_def)
    then show ?thesis using False out(1) by (intro exI [of _ ?c] exI [of _ f]) (simp add: Unref_def Let_def)
  next
    case True
    let ?d = "call_deleter e ?c" and ?f = "f(2 := f 2 @ [e])"
    obtain l where l: "List_Append free_head e (lnk c) = Some l" "lists_ok l ?f"
      using lists_append [OF inv(1), of 2 e] assms(2,3) by (auto simp: heads)
    let ?c' = "?d\<lparr>lnk := l, free_list_size := free_list_size c + 1\<rparr>"
    have un: "Unref e c = Some ?c'" using True l by (simp add: Unref_def push_free_list_def Let_def)
    have same: "\<forall>x. x \<noteq> e \<longrightarrow> hs ?d x = hs c x" by simp
    have i: "idle (hs ?d e)" using inv(2) by (intro call_deleter_idle) (simp add: handles_ok_def)
    have "remote_lock_status (hs ?d x) \<le> 2" for x
      using inv(2) i same by (cases "x = e") (auto simp: handles_ok_def idle_def)
    then have "handles_ok {} (hs ?d) ?f"
      using inv(2) assms(2) i out(1) True by (auto simp: handles_ok_def listed_def)
    then have "cache_inv {} ?c' ?f"
      using inv l(2) tab [OF same] sum [OF same] by (simp add: cache_inv_def)
    then show ?thesis using un True same by (intro exI [of _ ?c'] exI [of _ ?f]) simp
  qed
qed

text \<open>Taking a cached handle out of its list and the table.\<close>
lemma detach:
  assumes "cache_core c f" "h < 2" "e \<in> set (f h)"
    and "ht_ok (hs c) t" "ht_entries t = set (f 0) \<union> set (f 1) - {e}" "lists_ok l (f(h := remove1 e (f h)))"
  shows "cache_inv {} (upd e (\<lambda>x. x\<lparr>in_cache := False\<rparr>) (c\<lparr>table := t, lnk := l, usage := usage c - charge (hs c e)\<rparr>))
      (f(h := remove1 e (f h)))" (is "cache_inv {} ?c ?f")
    and "e \<notin> listed (f(h := remove1 e (f h)))"
proof -
  note inv = cache_coreD [OF assms(1)]
  note dj = lists_ok_disjoint [OF inv(1)]
  have h: "h = 0 \<or> h = 1" using assms(2) by auto
  have d: "distinct (f 0)" "distinct (f 1)" using dj(5) by simp_all
  have e: "e \<in> set (f 0) \<union> set (f 1)" using h assms(3) by auto
  show "e \<notin> listed ?f" using h assms(3) d dj by (auto simp: listed_def set_remove1_eq)
  have same: "\<forall>x \<in> ht_entries t. hs ?c x = hs c x" using assms(5) by (simp add: upd_def)
  have tab: "ht_ok (hs ?c) t" by (rule ht_ok_cong [OF assms(4)]) (simp add: upd_def hash_key_def)
  have "(\<Sum>x \<in> ht_entries t. charge (hs ?c x)) = (\<Sum>x \<in> ht_entries t. charge (hs c x))"
    using same by (intro sum.cong) auto
  also have "\<dots> = usage c - charge (hs c e)" unfolding assms(5) inv(5) using e by (simp add: sum_diff1_nat)
  finally have sum: "usage c - charge (hs c e) = (\<Sum>x \<in> ht_entries t. charge (hs ?c x))" by simp
  have hok: "handles_ok {} (hs ?c) ?f"
    using inv(2) h d dj assms(3) by (auto simp: handles_ok_def upd_def set_remove1_eq idle_def)
  have ent: "ht_entries t = set (?f 0) \<union> set (?f 1)"
    using h d dj(1) assms(3,5) by (auto simp: set_remove1_eq)
  have len: "length (?f 0) \<le> lru_size c" "free_list_size c = length (?f 2)" using inv(3,4) h by (auto simp: length_remove1)
  define g where "g = ?f"
  have "cache_inv {} ?c g"
    using inv(6) hok [folded g_def] ent [folded g_def] tab sum assms(6) [folded g_def] len [folded g_def]
    by (simp add: cache_inv_def upd_def del: fun_upd_apply)
  then show "cache_inv {} ?c ?f" by (simp only: g_def)
qed

lemma FinishErase_effect:
  assumes "cache_core c f" "e \<in> set (f 0) \<union> set (f 1)"
    and "ht_ok (hs c) t" "ht_entries t = set (f 0) \<union> set (f 1) - {e}"
  shows "\<exists>c' f'. FinishErase (Some e) (c\<lparr>table := t\<rparr>) = Some (c', True) \<and> cache_inv {} c' f' \<and> table c' = t
     \<and> (\<forall>x. x \<noteq> e \<longrightarrow> hs c' x = hs c x)
     \<and> f' 0 = remove1 e (f 0) \<and> f' 1 = remove1 e (f 1) \<and> f' 2 = (if e \<in> set (f 0) then f 2 @ [e] else f 2)"
proof -
  note inv = cache_coreD [OF assms(1)]
  note dj = lists_ok_disjoint [OF inv(1)]
  define h :: nat where "h = (if e \<in> set (f 0) then 0 else 1)"
  have h: "h < 2" "e \<in> set (f h)" "h < 3" using assms(2) by (auto simp: h_def)
  let ?f = "f(h := remove1 e (f h))"
  obtain l where l: "List_Remove e (lnk c) = Some l" "lists_ok l ?f"
    using lists_remove [OF inv(1) h(3,2)] by blast
  let ?c = "upd e (\<lambda>x. x\<lparr>in_cache := False\<rparr>) (c\<lparr>table := t, lnk := l, usage := usage c - charge (hs c e)\<rparr>)"
  note dt = detach [OF assms(1) h(1,2) assms(3,4) l(2)]
  have e3: "3 \<le> e" using dj(4) h by (auto simp: listed_def less_3)
  have r: "refs (hs ?c e) = refs (hs c e)" "1 \<le> refs (hs c e)" "refs (hs c e) = 1 \<longleftrightarrow> e \<in> set (f 0)"
    using inv(2) h dj(1) by (auto simp: upd_def handles_ok_def h_def split: if_splits)
  obtain c' f' where un: "Unref e ?c = Some c'" "cache_inv {} c' f'" "table c' = table ?c"
      "\<forall>x. x \<noteq> e \<longrightarrow> hs c' x = hs ?c x" "f' = (if refs (hs ?c e) = 1 then ?f(2 := ?f 2 @ [e]) else ?f)"
    using Unref_detached [OF dt e3] r(1,2) by auto
  have fin: "FinishErase (Some e) (c\<lparr>table := t\<rparr>) = Some (c', True)"
    using l(1) un(1) by (simp add: FinishErase_def)
  have e1: "e \<notin> set (f 1)" if "e \<in> set (f 0)" using dj(1) that by auto
  have "f' 0 = remove1 e (f 0) \<and> f' 1 = remove1 e (f 1) \<and> f' 2 = (if e \<in> set (f 0) then f 2 @ [e] else f 2)"
    using un(5) r(1,3) e1 by (auto simp: h_def remove1_idem)
  moreover have "table c' = t" using un(3) by (simp add: upd_def)
  moreover have "\<forall>x. x \<noteq> e \<longrightarrow> hs c' x = hs c x" using un(4) by (simp add: upd_def)
  ultimately show ?thesis using fin un(2) by blast
qed

lemma Erase_effect:
  assumes "cache_inv {} c f"
  shows "\<exists>c' f'. Erase key h c = Some c' \<and> cache_inv {} c' f'
     \<and> (case HandleTable_Lookup (hs c) key h (table c) of
          None \<Rightarrow> c' = c \<and> f' = f
        | Some e \<Rightarrow> e \<in> ht_entries (table c) \<and> hash_key (hs c e) = (h, key) \<and> (\<forall>x. x \<noteq> e \<longrightarrow> hs c' x = hs c x)
           \<and> ht_entries (table c') = ht_entries (table c) - {e} \<and> f' 0 = remove1 e (f 0) \<and> f' 1 = remove1 e (f 1)
           \<and> f' 2 = (if e \<in> set (f 0) then f 2 @ [e] else f 2))"
proof (cases "HandleTable_Lookup (hs c) key h (table c)")
  case None
  then have "HandleTable_Remove (hs c) key h (table c) = (table c, None)"
    by (simp add: HandleTable_Remove_def HandleTable_Lookup_def Let_def split: prod.splits)
  then show ?thesis using None assms
    by (intro exI [of _ c] exI [of _ f]) (simp add: Erase_def FinishErase_def)
next
  case (Some e)
  note inv = cache_invD [OF assms]
  have e: "e \<in> ht_entries (table c)" "hash_key (hs c e) = (h, key)"
    using HandleTable_Lookup_iff [OF inv(4)] Some by blast+
  obtain t where t: "HandleTable_Remove (hs c) key h (table c) = (t, Some e)" "ht_ok (hs c) t"
      "ht_entries t = ht_entries (table c) - {e}"
    using ht.rem_entry [OF inv(4) e(1)] e(2) by auto
  have "cache_core c f" "ht_entries (table c) = set (f 0) \<union> set (f 1)" using assms by (simp_all add: cache_inv_core)
  with FinishErase_effect [of c f e t] e(1) t(2,3) obtain c' f' where
    "FinishErase (Some e) (c\<lparr>table := t\<rparr>) = Some (c', True)" "cache_inv {} c' f'" "table c' = t"
    "\<forall>x. x \<noteq> e \<longrightarrow> hs c' x = hs c x"
    "f' 0 = remove1 e (f 0)" "f' 1 = remove1 e (f 1)" "f' 2 = (if e \<in> set (f 0) then f 2 @ [e] else f 2)"
    by auto
  then show ?thesis using Some e t by (intro exI [of _ c'] exI [of _ f']) (simp add: Erase_def)
qed

text \<open>\<^verbatim>\<open>Prune\<close> ends with an empty eviction list.\<close>
lemma Prune_effect:
  assumes "cache_inv {} c f"
  shows "\<exists>c' f'. Prune c = Some c' \<and> cache_inv {} c' f' \<and> f' 0 = [] \<and> f' 1 = f 1 \<and> set (f' 2) = set (f 2) \<union> set (f 0)"
  using assms
proof (induction "length (f 0)" arbitrary: c f)
  case 0
  then have "nxt (lnk c) lru_head = Some lru_head"
    using lists_ok_oldest [OF cache_invD(1) [OF "0.prems"], of 0] by (simp add: heads)
  then show ?case using 0 by (subst Prune.simps) auto
next
  case (Suc n)
  note inv = cache_invD [OF Suc.prems]
  note dj = lists_ok_disjoint [OF inv(1)]
  obtain e es where f0: "f 0 = e # es" using Suc(2) by (cases "f 0") auto
  have nx: "nxt (lnk c) lru_head = Some e"
    using lists_ok_oldest [OF inv(1), of 0] f0 by (simp add: heads)
  have ne: "e \<noteq> lru_head" using dj(4) [of e] f0 by (simp add: listed_def heads)
  have ent: "e \<in> ht_entries (table c)" using inv(5) f0 by simp
  then have look: "HandleTable_Lookup (hs c) (gptr (hs c e)) (lh_hash (hs c e)) (table c) = Some e"
    using HandleTable_Lookup_iff [OF inv(4)] by (simp add: hash_key_def)
  obtain c1 f1 where e1: "Erase (gptr (hs c e)) (lh_hash (hs c e)) c = Some c1" "cache_inv {} c1 f1"
      "f1 0 = es" "f1 1 = f 1" "f1 2 = f 2 @ [e]"
    using Erase_effect [OF Suc.prems, of "gptr (hs c e)" "lh_hash (hs c e)"] look f0 dj(1)
    by (auto simp: remove1_idem)
  have "n = length (f1 0)" using Suc(2) f0 e1(3) by simp
  from Suc(1) [OF this e1(2)] e1 f0 show ?case
    using nx ne by (subst Prune.simps) auto
qed

lemma pop_free_list_effect:
  assumes "cache_inv {} c f"
  shows "f 2 = [] \<Longrightarrow> pop_free_list c = Some (free_head, c)"
    and "f 2 = e # es \<Longrightarrow> \<exists>c'. pop_free_list c = Some (e, c') \<and> cache_inv {} c' (f(2 := es)) \<and> hs c' = hs c
       \<and> table c' = table c \<and> evicted c' = evicted c \<and> e \<noteq> free_head \<and> 3 \<le> e \<and> e \<notin> listed (f(2 := es))"
proof -
  note inv = cache_invD [OF assms]
  note dj = lists_ok_disjoint [OF inv(1)]
  have nx: "nxt (lnk c) free_head = Some (hd (f 2 @ [free_head]))" using lists_ok_oldest [OF inv(1), of 2] by (simp add: heads)
  show "pop_free_list c = Some (free_head, c)" if "f 2 = []" using nx that by (simp add: pop_free_list_def)
  assume f: "f 2 = e # es"
  obtain l where l: "List_Remove e (lnk c) = Some l" "lists_ok l (f(2 := es))"
    using lists_remove [OF inv(1), of 2 e] f by auto
  have e: "3 \<le> e" "e \<notin> set es" using dj(4,5) [of e] dj(5) [of 2] f by (auto simp: listed_def)
  have "handles_ok {} (hs c) (f(2 := es))" using inv(2) f by (auto simp: handles_ok_def)
  then have "cache_inv {} (c\<lparr>lnk := l, free_list_size := free_list_size c - 1\<rparr>) (f(2 := es))"
    using inv l(2) f by (auto simp: cache_inv_def)
  moreover have "e \<notin> listed (f(2 := es))" using f e dj by (auto simp: listed_def)
  moreover have "e \<noteq> free_head" using e by (simp add: heads)
  ultimately show "\<exists>c'. pop_free_list c = Some (e, c') \<and> cache_inv {} c' (f(2 := es)) \<and> hs c' = hs c
       \<and> table c' = table c \<and> evicted c' = evicted c \<and> e \<noteq> free_head \<and> 3 \<le> e \<and> e \<notin> listed (f(2 := es))"
    using nx f l(1) e(1) by (simp add: pop_free_list_def)
qed

lemma evict_oldest_effect:
  assumes "cache_inv {} c f" "f 0 = e # es"
  shows "\<exists>c'. evict_oldest mark c = Some (e, c') \<and> cache_inv {e} c' (f(0 := es)) \<and> (\<forall>x. x \<noteq> e \<longrightarrow> hs c' x = hs c x)
     \<and> ht_entries (table c') = ht_entries (table c) - {e} \<and> idle (hs c' e) \<and> 3 \<le> e \<and> e \<notin> listed (f(0 := es))
     \<and> evicted c' = evicted c @ [(gptr (hs c e), snd (Deallocate_MR_WITH_CCP (Cache_Handle.Cache_Handle.truncate (hs c e))))]"
proof -
  note inv = cache_invD [OF assms(1)]
  note dj = lists_ok_disjoint [OF inv(1)]
  have nx: "nxt (lnk c) lru_head = Some e" using lists_ok_oldest [OF inv(1), of 0] assms(2) by (simp add: heads)
  have e: "3 \<le> e" "e \<notin> set es" "e \<in> ht_entries (table c)"
    using dj(4) [of e] dj(5) [of 0] assms(2) inv(5) by (auto simp: listed_def)
  obtain l where l: "List_Remove e (lnk c) = Some l" "lists_ok l (f(0 := es))"
    using lists_remove [OF inv(1), of 0 e] assms(2) by auto
  obtain t where t: "HandleTable_Remove (hs c) (gptr (hs c e)) (lh_hash (hs c e)) (table c) = (t, Some e)"
      "ht_ok (hs c) t" "ht_entries t = ht_entries (table c) - {e}"
    using ht.rem_entry [OF inv(4) e(3)] by (auto simp: hash_key_def)
  let ?c1 = "c\<lparr>table := t, lnk := l, lru_size := lru_size c - 1, usage := usage c - charge (hs c e)\<rparr>"
  let ?c2 = "fetch_sub_refs e (if mark then upd e (\<lambda>h. h\<lparr>in_cache := True\<rparr>) ?c1 else ?c1)"
  let ?c = "call_deleter e ?c2"
  have ev: "evict_oldest mark c = Some (e, ?c)"
    using nx t(1) l(1) by (simp add: evict_oldest_def Let_def)
  have same: "hs ?c x = hs c x" if "x \<noteq> e" for x using that by (simp add: upd_def)
  have st: "remote_lock_status (hs ?c2 e) = remote_lock_status (hs c e)" by (simp add: upd_def)
  have i: "idle (hs ?c e)" using inv(2) st by (intro call_deleter_idle) (simp add: handles_ok_def)
  have "remote_lock_status (hs ?c x) \<le> 2" for x
    using inv(2) i same [of x] by (cases "x = e") (auto simp: handles_ok_def idle_def)
  then have hok: "handles_ok {e} (hs ?c) (f(0 := es))"
    using inv(2) assms(2) e(2) same dj by (auto simp: handles_ok_def)
  have tab: "ht_ok (hs ?c) t" by (rule ht_ok_cong [OF t(2)]) (use same t(3) in auto)
  have "(\<Sum>x \<in> ht_entries t. charge (hs ?c x)) = (\<Sum>x \<in> ht_entries t. charge (hs c x))"
    using same t(3) by (intro sum.cong) auto
  also have "\<dots> = usage c - charge (hs c e)" unfolding t(3) inv(8) using e(3) by (simp add: sum_diff1_nat)
  finally have sum: "(\<Sum>x \<in> ht_entries t. charge (hs ?c x)) = usage c - charge (hs c e)" .
  have ent: "ht_entries t = set es \<union> set (f 1)" using t(3) inv(5) assms(2) e(2) dj(1) by auto
  have out: "e \<notin> listed (f(0 := es))" using e(2) assms(2) dj by (auto simp: listed_def)
  have fields: "lnk ?c = l" "table ?c = t" "usage ?c = usage c - charge (hs c e)" "lru_size ?c = lru_size c - 1"
      "free_list_size ?c = free_list_size c" "capacity ?c = capacity c"
    by (simp_all add: upd_def)
  define d where "d = ?c"
  have "cache_inv {e} d (f(0 := es))"
    using l(2) hok out tab ent sum inv(6,7,9) assms(2) fields unfolding d_def [symmetric] by (simp add: cache_inv_def)
  then have "cache_inv {e} ?c (f(0 := es))" by (simp only: d_def)
  moreover have "Cache_Handle.Cache_Handle.truncate (hs ?c2 e) = Cache_Handle.Cache_Handle.truncate (hs c e)"
      "gptr (hs ?c2 e) = gptr (hs c e)" "evicted ?c2 = evicted c"
    by (simp_all add: upd_def Cache_Handle.Cache_Handle.defs)
  then have "evicted ?c = evicted c @ [(gptr (hs c e), snd (Deallocate_MR_WITH_CCP (Cache_Handle.Cache_Handle.truncate (hs c e))))]"
    by (simp add: call_deleter_def Let_def case_prod_unfold)
  ultimately show ?thesis
    using ev same t(3) fields(2) i e(1) out by (intro exI [of _ ?c]) simp
qed

text \<open>Where the handle for a new page comes from.\<close>
definition taken :: "(nat \<Rightarrow> nat list) \<Rightarrow> nat \<times> (nat \<Rightarrow> nat list)" where
  "taken f = (if f 2 \<noteq> [] then (hd (f 2), f(2 := tl (f 2))) else (hd (f 0), f(0 := tl (f 0))))"

lemma cache_inv_loose:
  assumes "cache_inv {} c f" "e \<notin> listed f"
  shows "cache_inv {e} c f"
  using assms by (auto simp: cache_inv_def handles_ok_def)

lemma take_handle_effect:
  assumes "cache_inv {} c f" "f 2 \<noteq> [] \<or> f 0 \<noteq> []" "taken f = (e, f')"
  shows "\<exists>c'. take_handle mark c = Some (e, c') \<and> cache_inv {e} c' f' \<and> 3 \<le> e \<and> e \<notin> listed f' \<and> idle (hs c' e)
     \<and> (\<forall>x. x \<noteq> e \<longrightarrow> hs c' x = hs c x) \<and> ht_entries (table c') = ht_entries (table c) - {e}
     \<and> length (evicted c') = length (evicted c) + (if f 2 = [] then 1 else 0)"
proof (cases "f 2")
  case Nil
  then obtain es where f: "f 0 = e # es" "f' = f(0 := es)" using assms(2,3) by (cases "f 0") (auto simp: taken_def)
  note ev = evict_oldest_effect [OF assms(1) f(1), of mark]
  then show ?thesis
    using pop_free_list_effect(1) [OF assms(1) Nil] Nil f(2) by (auto simp: take_handle_def)
next
  case (Cons a es)
  then have e: "a = e" "f' = f(2 := es)" using assms(3) by (auto simp: taken_def)
  obtain c' where c': "pop_free_list c = Some (e, c')" "cache_inv {} c' f'" "hs c' = hs c" "table c' = table c"
      "evicted c' = evicted c" "e \<noteq> free_head" "3 \<le> e" "e \<notin> listed f'"
    using pop_free_list_effect(2) [OF assms(1) Cons] unfolding e by blast
  have "idle (hs c e)" "e \<notin> ht_entries (table c)"
    using cache_invD(2,5) [OF assms(1)] lists_ok_disjoint(2,3) [OF cache_invD(1) [OF assms(1)]] Cons e(1)
    by (auto simp: handles_ok_def)
  then show ?thesis
    using c' cache_inv_loose [OF c'(2,8)] Cons by (auto simp: take_handle_def)
qed

text \<open>Entering a handle under a key; an older handle of the same key is dropped.\<close>
lemma enter_handle_effect:
  assumes "cache_inv {e} c f" "3 \<le> e" "e \<notin> listed f" "idle (hs c e)" "ht_room (table c)"
  shows "\<exists>c' f'. enter_handle e key h val chrg c = Some c' \<and> cache_inv {} c' f' \<and> e \<in> set (f' 1) \<and> refs (hs c' e) = 2
     \<and> hash_key (hs c' e) = (h, key)
     \<and> ht_entries (table c') = insert e {y \<in> ht_entries (table c). hash_key (hs c y) \<noteq> (h, key)}
     \<and> (\<forall>x. x \<noteq> e \<and> x \<in> ht_entries (table c') \<longrightarrow> hs c' x = hs c x)
     \<and> ((\<forall>y \<in> ht_entries (table c). hash_key (hs c y) \<noteq> (h, key)) \<longrightarrow>
          f' = f(1 := f 1 @ [e]) \<and> (\<forall>x. x \<noteq> e \<longrightarrow> hs c' x = hs c x) \<and> evicted c' = evicted c)"
proof -
  note inv = cache_invD [OF assms(1)]
  note dj = lists_ok_disjoint [OF inv(1)]
  let ?h = "(hs c e)\<lparr>gptr := key, hvalue := val, charge := chrg, lh_hash := h, in_cache := True, refs := 2\<rparr>"
  let ?s = "(hs c)(e := ?h)" and ?f = "f(1 := f 1 @ [e])"
  have en: "e \<notin> ht_entries (table c)" using assms(3) inv(5) by (simp add: listed_def)
  obtain l where l: "List_Append in_use_head e (lnk c) = Some l" "lists_ok l ?f"
    using lists_append [OF inv(1) _ assms(2,3), of 1] by (auto simp: heads)
  let ?c = "c\<lparr>lnk := l, usage := usage c + chrg, hs := ?s\<rparr>"
  have tab: "ht_ok ?s (table c)" by (rule ht_ok_cong [OF inv(4)]) (use en in auto)
  have key: "hash_key (?s e) = (h, key)" by (simp add: hash_key_def)
  obtain t where t: "HandleTable_Insert ?s e (table c) = Some (t, HandleTable_Lookup ?s key h (table c))" "ht_ok ?s t"
      "ht_entries t = insert e {y \<in> ht_entries (table c). hash_key (?s y) \<noteq> (h, key)}"
    using ht.ins_effect [OF tab assms(5) en] unfolding key by auto
  have ent: "ht_entries t = insert e {y \<in> ht_entries (table c). hash_key (hs c y) \<noteq> (h, key)}"
    using t(3) en by auto
  have hok: "handles_ok {} ?s ?f"
    using inv(2) assms(3,4) by (auto simp: handles_ok_def listed_def idle_def)
  have "(\<Sum>x \<in> insert e (ht_entries (table c)). charge (?s x)) = chrg + (\<Sum>x \<in> ht_entries (table c). charge (hs c x))"
    using en by (simp, intro sum.cong) auto
  then have core: "cache_core ?c ?f"
    using inv(5-9) l(2) hok by (simp add: cache_core_def Un_commute)
  have run: "enter_handle e key h val chrg c
      = map_option fst (FinishErase (HandleTable_Lookup ?s key h (table c)) (?c\<lparr>table := t\<rparr>))"
    using inv(9) l(1) t(1) by (simp add: enter_handle_def upd_def fetch_add_refs_def Let_def numeral_2_eq_2)
  show ?thesis
  proof (cases "HandleTable_Lookup ?s key h (table c)")
    case None
    have none: "\<forall>y \<in> ht_entries (table c). hash_key (hs c y) \<noteq> (h, key)"
    proof
      fix y assume y: "y \<in> ht_entries (table c)"
      then have "?s y = hs c y" using en by auto
      then show "hash_key (hs c y) \<noteq> (h, key)"
        using y HandleTable_Lookup_iff [OF tab, of key h y] None by auto
    qed
    have "cache_inv {} (?c\<lparr>table := t\<rparr>) ?f"
      unfolding cache_inv_core using core t(2) ent none inv(5) by (auto simp: cache_core_def)
    then show ?thesis using run None ent none key
      by (intro exI [of _ "?c\<lparr>table := t\<rparr>"] exI [of _ ?f]) (auto simp: FinishErase_def)
  next
    case (Some y)
    then have y: "y \<in> ht_entries (table c)" "hash_key (?s y) = (h, key)"
      using HandleTable_Lookup_iff [OF tab] by blast+
    have y': "y \<noteq> e" using y(1) en by blast
    then have "hash_key (hs c y) = (h, key)" using y(2) by simp
    note y' = y' this
    have "ht_entries t = set (?f 0) \<union> set (?f 1) - {y}"
      using ent inv(5) y y' ht.keys_unique [OF inv(4)] by auto
    with FinishErase_effect [OF core, of y t] t(2) y(1) inv(5) obtain c' f' where
      c': "FinishErase (Some y) (?c\<lparr>table := t\<rparr>) = Some (c', True)" "cache_inv {} c' f'" "table c' = t"
        "\<forall>x. x \<noteq> y \<longrightarrow> hs c' x = ?s x" "f' 1 = remove1 y (?f 1)" by auto
    have "e \<in> set (f' 1)" "hs c' e = ?h" using c'(4,5) y'(1) by simp_all
    then show ?thesis using run Some c' ent y' y(1) key
      by (intro exI [of _ c'] exI [of _ f']) (auto simp: hash_key_def)
  qed
qed

lemma ht_room_less:
  assumes "ht_ok s t" "ht_ok s' t'" "ht_room t" "ht_entries t' \<subseteq> ht_entries t"
  shows "ht_room t'"
  using assms ht_elems_card [OF assms(1)] ht_elems_card [OF assms(2)] card_mono [OF finite_entries assms(4)]
  by (simp add: ht_room_def)

lemma LookupInsert_hit:
  assumes "cache_inv {} c f" "HandleTable_Lookup (hs c) key h (table c) = Some e"
  shows "\<exists>c' f'. LRUCache_LookupInsert key h val chrg c = Some (e, c') \<and> cache_inv {} c' f' \<and> e \<in> set (f' 1)
     \<and> table c' = table c \<and> hs c' = (hs c)(e := (hs c e)\<lparr>refs := refs (hs c e) + 1\<rparr>) \<and> evicted c' = evicted c"
proof -
  have "e \<in> ht_entries (table c)"
    using HandleTable_Lookup_iff [OF cache_invD(4) [OF assms(1)]] assms(2) by blast
  from Ref_effect [OF assms(1) this] show ?thesis using assms(2) by (auto simp: LRUCache_LookupInsert_def)
qed

text \<open>A miss takes the handle \<open>taken\<close> names and enters it; everything else stays in the cache.\<close>
lemma LookupInsert_miss:
  assumes "cache_inv {} c f" "HandleTable_Lookup (hs c) key h (table c) = None" "ht_room (table c)"
    and "f 2 \<noteq> [] \<or> f 0 \<noteq> []" "taken f = (e, f1)"
  shows "\<exists>c'. LRUCache_LookupInsert key h val chrg c = Some (e, c') \<and> cache_inv {} c' (f1(1 := f1 1 @ [e]))
     \<and> refs (hs c' e) = 2 \<and> hash_key (hs c' e) = (h, key) \<and> (\<forall>x. x \<noteq> e \<longrightarrow> hs c' x = hs c x)
     \<and> ht_entries (table c') = insert e (ht_entries (table c) - {e})
     \<and> length (evicted c') = length (evicted c) + (if f 2 = [] then 1 else 0)"
proof -
  note inv = cache_invD [OF assms(1)]
  obtain c1 where c1: "take_handle True c = Some (e, c1)" "cache_inv {e} c1 f1" "3 \<le> e" "e \<notin> listed f1"
      "idle (hs c1 e)" "\<forall>x. x \<noteq> e \<longrightarrow> hs c1 x = hs c x" "ht_entries (table c1) = ht_entries (table c) - {e}"
      "length (evicted c1) = length (evicted c) + (if f 2 = [] then 1 else 0)"
    using take_handle_effect [OF assms(1,4,5)] by blast
  have room: "ht_room (table c1)"
    by (rule ht_room_less [OF inv(4) cache_invD(4) [OF c1(2)] assms(3)]) (use c1(7) in auto)
  have none: "\<forall>y \<in> ht_entries (table c1). hash_key (hs c1 y) \<noteq> (h, key)"
    using ht.look_None [OF inv(4), of "(h, key)"] assms(2) c1(6,7) by auto
  obtain c' f' where c': "enter_handle e key h (if val \<noteq> 0 then val else hvalue (hs c1 e)) chrg c1 = Some c'"
      "cache_inv {} c' f'" "refs (hs c' e) = 2" "hash_key (hs c' e) = (h, key)"
      "ht_entries (table c') = insert e (ht_entries (table c1))" "f' = f1(1 := f1 1 @ [e])"
      "\<forall>x. x \<noteq> e \<longrightarrow> hs c' x = hs c1 x" "evicted c' = evicted c1"
    using enter_handle_effect [OF c1(2-5) room, of key h "if val \<noteq> 0 then val else hvalue (hs c1 e)" chrg] none
    by force
  show ?thesis
    using assms(2) c1 c' by (intro exI [of _ c']) (auto simp: LRUCache_LookupInsert_def)
qed

lemma Insert_effect:
  assumes "cache_inv {} c f" "ht_room (table c)" "f 2 \<noteq> [] \<or> f 0 \<noteq> []" "taken f = (e, f1)"
  shows "\<exists>c' f'. LRUCache_Insert key h val chrg c = Some (e, c') \<and> cache_inv {} c' f' \<and> e \<in> set (f' 1)
     \<and> refs (hs c' e) = 2 \<and> hash_key (hs c' e) = (h, key)
     \<and> ht_entries (table c') = insert e {y \<in> ht_entries (table c) - {e}. hash_key (hs c y) \<noteq> (h, key)}"
proof -
  note inv = cache_invD [OF assms(1)]
  obtain c1 where c1: "take_handle False c = Some (e, c1)" "cache_inv {e} c1 f1" "3 \<le> e" "e \<notin> listed f1"
      "idle (hs c1 e)" "\<forall>x. x \<noteq> e \<longrightarrow> hs c1 x = hs c x" "ht_entries (table c1) = ht_entries (table c) - {e}"
    using take_handle_effect [OF assms(1,3,4)] by blast
  have room: "ht_room (table c1)"
    by (rule ht_room_less [OF inv(4) cache_invD(4) [OF c1(2)] assms(2)]) (use c1(7) in auto)
  from enter_handle_effect [OF c1(2-5) room, of key h val chrg] obtain c' f' where
    c': "enter_handle e key h val chrg c1 = Some c'" "cache_inv {} c' f'" "e \<in> set (f' 1)" "refs (hs c' e) = 2"
      "hash_key (hs c' e) = (h, key)"
      "ht_entries (table c') = insert e {y \<in> ht_entries (table c1). hash_key (hs c1 y) \<noteq> (h, key)}"
    by (elim exE conjE)
  have eq: "hs c1 y = hs c y" if "y \<in> ht_entries (table c) - {e}" for y using c1(6) that by blast
  have "{y \<in> ht_entries (table c1). hash_key (hs c1 y) \<noteq> (h, key)}
      = {y \<in> ht_entries (table c) - {e}. hash_key (hs c y) \<noteq> (h, key)}"
    unfolding c1(7) using eq by (intro Collect_cong conj_cong refl) simp
  then show ?thesis using c1(1) c' by (auto simp: LRUCache_Insert_def)
qed

lemma Unref_Inv_in_use:
  assumes "cache_inv {} c f" "e \<in> set (f 1)"
  shows "\<exists>c' f'. Unref_Inv e c = Some c' \<and> cache_inv {} c' f' \<and> table c' = table c
     \<and> hs c' = (hs c)(e := (hs c e)\<lparr>refs := refs (hs c e) - 1\<rparr>) \<and> evicted c' = evicted c
     \<and> f' = (if refs (hs c e) = 2 then f(1 := remove1 e (f 1), 0 := e # f 0) else f)"
proof -
  note inv = cache_invD [OF assms(1)]
  note dj = lists_ok_disjoint [OF inv(1)]
  let ?h = "(hs c e)\<lparr>refs := refs (hs c e) - 1\<rparr>"
  let ?s = "(hs c)(e := ?h)"
  have r: "2 \<le> refs (hs c e)" "in_cache (hs c e)" using inv(2) assms(2) by (auto simp: handles_ok_def)
  have e0: "e \<notin> set (f 0)" using assms(2) dj(1) by auto
  have tab: "ht_ok ?s (table c)" by (rule ht_ok_cong [OF inv(4)]) (simp add: hash_key_def)
  have sum: "(\<Sum>x \<in> ht_entries (table c). charge (?s x)) = usage c"
    unfolding inv(8) by (rule charge_sum_upd) simp
  show ?thesis
  proof (cases "refs (hs c e) = 2")
    case False
    have "handles_ok {} ?s f" using inv(2) assms(2) r False e0 dj(3) by (auto simp: handles_ok_def idle_def)
    moreover have "Unref_Inv e c = Some (c\<lparr>hs := ?s\<rparr>)"
      using r False by (simp add: Unref_Inv_def fetch_sub_refs_def upd_def Let_def)
    ultimately show ?thesis using inv tab sum False
      by (intro exI [of _ "c\<lparr>hs := ?s\<rparr>"] exI [of _ f]) (auto simp: cache_inv_def)
  next
    case True
    let ?g = "f(1 := remove1 e (f 1))"
    let ?f = "f(1 := remove1 e (f 1), 0 := e # f 0)"
    obtain l1 where l1: "List_Remove e (lnk c) = Some l1" "lists_ok l1 ?g"
      using lists_remove [OF inv(1), of 1 e] assms(2) by auto
    have d1: "distinct (f 1)" using dj(5) by simp
    have e: "e \<notin> listed ?g" "3 \<le> e" using assms(2) dj d1 by (auto simp: listed_def set_remove1_eq)
    have nx: "nxt l1 lru_head = Some (hd (f 0 @ [0]))" using lists_ok_oldest [OF l1(2), of 0] by (simp add: heads)
    obtain l2 where l2: "List_Append (hd (f 0 @ [0])) e l1 = Some l2" "lists_ok l2 ?f"
      using lists_insert [OF l1(2), of 0 "[]" "f 0" "hd (f 0 @ [0])" e] e by auto
    let ?c = "c\<lparr>hs := ?s, lnk := l2, lru_size := lru_size c + 1\<rparr>"
    have ref: "Unref_Inv e c = Some ?c"
      using r True l1 nx l2 by (simp add: Unref_Inv_def fetch_sub_refs_def upd_def Let_def)
    have "handles_ok {} ?s ?f"
      using inv(2) True dj d1 assms(2) r by (auto simp: handles_ok_def set_remove1_eq)
    moreover have "ht_entries (table c) = set (?f 0) \<union> set (?f 1)" using inv(5) assms(2) d1 by (auto simp: set_remove1_eq)
    ultimately have "cache_inv {} ?c ?f" using inv l2(2) tab sum by (simp add: cache_inv_def)
    then show ?thesis using ref True by (intro exI [of _ ?c] exI [of _ ?f]) simp
  qed
qed

section \<open>Filling the free list in bulk\<close>

fun path :: "links \<Rightarrow> nat list \<Rightarrow> bool" where
  "path l (x # y # zs) \<longleftrightarrow> nxt l x = Some y \<and> prv l y = Some x \<and> path l (y # zs)"
| "path l _ \<longleftrightarrow> True"

lemma linked_path:
  "xs \<noteq> [] \<Longrightarrow> linked l a xs b \<longleftrightarrow> nxt l a = Some (hd xs) \<and> prv l (hd xs) = Some a \<and> path l xs
     \<and> nxt l (last xs) = Some b \<and> prv l b = Some (last xs)"
  by (induction l xs arbitrary: a rule: path.induct) auto

lemma path_cong:
  "\<forall>x \<in> set (butlast xs). nxt l' x = nxt l x \<Longrightarrow> \<forall>x \<in> set (tl xs). prv l' x = prv l x \<Longrightarrow> path l' xs \<longleftrightarrow> path l xs"
  by (induction l xs rule: path.induct) auto

lemma path_advance: "path l xs \<Longrightarrow> n < length xs \<Longrightarrow> advance n l (hd xs) = Some (xs ! n)"
proof (induction n arbitrary: xs)
  case (Suc n)
  then obtain x y zs where xs: "xs = x # y # zs" by (cases xs; cases "tl xs") auto
  then show ?case using Suc.IH [of "y # zs"] Suc.prems by simp
qed (simp add: hd_conv_nth)

lemma chain_path: "path l xs \<Longrightarrow> xs \<noteq> [] \<Longrightarrow> nxt l (last xs) = None \<Longrightarrow> chain l (hd xs) = Some xs"
proof (induction l xs rule: path.induct)
  case (1 l x y zs)
  then have "chain l y = Some (y # zs)" by simp
  then show ?case using "1.prems" by (subst chain.simps) simp
qed (simp_all add: chain.simps)

lemma butlast_last_notin: "distinct xs \<Longrightarrow> x \<in> set (butlast xs) \<Longrightarrow> x \<noteq> last xs"
  by (cases xs rule: rev_cases) auto

lemma tl_hd_notin: "distinct xs \<Longrightarrow> x \<in> set (tl xs) \<Longrightarrow> x \<noteq> hd xs"
  by (cases xs) auto

lemma bulk_remove_ring:
  assumes "ring l 0 (xs @ ys)" "xs \<noteq> []"
  shows "\<exists>l'. bulk_remove_LRU_list (length xs) l = Some ((hd xs, last xs), l') \<and> ring l' 0 ys \<and> path l' xs
     \<and> nxt l' (last xs) = None \<and> agree (- set (0 # xs @ ys)) l l'"
proof -
  let ?n = "hd (ys @ [0])"
  have d: "distinct (0 # xs @ ys)" and lk: "linked l 0 (xs @ ys) 0" using assms(1) by (simp_all add: ring_def)
  have x: "linked l 0 xs ?n \<and> (ys \<noteq> [] \<longrightarrow> linked l (hd ys) (tl ys) 0)"
    using lk by (cases ys) (simp_all add: linked_append)
  then have p: "nxt l 0 = Some (hd xs)" "prv l (hd xs) = Some 0" "path l xs" "nxt l (last xs) = Some ?n"
    using linked_path [OF assms(2)] by blast+
  have adv: "advance (length xs - 1) l (hd xs) = Some (last xs)"
    using path_advance [OF p(3), of "length xs - 1"] assms(2) by (simp add: last_conv_nth)
  let ?l = "\<lparr>nxt = (nxt l)(0 := Some ?n, last xs := None), prv = (prv l)(?n := Some 0, hd xs := None)\<rparr>"
  have run: "bulk_remove_LRU_list (length xs) l = Some ((hd xs, last xs), ?l)"
    using p adv by (simp add: bulk_remove_LRU_list_def Let_def heads)
  have m: "hd xs \<in> set xs" "last xs \<in> set xs" using assms(2) by simp_all
  have "?n \<in> set (ys @ [0])" by (rule hd_in_set) simp
  then have n: "?n \<notin> set xs" using d by auto
  have ne: "last xs \<noteq> 0" "hd xs \<noteq> 0" "?n \<noteq> hd xs" "?n \<notin> set xs"
  proof -
    have "0 \<notin> set xs" using d by simp
    then show "last xs \<noteq> 0" "hd xs \<noteq> 0" using m by metis+
    show "?n \<noteq> hd xs" using m(1) n by metis
  qed (rule n)
  have "path ?l xs \<longleftrightarrow> path l xs"
  proof (rule path_cong)
    show "\<forall>x \<in> set (butlast xs). nxt ?l x = nxt l x"
      using d butlast_last_notin [of xs] by (auto dest: in_set_butlastD)
    show "\<forall>x \<in> set (tl xs). prv ?l x = prv l x"
      using ne d tl_hd_notin [of xs] list.set_sel(2) [of xs] assms(2) by fastforce
  qed
  moreover have "ring ?l 0 ys"
  proof (cases ys)
    case (Cons y zs)
    have nin: "last xs \<notin> set (y # zs)" "hd xs \<notin> set (y # zs)" using d m Cons by auto
    have "linked ?l y zs 0 \<longleftrightarrow> linked l y zs 0"
      using d Cons nin ne by (intro linked_cong) auto
    then show ?thesis using x Cons ne d by (simp add: ring_def)
  qed (use ne in \<open>simp add: ring_def\<close>)
  moreover have "agree (- set (0 # xs @ ys)) l ?l" using m by (auto simp: agree_def hd_append)
  ultimately show ?thesis using run p(3) by auto
qed

lemma bulk_insert_ring:
  assumes "ring l 2 fr" "path l xs" "xs \<noteq> []" "distinct (2 # fr @ xs)"
  shows "\<exists>l'. bulk_insert_free_list (hd xs, last xs) l = Some l' \<and> ring l' 2 (fr @ xs) \<and> agree (- set (2 # fr @ xs)) l l'"
proof -
  let ?p = "last (2 # fr)"
  have m: "hd xs \<in> set xs" "last xs \<in> set xs" using assms(3) by simp_all
  have "?p \<in> set (2 # fr)" by (rule last_in_set) simp
  then have ne: "hd xs \<noteq> 2" "last xs \<noteq> 2" "?p \<notin> set xs" "hd xs \<notin> set fr" "last xs \<notin> set fr"
    using m assms(4) by (auto simp del: last.simps)
  have p: "prv l 2 = Some ?p" by (rule ring_last [OF assms(1)])
  let ?l = "\<lparr>nxt = (nxt l)(last xs := Some 2, ?p := Some (hd xs)), prv = (prv l)(hd xs := Some ?p, 2 := Some (last xs))\<rparr>"
  have run: "bulk_insert_free_list (hd xs, last xs) l = Some ?l"
    using p ne by (simp add: bulk_insert_free_list_def Let_def heads)
  have "path ?l xs \<longleftrightarrow> path l xs"
  proof (rule path_cong)
    show "\<forall>x \<in> set (butlast xs). nxt ?l x = nxt l x"
      using assms(4) ne(3) butlast_last_notin [of xs] by (auto dest: in_set_butlastD split: if_splits)
    show "\<forall>x \<in> set (tl xs). prv ?l x = prv l x"
      using assms(3,4) tl_hd_notin [of xs] list.set_sel(2) [of xs] by fastforce
  qed
  then have tail: "linked ?l ?p xs 2" using assms(2,3) ne m by (simp add: linked_path) auto
  have "linked ?l 2 (fr @ xs) 2"
  proof (cases fr rule: rev_cases)
    case Nil
    then show ?thesis using tail by simp
  next
    case (snoc zs z)
    have "linked l 2 zs z" using assms(1) snoc by (simp add: ring_def linked_append)
    moreover have "linked ?l 2 zs z \<longleftrightarrow> linked l 2 zs z"
      using assms(4) ne snoc by (intro linked_cong) auto
    ultimately show ?thesis using tail snoc by (simp add: linked_append)
  qed
  then have "ring ?l 2 (fr @ xs)" using assms(4) by (simp add: ring_def)
  moreover have "agree (- set (2 # fr @ xs)) l ?l" using m by (auto simp: agree_def)
  ultimately show ?thesis using run by blast
qed

lemma lists_bulk:
  assumes "lists_ok l f" "f 0 = xs @ ys" "xs \<noteq> []"
  shows "\<exists>l1 l2. bulk_remove_LRU_list (length xs) l = Some ((hd xs, last xs), l1) \<and> chain l1 (hd xs) = Some xs
     \<and> bulk_insert_free_list (hd xs, last xs) l1 = Some l2 \<and> lists_ok l2 (f(0 := ys, 2 := f 2 @ xs))"
proof -
  have s: "set (h # f h) \<inter> set (h' # f h') = {}" if "h < 3" "h' < 3" "h \<noteq> h'" for h h'
    using assms(1) that unfolding lists_ok_def by blast
  note r = lists_ok_ring [OF assms(1)]
  obtain l1 where l1: "bulk_remove_LRU_list (length xs) l = Some ((hd xs, last xs), l1)" "ring l1 0 ys" "path l1 xs"
      "nxt l1 (last xs) = None" "agree (- set (0 # f 0)) l l1"
    using bulk_remove_ring [of l xs ys] r [of 0] assms(2,3) by auto
  have "ring l1 2 (f 2)" "ring l1 1 (f 1)"
    using s [of 0 2] s [of 0 1] r [of 2] r [of 1] by (auto intro!: ring_frame [of l] agree_mono [OF l1(5)])
  moreover have d: "distinct (2 # f 2 @ xs)" "distinct (f 0)" "0 \<notin> set (f 0)"
    using r [of 0] r [of 2] s [of 0 2] assms(2) by (auto simp: ring_def)
  ultimately obtain l2 where l2: "bulk_insert_free_list (hd xs, last xs) l1 = Some l2" "ring l2 2 (f 2 @ xs)"
      "agree (- set (2 # f 2 @ xs)) l1 l2"
    using bulk_insert_ring [of l1 "f 2" xs] l1(3) assms(3) by blast
  have "ring l2 0 ys" using l1(2) s [of 0 2] d assms(2)
    by (intro ring_frame [OF l1(2)] agree_mono [OF l2(3)]) auto
  moreover have "ring l2 1 (f 1)" using s [of 0 1] s [of 1 2] assms(2)
    by (intro ring_frame [OF \<open>ring l1 1 (f 1)\<close>] agree_mono [OF l2(3)]) auto
  moreover have "set (h # (f(0 := ys, 2 := f 2 @ xs)) h) \<inter> set (h' # (f(0 := ys, 2 := f 2 @ xs)) h') = {}"
    if "h < 3" "h' < 3" "h \<noteq> h'" for h h'
    using that s [of 0 1] s [of 0 2] s [of 1 2] assms(2) d(2,3) unfolding less_3 by auto
  ultimately have "lists_ok l2 (f(0 := ys, 2 := f 2 @ xs))"
    using l2(2) unfolding lists_ok_def less_3 by auto
  then show ?thesis using l1(1) chain_path [OF l1(3) assms(3) l1(4)] l2(1) by blast
qed

lemma leave_table_fold:
  assumes "ht_ok (hs c) (table c)" "usage c = (\<Sum>e \<in> ht_entries (table c). charge (hs c e))"
    and "distinct es" "set es \<subseteq> ht_entries (table c)"
  shows "\<exists>t. foldl leave_table c es = c\<lparr>usage := \<Sum>e \<in> ht_entries (table c) - set es. charge (hs c e), table := t,
        hs := \<lambda>x. if x \<in> set es then (hs c x)\<lparr>in_cache := False\<rparr> else hs c x\<rparr>
     \<and> ht_ok (hs c) t \<and> ht_entries t = ht_entries (table c) - set es"
  using assms
proof (induction es arbitrary: c)
  case Nil
  have "c\<lparr>usage := usage c, table := table c, hs := hs c\<rparr> = c" by simp
  then show ?case using Nil by (intro exI [of _ "table c"]) simp
next
  case (Cons e es)
  let ?s = "(hs c)(e := (hs c e)\<lparr>in_cache := False\<rparr>)"
  have tab: "ht_ok ?s (table c)" by (rule ht_ok_cong [OF Cons.prems(1)]) (simp add: hash_key_def)
  have e: "e \<in> ht_entries (table c)" using Cons.prems(4) by simp
  obtain t where t: "HandleTable_Remove ?s (gptr (hs c e)) (lh_hash (hs c e)) (table c) = (t, Some e)" "ht_ok ?s t"
      "ht_entries t = ht_entries (table c) - {e}"
    using ht.rem_entry [OF tab e] by (auto simp: hash_key_def)
  let ?c = "c\<lparr>usage := usage c - charge (hs c e), hs := ?s, table := t\<rparr>"
  have step: "leave_table c e = ?c" using t(1) by (simp add: leave_table_def upd_def Let_def)
  have "usage c - charge (hs c e) = (\<Sum>x \<in> ht_entries t. charge (hs c x))"
    unfolding t(3) Cons.prems(2) using e by (simp add: sum_diff1_nat)
  also have "\<dots> = (\<Sum>x \<in> ht_entries t. charge (?s x))" by (intro sum.cong) auto
  finally have us: "usage ?c = (\<Sum>x \<in> ht_entries (table ?c). charge (hs ?c x))" by simp
  have sub: "set es \<subseteq> ht_entries (table ?c)" "distinct es" using Cons.prems(3,4) t(3) by auto
  have ok: "ht_ok (hs ?c) (table ?c)" using t(2) by (simp del: fun_upd_apply)
  have fields: "hs ?c = ?s" "table ?c = t" by simp_all
  obtain t' where t': "foldl leave_table ?c es = ?c\<lparr>usage := \<Sum>e \<in> ht_entries t - set es. charge (?s e),
        table := t', hs := \<lambda>x. if x \<in> set es then (?s x)\<lparr>in_cache := False\<rparr> else ?s x\<rparr>"
      "ht_ok ?s t'" "ht_entries t' = ht_entries t - set es"
    using Cons.IH [OF ok us sub(2,1), unfolded fields] by (elim exE conjE)
  have ent: "ht_entries t - set es = ht_entries (table c) - set (e # es)" using t(3) by auto
  have "(\<Sum>x \<in> ht_entries t - set es. charge (?s x)) = (\<Sum>x \<in> ht_entries (table c) - set (e # es). charge (hs c x))"
    unfolding ent by (intro sum.cong) auto
  moreover have "(\<lambda>x. if x \<in> set es then (?s x)\<lparr>in_cache := False\<rparr> else ?s x)
      = (\<lambda>x. if x \<in> set (e # es) then (hs c x)\<lparr>in_cache := False\<rparr> else hs c x)"
    by (rule ext) simp
  moreover have "ht_ok (hs c) t'" by (rule ht_ok_cong [OF t'(2)]) (simp add: hash_key_def)
  ultimately show ?case using t' ent step by (intro exI [of _ t']) simp
qed

lemma drop_page_fold:
  assumes "distinct es" "\<forall>e \<in> set es. remote_lock_status (hs c e) \<le> 2"
  shows "\<exists>s ev. foldl drop_page c es = c\<lparr>hs := s, evicted := evicted c @ ev\<rparr> \<and> map fst ev = map (\<lambda>e. gptr (hs c e)) es
     \<and> (\<forall>x. x \<notin> set es \<longrightarrow> s x = hs c x)
     \<and> (\<forall>x. hash_key (s x) = hash_key (hs c x) \<and> charge (s x) = charge (hs c x) \<and> in_cache (s x) = in_cache (hs c x))
     \<and> (\<forall>x \<in> set es. idle (s x) \<and> refs (s x) = refs (hs c x) - 1)"
  using assms
proof (induction es arbitrary: c)
  case Nil
  have "c\<lparr>hs := hs c, evicted := evicted c @ []\<rparr> = c" by simp
  then show ?case by (intro exI [of _ "hs c"] exI [of _ "[]"]) simp
next
  case (Cons e es)
  let ?d = "drop_page c e"
  have d: "?d = c\<lparr>hs := hs ?d, evicted := evicted c @ [(gptr (hs c e), snd (Deallocate_MR_WITH_CCP (Cache_Handle.Cache_Handle.truncate (hs c e))))]\<rparr>"
    by (simp add: drop_page_def call_deleter_def fetch_sub_refs_def upd_def Let_def case_prod_unfold Cache_Handle.Cache_Handle.defs)
  have same: "\<forall>x. x \<noteq> e \<longrightarrow> hs ?d x = hs c x" by (simp add: drop_page_def)
  have keep: "\<forall>x. hash_key (hs ?d x) = hash_key (hs c x) \<and> charge (hs ?d x) = charge (hs c x) \<and> in_cache (hs ?d x) = in_cache (hs c x)"
    by (simp add: drop_page_def hash_key_def)
  have "remote_lock_status (hs (fetch_sub_refs e c) e) \<le> 2" using Cons.prems(2) by simp
  from call_deleter_idle [OF this] have i: "idle (hs ?d e)" "refs (hs ?d e) = refs (hs c e) - 1" by (simp_all add: drop_page_def)
  have "\<forall>x \<in> set es. remote_lock_status (hs ?d x) \<le> 2" using Cons.prems same by auto
  then obtain s ev where ih: "foldl drop_page ?d es = ?d\<lparr>hs := s, evicted := evicted ?d @ ev\<rparr>"
      "map fst ev = map (\<lambda>e. gptr (hs ?d e)) es" "\<forall>x. x \<notin> set es \<longrightarrow> s x = hs ?d x"
      "\<forall>x. hash_key (s x) = hash_key (hs ?d x) \<and> charge (s x) = charge (hs ?d x) \<and> in_cache (s x) = in_cache (hs ?d x)"
      "\<forall>x \<in> set es. idle (s x) \<and> refs (s x) = refs (hs ?d x) - 1"
    using Cons.IH [of ?d] Cons.prems(1) by auto
  let ?v = "(gptr (hs c e), snd (Deallocate_MR_WITH_CCP (Cache_Handle.Cache_Handle.truncate (hs c e))))"
  have "foldl drop_page c (e # es) = c\<lparr>hs := s, evicted := evicted c @ ?v # ev\<rparr>"
    using ih(1) by (subst (asm) (2 3) d) simp
  moreover have "map (\<lambda>e. gptr (hs ?d e)) es = map (\<lambda>e. gptr (hs c e)) es"
    using same Cons.prems(1) by auto
  ultimately show ?case using ih(2-5) same keep i Cons.prems(1)
    by (intro exI [of _ s] exI [of _ "?v # ev"]) auto
qed

text \<open>The background thread refills the free list with the oldest unreferenced pages.\<close>
lemma prepare_free_list_effect:
  assumes "cache_inv {} c f" "need_eviction c" "f 0 = xs @ ys" "length xs = free_list_trigger_limit c - free_list_size c"
  shows "\<exists>c'. prepare_free_list c = Some c' \<and> cache_inv {} c' (f(0 := ys, 2 := f 2 @ xs))
     \<and> free_list_size c' = free_list_trigger_limit c \<and> free_list_trigger_limit c' = free_list_trigger_limit c
     \<and> map fst (drop (length (evicted c)) (evicted c')) = map (\<lambda>e. gptr (hs c e)) xs
     \<and> (\<forall>x. x \<notin> set xs \<longrightarrow> hs c' x = hs c x)"
proof -
  note inv = cache_invD [OF assms(1)]
  note dj = lists_ok_disjoint [OF inv(1)]
  let ?f = "f(0 := ys, 2 := f 2 @ xs)"
  have ne: "xs \<noteq> []" using assms(2,4) by (auto simp: need_eviction_def)
  obtain l1 l2 where l: "bulk_remove_LRU_list (length xs) (lnk c) = Some ((hd xs, last xs), l1)" "chain l1 (hd xs) = Some xs"
      "bulk_insert_free_list (hd xs, last xs) l1 = Some l2" "lists_ok l2 ?f"
    using lists_bulk [OF inv(1) assms(3) ne] by blast
  have d: "distinct (xs @ ys)" using dj(5) [of 0] assms(3) by simp
  have sub: "set xs \<subseteq> ht_entries (table c)" using inv(5) assms(3) by auto
  let ?c1 = "c\<lparr>lnk := l1\<rparr>" and ?s1 = "\<lambda>x. if x \<in> set xs then (hs c x)\<lparr>in_cache := False\<rparr> else hs c x"
  obtain t where t: "foldl leave_table ?c1 xs = ?c1\<lparr>usage := \<Sum>e \<in> ht_entries (table c) - set xs. charge (hs c e), table := t, hs := ?s1\<rparr>"
      "ht_ok (hs c) t" "ht_entries t = ht_entries (table c) - set xs"
  proof -
    have "ht_ok (hs ?c1) (table ?c1)" "usage ?c1 = (\<Sum>e \<in> ht_entries (table ?c1). charge (hs ?c1 e))"
      "set xs \<subseteq> ht_entries (table ?c1)" "distinct xs" using inv(4,8) sub d by simp_all
    note lt = leave_table_fold [OF this(1,2,4,3)]
    have "hs ?c1 = hs c" "table ?c1 = table c" by simp_all
    from lt [unfolded this] that show ?thesis by blast
  qed
  let ?c2 = "foldl leave_table ?c1 xs"
  have hs2: "hs ?c2 = ?s1" using t(1) by simp
  have st: "\<forall>e \<in> set xs. remote_lock_status (hs ?c2 e) \<le> 2" using inv(2) unfolding hs2 by (simp add: handles_ok_def)
  have ge: "map (\<lambda>e. gptr (hs ?c2 e)) xs = map (\<lambda>e. gptr (hs c e)) xs" unfolding hs2 by simp
  obtain s ev where s: "foldl drop_page ?c2 xs = ?c2\<lparr>hs := s, evicted := evicted ?c2 @ ev\<rparr>"
      "map fst ev = map (\<lambda>e. gptr (hs c e)) xs" "\<forall>x. x \<notin> set xs \<longrightarrow> s x = hs ?c2 x"
      "\<forall>x. hash_key (s x) = hash_key (hs ?c2 x) \<and> charge (s x) = charge (hs ?c2 x) \<and> in_cache (s x) = in_cache (hs ?c2 x)"
      "\<forall>x \<in> set xs. idle (s x) \<and> refs (s x) = refs (hs ?c2 x) - 1"
    using drop_page_fold [OF _ st] d unfolding ge by auto
  let ?c = "c\<lparr>lnk := l2, usage := \<Sum>e \<in> ht_entries t. charge (hs c e), table := t, hs := s, evicted := evicted c @ ev,
     free_list_size := free_list_trigger_limit c\<rparr>"
  have run: "prepare_free_list c = Some ?c"
    using assms(2,4) l(1-3) s(1) t(1,3) by (simp add: prepare_free_list_def need_eviction_def Let_def)
  have s': "\<forall>x. x \<notin> set xs \<longrightarrow> s x = hs c x" "\<forall>x. hash_key (s x) = hash_key (hs c x) \<and> charge (s x) = charge (hs c x)"
    "\<forall>x \<in> set xs. idle (s x) \<and> refs (s x) = refs (hs c x) - 1 \<and> \<not> in_cache (s x)"
    using s(3-5) unfolding hs2 by (auto simp: hash_key_def)
  have rs: "remote_lock_status (s x) \<le> 2" for x
    using s'(1,3) inv(2) by (cases "x \<in> set xs") (auto simp: handles_ok_def idle_def)
  have disj: "set xs \<inter> set (f 1) = {}" "set xs \<inter> set (f 2) = {}" "set xs \<inter> set ys = {}" using dj(1,2) assms(3) d by auto
  have hok: "handles_ok {} s ?f"
    unfolding handles_ok_def
  proof (intro conjI)
    show "\<forall>e \<in> set (?f 0). refs (s e) = 1 \<and> in_cache (s e)"
      using inv(2) s'(1) disj(3) assms(3) by (auto simp: handles_ok_def)
    show "\<forall>e \<in> set (?f 1). 2 \<le> refs (s e) \<and> in_cache (s e)"
      using inv(2) s'(1) disj(1) by (auto simp: handles_ok_def)
    have "refs (s e) = 0 \<and> idle (s e)" if "e \<in> set xs" for e
      using inv(2) s'(3) that assms(3) by (auto simp: handles_ok_def)
    then show "\<forall>e \<in> set (?f 2). refs (s e) = 0 \<and> idle (s e)"
      using inv(2) s'(1) disj(2) by (auto simp: handles_ok_def)
    show "\<forall>e. e \<notin> set (?f 0) \<union> set (?f 1) \<union> {} \<longrightarrow> \<not> in_cache (s e)"
    proof (intro allI impI)
      fix e assume "e \<notin> set (?f 0) \<union> set (?f 1) \<union> {}"
      then show "\<not> in_cache (s e)"
        using s'(1,3) inv(2) assms(3) by (cases "e \<in> set xs") (auto simp: handles_ok_def)
    qed
  qed (use rs in simp)
  have ent: "ht_entries t = set ys \<union> set (f 1)" using t(3) inv(5) assms(3) disj d by auto
  have tab: "ht_ok s t" by (rule ht_ok_cong [OF t(2)]) (use s'(2) in blast)
  have "(\<Sum>e \<in> ht_entries t. charge (hs c e)) = (\<Sum>e \<in> ht_entries t. charge (s e))" using s'(2) by simp
  moreover have "length ys \<le> lru_size c" using inv(7) assms(3) by simp
  moreover have "free_list_trigger_limit c = length (f 2) + length xs"
    using assms(2,4) inv(6) by (simp add: need_eviction_def)
  ultimately have "cache_inv {} ?c ?f"
    using l(4) hok tab ent inv(9) by (simp add: cache_inv_def)
  then show ?thesis using run s(2) s'(1) by (intro exI [of _ ?c]) simp
qed


section \<open>A new shard\<close>

text \<open>The constructor makes three empty rings; \<^verbatim>\<open>init\<close> fills the free list with one handle per page that
  fits the capacity and one more, each with a buffer (\<open>buf\<close> is what \<^verbatim>\<open>Allocate_Local_RDMA_Slot\<close> returned).\<close>
definition new_handle :: "nat \<Rightarrow> LRUHandle" where
  "new_handle buf = \<lparr>remote_lock_status = 0, lock_pending_num = 0, reader_spin_time = 0,
     last_writer_starvation_priority = 0, read_lock_counter = 0, write_lock_counter = 0,
     remote_urging_type = 0, buffer_inv_message = ClearStates, rw_mtx = 0,
     gptr = GlobalAddress_Null, refs = 0, hvalue = buf, charge = 0, lh_hash = 0, in_cache = False\<rparr>"

definition empty_links :: links where
  "empty_links = \<lparr>nxt = (\<lambda>x. if x < 3 then Some x else None), prv = (\<lambda>x. if x < 3 then Some x else None)\<rparr>"

definition new_LRUCache :: "nat \<Rightarrow> handles \<Rightarrow> LRUCache option" where
  "new_LRUCache cap s = map_option (\<lambda>t. \<lparr>capacity = cap, usage = 0, table = t, lnk = empty_links, lru_size = 0,
     free_list_size = 0, free_list_trigger_limit = 0, hs = s, evicted = []\<rparr>) (new_table s)"

fun push_all :: "nat list \<Rightarrow> LRUCache \<Rightarrow> LRUCache option" where
  "push_all [] c = Some c"
| "push_all (e # es) c = do { c1 \<leftarrow> push_free_list e c; push_all es c1 }"

definition init :: "LRUCache \<Rightarrow> LRUCache option" where
  "init c = (let cache_line_limit = capacity c div kLeafPageSize + 1
     in push_all [3..<3 + cache_line_limit] (c\<lparr>free_list_trigger_limit := cache_line_limit div 500\<rparr>))"

lemma push_all_effect:
  "lists_ok (lnk c) f \<Longrightarrow> distinct es \<Longrightarrow> \<forall>e \<in> set es. 3 \<le> e \<and> e \<notin> listed f \<Longrightarrow>
    \<exists>l. push_all es c = Some (c\<lparr>lnk := l, free_list_size := free_list_size c + length es\<rparr>) \<and> lists_ok l (f(2 := f 2 @ es))"
proof (induction es arbitrary: c f)
  case (Cons e es)
  obtain l where l: "List_Append free_head e (lnk c) = Some l" "lists_ok l (f(2 := f 2 @ [e]))"
    using lists_append [OF Cons.prems(1), of 2 e] Cons.prems(3) by (auto simp: heads)
  let ?c = "c\<lparr>lnk := l, free_list_size := free_list_size c + 1\<rparr>"
  have "\<forall>x \<in> set es. 3 \<le> x \<and> x \<notin> listed (f(2 := f 2 @ [e]))" using Cons.prems(2,3) by (auto simp: listed_def)
  moreover have "lists_ok (lnk ?c) (f(2 := f 2 @ [e]))" "distinct es" using l(2) Cons.prems(2) by simp_all
  ultimately obtain l' where "push_all es ?c = Some (?c\<lparr>lnk := l', free_list_size := free_list_size ?c + length es\<rparr>)"
      "lists_ok l' (f(2 := f 2 @ [e], 2 := (f(2 := f 2 @ [e])) 2 @ es))"
    using Cons.IH by blast
  then show ?case using l(1) by (intro exI [of _ l'] conjI) (simp_all add: push_free_list_def del: fun_upd_apply add: fun_upd_same)
next
  case Nil
  then show ?case by (intro exI [of _ "lnk c"]) simp
qed

lemma init_ok:
  assumes "0 < cap" "\<forall>x. idle (s x) \<and> refs (s x) = 0 \<and> \<not> in_cache (s x)" "new_LRUCache cap s = Some c0"
  shows "\<exists>c. init c0 = Some c \<and> cache_inv {} c (\<lambda>h. if h = 2 then [3..<3 + (cap div kLeafPageSize + 1)] else [])
     \<and> hs c = s \<and> table c = table c0 \<and> evicted c = []"
proof -
  obtain t where t: "new_table s = Some t" "ht_ok s t" "ht_entries t = {}" using new_table_ok by blast
  have c0: "c0 = \<lparr>capacity = cap, usage = 0, table = t, lnk = empty_links, lru_size = 0,
     free_list_size = 0, free_list_trigger_limit = 0, hs = s, evicted = []\<rparr>"
    using assms(3) t(1) by (simp add: new_LRUCache_def)
  have l0: "lists_ok empty_links (\<lambda>h. [])" by (auto simp: lists_ok_def ring_def empty_links_def)
  let ?n = "cap div kLeafPageSize + 1"
  let ?c = "c0\<lparr>free_list_trigger_limit := ?n div 500\<rparr>"
  obtain l where l: "push_all [3..<3 + ?n] ?c = Some (?c\<lparr>lnk := l, free_list_size := ?n\<rparr>)"
      "lists_ok l ((\<lambda>h. [])(2 := [3..<3 + ?n]))"
    using push_all_effect [of ?c "\<lambda>h. []" "[3..<3 + ?n]"] l0 by (auto simp: c0 listed_def)
  have f: "(\<lambda>h. [])(2 := [3..<3 + ?n]) = (\<lambda>h. if h = 2 then [3..<3 + ?n] else [])" by auto
  have "remote_lock_status (s x) \<le> 2" for x using assms(2) by (simp add: idle_def)
  then have "cache_inv {} (?c\<lparr>lnk := l, free_list_size := ?n\<rparr>) (\<lambda>h. if h = 2 then [3..<3 + ?n] else [])"
    using l(2) t assms(1,2) unfolding f by (simp add: cache_inv_def handles_ok_def c0)
  then show ?thesis using l(1) by (simp add: init_def c0)
qed

section \<open>Properties of the page cache\<close>

datatype cop = C_Lookup GlobalAddress u32 | C_LookupInsert GlobalAddress u32 nat nat | C_Insert GlobalAddress u32 nat nat
  | C_Release nat | C_Release_Inv nat | C_Erase GlobalAddress u32 | C_Prune | C_Prepare

fun run_cop :: "cop \<Rightarrow> LRUCache \<Rightarrow> LRUCache option" where
  "run_cop (C_Lookup key h) c = map_option snd (LRUCache_Lookup key h c)"
| "run_cop (C_LookupInsert key h val chrg) c = map_option snd (LRUCache_LookupInsert key h val chrg c)"
| "run_cop (C_Insert key h val chrg) c = map_option snd (LRUCache_Insert key h val chrg c)"
| "run_cop (C_Release e) c = LRUCache_Release e c"
| "run_cop (C_Release_Inv e) c = LRUCache_Release_Inv e c"
| "run_cop (C_Erase key h) c = Erase key h c"
| "run_cop C_Prune c = Prune c"
| "run_cop C_Prepare c = prepare_free_list c"

text \<open>
  What the operations need: references are given up by their holders, a new page needs a free
  or an unreferenced handle, and the free list is refilled from an eviction list that is long enough.
\<close>
fun cop_ok :: "cop \<Rightarrow> LRUCache \<Rightarrow> (nat \<Rightarrow> nat list) \<Rightarrow> bool" where
  "cop_ok (C_LookupInsert key h val chrg) c f \<longleftrightarrow> ht_room (table c) \<and> (f 2 \<noteq> [] \<or> f 0 \<noteq> [])"
| "cop_ok (C_Insert key h val chrg) c f \<longleftrightarrow> ht_room (table c) \<and> (f 2 \<noteq> [] \<or> f 0 \<noteq> [])"
| "cop_ok (C_Release e) c f \<longleftrightarrow> e \<in> set (f 1) \<or> (e \<notin> listed f \<and> 3 \<le> e \<and> 1 \<le> refs (hs c e))"
| "cop_ok (C_Release_Inv e) c f \<longleftrightarrow> e \<in> set (f 1)"
| "cop_ok C_Prepare c f \<longleftrightarrow> free_list_trigger_limit c - free_list_size c \<le> length (f 0)"
| "cop_ok _ c f \<longleftrightarrow> True"

lemma cache_inv_step:
  assumes "cache_inv {} c f" "cop_ok op c f"
  shows "\<exists>c' f'. run_cop op c = Some c' \<and> cache_inv {} c' f'"
proof (cases op)
  case (C_Lookup key h)
  show ?thesis
  proof (cases "HandleTable_Lookup (hs c) key h (table c)")
    case (Some e)
    then have "e \<in> ht_entries (table c)" using HandleTable_Lookup_iff [OF cache_invD(4) [OF assms(1)]] by blast
    from Ref_effect [OF assms(1) this] Some show ?thesis by (auto simp: C_Lookup LRUCache_Lookup_def)
  qed (use assms in \<open>auto simp: C_Lookup LRUCache_Lookup_def\<close>)
next
  case (C_LookupInsert key h val chrg)
  obtain e f1 where t: "taken f = (e, f1)" by (cases "taken f")
  show ?thesis
  proof (cases "HandleTable_Lookup (hs c) key h (table c)")
    case None
    from LookupInsert_miss [OF assms(1) None _ _ t, of val chrg] assms(2) show ?thesis by (auto simp: C_LookupInsert)
  next
    case (Some x)
    from LookupInsert_hit [OF assms(1) Some, of val chrg] show ?thesis by (auto simp: C_LookupInsert)
  qed
next
  case (C_Insert key h val chrg)
  obtain e f1 where t: "taken f = (e, f1)" by (cases "taken f")
  from Insert_effect [OF assms(1) _ _ t, of key h val chrg] assms(2) show ?thesis by (auto simp: C_Insert)
next
  case (C_Release e)
  then show ?thesis
    using assms(2) Unref_in_use [OF assms(1), of e] Unref_detached [OF assms(1), of e] by (auto simp: LRUCache_Release_def)
next
  case (C_Release_Inv e)
  then show ?thesis using assms(2) Unref_Inv_in_use [OF assms(1), of e] by (auto simp: LRUCache_Release_Inv_def)
next
  case (C_Erase key h)
  then show ?thesis using Erase_effect [OF assms(1), of key h] by auto
next
  case C_Prune
  then show ?thesis using Prune_effect [OF assms(1)] by auto
next
  case C_Prepare
  let ?n = "free_list_trigger_limit c - free_list_size c"
  have "f 0 = take ?n (f 0) @ drop ?n (f 0)" "length (take ?n (f 0)) = ?n" using assms(2) C_Prepare by simp_all
  from prepare_free_list_effect [OF assms(1) _ this] assms(1) show ?thesis
    by (cases "need_eviction c") (auto simp: C_Prepare prepare_free_list_def)
qed


definition demo_f :: "nat \<Rightarrow> nat list" where
  "demo_f = (\<lambda>h. if h = 2 then [3] else [])"

lemma demo_cache:
  "\<exists>c0 c. new_LRUCache 1 (\<lambda>_. new_handle 9) = Some c0 \<and> init c0 = Some c \<and> cache_inv {} c demo_f
     \<and> hs c = (\<lambda>_. new_handle 9) \<and> ht_room (table c) \<and> ht_entries (table c) = {} \<and> evicted c = []"
proof -
  obtain t where t: "new_table (\<lambda>_. new_handle 9) = Some t" using new_table_ok by blast
  then obtain c0 where c0: "new_LRUCache 1 (\<lambda>_. new_handle 9) = Some c0" by (simp add: new_LRUCache_def)
  have idle: "\<forall>x :: nat. idle (new_handle 9) \<and> refs (new_handle 9) = 0 \<and> \<not> in_cache (new_handle 9)"
    by (simp add: idle_def new_handle_def)
  have eq: "(\<lambda>h :: nat. if h = 2 then [3..<3 + (1 div kLeafPageSize + 1)] else []) = demo_f"
    by (simp add: demo_f_def kLeafPageSize_def fun_eq_iff)
  obtain c where c: "init c0 = Some c" "cache_inv {} c demo_f" "hs c = (\<lambda>_. new_handle 9)" "evicted c = []"
    using init_ok [OF _ idle c0] unfolding eq by auto
  have "ht_entries (table c) = {}" using cache_invD(5) [OF c(2)] by (simp add: demo_f_def)
  moreover have "ht_room (table c)" using ht_elems_card [OF cache_invD(4) [OF c(2)]] calculation by (simp add: ht_room_def)
  ultimately show ?thesis using c0 c by blast
qed


text \<open>What later lookups find after a hit and after a miss.\<close>
lemma LookupInsert_hit_lookup:
  assumes "cache_inv {} c f" "HandleTable_Lookup (hs c) key h (table c) = Some e"
  shows "\<exists>c'. LRUCache_LookupInsert key h val chrg c = Some (e, c') \<and> 2 \<le> refs (hs c' e)
     \<and> (\<forall>key' h'. HandleTable_Lookup (hs c') key' h' (table c') = HandleTable_Lookup (hs c) key' h' (table c))"
proof -
  obtain c' f' where c': "LRUCache_LookupInsert key h val chrg c = Some (e, c')" "cache_inv {} c' f'" "e \<in> set (f' 1)"
      "table c' = table c" "hs c' = (hs c)(e := (hs c e)\<lparr>refs := refs (hs c e) + 1\<rparr>)"
    using LookupInsert_hit [OF assms, of val chrg] by blast
  have keys: "hash_key (hs c' x) = hash_key (hs c x)" for x using c'(5) by (simp add: hash_key_def)
  have "HandleTable_Lookup (hs c') k g (table c') = Some x \<longleftrightarrow> HandleTable_Lookup (hs c) k g (table c) = Some x" for k g x
    using HandleTable_Lookup_iff [OF cache_invD(4) [OF c'(2)]] HandleTable_Lookup_iff [OF cache_invD(4) [OF assms(1)]] keys c'(4)
    by simp
  then have "HandleTable_Lookup (hs c') k g (table c') = HandleTable_Lookup (hs c) k g (table c)" for k g
    by (metis option.exhaust)
  moreover have "2 \<le> refs (hs c' e)" using cache_invD(2) [OF c'(2)] c'(3) by (simp add: handles_ok_def)
  ultimately show ?thesis using c'(1) by blast
qed

lemma taken_cached:
  assumes "cache_inv {} c f" "f 2 \<noteq> [] \<or> f 0 \<noteq> []" "taken f = (e, f1)"
  shows "e \<in> ht_entries (table c) \<longleftrightarrow> f 2 = []" "f 2 = [] \<Longrightarrow> e = hd (f 0)"
proof -
  note inv = cache_invD [OF assms(1)]
  show "e = hd (f 0)" if "f 2 = []" using assms(3) that by (simp add: taken_def)
  show "e \<in> ht_entries (table c) \<longleftrightarrow> f 2 = []"
  proof (cases "f 2")
    case Nil
    then have "e = hd (f 0)" "f 0 \<noteq> []" using assms(2,3) by (auto simp: taken_def)
    then show ?thesis using Nil inv(5) by simp
  next
    case (Cons x xs)
    then have e: "e \<in> set (f 2)" using assms(3) by (auto simp: taken_def)
    have "e \<notin> set (f 0)" using e lists_ok_disjoint(2) [OF inv(1)] by (meson disjoint_iff)
    moreover have "e \<notin> set (f 1)" using e lists_ok_disjoint(3) [OF inv(1)] by (meson disjoint_iff)
    ultimately show ?thesis using Cons inv(5) by simp
  qed
qed

lemma LookupInsert_miss_lookup:
  assumes "cache_inv {} c f" "HandleTable_Lookup (hs c) key h (table c) = None" "ht_room (table c)" "f 2 \<noteq> [] \<or> f 0 \<noteq> []"
  shows "\<exists>e c'. LRUCache_LookupInsert key h val chrg c = Some (e, c') \<and> refs (hs c' e) = 2
     \<and> HandleTable_Lookup (hs c') key h (table c') = Some e
     \<and> (\<forall>key' h'. (h', key') \<noteq> (h, key) \<longrightarrow> HandleTable_Lookup (hs c') key' h' (table c') =
          (if f 2 = [] \<and> hash_key (hs c (hd (f 0))) = (h', key') then None else HandleTable_Lookup (hs c) key' h' (table c)))"
proof -
  note inv = cache_invD [OF assms(1)]
  obtain e f1 where t: "taken f = (e, f1)" by (cases "taken f")
  obtain c' where c': "LRUCache_LookupInsert key h val chrg c = Some (e, c')" "cache_inv {} c' (f1(1 := f1 1 @ [e]))"
      "refs (hs c' e) = 2" "hash_key (hs c' e) = (h, key)" "\<forall>x. x \<noteq> e \<longrightarrow> hs c' x = hs c x"
      "ht_entries (table c') = insert e (ht_entries (table c) - {e})"
    using LookupInsert_miss [OF assms(1-4) t, of val chrg] by (elim exE conjE)
  note look = HandleTable_Lookup_iff [OF cache_invD(4) [OF c'(2)]] HandleTable_Lookup_iff [OF inv(4)]
  note old = taken_cached [OF assms(1,4) t]
  have "HandleTable_Lookup (hs c') key' h' (table c') = Some x \<longleftrightarrow>
      \<not> (f 2 = [] \<and> hash_key (hs c (hd (f 0))) = (h', key')) \<and> HandleTable_Lookup (hs c) key' h' (table c) = Some x"
    if "(h', key') \<noteq> (h, key)" for key' h' x
  proof (cases "x = e")
    case True
    then show ?thesis using look [of key' h' e] c'(4) that old by auto
  next
    case False
    then show ?thesis using look [of key' h' x] c'(5,6) old ht.keys_unique [OF inv(4), of x e] by auto
  qed
  then have "HandleTable_Lookup (hs c') key' h' (table c') =
      (if f 2 = [] \<and> hash_key (hs c (hd (f 0))) = (h', key') then None else HandleTable_Lookup (hs c) key' h' (table c))"
    if "(h', key') \<noteq> (h, key)" for key' h'
    using that by (metis option.exhaust)
  moreover have "HandleTable_Lookup (hs c') key h (table c') = Some e" using look(1) c'(4,6) by simp
  ultimately show ?thesis using c'(1,3) by auto
qed

text \<open>
  Looking a page up or inserting it.  The handle that is returned is the one later lookups of
  the page find, and the caller holds a reference to it.  Every other page is found as
  before, except that on a miss with an empty free list the least recently used unreferenced
  page, and only that one, has been evicted.
\<close>

theorem lookup_insert_correct:
  assumes "cache_inv {} c f" "ht_room (table c)" "f 2 \<noteq> [] \<or> f 0 \<noteq> []"
  shows "\<exists>e c'. LRUCache_LookupInsert key h val chrg c = Some (e, c')
     \<and> HandleTable_Lookup (hs c') key h (table c') = Some e \<and> 2 \<le> refs (hs c' e)
     \<and> (\<forall>key' h'. (h', key') \<noteq> (h, key) \<longrightarrow> HandleTable_Lookup (hs c') key' h' (table c') =
          (if HandleTable_Lookup (hs c) key h (table c) = None \<and> f 2 = [] \<and> hash_key (hs c (hd (f 0))) = (h', key')
           then None else HandleTable_Lookup (hs c) key' h' (table c)))"
proof (cases "HandleTable_Lookup (hs c) key h (table c)")
  case (Some e)
  then show ?thesis using LookupInsert_hit_lookup [OF assms(1) Some, of val chrg] by auto
next
  case None
  obtain e c' where "LRUCache_LookupInsert key h val chrg c = Some (e, c')" "refs (hs c' e) = 2"
      "HandleTable_Lookup (hs c') key h (table c') = Some e"
      "\<forall>key' h'. (h', key') \<noteq> (h, key) \<longrightarrow> HandleTable_Lookup (hs c') key' h' (table c') =
          (if f 2 = [] \<and> hash_key (hs c (hd (f 0))) = (h', key') then None else HandleTable_Lookup (hs c) key' h' (table c))"
    using LookupInsert_miss_lookup [OF assms(1) None assms(2,3), of val chrg] by (elim exE conjE)
  then show ?thesis using None by auto
qed

theorem lookup_insert_correct_witness:
  "\<exists>c0 c e c'. new_LRUCache 1 (\<lambda>_. new_handle 9) = Some c0 \<and> init c0 = Some c
     \<and> LRUCache_LookupInsert (GlobalAddress 1 64) 7 0 16392 c = Some (e, c')
     \<and> HandleTable_Lookup (hs c') (GlobalAddress 1 64) 7 (table c') = Some e \<and> 2 \<le> refs (hs c' e)"
proof -
  obtain c0 c where c: "new_LRUCache 1 (\<lambda>_. new_handle 9) = Some c0" "init c0 = Some c" "cache_inv {} c demo_f"
      "ht_room (table c)"
    using demo_cache by blast
  have "demo_f 2 \<noteq> [] \<or> demo_f 0 \<noteq> []" by (simp add: demo_f_def)
  from lookup_insert_correct [OF c(3,4) this, of "GlobalAddress 1 64" 7 0 16392] c(1,2) show ?thesis by blast
qed

text \<open>
  Refilling the free list.  When the eviction list is long enough, the background refill
  returns, brings the free list to its trigger size, evicts the least recently used pages in
  order and leaves every page in use and every younger page where it was.
\<close>

theorem free_list_refill:
  assumes "cache_inv {} c f" "need_eviction c" "f 0 = xs @ ys" "length xs = free_list_trigger_limit c - free_list_size c"
  shows "\<exists>c'. prepare_free_list c = Some c' \<and> \<not> need_eviction c'
     \<and> map fst (drop (length (evicted c)) (evicted c')) = map (\<lambda>e. gptr (hs c e)) xs
     \<and> ring (lnk c') free_head (f 2 @ xs) \<and> ring (lnk c') lru_head ys \<and> ring (lnk c') in_use_head (f 1)
     \<and> (\<forall>e \<in> set ys \<union> set (f 1). HandleTable_Lookup (hs c') (gptr (hs c e)) (lh_hash (hs c e)) (table c') = Some e)"
proof -
  let ?f = "f(0 := ys, 2 := f 2 @ xs)"
  obtain c' where c': "prepare_free_list c = Some c'" "cache_inv {} c' ?f" "free_list_size c' = free_list_trigger_limit c"
      "free_list_trigger_limit c' = free_list_trigger_limit c"
      "map fst (drop (length (evicted c)) (evicted c')) = map (\<lambda>e. gptr (hs c e)) xs"
      "\<forall>x. x \<notin> set xs \<longrightarrow> hs c' x = hs c x"
    using prepare_free_list_effect [OF assms] by (elim exE conjE)
  note inv = cache_invD [OF c'(2)]
  note dj = lists_ok_disjoint [OF cache_invD(1) [OF assms(1)]]
  have rings: "ring (lnk c') free_head (f 2 @ xs)" "ring (lnk c') lru_head ys" "ring (lnk c') in_use_head (f 1)"
    using lists_ok_ring [OF inv(1), of 2] lists_ok_ring [OF inv(1), of 0] lists_ok_ring [OF inv(1), of 1] by (simp_all add: heads)
  have "HandleTable_Lookup (hs c') (gptr (hs c e)) (lh_hash (hs c e)) (table c') = Some e" if "e \<in> set ys \<union> set (f 1)" for e
  proof -
    have "e \<notin> set xs" using that dj(1) dj(5) [of 0] assms(3) by auto
    then have "hs c' e = hs c e" using c'(6) by blast
    moreover have "e \<in> ht_entries (table c')" using inv(5) that by simp
    ultimately show ?thesis using HandleTable_Lookup_iff [OF inv(4)] by (simp add: hash_key_def)
  qed
  then show ?thesis using c' rings by (auto simp: need_eviction_def)
qed

lemma demo_idle_page:
  "\<exists>c. cache_inv {} c (demo_f(0 := [3], 2 := [])) \<and> gptr (hs c 3) = GlobalAddress 1 64 \<and> lh_hash (hs c 3) = 7"
proof -
  obtain c where c: "cache_inv {} c demo_f" "ht_room (table c)" "ht_entries (table c) = {}" using demo_cache by blast
  have none: "HandleTable_Lookup (hs c) (GlobalAddress 1 64) 7 (table c) = None"
    using ht.look_None [OF cache_invD(4) [OF c(1)], of "(7, GlobalAddress 1 64)"] c(3) by simp
  have f: "demo_f 2 \<noteq> [] \<or> demo_f 0 \<noteq> []" "taken demo_f = (3, demo_f(2 := []))" by (simp_all add: demo_f_def taken_def)
  obtain c1 where c1: "cache_inv {} c1 (demo_f(2 := [], 1 := [3]))" "refs (hs c1 3) = 2"
      "hash_key (hs c1 3) = (7, GlobalAddress 1 64)"
    using LookupInsert_miss [OF c(1) none c(2) f, of 0 16392] by (auto simp: demo_f_def)
  obtain c2 f' where c2: "cache_inv {} c2 f'" "hs c2 = (hs c1)(3 := (hs c1 3)\<lparr>refs := refs (hs c1 3) - 1\<rparr>)"
      "f' = (demo_f(2 := [], 1 := [3]))(1 := [], 0 := [3])"
    using Unref_in_use [OF c1(1), of 3] c1(2) by (auto simp: demo_f_def)
  have "f' = demo_f(0 := [3], 2 := [])" unfolding c2(3) by (auto simp: demo_f_def)
  then show ?thesis using c2 c1(3) by (auto simp: hash_key_def)
qed

lemma cache_inv_trigger: "cache_inv X (c\<lparr>free_list_trigger_limit := n\<rparr>) f \<longleftrightarrow> cache_inv X c f"
  by (simp add: cache_inv_def)

theorem free_list_refill_witness:
  "\<exists>c c'. need_eviction c \<and> prepare_free_list c = Some c' \<and> \<not> need_eviction c'
     \<and> map fst (drop (length (evicted c)) (evicted c')) = [GlobalAddress 1 64]"
proof -
  obtain c where c: "cache_inv {} c (demo_f(0 := [3], 2 := []))" "gptr (hs c 3) = GlobalAddress 1 64"
    using demo_idle_page by blast
  let ?c = "c\<lparr>free_list_trigger_limit := 1\<rparr>"
  have inv: "cache_inv {} ?c (demo_f(0 := [3], 2 := []))" using c(1) by (simp only: cache_inv_trigger)
  have n: "free_list_size c = 0" using cache_invD(6) [OF c(1)] by simp
  then have "need_eviction ?c" "length [3 :: nat] = free_list_trigger_limit ?c - free_list_size ?c" by (simp_all add: need_eviction_def)
  from free_list_refill [OF inv this(1) _ this(2), of "[]"] this(1) c(2) have
    "need_eviction ?c \<and> (\<exists>c'. prepare_free_list ?c = Some c' \<and> \<not> need_eviction c'
      \<and> map fst (drop (length (evicted ?c)) (evicted c')) = [GlobalAddress 1 64])" by auto
  then show ?thesis by - (rule exI [of _ ?c], simp)
qed

text \<open>
  Refilling from an empty eviction list.  The refill does not check the length of the eviction
  list: when no page is evictable it takes the dummy head of the list itself, \<open>lru_head\<close>, and puts it on the free
  list as if it were a page handle, and the eviction list has no head afterwards.
\<close>

theorem refill_takes_list_head:
  assumes "cache_inv {} c f" "need_eviction c" "f 0 = []"
  shows "\<exists>c'. prepare_free_list c = Some c' \<and> ring (lnk c') free_head (f 2 @ [lru_head])"
proof -
  note inv = cache_invD [OF assms(1)]
  let ?n = "free_list_trigger_limit c - free_list_size c"
  have n0: "nxt (lnk c) 0 = Some 0" "prv (lnk c) 0 = Some 0"
    using lists_ok_ring [OF inv(1), of 0] assms(3) by (simp_all add: ring_def)
  have adv: "advance k (lnk c) 0 = Some 0" for k by (induction k) (simp_all add: n0)
  let ?l = "(lnk c)\<lparr>nxt := (nxt (lnk c))(0 := None), prv := (prv (lnk c))(0 := None)\<rparr>"
  have rem: "bulk_remove_LRU_list ?n (lnk c) = Some ((0, 0), ?l)"
    using n0 adv by (simp add: bulk_remove_LRU_list_def Let_def heads)
  have ch: "chain ?l 0 = Some [0]" by (subst chain.simps) simp
  have s: "set (0 # f 0) \<inter> set (2 # f 2) = {}" using inv(1) unfolding lists_ok_def by (metis less_3 zero_neq_numeral)
  have r2: "ring (lnk c) 2 (f 2)" using lists_ok_ring [OF inv(1), of 2] by simp
  have "ring ?l 2 (f 2)" using s by (intro ring_frame [OF r2]) (auto simp: agree_def)
  moreover have "distinct (2 # f 2 @ [0])" using r2 s by (auto simp: ring_def)
  ultimately obtain l2 where l2: "bulk_insert_free_list (0, 0) ?l = Some l2" "ring l2 2 (f 2 @ [0])"
    using bulk_insert_ring [of ?l "f 2" "[0]"] by auto
  have "lnk (drop_page (leave_table (c\<lparr>lnk := ?l\<rparr>) 0) 0) = ?l" by (simp add: drop_page_def leave_table_def upd_def Let_def)
  then show ?thesis using assms(2) rem ch l2 by (auto simp: prepare_free_list_def Let_def heads)
qed

theorem refill_takes_list_head_witness:
  "\<exists>c f c'. cache_inv {} c f \<and> f 0 = [] \<and> prepare_free_list c = Some c' \<and> ring (lnk c') free_head (f 2 @ [lru_head])"
proof -
  obtain c where c: "cache_inv {} c demo_f" using demo_cache by blast
  let ?c = "c\<lparr>free_list_trigger_limit := 2\<rparr>"
  have inv: "cache_inv {} ?c demo_f" using c by (simp only: cache_inv_trigger)
  have "need_eviction ?c" "demo_f 0 = []" using cache_invD(6) [OF c] by (simp_all add: need_eviction_def demo_f_def)
  from refill_takes_list_head [OF inv this] this(2) inv show ?thesis by blast
qed

text \<open>
  A lookup between the two halves of a release.  \<^verbatim>\<open>Unref\<close> drops the reference and then takes the list
  mutex, so a lookup of the same page can run in between.  The lookup leaves the page in use with
  two references; the second half of the release then still moves it to the eviction list,
  where it is the next page to be evicted when nothing else is there, although the lookup's caller holds a reference.
\<close>

theorem lookup_during_release:
  assumes "cache_inv {} c f" "e \<in> set (f 1)" "refs (hs c e) = 2" "f 0 = []"
  shows "\<exists>c2 c3. LRUCache_Lookup (gptr (hs c e)) (lh_hash (hs c e)) (fetch_sub_refs e c) = Some (Some e, c2)
     \<and> move_to_lru e c2 = Some c3 \<and> refs (hs c3 e) = 2 \<and> ring (lnk c3) lru_head [e] \<and> nxt (lnk c3) lru_head = Some e"
proof -
  note inv = cache_invD [OF assms(1)]
  note dj = lists_ok_disjoint [OF inv(1)]
  have ent: "e \<in> ht_entries (table c)" "in_cache (hs c e)" using assms(2) inv(2,5) by (auto simp: handles_ok_def)
  let ?c1 = "fetch_sub_refs e c" and ?g = "f(1 := remove1 e (f 1))"
  have tab: "ht_ok (hs ?c1) (table c)" by (rule ht_ok_cong [OF inv(4)]) (simp add: hash_key_def)
  have look: "HandleTable_Lookup (hs ?c1) (gptr (hs c e)) (lh_hash (hs c e)) (table c) = Some e"
    using HandleTable_Lookup_iff [OF tab] ent(1) by (simp add: hash_key_def)
  have out: "e \<notin> listed ?g" "3 \<le> e" using assms(2) dj by (auto simp: listed_def set_remove1_eq)
  obtain l1 where l1: "List_Remove e (lnk c) = Some l1" "lists_ok l1 ?g" using lists_remove [OF inv(1), of 1 e] assms(2) by auto
  obtain l2 where l2: "List_Append in_use_head e l1 = Some l2" "lists_ok l2 (?g(1 := ?g 1 @ [e]))"
    using lists_append [OF l1(2) _ out(2,1), of 1] by (auto simp: heads)
  let ?k = "?g(1 := ?g 1 @ [e])"
  obtain l3 where l3: "List_Remove e l2 = Some l3" "lists_ok l3 (?k(1 := remove1 e (?k 1)))"
    using lists_remove [OF l2(2), of 1 e] by auto
  have k: "?k(1 := remove1 e (?k 1)) = ?g" using out(1) by (auto simp: listed_def remove1_append)
  obtain l4 where l4: "List_Append lru_head e l3 = Some l4" "lists_ok l4 (?g(0 := ?g 0 @ [e]))"
    using lists_append [OF _ _ out(2,1), of l3 0] l3(2) unfolding k by (auto simp: heads)
  have "ring l4 0 [e]" using lists_ok_ring [OF l4(2), of 0] assms(4) by simp
  then have "ring l4 lru_head [e]" "nxt l4 lru_head = Some e" using ring_first [of l4 0 "[e]"] by (simp_all add: heads)
  then show ?thesis
    using look ent(2) l1(1) l2(1) l3(1) l4(1) assms(3)
    by (simp add: LRUCache_Lookup_def Ref_def fetch_add_refs_def upd_def move_to_in_use_def move_to_lru_def Let_def)
qed

theorem lookup_during_release_witness:
  "\<exists>c c2 c3. LRUCache_Lookup (GlobalAddress 1 64) 7 (fetch_sub_refs 3 c) = Some (Some 3, c2)
     \<and> move_to_lru 3 c2 = Some c3 \<and> refs (hs c3 3) = 2 \<and> ring (lnk c3) lru_head [3]"
proof -
  obtain c where c: "cache_inv {} c (demo_f(0 := [3], 2 := []))" "gptr (hs c 3) = GlobalAddress 1 64" "lh_hash (hs c 3) = 7"
    using demo_idle_page by blast
  have "3 \<in> ht_entries (table c)" using cache_invD(5) [OF c(1)] by (simp add: demo_f_def)
  then obtain c1 f1 where c1: "cache_inv {} c1 f1" "hs c1 = (hs c)(3 := (hs c 3)\<lparr>refs := refs (hs c 3) + 1\<rparr>)" "3 \<in> set (f1 1)"
      "f1 = demo_f(0 := [3], 2 := []) \<or> f1 0 = []"
    using Ref_effect [OF c(1), of 3] by fastforce
  have "refs (hs c 3) = 1" using cache_invD(2) [OF c(1)] by (simp add: handles_ok_def)
  moreover have "f1 0 = []" using c1(3,4) by (auto simp: demo_f_def)
  ultimately have "\<exists>c2 c3. LRUCache_Lookup (GlobalAddress 1 64) 7 (fetch_sub_refs 3 c1) = Some (Some 3, c2)
     \<and> move_to_lru 3 c2 = Some c3 \<and> refs (hs c3 3) = 2 \<and> ring (lnk c3) lru_head [3]"
    using lookup_during_release [OF c1(1,3)] c1(2) c(2,3) by auto
  then show ?thesis by blast
qed

end
