(* ===== verification/Schema.thy ===== *)
theory Schema
  imports Prelude
begin

text \<open>
  Table schemas and index keys: \<^verbatim>\<open>storage/ColumnInfo.h\<close>, \<^verbatim>\<open>storage/RecordSchema.h\<close> and
  \<^verbatim>\<open>storage/DynamicCompoundKey.h\<close>.  A schema is the record of its members; the two-dimensional
  arrays of secondary indexes are flat lists of 25 entries.  Sizes and offsets (\<^verbatim>\<open>size_t\<close>) are
  natural numbers.  An operation with an argument that makes the code run out of an array has the
  value \<open>None\<close>; a getter applied to such an index is unspecified, as it is in the code.
  A key is the list of its bytes, from its \<^verbatim>\<open>start\<close> pointer on; \<open>key_compare\<close> is the comparison that all index
  pages rely on, and the locale \<open>ordered_keys\<close> is what they need of it.
\<close>


section \<open>Columns\<close>

text \<open>Two enumerations of \<^verbatim>\<open>storage/Meta.h\<close>: the kinds of access to a record, and the types of columns.\<close>

datatype AccessType = SCAN_READ | READ_ONLY | INSERT_ONLY | DELETE_ONLY | READ_WRITE

datatype ValueType = INT_T | INT8 | INT16 | INT32 | INT64 | UINT32 | UINT64 | DOUBLE | FLOAT | FIXCHAR | META

fun type_code :: "ValueType \<Rightarrow> nat" where
  "type_code INT_T = 0" | "type_code INT8 = 1" | "type_code INT16 = 2" | "type_code INT32 = 3"
| "type_code INT64 = 4" | "type_code UINT32 = 5" | "type_code UINT64 = 6" | "type_code DOUBLE = 7"
| "type_code FLOAT = 8" | "type_code FIXCHAR = 9" | "type_code META = 10"

definition type_of_code :: "nat \<Rightarrow> ValueType" where
  "type_of_code n = [INT_T, INT8, INT16, INT32, INT64, UINT32, UINT64, DOUBLE, FLOAT, FIXCHAR, META] ! n"

record ColumnInfo =
  column_name :: "byte list"
  column_type :: ValueType
  column_size :: nat
  column_offset :: nat

text \<open>The packed \<^verbatim>\<open>MetaColumn\<close> of the multi-version build takes 37 bytes.\<close>

definition kMetaSize :: nat where
  "kMetaSize = 37"

text \<open>\<open>c\<close> is what the object holds before the call; the branch for \<^verbatim>\<open>UINT32\<close> is missing in the
  code, so the size stays as it was.  A name of 16 characters or more would be copied over the next members.\<close>

definition ColumnInfo_Init :: "byte list \<Rightarrow> ValueType \<Rightarrow> nat \<Rightarrow> ColumnInfo \<Rightarrow> ColumnInfo option" where
  "ColumnInfo_Init nm ty sz c =
    (let len = length nm in
     if 16 \<le> len then None
     else Some \<lparr>column_name = nm @ [0] @ drop (len + 1) (column_name c),
                column_type = ty,
                column_size = (case ty of INT_T \<Rightarrow> 4 | INT8 \<Rightarrow> 1 | INT16 \<Rightarrow> 2 | INT32 \<Rightarrow> 4 | INT64 \<Rightarrow> 8
                  | UINT64 \<Rightarrow> 8 | DOUBLE \<Rightarrow> 8 | FLOAT \<Rightarrow> 4 | META \<Rightarrow> kMetaSize | UINT32 \<Rightarrow> column_size c
                  | FIXCHAR \<Rightarrow> sz),
                column_offset = 0\<rparr>)"


section \<open>Schemas\<close>

record RecordSchema =
  schema_table_id :: nat
  table_name :: "byte list"
  columns :: "ColumnInfo list"
  column_count :: nat
  row_size :: nat
  primary_key_length :: nat
  primary_col_num :: nat
  primary_col_length :: nat
  primary_col_ids :: "nat list"
  primary_col_sizes :: "nat list"
  primary_symbol :: "byte list"
  partition_key_length :: nat
  partition_col_num :: nat
  partition_col_length :: nat
  partition_col_ids :: "nat list"
  partition_col_sizes :: "nat list"
  partition_symbol :: "byte list"
  secondary_key_length :: "nat list"
  secondary_col_num :: "nat list"
  secondary_col_length :: "nat list"
  secondary_col_ids :: "nat list"
  secondary_col_sizes :: "nat list"
  secondary_num :: nat

text \<open>\<open>row_size\<close> is the member \<^verbatim>\<open>column_offset_\<close> of the schema, the offset of the next column.\<close>

definition RecordSchema_new :: "nat \<Rightarrow> byte list \<Rightarrow> RecordSchema" where
  "RecordSchema_new tid name =
    \<lparr>schema_table_id = tid, table_name = name, columns = [], column_count = 0, row_size = 0,
     primary_key_length = 0, primary_col_num = 0, primary_col_length = 0,
     primary_col_ids = replicate 5 0, primary_col_sizes = replicate 5 0, primary_symbol = [],
     partition_key_length = 0, partition_col_num = 0, partition_col_length = 0,
     partition_col_ids = replicate 5 0, partition_col_sizes = replicate 5 0, partition_symbol = [],
     secondary_key_length = replicate 5 0, secondary_col_num = replicate 5 0, secondary_col_length = replicate 5 0,
     secondary_col_ids = replicate 25 0, secondary_col_sizes = replicate 25 0, secondary_num = 0\<rparr>"

fun place_columns :: "ColumnInfo list \<Rightarrow> nat \<Rightarrow> ColumnInfo list \<times> nat" where
  "place_columns [] off = ([], off)"
| "place_columns (c # cs) off =
    (let (cs', off') = place_columns cs (off + column_size c) in (c\<lparr>column_offset := off\<rparr> # cs', off'))"

definition BulkloadColumns :: "ColumnInfo list \<Rightarrow> RecordSchema \<Rightarrow> RecordSchema" where
  "BulkloadColumns cols s =
    (let (cs, off) = place_columns cols (row_size s)
     in s\<lparr>column_count := length cols, columns := cs, row_size := off\<rparr>)"

definition col_sizes :: "RecordSchema \<Rightarrow> nat list \<Rightarrow> nat list" where
  "col_sizes s ids = map (\<lambda>i. column_size (columns s ! i)) ids"

definition ids_bytes :: "nat list \<Rightarrow> byte list" where
  "ids_bytes ids = concat (map (\<lambda>i. le_bytes 8 (of_nat i :: u64)) ids)"

definition SetPrimaryColumns :: "nat list \<Rightarrow> RecordSchema \<Rightarrow> RecordSchema option" where
  "SetPrimaryColumns column_ids s =
    (let num = length column_ids; sizes = col_sizes s column_ids;
         ids = column_ids @ drop num (primary_col_ids s)
     in if 5 < num \<or> (\<exists>i \<in> set column_ids. length (columns s) \<le> i) then None
        else Some (s\<lparr>primary_key_length := primary_key_length s + sum_list sizes,
                     primary_col_ids := ids,
                     primary_col_sizes := sizes @ drop num (primary_col_sizes s),
                     primary_col_num := num, primary_col_length := num * 8,
                     primary_symbol := ids_bytes (take num ids)\<rparr>))"

definition SetPartitionColumns :: "nat list \<Rightarrow> RecordSchema \<Rightarrow> RecordSchema option" where
  "SetPartitionColumns column_ids s =
    (let num = length column_ids; sizes = col_sizes s column_ids;
         ids = column_ids @ drop num (partition_col_ids s)
     in if 5 < num \<or> (\<exists>i \<in> set column_ids. length (columns s) \<le> i) then None
        else Some (s\<lparr>partition_key_length := partition_key_length s + sum_list sizes,
                     partition_col_ids := ids,
                     partition_col_sizes := sizes @ drop num (partition_col_sizes s),
                     partition_col_num := num, partition_col_length := num * 8,
                     partition_symbol := ids_bytes (take num ids)\<rparr>))"

definition set_row :: "nat \<Rightarrow> nat list \<Rightarrow> nat list \<Rightarrow> nat list" where
  "set_row r vs xs = take (5 * r) xs @ vs @ drop (5 * r + length vs) xs"

definition AddSecondaryColumns :: "nat list \<Rightarrow> RecordSchema \<Rightarrow> RecordSchema option" where
  "AddSecondaryColumns column_ids s =
    (let num = length column_ids; sizes = col_sizes s column_ids; r = secondary_num s
     in if 5 < num \<or> 5 \<le> r \<or> (\<exists>i \<in> set column_ids. length (columns s) \<le> i) then None
        else Some (s\<lparr>secondary_key_length := (secondary_key_length s)[r := secondary_key_length s ! r + sum_list sizes],
                     secondary_col_ids := set_row r column_ids (secondary_col_ids s),
                     secondary_col_sizes := set_row r sizes (secondary_col_sizes s),
                     secondary_col_num := (secondary_col_num s)[r := num],
                     secondary_col_length := (secondary_col_length s)[r := num * 8],
                     secondary_num := r + 1\<rparr>))"

definition GetColumnType :: "RecordSchema \<Rightarrow> nat \<Rightarrow> ValueType" where
  "GetColumnType s i = column_type (columns s ! i)"

definition GetColumnOffset :: "RecordSchema \<Rightarrow> nat \<Rightarrow> nat" where
  "GetColumnOffset s i = column_offset (columns s ! i)"

definition GetColumnSize :: "RecordSchema \<Rightarrow> nat \<Rightarrow> nat" where
  "GetColumnSize s i = column_size (columns s ! i)"

definition GetRecordTotalSize :: "RecordSchema \<Rightarrow> nat" where
  "GetRecordTotalSize s = row_size s"

definition GetPrimaryKeyLength :: "RecordSchema \<Rightarrow> nat" where
  "GetPrimaryKeyLength s = primary_key_length s"

definition GetMetaColumnId :: "RecordSchema \<Rightarrow> nat" where
  "GetMetaColumnId s = column_count s - 1"

definition GetKeyLength :: "RecordSchema \<Rightarrow> nat list \<Rightarrow> nat" where
  "GetKeyLength s index_cols = sum_list (col_sizes s index_cols)"

definition IsPrimaryKey :: "RecordSchema \<Rightarrow> byte list \<Rightarrow> bool" where
  "IsPrimaryKey s symbol \<longleftrightarrow> symbol = primary_symbol s"

text \<open>The 32-bit word at an offset; a \<^verbatim>\<open>std::string\<close> is followed by a null character.\<close>

definition u32_at :: "byte list \<Rightarrow> nat \<Rightarrow> u32" where
  "u32_at bs off = le_word (take 4 (drop off (bs @ [0])))"

fun partition_hash_loop :: "nat list \<Rightarrow> (nat \<times> nat) list \<Rightarrow> nat \<Rightarrow> nat \<Rightarrow> byte list \<Rightarrow> u32 \<Rightarrow> u32" where
  "partition_hash_loop part [] col_count off key hashcode = hashcode"
| "partition_hash_loop part ((i, n) # cols) col_count off key hashcode =
    (if i = part ! col_count then partition_hash_loop part cols (col_count + 1) (off + n) key (hashcode + u32_at key off)
     else partition_hash_loop part cols col_count (off + n) key hashcode)"

definition GetPartitionHashcode :: "RecordSchema \<Rightarrow> byte list \<Rightarrow> u32" where
  "GetPartitionHashcode s primary_key =
    partition_hash_loop (partition_col_ids s)
      (map (\<lambda>i. (primary_col_ids s ! i, primary_col_sizes s ! i)) [0..<primary_col_num s]) 0 0 primary_key 0"

text \<open>The overload for a secondary key stops after the last partition column.\<close>

fun secondary_hash_loop :: "RecordSchema \<Rightarrow> nat list \<Rightarrow> nat \<Rightarrow> nat \<Rightarrow> byte list \<Rightarrow> u32 \<Rightarrow> u32" where
  "secondary_hash_loop s [] col_count off key hashcode = hashcode"
| "secondary_hash_loop s (i # cols) col_count off key hashcode =
    (let n = column_size (columns s ! i) in
     if i = partition_col_ids s ! col_count then
       (let h = hashcode + u32_at (take n (drop off key)) 0 in
        if col_count + 1 = partition_col_num s then h
        else secondary_hash_loop s cols (col_count + 1) (off + n) key h)
     else secondary_hash_loop s cols col_count (off + n) key hashcode)"

definition GetPartitionHashcode_secondary :: "RecordSchema \<Rightarrow> nat \<Rightarrow> byte list \<Rightarrow> u32" where
  "GetPartitionHashcode_secondary s idx_id secondary_key =
    secondary_hash_loop s (map (\<lambda>i. secondary_col_ids s ! (5 * idx_id + i)) [0..<secondary_col_num s ! idx_id]) 0 0
      secondary_key 0"


section \<open>Serialisation\<close>

definition put_sz :: "nat \<Rightarrow> byte list" where
  "put_sz n = le_bytes 8 (of_nat n :: u64)"

definition put_szs :: "nat list \<Rightarrow> byte list" where
  "put_szs xs = concat (map put_sz xs)"

definition put_str :: "byte list \<Rightarrow> byte list" where
  "put_str bs = put_sz (length bs) @ bs"

text \<open>The bytes of a \<^verbatim>\<open>ColumnInfo\<close>: 16 for the name and 8 for each other member.\<close>

definition put_col :: "ColumnInfo \<Rightarrow> byte list" where
  "put_col c = column_name c @ put_sz (type_code (column_type c)) @ put_sz (column_size c) @ put_sz (column_offset c)"

definition Serialize :: "RecordSchema \<Rightarrow> byte list" where
  "Serialize s =
     put_sz (schema_table_id s) @ put_str (table_name s) @ put_sz (column_count s) @ put_sz (row_size s)
   @ put_sz (primary_key_length s) @ put_sz (primary_col_num s) @ put_sz (primary_col_length s)
   @ put_szs (primary_col_ids s) @ put_szs (primary_col_sizes s) @ put_str (primary_symbol s)
   @ put_sz (partition_key_length s) @ put_sz (partition_col_num s) @ put_sz (partition_col_length s)
   @ put_szs (partition_col_ids s) @ put_szs (partition_col_sizes s) @ put_str (partition_symbol s)
   @ put_szs (secondary_key_length s) @ put_szs (secondary_col_num s) @ put_szs (secondary_col_length s)
   @ put_szs (secondary_col_ids s) @ put_szs (secondary_col_sizes s) @ put_sz (secondary_num s)
   @ concat (map put_col (columns s))"

definition get_sz :: "byte list \<Rightarrow> nat \<times> byte list" where
  "get_sz bs = (unat (le_word (take 8 bs) :: u64), drop 8 bs)"

fun get_szs :: "nat \<Rightarrow> byte list \<Rightarrow> nat list \<times> byte list" where
  "get_szs 0 bs = ([], bs)"
| "get_szs (Suc n) bs = (let (x, bs) = get_sz bs; (xs, bs) = get_szs n bs in (x # xs, bs))"

definition get_str :: "byte list \<Rightarrow> byte list \<times> byte list" where
  "get_str bs = (let (n, bs) = get_sz bs in (take n bs, drop n bs))"

definition get_col :: "byte list \<Rightarrow> ColumnInfo \<times> byte list" where
  "get_col bs =
    (let name = take 16 bs; (t, bs) = get_sz (drop 16 bs); (n, bs) = get_sz bs; (off, bs) = get_sz bs
     in (\<lparr>column_name = name, column_type = type_of_code t, column_size = n, column_offset = off\<rparr>, bs))"

fun get_cols :: "nat \<Rightarrow> byte list \<Rightarrow> ColumnInfo list \<times> byte list" where
  "get_cols 0 bs = ([], bs)"
| "get_cols (Suc n) bs = (let (x, bs) = get_col bs; (xs, bs) = get_cols n bs in (x # xs, bs))"

definition Deserialize :: "byte list \<Rightarrow> RecordSchema" where
  "Deserialize bs =
    (let (tid, bs) = get_sz bs; (name, bs) = get_str bs; (count, bs) = get_sz bs; (off, bs) = get_sz bs;
         (pkl, bs) = get_sz bs; (pn, bs) = get_sz bs; (pl, bs) = get_sz bs;
         (pids, bs) = get_szs 5 bs; (psz, bs) = get_szs 5 bs; (psym, bs) = get_str bs;
         (qkl, bs) = get_sz bs; (qn, bs) = get_sz bs; (ql, bs) = get_sz bs;
         (qids, bs) = get_szs 5 bs; (qsz, bs) = get_szs 5 bs; (qsym, bs) = get_str bs;
         (skl, bs) = get_szs 5 bs; (sn, bs) = get_szs 5 bs; (sl, bs) = get_szs 5 bs;
         (sids, bs) = get_szs 25 bs; (ssz, bs) = get_szs 25 bs; (snum, bs) = get_sz bs;
         (cols, bs) = get_cols count bs
     in \<lparr>schema_table_id = tid, table_name = name, columns = cols, column_count = count, row_size = off,
         primary_key_length = pkl, primary_col_num = pn, primary_col_length = pl,
         primary_col_ids = pids, primary_col_sizes = psz, primary_symbol = psym,
         partition_key_length = qkl, partition_col_num = qn, partition_col_length = ql,
         partition_col_ids = qids, partition_col_sizes = qsz, partition_symbol = qsym,
         secondary_key_length = skl, secondary_col_num = sn, secondary_col_length = sl,
         secondary_col_ids = sids, secondary_col_sizes = ssz, secondary_num = snum\<rparr>)"

definition kMaxColumnNum :: nat where
  "kMaxColumnNum = 64"

definition kMaxAttributeLength :: nat where
  "kMaxAttributeLength = 64"

definition GetSerializeSize :: nat where
  "GetSerializeSize = 8 * 10 + 8 * (5 + 5 + 5 + 5 + 5 + 5 + 5 + 25 + 25) + 8 * 3
     + (kMaxAttributeLength + 40 + 40) + kMaxColumnNum * 40"


section \<open>Keys\<close>

definition cmp_val :: "int \<Rightarrow> int \<Rightarrow> int" where
  "cmp_val va vb = (if va \<noteq> vb then (if va < vb then - 1 else 1) else 0)"

text \<open>IEEE comparison on the bits of two floating point numbers with \<open>m\<close> bits of mantissa.
  A value that is not a number differs from everything and is not smaller.\<close>

definition magnitude :: "'a::len word \<Rightarrow> int" where
  "magnitude w = uint (take_bit (LENGTH('a) - 1) w)"

definition is_nan :: "nat \<Rightarrow> 'a::len word \<Rightarrow> bool" where
  "is_nan m w \<longleftrightarrow> (2 ^ (LENGTH('a) - 1 - m) - 1) * 2 ^ m < magnitude w"

definition float_rank :: "'a::len word \<Rightarrow> int" where
  "float_rank w = (if bit w (LENGTH('a) - 1) then - magnitude w else magnitude w)"

definition float_cmp :: "nat \<Rightarrow> 'a::len word \<Rightarrow> 'a word \<Rightarrow> int" where
  "float_cmp m va vb = (if is_nan m va \<or> is_nan m vb then 1 else cmp_val (float_rank va) (float_rank vb))"

fun memcmp :: "byte list \<Rightarrow> byte list \<Rightarrow> int" where
  "memcmp (x # xs) (y # ys) = (if x = y then memcmp xs ys else if x < y then - 1 else 1)"
| "memcmp xs ys = 0"

definition u8_of :: "byte list \<Rightarrow> byte" where "u8_of bs = le_word (take 1 bs)"
definition u16_of :: "byte list \<Rightarrow> u16" where "u16_of bs = le_word (take 2 bs)"
definition u32_of :: "byte list \<Rightarrow> u32" where "u32_of bs = le_word (take 4 bs)"
definition u64_of :: "byte list \<Rightarrow> u64" where "u64_of bs = le_word (take 8 bs)"

text \<open>One round of the loop of \<^verbatim>\<open>compare\<close>: \<open>a\<close> and \<open>b\<close> are the keys from the current offset on.\<close>

fun field_cmp :: "ValueType \<Rightarrow> nat \<Rightarrow> byte list \<Rightarrow> byte list \<Rightarrow> int" where
  "field_cmp INT_T n a b = cmp_val (sint (u32_of a)) (sint (u32_of b))"
| "field_cmp INT8 n a b = cmp_val (sint (u8_of a)) (sint (u8_of b))"
| "field_cmp INT16 n a b = cmp_val (sint (u16_of a)) (sint (u16_of b))"
| "field_cmp INT32 n a b = cmp_val (sint (u32_of a)) (sint (u32_of b))"
| "field_cmp INT64 n a b = cmp_val (sint (u64_of a)) (sint (u64_of b))"
| "field_cmp UINT32 n a b = cmp_val (uint (u32_of a)) (uint (u32_of b))"
| "field_cmp UINT64 n a b = cmp_val (uint (u64_of a)) (uint (u64_of b))"
| "field_cmp FLOAT n a b = float_cmp 23 (u32_of a) (u32_of b)"
| "field_cmp DOUBLE n a b = float_cmp 52 (u64_of a) (u64_of b)"
| "field_cmp FIXCHAR n a b = memcmp (take n a) (take n b)"
| "field_cmp META n a b = memcmp (take n a) (take n b)"

fun compare_cols :: "(ValueType \<times> nat) list \<Rightarrow> byte list \<Rightarrow> byte list \<Rightarrow> int" where
  "compare_cols [] a b = 0"
| "compare_cols ((t, n) # cs) a b =
    (let c = field_cmp t n a b in if c \<noteq> 0 then c else compare_cols cs (drop n a) (drop n b))"

text \<open>Types and sizes of the primary key columns, the \<^verbatim>\<open>Footprint\<close> of a schema.\<close>

definition MakePrimaryFootprint :: "RecordSchema \<Rightarrow> (ValueType \<times> nat) list" where
  "MakePrimaryFootprint s =
    map (\<lambda>i. (GetColumnType s (primary_col_ids s ! i), primary_col_sizes s ! i)) [0..<primary_col_num s]"

definition key_compare :: "RecordSchema \<Rightarrow> byte list \<Rightarrow> byte list \<Rightarrow> int" where
  "key_compare s = compare_cols (MakePrimaryFootprint s)"

text \<open>The bytes \<^verbatim>\<open>write_min_field\<close> and \<^verbatim>\<open>write_max_field\<close> write for a field.\<close>

fun min_field :: "ValueType \<Rightarrow> nat \<Rightarrow> byte list" where
  "min_field INT_T n = le_bytes 4 (0x80000000 :: u32)"
| "min_field INT32 n = le_bytes 4 (0x80000000 :: u32)"
| "min_field INT64 n = le_bytes 8 (0x8000000000000000 :: u64)"
| "min_field UINT32 n = le_bytes 4 (0 :: u32)"
| "min_field UINT64 n = le_bytes 8 (0 :: u64)"
| "min_field FLOAT n = le_bytes 4 (0xff800000 :: u32)"
| "min_field DOUBLE n = le_bytes 8 (0xfff0000000000000 :: u64)"
| "min_field _ n = replicate n 0"

fun max_field :: "ValueType \<Rightarrow> nat \<Rightarrow> byte list" where
  "max_field INT_T n = le_bytes 4 (0x7fffffff :: u32)"
| "max_field INT32 n = le_bytes 4 (0x7fffffff :: u32)"
| "max_field INT64 n = le_bytes 8 (0x7fffffffffffffff :: u64)"
| "max_field UINT32 n = le_bytes 4 (0xffffffff :: u32)"
| "max_field UINT64 n = le_bytes 8 (0xffffffffffffffff :: u64)"
| "max_field FLOAT n = le_bytes 4 (0x7f800000 :: u32)"
| "max_field DOUBLE n = le_bytes 8 (0x7ff0000000000000 :: u64)"
| "max_field _ n = replicate n 0xff"

fun encode_fields :: "(ValueType \<Rightarrow> nat \<Rightarrow> byte list) \<Rightarrow> (ValueType \<times> nat) list \<Rightarrow> nat \<Rightarrow> mem \<Rightarrow> mem" where
  "encode_fields wr [] off m = m"
| "encode_fields wr ((t, n) # cs) off m = encode_fields wr cs (off + n) (store_bytes off (wr t n) m)"

text \<open>A new entry has a zeroed buffer of the length of the key.\<close>

definition build_entry :: "(ValueType \<Rightarrow> nat \<Rightarrow> byte list) \<Rightarrow> RecordSchema \<Rightarrow> byte list" where
  "build_entry wr s = load_bytes 0 (GetPrimaryKeyLength s) (encode_fields wr (MakePrimaryFootprint s) 0 (\<lambda>_. 0))"

text \<open>The two caches of sentinels, one per thread and one for all threads.\<close>

type_synonym sentinels = "(ValueType \<times> nat) list \<rightharpoonup> byte list"

definition sentinel :: "(ValueType \<Rightarrow> nat \<Rightarrow> byte list) \<Rightarrow> RecordSchema \<Rightarrow> sentinels \<times> sentinels \<Rightarrow> byte list \<times> sentinels \<times> sentinels" where
  "sentinel wr s = (\<lambda>(tl, g).
    (let fp = MakePrimaryFootprint s in
     case tl fp of Some e \<Rightarrow> (e, tl, g)
     | None \<Rightarrow> (case g fp of Some e \<Rightarrow> (e, tl(fp \<mapsto> e), g)
       | None \<Rightarrow> (let e = build_entry wr s in (e, tl(fp \<mapsto> e), g(fp \<mapsto> e))))))"

definition MinValue :: "RecordSchema \<Rightarrow> sentinels \<times> sentinels \<Rightarrow> byte list \<times> sentinels \<times> sentinels" where
  "MinValue s = sentinel min_field s"

definition MaxValue :: "RecordSchema \<Rightarrow> sentinels \<times> sentinels \<Rightarrow> byte list \<times> sentinels \<times> sentinels" where
  "MaxValue s = sentinel max_field s"

section \<open>Serialised schemas\<close>

definition sz_ok :: "nat \<Rightarrow> bool" where
  "sz_ok n \<longleftrightarrow> n < 2 ^ 64"

definition col_ok :: "ColumnInfo \<Rightarrow> bool" where
  "col_ok c \<longleftrightarrow> length (column_name c) = 16 \<and> sz_ok (column_size c) \<and> sz_ok (column_offset c)"

definition scalars :: "RecordSchema \<Rightarrow> nat list" where
  "scalars s = [schema_table_id s, column_count s, row_size s, primary_key_length s, primary_col_num s, primary_col_length s,
     partition_key_length s, partition_col_num s, partition_col_length s, secondary_num s]"

definition arrays :: "RecordSchema \<Rightarrow> nat list list" where
  "arrays s = [primary_col_ids s, primary_col_sizes s, partition_col_ids s, partition_col_sizes s,
     secondary_key_length s, secondary_col_num s, secondary_col_length s, secondary_col_ids s, secondary_col_sizes s]"

definition schema_fits :: "RecordSchema \<Rightarrow> bool" where
  "schema_fits s \<longleftrightarrow> list_all sz_ok (scalars s) \<and> list_all (list_all sz_ok) (arrays s)
     \<and> map length (arrays s) = [5, 5, 5, 5, 5, 5, 5, 25, 25]
     \<and> sz_ok (length (table_name s)) \<and> sz_ok (length (primary_symbol s)) \<and> sz_ok (length (partition_symbol s))
     \<and> column_count s = length (columns s) \<and> list_all col_ok (columns s)"

lemma length_put_sz [simp]: "length (put_sz n) = 8"
  by (simp add: put_sz_def)

lemma get_put_sz [codec_simps]: "sz_ok n \<Longrightarrow> get_sz (put_sz n @ bs) = (n, bs)"
  by (simp add: get_sz_def put_sz_def sz_ok_def unat_of_nat_small)

lemma get_put_szs [codec_simps]: 
  "list_all sz_ok xs \<Longrightarrow> length xs = k \<Longrightarrow> get_szs k (put_szs xs @ bs) = (xs, bs)"
  by (induction xs arbitrary: k) (auto simp: put_szs_def get_put_sz)

lemma get_put_str [codec_simps]: "sz_ok (length str) \<Longrightarrow> get_str (put_str str @ bs) = (str, bs)"
  by (simp add: get_str_def put_str_def get_put_sz)

lemma type_code_inverse [simp]: "type_of_code (type_code t) = t" "sz_ok (type_code t)"
  by (cases t; simp add: type_of_code_def sz_ok_def)+

lemma get_put_col: "col_ok c \<Longrightarrow> get_col (put_col c @ bs) = (c, bs)"
  by (simp add: get_col_def put_col_def col_ok_def get_put_sz Let_def)

lemma get_put_cols [codec_simps]: 
  "list_all col_ok cs \<Longrightarrow> length cs = k \<Longrightarrow> get_cols k (concat (map put_col cs) @ bs) = (cs, bs)"
  by (induction cs arbitrary: k) (auto simp: get_put_col)

lemma Deserialize_Serialize:
  assumes "schema_fits s"
  shows "Deserialize (Serialize s @ bs) = s"
proof -
  have fits: "list_all sz_ok (scalars s)" "list_all (list_all sz_ok) (arrays s)" "map length (arrays s) = [5, 5, 5, 5, 5, 5, 5, 25, 25]"
    "sz_ok (length (table_name s))" "sz_ok (length (primary_symbol s))" "sz_ok (length (partition_symbol s))"
    "column_count s = length (columns s)" "list_all col_ok (columns s)"
    using assms by (simp_all add: schema_fits_def)
  show ?thesis
    using fits(1,2,3) unfolding Deserialize_def Serialize_def append_assoc
    by (simp add: codec_simps scalars_def arrays_def fits(4-8) Let_def del: get_szs.simps)
qed

lemma length_put_szs: "length (put_szs xs) = 8 * length xs"
  by (induction xs) (simp_all add: put_szs_def)

lemma length_put_cols: "list_all col_ok cs \<Longrightarrow> length (concat (map put_col cs)) = 40 * length cs"
  by (induction cs) (auto simp: put_col_def col_ok_def)

lemma Serialize_length:
  assumes "schema_fits s"
  shows "length (Serialize s) = 784 + length (table_name s) + length (primary_symbol s) + length (partition_symbol s)
    + 40 * length (columns s)"
  using assms by (simp add: Serialize_def schema_fits_def arrays_def length_put_szs length_put_cols put_str_def)

section \<open>The order of keys\<close>

text \<open>What an index page relies on: on acceptable keys the comparison is a total preorder.\<close>

locale ordered_keys =
  fixes cmp :: "'k \<Rightarrow> 'k \<Rightarrow> int" and ok :: "'k \<Rightarrow> bool"
  assumes cmp_refl: "ok a \<Longrightarrow> cmp a a = 0"
    and cmp_swap: "ok a \<Longrightarrow> ok b \<Longrightarrow> cmp b a = - cmp a b"
    and cmp_trans: "ok a \<Longrightarrow> ok b \<Longrightarrow> ok c \<Longrightarrow> cmp a b \<le> 0 \<Longrightarrow> cmp b c \<le> 0 \<Longrightarrow> cmp a c \<le> 0"
begin

lemma less_le_trans_key: 
  assumes "ok a" "ok b" "ok c" "cmp a b < 0" "cmp b c \<le> 0" shows "cmp a c < 0"
proof (rule ccontr)
  assume "\<not> cmp a c < 0"
  then have "cmp c a \<le> 0" using cmp_swap [OF assms(1,3)] by simp
  then have "cmp b a \<le> 0" using cmp_trans [OF assms(2,3,1,5)] by simp
  then show False using cmp_swap [OF assms(1,2)] assms(4) by simp
qed

lemma le_less_trans_key: 
  assumes "ok a" "ok b" "ok c" "cmp a b \<le> 0" "cmp b c < 0" shows "cmp a c < 0"
proof (rule ccontr)
  assume "\<not> cmp a c < 0"
  then have "cmp c a \<le> 0" using cmp_swap [OF assms(1,3)] by simp
  then have "cmp c b \<le> 0" using cmp_trans [OF assms(3,1,2) _ assms(4)] by simp
  then show False using cmp_swap [OF assms(2,3)] assms(5) by simp
qed

lemma equal_left:
  assumes "ok a" "ok b" "ok c" "cmp a b = 0" 
  shows "cmp a c < 0 \<longleftrightarrow> cmp b c < 0" "cmp a c = 0 \<longleftrightarrow> cmp b c = 0"
proof -
  have ba: "cmp b a = 0" using cmp_swap [OF assms(1,2)] assms(4) by simp
  have le: "cmp a c \<le> 0 \<longleftrightarrow> cmp b c \<le> 0"
    using cmp_trans [OF assms(2,1,3)] cmp_trans [OF assms(1,2,3)] ba assms(4) by auto
  show lt: "cmp a c < 0 \<longleftrightarrow> cmp b c < 0"
    using le_less_trans_key [OF assms(2,1,3)] le_less_trans_key [OF assms(1,2,3)] ba assms(4) by auto
  show "cmp a c = 0 \<longleftrightarrow> cmp b c = 0" using le lt by linarith
qed

end

text \<open>Every field has a rank, an integer that decides the comparison.\<close>

fun big_endian :: "byte list \<Rightarrow> int" where
  "big_endian [] = 0"
| "big_endian (b # bs) = uint b * 256 ^ length bs + big_endian bs"

fun field_rank :: "ValueType \<Rightarrow> nat \<Rightarrow> byte list \<Rightarrow> int" where
  "field_rank INT_T n a = sint (u32_of a)"
| "field_rank INT8 n a = sint (u8_of a)"
| "field_rank INT16 n a = sint (u16_of a)"
| "field_rank INT32 n a = sint (u32_of a)"
| "field_rank INT64 n a = sint (u64_of a)"
| "field_rank UINT32 n a = uint (u32_of a)"
| "field_rank UINT64 n a = uint (u64_of a)"
| "field_rank FLOAT n a = float_rank (u32_of a)"
| "field_rank DOUBLE n a = float_rank (u64_of a)"
| "field_rank FIXCHAR n a = big_endian (take n a)"
| "field_rank META n a = big_endian (take n a)"

fun field_ok :: "ValueType \<Rightarrow> nat \<Rightarrow> byte list \<Rightarrow> bool" where
  "field_ok FLOAT n a \<longleftrightarrow> \<not> is_nan 23 (u32_of a)"
| "field_ok DOUBLE n a \<longleftrightarrow> \<not> is_nan 52 (u64_of a)"
| "field_ok _ n a \<longleftrightarrow> True"

fun cols_ok :: "(ValueType \<times> nat) list \<Rightarrow> byte list \<Rightarrow> bool" where
  "cols_ok [] a \<longleftrightarrow> True"
| "cols_ok ((t, n) # cs) a \<longleftrightarrow> n \<le> length a \<and> field_ok t n a \<and> cols_ok cs (drop n a)"

definition key_ok :: "RecordSchema \<Rightarrow> byte list \<Rightarrow> bool" where
  "key_ok s a \<longleftrightarrow> cols_ok (MakePrimaryFootprint s) a"

fun ranks :: "(ValueType \<times> nat) list \<Rightarrow> byte list \<Rightarrow> int list" where
  "ranks [] a = []"
| "ranks ((t, n) # cs) a = field_rank t n a # ranks cs (drop n a)"

fun lex_cmp :: "int list \<Rightarrow> int list \<Rightarrow> int" where
  "lex_cmp (x # xs) (y # ys) = (let c = cmp_val x y in if c \<noteq> 0 then c else lex_cmp xs ys)"
| "lex_cmp xs ys = 0"

lemma digit_less: 
  assumes "a + 1 \<le> b" "x < B" "0 \<le> y" "0 \<le> B" shows "a * B + x < b * B + (y :: int)"
proof -
  have "a * B + B \<le> b * B" using mult_right_mono [OF assms(1,4)] by (simp only: distrib_right mult_1)
  then show ?thesis using assms by linarith
qed

lemma big_endian_bound: "0 \<le> big_endian bs \<and> big_endian bs < 256 ^ length bs"
proof (induction bs)
  case (Cons b bs)
  have "uint b + 1 \<le> 256" using uint_lt2p [of b] by simp
  then have "uint b * 256 ^ length bs + big_endian bs < 256 * 256 ^ length bs + 0"
    using Cons by (intro digit_less) auto
  moreover have "0 \<le> uint b * 256 ^ length bs" by simp
  moreover have "(256::int) ^ length (b # bs) = 256 * 256 ^ length bs" by simp
  ultimately show ?case using Cons by (simp only: big_endian.simps) linarith
qed simp

lemma memcmp_rank: "length xs = length ys \<Longrightarrow> memcmp xs ys = cmp_val (big_endian xs) (big_endian ys)"
proof (induction xs ys rule: list_induct2)
  case (Cons x xs y ys)
  have less: "big_endian (a # as) < big_endian (b # bs)"
    if "a < b" "length as = length bs" for a b :: byte and as bs
    unfolding big_endian.simps that(2)
    using big_endian_bound [of as] big_endian_bound [of bs] that by (intro digit_less) (auto simp: word_less_def)
  show ?case
  proof (cases x y rule: linorder_cases)
    case less': less
    then show ?thesis using less [of x y xs ys] Cons.hyps by (auto simp: cmp_val_def simp del: big_endian.simps)
  next
    case equal
    then show ?thesis using Cons by (simp add: cmp_val_def)
  next
    case greater
    then show ?thesis using less [of y x ys xs] Cons.hyps by (auto simp: cmp_val_def simp del: big_endian.simps)
  qed
qed (simp add: cmp_val_def)

lemma field_cmp_rank:
  "field_ok t n a \<Longrightarrow> field_ok t n b \<Longrightarrow> n \<le> length a \<Longrightarrow> n \<le> length b \<Longrightarrow>
   field_cmp t n a b = cmp_val (field_rank t n a) (field_rank t n b)"
  by (cases t) (simp_all add: float_cmp_def memcmp_rank)

lemma compare_cols_rank:
  "cols_ok cs a \<Longrightarrow> cols_ok cs b \<Longrightarrow> compare_cols cs a b = lex_cmp (ranks cs a) (ranks cs b)"
  by (induction cs a b rule: compare_cols.induct) (auto simp: field_cmp_rank Let_def)

lemma length_ranks [simp]: "length (ranks cs a) = length cs"
  by (induction cs a rule: ranks.induct) auto

lemma lex_cmp_refl: "lex_cmp xs xs = 0"
  by (induction xs) (auto simp: cmp_val_def)

lemma lex_cmp_swap: "lex_cmp ys xs = - lex_cmp xs ys"
  by (induction xs ys rule: lex_cmp.induct) (auto simp: cmp_val_def Let_def)

lemma lex_cmp_trans:
  "length xs = length ys \<Longrightarrow> length ys = length zs \<Longrightarrow> lex_cmp xs ys \<le> 0 \<Longrightarrow> lex_cmp ys zs \<le> 0 \<Longrightarrow> lex_cmp xs zs \<le> 0"
  by (induction xs ys zs rule: list_induct3) (auto simp: cmp_val_def Let_def split: if_splits)

interpretation key: ordered_keys "key_compare s" "key_ok s" for s
  by unfold_locales
    (auto simp: key_compare_def key_ok_def compare_cols_rank lex_cmp_refl intro: lex_cmp_swap
      elim: lex_cmp_trans [rotated 2])

section \<open>Sentinels\<close>

text \<open>The size of a field as \<^verbatim>\<open>ColumnInfo\<close> sets it; fixed-size byte sequences have any size.\<close>

fun field_width :: "ValueType \<Rightarrow> nat \<Rightarrow> nat" where
  "field_width INT_T n = 4" | "field_width INT8 n = 1" | "field_width INT16 n = 2" | "field_width INT32 n = 4"
| "field_width INT64 n = 8" | "field_width UINT32 n = 4" | "field_width UINT64 n = 8" | "field_width DOUBLE n = 8"
| "field_width FLOAT n = 4" | "field_width FIXCHAR n = n" | "field_width META n = n"

definition typed :: "(ValueType \<times> nat) list \<Rightarrow> bool" where
  "typed fp \<longleftrightarrow> list_all (\<lambda>(t, n). n = field_width t n) fp"

definition schema_typed :: "RecordSchema \<Rightarrow> bool" where
  "schema_typed s \<longleftrightarrow> typed (MakePrimaryFootprint s) \<and> GetPrimaryKeyLength s = sum_list (map snd (MakePrimaryFootprint s))"

definition entry_bytes :: "(ValueType \<Rightarrow> nat \<Rightarrow> byte list) \<Rightarrow> (ValueType \<times> nat) list \<Rightarrow> byte list" where
  "entry_bytes wr fp = concat (map (\<lambda>(t, n). wr t n) fp)"

definition caches_ok :: "(ValueType \<Rightarrow> nat \<Rightarrow> byte list) \<Rightarrow> sentinels \<times> sentinels \<Rightarrow> bool" where
  "caches_ok wr c \<longleftrightarrow> (\<forall>fp e. fst c fp = Some e \<or> snd c fp = Some e \<longrightarrow> e = entry_bytes wr fp)"

lemma length_extremes: "n = field_width t n \<Longrightarrow> length (min_field t n) = n" "n = field_width t n \<Longrightarrow> length (max_field t n) = n"
  by (cases t; simp)+

lemma encode_fields_below: "x < off \<Longrightarrow> encode_fields wr fp off m x = m x"
  by (induction wr fp off m rule: encode_fields.induct) (auto simp: store_bytes_def)

lemma encode_fields_load:
  "(\<And>t n. (t, n) \<in> set fp \<Longrightarrow> length (wr t n) = n) \<Longrightarrow>
   load_bytes off (sum_list (map snd fp)) (encode_fields wr fp off m) = entry_bytes wr fp"
proof (induction wr fp off m rule: encode_fields.induct)
  case (2 wr t n cs off m)
  have "load_bytes off n (encode_fields wr cs (off + n) (store_bytes off (wr t n) m))
      = load_bytes off n (store_bytes off (wr t n) m)"
    by (rule load_bytes_cong) (simp add: encode_fields_below)
  then show ?case using 2 by (simp add: load_bytes_split entry_bytes_def)
qed (simp add: entry_bytes_def)

lemma build_entry_bytes:
  assumes "schema_typed s" "\<And>t n. n = field_width t n \<Longrightarrow> length (wr t n) = n"
  shows "build_entry wr s = entry_bytes wr (MakePrimaryFootprint s)"
  using assms unfolding build_entry_def schema_typed_def typed_def
  by (auto simp: list_all_iff intro!: encode_fields_load)

lemma sentinel_ok:
  assumes "caches_ok wr c" "schema_typed s" "\<And>t n. n = field_width t n \<Longrightarrow> length (wr t n) = n"
  shows "fst (sentinel wr s c) = entry_bytes wr (MakePrimaryFootprint s)" "caches_ok wr (snd (sentinel wr s c))"
  using assms build_entry_bytes [OF assms(2), of wr]
  by (auto simp: sentinel_def caches_ok_def Let_def split: option.splits prod.splits if_splits)

lemma of_le_bytes [simp]:
  "u8_of (le_bytes 1 b @ r) = b" "u16_of (le_bytes 2 h @ r) = h" "u32_of (le_bytes 4 w @ r) = w" "u64_of (le_bytes 8 d @ r) = d"
  by (simp_all add: u8_of_def u16_of_def u32_of_def u64_of_def)

lemma not_nan_bound: 
  assumes "\<not> is_nan m (w :: 'a::len word)" 
  shows "- ((2 ^ (LENGTH('a) - 1 - m) - 1) * 2 ^ m) \<le> float_rank w" "float_rank w \<le> (2 ^ (LENGTH('a) - 1 - m) - 1) * 2 ^ m"
proof -
  have "0 \<le> magnitude w" by (simp add: magnitude_def)
  then show "- ((2 ^ (LENGTH('a) - 1 - m) - 1) * 2 ^ m) \<le> float_rank w" 
       "float_rank w \<le> (2 ^ (LENGTH('a) - 1 - m) - 1) * 2 ^ m"
    using assms by (auto simp: is_nan_def float_rank_def)
qed

lemma infinities:
  "float_rank (0xff800000 :: u32) = - (255 * 2 ^ 23)" "float_rank (0x7f800000 :: u32) = 255 * 2 ^ 23"
  "float_rank (0xfff0000000000000 :: u64) = - (2047 * 2 ^ 52)" "float_rank (0x7ff0000000000000 :: u64) = 2047 * 2 ^ 52"
  "\<not> is_nan 23 (0xff800000 :: u32)" "\<not> is_nan 23 (0x7f800000 :: u32)"
  "\<not> is_nan 52 (0xfff0000000000000 :: u64)" "\<not> is_nan 52 (0x7ff0000000000000 :: u64)"
  by (simp_all add: float_rank_def magnitude_def is_nan_def take_bit_eq_mod)

lemma big_endian_extremes: "big_endian (replicate n 0) = 0" "big_endian (replicate n 0xff) = 256 ^ n - 1"
  by (induction n) simp_all

lemma field_extremes:
  assumes "t \<noteq> INT8" "t \<noteq> INT16" "n = field_width t n" "n \<le> length a" "field_ok t n a"
  shows "field_rank t n (min_field t n @ r) \<le> field_rank t n a" "field_ok t n (min_field t n @ r)"
    "field_rank t n a \<le> field_rank t n (max_field t n @ r)" "field_ok t n (max_field t n @ r)"
  using assms not_nan_bound [of 23 "u32_of a"] not_nan_bound [of 52 "u64_of a"]
    sint_ge [of "u32_of a"] sint_ge [of "u64_of a"] sint_lt [of "u32_of a"] sint_lt [of "u64_of a"]
    uint_lt2p [of "u32_of a"] uint_lt2p [of "u64_of a"] big_endian_bound [of "take n a"]
  by (cases t; simp add: infinities big_endian_extremes; fail)+

definition plain_footprint :: "(ValueType \<times> nat) list \<Rightarrow> bool" where
  "plain_footprint fp \<longleftrightarrow> typed fp \<and> (\<forall>(t, n) \<in> set fp. t \<noteq> INT8 \<and> t \<noteq> INT16)"

lemma compare_extremes:
  "plain_footprint fp \<Longrightarrow> cols_ok fp a \<Longrightarrow>
   cols_ok fp (entry_bytes min_field fp) \<and> lex_cmp (ranks fp (entry_bytes min_field fp)) (ranks fp a) \<le> 0
 \<and> cols_ok fp (entry_bytes max_field fp) \<and> lex_cmp (ranks fp a) (ranks fp (entry_bytes max_field fp)) \<le> 0"
proof (induction fp arbitrary: a)
  case (Cons c cs)
  obtain t n where c: "c = (t, n)" by (cases c)
  have tn: "t \<noteq> INT8" "t \<noteq> INT16" "n = field_width t n" "n \<le> length a" "field_ok t n a"
    and cs: "plain_footprint cs" "cols_ok cs (drop n a)"
    using Cons.prems by (auto simp: c plain_footprint_def typed_def)
  note ext = field_extremes [OF tn] and len = length_extremes [OF tn(3)] and IH = Cons.IH [OF cs]
  have "entry_bytes wr ((t, n) # cs) = wr t n @ entry_bytes wr cs" for wr by (simp add: entry_bytes_def)
  then show ?case
    using ext(1,2) [of "entry_bytes min_field cs"] ext(3,4) [of "entry_bytes max_field cs"] len IH
    by (auto simp: c cmp_val_def Let_def)
qed simp

lemma sentinels_bound:
  assumes "schema_typed s" "plain_footprint (MakePrimaryFootprint s)" "caches_ok min_field cmin" "caches_ok max_field cmax" "key_ok s k"
  shows "key_compare s (fst (MinValue s cmin)) k \<le> 0" "key_compare s k (fst (MaxValue s cmax)) \<le> 0"
    "key_ok s (fst (MinValue s cmin))" "key_ok s (fst (MaxValue s cmax))"
    "caches_ok min_field (snd (MinValue s cmin))" "caches_ok max_field (snd (MaxValue s cmax))"
  using compare_extremes [OF assms(2), of k] assms
    sentinel_ok [OF assms(3,1) length_extremes(1)] sentinel_ok [OF assms(4,1) length_extremes(2)]
  by (auto simp: key_compare_def key_ok_def compare_cols_rank MinValue_def MaxValue_def)

text \<open>A schema of the benchmarks in miniature: a compound key of an integer and eight characters, a payload and the
  version column.\<close>

definition demo_column :: "string \<Rightarrow> ValueType \<Rightarrow> nat \<Rightarrow> ColumnInfo" where
  "demo_column nm t n = the (ColumnInfo_Init (map of_char nm) t n
     \<lparr>column_name = replicate 16 0, column_type = INT_T, column_size = 0, column_offset = 0\<rparr>)"

definition demo_schema :: RecordSchema where
  "demo_schema = the (SetPrimaryColumns [0, 1]
     (BulkloadColumns [demo_column ''id'' INT64 0, demo_column ''name'' FIXCHAR 8, demo_column ''v'' UINT64 0,
        demo_column ''meta'' META 0] (RecordSchema_new 3 (map of_char ''t''))))"

lemma demo_schema_eq:
  "demo_schema = (RecordSchema_new 3 [0x74])\<lparr>column_count := 4, row_size := 61,
     columns := [\<lparr>column_name = [0x69, 0x64] @ replicate 14 0, column_type = INT64, column_size = 8, column_offset = 0\<rparr>,
                 \<lparr>column_name = [0x6e, 0x61, 0x6d, 0x65] @ replicate 12 0, column_type = FIXCHAR, column_size = 8, column_offset = 8\<rparr>,
                 \<lparr>column_name = 0x76 # replicate 15 0, column_type = UINT64, column_size = 8, column_offset = 16\<rparr>,
                 \<lparr>column_name = [0x6d, 0x65, 0x74, 0x61] @ replicate 12 0, column_type = META, column_size = 37, column_offset = 24\<rparr>],
     primary_key_length := 16, primary_col_num := 2, primary_col_length := 16,
     primary_col_ids := [0, 1, 0, 0, 0], primary_col_sizes := [8, 8, 0, 0, 0],
     primary_symbol := replicate 8 0 @ 1 # replicate 7 0\<rparr>"
  by (simp add: demo_schema_def demo_column_def ColumnInfo_Init_def Let_def kMetaSize_def BulkloadColumns_def RecordSchema_new_def
      SetPrimaryColumns_def col_sizes_def ids_bytes_def le_bytes_def upt_rec of_char_def) (simp add: numeral_eq_Suc)



text \<open>An 8-bit key column breaks the lower bound: the sentinel holds 0 and a negative key is smaller.\<close>
theorem min_value_int8:
  "compare_cols [(INT8, 1)] (entry_bytes min_field [(INT8, 1)]) [0xff] = 1"
  by (simp add: entry_bytes_def cmp_val_def Let_def u8_of_def)

text \<open>
  C29: A schema survives serialisation: \<^verbatim>\<open>Deserialize\<close> reads back the schema that \<^verbatim>\<open>Serialize\<close>
  wrote, whatever follows it, and the buffer of \<^verbatim>\<open>GetSerializeSize\<close> bytes is long enough.
\<close>
theorem schema_roundtrip:
  assumes "schema_fits s" "length (table_name s) \<le> kMaxAttributeLength" "length (columns s) \<le> kMaxColumnNum"
    "length (primary_symbol s) \<le> 40" "length (partition_symbol s) \<le> 40"
  shows "Deserialize (Serialize s @ bs) = s \<and> length (Serialize s) \<le> GetSerializeSize"
  using Deserialize_Serialize [OF assms(1)] Serialize_length [OF assms(1)] assms(2-5)
  by (simp add: GetSerializeSize_def kMaxAttributeLength_def kMaxColumnNum_def)

theorem schema_roundtrip_witness:
  "Deserialize (Serialize demo_schema @ [1, 2, 3]) = demo_schema \<and> length (Serialize demo_schema) \<le> GetSerializeSize"
proof -
  have "schema_fits demo_schema"
    by (simp add: schema_fits_def demo_schema_eq RecordSchema_new_def scalars_def arrays_def sz_ok_def col_ok_def list_all_iff)
  then show ?thesis
    by (rule schema_roundtrip)
      (simp_all add: demo_schema_eq RecordSchema_new_def kMaxAttributeLength_def kMaxColumnNum_def)
qed

end
