(* ===== verification/Index_Page.thy ===== *)
theory Index_Page
  imports Schema Replication Data_Page
begin

text \<open>
  The pages of the B-link tree, \<^verbatim>\<open>InternalPage\<close> and \<^verbatim>\<open>LeafPage\<close> of \<^verbatim>\<open>storage/page.h\<close> and
  \<^verbatim>\<open>storage/page.cpp\<close>.  A page is the memory from its first byte on, so that a page operation and
  the log record it writes can be compared byte by byte: the latch word, the header
  \<^verbatim>\<open>Header_Index\<close> at byte 8, the highest and the lowest key at byte 64 and then the records.
  A record starts with its key; in an internal page the address of the child follows.  Indices are
  natural numbers, except for \<^verbatim>\<open>last_index\<close> (a signed 16-bit member) and results
  that can be \<open>- 1\<close>.  An operation returns the page, and the record it appends to the redo log if
  it logs.
\<close>


section \<open>Layout\<close>

definition get_u8 :: "nat \<Rightarrow> mem \<Rightarrow> byte" where "get_u8 a p = p a"
definition get_u16 :: "nat \<Rightarrow> mem \<Rightarrow> u16" where "get_u16 a p = le_word (load_bytes a 2 p)"
definition get_u32 :: "nat \<Rightarrow> mem \<Rightarrow> u32" where "get_u32 a p = le_word (load_bytes a 4 p)"
definition get_u64 :: "nat \<Rightarrow> mem \<Rightarrow> u64" where "get_u64 a p = le_word (load_bytes a 8 p)"
definition put_u8 :: "nat \<Rightarrow> byte \<Rightarrow> mem \<Rightarrow> mem" where "put_u8 a v p = p(a := v)"
definition put_u16 :: "nat \<Rightarrow> u16 \<Rightarrow> mem \<Rightarrow> mem" where "put_u16 a v = store_bytes a (le_bytes 2 v)"
definition put_u32 :: "nat \<Rightarrow> u32 \<Rightarrow> mem \<Rightarrow> mem" where "put_u32 a v = store_bytes a (le_bytes 4 v)"
definition put_u64 :: "nat \<Rightarrow> u64 \<Rightarrow> mem \<Rightarrow> mem" where "put_u64 a v = store_bytes a (le_bytes 8 v)"

text \<open>Byte offsets of the members of \<^verbatim>\<open>Header_Index\<close> in a page.\<close>

definition P_TYPE_OFF :: nat where "P_TYPE_OFF = 8"
definition DIRTY_UPPER_OFF :: nat where "DIRTY_UPPER_OFF = 12"
definition DIRTY_LOWER_OFF :: nat where "DIRTY_LOWER_OFF = 14"
definition THIS_PAGE_OFF :: nat where "THIS_PAGE_OFF = 24"
definition LEFTMOST_OFF :: nat where "LEFTMOST_OFF = 32"
definition SIBLING_OFF :: nat where "SIBLING_OFF = 40"
definition LAST_INDEX_OFF :: nat where "LAST_INDEX_OFF = 48"
definition KEY_SIZE_OFF :: nat where "KEY_SIZE_OFF = 52"
definition RECORD_SIZE_OFF :: nat where "RECORD_SIZE_OFF = 56"
definition LEVEL_OFF :: nat where "LEVEL_OFF = 60"
definition CARDINALITY_OFF :: nat where "CARDINALITY_OFF = 62"
definition INDEX_DATA_OFF :: nat where "INDEX_DATA_OFF = 64"

lemmas page_offs = P_TYPE_OFF_def DIRTY_UPPER_OFF_def DIRTY_LOWER_OFF_def THIS_PAGE_OFF_def LEFTMOST_OFF_def SIBLING_OFF_def
  LAST_INDEX_OFF_def KEY_SIZE_OFF_def RECORD_SIZE_OFF_def LEVEL_OFF_def CARDINALITY_OFF_def INDEX_DATA_OFF_def P_VERSION_OFF_def

definition get_addr :: "nat \<Rightarrow> mem \<Rightarrow> GlobalAddress" where
  "get_addr a p = gaddr_of_val (get_u64 a p)"

definition put_addr :: "nat \<Rightarrow> GlobalAddress \<Rightarrow> mem \<Rightarrow> mem" where
  "put_addr a g = put_u64 a (gval g)"

definition index_version :: "mem \<Rightarrow> u64" where "index_version p = get_u64 P_VERSION_OFF p"
definition leftmost_ptr :: "mem \<Rightarrow> GlobalAddress" where "leftmost_ptr p = get_addr LEFTMOST_OFF p"
definition sibling_ptr :: "mem \<Rightarrow> GlobalAddress" where "sibling_ptr p = get_addr SIBLING_OFF p"
definition last_index :: "mem \<Rightarrow> int" where "last_index p = sint (get_u16 LAST_INDEX_OFF p)"
definition key_size :: "mem \<Rightarrow> nat" where "key_size p = unat (get_u32 KEY_SIZE_OFF p)"
definition record_size :: "mem \<Rightarrow> nat" where "record_size p = unat (get_u32 RECORD_SIZE_OFF p)"
definition page_level :: "mem \<Rightarrow> nat" where "page_level p = unat (get_u8 LEVEL_OFF p)"
definition kCardinality :: "mem \<Rightarrow> nat" where "kCardinality p = unat (get_u16 CARDINALITY_OFF p)"

definition page_type_code :: "Page_Type \<Rightarrow> u32" where
  "page_type_code t = (case t of P_Plain \<Rightarrow> 0 | P_Internal_P \<Rightarrow> 1 | P_Internal_S \<Rightarrow> 2 | P_Leaf_P \<Rightarrow> 3 | P_Leaf_S \<Rightarrow> 4 | P_Data \<Rightarrow> 5)"

definition index_merge_dirty_bounds :: "u16 \<Rightarrow> u16 \<Rightarrow> mem \<Rightarrow> mem" where
  "index_merge_dirty_bounds lower upper p =
    (if get_u16 DIRTY_UPPER_OFF p = 0 then put_u16 DIRTY_LOWER_OFF lower (put_u16 DIRTY_UPPER_OFF upper p)
     else put_u16 DIRTY_LOWER_OFF (min (get_u16 DIRTY_LOWER_OFF p) lower)
           (put_u16 DIRTY_UPPER_OFF (max (get_u16 DIRTY_UPPER_OFF p) upper) p))"

definition index_reset_dirty_bounds :: "mem \<Rightarrow> mem" where
  "index_reset_dirty_bounds p = put_u16 DIRTY_LOWER_OFF 0 (put_u16 DIRTY_UPPER_OFF 0 p)"

text \<open>The initialisers of \<^verbatim>\<open>Header_Index\<close>; the other members keep what the memory holds.\<close>

definition Header_Index_new :: "mem \<Rightarrow> mem" where
  "Header_Index_new p =
    put_u16 LAST_INDEX_OFF (- 1) (put_u64 P_VERSION_OFF 1 (index_reset_dirty_bounds
      (put_addr SIBLING_OFF GlobalAddress_Null (put_addr LEFTMOST_OFF GlobalAddress_Null
        (put_u32 P_TYPE_OFF (page_type_code P_Plain) p)))))"

text \<open>Some accessors read the key size through a 16-bit variable.\<close>

definition key_size16 :: "mem \<Rightarrow> nat" where
  "key_size16 p = key_size p mod 2 ^ 16"

definition rec_ptr :: "nat \<Rightarrow> nat \<Rightarrow> mem \<Rightarrow> nat" where
  "rec_ptr ks i p = INDEX_DATA_OFF + 2 * ks + i * record_size p"

abbreviation record_ptr :: "nat \<Rightarrow> mem \<Rightarrow> nat" where
  "record_ptr i p \<equiv> rec_ptr (key_size16 p) i p"

definition GetRecordKeyByIndex :: "RecordSchema \<Rightarrow> nat \<Rightarrow> mem \<Rightarrow> byte list" where
  "GetRecordKeyByIndex s i p = load_bytes (record_ptr i p) (GetPrimaryKeyLength s) p"

definition GetRecordKeyByIndex_DeepCopy :: "nat \<Rightarrow> mem \<Rightarrow> byte list" where
  "GetRecordKeyByIndex_DeepCopy i p = load_bytes (record_ptr i p) (key_size16 p) p"

definition GetRecordValueByIndex :: "nat \<Rightarrow> mem \<Rightarrow> GlobalAddress" where
  "GetRecordValueByIndex i p = get_addr (record_ptr i p + key_size16 p) p"

text \<open>A key is copied with the length that the schema gives.\<close>

definition deepcopy_key :: "RecordSchema \<Rightarrow> nat \<Rightarrow> byte list \<Rightarrow> mem \<Rightarrow> mem" where
  "deepcopy_key s a k p = store_bytes a (take (GetPrimaryKeyLength s) k) p"

definition SetRecordByIndex :: "RecordSchema \<Rightarrow> nat \<Rightarrow> byte list \<Rightarrow> GlobalAddress \<Rightarrow> mem \<Rightarrow> mem" where
  "SetRecordByIndex s i k g p =
    (let target_ptr = rec_ptr (key_size p) i p in put_addr (target_ptr + key_size p) g (deepcopy_key s target_ptr k p))"

definition SetHighest :: "RecordSchema \<Rightarrow> byte list \<Rightarrow> mem \<Rightarrow> mem" where
  "SetHighest s k p = deepcopy_key s INDEX_DATA_OFF k p"

definition SetLowest :: "RecordSchema \<Rightarrow> byte list \<Rightarrow> mem \<Rightarrow> mem" where
  "SetLowest s k p = deepcopy_key s (INDEX_DATA_OFF + GetPrimaryKeyLength s) k p"

definition GetHighest :: "RecordSchema \<Rightarrow> mem \<Rightarrow> byte list" where
  "GetHighest s p = load_bytes INDEX_DATA_OFF (GetPrimaryKeyLength s) p"

definition GetLowest :: "RecordSchema \<Rightarrow> mem \<Rightarrow> byte list" where
  "GetLowest s p = load_bytes (INDEX_DATA_OFF + GetPrimaryKeyLength s) (GetPrimaryKeyLength s) p"

definition internal_cardinality :: "nat \<Rightarrow> RecordSchema \<Rightarrow> nat" where
  "internal_cardinality page_size s =
    (let ks = GetPrimaryKeyLength s in (page_size - INDEX_DATA_OFF - 2 * ks - 1) div (ks + 8))"

definition leaf_cardinality :: "nat \<Rightarrow> RecordSchema \<Rightarrow> nat" where
  "leaf_cardinality page_size s =
    (page_size - INDEX_DATA_OFF - 2 * GetPrimaryKeyLength s - 1) div GetRecordTotalSize s"

text \<open>The constructors of a page in a given buffer; \<open>kmin\<close> and \<open>kmax\<close> are the sentinels of the schema.\<close>

definition InternalPage_new ::
  "GlobalAddress \<Rightarrow> byte list \<Rightarrow> GlobalAddress \<Rightarrow> GlobalAddress \<Rightarrow> u16 \<Rightarrow> RecordSchema \<Rightarrow> nat \<Rightarrow> byte list \<Rightarrow> byte list \<Rightarrow> mem \<Rightarrow> mem" where
  "InternalPage_new left k right this_page cardinality s level kmin kmax p =
    (let p = Header_Index_new p;
         p = put_u32 KEY_SIZE_OFF (of_nat (GetPrimaryKeyLength s)) p;
         p = put_u32 RECORD_SIZE_OFF (get_u32 KEY_SIZE_OFF p + 8) p;
         p = put_u32 P_TYPE_OFF (page_type_code P_Internal_P) p;
         p = put_addr LEFTMOST_OFF left p;
         p = put_u8 LEVEL_OFF (of_nat level) p;
         p = SetRecordByIndex s 0 k right p;
         p = put_u16 LAST_INDEX_OFF 0 p;
         p = put_addr THIS_PAGE_OFF this_page p;
         p = put_u16 CARDINALITY_OFF cardinality p;
         p = put_u64 P_VERSION_OFF 1 p
     in SetLowest s kmin (SetHighest s kmax p))"

definition InternalPage_empty ::
  "GlobalAddress \<Rightarrow> RecordSchema \<Rightarrow> nat \<Rightarrow> byte list \<Rightarrow> byte list \<Rightarrow> mem \<Rightarrow> mem" where
  "InternalPage_empty this_page s level kmin kmax p =
    (let p = Header_Index_new p;
         p = put_u32 KEY_SIZE_OFF (of_nat (GetPrimaryKeyLength s)) p;
         p = put_u32 RECORD_SIZE_OFF (get_u32 KEY_SIZE_OFF p + 8) p;
         p = put_u32 P_TYPE_OFF (page_type_code P_Internal_S) p;
         p = put_u8 LEVEL_OFF (of_nat level) p;
         p = SetRecordByIndex s 0 kmin GlobalAddress_Null p;
         p = put_addr THIS_PAGE_OFF this_page p;
         p = put_u16 CARDINALITY_OFF (of_nat (internal_cardinality kInternalPageSize s)) p;
         p = put_u64 P_VERSION_OFF 1 p
     in SetLowest s kmin (SetHighest s kmax p))"

definition LeafPage_new ::
  "GlobalAddress \<Rightarrow> u16 \<Rightarrow> RecordSchema \<Rightarrow> nat \<Rightarrow> byte list \<Rightarrow> byte list \<Rightarrow> mem \<Rightarrow> mem" where
  "LeafPage_new this_page cardinality s level kmin kmax p =
    (let p = Header_Index_new p;
         p = put_u32 P_TYPE_OFF (page_type_code P_Leaf_P) p;
         p = put_u8 LEVEL_OFF (of_nat level) p;
         p = put_u32 KEY_SIZE_OFF (of_nat (GetPrimaryKeyLength s)) p;
         p = put_u32 RECORD_SIZE_OFF (of_nat (GetRecordTotalSize s)) p;
         p = put_addr THIS_PAGE_OFF this_page p;
         p = put_u16 CARDINALITY_OFF cardinality p;
         p = put_u64 P_VERSION_OFF 1 p
     in SetLowest s kmin (SetHighest s kmax p))"


section \<open>Binary search\<close>

text \<open>The loop that all page operations share; \<open>c mid\<close> is the comparison of the wanted key with the key at
  \<open>mid\<close>.\<close>

datatype probe = Hit nat | Stop nat

function bsearch :: "(nat \<Rightarrow> int) \<Rightarrow> nat \<Rightarrow> nat \<Rightarrow> probe" where
  "bsearch c left right =
    (if left < right then
       (let mid = (left + right + 1) div 2 in
        if 0 < c mid then bsearch c mid right
        else if c mid < 0 then bsearch c left (mid - 1)
        else Hit mid)
     else Stop left)"
  by auto

termination by (relation "measure (\<lambda>(c, left, right). right - left)") auto

declare bsearch.simps [simp del]

text \<open>\<^verbatim>\<open>last_index\<close> as the initial right end, a variable of type \<^verbatim>\<open>uint16_t\<close>.\<close>

definition right_end :: "mem \<Rightarrow> nat" where
  "right_end p = unat (get_u16 LAST_INDEX_OFF p)"

definition key_cmp_at :: "RecordSchema \<Rightarrow> byte list \<Rightarrow> mem \<Rightarrow> nat \<Rightarrow> int" where
  "key_cmp_at s k p i = key_compare s k (GetRecordKeyByIndex s i p)"


section \<open>Internal pages\<close>

text \<open>The search always succeeds; its result is the child to visit next.\<close>

definition InternalPage_search :: "byte list \<Rightarrow> RecordSchema \<Rightarrow> mem \<Rightarrow> GlobalAddress" where
  "InternalPage_search k s p =
    (if key_cmp_at s k p 0 < 0 then leftmost_ptr p
     else case bsearch (key_cmp_at s k p) 0 (right_end p) of
            Hit mid \<Rightarrow> get_addr (record_ptr mid p + key_size16 p) p
          | Stop i \<Rightarrow> GetRecordValueByIndex i p)"

text \<open>What an operation appends to the redo log: region, page, version and payload.\<close>

type_synonym log_append = "u16 \<times> GlobalAddress \<times> u64 \<times> byte list"

datatype index_error = EntryUpdate | NullKey

fun shift_right :: "RecordSchema \<Rightarrow> nat \<Rightarrow> nat \<Rightarrow> mem \<Rightarrow> mem" where
  "shift_right s insert_index 0 p = p"
| "shift_right s insert_index (Suc i) p =
    (if insert_index < Suc i then
       shift_right s insert_index i (SetRecordByIndex s (Suc i) (GetRecordKeyByIndex s i p) (GetRecordValueByIndex i p) p)
     else p)"

text \<open>The payload that an insertion into an internal page logs.\<close>

definition internal_payload :: "byte list \<Rightarrow> GlobalAddress \<Rightarrow> nat \<Rightarrow> nat \<Rightarrow> u16 \<Rightarrow> mem \<Rightarrow> byte list" where
  "internal_payload k v insert_index cnt lidx p =
    (let base = INDEX_DATA_OFF + 2 * key_size p; off = base + insert_index * record_size p;
         buf = Encoder_new;
         buf = (if insert_index < cnt
                then AddMemmove buf (of_nat (off + record_size p)) (of_nat off) (of_nat ((cnt - insert_index) * record_size p))
                else buf);
         buf = AddUpdateBytes buf (of_nat off) k (of_nat (key_size p));
         buf = AddUpdateBytes buf (of_nat (off + key_size p)) (le_bytes 8 (gval v)) 8
     in AddUpdateBytes buf (of_nat LAST_INDEX_OFF) (le_bytes 2 lidx) 2)"

text \<open>The result of a store: whether the page is now full, the page and the log record.\<close>

definition insert_internal_at ::
  "RecordSchema \<Rightarrow> GlobalAddress \<Rightarrow> byte list \<Rightarrow> GlobalAddress \<Rightarrow> bool \<Rightarrow> nat \<Rightarrow> mem \<Rightarrow> bool \<times> mem \<times> log_append option" where
  "insert_internal_at s page_addr k v need_logging insert_index p =
    (let cnt = nat (last_index p + 1);
         new_version = index_version p + 1;
         p1 = index_reset_dirty_bounds p;
         p2 = shift_right s insert_index cnt p1;
         p3 = SetRecordByIndex s insert_index k v p2;
         lidx = get_u16 LAST_INDEX_OFF p3 + 1;
         p4 = put_u64 P_VERSION_OFF new_version (put_u16 LAST_INDEX_OFF lidx p3);
         log = (if need_logging then Some (nodeID page_addr, page_addr, new_version, internal_payload k v insert_index cnt lidx p)
                else None)
     in (cnt + 1 = kCardinality p4, p4, log))"

definition InternalPage_store ::
  "GlobalAddress \<Rightarrow> byte list \<Rightarrow> GlobalAddress \<Rightarrow> RecordSchema \<Rightarrow> bool \<Rightarrow> mem \<Rightarrow> index_error + bool \<times> mem \<times> log_append option" where
  "InternalPage_store page_addr k v s need_logging p =
    (if key_cmp_at s k p 0 < 0 then Inr (insert_internal_at s page_addr k v need_logging 0 p)
     else case bsearch (key_cmp_at s k p) 0 (right_end p) of
            Hit mid \<Rightarrow> Inl EntryUpdate
          | Stop i \<Rightarrow> Inr (insert_internal_at s page_addr k v need_logging (i + 1) p))"


section \<open>Leaf pages\<close>

text \<open>The position of the largest key that is not above \<open>k\<close>, or \<open>- 1\<close>.  After the loop \<^verbatim>\<open>mid\<close>
  equals \<^verbatim>\<open>right\<close>.\<close>

definition leaf_page_pos_lb :: "byte list \<Rightarrow> RecordSchema \<Rightarrow> mem \<Rightarrow> int" where
  "leaf_page_pos_lb k s p =
    (if get_u16 LAST_INDEX_OFF p + 1 = 0 then - 1
     else case bsearch (key_cmp_at s k p) 0 (unat (scast (get_u16 LAST_INDEX_OFF p) :: u32)) of
            Hit mid \<Rightarrow> int mid
          | Stop mid \<Rightarrow> if key_cmp_at s k p mid < 0 \<and> mid = 0 then - 1 else int mid)"

definition GetDeepByPosition :: "nat \<Rightarrow> mem \<Rightarrow> byte list \<times> byte list" where
  "GetDeepByPosition pos p =
    (load_bytes (record_ptr pos p) (key_size p) p, load_bytes (record_ptr pos p) (record_size p) p)"

text \<open>\<open>Some\<close> record when \<^verbatim>\<open>find_value\<close> is set.\<close>

definition leaf_page_search :: "byte list \<Rightarrow> RecordSchema \<Rightarrow> mem \<Rightarrow> byte list option" where
  "leaf_page_search k s p =
    (case bsearch (key_cmp_at s k p) 0 (right_end p) of
       Hit mid \<Rightarrow> Some (load_bytes (record_ptr mid p) (record_size p) p)
     | Stop i \<Rightarrow> if key_cmp_at s k p i = 0 then Some (load_bytes (record_ptr i p) (GetRecordTotalSize s) p) else None)"

definition leaf_payload :: "byte list \<Rightarrow> nat \<Rightarrow> u16 \<Rightarrow> mem \<Rightarrow> byte list" where
  "leaf_payload v insert_index lidx p =
    (let off = record_ptr insert_index p;
         buf = Encoder_new;
         buf = (if int insert_index \<le> last_index p
                then AddMemmove buf (of_nat (off + record_size p)) (of_nat off)
                       (of_nat (nat (last_index p - int insert_index + 1) * record_size p))
                else buf);
         buf = AddUpdateBytes buf (of_nat off) v (of_nat (record_size p))
     in AddUpdateBytes buf (of_nat LAST_INDEX_OFF) (le_bytes 2 lidx) 2)"

definition memmove :: "nat \<Rightarrow> nat \<Rightarrow> nat \<Rightarrow> mem \<Rightarrow> mem" where
  "memmove dst src n p = store_bytes dst (load_bytes src n p) p"

definition insert_leaf_at ::
  "byte list \<Rightarrow> bool \<Rightarrow> GlobalAddress \<Rightarrow> nat \<Rightarrow> mem \<Rightarrow> bool \<times> mem \<times> log_append option" where
  "insert_leaf_at v need_logging page_addr insert_index p =
    (let off = record_ptr insert_index p;
         new_version = index_version p + 1;
         p1 = (if int insert_index \<le> last_index p
               then memmove (off + record_size p) off (nat (last_index p - int insert_index + 1) * record_size p) p
               else p);
         p2 = store_bytes off v p1;
         lidx = get_u16 LAST_INDEX_OFF p2 + 1;
         p3 = put_u64 P_VERSION_OFF new_version (put_u16 LAST_INDEX_OFF lidx p2);
         log = (if need_logging then Some (nodeID page_addr, page_addr, new_version, leaf_payload v insert_index lidx p) else None)
     in (last_index p + 2 = int (kCardinality p3), p3, log))"

text \<open>An update overwrites the record in the loop and again after it, and returns without logging.\<close>

definition leaf_page_store ::
  "byte list \<Rightarrow> byte list \<Rightarrow> RecordSchema \<Rightarrow> bool \<Rightarrow> GlobalAddress \<Rightarrow> mem \<Rightarrow> bool \<times> mem \<times> log_append option" where
  "leaf_page_store k v s logger page_addr p =
    (let need_logging = (logger \<and> page_addr \<noteq> GlobalAddress_Null) in
     if last_index p = - 1 then insert_leaf_at v need_logging page_addr 0 p
     else
       (let (i, p) = (case bsearch (key_cmp_at s k p) 0 (right_end p) of
                        Hit mid \<Rightarrow> (mid, store_bytes (record_ptr mid p) (take (record_size p) v) p)
                      | Stop i \<Rightarrow> (i, p));
            c = key_cmp_at s k p i
        in if 0 < c then insert_leaf_at v need_logging page_addr (i + 1) p
           else if c < 0 then insert_leaf_at v need_logging page_addr 0 p
           else (last_index p + 1 = int (kCardinality p),
                 store_bytes (record_ptr i p) (take (record_size p) v) p, None)))"

text \<open>\<^verbatim>\<open>leaf_page_delete\<close> compares with a default-constructed key first, whose \<^verbatim>\<open>start\<close> is null.\<close>

definition null_compare :: "RecordSchema \<Rightarrow> int option" where
  "null_compare s = (if MakePrimaryFootprint s = [] then Some 0 else None)"

definition delete_payload :: "nat \<Rightarrow> u16 \<Rightarrow> nat \<Rightarrow> mem \<Rightarrow> byte list" where
  "delete_payload i lidx tuple_length p =
    (let off = record_ptr i p; move_size = nat (last_index p - int i) * tuple_length;
         buf = Encoder_new;
         buf = (if 0 < move_size then AddMemmove buf (of_nat off) (of_nat (off + tuple_length)) (of_nat move_size) else buf)
     in AddUpdateBytes buf (of_nat LAST_INDEX_OFF) (le_bytes 2 lidx) 2)"

definition delete_leaf_at ::
  "RecordSchema \<Rightarrow> bool \<Rightarrow> GlobalAddress \<Rightarrow> nat \<Rightarrow> mem \<Rightarrow> mem \<times> log_append option" where
  "delete_leaf_at s need_logging page_addr i p =
    (let tuple_length = GetRecordTotalSize s; off = record_ptr i p;
         new_version = index_version p + 1;
         p1 = (if int i \<le> last_index p then memmove off (off + tuple_length) (nat (last_index p - int i) * tuple_length) p else p);
         lidx = get_u16 LAST_INDEX_OFF p1 - 1;
         p2 = put_u64 P_VERSION_OFF new_version (put_u16 LAST_INDEX_OFF lidx p1);
         log = (if need_logging then Some (nodeID page_addr, page_addr, new_version, delete_payload i lidx tuple_length p) else None)
     in (p2, log))"

text \<open>\<open>find_value\<close> is the flag in the caller's result before the call; the operation returns it, the page and
  the log record, or \<open>Inl NullKey\<close> when it reads through a null pointer.\<close>

definition leaf_page_delete ::
  "byte list \<Rightarrow> bool \<Rightarrow> RecordSchema \<Rightarrow> bool \<Rightarrow> GlobalAddress \<Rightarrow> mem \<Rightarrow> index_error + bool \<times> mem \<times> log_append option" where
  "leaf_page_delete k find_value s logger page_addr p =
    (let need_logging = (logger \<and> page_addr \<noteq> GlobalAddress_Null \<and> find_value) in
     case null_compare s of None \<Rightarrow> Inl NullKey
     | Some c \<Rightarrow>
        if c < 0 \<or> last_index p = - 1 then
          (let (p', log) = delete_leaf_at s need_logging page_addr 0 p in Inr (True, p', log))
        else
          (let i = (case bsearch (key_cmp_at s k p) 0 (right_end p) of Hit mid \<Rightarrow> mid | Stop i \<Rightarrow> i) in
           if key_cmp_at s k p i \<noteq> 0 then Inr (False, p, None)
           else (let (p', log) = delete_leaf_at s need_logging page_addr i p in Inr (True, p', log))))"

section \<open>Reading what was stored\<close>

named_theorems page_simps \<open>members of a page after a store\<close>

lemma get_put_same [page_simps]:
  "get_u16 a (put_u16 a v p) = v" "get_u32 a (put_u32 a w p) = w" "get_u64 a (put_u64 a x p) = x" "get_u8 a (put_u8 a b p) = b"
  by (simp_all add: get_u16_def put_u16_def get_u32_def put_u32_def get_u64_def put_u64_def get_u8_def put_u8_def)

lemma get_store_disjoint [page_simps]:
  "a + 2 \<le> b \<or> b + length bs \<le> a \<Longrightarrow> get_u16 a (store_bytes b bs p) = get_u16 a p"
  "a + 4 \<le> b \<or> b + length bs \<le> a \<Longrightarrow> get_u32 a (store_bytes b bs p) = get_u32 a p"
  "a + 8 \<le> b \<or> b + length bs \<le> a \<Longrightarrow> get_u64 a (store_bytes b bs p) = get_u64 a p"
  "a + 1 \<le> b \<or> b + length bs \<le> a \<Longrightarrow> get_u8 a (store_bytes b bs p) = get_u8 a p"
  by (simp_all add: get_u16_def get_u32_def get_u64_def get_u8_def load_store_disjoint) (auto simp: store_bytes_def)

lemma gval_get_addr [simp]: "gval (get_addr a p) = get_u64 a p"
  by (simp add: get_addr_def)

lemma get_put_addr [page_simps]: "get_addr a (put_addr a g p) = g"
  by (simp add: get_addr_def put_addr_def page_simps)

lemma rec_ptr_ge: "64 \<le> rec_ptr ks i p"
  by (simp add: rec_ptr_def INDEX_DATA_OFF_def)

text \<open>The header of a page only depends on the bytes below the keys.\<close>

definition same_header :: "mem \<Rightarrow> mem \<Rightarrow> bool" where
  "same_header p q \<longleftrightarrow> key_size p = key_size q \<and> record_size p = record_size q \<and> kCardinality p = kCardinality q
     \<and> page_level p = page_level q \<and> leftmost_ptr p = leftmost_ptr q \<and> sibling_ptr p = sibling_ptr q"

lemmas header_defs = key_size_def record_size_def kCardinality_def page_level_def leftmost_ptr_def sibling_ptr_def
  last_index_def index_version_def get_addr_def

lemma header_store_above [page_simps]:
  assumes "64 \<le> b"
  shows "key_size (store_bytes b bs p) = key_size p" "record_size (store_bytes b bs p) = record_size p"
    "kCardinality (store_bytes b bs p) = kCardinality p" "page_level (store_bytes b bs p) = page_level p"
    "leftmost_ptr (store_bytes b bs p) = leftmost_ptr p" "sibling_ptr (store_bytes b bs p) = sibling_ptr p"
    "last_index (store_bytes b bs p) = last_index p" "index_version (store_bytes b bs p) = index_version p"
    "get_u16 LAST_INDEX_OFF (store_bytes b bs p) = get_u16 LAST_INDEX_OFF p"
  using assms by (simp_all add: header_defs page_offs page_simps)

lemma header_put [page_simps]:
  "key_size (put_u16 LAST_INDEX_OFF x p) = key_size p" "record_size (put_u16 LAST_INDEX_OFF x p) = record_size p"
  "kCardinality (put_u16 LAST_INDEX_OFF x p) = kCardinality p" "page_level (put_u16 LAST_INDEX_OFF x p) = page_level p"
  "leftmost_ptr (put_u16 LAST_INDEX_OFF x p) = leftmost_ptr p" "sibling_ptr (put_u16 LAST_INDEX_OFF x p) = sibling_ptr p"
  "index_version (put_u16 LAST_INDEX_OFF x p) = index_version p" "last_index (put_u16 LAST_INDEX_OFF x p) = sint x"
  "key_size (put_u64 P_VERSION_OFF v p) = key_size p" "record_size (put_u64 P_VERSION_OFF v p) = record_size p"
  "kCardinality (put_u64 P_VERSION_OFF v p) = kCardinality p" "page_level (put_u64 P_VERSION_OFF v p) = page_level p"
  "leftmost_ptr (put_u64 P_VERSION_OFF v p) = leftmost_ptr p" "sibling_ptr (put_u64 P_VERSION_OFF v p) = sibling_ptr p"
  "index_version (put_u64 P_VERSION_OFF v p) = v" "last_index (put_u64 P_VERSION_OFF v p) = last_index p"
  by (simp_all add: header_defs page_offs page_simps) (simp_all add: put_u16_def put_u64_def page_simps)

lemma header_dirty [page_simps]:
  "key_size (index_reset_dirty_bounds p) = key_size p" "record_size (index_reset_dirty_bounds p) = record_size p"
  "kCardinality (index_reset_dirty_bounds p) = kCardinality p" "page_level (index_reset_dirty_bounds p) = page_level p"
  "leftmost_ptr (index_reset_dirty_bounds p) = leftmost_ptr p" "sibling_ptr (index_reset_dirty_bounds p) = sibling_ptr p"
  "index_version (index_reset_dirty_bounds p) = index_version p" "last_index (index_reset_dirty_bounds p) = last_index p"
  "get_u16 LAST_INDEX_OFF (index_reset_dirty_bounds p) = get_u16 LAST_INDEX_OFF p"
  by (simp_all add: header_defs page_offs page_simps index_reset_dirty_bounds_def put_u16_def)

text \<open>Writes to the header leave the rest of the page alone.\<close>

lemma load_above_header [page_simps]:
  assumes "64 \<le> a"
  shows "load_bytes a n (put_u16 LAST_INDEX_OFF x p) = load_bytes a n p" "load_bytes a n (put_u64 P_VERSION_OFF v p) = load_bytes a n p"
    "load_bytes a n (index_reset_dirty_bounds p) = load_bytes a n p"
  using assms by (simp_all add: put_u16_def put_u64_def page_offs index_reset_dirty_bounds_def load_store_disjoint)

lemma load_memmove:
  "d + m \<le> n \<Longrightarrow> load_bytes (dst + d) m (memmove dst src n p) = load_bytes (src + d) m p"
  by (rule nth_equalityI) (auto simp: memmove_def store_bytes_def add.assoc)

lemma load_memmove_out:
  "a + m \<le> dst \<or> dst + n \<le> a \<Longrightarrow> load_bytes a m (memmove dst src n p) = load_bytes a m p"
  by (simp add: memmove_def load_store_disjoint)

lemma memmove_0 [simp]: "memmove dst src 0 p = p"
  by (simp add: memmove_def)

lemma header_memmove [page_simps]:
  assumes "64 \<le> dst"
  shows "key_size (memmove dst src n p) = key_size p" "record_size (memmove dst src n p) = record_size p"
    "kCardinality (memmove dst src n p) = kCardinality p" "page_level (memmove dst src n p) = page_level p"
    "leftmost_ptr (memmove dst src n p) = leftmost_ptr p" "sibling_ptr (memmove dst src n p) = sibling_ptr p"
    "last_index (memmove dst src n p) = last_index p" "index_version (memmove dst src n p) = index_version p"
    "get_u16 LAST_INDEX_OFF (memmove dst src n p) = get_u16 LAST_INDEX_OFF p"
  using assms by (simp_all add: memmove_def page_simps)


section \<open>The records of a page\<close>

definition recs :: "nat \<Rightarrow> mem \<Rightarrow> byte list list" where
  "recs n p = map (\<lambda>i. load_bytes (record_ptr i p) (record_size p) p) [0..<n]"

definition cnt :: "mem \<Rightarrow> nat" where
  "cnt p = nat (last_index p + 1)"

abbreviation entries :: "mem \<Rightarrow> byte list list" where
  "entries p \<equiv> recs (cnt p) p"

lemma length_recs [simp]: "length (recs n p) = n"
  by (simp add: recs_def)

lemma nth_recs [simp]: "i < n \<Longrightarrow> recs n p ! i = load_bytes (record_ptr i p) (record_size p) p"
  by (simp add: recs_def)

lemma key_size16_cong: "key_size p = key_size q \<Longrightarrow> key_size16 p = key_size16 q"
  by (simp add: key_size16_def)

lemma rec_ptr_cong: "record_size p = record_size q \<Longrightarrow> rec_ptr ks i p = rec_ptr ks i q"
  by (simp add: rec_ptr_def)

lemma rec_ptr_Suc: "rec_ptr ks (Suc i) p = rec_ptr ks i p + record_size p"
  by (simp add: rec_ptr_def)

lemma rec_ptr_mono: "i \<le> j \<Longrightarrow> rec_ptr ks i p \<le> rec_ptr ks j p"
  by (simp add: rec_ptr_def)

lemma rec_ptr_diff: "i \<le> j \<Longrightarrow> rec_ptr ks j p = rec_ptr ks i p + (j - i) * record_size p"
  by (simp add: rec_ptr_def add_mult_distrib [symmetric])

lemma rec_ptr_less: "i < j \<Longrightarrow> rec_ptr ks i p + record_size p \<le> rec_ptr ks j p"
  using rec_ptr_mono [of "Suc i" j] by (simp add: rec_ptr_Suc)

lemma recs_cong:
  assumes "key_size q = key_size p" "record_size q = record_size p"
    "\<And>i. i < n \<Longrightarrow> load_bytes (record_ptr i p) (record_size p) q = load_bytes (record_ptr i p) (record_size p) p"
  shows "recs n q = recs n p"
proof -
  have "record_ptr i q = record_ptr i p" for i
    using assms(1,2) by (simp add: rec_ptr_def key_size16_def)
  then show ?thesis using assms by (simp add: recs_def)
qed

lemma recs_header [page_simps]:
  "recs n (put_u16 LAST_INDEX_OFF x p) = recs n p" "recs n (put_u64 P_VERSION_OFF v p) = recs n p"
  "recs n (index_reset_dirty_bounds p) = recs n p"
  by (rule recs_cong; simp add: page_simps rec_ptr_ge)+

text \<open>Making room for a record and storing it.\<close>

definition insert_record :: "nat \<Rightarrow> nat \<Rightarrow> byte list \<Rightarrow> mem \<Rightarrow> mem" where
  "insert_record n i v p = store_bytes (record_ptr i p) v
     (memmove (record_ptr i p + record_size p) (record_ptr i p) ((n - i) * record_size p) p)"

lemma header_insert_record [page_simps]:
  "key_size (insert_record n i v p) = key_size p" "record_size (insert_record n i v p) = record_size p"
  "kCardinality (insert_record n i v p) = kCardinality p" "page_level (insert_record n i v p) = page_level p"
  "leftmost_ptr (insert_record n i v p) = leftmost_ptr p" "sibling_ptr (insert_record n i v p) = sibling_ptr p"
  "last_index (insert_record n i v p) = last_index p" "index_version (insert_record n i v p) = index_version p"
  "get_u16 LAST_INDEX_OFF (insert_record n i v p) = get_u16 LAST_INDEX_OFF p"
  using rec_ptr_ge by (simp_all add: insert_record_def page_simps trans_le_add1)

lemma recs_insert_record:
  assumes "i \<le> n" "length v = record_size p"
  shows "recs (Suc n) (insert_record n i v p) = take i (recs n p) @ v # drop i (recs n p)"
proof (rule nth_equalityI)
  let ?q = "insert_record n i v p"
  have ptr: "record_ptr j ?q = record_ptr j p" for j
    by (simp add: rec_ptr_def key_size16_def page_simps)
  fix j assume j: "j < length (recs (Suc n) ?q)"
  have "load_bytes (record_ptr j p) (record_size p) ?q = (take i (recs n p) @ v # drop i (recs n p)) ! j"
  proof (cases j i rule: linorder_cases)
    case less
    then show ?thesis using assms rec_ptr_less [OF less, of "key_size16 p" p]
      by (simp add: insert_record_def load_store_disjoint load_memmove_out nth_append)
  next
    case equal
    then show ?thesis using assms by (simp add: insert_record_def nth_append)
  next
    case greater
    then obtain d where d: "j = Suc (i + d)" by (metis less_iff_Suc_add)
    have d': "d * record_size p + record_size p \<le> (n - i) * record_size p"
      using j d by (metis add.commute le_diff_conv2 assms(1) length_recs less_Suc_eq_le mult_Suc mult_le_mono1 Suc_le_eq add_Suc Suc_leI add_less_cancel_right Suc_less_eq less_diff_conv)
    have "record_ptr j p = record_ptr i p + record_size p + d * record_size p" "record_ptr (i + d) p = record_ptr i p + d * record_size p"
      by (simp_all add: d rec_ptr_def algebra_simps)
    then show ?thesis using load_memmove [OF d'] assms j d
      by (simp add: insert_record_def load_store_disjoint nth_append)
  qed
  then show "recs (Suc n) ?q ! j = (take i (recs n p) @ v # drop i (recs n p)) ! j"
    using j ptr by (simp add: page_simps)
qed (use assms in simp)

section \<open>What the binary search finds\<close>

text \<open>The comparisons with a sorted sequence of keys: once the wanted key is not above, it is below.\<close>

definition descending :: "(nat \<Rightarrow> int) \<Rightarrow> nat \<Rightarrow> bool" where
  "descending c n \<longleftrightarrow> (\<forall>i j. i < j \<and> j < n \<and> c i \<le> 0 \<longrightarrow> c j < 0)"

lemma descendingD: "descending c n \<Longrightarrow> i < j \<Longrightarrow> j < n \<Longrightarrow> c i \<le> 0 \<Longrightarrow> c j < 0"
  by (auto simp: descending_def)

lemma bsearch_Hit: "bsearch c l r = Hit m \<Longrightarrow> l < m \<and> m \<le> r \<and> c m = 0"
proof (induction c l r rule: bsearch.induct)
  case (1 c l r)
  show ?case
    using "1.prems" "1.IH" [OF _ refl] 
    by (subst (asm) bsearch.simps) (fastforce simp: Let_def split: if_splits)
qed

lemma bsearch_Stop:
  assumes "bsearch c l r = Stop i" "l \<le> r" "r < n" "descending c n"
  shows "l \<le> i \<and> i \<le> r \<and> (i = l \<or> 0 < c i) \<and> (\<forall>j. i < j \<and> j \<le> r \<longrightarrow> c j < 0)"
  using assms
proof (induction c l r rule: bsearch.induct)
  case (1 c l r)
  let ?m = "(l + r + 1) div 2"
  show ?case
  proof (cases "l < r")
    case True
    then have m: "l < ?m" "?m \<le> r" by auto
    consider "0 < c ?m" "bsearch c ?m r = Stop i" | "c ?m < 0" "bsearch c l (?m - 1) = Stop i"
      using "1.prems"(1) True by (subst (asm) bsearch.simps) (auto simp: Let_def split: if_splits)
    then show ?thesis
    proof cases
      case 1
      then show ?thesis using "1.IH"(1) [OF True refl] m "1.prems" by auto
    next
      case 2
      have above: "c j < 0" if "?m \<le> j" "j \<le> r" for j
        using that 2(1) "1.prems"(3,4) unfolding descending_def by (metis le_neq_implies_less less_imp_le le_less_trans)
      have low: "l \<le> i" "i \<le> ?m - 1" "i = l \<or> 0 < c i" "\<And>j. i < j \<Longrightarrow> j \<le> ?m - 1 \<Longrightarrow> c j < 0"
        using "1.IH"(2) [OF True refl _ 2(1) 2(2)] 2 m "1.prems" by simp_all
      have "c j < 0" if "i < j" "j \<le> r" for j
        using that above [of j] low(4) [of j] by (cases "?m \<le> j") linarith+
      then show ?thesis using low(1-3) m by auto
    qed
  next
    case False
    then show ?thesis using "1.prems" by (subst (asm) bsearch.simps) auto
  qed
qed

text \<open>Where the search stops, in one statement: the position of the largest key that is not above.\<close>

lemma bsearch_cases:
  assumes "descending c (Suc r)" "\<And>i. bsearch c 0 r = Hit i \<Longrightarrow> i \<le> r \<Longrightarrow> c i = 0 \<Longrightarrow> P (Hit i)"
    "\<And>i. bsearch c 0 r = Stop i \<Longrightarrow> i \<le> r \<Longrightarrow> (i = 0 \<or> 0 < c i) \<Longrightarrow> (\<And>j. i < j \<Longrightarrow> j \<le> r \<Longrightarrow> c j < 0) \<Longrightarrow> P (Stop i)"
  shows "P (bsearch c 0 r)"
proof (cases "bsearch c 0 r")
  case (Hit i)
  then show ?thesis using assms(2) bsearch_Hit [OF Hit] by simp
next
  case (Stop i)
  then show ?thesis using assms(3) bsearch_Stop [OF Stop _ _ assms(1)] by auto
qed


section \<open>Well-formed pages\<close>

definition rec_key :: "RecordSchema \<Rightarrow> byte list \<Rightarrow> byte list" where
  "rec_key s e = take (GetPrimaryKeyLength s) e"

fun sorted_recs :: "RecordSchema \<Rightarrow> byte list list \<Rightarrow> bool" where
  "sorted_recs s [] \<longleftrightarrow> True"
| "sorted_recs s (e # es) \<longleftrightarrow> key_ok s (rec_key s e) \<and> (\<forall>x \<in> set es. key_compare s (rec_key s e) (rec_key s x) < 0) \<and> sorted_recs s es"

text \<open>\<open>rsz\<close> is the length of a record; the records up to the cardinality fit the page.\<close>

definition index_page :: "RecordSchema \<Rightarrow> nat \<Rightarrow> mem \<Rightarrow> bool" where
  "index_page s rsz p \<longleftrightarrow> key_size p = GetPrimaryKeyLength s \<and> 0 < GetPrimaryKeyLength s \<and> GetPrimaryKeyLength s \<le> rsz
     \<and> record_size p = rsz
     \<and> INDEX_DATA_OFF + 2 * key_size p + kCardinality p * rsz < kLeafPageSize \<and> kCardinality p < 2 ^ 15 - 1
     \<and> - 1 \<le> last_index p \<and> last_index p < int (kCardinality p)"

definition sorted_page :: "RecordSchema \<Rightarrow> nat \<Rightarrow> mem \<Rightarrow> bool" where
  "sorted_page s rsz p \<longleftrightarrow> index_page s rsz p \<and> sorted_recs s (entries p)"

lemma index_pageD:
  assumes "index_page s rsz p"
  shows "key_size p = GetPrimaryKeyLength s" "0 < GetPrimaryKeyLength s" "GetPrimaryKeyLength s \<le> rsz" "record_size p = rsz"
    "INDEX_DATA_OFF + 2 * key_size p + kCardinality p * rsz < kLeafPageSize" "kCardinality p < 2 ^ 15 - 1"
    "- 1 \<le> last_index p" "last_index p < int (kCardinality p)" "key_size16 p = GetPrimaryKeyLength s"
    "last_index p = int (cnt p) - 1" "cnt p \<le> kCardinality p"
proof -
  show "key_size16 p = GetPrimaryKeyLength s"
    using assms by (simp add: index_page_def key_size16_def kLeafPageSize_def INDEX_DATA_OFF_def)
  show "cnt p \<le> kCardinality p" using assms by (simp add: index_page_def cnt_def nat_le_iff)
qed (use assms in \<open>simp_all add: index_page_def cnt_def\<close>)

lemma sorted_recs_append:
  "sorted_recs s (xs @ ys) \<longleftrightarrow> sorted_recs s xs \<and> sorted_recs s ys
     \<and> (\<forall>x \<in> set xs. \<forall>y \<in> set ys. key_compare s (rec_key s x) (rec_key s y) < 0)"
  by (induction xs) auto

lemma sorted_recs_nth:
  "sorted_recs s es \<Longrightarrow> i < j \<Longrightarrow> j < length es \<Longrightarrow> key_compare s (rec_key s (es ! i)) (rec_key s (es ! j)) < 0"
proof (induction es arbitrary: i j)
  case (Cons e es)
  then show ?case by (cases i; cases j) auto
qed simp

lemma sorted_recs_ok: "sorted_recs s es \<Longrightarrow> e \<in> set es \<Longrightarrow> key_ok s (rec_key s e)"
  by (induction es) auto

definition rec_cmp :: "RecordSchema \<Rightarrow> byte list \<Rightarrow> byte list list \<Rightarrow> nat \<Rightarrow> int" where
  "rec_cmp s k es i = key_compare s k (rec_key s (es ! i))"

lemma descending_recs:
  assumes "sorted_recs s es" "key_ok s k"
  shows "descending (rec_cmp s k es) (length es)"
  unfolding descending_def rec_cmp_def
  using key.le_less_trans_key [OF assms(2)] sorted_recs_ok [OF assms(1)] sorted_recs_nth [OF assms(1)]
  by (meson less_trans nth_mem)

lemma key_cmp_at_recs:
  assumes "index_page s rsz p" "i < cnt p"
  shows "key_cmp_at s k p i = rec_cmp s k (entries p) i"
  using assms index_pageD(1-4,9) [OF assms(1)]
  by (simp add: key_cmp_at_def rec_cmp_def GetRecordKeyByIndex_def rec_key_def)
    (simp add: load_bytes_def take_map min_def)

lemma descending_cong: "(\<And>i. i < n \<Longrightarrow> c i = d i) \<Longrightarrow> descending c n = descending d n"
  unfolding descending_def by (metis less_trans)

lemma page_descending:
  assumes "sorted_page s rsz p" "key_ok s k"
  shows "descending (key_cmp_at s k p) (cnt p)"
  using descending_recs [OF _ assms(2), of "entries p"] assms(1) key_cmp_at_recs [of s rsz p]
  by (subst descending_cong [of _ _ "rec_cmp s k (entries p)"]) (simp_all add: sorted_page_def)

lemma right_end_cnt:
  assumes "index_page s rsz p" "0 < cnt p"
  shows "right_end p = cnt p - 1" "unat (scast (get_u16 LAST_INDEX_OFF p) :: u32) = cnt p - 1"
proof -
  have nn: "0 \<le> sint (get_u16 LAST_INDEX_OFF p)" "sint (get_u16 LAST_INDEX_OFF p) = int (cnt p) - 1"
    using index_pageD(10) [OF assms(1)] assms(2) by (simp_all add: last_index_def)
  have small: "take_bit 16 (int (cnt p) - 1) = int (cnt p) - 1" "take_bit 32 (int (cnt p) - 1) = int (cnt p) - 1"
    using index_pageD(6,11) [OF assms(1)] assms(2) by (intro take_bit_int_eq_self; simp)+
  show "right_end p = cnt p - 1" using nn
    using uint_sint [of "get_u16 LAST_INDEX_OFF p"] small(1) by (simp add: right_end_def unat_eq_nat_uint)
  show "unat (scast (get_u16 LAST_INDEX_OFF p) :: u32) = cnt p - 1"
    unfolding scast_eq nn(2) unat_eq_nat_uint uint_word_of_int_eq using small(2) assms(2) by simp
qed

section \<open>Insertion into a page\<close>

text \<open>The effect of both stores on the bytes of a page, apart from the log.\<close>

definition inserted :: "nat \<Rightarrow> byte list \<Rightarrow> mem \<Rightarrow> mem" where
  "inserted i v p = put_u64 P_VERSION_OFF (index_version p + 1)
     (put_u16 LAST_INDEX_OFF (get_u16 LAST_INDEX_OFF p + 1) (insert_record (cnt p) i v p))"

lemma sint_plus_1:
  assumes "sint w < 2 ^ 15 - 1" 
  shows "sint (w + 1 :: u16) = sint w + 1"
  using assms sint_ge [of w] by (simp add: signed_take_bit_int_eq_self sint_word_ariths(1) signed_take_bit_add)

lemma cnt_inserted:
  assumes "index_page s rsz p" "cnt p < kCardinality p"
  shows "last_index (inserted i v p) = last_index p + 1" "cnt (inserted i v p) = Suc (cnt p)"
proof -
  have "sint (get_u16 LAST_INDEX_OFF p) < 2 ^ 15 - 1"
    using index_pageD(6,8) [OF assms(1)] by (simp add: last_index_def)
  then show *: "last_index (inserted i v p) = last_index p + 1"
    by (simp add: inserted_def page_simps sint_plus_1) (simp add: last_index_def)
  then show "cnt (inserted i v p) = Suc (cnt p)"
    using index_pageD(7) [OF assms(1)] by (simp add: cnt_def)
qed

lemma inserted_page:
  assumes "index_page s rsz p" "cnt p < kCardinality p" "i \<le> cnt p" "length v = rsz"
  shows "entries (inserted i v p) = take i (entries p) @ v # drop i (entries p)"
    "index_page s rsz (inserted i v p)" "same_header (inserted i v p) p"
    "index_version (inserted i v p) = index_version p + 1"
    "GetHighest s (inserted i v p) = GetHighest s p" "GetLowest s (inserted i v p) = GetLowest s p"
proof -
  note D = index_pageD [OF assms(1)]
  show "entries (inserted i v p) = take i (entries p) @ v # drop i (entries p)"
    unfolding cnt_inserted [OF assms(1,2)] using recs_insert_record [OF assms(3)] assms(4) D(4)
    by (simp add: inserted_def page_simps)
  show "same_header (inserted i v p) p" "index_version (inserted i v p) = index_version p + 1"
    by (simp_all add: same_header_def inserted_def page_simps)
  then show "index_page s rsz (inserted i v p)"
    using assms(1,2) D(10) unfolding index_page_def same_header_def cnt_inserted [OF assms(1,2)] by simp
  have low: "INDEX_DATA_OFF + 2 * GetPrimaryKeyLength s \<le> record_ptr i p" using D(9) by (simp add: rec_ptr_def)
  show "GetHighest s (inserted i v p) = GetHighest s p" "GetLowest s (inserted i v p) = GetLowest s p"
    using low unfolding GetHighest_def GetLowest_def inserted_def insert_record_def
    by (simp_all add: page_simps INDEX_DATA_OFF_def load_store_disjoint load_memmove_out)
qed

lemma insert_leaf_at_eq:
  assumes "index_page s rsz p" "i \<le> cnt p"
  shows "insert_leaf_at v nl g i p = (cnt p + 1 = kCardinality p, inserted i v p,
     if nl then Some (nodeID g, g, index_version p + 1, leaf_payload v i (get_u16 LAST_INDEX_OFF p + 1) p) else None)"
proof -
  have d: "nat (last_index p - int i + 1) = cnt p - i" "int i \<le> last_index p \<longleftrightarrow> i < cnt p"
    using index_pageD(10) [OF assms(1)] by auto
  have ge: "64 \<le> record_ptr i p + record_size p" "64 \<le> record_ptr i p" using rec_ptr_ge by (simp_all add: trans_le_add1)
  have "(if int i \<le> last_index p then memmove (record_ptr i p + record_size p) (record_ptr i p) ((cnt p - i) * record_size p) p else p)
    = memmove (record_ptr i p + record_size p) (record_ptr i p) ((cnt p - i) * record_size p) p"
    using assms(2) d(2) by auto
  moreover have "last_index p + 2 = int (kCardinality p) \<longleftrightarrow> cnt p + 1 = kCardinality p"
    using index_pageD(10) [OF assms(1)] by linarith
  ultimately show ?thesis
    unfolding insert_leaf_at_def inserted_def insert_record_def Let_def d(1) by (simp add: page_simps ge)
qed

text \<open>The reference operation: a sorted list of records with a record inserted or replaced.\<close>

definition ins_rec :: "RecordSchema \<Rightarrow> byte list \<Rightarrow> byte list \<Rightarrow> byte list list \<Rightarrow> byte list list" where
  "ins_rec s k v es = takeWhile (\<lambda>e. 0 < key_compare s k (rec_key s e)) es @ v # dropWhile (\<lambda>e. 0 \<le> key_compare s k (rec_key s e)) es"

definition find_rec :: "RecordSchema \<Rightarrow> byte list \<Rightarrow> byte list list \<Rightarrow> byte list option" where
  "find_rec s k es = find (\<lambda>e. key_compare s k (rec_key s e) = 0) es"

lemma dropWhile_eq_drop_nth:
  "(\<And>i. i < n \<Longrightarrow> i < length xs \<Longrightarrow> P (xs ! i)) \<Longrightarrow> (n < length xs \<Longrightarrow> \<not> P (xs ! n)) \<Longrightarrow> dropWhile P xs = drop n xs"
  using takeWhile_eq_take_P_nth [of n xs P] by (simp add: dropWhile_eq_drop min_def)

lemma ins_rec_at:
  assumes "i \<le> length es" "\<And>j. j < i \<Longrightarrow> 0 < rec_cmp s k es j" "i < length es \<Longrightarrow> rec_cmp s k es i < 0"
  shows "ins_rec s k v es = take i es @ v # drop i es"
proof -
  have "takeWhile (\<lambda>e. 0 < key_compare s k (rec_key s e)) es = take i es"
    using assms by (intro takeWhile_eq_take_P_nth) (auto simp: rec_cmp_def)
  moreover have "dropWhile (\<lambda>e. 0 \<le> key_compare s k (rec_key s e)) es = drop i es"
    using assms by (intro dropWhile_eq_drop_nth) (auto simp: rec_cmp_def less_imp_le)
  ultimately show ?thesis by (simp add: ins_rec_def)
qed

lemma ins_rec_update:
  assumes "i < length es" "rec_cmp s k es i = 0" "descending (rec_cmp s k es) (length es)"
  shows "ins_rec s k v es = es[i := v]"
proof -
  have below: "0 < rec_cmp s k es j" if "j < i" for j
    using assms that unfolding descending_def by (metis less_irrefl linorder_not_less)
  have above: "rec_cmp s k es (Suc i) < 0" if "Suc i < length es" 
    using assms that unfolding descending_def by (metis lessI order_refl)
  have "takeWhile (\<lambda>e. 0 < key_compare s k (rec_key s e)) es = take i es"
    using assms(1,2) below by (intro takeWhile_eq_take_P_nth) (auto simp: rec_cmp_def)
  moreover have "dropWhile (\<lambda>e. 0 \<le> key_compare s k (rec_key s e)) es = drop (Suc i) es"
    using assms(1,2) below above by (intro dropWhile_eq_drop_nth) (auto simp: rec_cmp_def less_Suc_eq less_imp_le)
  ultimately show ?thesis using assms(1) by (simp add: ins_rec_def upd_conv_take_nth_drop)
qed

lemma update_record:
  assumes "index_page s rsz p" "i < cnt p" "length v = rsz"
  shows "entries (store_bytes (record_ptr i p) v p) = (entries p)[i := v]"
    "index_page s rsz (store_bytes (record_ptr i p) v p)" "cnt (store_bytes (record_ptr i p) v p) = cnt p"
    "same_header (store_bytes (record_ptr i p) v p) p" "index_version (store_bytes (record_ptr i p) v p) = index_version p"
    "record_ptr j (store_bytes (record_ptr i p) v p) = record_ptr j p"
    "GetHighest s (store_bytes (record_ptr i p) v p) = GetHighest s p" "GetLowest s (store_bytes (record_ptr i p) v p) = GetLowest s p"
proof -
  let ?q = "store_bytes (record_ptr i p) v p"
  note D = index_pageD [OF assms(1)] and hdr = header_store_above [OF rec_ptr_ge, of "key_size16 p" i p v p]
  show ptr: "record_ptr j ?q = record_ptr j p" for j using hdr by (simp add: rec_ptr_def key_size16_def)
  show c: "cnt ?q = cnt p" using hdr by (simp add: cnt_def)
  show "same_header ?q p" "index_version ?q = index_version p" using hdr by (simp_all add: same_header_def)
  show "index_page s rsz ?q" using assms(1) hdr by (simp add: index_page_def)
  have low: "INDEX_DATA_OFF + 2 * GetPrimaryKeyLength s \<le> record_ptr i p" using D(9) by (simp add: rec_ptr_def)
  show "GetHighest s ?q = GetHighest s p" "GetLowest s ?q = GetLowest s p"
    using low unfolding GetHighest_def GetLowest_def by (simp_all add: load_store_disjoint)
  show "entries ?q = (entries p)[i := v]"
  proof (rule nth_equalityI)
    fix j assume j: "j < length (entries ?q)"
    have "load_bytes (record_ptr j p) (record_size p) ?q = (entries p)[i := v] ! j"
      using rec_ptr_less [of i j "key_size16 p" p] rec_ptr_less [of j i "key_size16 p" p] assms(2,3) D(4) j c
      by (cases i j rule: linorder_cases) (auto simp: load_store_disjoint)
    then show "entries ?q ! j = (entries p)[i := v] ! j" using j c ptr hdr by simp
  qed (simp add: c)
qed

text \<open>A sorted list splits into the records below, at and above a key.\<close>

lemma ins_rec_split:
  assumes "sorted_recs s es" "key_ok s (rec_key s v)"
  obtains xs zs ys where "es = xs @ zs @ ys" "ins_rec s (rec_key s v) v es = xs @ v # ys"
    "\<And>e. e \<in> set xs \<Longrightarrow> 0 < key_compare s (rec_key s v) (rec_key s e)"
    "\<And>e. e \<in> set zs \<Longrightarrow> key_compare s (rec_key s v) (rec_key s e) = 0"
    "\<And>e. e \<in> set ys \<Longrightarrow> key_compare s (rec_key s v) (rec_key s e) < 0"
proof -
  let ?c = "\<lambda>e. key_compare s (rec_key s v) (rec_key s e)"
  define xs us where "xs = takeWhile (\<lambda>e. 0 < ?c e) es" and "us = dropWhile (\<lambda>e. 0 < ?c e) es"
  define zs ys where "zs = takeWhile (\<lambda>e. 0 \<le> ?c e) us" and "ys = dropWhile (\<lambda>e. 0 \<le> ?c e) us"
  note ok = sorted_recs_ok [OF assms(1)]
  have es: "es = xs @ us" "us = zs @ ys" by (simp_all add: xs_def us_def zs_def ys_def)
  have "dropWhile (\<lambda>e. 0 \<le> ?c e) es = ys"
    unfolding ys_def us_def by (induction es) auto
  then have ins: "ins_rec s (rec_key s v) v es = xs @ v # ys" by (simp add: ins_rec_def xs_def)
  have later: "?c e < 0" if "rs = u # rs'" "sorted_recs s rs" "set rs \<subseteq> set es" "?c u \<le> 0" "e \<in> set rs'" for u rs rs' e
  proof -
    have "key_compare s (rec_key s u) (rec_key s e) < 0" using that by simp
    moreover have "key_ok s (rec_key s u)" "key_ok s (rec_key s e)" using that ok by auto
    ultimately show ?thesis using key.le_less_trans_key [OF assms(2) _ _ that(4)] by blast
  qed
  have srt: "sorted_recs s us" "sorted_recs s ys" using assms(1) es by (simp_all add: sorted_recs_append)
  have sub: "set us \<subseteq> set es" "set ys \<subseteq> set es" using es by auto
  have x: "0 < ?c e" if "e \<in> set xs" for e using that set_takeWhileD unfolding xs_def by fastforce
  have z: "?c e = 0" if "e \<in> set zs" for e
  proof (cases us)
    case (Cons u us')
    have "\<not> 0 < ?c u" using Cons hd_dropWhile [of "\<lambda>e. 0 < ?c e" es] by (simp add: us_def [symmetric])
    moreover have "0 \<le> ?c e" "e \<in> set us" using set_takeWhileD [of e _ us] that unfolding zs_def by auto
    ultimately show ?thesis using later [OF Cons srt(1) sub(1), of e] Cons by (cases "e = u") auto
  qed (use that zs_def in simp)
  have y: "?c e < 0" if "e \<in> set ys" for e
  proof (cases ys)
    case (Cons u ys')
    have "\<not> 0 \<le> ?c u" using Cons hd_dropWhile [of "\<lambda>e. 0 \<le> ?c e" us] by (simp add: ys_def [symmetric])
    then show ?thesis using later [OF Cons srt(2) sub(2), of e] Cons that by (cases "e = u") auto
  qed (use that in simp)
  show ?thesis using that [OF _ ins x z y] es by simp
qed

lemma sorted_ins_rec:
  assumes "sorted_recs s es" "key_ok s (rec_key s v)"
  shows "sorted_recs s (ins_rec s (rec_key s v) v es)"
proof -
  obtain xs zs ys where ins: "es = xs @ zs @ ys" "ins_rec s (rec_key s v) v es = xs @ v # ys"
    "\<And>e. e \<in> set xs \<Longrightarrow> 0 < key_compare s (rec_key s v) (rec_key s e)"
    "\<And>e. e \<in> set ys \<Longrightarrow> key_compare s (rec_key s v) (rec_key s e) < 0"
    using ins_rec_split [OF assms] by metis
  have "key_compare s (rec_key s x) (rec_key s v) < 0" if "x \<in> set xs" for x
    using ins(3) [OF that] key.cmp_swap [OF assms(2) sorted_recs_ok [OF assms(1)], of x] that ins(1) by simp
  moreover have "sorted_recs s (xs @ ys)" using assms(1) unfolding ins(1) by (simp add: sorted_recs_append)
  ultimately show ?thesis using ins(4) assms(2) by (simp add: ins(2) sorted_recs_append)
qed

text \<open>What is found after an insertion.\<close>

lemma find_append: "find P (xs @ ys) = (case find P xs of Some x \<Rightarrow> Some x | None \<Rightarrow> find P ys)"
  by (induction xs) auto

lemma find_rec_ins:
  assumes "sorted_recs s es" "key_ok s (rec_key s v)" "key_ok s k"
  shows "find_rec s k (ins_rec s (rec_key s v) v es) = (if key_compare s k (rec_key s v) = 0 then Some v else find_rec s k es)"
proof -
  let ?Q = "\<lambda>e. key_compare s k (rec_key s e) = 0"
  obtain xs zs ys where ins: "es = xs @ zs @ ys" "ins_rec s (rec_key s v) v es = xs @ v # ys"
    "\<And>e. e \<in> set xs \<Longrightarrow> 0 < key_compare s (rec_key s v) (rec_key s e)"
    "\<And>e. e \<in> set zs \<Longrightarrow> key_compare s (rec_key s v) (rec_key s e) = 0"
    using ins_rec_split [OF assms(1,2)] by metis
  have ok: "key_ok s (rec_key s e)" if "e \<in> set es" for e using sorted_recs_ok [OF assms(1) that] .
  show ?thesis
  proof (cases "key_compare s k (rec_key s v) = 0")
    case True
    have "\<not> ?Q e" if "e \<in> set xs" for e
      using key.equal_left(2) [OF assms(3,2) ok True, of e] ins(3) [OF that] that ins(1) by auto
    then have "find ?Q xs = None" by (simp add: find_None_iff)
    then show ?thesis using True by (simp add: find_rec_def ins(2) find_append)
  next
    case False
    have "\<not> ?Q e" if "e \<in> set zs" for e
    proof
      assume Q: "?Q e"
      have e: "key_ok s (rec_key s e)" using ok that ins(1) by simp
      have "key_compare s (rec_key s e) (rec_key s v) = 0" using ins(4) [OF that] key.cmp_swap [OF assms(2) e] by simp
      then show False using key.equal_left(2) [OF assms(3) e assms(2) Q] False by simp
    qed
    then have z: "find ?Q zs = None" by (simp add: find_None_iff)
    have "find ?Q es = find ?Q (xs @ zs @ ys)" by (simp only: ins(1))
    then show ?thesis using False z by (simp add: find_rec_def ins(2) find_append split: option.splits)
  qed
qed

section \<open>Leaf operations against the reference\<close>

lemma find_nth:
  assumes "i < length xs" "P (xs ! i)" "\<And>j. j < i \<Longrightarrow> \<not> P (xs ! j)"
  shows "find P xs = Some (xs ! i)"
  using assms by (auto simp: find_Some_iff)

lemma find_rec_at:
  assumes "descending (rec_cmp s k es) (length es)" "i < length es" "rec_cmp s k es i = 0"
  shows "find_rec s k es = Some (es ! i)"
  using assms descendingD [OF assms(1) _ assms(2)] unfolding find_rec_def
  by (intro find_nth) (force simp: rec_cmp_def)+

lemma leaf_search_find:
  assumes "sorted_page s (GetRecordTotalSize s) p" "key_ok s k" "0 < cnt p"
  shows "leaf_page_search k s p = find_rec s k (entries p)"
proof -
  have wf: "index_page s (GetRecordTotalSize s) p" and srt: "sorted_recs s (entries p)" using assms(1) by (auto simp: sorted_page_def)
  have desc: "descending (rec_cmp s k (entries p)) (cnt p)" using descending_recs [OF srt assms(2)] by simp
  have c: "key_cmp_at s k p i = rec_cmp s k (entries p) i" if "i < cnt p" for i using key_cmp_at_recs [OF wf that] .
  have d: "descending (key_cmp_at s k p) (Suc (cnt p - 1))" using page_descending [OF assms(1,2)] assms(3) by simp
  show ?thesis unfolding leaf_page_search_def right_end_cnt(1) [OF wf assms(3)]
  proof (rule bsearch_cases [OF d])
    fix i assume i: "i \<le> cnt p - 1" and z: "key_cmp_at s k p i = 0"
    then show "(case Hit i of Hit mid \<Rightarrow> Some (load_bytes (record_ptr mid p) (record_size p) p)
        | Stop i \<Rightarrow> if key_cmp_at s k p i = 0 then Some (load_bytes (record_ptr i p) (GetRecordTotalSize s) p) else None) = find_rec s k (entries p)"
      using find_rec_at [of s k "entries p" i] desc c [of i] assms(3) by simp
  next
    fix i assume i: "i \<le> cnt p - 1" "i = 0 \<or> 0 < key_cmp_at s k p i" "\<And>j. i < j \<Longrightarrow> j \<le> cnt p - 1 \<Longrightarrow> key_cmp_at s k p j < 0"
    have i': "i < cnt p" using i(1) assms(3) by simp
    have "find_rec s k (entries p) = None" if "key_cmp_at s k p i \<noteq> 0"
    proof -
      have "rec_cmp s k (entries p) j \<noteq> 0" if "j < cnt p" for j
        using that i(2) i(3) [of j] Suc_leI [OF that] \<open>key_cmp_at s k p i \<noteq> 0\<close> c [OF that] c [OF i'] descendingD [OF desc, of j i] i'
        by (cases i j rule: linorder_cases) (auto simp: le_diff_conv2)
      then show ?thesis by (auto simp: find_rec_def find_None_iff rec_cmp_def in_set_conv_nth)
    qed
    then show "(case Stop i of Hit mid \<Rightarrow> Some (load_bytes (record_ptr mid p) (record_size p) p)
        | Stop i \<Rightarrow> if key_cmp_at s k p i = 0 then Some (load_bytes (record_ptr i p) (GetRecordTotalSize s) p) else None) = find_rec s k (entries p)"
      using find_rec_at [of s k "entries p" i] desc c [OF i'] i' index_pageD(4) [OF wf] by simp
  qed
qed

text \<open>Where a store of \<open>k\<close> ends up: an update of record \<open>i\<close> or an insertion before record \<open>i\<close>.\<close>

definition update_result :: "nat \<Rightarrow> byte list \<Rightarrow> mem \<Rightarrow> bool \<times> mem \<times> log_append option" where
  "update_result i v p = (cnt p = kCardinality p, store_bytes (record_ptr i p) v p, None)"

lemma leaf_store_cases:
  assumes "sorted_page s rsz p" "key_ok s (rec_key s v)" "length v = rsz"
  shows "(\<exists>i < cnt p. rec_cmp s (rec_key s v) (entries p) i = 0 \<and> leaf_page_store (rec_key s v) v s lg g p = update_result i v p)
    \<or> (\<exists>i \<le> cnt p. (\<forall>j < i. 0 < rec_cmp s (rec_key s v) (entries p) j) \<and> (i < cnt p \<longrightarrow> rec_cmp s (rec_key s v) (entries p) i < 0)
        \<and> leaf_page_store (rec_key s v) v s lg g p = insert_leaf_at v (lg \<and> g \<noteq> GlobalAddress_Null) g i p)"
proof (cases "cnt p = 0")
  case True
  have wf: "index_page s rsz p" using assms(1) by (simp add: sorted_page_def)
  then have "last_index p = - 1" using index_pageD(10) [OF wf] True by simp
  then show ?thesis using True by (simp add: leaf_page_store_def)
next
  case False
  let ?k = "rec_key s v" and ?nl = "lg \<and> g \<noteq> GlobalAddress_Null"
  let ?c = "rec_cmp s ?k (entries p)"
  have wf: "index_page s rsz p" and srt: "sorted_recs s (entries p)" using assms(1) by (auto simp: sorted_page_def)
  note D = index_pageD [OF wf]
  have desc: "descending ?c (cnt p)" using descending_recs [OF srt assms(2)] by simp
  have c: "key_cmp_at s ?k p i = ?c i" if "i < cnt p" for i using key_cmp_at_recs [OF wf that] .
  have d: "descending (key_cmp_at s ?k p) (Suc (cnt p - 1))" using page_descending [OF assms(1,2)] False by simp
  have li: "last_index p \<noteq> - 1" using D(10) False by simp
  have R: "right_end p = cnt p - 1" using right_end_cnt(1) [OF wf] False by simp
  have tv: "take (record_size p) v = v" using assms(3) D(4) by simp
  let ?main = ?thesis
  let ?goal = "\<lambda>b. b = bsearch (key_cmp_at s ?k p) 0 (right_end p) \<longrightarrow> ?main"
  have "?goal (bsearch (key_cmp_at s ?k p) 0 (cnt p - 1))"
  proof (rule bsearch_cases [OF d]; intro impI)
    fix i assume i: "i \<le> cnt p - 1" "key_cmp_at s ?k p i = 0" "Hit i = bsearch (key_cmp_at s ?k p) 0 (right_end p)"
    have i': "i < cnt p" using i(1) False by simp
    let ?q = "store_bytes (record_ptr i p) v p"
    note U = update_record [OF wf i' assms(3)]
    have "key_cmp_at s ?k ?q i = 0"
      using key_cmp_at_recs [OF U(2), of i ?k] U(1,3) i' key.cmp_refl [OF assms(2)] by (simp add: rec_cmp_def del: nth_recs)
    moreover have "last_index ?q + 1 = int (kCardinality ?q) \<longleftrightarrow> cnt p = kCardinality p"
      using index_pageD(10) [OF U(2)] U(3,4) by (auto simp: same_header_def)
    moreover have "take (record_size ?q) v = v" using index_pageD(4) [OF U(2)] assms(3) by simp
    ultimately have "leaf_page_store ?k v s lg g p = update_result i v p"
      using li U(6) by (simp add: leaf_page_store_def i(3) [symmetric] tv update_result_def Let_def)
    then show ?main using i' i(2) c by auto
  next
    fix i assume i: "i \<le> cnt p - 1" "i = 0 \<or> 0 < key_cmp_at s ?k p i" "\<And>j. i < j \<Longrightarrow> j \<le> cnt p - 1 \<Longrightarrow> key_cmp_at s ?k p j < 0"
      "Stop i = bsearch (key_cmp_at s ?k p) 0 (right_end p)"
    have i': "i < cnt p" using i(1) False by simp
    have full: "last_index p + 1 = int (kCardinality p) \<longleftrightarrow> cnt p = kCardinality p" using D(10) by auto
    have res: "leaf_page_store ?k v s lg g p = (if 0 < ?c i then insert_leaf_at v ?nl g (i + 1) p
        else if ?c i < 0 then insert_leaf_at v ?nl g 0 p else update_result i v p)"
      using li c [OF i'] by (simp add: leaf_page_store_def i(4) [symmetric] Let_def update_result_def tv full)
    consider "0 < ?c i" | "?c i < 0" "i = 0" | "?c i = 0" using i(2) c [OF i'] by linarith
    then show ?main
    proof cases
      case 1
      have "0 < ?c j" if "j < i + 1" for j
        using that 1 desc i' unfolding descending_def by (metis less_Suc_eq not_less not_less_iff_gr_or_eq Suc_eq_plus1)
      then show ?main using 1 res i' i(3) [of "i + 1"] c [of "i + 1"] by (intro disjI2 exI [of _ "i + 1"]) auto
    next
      case 2
      then show ?main using res by (intro disjI2 exI [of _ 0]) auto
    next
      case 3
      then show ?main using res i' by auto
    qed
  qed
  then show ?thesis using R by simp
qed

section \<open>Replaying a logged insertion\<close>

text \<open>\<open>m\<close> holds a copy of page \<open>p\<close> at \<open>base\<close>, up to the latch word and the dirty bounds, which belong to the
  node that caches the page.\<close>

definition page_at :: "nat \<Rightarrow> mem \<Rightarrow> mem \<Rightarrow> bool" where
  "page_at base p m \<longleftrightarrow> (\<forall>x. 8 \<le> x \<and> (x < 12 \<or> 16 \<le> x) \<and> x < kLeafPageSize \<longrightarrow> m (base + x) = p x)"

lemma page_at_store:
  "page_at base p m \<Longrightarrow> page_at base (store_bytes a bs p) (store_bytes (base + a) bs m)"
  by (auto simp: page_at_def store_bytes_def)

lemma page_at_memmove:
  assumes "page_at base p m" "16 \<le> src" "src + n \<le> kLeafPageSize"
  shows "page_at base (memmove dst src n p) (store_bytes (base + dst) (load_bytes (base + src) n m) m)"
proof -
  have "load_bytes (base + src) n m = load_bytes src n p"
    using assms by (intro nth_equalityI) (auto simp: page_at_def add.assoc)
  then show ?thesis using page_at_store [OF assms(1)] by (simp add: memmove_def)
qed

lemma page_at_dirty: "page_at base (index_reset_dirty_bounds p) m = page_at base p m"
  by (auto simp: page_at_def index_reset_dirty_bounds_def put_u16_def page_offs store_bytes_def)

text \<open>The operations an insertion of \<open>pieces\<close> (adjacent parts of the record) logs.\<close>

fun update_ops :: "nat \<Rightarrow> byte list list \<Rightarrow> DecodedOp list" where
  "update_ops off [] = []"
| "update_ops off (b # bs) = UPDATE_BYTES (of_nat off) (of_nat (length b)) b # update_ops (off + length b) bs"

definition insert_ops :: "nat \<Rightarrow> byte list list \<Rightarrow> mem \<Rightarrow> DecodedOp list" where
  "insert_ops i pieces p =
    (if i < cnt p then [MEMMOVE_BYTES (of_nat (record_ptr i p + record_size p)) (of_nat (record_ptr i p))
                           (of_nat ((cnt p - i) * record_size p))] else [])
    @ update_ops (record_ptr i p) pieces
    @ [UPDATE_BYTES (of_nat LAST_INDEX_OFF) 2 (le_bytes 2 (get_u16 LAST_INDEX_OFF p + 1))]"

lemma apply_ops_append: "apply_ops base (xs @ ys) m = apply_ops base ys (apply_ops base xs m)"
  by (simp add: apply_ops_def)

lemma apply_update_ops:
  assumes "page_at base p m" "off + length (concat pieces) < kLeafPageSize"
  shows "page_at base (store_bytes off (concat pieces) p) (apply_ops base (update_ops off pieces) m)"
  using assms
proof (induction pieces arbitrary: off p m)
  case (Cons b bs)
  have u: "unat (of_nat off :: u32) = off" "unat (of_nat (length b) :: u32) = length b"
    using Cons.prems(2) by (simp_all add: unat_of_nat_small kLeafPageSize_def)
  have "page_at base (store_bytes (off + length b) (concat bs) (store_bytes off b p))
      (apply_ops base (update_ops (off + length b) bs) (store_bytes (base + off) b m))"
    using Cons.prems by (intro Cons.IH page_at_store) simp_all
  moreover have "store_bytes (off + length b) (concat bs) (store_bytes off b p) = store_bytes off (b @ concat bs) p"
    by (subst store_store_swap) (simp_all add: store_bytes_append)
  ultimately show ?case using u by (simp add: apply_ops_def)
qed (simp add: apply_ops_def)

lemma record_end:
  assumes "index_page s rsz p" "i < kCardinality p"
  shows "record_ptr i p + rsz < kLeafPageSize" "16 \<le> record_ptr i p"
proof -
  have "Suc i * rsz \<le> kCardinality p * rsz" using assms(2) by (intro mult_le_mono1) simp
  then show "record_ptr i p + rsz < kLeafPageSize"
    using index_pageD(1,4,5,9) [OF assms(1)] by (simp add: rec_ptr_def)
  show "16 \<le> record_ptr i p" using rec_ptr_ge [of "key_size16 p" i p] by simp
qed

lemma unat_small: "n < kLeafPageSize \<Longrightarrow> unat (of_nat n :: u32) = n"
  by (simp add: unat_of_nat_small kLeafPageSize_def)

lemma apply_insert_ops:
  assumes "page_at base p m" "index_page s rsz p" "cnt p < kCardinality p" "i \<le> cnt p" "length (concat pieces) = rsz"
  shows "page_at base (put_u16 LAST_INDEX_OFF (get_u16 LAST_INDEX_OFF p + 1) (insert_record (cnt p) i (concat pieces) p))
     (apply_ops base (insert_ops i pieces p) m)"
proof -
  note D = index_pageD [OF assms(2)]
  define n where "n = (cnt p - i) * rsz"
  have fit: "record_ptr i p + rsz + n < kLeafPageSize"
  proof -
    have "record_ptr (cnt p) p + rsz < kLeafPageSize" using record_end [OF assms(2,3)] by simp
    then show ?thesis using rec_ptr_diff [OF assms(4), of "key_size16 p" p] D(4) by (simp add: n_def)
  qed
  let ?mv = "memmove (record_ptr i p + rsz) (record_ptr i p) n p"
  have "page_at base ?mv (apply_ops base (if i < cnt p then [MEMMOVE_BYTES (of_nat (record_ptr i p + rsz)) (of_nat (record_ptr i p)) (of_nat n)] else []) m)"
  proof (cases "i < cnt p")
    case True
    then show ?thesis using page_at_memmove [OF assms(1), of "record_ptr i p" n "record_ptr i p + rsz"] fit rec_ptr_ge [of "key_size16 p" i p]
      by (simp add: apply_ops_def unat_small add.assoc del: of_nat_add)
  next
    case False
    then show ?thesis using assms(1,4) by (simp add: n_def apply_ops_def)
  qed
  then have "page_at base (store_bytes (record_ptr i p) (concat pieces) ?mv)
      (apply_ops base (update_ops (record_ptr i p) pieces)
        (apply_ops base (if i < cnt p then [MEMMOVE_BYTES (of_nat (record_ptr i p + rsz)) (of_nat (record_ptr i p)) (of_nat n)] else []) m))"
    using fit assms(5) by (intro apply_update_ops) simp_all
  then have "page_at base (put_u16 LAST_INDEX_OFF (get_u16 LAST_INDEX_OFF p + 1) (store_bytes (record_ptr i p) (concat pieces) ?mv))
      (apply_op base (UPDATE_BYTES (of_nat LAST_INDEX_OFF) 2 (le_bytes 2 (get_u16 LAST_INDEX_OFF p + 1)))
        (apply_ops base (update_ops (record_ptr i p) pieces)
        (apply_ops base (if i < cnt p then [MEMMOVE_BYTES (of_nat (record_ptr i p + rsz)) (of_nat (record_ptr i p)) (of_nat n)] else []) m)))"
    unfolding put_u16_def using page_at_store by (simp add: LAST_INDEX_OFF_def)
  then show ?thesis
    unfolding insert_ops_def apply_ops_append insert_record_def D(4) n_def by (simp add: apply_ops_def)
qed

lemma update_ops_wf: "off + length (concat bs) < kLeafPageSize \<Longrightarrow> list_all op_wf (update_ops off bs)"
  by (induction off bs rule: update_ops.induct) (auto simp: unat_small)

text \<open>Replaying the record: the payload decodes to these operations and the version follows.\<close>

lemma replay_insert:
  assumes "page_at base p m" "index_page s rsz p" "cnt p < kCardinality p" "i \<le> cnt p" "length (concat pieces) = rsz"
    "page_phys P g = base" "base \<noteq> 0" "page_gaddr h = g" "Redo_Log.page_version h = index_version p + 1"
  shows "fst (ProcessLogRecord P h (encode_ops (insert_ops i pieces p)) m)"
    "page_at base (inserted i (concat pieces) p) (apply_record P (h, encode_ops (insert_ops i pieces p)) m)"
proof -
  have "record_ptr i p + rsz < kLeafPageSize" using record_end [OF assms(2), of i] assms(3,4) by simp
  then have "list_all op_wf (insert_ops i pieces p)"
    using update_ops_wf [of "record_ptr i p" pieces] assms(5) by (simp add: insert_ops_def)
  note dec = decode_encode_ops [OF this]
  show "fst (ProcessLogRecord P h (encode_ops (insert_ops i pieces p)) m)"
    using assms(6-8) dec by (simp add: ProcessLogRecord_def Let_def)
  show "page_at base (inserted i (concat pieces) p) (apply_record P (h, encode_ops (insert_ops i pieces p)) m)"
    using page_at_store [OF apply_insert_ops [OF assms(1-5)], of P_VERSION_OFF "le_bytes 8 (index_version p + 1)"] assms(6-9) dec
    by (simp add: apply_record_def ProcessLogRecord_def SetCurrentPageVersion_def Let_def inserted_def put_u64_def)
qed

lemma leaf_payload_ops:
  assumes "index_page s rsz p" "i \<le> cnt p" "length v = rsz"
  shows "leaf_payload v i (get_u16 LAST_INDEX_OFF p + 1) p = encode_ops (insert_ops i [v] p)"
proof -
  have d: "nat (last_index p - int i + 1) = cnt p - i" "int i \<le> last_index p \<longleftrightarrow> i < cnt p"
    using index_pageD(10) [OF assms(1)] by auto
  show ?thesis using assms(3) index_pageD(4) [OF assms(1)]
    by (simp add: leaf_payload_def d encode_ops_def insert_ops_def AddOp_def Let_def)
qed

text \<open>Everything a leaf store does, by whether the key is present.\<close>

lemma leaf_store_effect:
  assumes "sorted_page s rsz p" "key_ok s (rec_key s v)" "length v = rsz" "cnt p < kCardinality p"
    "leaf_page_store (rec_key s v) v s lg g p = (full, p', log)"
  shows "entries p' = ins_rec s (rec_key s v) v (entries p)" "index_page s rsz p'" "same_header p' p"
    "GetHighest s p' = GetHighest s p" "GetLowest s p' = GetLowest s p" "full \<longleftrightarrow> cnt p' = kCardinality p'"
    "(\<exists>e. find_rec s (rec_key s v) (entries p) = Some e) \<and> log = None \<and> index_version p' = index_version p
     \<or> find_rec s (rec_key s v) (entries p) = None
       \<and> (\<exists>i \<le> cnt p. p' = inserted i v p
          \<and> log = (if lg \<and> g \<noteq> GlobalAddress_Null then Some (nodeID g, g, index_version p + 1, encode_ops (insert_ops i [v] p)) else None))"
proof -
  let ?c = "rec_cmp s (rec_key s v) (entries p)"
  have wf: "index_page s rsz p" and srt: "sorted_recs s (entries p)" using assms(1) by (auto simp: sorted_page_def)
  have desc: "descending ?c (length (entries p))" using descending_recs [OF srt assms(2)] .
  consider (upd) i where "i < cnt p" "?c i = 0" "(full, p', log) = update_result i v p"
    | (ins) i where "i \<le> cnt p" "\<forall>j < i. 0 < ?c j" "i < cnt p \<longrightarrow> ?c i < 0"
        "(full, p', log) = insert_leaf_at v (lg \<and> g \<noteq> GlobalAddress_Null) g i p"
    using leaf_store_cases [OF assms(1-3), of lg g] assms(5) by auto
  then have "entries p' = ins_rec s (rec_key s v) v (entries p) \<and> index_page s rsz p' \<and> same_header p' p
    \<and> GetHighest s p' = GetHighest s p \<and> GetLowest s p' = GetLowest s p \<and> (full \<longleftrightarrow> cnt p' = kCardinality p')
    \<and> ((\<exists>e. find_rec s (rec_key s v) (entries p) = Some e) \<and> log = None \<and> index_version p' = index_version p
     \<or> find_rec s (rec_key s v) (entries p) = None
       \<and> (\<exists>i \<le> cnt p. p' = inserted i v p
          \<and> log = (if lg \<and> g \<noteq> GlobalAddress_Null then Some (nodeID g, g, index_version p + 1, encode_ops (insert_ops i [v] p)) else None)))"
  proof cases
    case upd
    have "find_rec s (rec_key s v) (entries p) = Some (entries p ! i)" using find_rec_at [OF desc] upd(1,2) by simp
    then show ?thesis
      using upd(3) update_record [OF wf upd(1) assms(3)] ins_rec_update [OF _ upd(2) desc, of v] upd(1)
      by (simp add: update_result_def same_header_def)
  next
    case ins
    note I = inserted_page [OF wf assms(4) ins(1) assms(3)]
    have "?c j \<noteq> 0" if "j < cnt p" for j
      using that ins(2,3) descendingD [OF desc, of i j] by (cases i j rule: linorder_cases) auto
    then have none: "find_rec s (rec_key s v) (entries p) = None" 
      by (auto simp: find_rec_def find_None_iff rec_cmp_def in_set_conv_nth)
    have res: "full \<longleftrightarrow> cnt p + 1 = kCardinality p" "p' = inserted i v p"
      "log = (if lg \<and> g \<noteq> GlobalAddress_Null then Some (nodeID g, g, index_version p + 1, encode_ops (insert_ops i [v] p)) else None)"
      using ins(4) insert_leaf_at_eq [OF wf ins(1)] leaf_payload_ops [OF wf ins(1) assms(3)] by auto
    have "full \<longleftrightarrow> cnt p' = kCardinality p'"
      using res(1) cnt_inserted(2) [OF wf assms(4)] I(3) by (simp add: res(2) same_header_def)
    then show ?thesis
      using I none ins(1) ins_rec_at [of i "entries p" s "rec_key s v" v] ins(2,3) unfolding res(2,3) by auto
  qed
  then show "entries p' = ins_rec s (rec_key s v) v (entries p)" "index_page s rsz p'" "same_header p' p"
    "GetHighest s p' = GetHighest s p" "GetLowest s p' = GetLowest s p" "full \<longleftrightarrow> cnt p' = kCardinality p'"
    "(\<exists>e. find_rec s (rec_key s v) (entries p) = Some e) \<and> log = None \<and> index_version p' = index_version p
     \<or> find_rec s (rec_key s v) (entries p) = None
       \<and> (\<exists>i \<le> cnt p. p' = inserted i v p
          \<and> log = (if lg \<and> g \<noteq> GlobalAddress_Null then Some (nodeID g, g, index_version p + 1, encode_ops (insert_ops i [v] p)) else None))"
    by blast+
qed

lemma ins_rec_nonempty: "ins_rec s k v es \<noteq> []"
  by (simp add: ins_rec_def)

text \<open>
  C16: Storing a record in a leaf page with room for it keeps the page sorted and well formed, changes
  neither its bounds nor its links, and reports exactly whether the page is now full.
  A later search for an equal key returns the new record, a search for any other key what it
  returned before.
\<close>
theorem leaf_store_correct:
  assumes "sorted_page s (GetRecordTotalSize s) p" "key_ok s (rec_key s v)" "length v = GetRecordTotalSize s" "cnt p < kCardinality p"
    "leaf_page_store (rec_key s v) v s lg g p = (full, p', log)"
  shows "sorted_page s (GetRecordTotalSize s) p' \<and> same_header p' p \<and> GetHighest s p' = GetHighest s p \<and> GetLowest s p' = GetLowest s p
    \<and> (full \<longleftrightarrow> cnt p' = kCardinality p')
    \<and> (\<forall>k. key_ok s k \<longrightarrow> leaf_page_search k s p' =
         (if key_compare s k (rec_key s v) = 0 then Some v else if cnt p = 0 then None else leaf_page_search k s p))"
proof -
  note E = leaf_store_effect [OF assms]
  have srt: "sorted_recs s (entries p)" using assms(1) by (simp add: sorted_page_def)
  have page: "sorted_page s (GetRecordTotalSize s) p'"
    using E(1,2) sorted_ins_rec [OF srt assms(2)] by (simp add: sorted_page_def)
  have "0 < cnt p'" using E(1) ins_rec_nonempty by (metis length_recs length_greater_0_conv)
  then have "leaf_page_search k s p' = (if key_compare s k (rec_key s v) = 0 then Some v else if cnt p = 0 then None else leaf_page_search k s p)"
    if "key_ok s k" for k
    using leaf_search_find [OF page that] leaf_search_find [OF assms(1) that] find_rec_ins [OF srt assms(2) that] E(1)
    by (auto simp: find_rec_def recs_def)
  then show ?thesis using page E(3-6) by blast
qed

text \<open>A new leaf page is empty and well formed.\<close>

lemmas put_defs = put_u16_def put_u32_def put_u64_def put_addr_def

lemma put_u8_store: "put_u8 a v p = store_bytes a [v] p"
  by (auto simp: put_u8_def store_bytes_def)

lemma LeafPage_new_header:
  assumes p: "p = LeafPage_new g c s lv kmin kmax m" and "GetPrimaryKeyLength s < 2 ^ 32" "GetRecordTotalSize s < 2 ^ 32"
  shows "key_size p = GetPrimaryKeyLength s" "record_size p = GetRecordTotalSize s" "kCardinality p = unat c" "last_index p = - 1"
    "index_version p = 1" "sibling_ptr p = GlobalAddress_Null" "cnt p = 0"
proof -
  show "key_size p = GetPrimaryKeyLength s" "record_size p = GetRecordTotalSize s" "kCardinality p = unat c"
    "index_version p = 1" "sibling_ptr p = GlobalAddress_Null" and li: "last_index p = - 1"
    using assms(2,3) unfolding p LeafPage_new_def Header_Index_new_def SetLowest_def SetHighest_def deepcopy_key_def Let_def index_reset_dirty_bounds_def
    by (simp_all add: header_defs page_offs put_u8_store put_defs get_store_disjoint)
      (simp_all add: get_u16_def get_u32_def get_u64_def unat_of_nat_small)
  show "cnt p = 0" by (simp add: cnt_def li)
qed

lemma LeafPage_new_sorted:
  assumes "0 < GetPrimaryKeyLength s" "GetPrimaryKeyLength s \<le> GetRecordTotalSize s"
    "INDEX_DATA_OFF + 2 * GetPrimaryKeyLength s + unat c * GetRecordTotalSize s < kLeafPageSize" "0 < unat c" "unat c < 2 ^ 15 - 1"
  shows "sorted_page s (GetRecordTotalSize s) (LeafPage_new g c s lv kmin kmax m)"
proof -
  have "GetRecordTotalSize s \<le> unat c * GetRecordTotalSize s" using assms(4) by simp
  then have "GetRecordTotalSize s < 16392" using assms(3) unfolding kLeafPageSize_def by linarith
  then have small: "GetPrimaryKeyLength s < 2 ^ 32" "GetRecordTotalSize s < 2 ^ 32"
    using assms(2) by simp_all
  have "- 1 < uint c" using uint_ge_0 [of c] by linarith
  then show ?thesis using LeafPage_new_header [OF refl small, of g c lv kmin kmax m] assms
    by (simp add: sorted_page_def index_page_def recs_def)
qed

definition demo_leaf :: mem where
  "demo_leaf = LeafPage_new (GlobalAddress 5 0) 200 demo_schema 0 (replicate 16 0) (replicate 16 0xff) (\<lambda>_. 0)"

definition demo_row :: "byte list" where
  "demo_row = le_bytes 8 (7 :: u64) @ replicate 8 0x61 @ replicate 45 0"

lemma demo_sizes: "GetPrimaryKeyLength demo_schema = 16" "GetRecordTotalSize demo_schema = 61" "length demo_row = 61"
  by (simp_all add: demo_schema_eq GetPrimaryKeyLength_def GetRecordTotalSize_def demo_row_def)

lemma demo_fp: "MakePrimaryFootprint demo_schema = [(INT64, 8), (FIXCHAR, 8)]"
  by (simp add: demo_schema_eq MakePrimaryFootprint_def GetColumnType_def upt_rec)

lemma demo_key_ok: "length k = 16 \<Longrightarrow> key_ok demo_schema k"
  by (simp add: key_ok_def demo_fp)

lemma demo_leaf_ok: "sorted_page demo_schema 61 demo_leaf" "cnt demo_leaf = 0" "kCardinality demo_leaf = 200" "index_version demo_leaf = 1"
  using LeafPage_new_sorted [of demo_schema 200 "GlobalAddress 5 0" 0 "replicate 16 0" "replicate 16 0xff" "\<lambda>_. 0"]
    LeafPage_new_header [of demo_leaf "GlobalAddress 5 0" 200 demo_schema 0 "replicate 16 0" "replicate 16 0xff" "\<lambda>_. 0"]
  by (simp_all add: demo_leaf_def demo_sizes INDEX_DATA_OFF_def kLeafPageSize_def)

lemma demo_row_key: "key_ok demo_schema (rec_key demo_schema demo_row)"
  by (intro demo_key_ok) (simp add: rec_key_def demo_sizes)

theorem leaf_store_correct_witness:
  "\<exists>full p' log. leaf_page_store (rec_key demo_schema demo_row) demo_row demo_schema True (GlobalAddress 5 0) demo_leaf = (full, p', log)
     \<and> leaf_page_search (rec_key demo_schema demo_row) demo_schema p' = Some demo_row"
proof -
  obtain full p' log where st: "leaf_page_store (rec_key demo_schema demo_row) demo_row demo_schema True (GlobalAddress 5 0) demo_leaf = (full, p', log)"
    by (metis prod_cases3)
  have "leaf_page_search (rec_key demo_schema demo_row) demo_schema p' = Some demo_row"
    using leaf_store_correct [OF _ demo_row_key _ _ st] demo_leaf_ok demo_row_key key.cmp_refl [OF demo_row_key] by (simp add: demo_sizes)
  with st show ?thesis by blast
qed

text \<open>
  C27: A replica that replays the log record of an insertion into a leaf page ends with the page as the
  inserting node has it: if the memory of the replica held a copy of the page, the record decodes,
  its operations stay inside the page and the result is a copy of the new page, with its version.
  A store that finds its key overwrites the record without logging and without a new version, so
  no replica learns of it.
\<close>
theorem leaf_store_replay:
  assumes "sorted_page s rsz p" "key_ok s (rec_key s v)" "length v = rsz" "cnt p < kCardinality p"
    "leaf_page_store (rec_key s v) v s True g p = (full, p', log)" "g \<noteq> GlobalAddress_Null"
    "page_phys P g = base" "base \<noteq> 0" "page_at base p m"
  shows "case find_rec s (rec_key s v) (entries p) of
      None \<Rightarrow> (\<exists>payload. log = Some (nodeID g, g, index_version p', payload)
        \<and> (let h = mk_header g (index_version p') (of_nat (length payload)) in
           fst (ProcessLogRecord P h payload m) \<and> page_at base p' (apply_record P (h, payload) m)))
    | Some e \<Rightarrow> log = None \<and> index_version p' = index_version p"
proof -
  have wf: "index_page s rsz p" using assms(1) by (simp add: sorted_page_def)
  show ?thesis
  proof (cases "find_rec s (rec_key s v) (entries p)")
    case None
    then obtain i where i: "i \<le> cnt p" "p' = inserted i v p"
      "log = Some (nodeID g, g, index_version p + 1, encode_ops (insert_ops i [v] p))"
      using leaf_store_effect(7) [OF assms(1-5)] assms(6) by auto
    have ver: "index_version p' = index_version p + 1" using inserted_page(4) [OF wf assms(4) i(1) assms(3)] i(2) by simp
    let ?h = "mk_header g (index_version p') (of_nat (length (encode_ops (insert_ops i [v] p))))"
    have "page_gaddr ?h = g" "Redo_Log.page_version ?h = index_version p + 1" by (simp_all add: mk_header_def ver)
    note R = replay_insert [OF assms(9) wf assms(4) i(1) _ assms(7,8) this]
    show ?thesis using R [of "[v]"] assms(3) i(2,3) None ver by (simp add: Let_def)
  next
    case (Some e)
    then show ?thesis using leaf_store_effect(7) [OF assms(1-5)] by auto
  qed
qed

theorem leaf_store_replay_witness:
  "\<exists>p' payload. leaf_page_store (rec_key demo_schema demo_row) demo_row demo_schema True (GlobalAddress 5 0) demo_leaf
       = (False, p', Some (5, GlobalAddress 5 0, 2, payload))
     \<and> page_at 4096 p' (apply_record (lm_node demo_manager) (mk_header (GlobalAddress 5 0) 2 (of_nat (length payload)), payload) (\<lambda>x. demo_leaf (x - 4096)))"
proof -
  obtain full p' log where st: "leaf_page_store (rec_key demo_schema demo_row) demo_row demo_schema True (GlobalAddress 5 0) demo_leaf = (full, p', log)"
    by (metis prod_cases3)
  have at: "page_at 4096 demo_leaf (\<lambda>x. demo_leaf (x - 4096))" by (simp add: page_at_def)
  have none: "find_rec demo_schema (rec_key demo_schema demo_row) (entries demo_leaf) = None"
    by (simp add: find_rec_def recs_def demo_leaf_ok)
  note len = demo_sizes(3)
  have nn: "GlobalAddress 5 0 \<noteq> GlobalAddress_Null" by (simp add: GlobalAddress_Null_def)
  have room: "cnt demo_leaf < kCardinality demo_leaf" by (simp add: demo_leaf_ok)
  from leaf_store_replay [OF demo_leaf_ok(1) demo_row_key len room st nn demo_page _ at] none obtain payload where
    pl: "log = Some (5, GlobalAddress 5 0, index_version p', payload)"
      "page_at 4096 p' (apply_record (lm_node demo_manager) (mk_header (GlobalAddress 5 0) (index_version p') (of_nat (length payload)), payload) (\<lambda>x. demo_leaf (x - 4096)))"
    by (auto simp: Let_def)
  have E: "index_version p' = 2" "\<not> full"
    using leaf_store_effect(1,3,6,7) [OF demo_leaf_ok(1) demo_row_key len room st] none inserted_page(4) [OF _ room _ len, of demo_schema]
      demo_leaf_ok cnt_inserted(2) [of demo_schema 61 demo_leaf] by (auto simp: sorted_page_def same_header_def)
  show ?thesis using st pl E by auto
qed

section \<open>Internal pages\<close>

text \<open>A record of an internal page: key and child.\<close>

definition entry_of :: "byte list \<Rightarrow> GlobalAddress \<Rightarrow> byte list" where
  "entry_of k g = k @ le_bytes 8 (gval g)"

definition rec_child :: "RecordSchema \<Rightarrow> byte list \<Rightarrow> GlobalAddress" where
  "rec_child s e = gaddr_of_val (le_word (drop (GetPrimaryKeyLength s) e))"

abbreviation internal_rsz :: "RecordSchema \<Rightarrow> nat" where
  "internal_rsz s \<equiv> GetPrimaryKeyLength s + 8"

lemma rec_of_entry [simp]:
  "length k = GetPrimaryKeyLength s \<Longrightarrow> rec_key s (entry_of k g) = k" "length k = GetPrimaryKeyLength s \<Longrightarrow> rec_child s (entry_of k g) = g"
  by (simp_all add: rec_key_def rec_child_def entry_of_def)

lemma SetRecordByIndex_eq:
  assumes "key_size p = GetPrimaryKeyLength s" "key_size p < 2 ^ 16" "length k = GetPrimaryKeyLength s"
  shows "SetRecordByIndex s i k g p = store_bytes (record_ptr i p) (entry_of k g) p"
proof -
  have "store_bytes (a + length k) bs (store_bytes a k p) = store_bytes a (k @ bs) p" for a bs
    by (subst store_store_swap) (simp_all add: store_bytes_append)
  then show ?thesis using assms
    by (simp add: SetRecordByIndex_def deepcopy_key_def put_defs Let_def entry_of_def key_size16_def)
qed

lemma record_bytes:
  assumes "key_size16 p = GetPrimaryKeyLength s" 
  shows "entry_of (GetRecordKeyByIndex s i p) (GetRecordValueByIndex i p) = load_bytes (record_ptr i p) (internal_rsz s) p"
proof -
  have "le_bytes 8 (get_u64 a p) = load_bytes a 8 p" for a 
    using le_bytes_le_word [of "load_bytes a 8 p", where 'a = 64] by (simp add: get_u64_def)
  then show ?thesis using assms
    by (simp add: entry_of_def GetRecordKeyByIndex_def GetRecordValueByIndex_def load_bytes_split)
qed

text \<open>Moving the records one by one, from the last, is a \<^verbatim>\<open>memmove\<close>.\<close>

lemma shift_right_memmove:
  assumes "key_size p = GetPrimaryKeyLength s" "key_size p < 2 ^ 16" "record_size p = internal_rsz s" "i \<le> n"
  shows "shift_right s i n p = memmove (record_ptr i p + record_size p) (record_ptr i p) ((n - i) * record_size p) p"
  using assms
proof (induction n arbitrary: p)
  case (Suc n)
  show ?case
  proof (cases "i = Suc n")
    case False
    then have i: "i \<le> n" using Suc.prems(4) by simp
    have k16: "key_size16 p = GetPrimaryKeyLength s" using Suc.prems(1,2) by (simp add: key_size16_def)
    let ?R = "record_size p" and ?a = "record_ptr i p"
    define q where "q = store_bytes (record_ptr (Suc n) p) (load_bytes (record_ptr n p) ?R p) p"
    have top: "shift_right s i (Suc n) p = shift_right s i n q"
      using i Suc.prems k16 record_bytes [OF k16, of n]
      by (simp add: SetRecordByIndex_eq q_def GetRecordKeyByIndex_def)
    have hq: "key_size q = key_size p" "record_size q = ?R" 
      unfolding q_def by (simp_all add: page_simps rec_ptr_ge)
    then have ptr: "record_ptr j q = record_ptr j p" for j by (simp add: rec_ptr_def key_size16_def)
    have "shift_right s i n q = memmove (?a + ?R) ?a ((n - i) * ?R) q"
      using Suc.IH [of q] Suc.prems i hq ptr by simp
    also have "\<dots> = memmove (?a + ?R) ?a ((Suc n - i) * ?R) p"
    proof
      fix x
      have r: "record_ptr n p = ?a + (n - i) * ?R" "record_ptr (Suc n) p = ?a + ?R + (n - i) * ?R" "(Suc n - i) * ?R = (n - i) * ?R + ?R"
        using i rec_ptr_diff [OF i, of "key_size16 p" p] by (simp_all add: rec_ptr_Suc Suc_diff_le)
      show "memmove (?a + ?R) ?a ((n - i) * ?R) q x = memmove (?a + ?R) ?a ((Suc n - i) * ?R) p x"
        unfolding memmove_def q_def r by (auto simp: store_bytes_def add.assoc)
    qed
    finally show ?thesis using top by simp
  qed (simp add: le_Suc_eq)
qed simp

lemma insert_internal_at_eq:
  assumes "index_page s (internal_rsz s) p" "i \<le> cnt p" "length k = GetPrimaryKeyLength s"
  shows "insert_internal_at s g k v nl i p = (cnt p + 1 = kCardinality p, inserted i (entry_of k v) (index_reset_dirty_bounds p),
     if nl then Some (nodeID g, g, index_version p + 1, encode_ops (insert_ops i [k, le_bytes 8 (gval v)] p)) else None)"
proof -
  note D = index_pageD [OF assms(1)]
  let ?p1 = "index_reset_dirty_bounds p"
  have K: "key_size p < 2 ^ 16" using D(5) by (simp add: kLeafPageSize_def INDEX_DATA_OFF_def)
  have ptr: "record_ptr j ?p1 = record_ptr j p" for j by (simp add: rec_ptr_def key_size16_def page_simps)
  have c: "nat (last_index p + 1) = cnt p" "cnt ?p1 = cnt p" by (simp_all add: cnt_def page_simps)
  define p2 where "p2 = memmove (record_ptr i p + record_size p) (record_ptr i p) ((cnt p - i) * record_size p) ?p1"
  have ge: "64 \<le> record_ptr i p + record_size p" using rec_ptr_ge by (simp add: trans_le_add1)
  have h2: "key_size p2 = key_size p" "record_size p2 = record_size p" by (simp_all add: p2_def page_simps ge)
  have sr: "shift_right s i (cnt p) ?p1 = p2"
    using shift_right_memmove [of ?p1 s i "cnt p"] D(1,4) K assms(2) by (simp add: p2_def page_simps ptr)
  have "SetRecordByIndex s i k v p2 = insert_record (cnt p) i (entry_of k v) ?p1"
    using SetRecordByIndex_eq [of p2 s k i v] D(1) K assms(3) h2
    by (simp add: insert_record_def p2_def ptr page_simps) (simp add: rec_ptr_def key_size16_def)
  moreover have "internal_payload k v i (cnt p) (get_u16 LAST_INDEX_OFF p + 1) p = encode_ops (insert_ops i [k, le_bytes 8 (gval v)] p)"
    using D(1,9) assms(3)
    by (simp add: internal_payload_def encode_ops_def insert_ops_def AddOp_def Let_def rec_ptr_def)
  ultimately show ?thesis
    unfolding insert_internal_at_def Let_def c(1) sr inserted_def c(2) by (simp add: page_simps)
qed

text \<open>Where a search goes: the child of the last key that is not above.\<close>

definition route :: "RecordSchema \<Rightarrow> byte list \<Rightarrow> GlobalAddress \<Rightarrow> byte list list \<Rightarrow> GlobalAddress" where
  "route s k left es = (let es' = filter (\<lambda>e. 0 \<le> key_compare s k (rec_key s e)) es in if es' = [] then left else rec_child s (last es'))"

lemma filter_prefix:
  assumes "n \<le> length xs" "\<And>j. j < n \<Longrightarrow> P (xs ! j)" "\<And>j. n \<le> j \<Longrightarrow> j < length xs \<Longrightarrow> \<not> P (xs ! j)"
  shows "filter P xs = take n xs"
proof -
  have "filter P (take n xs) = take n xs" using assms(1,2) by (auto simp: filter_id_conv in_set_conv_nth)
  moreover have "filter P (drop n xs) = []" using assms(3) by (auto simp: filter_empty_conv in_set_conv_nth)
  ultimately show ?thesis by (metis append_Nil2 append_take_drop_id filter_append)
qed

lemma route_at:
  assumes "descending (rec_cmp s k es) (length es)" "i < length es" "0 \<le> rec_cmp s k es i"
    "\<And>j. i < j \<Longrightarrow> j < length es \<Longrightarrow> rec_cmp s k es j < 0"
  shows "route s k left es = rec_child s (es ! i)"
proof -
  have "0 \<le> rec_cmp s k es j" if "j \<le> i" for j
    using that descendingD [OF assms(1) _ assms(2), of j] assms(3) by (cases "j = i") fastforce+
  then have "filter (\<lambda>e. 0 \<le> key_compare s k (rec_key s e)) es = take (Suc i) es"
    using assms(2,4) by (intro filter_prefix) (auto simp: rec_cmp_def Suc_le_eq not_le)
  then show ?thesis using assms(2) by (simp add: route_def take_Suc_conv_app_nth)
qed

lemma internal_search_route:
  assumes "sorted_page s (internal_rsz s) p" "key_ok s k" "0 < cnt p"
  shows "InternalPage_search k s p = route s k (leftmost_ptr p) (entries p)"
proof -
  have wf: "index_page s (internal_rsz s) p" and srt: "sorted_recs s (entries p)" using assms(1) by (auto simp: sorted_page_def)
  let ?c = "rec_cmp s k (entries p)"
  have desc: "descending ?c (length (entries p))" using descending_recs [OF srt assms(2)] .
  have c: "key_cmp_at s k p i = ?c i" if "i < cnt p" for i using key_cmp_at_recs [OF wf that] .
  have d: "descending (key_cmp_at s k p) (Suc (cnt p - 1))" using page_descending [OF assms(1,2)] assms(3) by simp
  have child: "get_addr (record_ptr i p + key_size16 p) p = rec_child s (entries p ! i)" if "i < cnt p" for i
  proof -
    have "drop (GetPrimaryKeyLength s) (load_bytes a (internal_rsz s) p) = load_bytes (a + GetPrimaryKeyLength s) 8 p" for a
      by (simp add: load_bytes_split)
    then show ?thesis using index_pageD(4,9) [OF wf] that by (simp add: rec_child_def get_addr_def get_u64_def)
  qed
  show ?thesis
  proof (cases "?c 0 < 0")
    case True
    have "?c j < 0" if "j < cnt p" for j using that True descendingD [OF desc, of 0 j] by (cases j) auto
    then have "filter (\<lambda>e. 0 \<le> key_compare s k (rec_key s e)) (entries p) = []"
      by (auto simp: filter_empty_conv in_set_conv_nth rec_cmp_def not_le)
    then show ?thesis using True c [OF assms(3)] by (simp add: InternalPage_search_def route_def)
  next
    case False
    let ?P = "\<lambda>b. (case b of Hit mid \<Rightarrow> get_addr (record_ptr mid p + key_size16 p) p | Stop i \<Rightarrow> GetRecordValueByIndex i p)
       = route s k (leftmost_ptr p) (entries p)"
    have "?P (bsearch (key_cmp_at s k p) 0 (cnt p - 1))"
    proof (rule bsearch_cases [OF d])
      fix i assume i: "i \<le> cnt p - 1" "key_cmp_at s k p i = 0"
      then have i': "i < cnt p" using assms(3) by simp
      then show "?P (Hit i)"
        using route_at [OF desc, of i] i(2) c child descendingD [OF desc, of i] by simp
    next
      fix i assume i: "i \<le> cnt p - 1" "i = 0 \<or> 0 < key_cmp_at s k p i" "\<And>j. i < j \<Longrightarrow> j \<le> cnt p - 1 \<Longrightarrow> key_cmp_at s k p j < 0"
      have i': "i < cnt p" using i(1) assms(3) by simp
      have "?c j < 0" if "i < j" "j < cnt p" for j using i(3) [OF that(1)] c [OF that(2)] that by simp
      moreover have "0 \<le> ?c i" using i(2) False c [OF i'] by auto
      ultimately show "?P (Stop i)"
        using route_at [OF desc, of i] i' child [OF i'] by (simp add: GetRecordValueByIndex_def)
    qed
    then show ?thesis using False c [OF assms(3)] right_end_cnt(1) [OF wf assms(3)] by (simp add: InternalPage_search_def)
  qed
qed

lemma internal_store_at:
  assumes "sorted_page s (internal_rsz s) p" "key_ok s k" "0 < cnt p" "find_rec s k (entries p) = None"
  obtains i where "i \<le> cnt p" "\<And>j. j < i \<Longrightarrow> 0 < rec_cmp s k (entries p) j" "i < cnt p \<Longrightarrow> rec_cmp s k (entries p) i < 0"
    "InternalPage_store g k v s lg p = Inr (insert_internal_at s g k v lg i p)"
proof -
  note result = that
  have wf: "index_page s (internal_rsz s) p" and srt: "sorted_recs s (entries p)" using assms(1) by (auto simp: sorted_page_def)
  let ?c = "rec_cmp s k (entries p)"
  have desc: "descending ?c (length (entries p))" using descending_recs [OF srt assms(2)] .
  have c: "key_cmp_at s k p i = ?c i" if "i < cnt p" for i using key_cmp_at_recs [OF wf that] .
  have nz: "?c j \<noteq> 0" if "j < cnt p" for j
    using assms(4) that nth_mem [of j "entries p"] by (auto simp: find_rec_def find_None_iff rec_cmp_def)
  have d: "descending (key_cmp_at s k p) (Suc (cnt p - 1))" using page_descending [OF assms(1,2)] assms(3) by simp
  have R: "right_end p = cnt p - 1" using right_end_cnt(1) [OF wf assms(3)] .
  show ?thesis
  proof (cases "?c 0 < 0")
    case True
    then show ?thesis using result [of 0] c [OF assms(3)] by (simp add: InternalPage_store_def)
  next
    case False
    have "thesis" if b: "b = bsearch (key_cmp_at s k p) 0 (cnt p - 1)" for b
    proof (cases b)
      case (Hit m)
      then have "m < cnt p" "key_cmp_at s k p m = 0"
        using bsearch_Hit [of "key_cmp_at s k p" 0 "cnt p - 1" m] b assms(3) by auto
      then show ?thesis using c [of m] nz [of m] by simp
    next
      case (Stop i)
      have st: "i \<le> cnt p - 1" "i = 0 \<or> 0 < key_cmp_at s k p i" "\<And>j. i < j \<Longrightarrow> j \<le> cnt p - 1 \<Longrightarrow> key_cmp_at s k p j < 0"
        using bsearch_Stop [OF _ _ _ d, of 0 "cnt p - 1" i] b Stop by auto
      have i': "i < cnt p" using st(1) assms(3) by simp
      have "0 < ?c i" using st(2) False nz [OF i'] c [OF i'] by auto
      then have "0 < ?c j" if "j < i + 1" for j using that descendingD [OF desc, of j i] i' by (cases "j = i") fastforce+
      moreover have "?c (i + 1) < 0" if "i + 1 < cnt p" using st(3) [of "i + 1"] c [OF that] that by simp
      moreover have "InternalPage_store g k v s lg p = Inr (insert_internal_at s g k v lg (i + 1) p)"
        using False c [OF assms(3)] R Stop b by (simp add: InternalPage_store_def)
      ultimately show ?thesis using that i' by (intro result [of "i + 1"]) auto
    qed
    then show ?thesis by blast
  qed
qed

lemma route_ins:
  assumes "sorted_recs s es" "key_ok s (rec_key s v)" "key_ok s k" "find_rec s (rec_key s v) es = None"
  shows "route s k left (ins_rec s (rec_key s v) v es) =
    (if 0 \<le> key_compare s k (rec_key s v)
        \<and> (\<forall>e \<in> set es. key_compare s (rec_key s v) (rec_key s e) < 0 \<longrightarrow> key_compare s k (rec_key s e) < 0)
     then rec_child s v else route s k left es)"
proof -
  let ?F = "filter (\<lambda>e. 0 \<le> key_compare s k (rec_key s e))"
  obtain xs zs ys where ins: "es = xs @ zs @ ys" "ins_rec s (rec_key s v) v es = xs @ v # ys"
    "\<And>e. e \<in> set xs \<Longrightarrow> 0 < key_compare s (rec_key s v) (rec_key s e)"
    "\<And>e. e \<in> set zs \<Longrightarrow> key_compare s (rec_key s v) (rec_key s e) = 0"
    "\<And>e. e \<in> set ys \<Longrightarrow> key_compare s (rec_key s v) (rec_key s e) < 0"
    using ins_rec_split [OF assms(1,2)] by metis
  have "zs = []" using assms(4) ins(1,4) by (cases zs) (auto simp: find_rec_def find_None_iff)
  then have es: "es = xs @ ys" using ins(1) by simp
  have ok: "key_ok s (rec_key s e)" if "e \<in> set es" for e using sorted_recs_ok [OF assms(1) that] .
  have below: "?F ys = []" if "key_compare s k (rec_key s v) < 0"
    using key.less_le_trans_key [OF assms(3,2) ok that] ins(5) es by (fastforce simp: filter_empty_conv not_le)
  have F: "?F es = ?F xs @ ?F ys" by (simp add: es)
  show ?thesis
  proof (cases "0 \<le> key_compare s k (rec_key s v)")
    case False
    then show ?thesis using below by (simp add: route_def ins(2) F)
  next
    case True
    have "(\<forall>e \<in> set es. key_compare s (rec_key s v) (rec_key s e) < 0 \<longrightarrow> key_compare s k (rec_key s e) < 0) \<longleftrightarrow> ?F ys = []"
      using ins(3,5) es by (fastforce simp: filter_empty_conv not_le)
    then show ?thesis using True by (simp add: route_def ins(2) F Let_def)
  qed
qed

text \<open>Everything a store into an internal page does.\<close>

lemma internal_store_effect:
  assumes "sorted_page s (internal_rsz s) p" "key_ok s k" "length k = GetPrimaryKeyLength s" "0 < cnt p" "cnt p < kCardinality p"
    "find_rec s k (entries p) = None"
  obtains i p' where "i \<le> cnt p" "p' = inserted i (entry_of k v) (index_reset_dirty_bounds p)"
    "InternalPage_store g k v s lg p = Inr (cnt p' = kCardinality p', p',
       if lg then Some (nodeID g, g, index_version p', encode_ops (insert_ops i [k, le_bytes 8 (gval v)] p)) else None)"
    "entries p' = ins_rec s k (entry_of k v) (entries p)" "sorted_page s (internal_rsz s) p'" "same_header p' p" "cnt p' = Suc (cnt p)"
    "index_version p' = index_version p + 1" "GetHighest s p' = GetHighest s p" "GetLowest s p' = GetLowest s p"
proof -
  define q where "q = index_reset_dirty_bounds p"
  have wf: "index_page s (internal_rsz s) p" and srt: "sorted_recs s (entries p)" using assms(1) by (auto simp: sorted_page_def)
  have hq: "same_header q p" "cnt q = cnt p" "index_version q = index_version p" "entries q = entries p"
      "GetHighest s q = GetHighest s p" "GetLowest s q = GetLowest s p"
    by (simp_all add: q_def same_header_def cnt_def page_simps GetHighest_def GetLowest_def INDEX_DATA_OFF_def)
  have wq: "index_page s (internal_rsz s) q" using wf by (simp add: q_def index_page_def page_simps)
  have rq: "cnt q < kCardinality q" using assms(5) hq by (simp add: same_header_def)
  let ?e = "entry_of k v"
  have e: "length ?e = internal_rsz s" "rec_key s ?e = k" using assms(3) by (simp_all add: entry_of_def) (simp add: rec_key_def)
  obtain i where i: "i \<le> cnt p" "\<And>j. j < i \<Longrightarrow> 0 < rec_cmp s k (entries p) j" "i < cnt p \<Longrightarrow> rec_cmp s k (entries p) i < 0"
      "InternalPage_store g k v s lg p = Inr (insert_internal_at s g k v lg i p)"
    using internal_store_at [OF assms(1,2,4,6), of g v lg] by blast
  let ?p' = "inserted i ?e q"
  note I = inserted_page [OF wq rq _ e(1), of i]
  have ent: "entries ?p' = ins_rec s k ?e (entries p)"
    using I(1) i ins_rec_at [of i "entries p" s k ?e] hq by simp
  have srt': "sorted_page s (internal_rsz s) ?p'"
    using I(2) i(1) hq ent sorted_ins_rec [OF srt, of ?e] assms(2) by (simp add: sorted_page_def e(2))
  have hdr: "same_header ?p' p" using I(3) i(1) hq(1,2) by (simp add: same_header_def)
  have ver: "index_version ?p' = index_version p + 1" using I(4) i(1) hq by simp
  have c: "cnt ?p' = Suc (cnt p)" using cnt_inserted(2) [OF wq rq] hq by simp
  have "InternalPage_store g k v s lg p = Inr (cnt ?p' = kCardinality ?p', ?p',
      if lg then Some (nodeID g, g, index_version ?p', encode_ops (insert_ops i [k, le_bytes 8 (gval v)] p)) else None)"
    using i(4) insert_internal_at_eq [OF wf i(1) assms(3)] ver c hdr by (simp add: q_def same_header_def)
  from that [OF i(1) _ this ent srt' hdr c ver] show thesis using I(5,6) i(1) hq by (simp add: q_def)
qed

text \<open>
  Adding a separator that is not yet present to an internal page with room for it.  The page stays
  sorted and well formed, the result says whether it is now full, and a later search goes to the new child exactly for the
  keys from the new separator up to the next one and as before for all others.  The log record of the insertion, replayed
  on a copy of the old page, gives a copy of the new one.
\<close>
theorem internal_store_correct:
  assumes "sorted_page s (internal_rsz s) p" "key_ok s k" "length k = GetPrimaryKeyLength s" "0 < cnt p" "cnt p < kCardinality p"
    "find_rec s k (entries p) = None" "page_phys P g = base" "base \<noteq> 0" "page_at base p m"
  shows "\<exists>full p' payload. InternalPage_store g k v s True p = Inr (full, p', Some (nodeID g, g, index_version p', payload))
    \<and> sorted_page s (internal_rsz s) p' \<and> same_header p' p \<and> (full \<longleftrightarrow> cnt p' = kCardinality p')
    \<and> (\<forall>k'. key_ok s k' \<longrightarrow> InternalPage_search k' s p' =
         (if 0 \<le> key_compare s k' k \<and> (\<forall>e \<in> set (entries p). key_compare s k (rec_key s e) < 0 \<longrightarrow> key_compare s k' (rec_key s e) < 0)
          then v else InternalPage_search k' s p))
    \<and> page_at base p' (apply_record P (mk_header g (index_version p') (of_nat (length payload)), payload) m)"
proof -
  have wf: "index_page s (internal_rsz s) p" and srt: "sorted_recs s (entries p)" using assms(1) by (auto simp: sorted_page_def)
  let ?e = "entry_of k v" and ?q = "index_reset_dirty_bounds p"
  have e: "length ?e = internal_rsz s" "rec_key s ?e = k" "rec_child s ?e = v" using assms(3) by (simp_all add: entry_of_def) (simp_all add: rec_key_def rec_child_def)
  obtain i p' where I: "i \<le> cnt p" "p' = inserted i ?e ?q"
      "InternalPage_store g k v s True p = Inr (cnt p' = kCardinality p', p', Some (nodeID g, g, index_version p', encode_ops (insert_ops i [k, le_bytes 8 (gval v)] p)))"
      "entries p' = ins_rec s k ?e (entries p)" "sorted_page s (internal_rsz s) p'" "same_header p' p" "cnt p' = Suc (cnt p)" "index_version p' = index_version p + 1"
    by (rule internal_store_effect [OF assms(1-6), where v = v and g = g and lg = True]) (rule that; simp)
  have search: "InternalPage_search k' s p' = (if 0 \<le> key_compare s k' k
        \<and> (\<forall>e \<in> set (entries p). key_compare s k (rec_key s e) < 0 \<longrightarrow> key_compare s k' (rec_key s e) < 0)
      then v else InternalPage_search k' s p)" if "key_ok s k'" for k'
    using internal_search_route [OF I(5) that] internal_search_route [OF assms(1) that assms(4)]
      route_ins [OF srt, of ?e k' "leftmost_ptr p"] that assms(2,6) I(4,6,7) by (auto simp: e(2,3) same_header_def)
  let ?ops = "insert_ops i [k, le_bytes 8 (gval v)] p"
  let ?h = "mk_header g (index_version p') (of_nat (length (encode_ops ?ops)))"
  have q: "index_page s (internal_rsz s) ?q" "cnt ?q = cnt p" "kCardinality ?q = kCardinality p" "index_version ?q = index_version p"
    using wf by (simp_all add: index_page_def cnt_def page_simps)
  have "insert_ops i [k, le_bytes 8 (gval v)] ?q = ?ops"
    by (simp add: insert_ops_def q) (simp add: rec_ptr_def key_size16_def page_simps)
  moreover have "page_at base ?q m" using assms(9) by (simp add: page_at_dirty)
  moreover have "concat [k, le_bytes 8 (gval v)] = ?e" by (simp add: entry_of_def)
  moreover have "page_gaddr ?h = g" "Redo_Log.page_version ?h = index_version ?q + 1" by (simp_all add: mk_header_def I(8) q)
  ultimately have "page_at base p' (apply_record P (?h, encode_ops ?ops) m)"
    using replay_insert(2) [OF _ q(1) _ _ _ assms(7,8), of m i "[k, le_bytes 8 (gval v)]" ?h] I(1,2) q assms(5) e(1) by simp
  then show ?thesis using I(3,5,6) search by blast
qed

text \<open>A new root: one separator between two children.\<close>

lemma InternalPage_new_header:
  assumes p: "p = InternalPage_new left k right g c s lv kmin kmax m" and "internal_rsz s < 2 ^ 16" "length k = GetPrimaryKeyLength s"
    "length kmin = GetPrimaryKeyLength s" "length kmax = GetPrimaryKeyLength s"
  shows "key_size p = GetPrimaryKeyLength s" "record_size p = internal_rsz s" "kCardinality p = unat c" "last_index p = 0"
    "index_version p = 1" "leftmost_ptr p = left" "cnt p = 1" "entries p = [entry_of k right]"
proof -
  have K: "GetPrimaryKeyLength s < 2 ^ 16" using assms(2) by simp
  have U: "unat (of_nat (GetPrimaryKeyLength s) + 8 :: u32) = internal_rsz s"
    using unat_of_nat_small [of "internal_rsz s", where 'a = 32] assms(2) by simp
  define q where "q = put_u8 LEVEL_OFF (of_nat lv) (put_addr LEFTMOST_OFF left (put_u32 P_TYPE_OFF (page_type_code P_Internal_P)
     (put_u32 RECORD_SIZE_OFF (of_nat (internal_rsz s)) (put_u32 KEY_SIZE_OFF (of_nat (GetPrimaryKeyLength s)) (Header_Index_new m)))))"
  define r where "r = put_u64 P_VERSION_OFF 1 (put_u16 CARDINALITY_OFF c (put_addr THIS_PAGE_OFF g (put_u16 LAST_INDEX_OFF 0
     (store_bytes (64 + 2 * GetPrimaryKeyLength s) (entry_of k right) q))))"
  have hq: "key_size q = GetPrimaryKeyLength s" "record_size q = internal_rsz s"
    using K assms(2) unfolding q_def
    by (simp_all add: header_defs page_offs put_u8_store put_defs get_store_disjoint)
      (simp_all add: get_u32_def unat_of_nat_small U)
  have "get_u32 KEY_SIZE_OFF (put_u32 KEY_SIZE_OFF (of_nat (GetPrimaryKeyLength s)) x) + 8 = of_nat (internal_rsz s)" for x
    by (simp add: page_simps)
  moreover have "SetRecordByIndex s 0 k right q = store_bytes (64 + 2 * GetPrimaryKeyLength s) (entry_of k right) q"
    using SetRecordByIndex_eq [OF _ _ assms(3), of q 0 right] hq K by (simp add: rec_ptr_def key_size16_def INDEX_DATA_OFF_def)
  ultimately have pr: "p = SetLowest s kmin (SetHighest s kmax r)"
    unfolding p InternalPage_new_def Let_def r_def q_def by simp
  have hr: "key_size r = GetPrimaryKeyLength s" "record_size r = internal_rsz s" "kCardinality r = unat c" "last_index r = 0"
     "index_version r = 1" "leftmost_ptr r = left"
    using K assms(2) unfolding r_def q_def
    by (simp_all add: header_defs page_offs put_u8_store put_defs get_store_disjoint)
      (simp_all add: get_u16_def get_u32_def get_u64_def unat_of_nat_small U)
  then show h: "key_size p = GetPrimaryKeyLength s" "record_size p = internal_rsz s" "kCardinality p = unat c" and li: "last_index p = 0"
     and "index_version p = 1" "leftmost_ptr p = left"
    unfolding pr by (simp_all add: SetLowest_def SetHighest_def deepcopy_key_def INDEX_DATA_OFF_def header_store_above)
  show c: "cnt p = 1" by (simp add: cnt_def li)
  have "load_bytes (64 + 2 * GetPrimaryKeyLength s) (internal_rsz s) p = entry_of k right"
    using assms(3-5) unfolding pr r_def
    by (simp add: SetLowest_def SetHighest_def deepcopy_key_def page_offs put_defs load_store_disjoint entry_of_def)
  then show "entries p = [entry_of k right]"
    using h K by (simp add: c recs_def rec_ptr_def key_size16_def INDEX_DATA_OFF_def)
qed

definition demo_internal :: mem where
  "demo_internal = InternalPage_new (GlobalAddress 5 16392) (le_bytes 8 (7 :: u64) @ replicate 8 0) (GlobalAddress 5 32784) (GlobalAddress 5 0)
     200 demo_schema 1 (replicate 16 0) (replicate 16 0xff) (\<lambda>_. 0)"

lemma demo_internal_ok: "sorted_page demo_schema 24 demo_internal" "cnt demo_internal = 1" "kCardinality demo_internal = 200"
  "entries demo_internal = [entry_of (le_bytes 8 (7 :: u64) @ replicate 8 0) (GlobalAddress 5 32784)]"
proof -
  note H = InternalPage_new_header [of demo_internal, OF demo_internal_def, simplified demo_sizes, simplified]
  show c: "cnt demo_internal = 1" "kCardinality demo_internal = 200"
    "entries demo_internal = [entry_of (le_bytes 8 (7 :: u64) @ replicate 8 0) (GlobalAddress 5 32784)]"
    using H by simp_all
  show "sorted_page demo_schema 24 demo_internal"
    using H demo_key_ok [of "le_bytes 8 (7 :: u64) @ replicate 8 0"]
    by (simp add: sorted_page_def index_page_def demo_sizes INDEX_DATA_OFF_def kLeafPageSize_def)
qed

theorem internal_store_correct_witness:
  "\<exists>full p' payload. InternalPage_store (GlobalAddress 5 0) (le_bytes 8 (9 :: u64) @ replicate 8 0) (GlobalAddress 5 49176) demo_schema True demo_internal
       = Inr (full, p', Some (5, GlobalAddress 5 0, index_version p', payload))
     \<and> InternalPage_search (le_bytes 8 (10 :: u64) @ replicate 8 0) demo_schema p' = GlobalAddress 5 49176"
proof -
  let ?k = "le_bytes 8 (9 :: u64) @ replicate 8 (0 :: byte)" and ?k' = "le_bytes 8 (10 :: u64) @ replicate 8 (0 :: byte)"
    and ?k7 = "le_bytes 8 (7 :: u64) @ replicate 8 (0 :: byte)"
  have key: "rec_key demo_schema (entry_of ?k7 (GlobalAddress 5 32784)) = ?k7" by (simp add: demo_sizes)
  have cmp: "key_compare demo_schema ?k ?k7 = 1" "key_compare demo_schema ?k' ?k = 1"
    by (simp_all add: key_compare_def demo_fp cmp_val_def Let_def)
  have none: "find_rec demo_schema ?k (entries demo_internal) = None"
    unfolding find_rec_def demo_internal_ok(4) by (simp add: key cmp)
  have at: "page_at 4096 demo_internal (\<lambda>x. demo_internal (x - 4096))" by (simp add: page_at_def)
  have ok: "key_ok demo_schema ?k" "key_ok demo_schema ?k'" by (simp_all add: demo_key_ok)
  note T = internal_store_correct [OF _ ok(1) _ _ _ none demo_page _ at, of "GlobalAddress 5 49176"]
  show ?thesis using T demo_internal_ok ok(2) cmp key by (fastforce simp: demo_sizes)
qed

text \<open>Deleting from a leaf page compares the key with a null pointer before anything else.\<close>

theorem leaf_delete_null:
  assumes "MakePrimaryFootprint s \<noteq> []"
  shows "leaf_page_delete k fv s lg g p = Inl NullKey"
  using assms by (simp add: leaf_page_delete_def null_compare_def)

text \<open>The start position of a range scan: the last record that is not above the key.\<close>

lemma leaf_pos_lb_count:
  assumes "sorted_page s rsz p" "key_ok s k"
  shows "leaf_page_pos_lb k s p = int (length (filter (\<lambda>e. 0 \<le> key_compare s k (rec_key s e)) (entries p))) - 1"
proof (cases "cnt p = 0")
  case True
  have wf: "index_page s rsz p" using assms(1) by (simp add: sorted_page_def)
  then have "sint (get_u16 LAST_INDEX_OFF p) = - 1" using index_pageD(10) [OF wf] True by (simp add: last_index_def)
  then have "get_u16 LAST_INDEX_OFF p = - 1" by (metis signed_minus_1 signed_word_eqI)
  then show ?thesis using True by (simp add: leaf_page_pos_lb_def recs_def)
next
  case False
  have wf: "index_page s rsz p" and srt: "sorted_recs s (entries p)" using assms(1) by (auto simp: sorted_page_def)
  let ?c = "rec_cmp s k (entries p)" and ?F = "filter (\<lambda>e. 0 \<le> key_compare s k (rec_key s e)) (entries p)"
  have desc: "descending ?c (length (entries p))" using descending_recs [OF srt assms(2)] .
  have c: "key_cmp_at s k p i = ?c i" if "i < cnt p" for i using key_cmp_at_recs [OF wf that] .
  have d: "descending (key_cmp_at s k p) (Suc (cnt p - 1))" using page_descending [OF assms] False by simp
  have at: "length ?F = Suc i" if "i < cnt p" "0 \<le> ?c i" "\<And>j. i < j \<Longrightarrow> j < cnt p \<Longrightarrow> ?c j < 0" for i
  proof -
    have "0 \<le> ?c j" if "j < Suc i" for j
      using that \<open>0 \<le> ?c i\<close> descendingD [OF desc, of j i] \<open>i < cnt p\<close> by (cases "j = i") fastforce+
    then have "?F = take (Suc i) (entries p)"
      using that by (intro filter_prefix) (auto simp: rec_cmp_def Suc_le_eq not_le)
    then show ?thesis using that(1) by simp
  qed
  have none: "length ?F = 0" if "?c 0 < 0"
  proof -
    have "?c j < 0" if "j < cnt p" for j using that \<open>?c 0 < 0\<close> descendingD [OF desc, of 0 j] by (cases j) auto
    then show ?thesis by (auto simp: filter_empty_conv in_set_conv_nth rec_cmp_def not_le)
  qed
  have nm: "get_u16 LAST_INDEX_OFF p + 1 \<noteq> 0"
  proof
    assume "get_u16 LAST_INDEX_OFF p + 1 = 0"
    then have "get_u16 LAST_INDEX_OFF p = - 1" by (metis add.commute add_eq_0_iff)
    then show False using index_pageD(10) [OF wf] False by (simp add: last_index_def)
  qed
  let ?P = "\<lambda>b. (case b of Hit mid \<Rightarrow> int mid | Stop mid \<Rightarrow> if key_cmp_at s k p mid < 0 \<and> mid = 0 then - 1 else int mid) = int (length ?F) - 1"
  have "?P (bsearch (key_cmp_at s k p) 0 (cnt p - 1))"
  proof (rule bsearch_cases [OF d])
    fix i assume i: "i \<le> cnt p - 1" "key_cmp_at s k p i = 0"
    then have "i < cnt p" using False by simp
    then show "?P (Hit i)" using at [of i] i(2) c descendingD [OF desc, of i] by simp
  next
    fix i assume i: "i \<le> cnt p - 1" "i = 0 \<or> 0 < key_cmp_at s k p i" "\<And>j. i < j \<Longrightarrow> j \<le> cnt p - 1 \<Longrightarrow> key_cmp_at s k p j < 0"
    have i': "i < cnt p" using i(1) False by simp
    have "?c j < 0" if "i < j" "j < cnt p" for j using i(3) [OF that(1)] c [OF that(2)] that by simp
    then show "?P (Stop i)" using at [OF i'] i(2) none c [OF i'] by (cases "?c i < 0") auto
  qed
  then show ?thesis using nm right_end_cnt(2) [OF wf] False by (simp add: leaf_page_pos_lb_def)
qed

end
