(* ===== verification/Page_Split.thy ===== *)
theory Page_Split
  imports Index_Page
begin

text \<open>
  Splitting a full page of the B-link tree (\<^verbatim>\<open>btr/Btr.cpp\<close>): the parts of
  \<^verbatim>\<open>Btr::leaf_page_store\<close> and \<^verbatim>\<open>Btr::internal_page_store\<close> that run under the
  exclusive latch of the page once it is full, the construction of a new root in \<^verbatim>\<open>update_new_root\<close>,
  and the redo records that they write.  The lemmas show how a split divides the records and the key
  range of a page, and that a replica which replays the records holds both halves.
\<close>


section \<open>Redo records\<close>

definition HEADER_OFF :: nat where "HEADER_OFF = 8"
definition HEADER_SIZE :: nat where "HEADER_SIZE = 56"

text \<open>What the page that is split logs: the last index, the sibling and the highest key.\<close>

definition split_old_payload :: "mem \<Rightarrow> byte list" where
  "split_old_payload p =
    (let buf = AddUpdateBytes Encoder_new (of_nat LAST_INDEX_OFF) (load_bytes LAST_INDEX_OFF 2 p) 2;
         buf = AddUpdateBytes buf (of_nat SIBLING_OFF) (load_bytes SIBLING_OFF 8 p) 8
     in AddUpdateBytes buf (of_nat INDEX_DATA_OFF) (load_bytes INDEX_DATA_OFF (key_size p) p) (of_nat (key_size p)))"

text \<open>What a new page logs: its header, the lowest and the highest key and its records.\<close>

definition new_page_payload :: "mem \<Rightarrow> byte list" where
  "new_page_payload p =
    (let ks = key_size p; num_records = last_index p + 1; data_size = nat num_records * record_size p;
         buf = AddUpdateBytes Encoder_new (of_nat HEADER_OFF) (load_bytes HEADER_OFF HEADER_SIZE p) (of_nat HEADER_SIZE);
         buf = AddUpdateBytes buf (of_nat (INDEX_DATA_OFF + ks)) (load_bytes (INDEX_DATA_OFF + ks) ks p) (of_nat ks);
         buf = AddUpdateBytes buf (of_nat INDEX_DATA_OFF) (load_bytes INDEX_DATA_OFF ks p) (of_nat ks)
     in if 0 < num_records
        then AddUpdateBytes buf (of_nat (INDEX_DATA_OFF + 2 * ks)) (load_bytes (INDEX_DATA_OFF + 2 * ks) data_size p) (of_nat data_size)
        else buf)"

definition LogInternalPageSplit ::
  "bool \<Rightarrow> GlobalAddress \<Rightarrow> mem \<Rightarrow> GlobalAddress \<Rightarrow> mem \<Rightarrow> mem \<times> log_append list" where
  "LogInternalPageSplit logger old_addr old_page new_addr new_page =
    (let new_version = index_version old_page + 1; old_page = put_u64 P_VERSION_OFF new_version old_page in
     (old_page,
      if logger then [(nodeID old_addr, old_addr, new_version, split_old_payload old_page),
                      (nodeID new_addr, new_addr, 1, new_page_payload new_page)] else []))"

definition LogLeafPageSplit ::
  "bool \<Rightarrow> GlobalAddress \<Rightarrow> mem \<Rightarrow> GlobalAddress \<Rightarrow> mem \<Rightarrow> mem \<times> log_append list" where
  "LogLeafPageSplit logger old_addr old_page new_addr new_page =
    (let new_version = index_version old_page + 1; old_page = put_u64 P_VERSION_OFF new_version old_page in
     (old_page,
      if logger then [(nodeID old_addr, old_addr, new_version, split_old_payload old_page),
                      (nodeID new_addr, new_addr, 1, new_page_payload new_page)] else []))"

definition LogNewRootPage :: "bool \<Rightarrow> GlobalAddress \<Rightarrow> mem \<Rightarrow> mem \<times> log_append list" where
  "LogNewRootPage logger root_addr root_page =
    (if logger then (let root_page = put_u64 P_VERSION_OFF 1 root_page in
       (root_page, [(nodeID root_addr, root_addr, 1, new_page_payload root_page)]))
     else (root_page, []))"


section \<open>Splitting a page\<close>

text \<open>
  The split of a leaf page that holds \<open>cnt\<close> records: the page, its new right sibling, the separator and
  the log records.  \<open>buf\<close> is the local slot in which the sibling is built; \<open>kmin\<close> and \<open>kmax\<close> are the
  sentinels of the schema.  The copy runs once per moved record but copies all of them each time.
\<close>

definition leaf_split ::
  "RecordSchema \<Rightarrow> u16 \<Rightarrow> byte list \<Rightarrow> byte list \<Rightarrow> bool \<Rightarrow> GlobalAddress \<Rightarrow> GlobalAddress \<Rightarrow> mem \<Rightarrow> mem
    \<Rightarrow> mem \<times> mem \<times> byte list \<times> log_append list" where
  "leaf_split s leaf_card kmin kmax logger page_addr sibling_addr buf p =
    (let cnt = nat (last_index p + 1);
         sib = put_u64 0 0 (LeafPage_new sibling_addr leaf_card s (page_level p) kmin kmax buf);
         m = cnt div 2;
         split_key = GetRecordKeyByIndex s m p;
         moved = load_bytes (record_ptr m p) (nat (last_index p - int m + 1) * GetRecordTotalSize s) p;
         sib = (if m < cnt then store_bytes (INDEX_DATA_OFF + 2 * key_size p) moved sib else sib);
         p1 = put_u16 LAST_INDEX_OFF (get_u16 LAST_INDEX_OFF p - of_nat (cnt - m)) p;
         sib = put_u16 LAST_INDEX_OFF (of_int (int cnt - int m - 1)) sib;
         sib = SetHighest s (GetHighest s p1) (SetLowest s split_key sib);
         p2 = SetHighest s split_key p1;
         sib = put_addr SIBLING_OFF (sibling_ptr p2) sib;
         p3 = put_addr SIBLING_OFF sibling_addr p2;
         (p4, logs) = LogLeafPageSplit logger page_addr p3 sibling_addr sib
     in (p4, sib, split_key, logs))"

text \<open>The records that an internal page moves to its sibling, one by one.\<close>

definition move_records :: "RecordSchema \<Rightarrow> nat \<Rightarrow> nat \<Rightarrow> mem \<Rightarrow> mem \<Rightarrow> mem" where
  "move_records s m n p sib =
    foldl (\<lambda>sib i. SetRecordByIndex s (i - m - 1) (GetRecordKeyByIndex s i p) (GetRecordValueByIndex i p) sib) sib [m + 1..<n]"

definition internal_split ::
  "RecordSchema \<Rightarrow> byte list \<Rightarrow> byte list \<Rightarrow> bool \<Rightarrow> GlobalAddress \<Rightarrow> GlobalAddress \<Rightarrow> mem \<Rightarrow> mem
    \<Rightarrow> mem \<times> mem \<times> byte list \<times> log_append list" where
  "internal_split s kmin kmax logger page_addr sibling_addr buf p =
    (let cnt = nat (last_index p + 1);
         sib = put_u64 0 0 (InternalPage_empty sibling_addr s (page_level p) kmin kmax buf);
         m = cnt div 2;
         split_key = GetRecordKeyByIndex_DeepCopy m p;
         p1 = put_u16 LAST_INDEX_OFF (get_u16 LAST_INDEX_OFF p - of_nat (cnt - m)) p;
         sib = put_u16 LAST_INDEX_OFF (of_int (int cnt - int m - 1 - 1)) sib;
         sib = move_records s m cnt p1 sib;
         sib = put_addr LEFTMOST_OFF (GetRecordValueByIndex m p1) sib;
         sib = SetHighest s (GetHighest s p1) (SetLowest s (GetRecordKeyByIndex s m p1) sib);
         p2 = SetHighest s (GetRecordKeyByIndex s m p1) p1;
         sib = put_addr SIBLING_OFF (sibling_ptr p2) sib;
         p3 = put_addr SIBLING_OFF sibling_addr p2;
         (p4, logs) = LogInternalPageSplit logger page_addr p3 sibling_addr sib
     in (p4, sib, split_key, logs))"

section \<open>Header writes\<close>

text \<open>The link members of the header, and the bytes above it.\<close>

lemma header_put_links [page_simps]:
  "key_size (put_addr SIBLING_OFF g p) = key_size p" "record_size (put_addr SIBLING_OFF g p) = record_size p"
  "kCardinality (put_addr SIBLING_OFF g p) = kCardinality p" "page_level (put_addr SIBLING_OFF g p) = page_level p"
  "leftmost_ptr (put_addr SIBLING_OFF g p) = leftmost_ptr p" "sibling_ptr (put_addr SIBLING_OFF g p) = g"
  "index_version (put_addr SIBLING_OFF g p) = index_version p" "last_index (put_addr SIBLING_OFF g p) = last_index p"
  "key_size (put_addr LEFTMOST_OFF g p) = key_size p" "record_size (put_addr LEFTMOST_OFF g p) = record_size p"
  "kCardinality (put_addr LEFTMOST_OFF g p) = kCardinality p" "page_level (put_addr LEFTMOST_OFF g p) = page_level p"
  "leftmost_ptr (put_addr LEFTMOST_OFF g p) = g" "sibling_ptr (put_addr LEFTMOST_OFF g p) = sibling_ptr p"
  "index_version (put_addr LEFTMOST_OFF g p) = index_version p" "last_index (put_addr LEFTMOST_OFF g p) = last_index p"
  "key_size (put_u64 0 w p) = key_size p" "record_size (put_u64 0 w p) = record_size p"
  "kCardinality (put_u64 0 w p) = kCardinality p" "page_level (put_u64 0 w p) = page_level p"
  "leftmost_ptr (put_u64 0 w p) = leftmost_ptr p" "sibling_ptr (put_u64 0 w p) = sibling_ptr p"
  "index_version (put_u64 0 w p) = index_version p" "last_index (put_u64 0 w p) = last_index p"
  by (simp_all add: header_defs page_offs page_simps put_addr_def) (simp_all add: put_u64_def page_simps)

lemma load_above_links [page_simps]:
  assumes "64 \<le> a"
  shows "load_bytes a n (put_addr SIBLING_OFF g p) = load_bytes a n p" "load_bytes a n (put_addr LEFTMOST_OFF g p) = load_bytes a n p"
    "load_bytes a n (put_u64 0 w p) = load_bytes a n p"
  using assms by (simp_all add: put_addr_def put_u64_def page_offs load_store_disjoint)

lemma recs_links [page_simps]:
  "recs n (put_addr SIBLING_OFF g p) = recs n p" "recs n (put_addr LEFTMOST_OFF g p) = recs n p" "recs n (put_u64 0 w p) = recs n p"
  by (rule recs_cong; simp add: page_simps rec_ptr_ge)+

text \<open>Bounds are stored below the records.\<close>

lemma header_bounds [page_simps]:
  "key_size (SetHighest s k p) = key_size p" "record_size (SetHighest s k p) = record_size p" "kCardinality (SetHighest s k p) = kCardinality p"
  "page_level (SetHighest s k p) = page_level p" "leftmost_ptr (SetHighest s k p) = leftmost_ptr p" "sibling_ptr (SetHighest s k p) = sibling_ptr p"
  "last_index (SetHighest s k p) = last_index p" "index_version (SetHighest s k p) = index_version p"
  "key_size (SetLowest s k p) = key_size p" "record_size (SetLowest s k p) = record_size p" "kCardinality (SetLowest s k p) = kCardinality p"
  "page_level (SetLowest s k p) = page_level p" "leftmost_ptr (SetLowest s k p) = leftmost_ptr p" "sibling_ptr (SetLowest s k p) = sibling_ptr p"
  "last_index (SetLowest s k p) = last_index p" "index_version (SetLowest s k p) = index_version p"
  by (simp_all add: SetHighest_def SetLowest_def deepcopy_key_def page_simps INDEX_DATA_OFF_def)

lemma recs_bounds:
  assumes "key_size16 p = GetPrimaryKeyLength s"
  shows "recs n (SetHighest s k p) = recs n p" "recs n (SetLowest s k p) = recs n p"
  using assms by (auto intro!: recs_cong simp: page_simps)
    (simp_all add: SetHighest_def SetLowest_def deepcopy_key_def rec_ptr_def, (rule load_store_disjoint, rule disjI2, simp, linarith?)+)

lemma bounds_of_bounds [page_simps]:
  assumes "length k = GetPrimaryKeyLength s"
  shows "GetHighest s (SetHighest s k p) = k" "GetLowest s (SetHighest s k p) = GetLowest s p"
    "GetLowest s (SetLowest s k p) = k" "GetHighest s (SetLowest s k p) = GetHighest s p"
  using assms load_store_same [where bs = k]
  by (simp_all add: SetHighest_def SetLowest_def GetHighest_def GetLowest_def deepcopy_key_def load_store_disjoint)

lemma bounds_of_header [page_simps]:
  "GetHighest s (put_u16 LAST_INDEX_OFF x p) = GetHighest s p" "GetLowest s (put_u16 LAST_INDEX_OFF x p) = GetLowest s p"
  "GetHighest s (put_u64 P_VERSION_OFF v p) = GetHighest s p" "GetLowest s (put_u64 P_VERSION_OFF v p) = GetLowest s p"
  "GetHighest s (put_addr SIBLING_OFF g p) = GetHighest s p" "GetLowest s (put_addr SIBLING_OFF g p) = GetLowest s p"
  "GetHighest s (put_addr LEFTMOST_OFF g p) = GetHighest s p" "GetLowest s (put_addr LEFTMOST_OFF g p) = GetLowest s p"
  by (simp_all add: GetHighest_def GetLowest_def page_simps INDEX_DATA_OFF_def)

lemma length_bounds [simp]: "length (GetHighest s p) = GetPrimaryKeyLength s" "length (GetLowest s p) = GetPrimaryKeyLength s"
  by (simp_all add: GetHighest_def GetLowest_def)

text \<open>Records stored side by side in an empty page.\<close>

lemma recs_stored:
  assumes "key_size16 p = key_size p" "bs = concat rs" "\<And>r. r \<in> set rs \<Longrightarrow> length r = record_size p"
  shows "recs (length rs) (store_bytes (INDEX_DATA_OFF + 2 * key_size p) bs p) = rs"
proof (rule nth_equalityI)
  fix i assume "i < length (recs (length rs) (store_bytes (INDEX_DATA_OFF + 2 * key_size p) bs p))"
  then have i: "i < length rs" by simp
  let ?r = "record_size p" and ?q = "store_bytes (INDEX_DATA_OFF + 2 * key_size p) bs p"
  have len: "length (concat (take j rs)) = j * ?r" if "j \<le> length rs" for j
    using that assms(3) by (induction j) (auto simp: take_Suc_conv_app_nth)
  have "bs = concat (take i rs) @ rs ! i @ concat (drop (Suc i) rs)"
    using i assms(2) by (metis concat.simps(2) concat_append id_take_nth_drop)
  then have "load_bytes (INDEX_DATA_OFF + 2 * key_size p + i * ?r) ?r ?q = rs ! i"
    using len [of i] i assms(3) [of "rs ! i"]
    by (intro nth_equalityI) (auto simp: store_bytes_def nth_append)
  moreover have "key_size ?q = key_size p" "record_size ?q = record_size p" by (simp_all add: page_simps INDEX_DATA_OFF_def)
  ultimately show "recs (length rs) ?q ! i = rs ! i"
    using i assms(1) by (simp add: rec_ptr_def key_size16_def)
qed simp

lemma load_recs:
  assumes "record_size p = rsz" "m \<le> n"
  shows "load_bytes (record_ptr m p) ((n - m) * rsz) p = concat (drop m (recs n p))"
  using assms(2)
proof (induction "n - m" arbitrary: m)
  case (Suc d)
  have "(n - m) * rsz = rsz + (n - Suc m) * rsz" using Suc.hyps(2) by (metis Suc_diff_Suc Suc_eq_plus1_left diff_Suc_1 mult_Suc zero_less_Suc zero_less_diff add.commute plus_1_eq_Suc)
  then have "load_bytes (record_ptr m p) ((n - m) * rsz) p = load_bytes (record_ptr m p) rsz p @ load_bytes (record_ptr (Suc m) p) ((n - Suc m) * rsz) p"
    using assms(1) by (simp add: load_bytes_split rec_ptr_Suc)
  moreover have "drop m (recs n p) = load_bytes (record_ptr m p) rsz p # drop (Suc m) (recs n p)"
    using Suc.hyps(2) assms(1) by (subst Cons_nth_drop_Suc [symmetric]) simp_all
  moreover have "d = n - Suc m" "Suc m \<le> n" using Suc.hyps(2) by simp_all
  ultimately show ?case using Suc.hyps(1) [of "Suc m"] by simp
qed simp

lemma length_in_recs: "r \<in> set (recs n p) \<Longrightarrow> length r = record_size p"
  by (auto simp: recs_def)

lemma take_recs: "m \<le> n \<Longrightarrow> take m (recs n p) = recs m p"
  by (simp add: recs_def take_map)

section \<open>What a split does to a leaf\<close>

lemma sint_of_int_small:
  assumes "- (2 ^ 15) \<le> i" "i < 2 ^ 15"
  shows "sint (of_int i :: u16) = i"
  using assms by (simp add: signed_of_int signed_take_bit_int_eq_self)

lemma sint_diff_small:
  assumes "sint (w :: u16) = int n - 1" "m \<le> n" "n < 2 ^ 15"
  shows "sint (w - of_nat (n - m)) = int m - 1"
proof -
  have "w = of_int (int n - 1)" unfolding assms(1) [symmetric] by simp
  then have "w - of_nat (n - m) = of_int (int m - 1)" using assms(2) by (simp add: of_nat_diff)
  then show ?thesis using sint_of_int_small [of "int m - 1"] assms(2,3) by (simp only:) simp
qed

lemma LeafPage_new_level:
  assumes "lv < 2 ^ 8"
  shows "page_level (LeafPage_new g c s lv kmin kmax m) = lv" "leftmost_ptr (LeafPage_new g c s lv kmin kmax m) = GlobalAddress_Null"
proof -
  have "get_u8 a (store_bytes a [v] x) = v" "get_u64 a (store_bytes a (le_bytes 8 w) x) = w" for a v w x
    by (simp_all add: get_u8_def get_u64_def store_bytes_def [of a "[v]"])
  then show "page_level (LeafPage_new g c s lv kmin kmax m) = lv" "leftmost_ptr (LeafPage_new g c s lv kmin kmax m) = GlobalAddress_Null"
    using assms unfolding LeafPage_new_def Header_Index_new_def Let_def index_reset_dirty_bounds_def
    by (simp_all add: page_simps) (simp_all add: header_defs page_offs put_u8_store put_defs get_store_disjoint unat_of_nat_small)
qed

lemma page_level_less: "page_level p < 2 ^ 8"
  using unsigned_less [of "get_u8 LEVEL_OFF p"] by (simp add: page_level_def)

text \<open>The page and the sibling after a split, for a page of any kind: \<open>left\<close> and \<open>right\<close> are their records.\<close>

definition split_pages ::
  "RecordSchema \<Rightarrow> nat \<Rightarrow> mem \<Rightarrow> GlobalAddress \<Rightarrow> byte list \<Rightarrow> byte list list \<Rightarrow> byte list list \<Rightarrow> mem \<Rightarrow> mem \<Rightarrow> bool" where
  "split_pages s rsz p sibling_addr split_key left right p' sib \<longleftrightarrow>
     index_page s rsz p' \<and> entries p' = left \<and> GetLowest s p' = GetLowest s p \<and> GetHighest s p' = split_key
     \<and> sibling_ptr p' = sibling_addr \<and> leftmost_ptr p' = leftmost_ptr p \<and> page_level p' = page_level p \<and> kCardinality p' = kCardinality p
     \<and> index_version p' = index_version p + 1
     \<and> index_page s rsz sib \<and> entries sib = right \<and> GetLowest s sib = split_key \<and> GetHighest s sib = GetHighest s p
     \<and> sibling_ptr sib = sibling_ptr p \<and> page_level sib = page_level p \<and> kCardinality sib = kCardinality p
     \<and> index_version sib = 1"

text \<open>The bytes of the page that is split, and the records that both kinds of split log.\<close>

definition old_half :: "RecordSchema \<Rightarrow> GlobalAddress \<Rightarrow> byte list \<Rightarrow> u16 \<Rightarrow> mem \<Rightarrow> mem" where
  "old_half s sibling_addr split_key lidx p =
    put_u64 P_VERSION_OFF (index_version p + 1) (put_addr SIBLING_OFF sibling_addr (SetHighest s split_key (put_u16 LAST_INDEX_OFF lidx p)))"

definition split_logs :: "bool \<Rightarrow> GlobalAddress \<Rightarrow> mem \<Rightarrow> GlobalAddress \<Rightarrow> mem \<Rightarrow> log_append list" where
  "split_logs logger old_addr old_page new_addr new_page =
    (if logger then [(nodeID old_addr, old_addr, index_version old_page, split_old_payload old_page),
                     (nodeID new_addr, new_addr, 1, new_page_payload new_page)] else [])"

lemma leaf_split_effect:
  assumes wf: "index_page s (GetRecordTotalSize s) p" and card: "unat leaf_card = kCardinality p" and "0 < cnt p"
    and split: "leaf_split s leaf_card kmin kmax lg pa sa buf p = (p', sib, sk, logs)"
  shows "sk = rec_key s (entries p ! (cnt p div 2))"
    "\<exists>lidx. p' = old_half s sa sk lidx p" "logs = split_logs lg pa p' sa sib"
    "split_pages s (GetRecordTotalSize s) p sa sk (take (cnt p div 2) (entries p)) (drop (cnt p div 2) (entries p)) p' sib"
    "leftmost_ptr sib = GlobalAddress_Null"
proof -
  note D = index_pageD [OF wf]
  define m where "m = cnt p div 2"
  have m: "m < cnt p" "m \<le> cnt p" using assms(3) by (auto simp: m_def)
  let ?r = "GetRecordTotalSize s" and ?k = "GetPrimaryKeyLength s"
  have "1 * ?r \<le> kCardinality p * ?r" using assms(3) D(11) by (intro mult_le_mono1) simp
  then have "?k < 16392" "?r < 16392" using D(1,5) unfolding kLeafPageSize_def by linarith+
  then have small: "?k < 2 ^ 16" "?r < 2 ^ 32" by simp_all
  define q where "q = put_u64 0 0 (LeafPage_new sa leaf_card s (page_level p) kmin kmax buf)"
  have hq: "key_size q = ?k" "record_size q = ?r" "kCardinality q = kCardinality p" "index_version q = 1"
      "page_level q = page_level p" "leftmost_ptr q = GlobalAddress_Null"
    using LeafPage_new_header [OF refl, of s sa leaf_card "page_level p" kmin kmax buf] LeafPage_new_level [OF page_level_less, of sa leaf_card s p kmin kmax buf]
      small card by (simp_all add: q_def page_simps)
  have kq: "key_size16 q = ?k" using small by (simp add: key_size16_def hq)
  let ?moved = "load_bytes (record_ptr m p) ((cnt p - m) * ?r) p"
  define q1 where "q1 = store_bytes (INDEX_DATA_OFF + 2 * ?k) ?moved q"
  have r1: "recs (cnt p - m) q1 = drop m (entries p)"
    using recs_stored [of q ?moved "drop m (entries p)"] kq hq load_recs [OF D(4) m(2)] D(4) length_in_recs [OF in_set_dropD, of _ m "cnt p" p]
    by (simp add: q1_def)
  have h1: "key_size q1 = ?k" "record_size q1 = ?r" "kCardinality q1 = kCardinality p" "index_version q1 = 1"
      "page_level q1 = page_level p" "leftmost_ptr q1 = GlobalAddress_Null"
    by (simp_all add: q1_def page_simps hq INDEX_DATA_OFF_def)
  have k1: "key_size16 q1 = ?k" using small by (simp add: key_size16_def h1)
  have sk0: "GetRecordKeyByIndex s m p = rec_key s (entries p ! m)"
    using m D by (simp add: GetRecordKeyByIndex_def rec_key_def load_bytes_def take_map min_def)
  have len: "length (rec_key s (entries p ! m)) = ?k" using m D(3,4) by (simp add: rec_key_def)
  have moved: "nat (last_index p - int m + 1) = cnt p - m" using D(10) by simp
  define p1 where "p1 = put_u16 LAST_INDEX_OFF (get_u16 LAST_INDEX_OFF p - of_nat (cnt p - m)) p"
  have li1: "last_index p1 = int m - 1"
    using sint_diff_small [of "get_u16 LAST_INDEX_OFF p" "cnt p" m] D(6,10,11) m(2) by (simp add: p1_def page_simps last_index_def)
  let ?sk = "rec_key s (entries p ! m)"
  define q2 where "q2 = put_addr SIBLING_OFF (sibling_ptr p) (SetHighest s (GetHighest s p) (SetLowest s ?sk
     (put_u16 LAST_INDEX_OFF (of_int (int (cnt p) - int m - 1)) q1)))"
  define p3 where "p3 = put_addr SIBLING_OFF sa (SetHighest s ?sk p1)"
  have "leaf_split s leaf_card kmin kmax lg pa sa buf p
      = (put_u64 P_VERSION_OFF (index_version p + 1) p3, q2, ?sk, snd (LogLeafPageSplit lg pa p3 sa q2))"
    using m(1) unfolding leaf_split_def Let_def cnt_def [symmetric] m_def [symmetric] moved sk0 D(1) q_def [symmetric] q1_def [symmetric] p1_def [symmetric]
    by (simp add: q2_def p3_def LogLeafPageSplit_def Let_def page_simps p1_def)
  then have eq: "p' = put_u64 P_VERSION_OFF (index_version p + 1) p3" "sib = q2" "sk = ?sk" "logs = snd (LogLeafPageSplit lg pa p3 sa q2)"
    using split by simp_all
  show "\<exists>lidx. p' = old_half s sa sk lidx p" by (auto simp: old_half_def eq p3_def p1_def)
  show "logs = split_logs lg pa p' sa sib"
    by (simp add: eq split_logs_def LogLeafPageSplit_def Let_def page_simps) (simp add: p3_def p1_def page_simps)
  have li2: "last_index q2 = int (cnt p) - int m - 1"
    using sint_of_int_small [of "int (cnt p) - int m - 1"] D(6,11) m by (simp add: q2_def page_simps)
  have c: "cnt p' = m" "cnt sib = cnt p - m" unfolding cnt_def [of p'] cnt_def [of sib] by (simp_all add: eq p3_def page_simps li1 li2)
  have k3: "key_size16 p1 = ?k" using D(9) by (simp add: p1_def key_size16_def page_simps)
  have e: "entries p' = take m (entries p)" "entries sib = drop m (entries p)"
    unfolding c using take_recs [OF m(2), of p] r1 k1 k3
    by (simp_all add: eq p3_def q2_def page_simps recs_bounds key_size16_def) (simp add: p1_def page_simps)
  show "sk = rec_key s (entries p ! (cnt p div 2))" by (simp add: eq(3) m_def)
  show "leftmost_ptr sib = GlobalAddress_Null" by (simp add: eq(2) q2_def page_simps h1)
  have wf': "index_page s ?r p'" "index_page s ?r sib"
    using wf li1 li2 m D(8,10) unfolding index_page_def by (simp_all add: eq p3_def q2_def page_simps h1 p1_def)
  show "split_pages s ?r p sa sk (take (cnt p div 2) (entries p)) (drop (cnt p div 2) (entries p)) p' sib"
    unfolding split_pages_def m_def [symmetric] using wf' e len
    by (simp add: eq p3_def q2_def page_simps h1 p1_def)
qed

section \<open>What a split does to an internal page\<close>

lemma InternalPage_empty_header:
  assumes p: "p = InternalPage_empty g s lv kmin kmax m" and K: "internal_rsz s < 2 ^ 16" and "lv < 2 ^ 8" "internal_cardinality kInternalPageSize s < 2 ^ 16"
    "length kmin = GetPrimaryKeyLength s"
  shows "key_size p = GetPrimaryKeyLength s" "record_size p = internal_rsz s" "kCardinality p = internal_cardinality kInternalPageSize s"
    "index_version p = 1" "page_level p = lv"
proof -
  have U: "unat (of_nat (GetPrimaryKeyLength s) + 8 :: u32) = internal_rsz s"
    using unat_of_nat_small [of "internal_rsz s", where 'a = 32] K by simp
  have get: "get_u8 a (store_bytes a [v] x) = v" for a v x by (simp add: get_u8_def store_bytes_def)
  define q where "q = put_u8 LEVEL_OFF (of_nat lv) (put_u32 P_TYPE_OFF (page_type_code P_Internal_S)
     (put_u32 RECORD_SIZE_OFF (of_nat (internal_rsz s)) (put_u32 KEY_SIZE_OFF (of_nat (GetPrimaryKeyLength s)) (Header_Index_new m))))"
  have hq: "key_size q = GetPrimaryKeyLength s" "record_size q = internal_rsz s" "page_level q = lv"
    using K assms(3) unfolding q_def
    by (simp_all add: header_defs page_offs put_u8_store put_defs get_store_disjoint get)
      (simp_all add: get_u32_def unat_of_nat_small U)
  let ?r = "store_bytes (64 + 2 * GetPrimaryKeyLength s) (entry_of kmin GlobalAddress_Null) q"
  have "SetRecordByIndex s 0 kmin GlobalAddress_Null q = ?r"
    using SetRecordByIndex_eq [OF _ _ assms(5), of q 0 GlobalAddress_Null] hq K by (simp add: rec_ptr_def key_size16_def INDEX_DATA_OFF_def)
  then have pr: "p = SetLowest s kmin (SetHighest s kmax (put_u64 P_VERSION_OFF 1 (put_u16 CARDINALITY_OFF (of_nat (internal_cardinality kInternalPageSize s))
      (put_addr THIS_PAGE_OFF g ?r))))"
    unfolding p InternalPage_empty_def Let_def q_def by (simp add: page_simps)
  have hr: "key_size ?r = GetPrimaryKeyLength s" "record_size ?r = internal_rsz s" "page_level ?r = lv" by (simp_all add: page_simps hq)
  have "get_u16 a (store_bytes a (le_bytes 2 v) x) = v" for a v x by (simp add: get_u16_def)
  then show "key_size p = GetPrimaryKeyLength s" "record_size p = internal_rsz s" "kCardinality p = internal_cardinality kInternalPageSize s"
    "index_version p = 1" "page_level p = lv"
    using hr assms(4) unfolding pr
    by (simp_all add: page_simps) (simp_all add: header_defs page_offs put_defs get_store_disjoint unat_of_nat_small)
qed

lemma recs_snoc:
  assumes "key_size16 p = GetPrimaryKeyLength s" "length e = record_size p"
  shows "recs (Suc d) (store_bytes (record_ptr d p) e p) = recs d p @ [e]"
proof -
  let ?q = "store_bytes (record_ptr d p) e p"
  have h: "key_size ?q = key_size p" "record_size ?q = record_size p" by (simp_all add: page_simps rec_ptr_ge)
  then have ptr: "record_ptr i ?q = record_ptr i p" for i by (simp add: rec_ptr_def key_size16_def)
  have "load_bytes (record_ptr i p) (record_size p) ?q = load_bytes (record_ptr i p) (record_size p) p" if "i < d" for i
    using rec_ptr_less [OF that, of "key_size16 p" p] by (simp add: load_store_disjoint)
  then show ?thesis using assms(2) by (simp add: recs_def ptr h)
qed

lemma move_records_effect:
  assumes "key_size p = GetPrimaryKeyLength s" "key_size q = GetPrimaryKeyLength s" "GetPrimaryKeyLength s < 2 ^ 16"
    "record_size p = internal_rsz s" "record_size q = internal_rsz s" "m < n"
  shows "recs (n - m - 1) (move_records s m n p q) = drop (Suc m) (recs n p) \<and> same_header (move_records s m n p q) q
    \<and> index_version (move_records s m n p q) = index_version q \<and> last_index (move_records s m n p q) = last_index q"
  using assms(6)
proof (induction n)
  case (Suc n)
  have k: "key_size16 p = GetPrimaryKeyLength s" "key_size16 q = GetPrimaryKeyLength s" using assms(1-3) by (simp_all add: key_size16_def)
  show ?case
  proof (cases "m = n")
    case True
    then show ?thesis by (simp add: recs_def same_header_def move_records_def)
  next
    case False
    then have mn: "m < n" using Suc.prems by simp
    let ?t = "move_records s m n p q" and ?e = "entry_of (GetRecordKeyByIndex s n p) (GetRecordValueByIndex n p)"
    note IH = Suc.IH [OF mn]
    have ht: "key_size ?t = GetPrimaryKeyLength s" "record_size ?t = internal_rsz s" using IH assms(2,5) by (simp_all add: same_header_def)
    then have kt: "key_size16 ?t = GetPrimaryKeyLength s" using assms(3) by (simp add: key_size16_def)
    have step: "move_records s m (Suc n) p q = store_bytes (record_ptr (n - m - 1) ?t) ?e ?t"
      using mn ht assms(3) by (simp add: move_records_def SetRecordByIndex_eq GetRecordKeyByIndex_def)
    have e: "?e = recs (Suc n) p ! n" "length ?e = internal_rsz s" using record_bytes [OF k(1), of n] assms(4) by simp_all
    have "recs (Suc (n - m - 1)) (move_records s m (Suc n) p q) = drop (Suc m) (recs n p) @ [?e]"
      unfolding step using recs_snoc [OF kt, of ?e "n - m - 1"] e(2) ht IH by simp
    moreover have "recs (Suc n) p = recs n p @ [recs (Suc n) p ! n]" by (simp add: recs_def nth_append)
    then have "drop (Suc m) (recs (Suc n) p) = drop (Suc m) (recs n p) @ [?e]"
      using mn e(1) by (metis Suc_leI diff_is_0_eq drop0 drop_append length_recs)
    moreover have "Suc (n - m - 1) = Suc n - m - 1" using mn by simp
    ultimately show ?thesis using IH unfolding step by (simp add: same_header_def page_simps rec_ptr_ge)
  qed
qed simp

lemma internal_split_effect:
  assumes wf: "index_page s (internal_rsz s) p" and card: "kCardinality p = internal_cardinality kInternalPageSize s" and "2 < cnt p"
    and len: "length kmin = GetPrimaryKeyLength s" and split: "internal_split s kmin kmax lg pa sa buf p = (p', sib, sk, logs)"
  shows "sk = rec_key s (entries p ! (cnt p div 2))"
    "\<exists>lidx. p' = old_half s sa sk lidx p" "logs = split_logs lg pa p' sa sib"
    "split_pages s (internal_rsz s) p sa sk (take (cnt p div 2) (entries p)) (drop (Suc (cnt p div 2)) (entries p)) p' sib"
    "leftmost_ptr sib = rec_child s (entries p ! (cnt p div 2))"
proof -
  note D = index_pageD [OF wf]
  define m where "m = cnt p div 2"
  have m: "m < cnt p" "m \<le> cnt p" "Suc m < cnt p" using assms(3) by (auto simp: m_def)
  let ?k = "GetPrimaryKeyLength s"
  have "1 * internal_rsz s \<le> kCardinality p * internal_rsz s" using assms(3) D(11) by (intro mult_le_mono1) simp
  then have "internal_rsz s < 16392" using D(1,5) unfolding kLeafPageSize_def by linarith
  then have small: "internal_rsz s < 2 ^ 16" "?k < 2 ^ 16" by simp_all
  define q where "q = put_u16 LAST_INDEX_OFF (of_int (int (cnt p) - int m - 1 - 1)) (put_u64 0 0 (InternalPage_empty sa s (page_level p) kmin kmax buf))"
  have hq: "key_size q = ?k" "record_size q = internal_rsz s" "kCardinality q = kCardinality p" "index_version q = 1"
      "page_level q = page_level p" "last_index q = int (cnt p) - int m - 2"
    using InternalPage_empty_header [OF refl small(1) page_level_less _ len, of sa p kmax buf] card D(6)
      sint_of_int_small [of "int (cnt p) - int m - 2"] D(11) m by (simp_all add: q_def page_simps)
  define p1 where "p1 = put_u16 LAST_INDEX_OFF (get_u16 LAST_INDEX_OFF p - of_nat (cnt p - m)) p"
  have h1: "key_size p1 = ?k" "record_size p1 = internal_rsz s" "recs n p1 = recs n p" "key_size16 p1 = ?k" for n
    using D(1,4,9) by (simp_all add: p1_def page_simps key_size16_def)
  have li1: "last_index p1 = int m - 1"
    using sint_diff_small [of "get_u16 LAST_INDEX_OFF p" "cnt p" m] D(6,10,11) m(2) by (simp add: p1_def page_simps last_index_def)
  define t where "t = move_records s m (cnt p) p1 q"
  have T: "recs (cnt p - m - 1) t = drop (Suc m) (entries p)" "same_header t q" "index_version t = 1" "last_index t = int (cnt p) - int m - 2"
    using move_records_effect [OF h1(1) hq(1) small(2) h1(2) hq(2) m(1)] hq h1(3) by (simp_all add: t_def)
  have ht: "key_size t = ?k" "record_size t = internal_rsz s" "kCardinality t = kCardinality p" "page_level t = page_level p" "key_size16 t = ?k"
    using T(2) hq small(2) by (simp_all add: same_header_def key_size16_def)
  have em: "entry_of (GetRecordKeyByIndex s m p1) (GetRecordValueByIndex m p1) = entries p ! m"
    using record_bytes [OF h1(4), of m] nth_recs [OF m(1), of p1] h1(2) h1(3) [of "cnt p"] by simp
  have sk: "GetRecordKeyByIndex s m p1 = rec_key s (entries p ! m)" "GetRecordValueByIndex m p1 = rec_child s (entries p ! m)"
    unfolding em [symmetric] by (simp_all add: GetRecordKeyByIndex_def)
  have "GetRecordKeyByIndex_DeepCopy m p = GetRecordKeyByIndex s m p1"
    using D(4,9) h1(2,4) by (simp add: GetRecordKeyByIndex_DeepCopy_def GetRecordKeyByIndex_def rec_ptr_def) (simp add: p1_def page_simps INDEX_DATA_OFF_def)
  note dc = this [unfolded sk]
  let ?sk = "rec_key s (entries p ! m)"
  have lsk: "length ?sk = ?k" using sk(1) [symmetric] by (simp add: GetRecordKeyByIndex_def)
  define q2 where "q2 = put_addr SIBLING_OFF (sibling_ptr p) (SetHighest s (GetHighest s p) (SetLowest s ?sk (put_addr LEFTMOST_OFF (rec_child s (entries p ! m)) t)))"
  define p3 where "p3 = put_addr SIBLING_OFF sa (SetHighest s ?sk p1)"
  have "internal_split s kmin kmax lg pa sa buf p
      = (put_u64 P_VERSION_OFF (index_version p + 1) p3, q2, ?sk, snd (LogInternalPageSplit lg pa p3 sa q2))"
    unfolding internal_split_def Let_def cnt_def [symmetric] m_def [symmetric] q_def [symmetric] p1_def [symmetric] t_def [symmetric] sk dc
    by (simp add: q2_def p3_def LogInternalPageSplit_def Let_def page_simps p1_def)
  then have eq: "p' = put_u64 P_VERSION_OFF (index_version p + 1) p3" "sib = q2" "sk = ?sk" "logs = snd (LogInternalPageSplit lg pa p3 sa q2)"
    using split by simp_all
  show "\<exists>lidx. p' = old_half s sa sk lidx p" by (auto simp: old_half_def eq p3_def p1_def)
  show "logs = split_logs lg pa p' sa sib"
    by (simp add: eq split_logs_def LogInternalPageSplit_def Let_def page_simps) (simp add: p3_def p1_def page_simps)
  have c: "cnt p' = m" "cnt sib = cnt p - m - 1" unfolding cnt_def [of p'] cnt_def [of sib] using m(3) by (simp_all add: eq p3_def q2_def page_simps li1 T)
  have e: "entries p' = take m (entries p)" "entries sib = drop (Suc m) (entries p)"
    unfolding c using take_recs [OF m(2), of p] T(1) ht h1
    by (simp_all add: eq p3_def q2_def page_simps recs_bounds key_size16_def)
  show "sk = rec_key s (entries p ! (cnt p div 2))" by (simp add: eq(3) m_def)
  show "leftmost_ptr sib = rec_child s (entries p ! (cnt p div 2))" by (simp add: eq(2) q2_def page_simps m_def)
  have mi: "int m - 1 < int (kCardinality p)" "int (cnt p) - int m - 2 < int (kCardinality p)" "1 \<le> int (cnt p) - int m"
    using m D(8,10) by linarith+
  have wf': "index_page s (internal_rsz s) p'" "index_page s (internal_rsz s) sib"
    using wf li1 T(4) mi ht unfolding index_page_def by (simp_all add: eq p3_def q2_def page_simps) (simp_all add: p1_def page_simps)
  show "split_pages s (internal_rsz s) p sa sk (take (cnt p div 2) (entries p)) (drop (Suc (cnt p div 2)) (entries p)) p' sib"
    unfolding split_pages_def m_def [symmetric] using wf' e lsk
    by (simp add: eq p3_def q2_def page_simps ht T p1_def)
qed

section \<open>Replaying a split\<close>

text \<open>A record that copies regions of one page.\<close>

definition copy_ops :: "(nat \<times> nat) list \<Rightarrow> mem \<Rightarrow> DecodedOp list" where
  "copy_ops rs p = map (\<lambda>(off, n). UPDATE_BYTES (of_nat off) (of_nat n) (load_bytes off n p)) rs"

definition in_regions :: "(nat \<times> nat) list \<Rightarrow> nat \<Rightarrow> bool" where
  "in_regions rs x \<longleftrightarrow> (\<exists>(off, n) \<in> set rs. off \<le> x \<and> x < off + n)"

definition old_regions :: "mem \<Rightarrow> (nat \<times> nat) list" where
  "old_regions p = [(LAST_INDEX_OFF, 2), (SIBLING_OFF, 8), (INDEX_DATA_OFF, key_size p)]"

definition new_regions :: "mem \<Rightarrow> (nat \<times> nat) list" where
  "new_regions p = [(HEADER_OFF, HEADER_SIZE), (INDEX_DATA_OFF + key_size p, key_size p), (INDEX_DATA_OFF, key_size p)]
     @ (if 0 < cnt p then [(INDEX_DATA_OFF + 2 * key_size p, cnt p * record_size p)] else [])"

lemma split_old_payload_ops: "split_old_payload p = encode_ops (copy_ops (old_regions p) p)"
  by (simp add: split_old_payload_def copy_ops_def old_regions_def encode_ops_def AddOp_def Let_def)

lemma new_page_payload_ops: "new_page_payload p = encode_ops (copy_ops (new_regions p) p)"
  by (simp add: new_page_payload_def copy_ops_def new_regions_def encode_ops_def AddOp_def Let_def cnt_def)

definition regions_fit :: "(nat \<times> nat) list \<Rightarrow> bool" where
  "regions_fit rs \<longleftrightarrow> (\<forall>(off, n) \<in> set rs. off + n \<le> kLeafPageSize)"

lemma apply_copy_ops:
  assumes "regions_fit rs"
  shows "apply_ops base (copy_ops rs p) m (base + x) = (if in_regions rs x then p x else m (base + x))"
  using assms
proof (induction rs arbitrary: m)
  case (Cons r rs)
  obtain off n where r: "r = (off, n)" by (cases r)
  have u: "unat (of_nat off :: u32) = off" "unat (of_nat n :: u32) = n"
    using Cons.prems by (simp_all add: r regions_fit_def unat_of_nat_small kLeafPageSize_def)
  have "apply_ops base (copy_ops (r # rs) p) m = apply_ops base (copy_ops rs p) (store_bytes (base + off) (load_bytes off n p) m)"
    by (simp add: apply_ops_def copy_ops_def r u)
  moreover have "store_bytes (base + off) (load_bytes off n p) m (base + x) = (if off \<le> x \<and> x < off + n then p x else m (base + x))"
    by (auto simp: store_bytes_def)
  ultimately show ?case using Cons by (auto simp: in_regions_def r regions_fit_def)
qed (simp add: in_regions_def apply_ops_def copy_ops_def)

lemma copy_ops_wf: "regions_fit rs \<Longrightarrow> list_all op_wf (copy_ops rs p)"
  by (auto simp: regions_fit_def copy_ops_def list_all_iff unat_of_nat_small kLeafPageSize_def)

lemma replay_copy:
  assumes "regions_fit rs" "page_phys P g = base" "base \<noteq> 0" "page_gaddr h = g" "Redo_Log.page_version h = v"
  shows "fst (ProcessLogRecord P h (encode_ops (copy_ops rs p)) m)"
    "apply_record P (h, encode_ops (copy_ops rs p)) m = store_bytes (base + P_VERSION_OFF) (le_bytes 8 v) (apply_ops base (copy_ops rs p) m)"
  using assms decode_encode_ops [OF copy_ops_wf [OF assms(1), of p]]
  by (simp_all add: apply_record_def ProcessLogRecord_def SetCurrentPageVersion_def Let_def)

text \<open>A copy of a page up to its last record.\<close>

definition content_at :: "nat \<Rightarrow> mem \<Rightarrow> mem \<Rightarrow> bool" where
  "content_at base p m \<longleftrightarrow> (\<forall>x. 8 \<le> x \<and> x < record_ptr (cnt p) p \<longrightarrow> m (base + x) = p x)"

lemma loaded_nth: "load_bytes a n p = bs \<Longrightarrow> a \<le> x \<Longrightarrow> x < a + n \<Longrightarrow> bs ! (x - a) = p x"
  by auto

lemma replay_old_half:
  assumes "page_at base p m" "index_page s rsz p" "p' = old_half s sa sk lidx p"
    "page_phys P g = base" "base \<noteq> 0" "page_gaddr h = g" "Redo_Log.page_version h = index_version p'" "length sk = GetPrimaryKeyLength s"
  shows "fst (ProcessLogRecord P h (split_old_payload p') m)" "page_at base p' (apply_record P (h, split_old_payload p') m)"
proof -
  note D = index_pageD [OF assms(2)]
  have k: "key_size p' = GetPrimaryKeyLength s" "index_version p' = index_version p + 1" using D(1) by (simp_all add: assms(3) old_half_def page_simps)
  have fit: "regions_fit (old_regions p')" using D(1,5) k by (simp add: regions_fit_def old_regions_def page_offs kLeafPageSize_def)
  note R = replay_copy [OF fit assms(4-7), of p' m]
  show "fst (ProcessLogRecord P h (split_old_payload p') m)" using R(1) by (simp add: split_old_payload_ops)
  have same: "p' x = p x" if "\<not> in_regions (old_regions p') x" "x < P_VERSION_OFF \<or> P_VERSION_OFF + 8 \<le> x" for x
    using that k(1) unfolding in_regions_def old_regions_def assms(3) old_half_def
    by (auto simp: put_defs SetHighest_def deepcopy_key_def store_bytes_def page_offs assms(8))
  have ver: "load_bytes P_VERSION_OFF 8 p' = le_bytes 8 (index_version p')"
    unfolding k(2) unfolding assms(3) old_half_def by (simp add: put_u64_def)
  show "page_at base p' (apply_record P (h, split_old_payload p') m)"
    unfolding page_at_def split_old_payload_ops R(2)
  proof (intro allI impI)
    fix x assume x: "8 \<le> x \<and> (x < 12 \<or> 16 \<le> x) \<and> x < kLeafPageSize"
    show "store_bytes (base + P_VERSION_OFF) (le_bytes 8 (index_version p')) (apply_ops base (copy_ops (old_regions p') p') m) (base + x) = p' x"
    proof (cases "P_VERSION_OFF \<le> x \<and> x < P_VERSION_OFF + 8")
      case True
      then show ?thesis using loaded_nth [OF ver, of x] by (simp add: store_bytes_def)
    next
      case False
      then have "store_bytes (base + P_VERSION_OFF) (le_bytes 8 (index_version p')) (apply_ops base (copy_ops (old_regions p') p') m) (base + x)
         = (if in_regions (old_regions p') x then p' x else m (base + x))"
        by (auto simp: store_bytes_def apply_copy_ops [OF fit])
      then show ?thesis using same [of x] False x assms(1) by (auto simp: page_at_def)
    qed
  qed
qed

lemma new_regions_fit:
  assumes "index_page s rsz p"
  shows "regions_fit (new_regions p)"
proof -
  note D = index_pageD [OF assms(1)]
  have "cnt p * rsz \<le> kCardinality p * rsz" using D(11) by (intro mult_le_mono1) simp
  then have "INDEX_DATA_OFF + 2 * key_size p + cnt p * rsz < kLeafPageSize" using D(5) by linarith
  then show ?thesis
    using D(1,4) by (auto simp: regions_fit_def new_regions_def page_offs HEADER_OFF_def HEADER_SIZE_def kLeafPageSize_def)
qed

lemma replay_new_page:
  assumes "index_page s rsz p" "index_version p = 1" "page_phys P g = base" "base \<noteq> 0" "page_gaddr h = g" "Redo_Log.page_version h = 1"
  shows "fst (ProcessLogRecord P h (new_page_payload p) m)" "content_at base p (apply_record P (h, new_page_payload p) m)"
proof -
  note D = index_pageD [OF assms(1)] and fit = new_regions_fit [OF assms(1)]
  note R = replay_copy [OF fit assms(3-6), of p m]
  show "fst (ProcessLogRecord P h (new_page_payload p) m)" using R(1) by (simp add: new_page_payload_ops)
  have "in_regions (new_regions p) x" if "8 \<le> x" "x < record_ptr (cnt p) p" for x
    using that D(1,9) unfolding in_regions_def new_regions_def
    by (auto simp: page_offs HEADER_OFF_def HEADER_SIZE_def rec_ptr_def)
  moreover have "load_bytes P_VERSION_OFF 8 p = le_bytes 8 (1 :: u64)"
    using assms(2) le_bytes_le_word [of "load_bytes P_VERSION_OFF 8 p", where 'a = 64] by (simp add: index_version_def get_u64_def)
  note loaded_nth [OF this]
  ultimately show "content_at base p (apply_record P (h, new_page_payload p) m)"
    unfolding content_at_def new_page_payload_ops R(2)
    by (auto simp: apply_copy_ops [OF fit] store_bytes_def)
qed

text \<open>The records of a split stay inside their pages.\<close>

lemma copy_in_page: "regions_fit rs \<Longrightarrow> list_all op_in_page (copy_ops rs p)"
  by (auto simp: regions_fit_def copy_ops_def list_all_iff unat_of_nat_small kLeafPageSize_def)

lemma copy_record_frame:
  assumes "regions_fit rs" "lo + kLeafPageSize \<le> page_phys P (page_gaddr h) \<or> page_phys P (page_gaddr h) + kLeafPageSize \<le> lo"
    "lo \<le> x" "x < lo + kLeafPageSize"
  shows "apply_record P (h, encode_ops (copy_ops rs p)) m x = m x"
proof (rule apply_record_frame [of _ lo "lo + kLeafPageSize"])
  show "record_clear P lo (lo + kLeafPageSize) (h, encode_ops (copy_ops rs p))"
    using decode_encode_ops [OF copy_ops_wf [OF assms(1), of p]] copy_in_page [OF assms(1), of p] assms(2)
    by (auto simp: record_clear_def Let_def)
qed (use assms in auto)

text \<open>What the replica has after it replayed both records of a split, the page that was split first.\<close>

definition log_header :: "log_append \<Rightarrow> RecordHeader" where
  "log_header l = (case l of (region, gaddr, version, payload) \<Rightarrow> mk_header gaddr version (of_nat (length payload)))"

definition log_payload :: "log_append \<Rightarrow> byte list" where
  "log_payload l = (case l of (region, gaddr, version, payload) \<Rightarrow> payload)"

definition apply_log :: "replay_node \<Rightarrow> log_append list \<Rightarrow> mem \<Rightarrow> mem" where
  "apply_log P ls m = foldl (\<lambda>m l. apply_record P (log_header l, log_payload l) m) m ls"

lemma split_replay:
  assumes "index_page s rsz p" "p' = old_half s sa sk lidx p" "length sk = GetPrimaryKeyLength s"
    and "split_pages s rsz p sa sk left right p' sib" "page_at base p m"
    and "page_phys P pa = base" "base \<noteq> 0" "page_phys P sa = base'" "base' \<noteq> 0"
    and "base + kLeafPageSize \<le> base' \<or> base' + kLeafPageSize \<le> base"
  shows "page_at base p' (apply_log P (split_logs True pa p' sa sib) m)" "content_at base' sib (apply_log P (split_logs True pa p' sa sib) m)"
    "fst (ProcessLogRecord P (log_header (split_logs True pa p' sa sib ! 0)) (split_old_payload p') m)"
    "fst (ProcessLogRecord P (log_header (split_logs True pa p' sa sib ! 1)) (new_page_payload sib) m')"
proof -
  let ?h = "mk_header pa (index_version p') (of_nat (length (split_old_payload p')))"
  let ?h' = "mk_header sa 1 (of_nat (length (new_page_payload sib)))"
  have S: "index_page s rsz sib" "index_version sib = 1" using assms(4) by (simp_all add: split_pages_def)
  have old: "fst (ProcessLogRecord P ?h (split_old_payload p') m)" "page_at base p' (apply_record P (?h, split_old_payload p') m)"
    using replay_old_half [OF assms(5,1,2,6,7) _ _ assms(3), of ?h] by (simp_all add: mk_header_def)
  have new: "fst (ProcessLogRecord P ?h' (new_page_payload sib) m1)" "content_at base' sib (apply_record P (?h', new_page_payload sib) m1)" for m1
    using replay_new_page [OF S assms(8,9), of ?h' m1] by (simp_all add: mk_header_def)
  have keep: "page_at base p' (apply_record P (?h', new_page_payload sib) m1)" if "page_at base p' m1" for m1
    using that assms(8,10) copy_record_frame [OF new_regions_fit [OF S(1)], where lo = base and P = P and h = ?h' and p = sib]
    by (auto simp: page_at_def new_page_payload_ops mk_header_def)
  have eq: "apply_log P (split_logs True pa p' sa sib) m = apply_record P (?h', new_page_payload sib) (apply_record P (?h, split_old_payload p') m)"
    by (simp add: apply_log_def split_logs_def log_header_def log_payload_def)
  show "page_at base p' (apply_log P (split_logs True pa p' sa sib) m)" "content_at base' sib (apply_log P (split_logs True pa p' sa sib) m)"
    unfolding eq using keep [OF old(2)] new(2) by simp_all
  show "fst (ProcessLogRecord P (log_header (split_logs True pa p' sa sib ! 0)) (split_old_payload p') m)"
    "fst (ProcessLogRecord P (log_header (split_logs True pa p' sa sib ! 1)) (new_page_payload sib) m')"
    using old(1) new(1) by (simp_all add: split_logs_def log_header_def)
qed

text \<open>
  C26: Replaying a split.  A replica that holds a copy of the page before the split and applies the two log
  records of the split, the one of the old page and the one of its new sibling, succeeds on both and then holds
  a copy of the shortened page, with its version, and at the sibling's place everything of the sibling up to its
  last record, whatever was there before.  Between the two the pages share out the records of the old one.
\<close>
theorem leaf_split_replay:
  assumes "index_page s (GetRecordTotalSize s) p" "unat lc = kCardinality p" "0 < cnt p"
    and "leaf_split s lc kmin kmax True pa sa buf p = (p', sib, sk, logs)"
    and "page_at base p m" "page_phys P pa = base" "base \<noteq> 0" "page_phys P sa = base'" "base' \<noteq> 0"
    and "base + kLeafPageSize \<le> base' \<or> base' + kLeafPageSize \<le> base"
  shows "(\<exists>old new. logs = [old, new] \<and> fst (ProcessLogRecord P (log_header old) (log_payload old) m)
      \<and> fst (ProcessLogRecord P (log_header new) (log_payload new) (apply_log P [old] m))
      \<and> page_version (log_header old) = index_version p + 1 \<and> page_version (log_header new) = 1)
    \<and> page_at base p' (apply_log P logs m) \<and> content_at base' sib (apply_log P logs m)
    \<and> entries p = entries p' @ entries sib"
proof -
  note E = leaf_split_effect [OF assms(1-4)]
  obtain lidx where p': "p' = old_half s sa sk lidx p" using E(2) by blast
  have "length sk = GetPrimaryKeyLength s"
    using E(1) index_pageD(3,4) [OF assms(1)] assms(3) by (simp add: rec_key_def)
  note R = split_replay [OF assms(1) p' this E(4) assms(5-10)]
  have "index_version p' = index_version p + 1" using E(4) by (simp add: split_pages_def)
  then have "\<exists>old new. logs = [old, new] \<and> fst (ProcessLogRecord P (log_header old) (log_payload old) m)
      \<and> fst (ProcessLogRecord P (log_header new) (log_payload new) (apply_log P [old] m))
      \<and> page_version (log_header old) = index_version p + 1 \<and> page_version (log_header new) = 1"
    using R(3,4) E(3) by (simp add: split_logs_def log_payload_def) (simp add: log_header_def mk_header_def)
  moreover have "page_at base p' (apply_log P logs m) \<and> content_at base' sib (apply_log P logs m)" using R(1,2) E(3) by simp
  moreover have "entries p = entries p' @ entries sib" using E(4) by (simp add: split_pages_def)
  ultimately show ?thesis by blast
qed

theorem leaf_split_replay_witness:
  "\<exists>p p' sib sk logs. leaf_page_store (rec_key demo_schema demo_row) demo_row demo_schema True (GlobalAddress 5 0) demo_leaf = (False, p, snd (snd
       (leaf_page_store (rec_key demo_schema demo_row) demo_row demo_schema True (GlobalAddress 5 0) demo_leaf)))
     \<and> leaf_split demo_schema 200 [] [] True (GlobalAddress 5 0) (GlobalAddress 5 32768) (\<lambda>_. 0) p = (p', sib, sk, logs)
     \<and> content_at 36864 sib (apply_log (lm_node demo_manager) logs (\<lambda>x. p (x - 4096))) \<and> entries p' @ entries sib = [demo_row]"
proof -
  obtain full p log where st: "leaf_page_store (rec_key demo_schema demo_row) demo_row demo_schema True (GlobalAddress 5 0) demo_leaf = (full, p, log)"
    by (metis prod_cases3)
  have room: "cnt demo_leaf < kCardinality demo_leaf" by (simp add: demo_leaf_ok)
  note E = leaf_store_effect [OF demo_leaf_ok(1) demo_row_key demo_sizes(3) room st]
  have en: "entries p = [demo_row]" using E(1) by (simp add: ins_rec_def recs_def demo_leaf_ok)
  have c: "cnt p = 1" using arg_cong [OF en, of length] by simp
  have ip: "index_page demo_schema (GetRecordTotalSize demo_schema) p" "kCardinality p = 200" "\<not> full"
    using E demo_leaf_ok c by (auto simp: sorted_page_def demo_sizes same_header_def)
  obtain p' sib sk logs where sp: "leaf_split demo_schema 200 [] [] True (GlobalAddress 5 0) (GlobalAddress 5 32768) (\<lambda>_. 0) p = (p', sib, sk, logs)"
    by (metis prod_cases4)
  have ph: "page_phys (lm_node demo_manager) (GlobalAddress 5 32768) = 36864"
    by (simp add: page_phys_def demo_manager_def TranslateLogicalToPhysicalAddress_def demo_groups_def)
  have at: "page_at 4096 p (\<lambda>x. p (x - 4096))" by (simp add: page_at_def)
  have "unat (200 :: u16) = kCardinality p" "0 < cnt p" using ip(2) c by simp_all
  from leaf_split_replay [OF ip(1) this sp at demo_page _ ph] en have
    "content_at 36864 sib (apply_log (lm_node demo_manager) logs (\<lambda>x. p (x - 4096)))" "entries p' @ entries sib = [demo_row]"
    by (simp_all add: kLeafPageSize_def)
  then show ?thesis using st sp ip(3) by auto
qed

end
