(* ===== verification/Btree.thy ===== *)
theory Btree
  imports Page_Split
begin

text \<open>
  The B-link tree of \<^verbatim>\<open>btr/Btr.cpp\<close> as one compute node runs it.  The state holds the pages of the
  tree (each latched page access sees the current page), the entry of the tree in the global index table, and the
  members and thread-local variables of \<^verbatim>\<open>Btr\<close>: the cached root pointer, the handle of
  the cached root page (the address it is for), the height, the path stack and the retry counter.
  The null address stands for a null pointer.  An address that holds no page of the tree and a loop that polls forever
  give \<open>None\<close>.
\<close>


section \<open>State\<close>

record Btr =
  index_scheme :: RecordSchema
  leaf_card :: u16
  key_min :: "byte list"
  key_max :: "byte list"
  pages :: "GlobalAddress \<rightharpoonup> mem"
  index_root :: GlobalAddress
  root_lock :: u64
  g_root_ptr :: GlobalAddress
  cached_root :: GlobalAddress
  tree_height :: nat
  path_stack :: "nat \<Rightarrow> GlobalAddress"
  nested_retry_counter :: nat
  num_of_record :: nat
  free_slots :: "(GlobalAddress \<times> mem) list"
  redo :: "log_append list"

text \<open>\<open>free_slots\<close> are the answers of \<^verbatim>\<open>Allocate_Remote_RDMA_Slot\<close>, each with what the local slot holds in
  which the new page is built.\<close>

record SearchResult =
  r_level :: nat
  slibing :: GlobalAddress
  next_level :: GlobalAddress
  find_value :: bool
  r_val :: "byte list"

definition SearchResult_Reset :: "SearchResult \<Rightarrow> SearchResult" where
  "SearchResult_Reset r = r\<lparr>r_level := 0, slibing := GlobalAddress_Null, next_level := GlobalAddress_Null, find_value := False\<rparr>"

abbreviation key_lt :: "Btr \<Rightarrow> byte list \<Rightarrow> byte list \<Rightarrow> bool" where
  "key_lt t k k' \<equiv> key_compare (index_scheme t) k k' < 0"

definition before_operation :: "Btr \<Rightarrow> Btr" where
  "before_operation t = t\<lparr>path_stack := (\<lambda>_. GlobalAddress_Null)\<rparr>"

definition invalidate_root :: "GlobalAddress \<Rightarrow> Btr \<Rightarrow> Btr" where
  "invalidate_root g t = (if g = g_root_ptr t then t\<lparr>g_root_ptr := GlobalAddress_Null\<rparr> else t)"

definition refetch_rootnode :: "Btr \<Rightarrow> Btr option" where
  "refetch_rootnode t =
    (if index_root t = GlobalAddress_Null then None
     else if cached_root t = index_root t then Some (t\<lparr>g_root_ptr := index_root t\<rparr>)
     else case pages t (index_root t) of None \<Rightarrow> None
       | Some p \<Rightarrow> Some (t\<lparr>cached_root := index_root t, g_root_ptr := index_root t, tree_height := page_level p\<rparr>))"

definition get_root_ptr :: "Btr \<Rightarrow> (GlobalAddress \<times> Btr) option" where
  "get_root_ptr t =
    (if g_root_ptr t = GlobalAddress_Null
     then (case refetch_rootnode t of None \<Rightarrow> None | Some t' \<Rightarrow> Some (g_root_ptr t', t'))
     else Some (g_root_ptr t, t))"

text \<open>The lookup is repeated under the latch of the root; one thread finds the same value twice.\<close>

definition get_root_ptr_protected :: "Btr \<Rightarrow> (GlobalAddress \<times> Btr) option" where
  "get_root_ptr_protected t =
    (if g_root_ptr t = GlobalAddress_Null then get_root_ptr t else Some (g_root_ptr t, t))"

text \<open>The constructor on the node that creates the tree: a root leaf in a cleared slot, entered in the index table.\<close>

definition Btr_new :: "RecordSchema \<Rightarrow> byte list \<Rightarrow> byte list \<Rightarrow> (GlobalAddress \<times> mem) list \<Rightarrow> Btr option" where
  "Btr_new s kmin kmax slots = (case slots of [] \<Rightarrow> None
     | (root, buf) # fs \<Rightarrow>
        (let card = of_nat (leaf_cardinality kLeafPageSize s) in
         Some \<lparr>index_scheme = s, leaf_card = card, key_min = kmin, key_max = kmax,
               pages = [root \<mapsto> LeafPage_new root card s 0 kmin kmax (\<lambda>_. 0)],
               index_root = root, root_lock = 0, g_root_ptr = root, cached_root = root, tree_height = 0,
               path_stack = (\<lambda>_. GlobalAddress_Null), nested_retry_counter = 0, num_of_record = 0, free_slots = fs, redo = []\<rparr>))"


section \<open>Search\<close>

datatype 'a visit = Return bool 'a Btr | TurnRight GlobalAddress 'a Btr

text \<open>One page of \<^verbatim>\<open>internal_page_search\<close>; \<open>skip_cache\<close> when the page is read through the handle
  of the root.\<close>

definition invalidate_upper :: "bool \<Rightarrow> bool \<Rightarrow> GlobalAddress \<Rightarrow> nat \<Rightarrow> Btr \<Rightarrow> Btr" where
  "invalidate_upper isroot skip_cache page_addr level t =
    (if isroot \<or> path_stack t (level + 1) = GlobalAddress_Null
     then if skip_cache then t\<lparr>g_root_ptr := GlobalAddress_Null\<rparr> else invalidate_root page_addr t
     else t)"

definition visit_page ::
  "GlobalAddress \<Rightarrow> byte list \<Rightarrow> SearchResult \<Rightarrow> bool \<Rightarrow> bool \<Rightarrow> mem \<Rightarrow> Btr \<Rightarrow> SearchResult visit" where
  "visit_page page_addr k result isroot skip_cache p t =
    (let s = index_scheme t; level = page_level p;
         result = (SearchResult_Reset result)\<lparr>r_level := level\<rparr>;
         t = t\<lparr>path_stack := (path_stack t)(level := page_addr)\<rparr>
     in if level = 0 then
          (if \<not> key_lt t k (GetHighest s p) then Return False result (invalidate_root page_addr t) else Return True result t)
        else if \<not> key_lt t k (GetHighest s p) then
          (let t = invalidate_upper isroot skip_cache page_addr level t in
           if nested_retry_counter t \<le> 4
           then TurnRight (sibling_ptr p) result (t\<lparr>nested_retry_counter := nested_retry_counter t + 1\<rparr>)
           else Return False result (t\<lparr>nested_retry_counter := 0\<rparr>))
        else if key_lt t k (GetLowest s p) then
          Return False result ((invalidate_upper isroot skip_cache page_addr level t)\<lparr>nested_retry_counter := 0\<rparr>)
        else Return True (result\<lparr>next_level := InternalPage_search k s p\<rparr>) (t\<lparr>nested_retry_counter := 0\<rparr>))"

lemma visit_page_TurnRight:
  "visit_page a k r isroot sc p t = TurnRight g r' t' \<Longrightarrow> nested_retry_counter t \<le> 4 \<and> nested_retry_counter t' = nested_retry_counter t + 1"
  by (auto simp: visit_page_def Let_def invalidate_upper_def invalidate_root_def split: if_splits)

text \<open>The root is read through its handle; a handle for another page makes the search fail.\<close>

definition root_handle :: "GlobalAddress \<Rightarrow> Btr \<Rightarrow> (bool \<times> Btr) option" where
  "root_handle page_addr t =
    (case (if cached_root t = GlobalAddress_Null then refetch_rootnode t else Some t) of None \<Rightarrow> None
     | Some t' \<Rightarrow> Some (cached_root t' = page_addr, t'))"

definition retry_measure :: "SearchResult visit \<Rightarrow> nat" where
  "retry_measure v = (case v of Return _ _ _ \<Rightarrow> 0 | TurnRight _ _ t \<Rightarrow> Suc (6 - nested_retry_counter t))"

text \<open>The nested calls on the siblings to the right; the retry counter bounds them.\<close>

function turn_right :: "byte list \<Rightarrow> SearchResult visit \<Rightarrow> (bool \<times> SearchResult \<times> Btr) option" where
  "turn_right k (Return b r t) = Some (b, r, t)"
| "turn_right k (TurnRight g r t) =
    (case pages t g of None \<Rightarrow> None
     | Some p \<Rightarrow> turn_right k (visit_page g k r False False p t))"
  by pat_completeness auto

termination
proof (relation "measure (\<lambda>(k, v). retry_measure v)")
  fix k g r t p
  show "((k, visit_page g k r False False p t), (k, TurnRight g r t)) \<in> measure (\<lambda>(k, v). retry_measure v)"
    using visit_page_TurnRight [of g k r False False p t]
    by (cases "visit_page g k r False False p t") (auto simp: retry_measure_def)
qed simp

text \<open>The Boolean of the result, the result, the caller's level afterwards and the state.\<close>

definition Btr_internal_page_search ::
  "GlobalAddress \<Rightarrow> byte list \<Rightarrow> SearchResult \<Rightarrow> int \<Rightarrow> bool \<Rightarrow> Btr \<Rightarrow> (bool \<times> SearchResult \<times> int \<times> Btr) option" where
  "Btr_internal_page_search page_addr k result level isroot t =
    (case (if isroot then root_handle page_addr t else Some (False, t)) of None \<Rightarrow> None
     | Some (skip_cache, t) \<Rightarrow>
        if isroot \<and> \<not> skip_cache then Some (False, result, level, t)
        else case pages t page_addr of None \<Rightarrow> None
          | Some p \<Rightarrow> (case turn_right k (visit_page page_addr k result isroot skip_cache p t) of None \<Rightarrow> None
              | Some (b, r, t) \<Rightarrow> Some (b, r, int (r_level r), t)))"

text \<open>\<^verbatim>\<open>leaf_page_search\<close>.\<close>

definition Btr_leaf_page_search :: "GlobalAddress \<Rightarrow> byte list \<Rightarrow> SearchResult \<Rightarrow> Btr \<Rightarrow> (bool \<times> SearchResult \<times> Btr) option" where
  "Btr_leaf_page_search page_addr k result t =
    (case pages t page_addr of None \<Rightarrow> None
     | Some p \<Rightarrow>
        (let s = index_scheme t; result = (SearchResult_Reset result)\<lparr>r_level := page_level p\<rparr>;
             t = t\<lparr>path_stack := (path_stack t)(page_level p := page_addr)\<rparr>;
             t_inv = (if path_stack t 1 = GlobalAddress_Null then invalidate_root page_addr t else t)
         in Some (if \<not> key_lt t k (GetHighest s p) then
                    if nested_retry_counter t \<le> 4
                    then (True, result\<lparr>slibing := sibling_ptr p\<rparr>, t_inv\<lparr>nested_retry_counter := nested_retry_counter t + 1\<rparr>)
                    else (False, result, t_inv\<lparr>nested_retry_counter := 0\<rparr>)
                  else if key_lt t k (GetLowest s p) then (False, result, t_inv\<lparr>nested_retry_counter := 0\<rparr>)
                  else case leaf_page_search k s p of
                      None \<Rightarrow> (True, result, t\<lparr>nested_retry_counter := 0\<rparr>)
                    | Some v \<Rightarrow> (True, result\<lparr>find_value := True, r_val := v\<rparr>, t\<lparr>nested_retry_counter := 0\<rparr>))))"

text \<open>The loop of \<^verbatim>\<open>search\<close>; \<open>leaf\<close> tells the label \<^verbatim>\<open>leaf_next\<close> from \<^verbatim>\<open>next\<close>.\<close>

definition next_page :: "GlobalAddress \<Rightarrow> SearchResult \<Rightarrow> int \<Rightarrow> GlobalAddress \<times> int" where
  "next_page p r level =
    (if slibing r \<noteq> GlobalAddress_Null then (slibing r, level)
     else if next_level r \<noteq> GlobalAddress_Null then (next_level r, int (r_level r) - 1)
     else (p, level))"

partial_function (option) search_loop ::
  "byte list \<Rightarrow> bool \<Rightarrow> GlobalAddress \<Rightarrow> SearchResult \<Rightarrow> int \<Rightarrow> bool \<Rightarrow> Btr \<Rightarrow> (byte list option \<times> Btr) option" where
  "search_loop k leaf p result level isroot t =
    (if leaf then
       (case Btr_leaf_page_search p k result t of None \<Rightarrow> None
        | Some (b, r, t) \<Rightarrow>
            if b then
              if find_value r then Some (Some (r_val r), t)
              else if slibing r \<noteq> GlobalAddress_Null then search_loop k True (slibing r) r level isroot t
              else Some (None, t)
            else if path_stack t 1 \<noteq> GlobalAddress_Null then search_loop k False (path_stack t 1) r 1 isroot t
            else (case get_root_ptr_protected t of None \<Rightarrow> None | Some (p, t) \<Rightarrow> search_loop k False p r (- 1) isroot t))
     else
       (case Btr_internal_page_search p k result level isroot t of None \<Rightarrow> None
        | Some (b, r, level, t) \<Rightarrow>
            if b then
              (case next_page p r level of (p, level) \<Rightarrow> search_loop k (\<not> (level \<noteq> 0 \<and> level \<noteq> - 1)) p r level False t)
            else if isroot \<or> path_stack t (r_level r + 1) = GlobalAddress_Null
            then (case get_root_ptr_protected t of None \<Rightarrow> None | Some (p, t) \<Rightarrow> search_loop k False p r (- 1) isroot t)
            else search_loop k False (path_stack t (r_level r + 1)) r (int (r_level r) + 1) isroot t))"

definition SearchResult_0 :: SearchResult where
  "SearchResult_0 = \<lparr>r_level = 0, slibing = GlobalAddress_Null, next_level = GlobalAddress_Null, find_value = False, r_val = []\<rparr>"

definition Btr_search :: "byte list \<Rightarrow> Btr \<Rightarrow> (byte list option \<times> Btr) option" where
  "Btr_search k t =
    (case get_root_ptr_protected (before_operation t) of None \<Rightarrow> None
     | Some (root, t) \<Rightarrow> search_loop k False root SearchResult_0 (- 1) True t)"

section \<open>Insertion\<close>

text \<open>A run of an insertion can be stuck (a page that is not there, a lock that nobody releases, no free slot),
  throw, or use up its fuel.\<close>

datatype btr_error = Stuck | Thrown index_error | NoFuel

fun btr_bind :: "btr_error + 'a \<Rightarrow> ('a \<Rightarrow> btr_error + 'b) \<Rightarrow> btr_error + 'b" where
  "btr_bind (Inl e) f = Inl e"
| "btr_bind (Inr x) f = f x"

definition found :: "'a option \<Rightarrow> btr_error + 'a" where
  "found x = (case x of None \<Rightarrow> Inl Stuck | Some y \<Rightarrow> Inr y)"

text \<open>What \<^verbatim>\<open>leaf_page_store\<close> does to a leaf that covers the key, under its exclusive latch: the store and,
  when the page is full, the split.  The result is the separator and the address of the sibling.\<close>

definition store_leaf ::
  "GlobalAddress \<Rightarrow> byte list \<Rightarrow> byte list \<Rightarrow> bool \<Rightarrow> mem \<Rightarrow> Btr \<Rightarrow> btr_error + (byte list \<times> GlobalAddress) option \<times> Btr" where
  "store_leaf page_addr k v logger p t =
    (let s = index_scheme t; (need_split, p1, log) = leaf_page_store k v s logger page_addr p;
         t = t\<lparr>num_of_record := num_of_record t + (if last_index p < last_index p1 then 1 else 0),
               redo := redo t @ (case log of None \<Rightarrow> [] | Some l \<Rightarrow> [l])\<rparr>
     in if \<not> need_split then Inr (None, t\<lparr>pages := (pages t)(page_addr \<mapsto> p1)\<rparr>)
        else case free_slots t of [] \<Rightarrow> Inl Stuck
          | (sibling_addr, buf) # fs \<Rightarrow>
             (let (p2, sib, split_key, logs) = leaf_split s (leaf_card t) (key_min t) (key_max t) logger page_addr sibling_addr buf p1
              in Inr (Some (split_key, sibling_addr),
                   t\<lparr>pages := (pages t)(sibling_addr \<mapsto> sib, page_addr \<mapsto> p2), free_slots := fs, redo := redo t @ logs\<rparr>)))"

text \<open>The same for an internal page that covers the separator.\<close>

definition store_internal ::
  "GlobalAddress \<Rightarrow> byte list \<Rightarrow> GlobalAddress \<Rightarrow> bool \<Rightarrow> mem \<Rightarrow> Btr \<Rightarrow> btr_error + (byte list \<times> GlobalAddress) option \<times> Btr" where
  "store_internal page_addr k v logger p t =
    (let s = index_scheme t in
     case InternalPage_store page_addr k v s logger p of Inl e \<Rightarrow> Inl (Thrown e)
     | Inr (need_split, p1, log) \<Rightarrow>
        (let t = t\<lparr>redo := redo t @ (case log of None \<Rightarrow> [] | Some l \<Rightarrow> [l])\<rparr> in
         if \<not> need_split then Inr (None, t\<lparr>pages := (pages t)(page_addr \<mapsto> p1)\<rparr>)
         else case free_slots t of [] \<Rightarrow> Inl Stuck
           | (sibling_addr, buf) # fs \<Rightarrow>
              (let (p2, sib, split_key, logs) = internal_split s (key_min t) (key_max t) logger page_addr sibling_addr buf p1
               in Inr (Some (split_key, sibling_addr),
                    t\<lparr>pages := (pages t)(sibling_addr \<mapsto> sib, page_addr \<mapsto> p2), free_slots := fs, redo := redo t @ logs\<rparr>))))"

text \<open>The compare-and-swap on the index table succeeds when the entry still is the old root.\<close>

definition update_new_root ::
  "GlobalAddress \<Rightarrow> byte list \<Rightarrow> GlobalAddress \<Rightarrow> nat \<Rightarrow> GlobalAddress \<Rightarrow> bool \<Rightarrow> Btr \<Rightarrow> btr_error + Btr" where
  "update_new_root left k right level old_root logger t =
    (case free_slots t of [] \<Rightarrow> Inl Stuck
     | (new_root_addr, buf) # fs \<Rightarrow>
        (let s = index_scheme t;
             new_root = InternalPage_new left k right new_root_addr (of_nat (internal_cardinality kInternalPageSize s)) s level
                          (key_min t) (key_max t) (\<lambda>_. 0);
             (new_root, logs) = LogNewRootPage logger new_root_addr new_root
         in Inr (t\<lparr>cached_root := new_root_addr, g_root_ptr := new_root_addr, tree_height := level,
                   redo := redo t @ logs, free_slots := fs, pages := (pages t)(new_root_addr \<mapsto> new_root),
                   index_root := (if index_root t = old_root then new_root_addr else index_root t)\<rparr>)))"

text \<open>The global latch of the root is a compare-and-swap on a word of the lock table.\<close>

definition lock_root :: "Btr \<Rightarrow> btr_error + Btr" where
  "lock_root t = (if root_lock t = 0 then Inr (t\<lparr>root_lock := 1\<rparr>) else Inl Stuck)"

definition unlock_root :: "Btr \<Rightarrow> Btr" where
  "unlock_root t = t\<lparr>root_lock := (if root_lock t = 1 then 0 else root_lock t)\<rparr>"

text \<open>The part under the latch of the root: a new root if the page that was split still is the root.  The Boolean
  tells whether there is one.\<close>

definition split_root :: "nat \<Rightarrow> byte list \<Rightarrow> GlobalAddress \<Rightarrow> bool \<Rightarrow> Btr \<Rightarrow> btr_error + bool \<times> Btr" where
  "split_root level split_key sibling_addr logger t =
    btr_bind (found (get_root_ptr t)) (\<lambda>(p, t).
      if path_stack t level = p \<and> tree_height t = level then
        btr_bind (lock_root t) (\<lambda>t.
        btr_bind (found (refetch_rootnode t)) (\<lambda>t.
          if path_stack t level = g_root_ptr t \<and> tree_height t = level then
            btr_bind (update_new_root (path_stack t level) split_key sibling_addr (level + 1) (path_stack t level) logger t)
              (\<lambda>t. Inr (True, unlock_root t))
          else Inr (False, unlock_root t)))
      else Inr (False, t))"

text \<open>Where a search for a page at \<open>target_level\<close> continues after a page has been searched.\<close>

datatype descend = Goto GlobalAddress int | Here GlobalAddress int | FromRoot

definition descend_to :: "nat \<Rightarrow> GlobalAddress \<Rightarrow> SearchResult \<Rightarrow> int \<Rightarrow> descend" where
  "descend_to target_level p r level =
    (if int target_level < level then
       (case next_page p r level of (p, level) \<Rightarrow> if level \<noteq> int target_level then Goto p level else Here p level)
     else if level < int target_level then FromRoot
     else Here p level)"

text \<open>
  \<^verbatim>\<open>internal_page_store\<close>, the insertion of a separator after a split (the end of both stores, with the loop
  \<^verbatim>\<open>re_insert\<close>), and \<^verbatim>\<open>insert_internal\<close> call each other.  \<open>search_key\<close> is the key by which
  the upper level is searched when the path is stale.
\<close>

function Btr_internal_page_store ::
  "nat \<Rightarrow> GlobalAddress \<Rightarrow> byte list \<Rightarrow> GlobalAddress \<Rightarrow> nat \<Rightarrow> bool \<Rightarrow> Btr \<Rightarrow> btr_error + bool \<times> Btr"
and after_split :: "nat \<Rightarrow> nat \<Rightarrow> byte list \<Rightarrow> GlobalAddress \<Rightarrow> byte list \<Rightarrow> bool \<Rightarrow> Btr \<Rightarrow> btr_error + bool \<times> Btr"
and re_insert :: "nat \<Rightarrow> GlobalAddress \<Rightarrow> nat \<Rightarrow> byte list \<Rightarrow> GlobalAddress \<Rightarrow> byte list \<Rightarrow> SearchResult \<Rightarrow> bool \<Rightarrow> Btr \<Rightarrow> btr_error + bool \<times> Btr"
and insert_internal_loop ::
  "nat \<Rightarrow> GlobalAddress \<Rightarrow> byte list \<Rightarrow> GlobalAddress \<Rightarrow> nat \<Rightarrow> SearchResult \<Rightarrow> int \<Rightarrow> bool \<Rightarrow> bool \<Rightarrow> Btr \<Rightarrow> btr_error + bool \<times> Btr"
where
  "Btr_internal_page_store 0 page_addr k v level logger t = Inl NoFuel"
| "Btr_internal_page_store (Suc n) page_addr k v level logger t =
    btr_bind (found (pages t page_addr)) (\<lambda>p.
      let s = index_scheme t; t = t\<lparr>path_stack := (path_stack t)(page_level p := page_addr)\<rparr>;
          t_inv = (if level = tree_height t \<or> path_stack t (level + 1) = GlobalAddress_Null then invalidate_root page_addr t else t)
      in if \<not> key_lt t k (GetHighest s p) then
           if nested_retry_counter t \<le> 4
           then Btr_internal_page_store n (sibling_ptr p) k v level logger (t_inv\<lparr>nested_retry_counter := nested_retry_counter t + 1\<rparr>)
           else Inr (False, t_inv\<lparr>nested_retry_counter := 0\<rparr>)
         else if key_lt t k (GetLowest s p) then Inr (False, t_inv\<lparr>nested_retry_counter := 0\<rparr>)
         else btr_bind (store_internal page_addr k v logger p (t\<lparr>nested_retry_counter := 0\<rparr>)) (\<lambda>(split, t).
           case split of None \<Rightarrow> Inr (True, t)
           | Some (split_key, sibling_addr) \<Rightarrow> after_split n level split_key sibling_addr split_key logger t))"
| "after_split 0 level split_key sibling_addr search_key logger t = Inl NoFuel"
| "after_split (Suc n) level split_key sibling_addr search_key logger t =
    (let p = path_stack t (level + 1) in
     if p = GlobalAddress_Null then
       btr_bind (split_root level split_key sibling_addr logger t) (\<lambda>(done, t).
         if done then Inr (True, t)
         else btr_bind (found (get_root_ptr_protected t)) (\<lambda>(root, t).
           insert_internal_loop n root split_key sibling_addr (level + 1) SearchResult_0 (- 1) True logger t))
     else re_insert n p (level + 1) split_key sibling_addr search_key SearchResult_0 logger t)"
| "re_insert 0 p level split_key sibling_addr search_key r logger t = Inl NoFuel"
| "re_insert (Suc n) p level split_key sibling_addr search_key r logger t =
    btr_bind (Btr_internal_page_store n p split_key sibling_addr level logger t) (\<lambda>(stored, t).
      if stored then Inr (True, t)
      else let p = path_stack t (level + 1) in
        if p = GlobalAddress_Null then
          btr_bind (found (get_root_ptr_protected t)) (\<lambda>(root, t).
            insert_internal_loop n root split_key sibling_addr level SearchResult_0 (- 1) True False t)
        else btr_bind (found (Btr_internal_page_search p search_key r (int level + 1) False t)) (\<lambda>(b, r, _, t).
          if \<not> b then btr_bind (found (get_root_ptr_protected t)) (\<lambda>(root, t).
            insert_internal_loop n root split_key sibling_addr level SearchResult_0 (- 1) True logger t)
          else if next_level r \<noteq> GlobalAddress_Null then re_insert n (next_level r) level split_key sibling_addr search_key r logger t
          else Inr (True, t)))"
| "insert_internal_loop 0 p k v target_level r level isroot logger t = Inl NoFuel"
| "insert_internal_loop (Suc n) p k v target_level r level isroot logger t =
    btr_bind (found (Btr_internal_page_search p k r level isroot t)) (\<lambda>(b, r, level, t).
      if \<not> b then
        if isroot \<or> path_stack t (r_level r + 1) = GlobalAddress_Null
        then btr_bind (found (get_root_ptr_protected t)) (\<lambda>(p, t). insert_internal_loop n p k v target_level r (- 1) isroot logger t)
        else insert_internal_loop n (path_stack t (r_level r + 1)) k v target_level r (int (r_level r) + 1) isroot logger t
      else case descend_to target_level p r level of
        Goto p level \<Rightarrow> insert_internal_loop n p k v target_level r level False logger t
      | FromRoot \<Rightarrow> btr_bind (found (get_root_ptr_protected (t\<lparr>g_root_ptr := GlobalAddress_Null\<rparr>))) (\<lambda>(p, t).
          insert_internal_loop n p k v target_level r (- 1) False logger t)
      | Here p level \<Rightarrow>
          btr_bind (Btr_internal_page_store n p k v (nat level) logger t) (\<lambda>(stored, t).
            if stored then Inr (True, t)
            else if path_stack t (nat level + 1) \<noteq> GlobalAddress_Null
            then insert_internal_loop n (path_stack t (nat level + 1)) k v target_level r (level + 1) False logger t
            else btr_bind (found (get_root_ptr_protected t)) (\<lambda>(p, t). insert_internal_loop n p k v target_level r (- 1) False logger t)))"

  by pat_completeness auto

termination
  by (relation "measure (case_sum (case_sum fst fst) (case_sum fst fst))") auto

definition Btr_insert_internal :: "nat \<Rightarrow> byte list \<Rightarrow> GlobalAddress \<Rightarrow> nat \<Rightarrow> bool \<Rightarrow> Btr \<Rightarrow> btr_error + bool \<times> Btr" where
  "Btr_insert_internal n k v target_level logger t =
    btr_bind (found (get_root_ptr_protected t)) (\<lambda>(root, t).
      insert_internal_loop n root k v target_level SearchResult_0 (- 1) True logger t)"

text \<open>\<^verbatim>\<open>leaf_page_store\<close>.\<close>

fun Btr_leaf_page_store :: "nat \<Rightarrow> GlobalAddress \<Rightarrow> byte list \<Rightarrow> byte list \<Rightarrow> bool \<Rightarrow> Btr \<Rightarrow> btr_error + bool \<times> Btr" where
  "Btr_leaf_page_store 0 page_addr k v logger t = Inl NoFuel"
| "Btr_leaf_page_store (Suc n) page_addr k v logger t =
    btr_bind (found (pages t page_addr)) (\<lambda>p.
      let s = index_scheme t; t = t\<lparr>path_stack := (path_stack t)(page_level p := page_addr)\<rparr>;
          t_inv = (if path_stack t 1 = GlobalAddress_Null then invalidate_root page_addr t else t)
      in if \<not> key_lt t k (GetHighest s p) \<and> sibling_ptr p \<noteq> GlobalAddress_Null then
           if nested_retry_counter t \<le> 4
           then Btr_leaf_page_store n (sibling_ptr p) k v logger (t_inv\<lparr>nested_retry_counter := nested_retry_counter t + 1\<rparr>)
           else Inr (False, t_inv\<lparr>nested_retry_counter := 0\<rparr>)
         else if key_lt t k (GetLowest s p) then Inr (False, t_inv\<lparr>nested_retry_counter := 0\<rparr>)
         else btr_bind (store_leaf page_addr k v logger p (t\<lparr>nested_retry_counter := 0\<rparr>)) (\<lambda>(split, t).
           case split of None \<Rightarrow> Inr (True, t)
           | Some (split_key, sibling_addr) \<Rightarrow> after_split n 0 split_key sibling_addr k logger t))"

fun insert_loop ::
  "nat \<Rightarrow> GlobalAddress \<Rightarrow> GlobalAddress \<Rightarrow> byte list \<Rightarrow> byte list \<Rightarrow> SearchResult \<Rightarrow> int \<Rightarrow> bool \<Rightarrow> bool \<Rightarrow> Btr \<Rightarrow> btr_error + Btr" where
  "insert_loop 0 root p k v r level isroot logger t = Inl NoFuel"
| "insert_loop (Suc n) root p k v r level isroot logger t =
    btr_bind (found (Btr_internal_page_search p k r level isroot t)) (\<lambda>(b, r, level, t).
      if \<not> b then
        if isroot \<or> path_stack t (r_level r + 1) = GlobalAddress_Null
        then btr_bind (found (get_root_ptr_protected t)) (\<lambda>(p, t). insert_loop n root p k v r (- 1) True logger t)
        else let p = path_stack t (r_level r + 1) in insert_loop n root p k v r (int (r_level r) + 1) (isroot \<or> p = root) logger t
      else case next_page p r level of (p, level) \<Rightarrow>
        if level \<noteq> 0 then insert_loop n root p k v r level False logger t
        else btr_bind (Btr_leaf_page_store n p k v logger t) (\<lambda>(stored, t).
          if stored then Inr t
          else if path_stack t 1 \<noteq> GlobalAddress_Null
          then let p = path_stack t 1 in insert_loop n root p k v r 1 (p = root) logger t
          else btr_bind (found (get_root_ptr_protected t)) (\<lambda>(p, t). insert_loop n root p k v r (- 1) True logger t)))"

definition Btr_insert :: "nat \<Rightarrow> byte list \<Rightarrow> byte list \<Rightarrow> bool \<Rightarrow> Btr \<Rightarrow> btr_error + Btr" where
  "Btr_insert n k v logger t =
    btr_bind (found (get_root_ptr_protected (before_operation t))) (\<lambda>(root, t).
      insert_loop n root root k v SearchResult_0 (- 1) True logger t)"

end
