(* ===== verification/Blink.thy ===== *)
theory Blink
  imports Btree
begin

text \<open>
  The B-link invariant of the tree in \<^verbatim>\<open>btr/Btr.cpp\<close> and what its operations do to the set of
  stored records.  Pages of one level cover disjoint key ranges; the sibling of a page starts where the page
  ends; the child for a separator starts at the separator.  A page that was split and whose
  separator is not yet in the level above violates none of this, so the invariant holds between any two latched
  page accesses of concurrent threads.
\<close>


section \<open>The invariant\<close>

definition in_page :: "RecordSchema \<Rightarrow> byte list \<Rightarrow> mem \<Rightarrow> bool" where
  "in_page s k p \<longleftrightarrow> 0 \<le> key_compare s k (GetLowest s p) \<and> key_compare s k (GetHighest s p) < 0"

text \<open>The children of an internal page with the keys at which they start.\<close>

definition children :: "RecordSchema \<Rightarrow> mem \<Rightarrow> (byte list \<times> GlobalAddress) set" where
  "children s p = insert (GetLowest s p, leftmost_ptr p) ((\<lambda>e. (rec_key s e, rec_child s e)) ` set (entries p))"

definition rsz :: "RecordSchema \<Rightarrow> mem \<Rightarrow> nat" where
  "rsz s p = (if page_level p = 0 then GetRecordTotalSize s else internal_rsz s)"

definition page_ok :: "Btr \<Rightarrow> mem \<Rightarrow> bool" where
  "page_ok t p \<longleftrightarrow> (let s = index_scheme t in
     sorted_page s (rsz s p) p \<and> cnt p < kCardinality p
     \<and> (if page_level p = 0 then kCardinality p = unat (leaf_card t)
        else kCardinality p = internal_cardinality kInternalPageSize s \<and> 0 < cnt p)
     \<and> key_ok s (GetLowest s p) \<and> key_ok s (GetHighest s p) \<and> key_compare s (GetLowest s p) (GetHighest s p) < 0
     \<and> key_compare s (key_min t) (GetLowest s p) \<le> 0 \<and> key_compare s (GetHighest s p) (key_max t) \<le> 0
     \<and> (\<forall>e \<in> set (entries p). in_page s (rec_key s e) p))"

definition node_at :: "Btr \<Rightarrow> GlobalAddress \<Rightarrow> nat \<Rightarrow> byte list \<Rightarrow> bool" where
  "node_at t a lv k \<longleftrightarrow> (\<exists>q. pages t a = Some q \<and> page_level q = lv \<and> GetLowest (index_scheme t) q = k)"

text \<open>Sizes that the constructor of the tree computes, and the sentinels.\<close>

definition conf_ok :: "Btr \<Rightarrow> bool" where
  "conf_ok t \<longleftrightarrow> 2 \<le> unat (leaf_card t) \<and> 3 \<le> internal_cardinality kInternalPageSize (index_scheme t)
     \<and> internal_cardinality kInternalPageSize (index_scheme t) < 2 ^ 15 - 1
     \<and> key_ok (index_scheme t) (key_min t) \<and> key_ok (index_scheme t) (key_max t)
     \<and> length (key_min t) = GetPrimaryKeyLength (index_scheme t) \<and> length (key_max t) = GetPrimaryKeyLength (index_scheme t)
     \<and> 0 < GetPrimaryKeyLength (index_scheme t)
     \<and> INDEX_DATA_OFF + 2 * GetPrimaryKeyLength (index_scheme t)
         + internal_cardinality kInternalPageSize (index_scheme t) * internal_rsz (index_scheme t) < kLeafPageSize"

definition slots_ok :: "Btr \<Rightarrow> bool" where
  "slots_ok t \<longleftrightarrow> distinct (map fst (free_slots t)) \<and> (\<forall>a \<in> fst ` set (free_slots t). a \<noteq> GlobalAddress_Null \<and> pages t a = None)"

definition blink :: "Btr \<Rightarrow> bool" where
  "blink t \<longleftrightarrow> (let s = index_scheme t in
     conf_ok t \<and> slots_ok t \<and> pages t GlobalAddress_Null = None
     \<and> (\<forall>a p. pages t a = Some p \<longrightarrow> page_ok t p
          \<and> (if sibling_ptr p = GlobalAddress_Null then GetHighest s p = key_max t
             else node_at t (sibling_ptr p) (page_level p) (GetHighest s p))
          \<and> (0 < page_level p \<longrightarrow> (\<forall>(k, c) \<in> children s p. node_at t c (page_level p - 1) k)))
     \<and> (\<forall>a b p q. pages t a = Some p \<longrightarrow> pages t b = Some q \<longrightarrow> a \<noteq> b \<longrightarrow> page_level p = page_level q
          \<longrightarrow> key_compare s (GetHighest s p) (GetLowest s q) \<le> 0 \<or> key_compare s (GetHighest s q) (GetLowest s p) \<le> 0)
     \<and> (\<exists>r. pages t (index_root t) = Some r \<and> GetLowest s r = key_min t \<and> (\<forall>a p. pages t a = Some p \<longrightarrow> page_level p \<le> page_level r)))"

text \<open>The contents of the tree.\<close>

definition stored :: "Btr \<Rightarrow> byte list set" where
  "stored t = {e. \<exists>a p. pages t a = Some p \<and> page_level p = 0 \<and> e \<in> set (entries p)}"

lemma blinkD:
  assumes "blink t" "pages t a = Some p"
  shows "page_ok t p" "0 < page_level p \<Longrightarrow> (k, c) \<in> children (index_scheme t) p \<Longrightarrow> node_at t c (page_level p - 1) k"
    "sibling_ptr p \<noteq> GlobalAddress_Null \<Longrightarrow> node_at t (sibling_ptr p) (page_level p) (GetHighest (index_scheme t) p)"
    "sibling_ptr p = GlobalAddress_Null \<Longrightarrow> GetHighest (index_scheme t) p = key_max t" "a \<noteq> GlobalAddress_Null"
  using assms unfolding blink_def Let_def by (blast, blast, metis, metis, auto)

lemma page_okD:
  assumes "page_ok t p"
  shows "sorted_page (index_scheme t) (rsz (index_scheme t) p) p" "cnt p < kCardinality p"
    "key_ok (index_scheme t) (GetLowest (index_scheme t) p)" "key_ok (index_scheme t) (GetHighest (index_scheme t) p)"
    "key_compare (index_scheme t) (GetLowest (index_scheme t) p) (GetHighest (index_scheme t) p) < 0"
    "e \<in> set (entries p) \<Longrightarrow> in_page (index_scheme t) (rec_key (index_scheme t) e) p"
    "e \<in> set (entries p) \<Longrightarrow> key_ok (index_scheme t) (rec_key (index_scheme t) e)"
    "0 < page_level p \<Longrightarrow> 0 < cnt p" "page_level p = 0 \<Longrightarrow> kCardinality p = unat (leaf_card t)"
    "0 < page_level p \<Longrightarrow> kCardinality p = internal_cardinality kInternalPageSize (index_scheme t)"
    "key_compare (index_scheme t) (key_min t) (GetLowest (index_scheme t) p) \<le> 0"
    "key_compare (index_scheme t) (GetHighest (index_scheme t) p) (key_max t) \<le> 0"
  using assms sorted_recs_ok [of "index_scheme t" "entries p" e] unfolding page_ok_def Let_def
  by (auto simp: sorted_page_def split: if_splits)

text \<open>At most one page of a level covers a key.\<close>

lemma cover_unique:
  assumes "blink t" "pages t a = Some p" "pages t b = Some q" "page_level p = page_level q"
    "key_ok (index_scheme t) k" "in_page (index_scheme t) k p" "in_page (index_scheme t) k q"
  shows "a = b"
proof (rule ccontr)
  assume "a \<noteq> b"
  let ?s = "index_scheme t"
  note P = page_okD [OF blinkD(1) [OF assms(1,2)]] and Q = page_okD [OF blinkD(1) [OF assms(1,3)]]
  have "key_compare ?s (GetHighest ?s p) (GetLowest ?s q) \<le> 0 \<or> key_compare ?s (GetHighest ?s q) (GetLowest ?s p) \<le> 0"
    using assms(1-4) \<open>a \<noteq> b\<close> unfolding blink_def Let_def by blast
  then show False
    using key.less_le_trans_key [OF assms(5) P(4) Q(3)] key.less_le_trans_key [OF assms(5) Q(4) P(3)] assms(6,7)
    by (auto simp: in_page_def)
qed

section \<open>Changing pages\<close>

definition same_conf :: "Btr \<Rightarrow> Btr \<Rightarrow> bool" where
  "same_conf t t' \<longleftrightarrow> index_scheme t' = index_scheme t \<and> leaf_card t' = leaf_card t \<and> key_min t' = key_min t \<and> key_max t' = key_max t"

text \<open>Links of a page: its sibling and its children.\<close>

definition links_ok :: "Btr \<Rightarrow> mem \<Rightarrow> bool" where
  "links_ok t p \<longleftrightarrow>
     (if sibling_ptr p = GlobalAddress_Null then GetHighest (index_scheme t) p = key_max t
      else node_at t (sibling_ptr p) (page_level p) (GetHighest (index_scheme t) p))
     \<and> (0 < page_level p \<longrightarrow> (\<forall>(k, c) \<in> children (index_scheme t) p. node_at t c (page_level p - 1) k))"

definition apart :: "RecordSchema \<Rightarrow> mem \<Rightarrow> mem \<Rightarrow> bool" where
  "apart s p q \<longleftrightarrow> key_compare s (GetHighest s p) (GetLowest s q) \<le> 0 \<or> key_compare s (GetHighest s q) (GetLowest s p) \<le> 0"

definition root_ok :: "Btr \<Rightarrow> bool" where
  "root_ok t \<longleftrightarrow> (\<exists>r. pages t (index_root t) = Some r \<and> GetLowest (index_scheme t) r = key_min t
     \<and> (\<forall>a p. pages t a = Some p \<longrightarrow> page_level p \<le> page_level r))"

lemma blink_iff:
  "blink t \<longleftrightarrow> conf_ok t \<and> slots_ok t \<and> pages t GlobalAddress_Null = None
     \<and> (\<forall>a p. pages t a = Some p \<longrightarrow> page_ok t p \<and> links_ok t p)
     \<and> (\<forall>a b p q. pages t a = Some p \<longrightarrow> pages t b = Some q \<longrightarrow> a \<noteq> b \<longrightarrow> page_level p = page_level q \<longrightarrow> apart (index_scheme t) p q)
     \<and> root_ok t"
  unfolding blink_def Let_def links_ok_def apart_def root_ok_def by blast

lemma apart_sym: "apart s p q = apart s q p"
  by (auto simp: apart_def)

lemma page_ok_conf: "same_conf t t' \<Longrightarrow> page_ok t' p = page_ok t p"
  by (simp add: same_conf_def page_ok_def)

lemma conf_ok_conf: "same_conf t t' \<Longrightarrow> conf_ok t' = conf_ok t"
  by (simp add: same_conf_def conf_ok_def)

lemma links_ok_mono:
  assumes "same_conf t t'" "\<And>a lv k. node_at t a lv k \<Longrightarrow> node_at t' a lv k" "links_ok t p"
  shows "links_ok t' p"
  using assms by (auto simp: links_ok_def same_conf_def split: if_splits)

text \<open>A page gets new contents, with the same level and bounds.\<close>

lemma blink_replace:
  assumes "blink t" "same_conf t t'" "pages t a = Some p" "pages t' = (pages t)(a \<mapsto> p')" "index_root t' = index_root t" "free_slots t' = free_slots t"
    "page_ok t p'" "links_ok t p'" "page_level p' = page_level p"
    "GetLowest (index_scheme t) p' = GetLowest (index_scheme t) p" "GetHighest (index_scheme t) p' = GetHighest (index_scheme t) p"
  shows "blink t'"
proof -
  note B = assms(1) [unfolded blink_iff]
  have mono: "node_at t' c lv k" if "node_at t c lv k" for c lv k
    using that assms(2-4,9,10) by (auto simp: node_at_def same_conf_def)
  have ap: "apart (index_scheme t) p' q = apart (index_scheme t) p q" for q using assms(10,11) by (simp add: apart_def)
  have pgs: "pages t' b = Some q \<longleftrightarrow> (if b = a then q = p' else pages t b = Some q)" for b q using assms(4) by auto
  have "conf_ok t'" "slots_ok t'" "pages t' GlobalAddress_Null = None"
    using B assms(3,4,6) conf_ok_conf [OF assms(2)] by (auto simp: slots_ok_def)
  moreover have "page_ok t' q \<and> links_ok t' q" if "pages t' b = Some q" for b q
    using that B assms(7,8) page_ok_conf [OF assms(2)] links_ok_mono [OF assms(2) mono] by (auto simp: pgs split: if_splits)
  moreover have "apart (index_scheme t') q r" if "pages t' b = Some q" "pages t' c = Some r" "b \<noteq> c" "page_level q = page_level r" for b c q r
  proof (cases "b = a \<or> c = a")
    case True
    then show ?thesis using that B assms(2,3,9) ap apart_sym [of "index_scheme t" q p'] apart_sym [of "index_scheme t" q p]
      by (auto simp: pgs same_conf_def)
  next
    case False
    then show ?thesis using that B assms(2) by (auto simp: pgs same_conf_def)
  qed
  moreover have "root_ok t'"
  proof -
    obtain r where r: "pages t (index_root t) = Some r" "GetLowest (index_scheme t) r = key_min t" "\<forall>a p. pages t a = Some p \<longrightarrow> page_level p \<le> page_level r"
      using B by (auto simp: root_ok_def)
    show ?thesis
    proof (cases "index_root t = a")
      case True
      then show ?thesis using r assms(2,3,5,9,10) unfolding root_ok_def by (intro exI [of _ p']) (auto simp: pgs same_conf_def)
    next
      case False
      then show ?thesis using r assms(2,3,5,9) unfolding root_ok_def by (intro exI [of _ r]) (auto simp: pgs same_conf_def)
    qed
  qed
  ultimately show ?thesis unfolding blink_iff by blast
qed

text \<open>The upper part of a page moves to a fresh sibling.\<close>

definition key_between :: "RecordSchema \<Rightarrow> byte list \<Rightarrow> byte list \<Rightarrow> byte list \<Rightarrow> bool" where
  "key_between s l k h \<longleftrightarrow> key_ok s k \<and> key_compare s l k < 0 \<and> key_compare s k h < 0"

text \<open>How a split divides a page: bounds and links.\<close>

definition halved :: "RecordSchema \<Rightarrow> mem \<Rightarrow> GlobalAddress \<Rightarrow> byte list \<Rightarrow> mem \<Rightarrow> mem \<Rightarrow> bool" where
  "halved s p c sk p' sib \<longleftrightarrow> page_level p' = page_level p \<and> GetLowest s p' = GetLowest s p \<and> GetHighest s p' = sk \<and> sibling_ptr p' = c
     \<and> page_level sib = page_level p \<and> GetLowest s sib = sk \<and> GetHighest s sib = GetHighest s p \<and> sibling_ptr sib = sibling_ptr p
     \<and> key_between s (GetLowest s p) sk (GetHighest s p)"

lemma blink_split:
  assumes "blink t" "same_conf t t'" "pages t a = Some p" "pages t' = (pages t)(b \<mapsto> sib, a \<mapsto> p')" "index_root t' = index_root t"
    "free_slots t = (b, buf) # free_slots t'" "page_ok t p'" "page_ok t sib" and hv: "halved (index_scheme t) p b sk p' sib"
    and ch: "\<And>k c. 0 < page_level p \<Longrightarrow> (k, c) \<in> children (index_scheme t) p' \<union> children (index_scheme t) sib \<Longrightarrow> node_at t c (page_level p - 1) k"
  shows "blink t'" "node_at t' b (page_level p) sk"
proof -
  note B = assms(1) [unfolded blink_iff]
  note H = hv [unfolded halved_def]
  let ?s = "index_scheme t"
  have s: "index_scheme t' = ?s" using assms(2) by (simp add: same_conf_def)
  have slots: "b \<noteq> GlobalAddress_Null" "pages t b = None" "slots_ok t"
    using B assms(6) by (auto simp: slots_ok_def)
  have ab: "a \<noteq> b" using slots(2) assms(3) by auto
  have pgs: "pages t' c = Some q \<longleftrightarrow> (if c = a then q = p' else if c = b then q = sib else pages t c = Some q)" for c q using assms(4) by auto
  have mono: "node_at t' c lv k" if "node_at t c lv k" for c lv k
    using that assms(3,4) H slots(2) s by (cases "c = b"; cases "c = a") (auto simp: node_at_def)
  show nb: "node_at t' b (page_level p) sk" using ab H s by (simp add: node_at_def pgs)
  have P: "page_ok t p" "links_ok t p" using B assms(3) by blast+
  note Pk = page_okD(3,4) [OF P(1)]
  have sub: "apart ?s p' q" "apart ?s sib q" if "apart ?s p q" "page_ok t q" for q
    using that(1) H key.cmp_trans [of ?s sk "GetHighest ?s p" "GetLowest ?s q"]
      key.cmp_trans [of ?s "GetHighest ?s q" "GetLowest ?s p" sk] Pk page_okD(3,4) [OF that(2)]
    by (auto simp: apart_def key_between_def)
  have halves: "apart ?s p' sib" using H key.cmp_refl [of ?s sk] by (simp add: apart_def key_between_def)
  have "conf_ok t'" "pages t' GlobalAddress_Null = None"
    using B conf_ok_conf [OF assms(2)] slots(1) assms(3,4) by auto
  moreover have "slots_ok t'" using slots(3) assms(3,6) unfolding slots_ok_def by (auto simp: assms(4))
  moreover have "page_ok t' q \<and> links_ok t' q" if q: "pages t' c = Some q" for c q
  proof -
    have "links_ok t' p'"
      using nb slots(1) H ch s mono unfolding links_ok_def by auto
    moreover have "links_ok t' sib"
      using links_ok_mono [OF assms(2) mono P(2)] H ch s mono unfolding links_ok_def by (auto split: if_splits)
    ultimately show ?thesis using q B assms(7,8) page_ok_conf [OF assms(2)] links_ok_mono [OF assms(2) mono]
      by (auto simp: pgs split: if_splits)
  qed
  moreover have "apart (index_scheme t') q r" if "pages t' c = Some q" "pages t' d = Some r" "c \<noteq> d" "page_level q = page_level r" for c d q r
  proof -
    have old: "apart ?s p' x \<and> apart ?s sib x" if "pages t c = Some x" "c \<noteq> a" "page_level x = page_level p" for c x
      using sub that B assms(3) by metis
    have one: "apart ?s q r" if "pages t' c = Some q" "pages t' d = Some r" "c \<noteq> d" "page_level q = page_level r" "c = a \<or> c = b" for c d q r
    proof (cases "d = a \<or> d = b")
      case True
      then have "q = p' \<and> r = sib \<or> q = sib \<and> r = p'" using that ab by (auto simp: pgs split: if_splits)
      then show ?thesis using halves apart_sym [of ?s p' sib] by auto
    next
      case False
      then have "pages t d = Some r" "page_level r = page_level p" "q = p' \<or> q = sib" using that H by (auto simp: pgs split: if_splits)
      then show ?thesis using old [of d r] False by blast
    qed
    show ?thesis
    proof (cases "c = a \<or> c = b")
      case True
      then show ?thesis using one [OF that] s by simp
    next
      case c: False
      show ?thesis
      proof (cases "d = a \<or> d = b")
        case True
        then show ?thesis using one [OF that(2,1) that(3) [symmetric] that(4) [symmetric]] s apart_sym [of ?s q r] by simp
      next
        case False
        then show ?thesis using that c B s by (auto simp: pgs)
      qed
    qed
  qed
  moreover have "root_ok t'"
  proof -
    obtain r where r: "pages t (index_root t) = Some r" "GetLowest ?s r = key_min t" "\<forall>a p. pages t a = Some p \<longrightarrow> page_level p \<le> page_level r"
      using B by (auto simp: root_ok_def)
    have rb: "index_root t \<noteq> b" using r(1) slots(2) by auto
    have "page_level p \<le> page_level r" using r(3) assms(3) by blast
    then show ?thesis using r rb assms(2,3,5) H unfolding root_ok_def
      by (intro exI [of _ "if index_root t = a then p' else r"]) (auto simp: pgs same_conf_def split: if_splits)
  qed
  ultimately show "blink t'" unfolding blink_iff by blast
qed

section \<open>Halves of a page\<close>

lemma split_halves:
  assumes srt: "sorted_page s r p" and inp: "\<forall>e \<in> set (entries p). in_page s (rec_key s e) p"
    and ok: "key_ok s (GetLowest s p)" "key_ok s (GetHighest s p)" and m: "0 < m" "m < cnt p" "d = m \<or> d = Suc m"
    and sk: "sk = rec_key s (entries p ! m)" and sp: "split_pages s r p b sk (take m (entries p)) (drop d (entries p)) p' sib"
  shows "sorted_page s r p'" "sorted_page s r sib" "\<forall>e \<in> set (entries p'). in_page s (rec_key s e) p'"
    "\<forall>e \<in> set (entries sib). in_page s (rec_key s e) sib" "key_between s (GetLowest s p) sk (GetHighest s p)"
proof -
  let ?es = "entries p"
  have so: "sorted_recs s ?es" using srt by (simp add: sorted_page_def)
  have es: "?es = take m ?es @ (?es ! m) # drop (Suc m) ?es" using m(2) by (simp add: id_take_nth_drop del: nth_recs)
  have parts: "sorted_recs s (take m ?es)" "sorted_recs s ((?es ! m) # drop (Suc m) ?es)"
      "\<forall>x \<in> set (take m ?es). key_compare s (rec_key s x) sk < 0"
  proof -
    have "sorted_recs s (take m ?es @ (?es ! m) # drop (Suc m) ?es)" using so by (simp only: es [symmetric])
    then show "sorted_recs s (take m ?es)" "sorted_recs s ((?es ! m) # drop (Suc m) ?es)"
        "\<forall>x \<in> set (take m ?es). key_compare s (rec_key s x) sk < 0"
      unfolding sorted_recs_append sk by auto
  qed
  have skm: "?es ! m \<in> set ?es" using m(2) by (intro nth_mem) simp
  have oks: "key_ok s sk" using sorted_recs_ok [OF so skm] sk by simp
  have "drop m ?es = (?es ! m) # drop (Suc m) ?es" using m(2) by (simp add: Cons_nth_drop_Suc del: nth_recs)
  then have right: "sorted_recs s (drop d ?es)" "\<forall>x \<in> set (drop d ?es). key_compare s sk (rec_key s x) \<le> 0"
    using parts(2) m(3) key.cmp_refl [OF oks] by (auto simp: sk less_imp_le simp del: nth_recs)
  have S: "index_page s r p'" "index_page s r sib" "entries p' = take m ?es" "entries sib = drop d ?es"
     "GetLowest s p' = GetLowest s p" "GetHighest s p' = sk" "GetLowest s sib = sk" "GetHighest s sib = GetHighest s p"
    using sp by (simp_all add: split_pages_def)
  show "sorted_page s r p'" "sorted_page s r sib" using S parts(1) right(1) by (simp_all add: sorted_page_def)
  have sub: "e \<in> set ?es" if "e \<in> set (entries p') \<or> e \<in> set (entries sib)" for e
    using that S(3,4) by (auto dest: in_set_takeD in_set_dropD)
  show "\<forall>e \<in> set (entries p'). in_page s (rec_key s e) p'"
    using parts(3) inp sub S by (auto simp: in_page_def)
  have "0 \<le> key_compare s (rec_key s e) sk" if "e \<in> set (entries sib)" for e
    using right(2) that S(4) key.cmp_swap [OF oks sorted_recs_ok [OF so sub]] by fastforce
  then show "\<forall>e \<in> set (entries sib). in_page s (rec_key s e) sib"
    using inp sub S by (auto simp: in_page_def)
  have e0: "?es ! 0 \<in> set (take m ?es)" "?es ! 0 \<in> set ?es" using m nth_mem [of 0 ?es] nth_mem [of 0 "take m ?es"] by (simp_all del: nth_recs nth_mem)
  have "key_compare s (GetLowest s p) (rec_key s (?es ! 0)) \<le> 0"
    using inp e0(2) key.cmp_swap [OF sorted_recs_ok [OF so e0(2)] ok(1)] by (auto simp: in_page_def simp del: nth_recs)
  then have "key_compare s (GetLowest s p) sk < 0"
    using key.le_less_trans_key [OF ok(1) sorted_recs_ok [OF so e0(2)] oks] parts(3) e0(1) by blast
  then show "key_between s (GetLowest s p) sk (GetHighest s p)"
    using oks inp skm unfolding key_between_def sk by (auto simp: in_page_def simp del: nth_recs)
qed

lemma set_ins_rec:
  assumes "sorted_recs s es" "key_ok s (rec_key s v)"
  shows "set (ins_rec s (rec_key s v) v es) = insert v {e \<in> set es. key_compare s (rec_key s v) (rec_key s e) \<noteq> 0}"
proof -
  obtain xs zs ys where ins: "es = xs @ zs @ ys" "ins_rec s (rec_key s v) v es = xs @ v # ys"
    "\<And>e. e \<in> set xs \<Longrightarrow> 0 < key_compare s (rec_key s v) (rec_key s e)"
    "\<And>e. e \<in> set zs \<Longrightarrow> key_compare s (rec_key s v) (rec_key s e) = 0"
    "\<And>e. e \<in> set ys \<Longrightarrow> key_compare s (rec_key s v) (rec_key s e) < 0"
    using ins_rec_split [OF assms] by metis
  then show ?thesis by fastforce
qed

section \<open>Storing in a leaf\<close>

text \<open>What the tree promises after a store: the new record replaces the records with an equal key.\<close>

definition with_record :: "RecordSchema \<Rightarrow> byte list \<Rightarrow> byte list set \<Rightarrow> byte list set" where
  "with_record s v R = insert v {e \<in> R. key_compare s (rec_key s v) (rec_key s e) \<noteq> 0}"

definition rec_ok :: "RecordSchema \<Rightarrow> byte list \<Rightarrow> bool" where
  "rec_ok s v \<longleftrightarrow> key_ok s (rec_key s v) \<and> length v = GetRecordTotalSize s"

lemma stored_update:
  assumes "blink t" "pages t a = Some p" "page_level p = 0" "in_page (index_scheme t) (rec_key (index_scheme t) v) p" "rec_ok (index_scheme t) v"
    and pgs: "pages t' = (pages t)(a \<mapsto> p') \<and> E = set (entries p')
      \<or> pages t' = (pages t)(b \<mapsto> sib, a \<mapsto> p') \<and> pages t b = None \<and> E = set (entries p') \<union> set (entries sib) \<and> page_level sib = 0"
    and "page_level p' = 0" "E = with_record (index_scheme t) v (set (entries p))"
  shows "stored t' = with_record (index_scheme t) v (stored t)"
proof -
  let ?s = "index_scheme t"
  have other: "key_compare ?s (rec_key ?s v) (rec_key ?s e) \<noteq> 0" if "pages t c = Some q" "page_level q = 0" "c \<noteq> a" "e \<in> set (entries q)" for c q e
  proof
    assume eq: "key_compare ?s (rec_key ?s v) (rec_key ?s e) = 0"
    note Q = page_okD [OF blinkD(1) [OF assms(1) that(1)]]
    have v: "key_ok ?s (rec_key ?s v)" using assms(5) by (simp add: rec_ok_def)
    have "in_page ?s (rec_key ?s v) q"
      using Q(6) [OF that(4)] key.equal_left [OF v Q(7) [OF that(4)] Q(3) eq] key.equal_left [OF v Q(7) [OF that(4)] Q(4) eq]
      by (auto simp: in_page_def)
    then have "c = a" using cover_unique [OF assms(1) that(1) assms(2) _ v] that(2) assms(3,4) by simp
    then show False using that(3) by simp
  qed
  let ?O = "{e. \<exists>c q. c \<noteq> a \<and> pages t c = Some q \<and> page_level q = 0 \<and> e \<in> set (entries q)}"
  have old: "stored t = set (entries p) \<union> ?O"
  proof (intro set_eqI iffI)
    fix e assume "e \<in> stored t"
    then obtain c q where "pages t c = Some q" "page_level q = 0" "e \<in> set (entries q)" by (auto simp: stored_def)
    then show "e \<in> set (entries p) \<union> ?O" using assms(2) by (cases "c = a") auto
  qed (use assms(2,3) in \<open>auto simp: stored_def\<close>)
  have new: "stored t' = E \<union> ?O"
  proof (rule set_eqI)
    fix e
    from pgs show "e \<in> stored t' \<longleftrightarrow> e \<in> E \<union> ?O"
    proof
      assume P: "pages t' = (pages t)(a \<mapsto> p') \<and> E = set (entries p')"
      have "e \<in> stored t' \<longleftrightarrow> (\<exists>c q. (if c = a then q = p' else pages t c = Some q) \<and> page_level q = 0 \<and> e \<in> set (entries q))"
        unfolding stored_def using P by (auto split: if_splits)
      then show ?thesis using P assms(7) by auto
    next
      assume P: "pages t' = (pages t)(b \<mapsto> sib, a \<mapsto> p') \<and> pages t b = None \<and> E = set (entries p') \<union> set (entries sib) \<and> page_level sib = 0"
      then have ab: "a \<noteq> b" using assms(2) by auto
      have "e \<in> stored t' \<longleftrightarrow> (\<exists>c q. (if c = a then q = p' else if c = b then q = sib else pages t c = Some q) \<and> page_level q = 0 \<and> e \<in> set (entries q))"
        unfolding stored_def using P by (auto split: if_splits)
      also have "\<dots> \<longleftrightarrow> e \<in> E \<union> ?O"
      proof
        assume "\<exists>c q. (if c = a then q = p' else if c = b then q = sib else pages t c = Some q) \<and> page_level q = 0 \<and> e \<in> set (entries q)"
        then show "e \<in> E \<union> ?O" using P by (auto split: if_splits)
      next
        assume "e \<in> E \<union> ?O"
        then consider "e \<in> set (entries p')" | "e \<in> set (entries sib)" | c q where "c \<noteq> a" "pages t c = Some q" "page_level q = 0" "e \<in> set (entries q)"
          using P by blast
        then show "\<exists>c q. (if c = a then q = p' else if c = b then q = sib else pages t c = Some q) \<and> page_level q = 0 \<and> e \<in> set (entries q)"
        proof cases
          case 1 then show ?thesis using assms(7) by (intro exI [of _ a] exI [of _ p']) simp
        next
          case 2 then show ?thesis using P ab by (intro exI [of _ b] exI [of _ sib]) simp
        next
          case 3
          then have "c \<noteq> b" using P by auto
          then show ?thesis using 3 by (intro exI [of _ c] exI [of _ q]) simp
        qed
      qed
      finally show ?thesis .
    qed
  qed
  show ?thesis unfolding old new assms(8) with_record_def using other by blast
qed

text \<open>A page that no other page points to from above yet, with the separator that is to be inserted for it.\<close>

definition unlinked :: "Btr \<Rightarrow> GlobalAddress \<Rightarrow> bool" where
  "unlinked t v \<longleftrightarrow> (\<forall>a p. pages t a = Some p \<longrightarrow> 0 < page_level p \<longrightarrow> v \<notin> snd ` children (index_scheme t) p)"

definition pending :: "Btr \<Rightarrow> nat \<Rightarrow> byte list \<Rightarrow> GlobalAddress \<Rightarrow> bool" where
  "pending t lv k v \<longleftrightarrow> node_at t v lv k \<and> unlinked t v \<and> key_between (index_scheme t) (key_min t) k (key_max t)"

definition same_local :: "Btr \<Rightarrow> Btr \<Rightarrow> bool" where
  "same_local t t' \<longleftrightarrow> root_lock t' = root_lock t \<and> g_root_ptr t' = g_root_ptr t \<and> cached_root t' = cached_root t
     \<and> tree_height t' = tree_height t \<and> path_stack t' = path_stack t \<and> nested_retry_counter t' = nested_retry_counter t
     \<and> index_root t' = index_root t"

definition grows :: "Btr \<Rightarrow> Btr \<Rightarrow> bool" where
  "grows t t' \<longleftrightarrow> same_conf t t' \<and> (\<forall>a lv k. node_at t a lv k \<longrightarrow> node_at t' a lv k)"

lemma grows_refl: "grows t t" and grows_trans: "grows t t' \<Longrightarrow> grows t' t'' \<Longrightarrow> grows t t''"
  by (auto simp: grows_def same_conf_def)

lemma grows_split:
  assumes "pages t a = Some p" "same_conf t t'" "page_level p' = page_level p" "GetLowest (index_scheme t) p' = GetLowest (index_scheme t) p"
    "pages t' = (pages t)(a \<mapsto> p') \<or> pages t' = (pages t)(b \<mapsto> sib, a \<mapsto> p') \<and> pages t b = None"
  shows "grows t t'"
proof -
  have "node_at t' c lv k" if "node_at t c lv k" for c lv k
    using assms(5)
  proof
    assume "pages t' = (pages t)(a \<mapsto> p')"
    then show ?thesis using that assms(1-4) by (cases "c = a") (auto simp: node_at_def same_conf_def)
  next
    assume "pages t' = (pages t)(b \<mapsto> sib, a \<mapsto> p') \<and> pages t b = None"
    then show ?thesis using that assms(1-4) by (cases "c = a"; cases "c = b") (auto simp: node_at_def same_conf_def)
  qed
  then show ?thesis using assms(2) by (simp add: grows_def)
qed

text \<open>The separator of a split lies inside the tree, and nothing points to the new page yet.\<close>

lemma fresh_unlinked:
  assumes "blink t" "pages t b = None" "pages t a = Some p" "page_level p' = page_level p" "page_level sib = page_level p"
    "pages t' = (pages t)(b \<mapsto> sib, a \<mapsto> p')" "same_conf t t'"
    "\<And>k c. 0 < page_level p \<Longrightarrow> (k, c) \<in> children (index_scheme t) p' \<union> children (index_scheme t) sib \<Longrightarrow> node_at t c (page_level p - 1) k"
  shows "unlinked t' b"
  unfolding unlinked_def
proof (intro allI impI)
  fix c q assume q: "pages t' c = Some q" "0 < page_level q"
  have s: "index_scheme t' = index_scheme t" using assms(7) by (simp add: same_conf_def)
  have "\<exists>lv k. node_at t d lv k" if "d \<in> snd ` children (index_scheme t) q" for d
    using that q assms(4-6,8) blinkD(2) [OF assms(1)] by (fastforce split: if_splits)
  moreover have "\<not> node_at t b lv k" for lv k using assms(2) by (simp add: node_at_def)
  ultimately show "b \<notin> snd ` children (index_scheme t') q" unfolding s by blast
qed

lemma between_bounds:
  assumes "page_ok t p" "conf_ok t" "key_between (index_scheme t) (GetLowest (index_scheme t) p) k (GetHighest (index_scheme t) p)"
  shows "key_between (index_scheme t) (key_min t) k (key_max t)"
proof -
  note P = page_okD [OF assms(1)]
  have "key_ok (index_scheme t) (key_min t)" "key_ok (index_scheme t) (key_max t)" using assms(2) by (simp_all add: conf_ok_def)
  then show ?thesis
    using assms(3) P(11,12) key.le_less_trans_key [OF _ P(3), of "key_min t" k] key.less_le_trans_key [OF _ P(4), of k "key_max t"]
    unfolding key_between_def by blast
qed

text \<open>The pages after a store in a leaf.\<close>

lemma store_leaf_cases:
  fixes t a v
  defines "s \<equiv> index_scheme t"
  assumes b: "blink t" and p: "pages t a = Some p" "page_level p = 0" and k: "in_page s (rec_key s v) p" "rec_ok s v"
    and st: "store_leaf a (rec_key s v) v lg p t = Inr (split, t')"
  obtains (plain) p1 where "split = None" "pages t' = (pages t)(a \<mapsto> p1)" "same_conf t t'" "same_local t t'" "free_slots t' = free_slots t"
      "page_ok t p1" "page_level p1 = 0" "GetLowest s p1 = GetLowest s p" "GetHighest s p1 = GetHighest s p" "sibling_ptr p1 = sibling_ptr p"
      "set (entries p1) = with_record s v (set (entries p))"
  | (split) p2 sib sk c buf where "split = Some (sk, c)" "pages t' = (pages t)(c \<mapsto> sib, a \<mapsto> p2)" "same_conf t t'" "same_local t t'"
      "free_slots t = (c, buf) # free_slots t'" "page_ok t p2" "page_ok t sib" "halved s p c sk p2 sib" "0 < cnt p2" "0 < cnt sib"
      "set (entries p2) \<union> set (entries sib) = with_record s v (set (entries p))"
proof -
  note P = blinkD [OF b p(1)] and Pk = page_okD [OF blinkD(1) [OF b p(1)]]
  have K: "key_ok s (rec_key s v)" "length v = GetRecordTotalSize s" using k(2) by (simp_all add: rec_ok_def)
  have srt: "sorted_page s (GetRecordTotalSize s) p" "sorted_recs s (entries p)" using Pk(1) p(2) by (simp_all add: rsz_def s_def sorted_page_def)
  obtain full p1 log where ls: "leaf_page_store (rec_key s v) v s lg a p = (full, p1, log)" by (metis prod_cases3)
  note E = leaf_store_effect [OF srt(1) K Pk(2) ls]
  have lv: "page_level p1 = 0" "kCardinality p1 = kCardinality p" "sibling_ptr p1 = sibling_ptr p" using E(3) p(2) by (simp_all add: same_header_def)
  have ent: "set (entries p1) = with_record s v (set (entries p))" using E(1) set_ins_rec [OF srt(2) K(1)] by (simp add: with_record_def)
  have srt1: "sorted_page s (GetRecordTotalSize s) p1" using E(1,2) sorted_ins_rec [OF srt(2) K(1)] by (simp add: sorted_page_def)
  have inp: "\<forall>e \<in> set (entries p1). in_page s (rec_key s e) p1" using ent Pk(6) k(1) E(4,5) by (auto simp: with_record_def in_page_def s_def)
  have ok: "key_ok s (GetLowest s p1)" "key_ok s (GetHighest s p1)" using Pk(3,4) E(4,5) by (simp_all add: s_def)
  show thesis
  proof (cases full)
    case False
    then have "cnt p1 < kCardinality p1" using E(2,6) index_pageD(11) [OF E(2)] by simp
    then have p1ok: "page_ok t p1"
      using srt1 inp lv E(4,5) Pk(3-5,9,11,12) p(2) unfolding page_ok_def Let_def rsz_def s_def [symmetric] by simp
    have "split = None" "pages t' = (pages t)(a \<mapsto> p1)" "same_conf t t'" "same_local t t'" "free_slots t' = free_slots t"
      using st False by (auto simp: store_leaf_def ls [unfolded s_def] s_def Let_def same_conf_def same_local_def)
    from plain [OF this p1ok lv(1) E(5,4) lv(3) ent] show thesis .
  next
    case True
    have c1: "cnt p1 = kCardinality p1" "1 < cnt p1" using E(6) True lv Pk(9) p(2) b by (simp_all add: blink_def conf_ok_def Let_def)
    from st True obtain sa buf fs where fr: "free_slots t = (sa, buf) # fs"
      by (cases "free_slots t") (auto simp: store_leaf_def ls [unfolded s_def] s_def Let_def)
    obtain p2 sib sk logs where sp: "leaf_split s (leaf_card t) (key_min t) (key_max t) lg a sa buf p1 = (p2, sib, sk, logs)" by (metis prod_cases4)
    have t': "split = Some (sk, sa)" "pages t' = (pages t)(sa \<mapsto> sib, a \<mapsto> p2)" "same_conf t t'" "same_local t t'" "free_slots t = (sa, buf) # free_slots t'"
      using st True fr sp by (auto simp: store_leaf_def ls [unfolded s_def] s_def Let_def same_conf_def same_local_def)
    have "unat (leaf_card t) = kCardinality p1" "0 < cnt p1" using Pk(9) p(2) lv c1 by simp_all
    note L = leaf_split_effect [OF E(2) this sp]
    let ?m = "cnt p1 div 2"
    have m: "0 < ?m" "?m < cnt p1" using c1(2) by simp_all
    note H = split_halves [OF srt1 inp ok m _ L(1,4), simplified]
    have S: "page_level p2 = 0" "page_level sib = 0" "kCardinality p2 = kCardinality p" "kCardinality sib = kCardinality p"
       "GetLowest s p2 = GetLowest s p" "GetHighest s p2 = sk" "GetLowest s sib = sk" "GetHighest s sib = GetHighest s p"
       "sibling_ptr p2 = sa" "sibling_ptr sib = sibling_ptr p" "entries p2 = take ?m (entries p1)" "entries sib = drop ?m (entries p1)"
      using L(4) lv E(4,5) by (simp_all add: split_pages_def)
    have c2: "cnt p2 < kCardinality p" "cnt sib < kCardinality p" "0 < cnt p2" "0 < cnt sib"
      using arg_cong [OF S(11), of length] arg_cong [OF S(12), of length] c1 m lv by simp_all
    have bt: "key_between s (GetLowest s p) sk (GetHighest s p)" using H(5) E(4,5) by simp
    have cf: "conf_ok t" using b by (simp add: blink_iff)
    have btw: "key_between s (key_min t) sk (key_max t)" using between_bounds [OF P(1) cf] bt by (simp add: s_def)
    have ok2: "page_ok t p2" "page_ok t sib"
      using H S c2 bt Pk(3-5,9,11,12) p(2) btw unfolding page_ok_def Let_def rsz_def s_def [symmetric] by (simp_all add: key_between_def)
    have hv: "halved s p sa sk p2 sib" using S bt p(2) by (simp add: halved_def)
    have "set (entries p2) \<union> set (entries sib) = with_record s v (set (entries p))"
      unfolding S(11,12) using ent by (metis append_take_drop_id set_append)
    from split [OF t' ok2 hv c2(3,4) this] show thesis .
  qed
qed

lemma store_leaf_step:
  fixes t a v
  defines "s \<equiv> index_scheme t"
  assumes b: "blink t" and p: "pages t a = Some p" "page_level p = 0" and k: "in_page s (rec_key s v) p" "rec_ok s v"
    and st: "store_leaf a (rec_key s v) v lg p t = Inr (split, t')"
  shows "blink t'" "grows t t'" "same_local t t'" "stored t' = with_record s v (stored t)"
    "case split of None \<Rightarrow> True | Some (sk, c) \<Rightarrow> pending t' 0 sk c" "unlinked t c \<Longrightarrow> unlinked t' c"
proof -
  have "blink t' \<and> grows t t' \<and> same_local t t' \<and> stored t' = with_record s v (stored t) \<and> (case split of None \<Rightarrow> True | Some (sk, c) \<Rightarrow> pending t' 0 sk c)
    \<and> (unlinked t c \<longrightarrow> unlinked t' c)"
    using b p k [unfolded s_def] st [unfolded s_def]
  proof (cases rule: store_leaf_cases)
    case (plain p1)
    have ir: "index_root t' = index_root t" using plain(4) by (simp add: same_local_def)
    have l1: "links_ok t p1" using blinkD(3,4) [OF b p(1)] plain p(2) by (simp add: links_ok_def)
    have "page_level p1 = page_level p" using plain(7) p(2) by simp
    note R = blink_replace [OF b plain(3) p(1) plain(2) ir plain(5,6) l1 this plain(8,9)] grows_split [OF p(1) plain(3) this plain(8)]
    moreover have "unlinked t c \<longrightarrow> unlinked t' c" using plain(2,3,7) by (auto simp: unlinked_def same_conf_def split: if_splits)
    ultimately show ?thesis
      using plain stored_update [OF b p k [unfolded s_def], of t' p1 "set (entries p1)"] by (simp add: s_def)
  next
    case (split p2 sib sk d buf)
    have ir: "index_root t' = index_root t" using split(4) by (simp add: same_local_def)
    note H = split(8) [unfolded halved_def]
    have none: "pages t d = None" using b split(5) by (simp add: blink_iff slots_ok_def)
    have cf: "conf_ok t" using b by (simp add: blink_iff)
    have btw: "key_between s (key_min t) sk (key_max t)" using between_bounds [OF blinkD(1) [OF b p(1)] cf] H by (simp add: s_def)
    have "blink t'" "node_at t' d 0 sk" using blink_split [OF b split(3) p(1) split(2) ir split(5-8)] p(2) by simp_all
    moreover have "unlinked t' d" using fresh_unlinked [OF b none p(1) _ _ split(2,3)] H p(2) by simp
    moreover have "grows t t'" using grows_split [OF p(1) split(3), of p2 d sib] H split(2) none by simp
    moreover have "stored t' = with_record s v (stored t)"
      using stored_update [OF b p k [unfolded s_def], of t' p2 "set (entries p2) \<union> set (entries sib)" d sib] split(2,11) none H p(2) by (simp add: s_def)
    moreover have "unlinked t c \<longrightarrow> unlinked t' c" using split(2,3) H p(2) by (auto simp: unlinked_def same_conf_def split: if_splits)
    ultimately show ?thesis using split(1,3,4) btw by (simp add: pending_def same_conf_def s_def)
  qed
  then show "blink t'" "grows t t'" "same_local t t'" "stored t' = with_record s v (stored t)"
    "case split of None \<Rightarrow> True | Some (sk, c) \<Rightarrow> pending t' 0 sk c" "unlinked t c \<Longrightarrow> unlinked t' c" by blast+
qed

section \<open>Storing a separator\<close>

lemma node_length: "node_at t a lv k \<Longrightarrow> length k = GetPrimaryKeyLength (index_scheme t)"
  by (auto simp: node_at_def)

lemma pending_absent:
  assumes b: "blink t" and p: "pages t a = Some p" "0 < page_level p" and pd: "pending t (page_level p - 1) k v"
  shows "find_rec (index_scheme t) k (entries p) = None"
proof -
  let ?s = "index_scheme t"
  obtain q where q: "pages t v = Some q" "page_level q = page_level p - 1" "GetLowest ?s q = k" using pd by (auto simp: pending_def node_at_def)
  note Q = page_okD [OF blinkD(1) [OF b q(1)]]
  have kok: "key_ok ?s k" using Q(3) q(3) by simp
  have "key_compare ?s k (rec_key ?s e) \<noteq> 0" if e: "e \<in> set (entries p)" for e
  proof
    assume eq: "key_compare ?s k (rec_key ?s e) = 0"
    have ch: "(rec_key ?s e, rec_child ?s e) \<in> children ?s p" using e by (simp add: children_def)
    obtain r where r: "pages t (rec_child ?s e) = Some r" "page_level r = page_level p - 1" "GetLowest ?s r = rec_key ?s e"
      using blinkD(2) [OF b p ch] by (auto simp: node_at_def)
    note R = page_okD [OF blinkD(1) [OF b r(1)]]
    have "key_compare ?s k (GetHighest ?s r) < 0" using key.equal_left(1) [OF kok R(3) R(4)] eq r(3) R(5) by simp
    then have "in_page ?s k r" "in_page ?s k q" using eq r(3) q(3) Q(5) key.cmp_refl [OF kok] by (simp_all add: in_page_def)
    then have "rec_child ?s e = v" using cover_unique [OF b r(1) q(1) _ kok] r(2) q(2) by simp
    then have "v \<in> snd ` children ?s p" using ch by force
    then show False using pd p by (auto simp: pending_def unlinked_def)
  qed
  then show ?thesis by (simp add: find_rec_def find_None_iff)
qed

lemma stored_internal:
  assumes "\<And>c. pages t' c = pages t c \<or> (\<forall>q. pages t c = Some q \<or> pages t' c = Some q \<longrightarrow> 0 < page_level q)"
  shows "stored t' = stored t"
proof (intro set_eqI iffI)
  fix e assume "e \<in> stored t'"
  then obtain c q where "pages t' c = Some q" "page_level q = 0" "e \<in> set (entries q)" by (auto simp: stored_def)
  moreover from this have "pages t' c = pages t c" using assms [of c] by auto
  ultimately show "e \<in> stored t" by (auto simp: stored_def)
next
  fix e assume "e \<in> stored t"
  then obtain c q where "pages t c = Some q" "page_level q = 0" "e \<in> set (entries q)" by (auto simp: stored_def)
  moreover from this have "pages t' c = pages t c" using assms [of c] by auto
  ultimately show "e \<in> stored t'" by (auto simp: stored_def)
qed

text \<open>The pages after a separator has been stored.  A search that reaches the page, or the half of it that covers the key,
  goes where the undivided page would send it.\<close>

lemma store_internal_cases:
  fixes t a k v p
  defines "s \<equiv> index_scheme t" and "lv \<equiv> page_level p"
  assumes b: "blink t" and p: "pages t a = Some p" "0 < lv" and k: "in_page s k p" and pd: "pending t (lv - 1) k v"
    and st: "store_internal a k v lg p t = Inr (split, t')"
  obtains (plain) p1 where "split = None" "pages t' = (pages t)(a \<mapsto> p1)" "same_conf t t'" "same_local t t'" "free_slots t' = free_slots t"
      "page_ok t p1" "page_level p1 = lv" "GetLowest s p1 = GetLowest s p" "GetHighest s p1 = GetHighest s p" "sibling_ptr p1 = sibling_ptr p"
      "children s p1 = insert (k, v) (children s p)" "entries p1 = ins_rec s k (entry_of k v) (entries p)" "leftmost_ptr p1 = leftmost_ptr p"
  | (split) p2 sib sk c buf m where "split = Some (sk, c)" "pages t' = (pages t)(c \<mapsto> sib, a \<mapsto> p2)" "same_conf t t'" "same_local t t'"
      "free_slots t = (c, buf) # free_slots t'" "page_ok t p2" "page_ok t sib" "halved s p c sk p2 sib"
      "children s p2 \<union> children s sib \<subseteq> insert (k, v) (children s p)"
      "m < length (ins_rec s k (entry_of k v) (entries p))" "entries p2 = take m (ins_rec s k (entry_of k v) (entries p))"
      "entries sib = drop (Suc m) (ins_rec s k (entry_of k v) (entries p))" "sk = rec_key s (ins_rec s k (entry_of k v) (entries p) ! m)"
      "leftmost_ptr p2 = leftmost_ptr p" "leftmost_ptr sib = rec_child s (ins_rec s k (entry_of k v) (entries p) ! m)"
proof -
  note P = blinkD [OF b p(1)] and Pk = page_okD [OF blinkD(1) [OF b p(1)]]
  have K: "key_ok s k" "length k = GetPrimaryKeyLength s" "node_at t v (lv - 1) k"
    using pd node_length by (auto simp: pending_def key_between_def s_def)
  have lp: "page_level p \<noteq> 0" "0 < page_level p" "0 < cnt p" using p(2) Pk(8) by (simp_all add: lv_def)
  have srt: "sorted_page s (internal_rsz s) p" "sorted_recs s (entries p)" using Pk(1) lp by (simp_all add: rsz_def s_def sorted_page_def)
  have absent: "find_rec s k (entries p) = None" using pending_absent [OF b p(1)] pd lp by (simp add: s_def lv_def)
  let ?e = "entry_of k v"
  have e: "rec_key s ?e = k" "rec_child s ?e = v" using K(2) by simp_all
  obtain i p1 where E: "InternalPage_store a k v s lg p = Inr (cnt p1 = kCardinality p1, p1,
         if lg then Some (nodeID a, a, index_version p1, encode_ops (insert_ops i [k, le_bytes 8 (gval v)] p)) else None)"
      "entries p1 = ins_rec s k ?e (entries p)" "sorted_page s (internal_rsz s) p1" "same_header p1 p" "cnt p1 = Suc (cnt p)"
      "GetHighest s p1 = GetHighest s p" "GetLowest s p1 = GetLowest s p"
    by (rule internal_store_effect [OF srt(1) K(1,2) lp(3) Pk(2) absent, where g = a and v = v and lg = lg]) (rule that; assumption)
  have lv1: "page_level p1 = lv" "kCardinality p1 = kCardinality p" "sibling_ptr p1 = sibling_ptr p" "leftmost_ptr p1 = leftmost_ptr p"
    using E(4) by (simp_all add: same_header_def lv_def)
  have ent: "set (entries p1) = insert ?e (set (entries p))"
    using E(2) set_ins_rec [OF srt(2), of ?e] absent K(1) by (auto simp: e find_rec_def find_None_iff)
  have inp: "\<forall>x \<in> set (entries p1). in_page s (rec_key s x) p1" using ent Pk(6) k E(6,7) by (auto simp: in_page_def s_def e [unfolded s_def])
  have ch: "children s p1 = insert (k, v) (children s p)" using ent E(7) lv1(4) by (auto simp: children_def e)
  have ok: "key_ok s (GetLowest s p1)" "key_ok s (GetHighest s p1)" using Pk(3,4) E(6,7) by (simp_all add: s_def)
  show thesis
  proof (cases "cnt p1 = kCardinality p1")
    case False
    then have "cnt p1 < kCardinality p1" using E(3) index_pageD(11) by (fastforce simp: sorted_page_def)
    then have p1ok: "page_ok t p1"
      using E inp lv1 Pk(3-5,10-12) lp p(2) unfolding page_ok_def Let_def rsz_def s_def [symmetric] by simp
    have "split = None" "pages t' = (pages t)(a \<mapsto> p1)" "same_conf t t'" "same_local t t'" "free_slots t' = free_slots t"
      using st False E(1) by (auto simp: store_internal_def s_def Let_def same_conf_def same_local_def split: if_splits)
    from plain [OF this p1ok lv1(1) E(7,6) lv1(3) ch E(2) lv1(4)] show thesis .
  next
    case True
    have c1: "2 < cnt p1" using True lv1 Pk(10) lp b by (simp add: blink_def conf_ok_def Let_def)
    from st True obtain sa buf fs where fr: "free_slots t = (sa, buf) # fs"
      using E(1) by (cases "free_slots t") (auto simp: store_internal_def s_def Let_def split: if_splits)
    obtain p2 sib sk logs where sp: "internal_split s (key_min t) (key_max t) lg a sa buf p1 = (p2, sib, sk, logs)" by (metis prod_cases4)
    have t': "split = Some (sk, sa)" "pages t' = (pages t)(sa \<mapsto> sib, a \<mapsto> p2)" "same_conf t t'" "same_local t t'"
        "free_slots t = (sa, buf) # free_slots t'"
      using st True fr sp E(1) by (auto simp: store_internal_def s_def Let_def same_conf_def same_local_def split: if_splits)
    have "index_page s (internal_rsz s) p1" "kCardinality p1 = internal_cardinality kInternalPageSize s" "length (key_min t) = GetPrimaryKeyLength s"
      using E(3) lv1 Pk(10) lp b by (simp_all add: sorted_page_def s_def blink_def conf_ok_def Let_def)
    note L = internal_split_effect [OF this(1,2) c1 this(3) sp]
    let ?m = "cnt p1 div 2"
    have m: "0 < ?m" "?m < cnt p1" using c1 by simp_all
    note H = split_halves [OF E(3) inp ok m _ L(1,4), simplified]
    have S: "page_level p2 = lv" "page_level sib = lv" "kCardinality p2 = kCardinality p" "kCardinality sib = kCardinality p"
       "GetLowest s p2 = GetLowest s p" "GetHighest s p2 = sk" "GetLowest s sib = sk" "GetHighest s sib = GetHighest s p"
       "sibling_ptr p2 = sa" "sibling_ptr sib = sibling_ptr p" "entries p2 = take ?m (entries p1)" "entries sib = drop (Suc ?m) (entries p1)"
       "leftmost_ptr p2 = leftmost_ptr p"
      using L(4) lv1 E(6,7) by (simp_all add: split_pages_def)
    have c2: "cnt p2 < kCardinality p" "cnt sib < kCardinality p" "0 < cnt p2" "0 < cnt sib"
      using arg_cong [OF S(11), of length] arg_cong [OF S(12), of length] c1 m lv1 True by simp_all
    have bt: "key_between s (GetLowest s p) sk (GetHighest s p)" using H(5) E(6,7) by simp
    have cf: "conf_ok t" using b by (simp add: blink_iff)
    have btw: "key_between s (key_min t) sk (key_max t)" using between_bounds [OF P(1) cf] bt by (simp add: s_def)
    have ok2: "page_ok t p2" "page_ok t sib"
      using H S c2 bt Pk(3-5,10-12) lp p(2) btw unfolding page_ok_def Let_def rsz_def s_def [symmetric] by (simp_all add: key_between_def)
    have hv: "halved s p sa sk p2 sib" using S bt by (simp add: halved_def lv_def)
    have em: "entries p1 ! ?m \<in> set (entries p1)" using m by (intro nth_mem) simp
    have sub: "children s p2 \<union> children s sib \<subseteq> insert (k, v) (children s p)"
    proof -
      have "(sk, leftmost_ptr sib) \<in> children s p1" using L(1,5) em by (force simp: children_def simp del: nth_recs)
      moreover have "set (entries p2) \<subseteq> set (entries p1)" "set (entries sib) \<subseteq> set (entries p1)"
        unfolding S(11,12) by (auto dest: in_set_takeD in_set_dropD)
      ultimately have "children s p2 \<union> children s sib \<subseteq> children s p1" using S(5,7,13) E(7) lv1(4) unfolding children_def by auto
      then show ?thesis by (simp only: ch)
    qed
    have "?m < length (entries p1)" using m by simp
    from split [OF t' ok2 hv sub, unfolded E(2) [symmetric], OF this S(11,12) L(1) S(13) L(5)] show thesis .
  qed
qed

lemma store_internal_step:
  fixes t a k v p
  defines "s \<equiv> index_scheme t" and "lv \<equiv> page_level p"
  assumes b: "blink t" and p: "pages t a = Some p" "0 < lv" and k: "in_page s k p" and pd: "pending t (lv - 1) k v"
    and st: "store_internal a k v lg p t = Inr (split, t')"
  shows "blink t'" "grows t t'" "same_local t t'" "stored t' = stored t"
    "case split of None \<Rightarrow> True | Some (sk, c) \<Rightarrow> pending t' lv sk c"
    "\<And>c. c \<noteq> v \<Longrightarrow> pages t c \<noteq> None \<Longrightarrow> unlinked t c \<Longrightarrow> unlinked t' c"
proof -
  have nodes: "node_at t c (lv - 1) x" if "(x, c) \<in> insert (k, v) (children s p)" for x c
    using that pd blinkD(2) [OF b p(1)] p(2) by (auto simp: lv_def s_def pending_def)
  have "blink t' \<and> grows t t' \<and> same_local t t' \<and> stored t' = stored t \<and> (case split of None \<Rightarrow> True | Some (sk, c) \<Rightarrow> pending t' lv sk c)
    \<and> (\<forall>c. c \<noteq> v \<longrightarrow> pages t c \<noteq> None \<longrightarrow> unlinked t c \<longrightarrow> unlinked t' c)"
    using b p [unfolded lv_def] k [unfolded s_def] pd [unfolded lv_def] st
  proof (cases rule: store_internal_cases)
    case (plain p1)
    note s = s_def [symmetric] and l = lv_def [symmetric]
    have ir: "index_root t' = index_root t" using plain(4) by (simp add: same_local_def)
    have l1: "links_ok t p1" using blinkD(3,4) [OF b p(1)] plain nodes by (auto simp: links_ok_def s_def lv_def)
    note R = blink_replace [OF b plain(3) p(1) plain(2) ir plain(5,6) l1 plain(7-9)] grows_split [OF p(1) plain(3,7,8)]
    have "stored t' = stored t" using p plain(7) by (intro stored_internal) (auto simp: plain(2) lv_def)
    moreover have "unlinked t' c" if "c \<noteq> v" "unlinked t c" for c
      using that plain(2,3,7,11) p by (auto simp: unlinked_def same_conf_def lv_def split: if_splits)
    ultimately show ?thesis using R plain by simp
  next
    case (split p2 sib sk d buf m)
    have ir: "index_root t' = index_root t" using split(4) by (simp add: same_local_def)
    note H = split(8) [unfolded halved_def]
    have none: "pages t d = None" using b split(5) by (simp add: blink_iff slots_ok_def)
    have cf: "conf_ok t" using b by (simp add: blink_iff)
    have btw: "key_between s (key_min t) sk (key_max t)" using between_bounds [OF blinkD(1) [OF b p(1)] cf] H by (simp add: s_def)
    have nodes2: "node_at t c (page_level p - 1) x" if "(x, c) \<in> children (index_scheme t) p2 \<union> children (index_scheme t) sib" for x c
      using nodes split(9) that by (auto simp: lv_def s_def)
    have "blink t'" "node_at t' d lv sk" using blink_split [OF b split(3) p(1) split(2) ir split(5-8)] nodes2 by (simp_all add: lv_def)
    moreover have "unlinked t' d" using fresh_unlinked [OF b none p(1) _ _ split(2,3)] H nodes2 by simp
    moreover have "grows t t'" using grows_split [OF p(1) split(3), of p2 d sib] H split(2) none by simp
    moreover have "stored t' = stored t" using p H none by (intro stored_internal) (auto simp: split(2) lv_def)
    moreover have "unlinked t' c" if c: "c \<noteq> v" "unlinked t c" for c
      unfolding unlinked_def
    proof (intro allI impI)
      fix e q assume q: "pages t' e = Some q" "0 < page_level q"
      have s': "index_scheme t' = s" using split(3) by (simp add: same_conf_def s_def)
      have "c \<notin> snd ` children s p" using c(2) p by (simp add: unlinked_def s_def lv_def)
      then have "c \<notin> snd ` children s p2" "c \<notin> snd ` children s sib" using split(9) c(1) by (auto simp: s_def)
      then show "c \<notin> snd ` children (index_scheme t') q"
        unfolding s' using q c(2) split(2) by (auto simp: unlinked_def s_def split: if_splits)
    qed
    ultimately show ?thesis using split(1,3,4) btw by (simp add: pending_def same_conf_def s_def)
  qed
  then show "blink t'" "grows t t'" "same_local t t'" "stored t' = stored t" "case split of None \<Rightarrow> True | Some (sk, c) \<Rightarrow> pending t' lv sk c"
    "\<And>c. c \<noteq> v \<Longrightarrow> pages t c \<noteq> None \<Longrightarrow> unlinked t c \<Longrightarrow> unlinked t' c" by blast+
qed

section \<open>A new root\<close>

lemma InternalPage_new_bounds:
  assumes p: "p = InternalPage_new left k right g c s lv kmin kmax m" and "lv < 2 ^ 8" "length k = GetPrimaryKeyLength s"
    "length kmin = GetPrimaryKeyLength s" "length kmax = GetPrimaryKeyLength s" "internal_rsz s < 2 ^ 16"
  shows "page_level p = lv" "sibling_ptr p = GlobalAddress_Null" "GetLowest s p = kmin" "GetHighest s p = kmax"
proof -
  define q where "q = put_u8 LEVEL_OFF (of_nat lv) (put_addr LEFTMOST_OFF left (put_u32 P_TYPE_OFF (page_type_code P_Internal_P)
     (put_u32 RECORD_SIZE_OFF (of_nat (internal_rsz s)) (put_u32 KEY_SIZE_OFF (of_nat (GetPrimaryKeyLength s)) (Header_Index_new m)))))"
  have get: "get_u8 a (store_bytes a [v] x) = v" "get_u64 a (store_bytes a (le_bytes 8 w) x) = w" for a v w x
    by (simp_all add: get_u8_def get_u64_def store_bytes_def [of a "[v]"])
  have kq: "key_size q = GetPrimaryKeyLength s"
    using assms(6) unfolding q_def by (simp add: header_defs page_offs put_u8_store put_defs get_store_disjoint) (simp add: get_u32_def unat_of_nat_small)
  have hq: "page_level q = lv" "sibling_ptr q = GlobalAddress_Null"
    using assms(2) unfolding q_def Header_Index_new_def index_reset_dirty_bounds_def
    by (simp_all add: header_defs page_offs put_u8_store put_defs get_store_disjoint get unat_of_nat_small)
  define r where "r = put_u64 P_VERSION_OFF 1 (put_u16 CARDINALITY_OFF c (put_addr THIS_PAGE_OFF g (put_u16 LAST_INDEX_OFF 0 (SetRecordByIndex s 0 k right q))))"
  have pr: "p = SetLowest s kmin (SetHighest s kmax r)"
    unfolding p InternalPage_new_def Let_def r_def q_def by (simp add: page_simps)
  have rec: "SetRecordByIndex s 0 k right q = store_bytes (record_ptr 0 q) (entry_of k right) q"
    using SetRecordByIndex_eq [OF kq _ assms(3)] kq assms(6) by simp
  have "page_level r = page_level (SetRecordByIndex s 0 k right q)" "sibling_ptr r = sibling_ptr (SetRecordByIndex s 0 k right q)"
    unfolding r_def by (simp_all add: header_defs page_offs put_defs get_store_disjoint)
  then have "page_level r = lv" "sibling_ptr r = GlobalAddress_Null" using hq unfolding rec by (simp_all add: page_simps rec_ptr_ge)
  then show "page_level p = lv" "sibling_ptr p = GlobalAddress_Null" unfolding pr by (simp_all add: page_simps)
  show "GetLowest s p = kmin" "GetHighest s p = kmax" unfolding pr using assms(4,5) by (simp_all add: page_simps)
qed

lemma internal_rsz_small: "conf_ok t \<Longrightarrow> internal_rsz (index_scheme t) < 2 ^ 16"
proof -
  assume c: "conf_ok t"
  let ?r = "internal_rsz (index_scheme t)" and ?n = "internal_cardinality kInternalPageSize (index_scheme t)"
  have "1 * ?r \<le> ?n * ?r" using c by (intro mult_le_mono1) (simp add: conf_ok_def)
  moreover have "?n * ?r < kLeafPageSize" using c by (simp add: conf_ok_def)
  ultimately have "1 * ?r < kLeafPageSize" by (rule le_less_trans)
  then show ?thesis by (simp add: kLeafPageSize_def)
qed

lemma pending_not_root:
  assumes "blink t" "pending t lv k v"
  shows "v \<noteq> index_root t"
proof
  assume "v = index_root t"
  then have "k = key_min t" using assms by (auto simp: blink_iff root_ok_def pending_def node_at_def)
  then show False using assms(2) key.cmp_refl [of "index_scheme t" k] by (auto simp: pending_def key_between_def)
qed

lemma update_new_root_step:
  fixes t
  defines "s \<equiv> index_scheme t"
  assumes b: "blink t" and r: "pages t (index_root t) = Some r" "page_level r = lv" "Suc lv < 2 ^ 8" and pd: "pending t lv k v"
    and st: "update_new_root (index_root t) k v (Suc lv) (index_root t) lg t = Inr t'"
  shows "blink t'" "grows t t'" "stored t' = stored t" "pages t (index_root t') = None" "node_at t' (index_root t') (Suc lv) (key_min t)"
    "path_stack t' = path_stack t" "g_root_ptr t' = index_root t'" "cached_root t' = index_root t'" "tree_height t' = Suc lv"
    "\<And>lv' k' c. c \<noteq> v \<Longrightarrow> pending t lv' k' c \<Longrightarrow> pending t' lv' k' c"
    "\<exists>n. pages t' = (pages t)(index_root t' \<mapsto> n) \<and> page_ok t n \<and> page_level n = Suc lv \<and> entries n = [entry_of k v] \<and> leftmost_ptr n = index_root t
       \<and> GetHighest s n = key_max t" "same_conf t t'" "root_lock t' = root_lock t"
proof -
  note B = b [unfolded blink_iff]
  have cf: "conf_ok t" using B by blast
  have rt: "GetLowest s r = key_min t" "\<And>a p. pages t a = Some p \<Longrightarrow> page_level p \<le> lv" using B r by (auto simp: root_ok_def s_def)
  from st obtain na buf fs where fr: "free_slots t = (na, buf) # fs" by (cases "free_slots t") (auto simp: update_new_root_def)
  let ?card = "internal_cardinality kInternalPageSize s"
  define n0 where "n0 = InternalPage_new (index_root t) k v na (of_nat ?card) s (Suc lv) (key_min t) (key_max t) (\<lambda>_. 0)"
  define n1 where "n1 = (if lg then put_u64 P_VERSION_OFF 1 n0 else n0)"
  have len: "length k = GetPrimaryKeyLength s" "length (key_min t) = GetPrimaryKeyLength s" "length (key_max t) = GetPrimaryKeyLength s"
    using pd cf node_length [of t v lv k] by (auto simp: pending_def conf_ok_def s_def)
  note small = internal_rsz_small [OF cf, folded s_def]
  have card: "unat (of_nat ?card :: u16) = ?card" using cf by (intro unat_of_nat_small) (simp add: conf_ok_def s_def)
  note H = InternalPage_new_header [OF n0_def small len] and I = InternalPage_new_bounds [OF n0_def r(3) len small]
  have N: "key_size n1 = GetPrimaryKeyLength s" "record_size n1 = internal_rsz s" "kCardinality n1 = ?card" "last_index n1 = 0" "leftmost_ptr n1 = index_root t"
    "cnt n1 = 1" "entries n1 = [entry_of k v]" "page_level n1 = Suc lv" "sibling_ptr n1 = GlobalAddress_Null" "GetLowest s n1 = key_min t" "GetHighest s n1 = key_max t"
    using H I card by (auto simp: n1_def page_simps cnt_def)
  have kb: "key_ok s k" "key_compare s (key_min t) k < 0" "key_compare s k (key_max t) < 0" using pd by (simp_all add: pending_def key_between_def s_def)
  have kok: "key_ok s (key_min t)" "key_ok s (key_max t)" using cf by (simp_all add: conf_ok_def s_def)
  have lh: "key_compare s (key_min t) (key_max t) < 0" using key.less_le_trans_key [OF kok(1) kb(1) kok(2) kb(2)] kb(3) by simp
  have e: "rec_key s (entry_of k v) = k" "rec_child s (entry_of k v) = v" using len by simp_all
  have nok: "page_ok t n1"
    unfolding page_ok_def Let_def s_def [symmetric] using N cf kb kok lh key.cmp_swap [OF kok(1) kb(1)] key.cmp_refl [OF kok(1)] key.cmp_refl [OF kok(2)]
    by (simp add: rsz_def sorted_page_def index_page_def conf_ok_def s_def [symmetric] in_page_def e)
  have ch: "children s n1 = {(key_min t, index_root t), (k, v)}" using N(5,7,10) by (simp add: children_def e)
  have slots: "na \<noteq> GlobalAddress_Null" "pages t na = None" using B fr by (auto simp: slots_ok_def)
  have t': "pages t' = (pages t)(na \<mapsto> n1)" "same_conf t t'" "index_root t' = na" "free_slots t' = fs" "g_root_ptr t' = na" "cached_root t' = na"
      "tree_height t' = Suc lv" "path_stack t' = path_stack t" "root_lock t' = root_lock t"
    using st fr by (auto simp: update_new_root_def Let_def LogNewRootPage_def n1_def n0_def s_def same_conf_def split: if_splits)
  have mono: "node_at t' c l x" if "node_at t c l x" for c l x
    using that t'(1,2) slots(2) by (cases "c = na") (auto simp: node_at_def same_conf_def)
  show "grows t t'" using mono t'(2) by (simp add: grows_def)
  show "stored t' = stored t" using N(8) slots(2) by (intro stored_internal) (auto simp: t'(1))
  show "pages t (index_root t') = None" using slots(2) t'(3) by simp
  show "node_at t' (index_root t') (Suc lv) (key_min t)" using t'(1-3) N(8,10) by (simp add: node_at_def same_conf_def s_def)
  show "path_stack t' = path_stack t" "g_root_ptr t' = index_root t'" "cached_root t' = index_root t'" "tree_height t' = Suc lv"
    "same_conf t t'" "root_lock t' = root_lock t" using t' by simp_all
  show "\<exists>n. pages t' = (pages t)(index_root t' \<mapsto> n) \<and> page_ok t n \<and> page_level n = Suc lv \<and> entries n = [entry_of k v] \<and> leftmost_ptr n = index_root t
       \<and> GetHighest s n = key_max t" using N nok t'(1,3) by blast
  have links: "links_ok t' n1"
    using N(8,9,11) ch mono pd r rt(1) t'(2) unfolding links_ok_def by (auto simp: same_conf_def s_def pending_def node_at_def)
  have "page_ok t' q \<and> links_ok t' q" if "pages t' c = Some q" for c q
    using that B nok links page_ok_conf [OF t'(2)] links_ok_mono [OF t'(2) mono] by (auto simp: t'(1) split: if_splits)
  moreover have "apart (index_scheme t') p q" if "pages t' c = Some p" "pages t' d = Some q" "c \<noteq> d" "page_level p = page_level q" for c d p q
    using that B rt(2) N(8) t'(1,2) by (fastforce simp: same_conf_def split: if_splits)
  moreover have "conf_ok t'" "slots_ok t'" "pages t' GlobalAddress_Null = None"
    using B conf_ok_conf [OF t'(2)] slots fr t'(1,4) by (auto simp: slots_ok_def)
  moreover have "root_ok t'" unfolding root_ok_def
    using t'(1-3) N(8,10) rt(2) by (intro exI [of _ n1]) (fastforce simp: same_conf_def s_def split: if_splits)
  ultimately show "blink t'" unfolding blink_iff by blast
  show "pending t' lv' k' c" if c: "c \<noteq> v" "pending t lv' k' c" for lv' k' c
  proof -
    have "c \<noteq> index_root t" using pending_not_root [OF b c(2)] .
    then have "c \<notin> snd ` children s n1" using c(1) by (simp add: ch)
    then have "unlinked t' c" using c(2) t'(1,2) by (auto simp: pending_def unlinked_def same_conf_def s_def split: if_splits)
    then show ?thesis using c(2) mono t'(2) by (auto simp: pending_def same_conf_def)
  qed
qed

section \<open>A new tree\<close>

lemma cardinality_fits:
  assumes "(n :: nat) = (sz - a - 1) div r" "0 < n"
  shows "a + n * r < sz" "n \<le> sz"
proof -
  have "n * r \<le> sz - a - 1" unfolding assms(1) by (rule div_times_less_eq_dividend)
  moreover have "0 < sz - a - 1" using assms by (cases "sz - a - 1") auto
  ultimately show "a + n * r < sz" by linarith
  show "n \<le> sz" using div_le_dividend [of "sz - a - 1" r] assms(1) by linarith
qed

definition tree_fits :: "RecordSchema \<Rightarrow> byte list \<Rightarrow> byte list \<Rightarrow> bool" where
  "tree_fits s kmin kmax \<longleftrightarrow> 0 < GetPrimaryKeyLength s \<and> GetPrimaryKeyLength s \<le> GetRecordTotalSize s
     \<and> 2 \<le> leaf_cardinality kLeafPageSize s \<and> 3 \<le> internal_cardinality kInternalPageSize s
     \<and> key_ok s kmin \<and> key_ok s kmax \<and> length kmin = GetPrimaryKeyLength s \<and> length kmax = GetPrimaryKeyLength s
     \<and> key_compare s kmin kmax < 0"

lemma Btr_new_blink:
  assumes "tree_fits s kmin kmax" "distinct (map fst slots)" "GlobalAddress_Null \<notin> fst ` set slots" "Btr_new s kmin kmax slots = Some t"
  shows "blink t" "stored t = {}" "index_scheme t = s"
proof -
  obtain root buf fs where sl: "slots = (root, buf) # fs" using assms(4) by (cases slots) (auto simp: Btr_new_def)
  define card where "card = (of_nat (leaf_cardinality kLeafPageSize s) :: u16)"
  define p where "p = LeafPage_new root card s 0 kmin kmax (\<lambda>_. 0)"
  have t: "t = \<lparr>index_scheme = s, leaf_card = card, key_min = kmin, key_max = kmax, pages = [root \<mapsto> p],
               index_root = root, root_lock = 0, g_root_ptr = root, cached_root = root, tree_height = 0,
               path_stack = (\<lambda>_. GlobalAddress_Null), nested_retry_counter = 0, num_of_record = 0, free_slots = fs, redo = []\<rparr>"
    using assms(4) by (simp add: Btr_new_def sl Let_def card_def p_def)
  note F = assms(1) [unfolded tree_fits_def]
  let ?K = "GetPrimaryKeyLength s" and ?R = "GetRecordTotalSize s" and ?L = "leaf_cardinality kLeafPageSize s" and ?I = "internal_cardinality kInternalPageSize s"
  have fit: "INDEX_DATA_OFF + 2 * ?K + ?L * ?R < kLeafPageSize" "?L \<le> kLeafPageSize"
    using cardinality_fits [of ?L kLeafPageSize "INDEX_DATA_OFF + 2 * ?K" ?R] F by (simp_all add: leaf_cardinality_def Let_def)
  have ifit: "INDEX_DATA_OFF + 2 * ?K + ?I * internal_rsz s < kLeafPageSize" "?I \<le> kLeafPageSize"
    using cardinality_fits [of ?I kInternalPageSize "INDEX_DATA_OFF + 2 * ?K" "internal_rsz s"] F
    by (simp_all add: internal_cardinality_def Let_def kInternalPageSize_def kLeafPageSize_def)
  have card: "unat card = ?L" using fit(2) unfolding card_def by (intro unat_of_nat_small) (simp add: kLeafPageSize_def)
  have srt: "sorted_page s ?R p"
    unfolding p_def using F fit card by (intro LeafPage_new_sorted) (simp_all add: kLeafPageSize_def)
  have "1 * ?R \<le> ?L * ?R" using F by (intro mult_le_mono1) simp
  then have "?R < kLeafPageSize" using fit(1) by linarith
  then have small: "?K < 2 ^ 32" "?R < 2 ^ 32" using F by (simp_all add: kLeafPageSize_def)
  note H = LeafPage_new_header [OF p_def small] and V = LeafPage_new_level(1) [of 0 root card s kmin kmax "\<lambda>_. 0", folded p_def]
  have bounds: "GetLowest s p = kmin" "GetHighest s p = kmax"
    using F unfolding p_def LeafPage_new_def Let_def by (simp_all add: page_simps)
  have ents: "entries p = []" using H(7) by (simp add: recs_def)
  have pok: "page_ok t p"
    unfolding page_ok_def Let_def using srt H V F bounds card ents key.cmp_refl [of s kmin] key.cmp_refl [of s kmax] by (simp add: t rsz_def)
  have nn: "root \<noteq> GlobalAddress_Null" using assms(3) sl by auto
  have "conf_ok t" using F card ifit unfolding conf_ok_def by (simp add: t kLeafPageSize_def)
  moreover have "slots_ok t" using assms(2,3) unfolding slots_ok_def by (force simp: t sl)
  moreover have "links_ok t p" using H(6) V bounds by (simp add: links_ok_def t)
  moreover have "root_ok t" using bounds by (simp add: root_ok_def t)
  ultimately show "blink t" using pok nn unfolding blink_iff by (auto simp: t split: if_splits)
  show "stored t = {}" using ents by (auto simp: stored_def t split: if_splits)
  show "index_scheme t = s" by (simp add: t)
qed

end
