(* ===== verification/Btree_Correct.thy ===== *)
theory Btree_Correct
  imports Blink
begin

text \<open>
  What the B-link tree promises.  Interleavings of the latched page accesses of any number of
  threads keep the invariant and act on the set of stored records like a sequence of atomic insertions.  A search
  on a tree without unfinished splits returns, also when the node's copy of the root pointer is out of date, and
  finds exactly the stored record.
\<close>


section \<open>Interleaved insertions\<close>

text \<open>
  One latched access of some thread.  The second component of a configuration holds the splits whose
  separator is not yet in the level above (level and lowest key of the new page, and its address).  The label of a step is the
  record that it stores.  A step of kind \<open>other\<close> changes what belongs to a thread or a node, or provides free slots.
\<close>

type_synonym splits = "(nat \<times> byte list \<times> GlobalAddress) set"

definition new_split :: "nat \<Rightarrow> (byte list \<times> GlobalAddress) option \<Rightarrow> splits" where
  "new_split lv split = (case split of None \<Rightarrow> {} | Some (k, v) \<Rightarrow> {(lv, k, v)})"

definition same_shared :: "Btr \<Rightarrow> Btr \<Rightarrow> bool" where
  "same_shared t t' \<longleftrightarrow> same_conf t t' \<and> pages t' = pages t \<and> index_root t' = index_root t"

inductive tree_step :: "Btr \<times> splits \<Rightarrow> byte list list \<Rightarrow> Btr \<times> splits \<Rightarrow> bool" where
  leaf: "pages t a = Some p \<Longrightarrow> page_level p = 0 \<Longrightarrow> in_page (index_scheme t) (rec_key (index_scheme t) v) p \<Longrightarrow> rec_ok (index_scheme t) v
    \<Longrightarrow> store_leaf a (rec_key (index_scheme t) v) v lg p t = Inr (split, t') \<Longrightarrow> tree_step (t, S) [v] (t', S \<union> new_split 0 split)"
| separator: "pages t a = Some p \<Longrightarrow> 0 < page_level p \<Longrightarrow> in_page (index_scheme t) k p \<Longrightarrow> (page_level p - 1, k, v) \<in> S
    \<Longrightarrow> store_internal a k v lg p t = Inr (split, t')
    \<Longrightarrow> tree_step (t, S) [] (t', (S - {(page_level p - 1, k, v)}) \<union> new_split (page_level p) split)"
| root: "pages t (index_root t) = Some r \<Longrightarrow> Suc (page_level r) < 2 ^ 8 \<Longrightarrow> (page_level r, k, v) \<in> S
    \<Longrightarrow> update_new_root (index_root t) k v (Suc (page_level r)) (index_root t) lg t = Inr t'
    \<Longrightarrow> tree_step (t, S) [] (t', S - {(page_level r, k, v)})"
| other: "same_shared t t' \<Longrightarrow> slots_ok t' \<Longrightarrow> tree_step (t, S) [] (t', S)"

inductive tree_run :: "Btr \<times> splits \<Rightarrow> byte list list \<Rightarrow> Btr \<times> splits \<Rightarrow> bool" where
  tree_nil: "tree_run c [] c"
| tree_cons: "tree_step c xs c' \<Longrightarrow> tree_run c' ys c'' \<Longrightarrow> tree_run c (xs @ ys) c''"

definition splits_ok :: "Btr \<Rightarrow> splits \<Rightarrow> bool" where
  "splits_ok t S \<longleftrightarrow> (\<forall>(lv, k, v) \<in> S. pending t lv k v)"

lemma pending_unique: "pending t lv k v \<Longrightarrow> pending t lv' k' v \<Longrightarrow> lv = lv' \<and> k = k'"
  by (auto simp: pending_def node_at_def)

lemma pending_grows:
  assumes "grows t t'" "pending t lv k v" "unlinked t' v"
  shows "pending t' lv k v"
  using assms by (auto simp: pending_def grows_def same_conf_def)

lemma tree_step_refines:
  assumes "tree_step (t, S) vs (t', S')" "blink t" "splits_ok t S"
  shows "blink t' \<and> splits_ok t' S' \<and> index_scheme t' = index_scheme t \<and> stored t' = foldl (\<lambda>R v. with_record (index_scheme t) v R) (stored t) vs"
  using assms(1)
proof cases
  case (leaf a p v lg split)
  note L = store_leaf_step [OF assms(2) leaf(3-7)]
  have "pending t' lv k c" if "(lv, k, c) \<in> S" for lv k c
  proof -
    have pd: "pending t lv k c" using that assms(3) by (auto simp: splits_ok_def)
    then show ?thesis using pending_grows [OF L(2) pd] L(6) by (auto simp: pending_def)
  qed
  then have "splits_ok t' S'" using L(5) leaf(2) by (auto simp: splits_ok_def new_split_def split: option.splits)
  then show ?thesis using L leaf(1) by (simp add: grows_def same_conf_def)
next
  case (separator a p k v lg split)
  have pv: "pending t (page_level p - 1) k v" using separator(6) assms(3) by (auto simp: splits_ok_def)
  note L = store_internal_step [OF assms(2) separator(3-5) pv separator(7)]
  have "pending t' lv k' c" if c: "(lv, k', c) \<in> S - {(page_level p - 1, k, v)}" for lv k' c
  proof -
    have pd: "pending t lv k' c" using c assms(3) by (auto simp: splits_ok_def)
    then have "c \<noteq> v" using pending_unique [OF pv] c by auto
    then show ?thesis using pending_grows [OF L(2) pd] L(6) [of c] pd by (auto simp: pending_def node_at_def)
  qed
  then have "splits_ok t' S'" using L(5) separator(2) by (auto simp: splits_ok_def new_split_def split: option.splits)
  then show ?thesis using L separator(1) by (simp add: grows_def same_conf_def)
next
  case (root r k v lg)
  have pv: "pending t (page_level r) k v" using root(5) assms(3) by (auto simp: splits_ok_def)
  note L = update_new_root_step [OF assms(2) root(3) refl root(4) pv root(6)]
  have "pending t' lv k' c" if c: "(lv, k', c) \<in> S - {(page_level r, k, v)}" for lv k' c
  proof -
    have pd: "pending t lv k' c" using c assms(3) by (auto simp: splits_ok_def)
    then show ?thesis using L(10) [of c lv k'] pending_unique [OF pv] c by auto
  qed
  then have "splits_ok t' S'" using root(2) by (auto simp: splits_ok_def)
  then show ?thesis using L root(1) by (simp add: grows_def same_conf_def)
next
  case other
  have c: "same_conf t t'" "pages t' = pages t" "index_root t' = index_root t" using other(3) by (simp_all add: same_shared_def)
  have n: "node_at t' = node_at t" using c by (intro ext) (simp add: node_at_def same_conf_def)
  have "blink t'" using assms(2) other(4) c conf_ok_conf [OF c(1)] page_ok_conf [OF c(1)]
    unfolding blink_iff links_ok_def root_ok_def n by (simp add: same_conf_def)
  moreover have "splits_ok t' S'" using assms(3) c other(2) n by (simp add: splits_ok_def pending_def unlinked_def same_conf_def)
  moreover have "stored t' = stored t" using c by (simp add: stored_def)
  ultimately show ?thesis using other(1) c(1) by (simp add: same_conf_def)
qed

text \<open>
  C1: Whatever the latched page accesses of the inserting threads interleave (leaf stores with their splits,
  separators added to the level above at any later time, new roots), the B-link invariant holds after each
  of them, every separator that is still missing above stays insertable exactly once, and the records in the tree
  are those of the corresponding sequence of atomic insertions into a map.
\<close>
theorem interleavings_refine_map:
  assumes "tree_run (t, S) vs (t', S')" "blink t" "splits_ok t S"
  shows "blink t' \<and> splits_ok t' S' \<and> stored t' = foldl (\<lambda>R v. with_record (index_scheme t) v R) (stored t) vs"
proof -
  have "index_scheme t' = index_scheme t \<and> blink t' \<and> splits_ok t' S' \<and> stored t' = foldl (\<lambda>R v. with_record (index_scheme t) v R) (stored t) vs"
    using assms
  proof (induction "(t, S)" vs "(t', S')" arbitrary: t S rule: tree_run.induct)
    case (tree_cons xs c' ys)
    obtain t1 S1 where c': "c' = (t1, S1)" by (cases c')
    note L = tree_step_refines [OF tree_cons(1) [unfolded c'] tree_cons(4,5)]
    show ?case using L tree_cons(3) [OF c'] by simp
  qed simp
  then show ?thesis by blast
qed

section \<open>Searching\<close>

text \<open>A tree without unfinished splits: the child to which an internal page sends a key covers it, and the root
  covers all keys.\<close>

definition complete :: "Btr \<Rightarrow> bool" where
  "complete t \<longleftrightarrow> (let s = index_scheme t in
     (\<forall>a p k. pages t a = Some p \<longrightarrow> 0 < page_level p \<longrightarrow> key_ok s k \<longrightarrow> in_page s k p
        \<longrightarrow> (\<exists>q. pages t (InternalPage_search k s p) = Some q \<and> page_level q = page_level p - 1 \<and> in_page s k q))
     \<and> (\<exists>r. pages t (index_root t) = Some r \<and> GetHighest s r = key_max t))"

text \<open>The root pointer of the node, possibly of an earlier root.\<close>

definition local_ok :: "Btr \<Rightarrow> bool" where
  "local_ok t \<longleftrightarrow> (g_root_ptr t = GlobalAddress_Null \<or> g_root_ptr t = cached_root t)
     \<and> (cached_root t = GlobalAddress_Null \<or> node_at t (cached_root t) (tree_height t) (key_min t))"

definition search_frame :: "Btr \<Rightarrow> Btr \<Rightarrow> bool" where
  "search_frame t t' \<longleftrightarrow> same_shared t t' \<and> free_slots t' = free_slots t \<and> cached_root t' = cached_root t \<and> tree_height t' = tree_height t
     \<and> root_lock t' = root_lock t \<and> num_of_record t' = num_of_record t \<and> redo t' = redo t
     \<and> (g_root_ptr t' = g_root_ptr t \<or> g_root_ptr t' = GlobalAddress_Null)"

lemma search_frame_refl [simp]: "search_frame t t"
  by (simp add: search_frame_def same_shared_def same_conf_def)

lemma search_frame_trans: "search_frame t t' \<Longrightarrow> search_frame t' t'' \<Longrightarrow> search_frame t t''"
  by (auto simp: search_frame_def same_shared_def same_conf_def)

lemma blink_shared:
  assumes "blink t" "same_shared t t'" "free_slots t' = free_slots t"
  shows "blink t'" "complete t' = complete t" "stored t' = stored t"
proof -
  have c: "same_conf t t'" "pages t' = pages t" "index_root t' = index_root t" using assms(2) by (simp_all add: same_shared_def)
  have "slots_ok t'" using assms(1,3) c by (simp add: blink_iff slots_ok_def)
  then show "blink t'" using tree_step_refines [OF tree_step.other [OF assms(2), of "{}"] assms(1)] by (simp add: splits_ok_def)
  show "complete t' = complete t" using c by (simp add: complete_def same_conf_def)
  show "stored t' = stored t" using c by (simp add: stored_def)
qed

definition key_in :: "Btr \<Rightarrow> byte list \<Rightarrow> bool" where
  "key_in t k \<longleftrightarrow> key_ok (index_scheme t) k \<and> 0 \<le> key_compare (index_scheme t) k (key_min t) \<and> key_compare (index_scheme t) k (key_max t) < 0"

text \<open>Visiting a page: the state changes in the frame only, and the page or a page to its right takes over.\<close>

lemma visit_page_frame:
  "visit_page a k r isroot sc p t = Return b r' t' \<Longrightarrow> search_frame t t'"
  "visit_page a k r isroot sc p t = TurnRight g r' t' \<Longrightarrow> search_frame t t'"
  by (auto simp: visit_page_def Let_def invalidate_upper_def invalidate_root_def search_frame_def same_shared_def same_conf_def split: if_splits)

lemma visit_page_cases:
  assumes "visit_page a k r isroot sc p t = v"
  shows "case v of
      TurnRight g r' t' \<Rightarrow> \<not> key_lt t k (GetHighest (index_scheme t) p) \<and> 0 < page_level p \<and> g = sibling_ptr p
    | Return b r' t' \<Rightarrow> r_level r' = page_level p \<and> slibing r' = GlobalAddress_Null
        \<and> (b \<longrightarrow> key_lt t k (GetHighest (index_scheme t) p)
             \<and> (if page_level p = 0 then next_level r' = GlobalAddress_Null
                else \<not> key_lt t k (GetLowest (index_scheme t) p) \<and> next_level r' = InternalPage_search k (index_scheme t) p
                  \<and> path_stack t' = (path_stack t)(page_level p := a)))
        \<and> (\<not> b \<longrightarrow> \<not> key_lt t k (GetHighest (index_scheme t) p) \<or> key_lt t k (GetLowest (index_scheme t) p))"
  using assms
  by (auto simp: visit_page_def Let_def SearchResult_Reset_def split: if_splits)

lemma turn_right_ok:
  assumes "blink t0" "key_in t0 k" "search_frame t0 t" "pages t0 g = Some p" "page_level p = lv" "0 < lv"
    "\<not> key_lt t0 k (GetLowest (index_scheme t0) p)"
  shows "\<exists>b r' t'. turn_right k (TurnRight g r t) = Some (b, r', t') \<and> search_frame t0 t' \<and> r_level r' = lv \<and> slibing r' = GlobalAddress_Null
    \<and> (b \<longrightarrow> (\<exists>c q. pages t0 c = Some q \<and> page_level q = lv \<and> in_page (index_scheme t0) k q \<and> next_level r' = InternalPage_search k (index_scheme t0) q))"
  using assms(2-7)
proof (induction k "TurnRight g r t" arbitrary: g r t p rule: turn_right.induct)
  case (2 k g r t)
  let ?s = "index_scheme t0"
  have fr: "index_scheme t = ?s" "pages t = pages t0" using 2(3) by (auto simp: search_frame_def same_shared_def same_conf_def)
  let ?v = "visit_page g k r False False p t"
  note V = visit_page_cases [where a = g and k = k and r = r and isroot = False and sc = False and p = p and t = t, OF refl] and F = visit_page_frame [of g k r False False p t]
  show ?case
  proof (cases ?v)
    case (Return b r' t')
    then show ?thesis
      using V F(1) [OF Return] search_frame_trans [OF 2(3)] 2(4-7) fr by (fastforce simp: in_page_def)
  next
    case (TurnRight g' r' t')
    have hi: "\<not> key_lt t0 k (GetHighest ?s p)" "g' = sibling_ptr p" using V TurnRight fr by simp_all
    have "sibling_ptr p \<noteq> GlobalAddress_Null"
      using blinkD(4) [OF assms(1) 2(4)] hi 2(2) by (auto simp: key_in_def)
    then obtain q where q: "pages t0 g' = Some q" "page_level q = lv" "GetLowest ?s q = GetHighest ?s p"
      using blinkD(3) [OF assms(1) 2(4)] 2(5) hi(2) by (auto simp: node_at_def)
    have "search_frame t0 t'" using F(2) [OF TurnRight] search_frame_trans [OF 2(3)] by blast
    then show ?thesis using 2(1) [OF _ TurnRight, of q] 2(2,4,6) q hi fr TurnRight by simp
  qed
qed

text \<open>Reading the leaf that covers a key.\<close>

definition answers :: "Btr \<Rightarrow> byte list \<Rightarrow> byte list option \<Rightarrow> bool" where
  "answers t k res \<longleftrightarrow> (\<forall>v. res = Some v \<longleftrightarrow> v \<in> stored t \<and> key_compare (index_scheme t) k (rec_key (index_scheme t) v) = 0)"

lemma covering_leaf:
  assumes "blink t" "pages t a = Some p" "page_level p = 0" "in_page (index_scheme t) k p" "key_ok (index_scheme t) k"
  shows "answers t k (find_rec (index_scheme t) k (entries p))"
proof -
  let ?s = "index_scheme t"
  have so: "sorted_recs ?s (entries p)" using page_okD(1) [OF blinkD(1) [OF assms(1,2)]] by (simp add: sorted_page_def)
  have "v \<in> stored t \<and> key_compare ?s k (rec_key ?s v) = 0" if "find_rec ?s k (entries p) = Some v" for v
    using that assms(2,3) by (auto simp: find_rec_def find_Some_iff stored_def simp del: nth_recs intro!: exI nth_mem)
  moreover have "find_rec ?s k (entries p) = Some v" if v: "v \<in> stored t" "key_compare ?s k (rec_key ?s v) = 0" for v
  proof -
    obtain b q where q: "pages t b = Some q" "page_level q = 0" "v \<in> set (entries q)" using v(1) by (auto simp: stored_def)
    note Q = page_okD [OF blinkD(1) [OF assms(1) q(1)]]
    have "in_page ?s k q"
      using Q(6) [OF q(3)] key.equal_left [OF assms(5) Q(7) [OF q(3)] Q(3) v(2)] key.equal_left [OF assms(5) Q(7) [OF q(3)] Q(4) v(2)]
      by (auto simp: in_page_def)
    then have "b = a" using cover_unique [OF assms(1) q(1) assms(2) _ assms(5) _ assms(4)] q(2) assms(3) by simp
    then have "v \<in> set (entries p)" using q assms(2) by simp
    then obtain i where "i < length (entries p)" "entries p ! i = v" by (metis in_set_conv_nth)
    then show ?thesis using find_rec_at [OF descending_recs [OF so assms(5)], of i] v(2) by (simp add: rec_cmp_def del: nth_recs)
  qed
  ultimately show ?thesis unfolding answers_def by blast
qed

definition no_empty_leaf :: "Btr \<Rightarrow> bool" where
  "no_empty_leaf t \<longleftrightarrow> (\<forall>a p. pages t a = Some p \<longrightarrow> page_level p = 0 \<longrightarrow> 0 < cnt p)"

lemma search_leaf_ok:
  assumes "blink t0" "key_ok (index_scheme t0) k" "search_frame t0 t" "pages t0 a = Some p" "page_level p = 0" "in_page (index_scheme t0) k p" "no_empty_leaf t0"
  shows "\<exists>res t'. search_loop k True a r lvl isroot t = Some (res, t') \<and> search_frame t0 t' \<and> answers t0 k res"
proof -
  let ?s = "index_scheme t0"
  have fr: "index_scheme t = ?s" "pages t = pages t0" using assms(3) by (auto simp: search_frame_def same_shared_def same_conf_def)
  have "sorted_page ?s (GetRecordTotalSize ?s) p" using page_okD(1) [OF blinkD(1) [OF assms(1,4)]] assms(5) by (simp add: rsz_def)
  moreover have "0 < cnt p" using assms(4,5,7) by (auto simp: no_empty_leaf_def)
  ultimately have find: "leaf_page_search k ?s p = find_rec ?s k (entries p)" using leaf_search_find assms(2) by blast
  have ans: "answers t0 k (find_rec ?s k (entries p))" using covering_leaf [OF assms(1,4,5,6,2)] .
  have rg: "key_lt t0 k (GetHighest ?s p)" "\<not> key_lt t0 k (GetLowest ?s p)" using assms(6) by (simp_all add: in_page_def)
  define t1 where "t1 = t\<lparr>path_stack := (path_stack t)(0 := a), nested_retry_counter := 0\<rparr>"
  have f1: "search_frame t0 t1" using assms(3) by (simp add: t1_def search_frame_def same_shared_def same_conf_def)
  show ?thesis
  proof (cases "find_rec ?s k (entries p)")
    case None
    then have "search_loop k True a r lvl isroot t = Some (None, t1)"
      using assms(4,5) rg find by (subst search_loop.simps) (simp add: Btr_leaf_page_search_def fr Let_def SearchResult_Reset_def t1_def)
    then show ?thesis using ans f1 None by auto
  next
    case (Some v)
    then have "search_loop k True a r lvl isroot t = Some (Some v, t1)"
      using assms(4,5) rg find by (subst search_loop.simps) (simp add: Btr_leaf_page_search_def fr Let_def SearchResult_Reset_def t1_def)
    then show ?thesis using ans f1 Some by auto
  qed
qed

text \<open>From a page that covers the key down to the leaf.\<close>

lemma next_covered:
  assumes "blink t" "complete t" "pages t a = Some p" "0 < page_level p" "key_ok (index_scheme t) k" "in_page (index_scheme t) k p"
  obtains q where "pages t (InternalPage_search k (index_scheme t) p) = Some q" "page_level q = page_level p - 1" "in_page (index_scheme t) k q"
    "InternalPage_search k (index_scheme t) p \<noteq> GlobalAddress_Null"
  using assms blinkD(5) [OF assms(1)] unfolding complete_def Let_def by metis

lemma search_from_next:
  assumes "blink t0" "complete t0" "key_ok (index_scheme t0) k" "no_empty_leaf t0" "search_frame t0 t"
    "pages t0 (next_level r) = Some q" "page_level q = lv" "in_page (index_scheme t0) k q" "next_level r \<noteq> GlobalAddress_Null"
    "slibing r = GlobalAddress_Null" "r_level r = Suc lv"
  shows "\<exists>res t'. (case next_page a r l of (p, level) \<Rightarrow> search_loop k (\<not> (level \<noteq> 0 \<and> level \<noteq> - 1)) p r level False t) = Some (res, t')
    \<and> search_frame t0 t' \<and> answers t0 k res"
  using assms(5-11)
proof (induction lv arbitrary: t r q a l)
  case 0
  then show ?case
    using search_leaf_ok [OF assms(1,3) 0(1,2,3,4) assms(4)] by (simp add: next_page_def)
next
  case (Suc lv)
  let ?s = "index_scheme t0" and ?n = "next_level r"
  have fr: "index_scheme t = ?s" "pages t = pages t0" using Suc.prems(1) by (auto simp: search_frame_def same_shared_def same_conf_def)
  have lq: "0 < page_level q" "page_level q = Suc lv" using Suc.prems(3) by simp_all
  obtain q' where q': "pages t0 (InternalPage_search k ?s q) = Some q'" "page_level q' = lv" "in_page ?s k q'"
      "InternalPage_search k ?s q \<noteq> GlobalAddress_Null"
    using next_covered [OF assms(1,2) Suc.prems(2) lq(1) assms(3) Suc.prems(4)] lq(2) by auto
  define r1 where "r1 = (SearchResult_Reset r)\<lparr>r_level := Suc lv, next_level := InternalPage_search k ?s q\<rparr>"
  define t1 where "t1 = t\<lparr>path_stack := (path_stack t)(Suc lv := ?n), nested_retry_counter := 0\<rparr>"
  have rg: "key_lt t0 k (GetHighest ?s q)" "\<not> key_lt t0 k (GetLowest ?s q)" using Suc.prems(4) by (simp_all add: in_page_def)
  have "visit_page ?n k r False False q t = Return True r1 t1"
    using rg lq(2) by (simp add: visit_page_def Let_def fr r1_def t1_def)
  then have "Btr_internal_page_search ?n k r (int (Suc lv)) False t = Some (True, r1, int (Suc lv), t1)"
    using Suc.prems(2) by (simp add: Btr_internal_page_search_def fr r1_def)
  then have step: "search_loop k False ?n r (int (Suc lv)) False t =
      (case next_page ?n r1 (int (Suc lv)) of (p, level) \<Rightarrow> search_loop k (\<not> (level \<noteq> 0 \<and> level \<noteq> - 1)) p r1 level False t1)"
    by (subst search_loop.simps) simp
  have f1: "search_frame t0 t1" using Suc.prems(1) by (simp add: t1_def search_frame_def same_shared_def same_conf_def)
  have "next_page a r l = (?n, int (Suc lv))" using Suc.prems(5-7) by (simp add: next_page_def)
  moreover have "\<not> \<not> (int (Suc lv) \<noteq> 0 \<and> int (Suc lv) \<noteq> - 1)" by simp
  ultimately show ?case
    using Suc.IH [OF f1, of r1 q' ?n "int (Suc lv)"] q' step by (simp add: r1_def SearchResult_Reset_def)
qed

text \<open>The root.\<close>

lemma local_ok_frame:
  assumes "local_ok t" "search_frame t t'"
  shows "local_ok t'"
  using assms by (auto simp: local_ok_def search_frame_def same_shared_def same_conf_def node_at_def)

definition refetched :: "Btr \<Rightarrow> Btr \<Rightarrow> bool" where
  "refetched t t' \<longleftrightarrow> same_shared t t' \<and> free_slots t' = free_slots t \<and> num_of_record t' = num_of_record t \<and> redo t' = redo t
     \<and> root_lock t' = root_lock t \<and> path_stack t' = path_stack t \<and> nested_retry_counter t' = nested_retry_counter t
     \<and> cached_root t' = index_root t \<and> g_root_ptr t' = index_root t \<and> local_ok t'"

lemma refetch_root:
  assumes "blink t" "local_ok t"
  obtains t' where "refetch_rootnode t = Some t'" "refetched t t'"
proof -
  obtain r where r: "pages t (index_root t) = Some r" "GetLowest (index_scheme t) r = key_min t" using assms(1) by (auto simp: blink_iff root_ok_def)
  have nn: "index_root t \<noteq> GlobalAddress_Null" using blinkD(5) [OF assms(1) r(1)] .
  show thesis
  proof (cases "cached_root t = index_root t")
    case True
    then show thesis using that [of "t\<lparr>g_root_ptr := index_root t\<rparr>"] nn assms(2)
      by (simp add: refetch_rootnode_def refetched_def same_shared_def same_conf_def local_ok_def node_at_def)
  next
    case False
    then show thesis using that [of "t\<lparr>cached_root := index_root t, g_root_ptr := index_root t, tree_height := page_level r\<rparr>"] nn r
      by (simp add: refetch_rootnode_def refetched_def same_shared_def same_conf_def local_ok_def node_at_def)
  qed
qed

lemma search_cached_root:
  assumes "blink t" "complete t" "key_ok (index_scheme t) k" "no_empty_leaf t" "pages t (cached_root t) = Some p" "in_page (index_scheme t) k p"
  shows "\<exists>res t'. search_loop k False (cached_root t) r l True t = Some (res, t') \<and> search_frame t t' \<and> answers t k res"
proof -
  let ?s = "index_scheme t" and ?c = "cached_root t"
  have nn: "?c \<noteq> GlobalAddress_Null" using blinkD(5) [OF assms(1,5)] .
  have rg: "key_lt t k (GetHighest ?s p)" "\<not> key_lt t k (GetLowest ?s p)" using assms(6) by (simp_all add: in_page_def)
  have h: "root_handle ?c t = Some (True, t)" using nn by (simp add: root_handle_def)
  show ?thesis
  proof (cases "page_level p = 0")
    case True
    define r1 where "r1 = (SearchResult_Reset r)\<lparr>r_level := 0\<rparr>"
    define t1 where "t1 = t\<lparr>path_stack := (path_stack t)(0 := ?c)\<rparr>"
    have "visit_page ?c k r True True p t = Return True r1 t1" using rg True by (simp add: visit_page_def Let_def r1_def t1_def)
    then have "Btr_internal_page_search ?c k r l True t = Some (True, r1, 0, t1)"
      using assms(5) h by (simp add: Btr_internal_page_search_def r1_def)
    moreover have "next_page ?c r1 0 = (?c, 0)" by (simp add: next_page_def r1_def SearchResult_Reset_def)
    ultimately have "search_loop k False ?c r l True t = search_loop k True ?c r1 0 False t1" by (subst search_loop.simps) simp
    moreover have "search_frame t t1" by (simp add: t1_def search_frame_def same_shared_def same_conf_def)
    ultimately show ?thesis using search_leaf_ok [OF assms(1,3) _ assms(5) True assms(6,4), of t1 r1 0 False] by simp
  next
    case False
    define r1 where "r1 = (SearchResult_Reset r)\<lparr>r_level := page_level p, next_level := InternalPage_search k ?s p\<rparr>"
    define t1 where "t1 = t\<lparr>path_stack := (path_stack t)(page_level p := ?c), nested_retry_counter := 0\<rparr>"
    have "visit_page ?c k r True True p t = Return True r1 t1" using rg False by (simp add: visit_page_def Let_def r1_def t1_def)
    then have "Btr_internal_page_search ?c k r l True t = Some (True, r1, int (page_level p), t1)"
      using assms(5) h by (simp add: Btr_internal_page_search_def r1_def)
    then have step: "search_loop k False ?c r l True t =
        (case next_page ?c r1 (int (page_level p)) of (p, level) \<Rightarrow> search_loop k (\<not> (level \<noteq> 0 \<and> level \<noteq> - 1)) p r1 level False t1)"
      by (subst search_loop.simps) simp
    obtain q where q: "pages t (InternalPage_search k ?s p) = Some q" "page_level q = page_level p - 1" "in_page ?s k q" "InternalPage_search k ?s p \<noteq> GlobalAddress_Null"
      using next_covered [OF assms(1,2,5) _ assms(3,6)] False by auto
    have "search_frame t t1" by (simp add: t1_def search_frame_def same_shared_def same_conf_def)
    then show ?thesis unfolding step
      using search_from_next [OF assms(1-4), of t1 r1 q "page_level p - 1" ?c "int (page_level p)"] q False by (simp add: r1_def SearchResult_Reset_def)
  qed
qed

text \<open>A failed visit of an old root: the root is fetched again, and the new root covers the key.\<close>

lemma search_after_refetch:
  assumes "blink t" "complete t" "key_in t k" "no_empty_leaf t" "local_ok t" "search_frame t t1" "g_root_ptr t1 = GlobalAddress_Null"
  shows "\<exists>res t'. (case get_root_ptr_protected t1 of None \<Rightarrow> None | Some (p, t) \<Rightarrow> search_loop k False p r (- 1) True t) = Some (res, t')
    \<and> same_shared t t' \<and> free_slots t' = free_slots t \<and> num_of_record t' = num_of_record t \<and> redo t' = redo t \<and> local_ok t' \<and> answers t k res"
proof -
  have sh: "same_shared t t1" "free_slots t1 = free_slots t" using assms(6) by (simp_all add: search_frame_def)
  note B1 = blink_shared [OF assms(1) sh]
  obtain t2 where t2: "refetch_rootnode t1 = Some t2" "refetched t1 t2" using refetch_root [OF B1(1) local_ok_frame [OF assms(5,6)]] .
  have sh2: "same_shared t t2" "free_slots t2 = free_slots t" using sh t2(2) by (auto simp: refetched_def same_shared_def same_conf_def)
  note B2 = blink_shared [OF assms(1) sh2]
  have cr: "cached_root t2 = index_root t2" "g_root_ptr t2 = cached_root t2" "index_scheme t2 = index_scheme t" "pages t2 = pages t" "key_min t2 = key_min t" "key_max t2 = key_max t"
    using t2(2) sh2 by (auto simp: refetched_def same_shared_def same_conf_def)
  obtain p where p: "pages t2 (index_root t2) = Some p" "GetLowest (index_scheme t2) p = key_min t2" using B2(1) by (auto simp: blink_iff root_ok_def)
  have "GetHighest (index_scheme t2) p = key_max t2" using B2(2) assms(2) p(1) by (auto simp: complete_def Let_def)
  then have "in_page (index_scheme t2) k p" using p(2) assms(3) cr by (simp add: in_page_def key_in_def)
  moreover have "key_ok (index_scheme t2) k" "no_empty_leaf t2" "complete t2" using assms(2-4) cr B2(2) by (simp_all add: key_in_def no_empty_leaf_def)
  ultimately obtain res t' where R: "search_loop k False (cached_root t2) r (- 1) True t2 = Some (res, t')" "search_frame t2 t'" "answers t2 k res"
    using search_cached_root [OF B2(1), of k p r "- 1"] p(1) cr(1) by auto
  have "get_root_ptr_protected t1 = Some (cached_root t2, t2)"
    using assms(7) t2(1) cr(2) by (simp add: get_root_ptr_protected_def get_root_ptr_def)
  moreover have "local_ok t'" using local_ok_frame [OF _ R(2)] t2(2) by (simp add: refetched_def)
  moreover have "answers t k res" using R(3) cr(3) B2(3) by (simp add: answers_def)
  ultimately show ?thesis using R(1,2) sh2 t2(2) assms(6)
    by (auto simp: search_frame_def refetched_def same_shared_def same_conf_def)
qed

lemma search_stale_root:
  assumes "blink t" "complete t" "key_in t k" "no_empty_leaf t" "local_ok t" "g_root_ptr t = cached_root t"
    "pages t (cached_root t) = Some p" "\<not> key_lt t k (GetHighest (index_scheme t) p)" "GetLowest (index_scheme t) p = key_min t"
  shows "\<exists>res t'. search_loop k False (cached_root t) r l True t = Some (res, t')
    \<and> same_shared t t' \<and> free_slots t' = free_slots t \<and> num_of_record t' = num_of_record t \<and> redo t' = redo t \<and> local_ok t' \<and> answers t k res"
proof -
  let ?s = "index_scheme t" and ?c = "cached_root t" and ?lv = "page_level p"
  have nn: "?c \<noteq> GlobalAddress_Null" using blinkD(5) [OF assms(1,7)] .
  have h: "root_handle ?c t = Some (True, t)" using nn by (simp add: root_handle_def)
  let ?v = "visit_page ?c k r True True p t"
  note V = visit_page_cases [where a = ?c and k = k and r = r and isroot = True and sc = True and p = p and t = t, OF refl]
  have g: "\<And>b r' t'. ?v = Return b r' t' \<Longrightarrow> g_root_ptr t' = GlobalAddress_Null" "\<And>a r' t'. ?v = TurnRight a r' t' \<Longrightarrow> g_root_ptr t' = GlobalAddress_Null"
    using assms(6,8) by (auto simp: visit_page_def Let_def invalidate_upper_def invalidate_root_def split: if_splits)
  have retry: ?thesis
    if "turn_right k ?v = Some (False, r', t1)" "search_frame t t1" "g_root_ptr t1 = GlobalAddress_Null" for r' t1
  proof -
    have "Btr_internal_page_search ?c k r l True t = Some (False, r', int (r_level r'), t1)"
      using that(1) assms(7) h by (simp add: Btr_internal_page_search_def)
    then have "search_loop k False ?c r l True t = (case get_root_ptr_protected t1 of None \<Rightarrow> None | Some (p, t) \<Rightarrow> search_loop k False p r' (- 1) True t)"
      by (subst search_loop.simps) simp
    then show ?thesis using search_after_refetch [OF assms(1-5) that(2,3), of r'] by simp
  qed
  show ?thesis
  proof (cases ?v)
    case (Return b r' t')
    then have "\<not> b" using V assms(8) by auto
    then show ?thesis using retry [of r' t'] Return visit_page_frame(1) [OF Return] g(1) [OF Return] by simp
  next
    case (TurnRight g' r' t1)
    have f1: "search_frame t t1" using visit_page_frame(2) [OF TurnRight] .
    have v: "g' = sibling_ptr p" "0 < ?lv" using V TurnRight by simp_all
    have "sibling_ptr p \<noteq> GlobalAddress_Null" using blinkD(4) [OF assms(1,7)] assms(3,8) by (auto simp: key_in_def)
    then obtain q where q: "pages t g' = Some q" "page_level q = ?lv" "GetLowest ?s q = GetHighest ?s p"
      using blinkD(3) [OF assms(1,7)] v(1) by (auto simp: node_at_def)
    then have "\<not> key_lt t k (GetLowest ?s q)" using assms(8) by simp
    from turn_right_ok [OF assms(1,3) f1 q(1,2) v(2) this, of r'] obtain b r2 t2 where
      R: "turn_right k (TurnRight g' r' t1) = Some (b, r2, t2)" "search_frame t t2" "r_level r2 = ?lv" "slibing r2 = GlobalAddress_Null"
        "b \<longrightarrow> (\<exists>c q. pages t c = Some q \<and> page_level q = ?lv \<and> in_page ?s k q \<and> next_level r2 = InternalPage_search k ?s q)"
      by blast
    have "search_frame t1 t2"
    proof -
      have "search_frame t1 t1" by simp
      moreover have sh: "same_shared t t1" "free_slots t1 = free_slots t" using f1 by (simp_all add: search_frame_def)
      moreover have "key_in t1 k" "index_scheme t1 = ?s" "pages t1 = pages t" using assms(3) sh by (auto simp: key_in_def same_shared_def same_conf_def)
      ultimately show ?thesis using turn_right_ok [OF blink_shared(1) [OF assms(1) sh], of k t1 g' q ?lv r'] q v(2) assms(8) R(1) by auto
    qed
    then have g2: "g_root_ptr t2 = GlobalAddress_Null" using g(2) [OF TurnRight] by (auto simp: search_frame_def)
    show ?thesis
    proof (cases b)
      case False
      then show ?thesis using retry [of r2 t2] R(1,2) g2 TurnRight by simp
    next
      case True
      then obtain c p2 where p2: "pages t c = Some p2" "page_level p2 = ?lv" "in_page ?s k p2" "next_level r2 = InternalPage_search k ?s p2" using R(5) by blast
      have kok: "key_ok ?s k" using assms(3) by (simp add: key_in_def)
      obtain q2 where q2: "pages t (InternalPage_search k ?s p2) = Some q2" "page_level q2 = page_level p2 - 1" "in_page ?s k q2" "InternalPage_search k ?s p2 \<noteq> GlobalAddress_Null"
        using next_covered [OF assms(1,2) p2(1) _ kok p2(3)] v(2) p2(2) by auto
      have "Btr_internal_page_search ?c k r l True t = Some (True, r2, int ?lv, t2)"
        using R(1,3) True TurnRight assms(7) h by (simp add: Btr_internal_page_search_def)
      then have "search_loop k False ?c r l True t =
          (case next_page ?c r2 (int ?lv) of (p, level) \<Rightarrow> search_loop k (\<not> (level \<noteq> 0 \<and> level \<noteq> - 1)) p r2 level False t2)"
        by (subst search_loop.simps) simp
      then obtain res t' where "search_loop k False ?c r l True t = Some (res, t')" "search_frame t t'" "answers t k res"
        using search_from_next [OF assms(1,2) kok assms(4) R(2), of r2 q2 "?lv - 1" ?c "int ?lv"] q2 p2 R(3,4) v(2) by auto
      then show ?thesis using local_ok_frame [OF assms(5)] by (auto simp: search_frame_def)
    qed
  qed
qed

lemma search_ok:
  assumes "blink t" "complete t" "local_ok t" "key_in t k" "no_empty_leaf t"
  shows "\<exists>res t'. Btr_search k t = Some (res, t') \<and> same_shared t t' \<and> local_ok t'
    \<and> (\<forall>v. res = Some v \<longleftrightarrow> v \<in> stored t \<and> key_compare (index_scheme t) k (rec_key (index_scheme t) v) = 0)"
proof -
  define t0 where "t0 = before_operation t"
  have fr: "search_frame t t0" by (simp add: t0_def before_operation_def search_frame_def same_shared_def same_conf_def)
  have sh: "same_shared t t0" "free_slots t0 = free_slots t" using fr by (simp_all add: search_frame_def)
  note B = blink_shared [OF assms(1) sh]
  have L: "local_ok t0" "key_in t0 k" "no_empty_leaf t0" "complete t0" "index_scheme t0 = index_scheme t" "key_min t0 = key_min t"
    using local_ok_frame [OF assms(3) fr] assms sh B(2) by (auto simp: key_in_def no_empty_leaf_def same_shared_def same_conf_def)
  have kok: "key_ok (index_scheme t0) k" using L(2) by (simp add: key_in_def)
  have "\<exists>res t'. (case get_root_ptr_protected t0 of None \<Rightarrow> None | Some (root, t) \<Rightarrow> search_loop k False root SearchResult_0 (- 1) True t) = Some (res, t')
      \<and> same_shared t0 t' \<and> local_ok t' \<and> answers t0 k res"
  proof (cases "g_root_ptr t0 = GlobalAddress_Null")
    case True
    show ?thesis using search_after_refetch [OF B(1) L(4,2,3,1) search_frame_refl True, of SearchResult_0] by blast
  next
    case False
    then have g: "g_root_ptr t0 = cached_root t0" "cached_root t0 \<noteq> GlobalAddress_Null" using L(1) by (auto simp: local_ok_def)
    then obtain p where p: "pages t0 (cached_root t0) = Some p" "GetLowest (index_scheme t0) p = key_min t0" using L(1) by (auto simp: local_ok_def node_at_def)
    show ?thesis
    proof (cases "key_lt t0 k (GetHighest (index_scheme t0) p)")
      case True
      then have "in_page (index_scheme t0) k p" using p(2) L(2) by (simp add: in_page_def key_in_def)
      from search_cached_root [OF B(1) L(4) kok L(3) p(1) this, of SearchResult_0 "- 1"]
      show ?thesis using g local_ok_frame [OF L(1)] by (auto simp: get_root_ptr_protected_def search_frame_def)
    next
      case False
      from search_stale_root [OF B(1) L(4,2,3,1) g(1) p(1) False p(2), of SearchResult_0 "- 1"]
      show ?thesis using g by (auto simp: get_root_ptr_protected_def)
    qed
  qed
  then show ?thesis using sh(1) B(3) L(5) unfolding Btr_search_def t0_def [symmetric]
    by (auto simp: answers_def same_shared_def same_conf_def)
qed



end
