(* ===== verification/Btree_Insert.thy ===== *)
theory Btree_Insert
  imports Btree_Correct
begin

text \<open>
  \<^verbatim>\<open>Btr::insert\<close> by one thread on a tree without unfinished splits: it returns, all splits it causes reach the
  levels above them (up to a new root), and the tree is again one without unfinished splits.
\<close>


section \<open>Routes\<close>

text \<open>A search for \<open>k\<close> that is sent to \<open>c\<close> finds \<open>k\<close> there, or in the sibling of \<open>c\<close> if that is one of the new
  pages \<open>X\<close>.\<close>

definition lands :: "Btr \<Rightarrow> GlobalAddress set \<Rightarrow> byte list \<Rightarrow> GlobalAddress \<Rightarrow> bool" where
  "lands t X k c \<longleftrightarrow> (\<exists>q. pages t c = Some q \<and> (in_page (index_scheme t) k q
     \<or> (\<exists>r. sibling_ptr q \<in> X \<and> pages t (sibling_ptr q) = Some r \<and> in_page (index_scheme t) k r)))"

definition routes :: "Btr \<Rightarrow> GlobalAddress set \<Rightarrow> bool" where
  "routes t X \<longleftrightarrow> (\<forall>a p k. pages t a = Some p \<longrightarrow> 0 < page_level p \<longrightarrow> key_ok (index_scheme t) k \<longrightarrow> in_page (index_scheme t) k p
     \<longrightarrow> lands t X k (InternalPage_search k (index_scheme t) p))"

definition root_covers :: "Btr \<Rightarrow> GlobalAddress set \<Rightarrow> bool" where
  "root_covers t X \<longleftrightarrow> (\<exists>r. pages t (index_root t) = Some r \<and> (GetHighest (index_scheme t) r = key_max t
     \<or> (\<exists>q. sibling_ptr r \<in> X \<and> pages t (sibling_ptr r) = Some q \<and> GetHighest (index_scheme t) q = key_max t)))"

lemma page_route:
  assumes "page_ok t p" "0 < page_level p" "key_ok (index_scheme t) k"
  shows "InternalPage_search k (index_scheme t) p = route (index_scheme t) k (leftmost_ptr p) (entries p)"
  using internal_search_route assms page_okD(1,8) [OF assms(1)] by (simp add: rsz_def)

lemma route_child:
  assumes "page_ok t p" "0 < page_level p" "key_ok (index_scheme t) k" "in_page (index_scheme t) k p"
  obtains x where "(x, InternalPage_search k (index_scheme t) p) \<in> children (index_scheme t) p" "0 \<le> key_compare (index_scheme t) k x"
proof -
  let ?s = "index_scheme t" and ?F = "filter (\<lambda>e. 0 \<le> key_compare (index_scheme t) k (rec_key (index_scheme t) e)) (entries p)"
  show thesis
  proof (cases "?F = []")
    case True
    then show thesis using that [of "GetLowest ?s p"] assms(4) page_route [OF assms(1-3)] by (simp add: route_def children_def in_page_def)
  next
    case False
    then have "last ?F \<in> set ?F" by (rule last_in_set)
    then have "last ?F \<in> set (entries p)" "0 \<le> key_compare ?s k (rec_key ?s (last ?F))" by auto
    then show thesis using that [of "rec_key ?s (last ?F)"] False page_route [OF assms(1-3)] by (simp add: route_def children_def)
  qed
qed

lemma complete_routes:
  assumes "blink t"
  shows "complete t \<longleftrightarrow> routes t {} \<and> root_covers t {}"
proof -
  have lv: "page_level q = page_level p - 1"
    if "pages t a = Some p" "0 < page_level p" "key_ok (index_scheme t) k" "in_page (index_scheme t) k p" "pages t (InternalPage_search k (index_scheme t) p) = Some q" for a p k q
  proof -
    note H = that
    obtain x where "(x, InternalPage_search k (index_scheme t) p) \<in> children (index_scheme t) p"
      by (rule route_child [OF blinkD(1) [OF assms H(1)] H(2-4)])
    from blinkD(2) [OF assms H(1,2) this] show ?thesis using H(5) by (auto simp: node_at_def)
  qed
  show ?thesis
  proof
    assume c: "complete t"
    then have "routes t {}" unfolding complete_def Let_def routes_def lands_def by blast
    moreover have "root_covers t {}" using c unfolding complete_def Let_def root_covers_def by blast
    ultimately show "routes t {} \<and> root_covers t {}" ..
  next
    assume r: "routes t {} \<and> root_covers t {}"
    show "complete t"
      unfolding complete_def Let_def
    proof (intro conjI allI impI)
      fix a p k assume H: "pages t a = Some p" "0 < page_level p" "key_ok (index_scheme t) k" "in_page (index_scheme t) k p"
      then obtain q where "pages t (InternalPage_search k (index_scheme t) p) = Some q" "in_page (index_scheme t) k q"
        using r unfolding routes_def lands_def by blast
      then show "\<exists>q. pages t (InternalPage_search k (index_scheme t) p) = Some q \<and> page_level q = page_level p - 1 \<and> in_page (index_scheme t) k q"
        using lv [OF H] by blast
    next
      show "\<exists>r. pages t (index_root t) = Some r \<and> GetHighest (index_scheme t) r = key_max t" using r by (auto simp: root_covers_def)
    qed
  qed
qed

lemma route_halves:
  assumes so: "sorted_recs s es" and m: "m < length es" and k: "key_ok s k" and sk: "sk = rec_key s (es ! m)"
  shows "key_compare s k sk < 0 \<Longrightarrow> route s k left (take m es) = route s k left es"
    "0 \<le> key_compare s k sk \<Longrightarrow> route s k (rec_child s (es ! m)) (drop (Suc m) es) = route s k left es"
proof -
  let ?P = "\<lambda>e. 0 \<le> key_compare s k (rec_key s e)"
  have es: "es = take m es @ es ! m # drop (Suc m) es" using m by (rule id_take_nth_drop)
  have oks: "key_ok s sk" using sorted_recs_ok [OF so nth_mem [OF m]] sk by simp
  have F: "filter ?P es = filter ?P (take m es) @ (if ?P (es ! m) then [es ! m] else []) @ filter ?P (drop (Suc m) es)"
    by (subst es) simp
  show "route s k left (take m es) = route s k left es" if lt: "key_compare s k sk < 0"
  proof -
    have "\<not> ?P x" if "x \<in> set (drop (Suc m) es)" for x
    proof -
      have "sorted_recs s (take m es @ es ! m # drop (Suc m) es)" using so by (simp only: es [symmetric])
      then have "key_compare s sk (rec_key s x) < 0" "key_ok s (rec_key s x)"
        using that sk sorted_recs_ok [OF so in_set_dropD, of x] by (auto simp: sorted_recs_append)
      then show ?thesis using key.less_le_trans_key [OF k oks _ lt] by force
    qed
    then have "filter ?P (drop (Suc m) es) = []" by (simp add: filter_empty_conv)
    then show ?thesis using F lt sk by (simp add: route_def)
  qed
  show "route s k (rec_child s (es ! m)) (drop (Suc m) es) = route s k left es" if "0 \<le> key_compare s k sk"
    using F that sk by (simp add: route_def)
qed

section \<open>Routes after a store\<close>

lemma lands_plain:
  assumes "lands t X k d" "same_conf t t'" "pages t a = Some p" "pages t' = (pages t)(a \<mapsto> p1)"
    "GetLowest (index_scheme t) p1 = GetLowest (index_scheme t) p" "GetHighest (index_scheme t) p1 = GetHighest (index_scheme t) p" "sibling_ptr p1 = sibling_ptr p"
  shows "lands t' X k d"
proof -
  have s: "index_scheme t' = index_scheme t" using assms(2) by (simp add: same_conf_def)
  have ip: "in_page (index_scheme t) k p1 = in_page (index_scheme t) k p" using assms(5,6) by (simp add: in_page_def)
  have pg: "\<exists>q'. pages t' e = Some q' \<and> in_page (index_scheme t) k q' = in_page (index_scheme t) k q \<and> sibling_ptr q' = sibling_ptr q" if "pages t e = Some q" for e q
    using that assms(3,4,7) ip by (cases "e = a") auto
  obtain q where q: "pages t d = Some q" "in_page (index_scheme t) k q \<or> (\<exists>r. sibling_ptr q \<in> X \<and> pages t (sibling_ptr q) = Some r \<and> in_page (index_scheme t) k r)"
    using assms(1) by (auto simp: lands_def)
  obtain q' where "pages t' d = Some q'" "in_page (index_scheme t) k q' = in_page (index_scheme t) k q" "sibling_ptr q' = sibling_ptr q" using pg [OF q(1)] by blast
  then show ?thesis using q(2) pg unfolding lands_def s by metis
qed

lemma lands_split:
  assumes "lands t {} k d" "same_conf t t'" "pages t a = Some p" "pages t c = None" "pages t' = (pages t)(c \<mapsto> sib, a \<mapsto> p2)" "halved (index_scheme t) p c sk p2 sib"
  shows "lands t' {c} k d"
proof -
  have s: "index_scheme t' = index_scheme t" using assms(2) by (simp add: same_conf_def)
  have ac: "a \<noteq> c" using assms(3,4) by auto
  obtain q where q: "pages t d = Some q" "in_page (index_scheme t) k q" using assms(1) by (auto simp: lands_def)
  have dc: "d \<noteq> c" using q(1) assms(4) by auto
  show ?thesis
  proof (cases "d = a")
    case True
    then have "in_page (index_scheme t) k p" using q assms(3) by simp
    then have "in_page (index_scheme t) k p2 \<or> in_page (index_scheme t) k sib" using assms(6) by (auto simp: in_page_def halved_def)
    then show ?thesis using True ac assms(5,6) unfolding lands_def s by (auto simp: halved_def)
  next
    case False
    then show ?thesis using q dc assms(5) unfolding lands_def s by simp
  qed
qed

lemma covers_plain:
  assumes "root_covers t X" "same_conf t t'" "index_root t' = index_root t" "pages t a = Some p" "pages t' = (pages t)(a \<mapsto> p1)"
    "GetHighest (index_scheme t) p1 = GetHighest (index_scheme t) p" "sibling_ptr p1 = sibling_ptr p"
  shows "root_covers t' X"
proof -
  have pg: "\<exists>q'. pages t' e = Some q' \<and> GetHighest (index_scheme t) q' = GetHighest (index_scheme t) q \<and> sibling_ptr q' = sibling_ptr q" if "pages t e = Some q" for e q
    using that assms(4-7) by (cases "e = a") auto
  then show ?thesis using assms(1-3) unfolding root_covers_def same_conf_def by metis
qed

lemma covers_split:
  assumes "root_covers t {}" "same_conf t t'" "index_root t' = index_root t" "pages t a = Some p" "pages t c = None"
    "pages t' = (pages t)(c \<mapsto> sib, a \<mapsto> p2)" "halved (index_scheme t) p c sk p2 sib"
  shows "root_covers t' {c}"
proof -
  obtain r where r: "pages t (index_root t) = Some r" "GetHighest (index_scheme t) r = key_max t" using assms(1) by (auto simp: root_covers_def)
  have "index_root t \<noteq> c" "a \<noteq> c" using r(1) assms(4,5) by auto
  then show ?thesis using r assms(2-4,6,7) by (cases "index_root t = a") (auto simp: root_covers_def same_conf_def halved_def)
qed

lemma complete_store_leaf:
  fixes t a v
  defines "s \<equiv> index_scheme t"
  assumes b: "blink t" "complete t" and p: "pages t a = Some p" "page_level p = 0" and k: "in_page s (rec_key s v) p" "rec_ok s v"
    and st: "store_leaf a (rec_key s v) v lg p t = Inr (split, t')"
  shows "case split of None \<Rightarrow> routes t' {} \<and> root_covers t' {} | Some (sk, c) \<Rightarrow> routes t' {c} \<and> root_covers t' {c}"
proof -
  have R: "routes t {}" "root_covers t {}" using b complete_routes by blast+
  show ?thesis using b(1) p k [unfolded s_def] st [unfolded s_def]
  proof (cases rule: store_leaf_cases)
    case (plain p1)
    have "index_root t' = index_root t" using plain(4) by (simp add: same_local_def)
    then have "root_covers t' {}" using covers_plain [OF R(2) plain(3) _ p(1) plain(2,9,10)] by simp
    moreover have "lands t' {} x (InternalPage_search x (index_scheme t') q)"
      if q: "pages t' c = Some q" "0 < page_level q" "key_ok (index_scheme t') x" "in_page (index_scheme t') x q" for c q x
    proof -
      have sq: "index_scheme t' = index_scheme t" "pages t c = Some q" using q(1,2) plain(2,3,7) by (auto simp: same_conf_def split: if_splits)
      then have "lands t {} x (InternalPage_search x (index_scheme t) q)" using R(1) q unfolding routes_def by metis
      then show ?thesis using lands_plain [OF _ plain(3) p(1) plain(2,8-10)] sq by simp
    qed
    ultimately show ?thesis using plain(1) by (simp add: routes_def)
  next
    case (split p2 sib sk d buf)
    have ir: "index_root t' = index_root t" using split(4) by (simp add: same_local_def)
    have none: "pages t d = None" using b split(5) by (simp add: blink_iff slots_ok_def)
    have lv: "page_level p2 = 0" "page_level sib = 0" using split(8) p(2) by (simp_all add: halved_def)
    have "root_covers t' {d}" using covers_split [OF R(2) split(3) ir p(1) none split(2,8)] .
    moreover have "lands t' {d} x (InternalPage_search x (index_scheme t') q)"
      if q: "pages t' c = Some q" "0 < page_level q" "key_ok (index_scheme t') x" "in_page (index_scheme t') x q" for c q x
    proof -
      have sq: "index_scheme t' = index_scheme t" "pages t c = Some q" using q(1,2) split(2,3) lv by (auto simp: same_conf_def split: if_splits)
      then have "lands t {} x (InternalPage_search x (index_scheme t) q)" using R(1) q unfolding routes_def by metis
      then show ?thesis using lands_split [OF _ split(3) p(1) none split(2,8)] sq by simp
    qed
    ultimately show ?thesis using split(1) by (simp add: routes_def)
  qed
qed

text \<open>Storing the separator of the one unfinished split \<open>v\<close> in the page above it ends the detour through the sibling.\<close>

lemma detour_ends_elsewhere:
  assumes b: "blink t" and R: "routes t {v}" and pd: "pending t l k v" and V: "pages t v = Some V"
    and P: "pages t a = Some P" "page_level P = Suc l" "in_page (index_scheme t) k P" "key_compare (index_scheme t) (GetHighest (index_scheme t) V) (GetHighest (index_scheme t) P) \<le> 0"
    and q: "pages t c = Some q" "c \<noteq> a" "0 < page_level q" "key_ok (index_scheme t) x" "in_page (index_scheme t) x q"
  shows "lands t {} x (InternalPage_search x (index_scheme t) q)"
proof -
  let ?s = "index_scheme t" and ?d = "InternalPage_search x (index_scheme t) q"
  have "lands t {v} x ?d" using R q unfolding routes_def by blast
  then obtain e where e: "pages t ?d = Some e" "in_page ?s x e \<or> sibling_ptr e = v \<and> in_page ?s x V" using V by (auto simp: lands_def)
  obtain y where ch: "(y, ?d) \<in> children ?s q" by (rule route_child [OF blinkD(1) [OF b q(1)] q(3-5)])
  have lve: "page_level e = page_level q - 1" using blinkD(2) [OF b q(1,3) ch] e(1) by (auto simp: node_at_def)
  have "in_page ?s x e"
  proof (rule ccontr)
    assume "\<not> in_page ?s x e"
    then have ev: "sibling_ptr e = v" "in_page ?s x V" using e(2) by auto
    have vv: "page_level V = l" "GetLowest ?s V = k" using pd V by (auto simp: pending_def node_at_def)
    have "v \<noteq> GlobalAddress_Null" using blinkD(5) [OF b V] .
    then have "page_level V = page_level e" using blinkD(3) [OF b e(1)] ev(1) V by (auto simp: node_at_def)
    then have lq: "page_level q = page_level P" using lve vv(1) P(2) q(3) by simp
    note Vk = page_okD [OF blinkD(1) [OF b V]] and Pk = page_okD [OF blinkD(1) [OF b P(1)]]
    have k: "key_ok ?s k" using pd by (simp add: pending_def key_between_def)
    have "0 \<le> key_compare ?s x (GetLowest ?s P)"
    proof -
      have "key_compare ?s (GetLowest ?s P) k \<le> 0" using P(3) key.cmp_swap [OF k Pk(3)] by (simp add: in_page_def)
      moreover have "key_compare ?s k x \<le> 0" using ev(2) vv(2) key.cmp_swap [OF q(4) k] by (simp add: in_page_def)
      ultimately have "key_compare ?s (GetLowest ?s P) x \<le> 0" using key.cmp_trans [OF Pk(3) k q(4)] by blast
      then show ?thesis using key.cmp_swap [OF q(4) Pk(3)] by simp
    qed
    moreover have "key_compare ?s x (GetHighest ?s P) < 0"
      using key.less_le_trans_key [OF q(4) Vk(4) Pk(4)] ev(2) P(4) by (simp add: in_page_def)
    ultimately have "in_page ?s x P" by (simp add: in_page_def)
    then have "c = a" using cover_unique [OF b q(1) P(1) lq q(4,5)] by blast
    then show False using q(2) by simp
  qed
  then show ?thesis using e(1) by (auto simp: lands_def)
qed

lemma detour_ends_here:
  assumes b: "blink t" and R: "routes t {v}" and pd: "pending t l k v" and V: "pages t v = Some V"
    and P: "pages t a = Some P" "page_level P = Suc l" "in_page (index_scheme t) k P"
    and x: "key_ok (index_scheme t) x" "in_page (index_scheme t) x P"
  shows "lands t {} x (route (index_scheme t) x (leftmost_ptr P) (ins_rec (index_scheme t) k (entry_of k v) (entries P)))"
proof -
  let ?s = "index_scheme t" and ?d = "InternalPage_search x (index_scheme t) P"
  have lP: "0 < page_level P" using P(2) by simp
  note Pk = page_okD [OF blinkD(1) [OF b P(1)]] and Vk = page_okD [OF blinkD(1) [OF b V]]
  have so: "sorted_recs ?s (entries P)" using Pk(1) by (simp add: sorted_page_def)
  have k: "key_ok ?s k" "length k = GetPrimaryKeyLength ?s" using pd node_length by (auto simp: pending_def key_between_def)
  have vv: "page_level V = l" "GetLowest ?s V = k" using pd V by (auto simp: pending_def node_at_def)
  have kV: "in_page ?s k V" using vv(2) Vk(5) key.cmp_refl [OF k(1)] by (simp add: in_page_def)
  have absent: "find_rec ?s k (entries P) = None" using pending_absent [OF b P(1) lP] pd P(2) by simp
  have old: "lands t {v} x ?d" using R P(1) lP x unfolding routes_def by blast
  then obtain e where e: "pages t ?d = Some e" "in_page ?s x e \<or> in_page ?s x V" using V by (auto simp: lands_def)
  let ?c = "0 \<le> key_compare ?s x k \<and> (\<forall>e \<in> set (entries P). key_compare ?s k (rec_key ?s e) < 0 \<longrightarrow> key_compare ?s x (rec_key ?s e) < 0)"
  have rt: "route ?s x (leftmost_ptr P) (ins_rec ?s k (entry_of k v) (entries P)) = (if ?c then v else ?d)"
    unfolding page_route [OF blinkD(1) [OF b P(1)] lP x(1)]
    by (rule route_ins [OF so, of "entry_of k v" x "leftmost_ptr P", unfolded rec_of_entry [OF k(2)], OF k(1) x(1) absent])
  show ?thesis
  proof (cases ?c)
    case True
    have "in_page ?s x V"
    proof (rule ccontr)
      assume nV: "\<not> in_page ?s x V"
      then have xe: "in_page ?s x e" using e(2) by blast
      obtain y where y: "(y, ?d) \<in> children ?s P" "0 \<le> key_compare ?s x y" by (rule route_child [OF blinkD(1) [OF b P(1)] lP x])
      have ey: "GetLowest ?s e = y" "page_level e = l" using blinkD(2) [OF b P(1) lP y(1)] e(1) P(2) by (auto simp: node_at_def)
      note Ek = page_okD [OF blinkD(1) [OF b e(1)]]
      have yk: "key_ok ?s y" using Ek(3) ey(1) by simp
      have le: "key_compare ?s y k \<le> 0"
      proof (rule ccontr)
        assume "\<not> ?thesis"
        then have gt: "key_compare ?s k y < 0" using key.cmp_swap [OF yk k(1)] by simp
        have "(\<exists>e \<in> set (entries P). rec_key ?s e = y) \<or> y = GetLowest ?s P" using y(1) by (auto simp: children_def)
        then show False
        proof
          assume "\<exists>e \<in> set (entries P). rec_key ?s e = y"
          then have "key_compare ?s x y < 0" using True gt by blast
          then show False using y(2) by simp
        next
          assume "y = GetLowest ?s P"
          then have "key_compare ?s k (GetLowest ?s P) < 0" using gt by simp
          then show False using P(3) by (simp add: in_page_def)
        qed
      qed
      have "key_compare ?s k x \<le> 0" using True key.cmp_swap [OF x(1) k(1)] by simp
      then have "key_compare ?s k (GetHighest ?s e) < 0" using key.le_less_trans_key [OF k(1) x(1) Ek(4)] xe by (simp add: in_page_def)
      moreover have "0 \<le> key_compare ?s k (GetLowest ?s e)" using le key.cmp_swap [OF k(1) yk] ey(1) by simp
      ultimately have "in_page ?s k e" by (simp add: in_page_def)
      then have "?d = v" using cover_unique [OF b e(1) V _ k(1) _ kV] ey(2) vv(1) by simp
      then show False using e(1) V xe nV by simp
    qed
    then show ?thesis using True rt V by (auto simp: lands_def)
  next
    case False
    have "in_page ?s x e"
    proof (rule ccontr)
      assume "\<not> in_page ?s x e"
      then have xV: "in_page ?s x V" using e(2) by blast
      then have "0 \<le> key_compare ?s x k" using vv(2) by (simp add: in_page_def)
      then obtain f where f: "f \<in> set (entries P)" "key_compare ?s k (rec_key ?s f) < 0" "0 \<le> key_compare ?s x (rec_key ?s f)" using False by force
      have ch: "(rec_key ?s f, rec_child ?s f) \<in> children ?s P" using f(1) by (simp add: children_def)
      obtain F where F: "pages t (rec_child ?s f) = Some F" "page_level F = l" "GetLowest ?s F = rec_key ?s f"
        using blinkD(2) [OF b P(1) lP ch] P(2) by (auto simp: node_at_def)
      note Fk = page_okD [OF blinkD(1) [OF b F(1)]]
      have fk: "key_ok ?s (rec_key ?s f)" using Fk(3) F(3) by simp
      have "key_compare ?s (rec_key ?s f) x \<le> 0" using f(3) key.cmp_swap [OF x(1) fk] by simp
      then have "key_compare ?s (rec_key ?s f) (GetHighest ?s V) < 0" using key.le_less_trans_key [OF fk x(1) Vk(4)] xV by (simp add: in_page_def)
      moreover have "0 \<le> key_compare ?s (rec_key ?s f) (GetLowest ?s V)" using f(2) key.cmp_swap [OF k(1) fk] vv(2) by simp
      ultimately have "in_page ?s (rec_key ?s f) V" by (simp add: in_page_def)
      moreover have "in_page ?s (rec_key ?s f) F" using F(3) Fk(5) key.cmp_refl [OF fk] by (simp add: in_page_def)
      ultimately have "v = rec_child ?s f" using cover_unique [OF b V F(1) _ fk] vv(1) F(2) by simp
      then have "k = rec_key ?s f" using F(1,3) V vv(2) by simp
      then show False using f(2) key.cmp_refl [OF k(1)] by simp
    qed
    then show ?thesis using False rt e(1) by (auto simp: lands_def)
  qed
qed

lemma halved_in_page:
  assumes "halved s p c sk p2 sib" "key_ok s x" "key_ok s (GetLowest s p)" "key_ok s (GetHighest s p)" "in_page s x p2 \<or> in_page s x sib"
  shows "in_page s x p"
  using assms(5)
proof
  note H = assms(1) [unfolded halved_def key_between_def]
  assume "in_page s x p2"
  then show ?thesis using H key.less_le_trans_key [OF assms(2) _ assms(4), of sk] by (auto simp: in_page_def)
next
  note H = assms(1) [unfolded halved_def key_between_def]
  have sk: "key_ok s sk" using H by blast
  assume "in_page s x sib"
  then have "key_compare s sk x \<le> 0" "key_compare s x (GetHighest s p) < 0" using H key.cmp_swap [OF assms(2) sk] by (simp_all add: in_page_def)
  moreover from this(1) have "key_compare s (GetLowest s p) x < 0" using key.less_le_trans_key [OF assms(3) sk assms(2)] H by blast
  ultimately show ?thesis using key.cmp_swap [OF assms(2,3)] by (simp add: in_page_def)
qed

lemma complete_store_internal:
  assumes b: "blink t" and R: "routes t {v}" "root_covers t {v}" and pd: "pending t l k v" and V: "pages t v = Some V"
    and P: "pages t a = Some P" "page_level P = Suc l" "in_page (index_scheme t) k P" "key_compare (index_scheme t) (GetHighest (index_scheme t) V) (GetHighest (index_scheme t) P) \<le> 0"
    and st: "store_internal a k v lg P t = Inr (split, t')"
  shows "case split of None \<Rightarrow> routes t' {} \<and> root_covers t' {} | Some (sk, c) \<Rightarrow> routes t' {c} \<and> root_covers t' {c}"
proof -
  let ?s = "index_scheme t" and ?es = "ins_rec (index_scheme t) k (entry_of k v) (entries P)"
  have lP: "0 < page_level P" using P(2) by simp
  have k: "key_ok ?s k" "length k = GetPrimaryKeyLength ?s" using pd node_length by (auto simp: pending_def key_between_def)
  note Pk = page_okD [OF blinkD(1) [OF b P(1)]]
  have pd': "pending t (page_level P - 1) k v" using pd P(2) by simp
  note elsewhere = detour_ends_elsewhere [OF b R(1) pd V P] and here = detour_ends_here [OF b R(1) pd V P(1-3)]
  have cov: "root_covers t {}"
  proof -
    obtain r where r: "pages t (index_root t) = Some r" "\<forall>a p. pages t a = Some p \<longrightarrow> page_level p \<le> page_level r" using b by (auto simp: blink_iff root_ok_def)
    have "sibling_ptr r \<noteq> v"
    proof
      assume "sibling_ptr r = v"
      moreover have "v \<noteq> GlobalAddress_Null" using blinkD(5) [OF b V] .
      ultimately have "page_level V = page_level r" using blinkD(3) [OF b r(1)] V by (auto simp: node_at_def)
      moreover have "page_level V = l" using pd V by (auto simp: pending_def node_at_def)
      ultimately show False using r(2) P(1,2) by fastforce
    qed
    then show ?thesis using R(2) r(1) by (auto simp: root_covers_def)
  qed
  show ?thesis using b P(1) lP P(3) pd' st
  proof (cases rule: store_internal_cases)
    case (plain p1)
    have ir: "index_root t' = index_root t" using plain(4) by (simp add: same_local_def)
    have s: "index_scheme t' = ?s" using plain(3) by (simp add: same_conf_def)
    have "root_covers t' {}" using covers_plain [OF cov plain(3) ir P(1) plain(2,9,10)] .
    moreover have "lands t' {} x (InternalPage_search x ?s q)"
      if q: "pages t' c = Some q" "0 < page_level q" "key_ok ?s x" "in_page ?s x q" for c q x
    proof (cases "c = a")
      case True
      then have q1: "q = p1" using q(1) plain(2) by simp
      then have "in_page ?s x P" using q(4) plain(8,9) by (simp add: in_page_def)
      moreover have "InternalPage_search x ?s q = route ?s x (leftmost_ptr P) ?es"
        using page_route [OF plain(6) _ q(3)] q(2) q1 plain(12,13) by simp
      ultimately show ?thesis using lands_plain [OF here [OF q(3)] plain(3) P(1) plain(2,8-10)] by simp
    next
      case False
      then have "pages t c = Some q" using q(1) plain(2) by simp
      from elsewhere [OF this False q(2-4)] show ?thesis by (rule lands_plain [OF _ plain(3) P(1) plain(2,8-10)])
    qed
    ultimately show ?thesis using plain(1) unfolding routes_def s by auto
  next
    case (split p2 sib sk d buf m)
    have ir: "index_root t' = index_root t" using split(4) by (simp add: same_local_def)
    have s: "index_scheme t' = ?s" using split(3) by (simp add: same_conf_def)
    have none: "pages t d = None" using b split(5) by (simp add: blink_iff slots_ok_def)
    have so: "sorted_recs ?s ?es"
      using sorted_ins_rec [of ?s "entries P" "entry_of k v"] Pk(1) k by (simp add: sorted_page_def)
    have "root_covers t' {d}" using covers_split [OF cov split(3) ir P(1) none split(2,8)] .
    moreover have "lands t' {d} x (InternalPage_search x ?s q)"
      if q: "pages t' c = Some q" "0 < page_level q" "key_ok ?s x" "in_page ?s x q" for c q x
    proof (cases "c = a \<or> c = d")
      case True
      have ad: "a \<noteq> d" using P(1) none by auto
      then have q2: "c = a \<and> q = p2 \<or> c = d \<and> q = sib" using q(1) split(2) True by auto
      then have xP: "in_page ?s x P" using halved_in_page [OF split(8) q(3) Pk(3,4)] q(4) by blast
      have "InternalPage_search x ?s q = route ?s x (leftmost_ptr P) ?es"
        using q2
      proof
        assume "c = a \<and> q = p2"
        then show ?thesis
          using page_route [OF split(6) _ q(3)] q(2,4) split(8,11,14) route_halves(1) [OF so split(10) q(3) split(13), of "leftmost_ptr P"]
          by (simp add: halved_def in_page_def)
      next
        assume "c = d \<and> q = sib"
        then show ?thesis
          using page_route [OF split(7) _ q(3)] q(2,4) split(8,12,15) route_halves(2) [OF so split(10) q(3) split(13), of "leftmost_ptr P"]
          by (simp add: halved_def in_page_def)
      qed
      then show ?thesis using lands_split [OF here [OF q(3) xP] split(3) P(1) none split(2,8)] by simp
    next
      case False
      then have "pages t c = Some q" "c \<noteq> a" using q(1) split(2) by auto
      from elsewhere [OF this q(2-4)] show ?thesis by (rule lands_split [OF _ split(3) P(1) none split(2,8)])
    qed
    ultimately show ?thesis using split(1) unfolding routes_def s by auto
  qed
qed

lemma complete_new_root:
  assumes b: "blink t" and R: "routes t {v}" "root_covers t {v}" and r: "pages t (index_root t) = Some r" "page_level r = lv" "Suc lv < 2 ^ 8" and pd: "pending t lv k v"
    and st: "update_new_root (index_root t) k v (Suc lv) (index_root t) lg t = Inr t'"
  shows "routes t' {} \<and> root_covers t' {}"
proof -
  let ?s = "index_scheme t"
  note L = update_new_root_step [OF b r pd st]
  obtain n where n: "pages t' = (pages t)(index_root t' \<mapsto> n)" "page_ok t n" "page_level n = Suc lv" "entries n = [entry_of k v]" "leftmost_ptr n = index_root t" "GetHighest ?s n = key_max t"
    using L(11) by blast
  have s: "index_scheme t' = ?s" "key_max t' = key_max t" using L(12) by (simp_all add: same_conf_def)
  have rl: "\<And>a p. pages t a = Some p \<Longrightarrow> page_level p \<le> lv" using b r by (auto simp: blink_iff root_ok_def)
  have k: "key_ok ?s k" "length k = GetPrimaryKeyLength ?s" using pd node_length by (auto simp: pending_def key_between_def)
  obtain V where V: "pages t v = Some V" "page_level V = lv" "GetLowest ?s V = k" using pd by (auto simp: pending_def node_at_def)
  note Vk = page_okD [OF blinkD(1) [OF b V(1)]] and rk = page_okD [OF blinkD(1) [OF b r(1)]]
  have low: "GetLowest ?s r = key_min t" using b r(1) by (auto simp: blink_iff root_ok_def)
  have kb: "key_compare ?s (key_min t) k < 0" "key_compare ?s k (key_max t) < 0" using pd by (simp_all add: pending_def key_between_def)
  have hi: "GetHighest ?s r \<noteq> key_max t"
  proof
    assume e: "GetHighest ?s r = key_max t"
    have "in_page ?s k r" using e low kb key.cmp_swap [OF rk(3) k(1)] by (simp add: in_page_def)
    moreover have "in_page ?s k V" using V(3) Vk(5) key.cmp_refl [OF k(1)] by (simp add: in_page_def)
    ultimately have "v = index_root t" using cover_unique [OF b V(1) r(1) _ k(1)] V(2) r(2) by simp
    then show False using pending_not_root [OF b pd] by simp
  qed
  then have rs: "sibling_ptr r = v" "GetHighest ?s V = key_max t" using R(2) r(1) V(1) by (auto simp: root_covers_def)
  have "v \<noteq> GlobalAddress_Null" using blinkD(5) [OF b V(1)] .
  then have rh: "GetHighest ?s r = k" using blinkD(3) [OF b r(1)] rs(1) V(1,3) by (auto simp: node_at_def)
  have old: "lands t' {} x c" if "lands t {} x c" for x c
    using that n(1) L(4) s unfolding lands_def by (cases "c = index_root t'") auto
  have "lands t' {} x (InternalPage_search x ?s q)" if q: "pages t' c = Some q" "0 < page_level q" "key_ok ?s x" "in_page ?s x q" for c q x
  proof (cases "c = index_root t'")
    case True
    then have qn: "q = n" using q(1) n(1) by simp
    have rt: "InternalPage_search x ?s q = (if 0 \<le> key_compare ?s x k then v else index_root t)"
      using page_route [OF n(2) _ q(3)] n(3-5) qn k(2) by (simp add: route_def)
    have "lands t {} x (if 0 \<le> key_compare ?s x k then v else index_root t)"
    proof (cases "0 \<le> key_compare ?s x k")
      case True
      then have "in_page ?s x V" using V(3) rs(2) q(4) n(6) qn by (simp add: in_page_def)
      then show ?thesis using True V(1) by (auto simp: lands_def)
    next
      case False
      have "GetLowest ?s q = key_min t" using L(5) True q(1) s by (auto simp: node_at_def)
      then have "in_page ?s x r" using False low rh q(4) by (simp add: in_page_def)
      then show ?thesis using False r(1) by (auto simp: lands_def)
    qed
    then show ?thesis using old rt by simp
  next
    case False
    then have qt: "pages t c = Some q" using q(1) n(1) by simp
    let ?d = "InternalPage_search x ?s q"
    have "lands t {v} x ?d" using R(1) qt q(2-4) unfolding routes_def by blast
    then obtain e where e: "pages t ?d = Some e" "in_page ?s x e \<or> sibling_ptr e = v" by (auto simp: lands_def)
    obtain y where ch: "(y, ?d) \<in> children ?s q" by (rule route_child [OF blinkD(1) [OF b qt] q(2-4)])
    have lve: "page_level e = page_level q - 1" using blinkD(2) [OF b qt q(2) ch] e(1) by (auto simp: node_at_def)
    have "sibling_ptr e \<noteq> v"
    proof
      assume "sibling_ptr e = v"
      then have "page_level V = page_level e" using blinkD(3) [OF b e(1)] V(1) \<open>v \<noteq> GlobalAddress_Null\<close> by (auto simp: node_at_def)
      then show False using V(2) lve rl [OF qt] q(2) by simp
    qed
    then show ?thesis using e old [of x ?d] by (auto simp: lands_def)
  qed
  moreover have "root_covers t' {}" using n(1,6) s by (simp add: root_covers_def)
  ultimately show ?thesis unfolding routes_def s by blast
qed

section \<open>Inserting the separators of the splits\<close>

lemma store_leaf_total: "free_slots t \<noteq> [] \<Longrightarrow> \<exists>split t'. store_leaf a k v lg p t = Inr (split, t') \<and> length (free_slots t) \<le> Suc (length (free_slots t'))"
  by (cases "free_slots t") (auto simp: store_leaf_def Let_def split: prod.splits)

lemma store_internal_total:
  assumes "blink t" "pages t a = Some p" "0 < page_level p" "pending t (page_level p - 1) k v" "free_slots t \<noteq> []"
  shows "\<exists>split t'. store_internal a k v lg p t = Inr (split, t') \<and> length (free_slots t) \<le> Suc (length (free_slots t'))"
proof -
  let ?s = "index_scheme t"
  note P = page_okD [OF blinkD(1) [OF assms(1,2)]]
  have k: "key_ok ?s k" "length k = GetPrimaryKeyLength ?s" using assms(4) node_length by (auto simp: pending_def key_between_def)
  have srt: "sorted_page ?s (internal_rsz ?s) p" using P(1) assms(3) by (simp add: rsz_def)
  obtain x where "InternalPage_store a k v ?s lg p = Inr x"
    by (rule internal_store_effect [OF srt k P(8) [OF assms(3)] P(2) pending_absent [OF assms(1-4)], where g = a and v = v and lg = lg]) (rule that; assumption)
  then show ?thesis using assms(5) by (cases "free_slots t") (auto simp: store_internal_def Let_def split: prod.splits)
qed

definition fresh_root :: "Btr \<Rightarrow> nat \<Rightarrow> bool" where
  "fresh_root t H \<longleftrightarrow> g_root_ptr t = index_root t \<and> cached_root t = index_root t \<and> tree_height t = H \<and> root_lock t = 0
     \<and> (\<exists>r. pages t (index_root t) = Some r \<and> page_level r = H)"

definition contains :: "RecordSchema \<Rightarrow> mem \<Rightarrow> byte list \<Rightarrow> byte list \<Rightarrow> bool" where
  "contains s p lo hi \<longleftrightarrow> key_compare s (GetLowest s p) lo \<le> 0 \<and> key_compare s hi (GetHighest s p) \<le> 0"

text \<open>The path stack above level \<open>l\<close>: a page of each level up to the root, each inside the next; the first of them
  contains the range from \<open>lo\<close> to \<open>hi\<close>.\<close>

definition path_above :: "Btr \<Rightarrow> nat \<Rightarrow> nat \<Rightarrow> byte list \<Rightarrow> byte list \<Rightarrow> bool" where
  "path_above t l H lo hi \<longleftrightarrow>
     (\<forall>j. H < j \<longrightarrow> path_stack t j = GlobalAddress_Null) \<and> path_stack t H = index_root t
     \<and> (\<forall>j. l < j \<longrightarrow> j \<le> H \<longrightarrow> (\<exists>p. pages t (path_stack t j) = Some p \<and> page_level p = j
          \<and> (j = Suc l \<longrightarrow> contains (index_scheme t) p lo hi)
          \<and> (\<forall>q. j < H \<longrightarrow> pages t (path_stack t (Suc j)) = Some q \<longrightarrow> contains (index_scheme t) q (GetLowest (index_scheme t) p) (GetHighest (index_scheme t) p))))"

lemma path_above_Suc:
  assumes "path_above t l H lo hi" "l < H" "pages t (path_stack t (Suc l)) = Some p"
  shows "path_above t (Suc l) H (GetLowest (index_scheme t) p) (GetHighest (index_scheme t) p)" "page_level p = Suc l" "contains (index_scheme t) p lo hi"
proof -
  have P: "\<And>j. l < j \<Longrightarrow> j \<le> H \<Longrightarrow> \<exists>p. pages t (path_stack t j) = Some p \<and> page_level p = j
      \<and> (j = Suc l \<longrightarrow> contains (index_scheme t) p lo hi)
      \<and> (\<forall>q. j < H \<longrightarrow> pages t (path_stack t (Suc j)) = Some q \<longrightarrow> contains (index_scheme t) q (GetLowest (index_scheme t) p) (GetHighest (index_scheme t) p))"
    using assms(1) unfolding path_above_def by blast
  have p: "page_level p = Suc l" "contains (index_scheme t) p lo hi"
      "\<And>q. Suc l < H \<Longrightarrow> pages t (path_stack t (Suc (Suc l))) = Some q \<Longrightarrow> contains (index_scheme t) q (GetLowest (index_scheme t) p) (GetHighest (index_scheme t) p)"
    using P [of "Suc l"] assms(2,3) by auto
  show "page_level p = Suc l" "contains (index_scheme t) p lo hi" using p by blast+
  show "path_above t (Suc l) H (GetLowest (index_scheme t) p) (GetHighest (index_scheme t) p)"
    unfolding path_above_def
  proof (intro conjI allI impI)
    fix j assume j: "Suc l < j" "j \<le> H"
    then obtain q where q: "pages t (path_stack t j) = Some q" "page_level q = j"
        "\<forall>r. j < H \<longrightarrow> pages t (path_stack t (Suc j)) = Some r \<longrightarrow> contains (index_scheme t) r (GetLowest (index_scheme t) q) (GetHighest (index_scheme t) q)"
      using P [of j] by auto
    have "j = Suc (Suc l) \<longrightarrow> contains (index_scheme t) q (GetLowest (index_scheme t) p) (GetHighest (index_scheme t) p)" using p(3) j q(1) by auto
    then show "\<exists>q. pages t (path_stack t j) = Some q \<and> page_level q = j
        \<and> (j = Suc (Suc l) \<longrightarrow> contains (index_scheme t) q (GetLowest (index_scheme t) p) (GetHighest (index_scheme t) p))
        \<and> (\<forall>r. j < H \<longrightarrow> pages t (path_stack t (Suc j)) = Some r \<longrightarrow> contains (index_scheme t) r (GetLowest (index_scheme t) q) (GetHighest (index_scheme t) q))"
      using q by blast
  qed (use assms(1) in \<open>auto simp: path_above_def\<close>)
qed

text \<open>Pages of other levels do not change the path.\<close>

lemma path_above_cong:
  assumes "path_above t l H lo hi" "path_stack t' = path_stack t" "index_root t' = index_root t" "index_scheme t' = index_scheme t"
    "\<And>c p. pages t c = Some p \<Longrightarrow> l < page_level p \<Longrightarrow> pages t' c = Some p"
  shows "path_above t' l H lo hi"
proof -
  have same: "pages t' (path_stack t j) = pages t (path_stack t j)" if j: "l < j" "j \<le> H" for j
  proof -
    obtain p where "pages t (path_stack t j) = Some p" "page_level p = j" using assms(1) j unfolding path_above_def by blast
    then show ?thesis using assms(5) j(1) by auto
  qed
  show ?thesis using assms(1) same unfolding path_above_def assms(2-4) by (metis (no_types, lifting) Suc_leI less_SucI)
qed

text \<open>Steps above the leaves keep the leaves.\<close>

definition same_leaves :: "Btr \<Rightarrow> Btr \<Rightarrow> bool" where
  "same_leaves t t' \<longleftrightarrow> (\<forall>c p. page_level p = 0 \<longrightarrow> pages t' c = Some p \<longleftrightarrow> pages t c = Some p)"

definition finished :: "Btr \<Rightarrow> Btr \<Rightarrow> bool" where
  "finished t t' \<longleftrightarrow> same_leaves t t' \<and> blink t' \<and> routes t' {} \<and> root_covers t' {} \<and> stored t' = stored t \<and> same_conf t t' \<and> (\<exists>H. fresh_root t' H)"

lemma shared_facts:
  assumes "same_shared t t'" "free_slots t' = free_slots t" "blink t"
  shows "blink t'" "routes t' X = routes t X" "root_covers t' X = root_covers t X" "pending t' lv k v = pending t lv k v" "stored t' = stored t"
proof -
  have c: "same_conf t t'" "pages t' = pages t" "index_root t' = index_root t" using assms(1) by (simp_all add: same_shared_def)
  show "blink t'" "stored t' = stored t" using blink_shared [OF assms(3,1,2)] by simp_all
  show "routes t' X = routes t X" "root_covers t' X = root_covers t X" "pending t' lv k v = pending t lv k v"
    using c by (simp_all add: routes_def lands_def root_covers_def pending_def node_at_def unlinked_def same_conf_def)
qed

lemma update_new_root_total: "free_slots t \<noteq> [] \<Longrightarrow> \<exists>t'. update_new_root left k right lv old lg t = Inr t'"
  by (cases "free_slots t") (auto simp: update_new_root_def Let_def split: prod.splits)

lemma path_above_page: "path_above t l H lo hi \<Longrightarrow> l < j \<Longrightarrow> j \<le> H \<Longrightarrow> \<exists>p. pages t (path_stack t j) = Some p"
  unfolding path_above_def by blast

lemma split_root_ok:
  assumes "blink t" "routes t {v}" "root_covers t {v}" "pending t H k v" "fresh_root t H" "path_stack t H = index_root t" "Suc H < 2 ^ 8" "free_slots t \<noteq> []"
  shows "\<exists>t'. split_root H k v lg t = Inr (True, t') \<and> finished t t'"
proof -
  obtain r where r: "pages t (index_root t) = Some r" "page_level r = H" and fr: "g_root_ptr t = index_root t" "cached_root t = index_root t" "tree_height t = H" "root_lock t = 0"
    using assms(5) by (auto simp: fresh_root_def)
  have nn: "index_root t \<noteq> GlobalAddress_Null" using blinkD(5) [OF assms(1) r(1)] .
  define t1 where "t1 = t\<lparr>root_lock := 1, g_root_ptr := index_root t\<rparr>"
  have sh: "same_shared t t1" "free_slots t1 = free_slots t" by (simp_all add: t1_def same_shared_def same_conf_def)
  note F = shared_facts [OF sh assms(1)]
  have t1: "index_root t1 = index_root t" "path_stack t1 = path_stack t" "tree_height t1 = H" "g_root_ptr t1 = index_root t" "root_lock t1 = 1" "pages t1 = pages t"
    using fr by (simp_all add: t1_def)
  obtain t2 where t2: "update_new_root (index_root t1) k v (Suc H) (index_root t1) lg t1 = Inr t2"
    using update_new_root_total assms(8) sh(2) by metis
  have r1: "pages t1 (index_root t1) = Some r" "page_level r = H" using r t1 by simp_all
  have pd1: "pending t1 H k v" and R1: "routes t1 {v}" "root_covers t1 {v}" using F assms(2-4) by simp_all
  note L = update_new_root_step [OF F(1) r1 assms(7) pd1 t2] and C = complete_new_root [OF F(1) R1 r1 assms(7) pd1 t2]
  define t3 where "t3 = unlock_root t2"
  have sh3: "same_shared t2 t3" "free_slots t3 = free_slots t2" by (simp_all add: t3_def unlock_root_def same_shared_def same_conf_def)
  note G = shared_facts [OF sh3 L(1)]
  have "split_root H k v lg t = Inr (True, t3)"
    using fr nn assms(6) t1 t2
    by (simp add: split_root_def get_root_ptr_def found_def lock_root_def refetch_rootnode_def t3_def) (simp add: t1_def)
  moreover have "fresh_root t3 (Suc H)"
    using L(5,7-9,13) t1(5) by (auto simp: fresh_root_def t3_def unlock_root_def node_at_def)
  moreover have "same_conf t t3" using L(12) by (auto simp: same_conf_def t3_def unlock_root_def t1_def)
  moreover have "same_leaves t t3"
    using L(4,11) by (auto simp: same_leaves_def t3_def unlock_root_def t1_def split: if_splits)
  ultimately show ?thesis using G C L(3) F(5) unfolding finished_def by auto
qed

text \<open>Three units of fuel for each level are enough.\<close>

lemma after_split_ok:
  assumes "blink t" "routes t {v}" "root_covers t {v}" "pending t l k v" "fresh_root t H" "l \<le> H" "Suc H < 2 ^ 8"
    "pages t v = Some V" "path_above t l H lo (GetHighest (index_scheme t) V)" "key_ok (index_scheme t) lo" "key_compare (index_scheme t) lo k \<le> 0"
    "H - l < length (free_slots t)" "3 * (H - l) + 1 \<le> n"
  shows "\<exists>t'. after_split n l k v sk lg t = Inr (True, t') \<and> finished t t'"
  using assms
proof (induction "H - l" arbitrary: t v l k V lo n sk)
  case 0
  then have l: "l = H" by simp
  obtain n' where n': "n = Suc n'" using 0(14) by (cases n) auto
  have p: "path_stack t (Suc H) = GlobalAddress_Null" "path_stack t H = index_root t" using 0(10) by (simp_all add: path_above_def)
  have "free_slots t \<noteq> []" using 0(13) by auto
  then obtain t' where "split_root H k v lg t = Inr (True, t')" "finished t t'"
    using split_root_ok [OF 0(2,3,4) _ 0(6) p(2) 0(8)] 0(5) l by blast
  then show ?case using p(1) l n' by simp
next
  case (Suc d)
  let ?s = "index_scheme t"
  have l: "l < H" using Suc.hyps(2) by simp
  obtain n' where n': "n = Suc (Suc (Suc n'))" "3 * (H - Suc l) + 1 \<le> n'" using Suc.prems(13) Suc.hyps(2) l
    by (cases n; cases "n - 1"; cases "n - 2") auto
  let ?a = "path_stack t (Suc l)"
  obtain P where P: "pages t ?a = Some P" using path_above_page [OF Suc.prems(9), of "Suc l"] l by auto
  note PA = path_above_Suc [OF Suc.prems(9) l P]
  note Pk = page_okD [OF blinkD(1) [OF Suc.prems(1) P]] and Vk = page_okD [OF blinkD(1) [OF Suc.prems(1,8)]]
  have V: "page_level V = l" "GetLowest ?s V = k" and kok: "key_ok ?s k" using Suc.prems(4,8) by (auto simp: pending_def node_at_def key_between_def)
  have hi: "key_compare ?s (GetHighest ?s V) (GetHighest ?s P) \<le> 0" using PA(3) by (simp add: contains_def)
  have inP: "in_page ?s k P"
  proof -
    have "key_compare ?s (GetLowest ?s P) k \<le> 0" using key.cmp_trans [OF Pk(3) Suc.prems(10) kok] PA(3) Suc.prems(11) by (simp add: contains_def)
    moreover have "key_compare ?s k (GetHighest ?s P) < 0" using key.less_le_trans_key [OF kok Vk(4) Pk(4)] Vk(5) V(2) hi by simp
    ultimately show ?thesis using key.cmp_swap [OF kok Pk(3)] by (simp add: in_page_def)
  qed
  have nn: "?a \<noteq> GlobalAddress_Null" using blinkD(5) [OF Suc.prems(1) P] .
  define t1 where "t1 = t\<lparr>nested_retry_counter := 0\<rparr>"
  have sh: "same_shared t t1" "free_slots t1 = free_slots t" by (simp_all add: t1_def same_shared_def same_conf_def)
  note F = shared_facts [OF sh Suc.prems(1)]
  have P1: "pages t1 ?a = Some P" "0 < page_level P" "in_page (index_scheme t1) k P" "pending t1 (page_level P - 1) k v"
    using P PA(2) inP F(4) Suc.prems(4) by (simp_all add: t1_def)
  have "free_slots t1 \<noteq> []" using Suc.prems(12) sh(2) by auto
  then obtain split t2 where st: "store_internal ?a k v lg P t1 = Inr (split, t2)" "length (free_slots t1) \<le> Suc (length (free_slots t2))"
    using store_internal_total [OF F(1) P1(1,2,4)] by blast
  have "t\<lparr>path_stack := (path_stack t)(page_level P := ?a), nested_retry_counter := 0\<rparr> = t1" using PA(2) by (simp add: t1_def)
  then have store: "Btr_internal_page_store (Suc n') ?a k v (Suc l) lg t
      = (case split of None \<Rightarrow> Inr (True, t2) | Some (sk', c) \<Rightarrow> after_split n' (Suc l) sk' c sk' lg t2)"
    using P inP st(1) by (simp add: found_def in_page_def)
  have run: "after_split n l k v sk lg t = Inr (True, t')" if "Btr_internal_page_store (Suc n') ?a k v (Suc l) lg t = Inr (True, t')" for t'
    using that nn n'(1) by simp
  have s1: "index_scheme t1 = ?s" "pages t1 = pages t" "path_stack t1 = path_stack t" by (simp_all add: t1_def)
  have fr1: "fresh_root t1 H" using Suc.prems(5) by (simp add: fresh_root_def t1_def)
  note L = store_internal_step [OF F(1) P1(1,2,3,4) st(1)]
  have "routes t1 {v}" "root_covers t1 {v}" "pending t1 l k v" "pages t1 v = Some V" using F Suc.prems(2-4,8) s1 by simp_all
  note C = complete_store_internal [OF F(1) this P1(1) PA(2) P1(3) _ st(1)]
  have C': "case split of None \<Rightarrow> routes t2 {} \<and> root_covers t2 {} | Some (sk, c) \<Rightarrow> routes t2 {c} \<and> root_covers t2 {c}" using C hi s1(1) by simp
  have sl: "same_local t1 t2" and sc: "same_conf t t2" using L(2,3) by (auto simp: grows_def same_conf_def t1_def)
  have fr2: "fresh_root t2 H"
  proof -
    obtain r where "pages t1 (index_root t1) = Some r" "page_level r = H" using fr1 by (auto simp: fresh_root_def)
    then have "node_at t1 (index_root t1) H (GetLowest (index_scheme t1) r)" by (simp add: node_at_def)
    then have "node_at t2 (index_root t1) H (GetLowest (index_scheme t1) r)" using L(2) by (simp add: grows_def)
    then show ?thesis using fr1 sl by (auto simp: fresh_root_def same_local_def node_at_def)
  qed
  have leaves: "same_leaves t t2"
    using F(1) P1 st(1)
  proof (cases rule: store_internal_cases)
    case (plain p1)
    then show ?thesis using P1(1,2) s1(2) by (auto simp: same_leaves_def)
  next
    case (split p2 sib y d buf m)
    have "pages t1 d = None" using F(1) split(5) by (simp add: blink_iff slots_ok_def)
    then show ?thesis using split(2,8) P1(1,2) s1(2) by (auto simp: same_leaves_def halved_def)
  qed
  show ?case
  proof (cases split)
    case None
    then have "finished t t2" using leaves L C' sc F(5) fr2 unfolding finished_def by auto
    then show ?thesis using run [of t2] store None by simp
  next
    case (Some x)
    obtain sk' c where x: "x = (sk', c)" by (cases x)
    have pd2: "pending t2 (Suc l) sk' c" using L(5) Some x PA(2) by simp
    have "\<exists>p2 sib buf. pages t2 = (pages t1)(c \<mapsto> sib, ?a \<mapsto> p2) \<and> halved ?s P c sk' p2 sib \<and> free_slots t1 = (c, buf) # free_slots t2"
      using F(1) P1 st(1)
    proof (cases rule: store_internal_cases)
      case (plain p1)
      then show ?thesis using Some by simp
    next
      case (split p2 sib y d buf m)
      then have "y = sk'" "d = c" using Some x by simp_all
      then show ?thesis using split(2,5,8) s1(1) by metis
    qed
    then obtain p2 sib buf where H: "pages t2 = (pages t1)(c \<mapsto> sib, ?a \<mapsto> p2)" "halved ?s P c sk' p2 sib" "free_slots t1 = (c, buf) # free_slots t2"
      by blast
    have none: "pages t1 c = None" using F(1) H(3) by (simp add: blink_iff slots_ok_def)
    have ac: "?a \<noteq> c" using none P1(1) by auto
    have s2: "index_scheme t2 = ?s" using sc by (simp add: same_conf_def)
    have sib: "pages t2 c = Some sib" "GetHighest (index_scheme t2) sib = GetHighest ?s P" using H(1,2) ac s2 by (simp_all add: halved_def)
    have "path_above t2 (Suc l) H (GetLowest ?s P) (GetHighest (index_scheme t2) sib)"
    proof (rule path_above_cong)
      show "path_above t (Suc l) H (GetLowest ?s P) (GetHighest (index_scheme t2) sib)" using PA(1) sib(2) by simp
      show "path_stack t2 = path_stack t" "index_root t2 = index_root t" "index_scheme t2 = ?s" using sl s1 s2 by (simp_all add: same_local_def t1_def)
      show "pages t2 d = Some q" if "pages t d = Some q" "Suc l < page_level q" for d q
        using that P PA(2) H(1) none s1(2) by auto
    qed
    moreover have "key_compare (index_scheme t2) (GetLowest ?s P) sk' \<le> 0" using H(2) s2 by (simp add: halved_def key_between_def)
    moreover have "length (free_slots t) = Suc (length (free_slots t2))" using arg_cong [OF H(3), of length] sh(2) by simp
    then have "H - Suc l < length (free_slots t2)" using Suc.prems(12) l by linarith
    moreover have "d = H - Suc l" "Suc l \<le> H" using Suc.hyps(2) l by simp_all
    moreover have "routes t2 {c}" "root_covers t2 {c}" using C' Some x by simp_all
    ultimately obtain t' where t': "after_split n' (Suc l) sk' c sk' lg t2 = Inr (True, t')" "finished t2 t'"
      using Suc.hyps(1) [of "Suc l" t2 c sk' sib "GetLowest ?s P" n' sk'] L(1) pd2 fr2 Suc.prems(7) sib Pk(3) s2 n'(2) by auto
    then have "finished t t'" using L(4) F(5) sc leaves by (auto simp: finished_def same_conf_def same_leaves_def)
    then show ?thesis using run [of t'] store Some x t'(1) by simp
  qed
qed

section \<open>Descent and insertion\<close>

text \<open>A child lies inside the page that sends the key to it.\<close>

lemma child_within:
  assumes b: "blink t" and P: "pages t a = Some P" "0 < page_level P" and k: "key_ok (index_scheme t) k" "in_page (index_scheme t) k P"
    and q: "pages t (InternalPage_search k (index_scheme t) P) = Some q"
  shows "contains (index_scheme t) P (GetLowest (index_scheme t) q) (GetHighest (index_scheme t) q)"
proof -
  let ?s = "index_scheme t" and ?d = "InternalPage_search k (index_scheme t) P"
  note Pk = page_okD [OF blinkD(1) [OF b P(1)]] and Qk = page_okD [OF blinkD(1) [OF b q]]
  obtain y where y: "(y, ?d) \<in> children ?s P" "0 \<le> key_compare ?s k y" by (rule route_child [OF blinkD(1) [OF b P(1)] P(2) k])
  have q': "GetLowest ?s q = y" "page_level q = page_level P - 1" using blinkD(2) [OF b P y(1)] q by (auto simp: node_at_def)
  have yk: "key_ok ?s y" using Qk(3) q'(1) by simp
  have "0 \<le> key_compare ?s y (GetLowest ?s P)"
    using y(1) Pk(6) key.cmp_refl [OF Pk(3)] by (auto simp: children_def in_page_def)
  then have lo: "key_compare ?s (GetLowest ?s P) y \<le> 0" using key.cmp_swap [OF yk Pk(3)] by simp
  have "key_compare ?s (GetHighest ?s q) (GetHighest ?s P) \<le> 0"
  proof (rule ccontr)
    assume "\<not> ?thesis"
    then have gt: "key_compare ?s (GetHighest ?s P) (GetHighest ?s q) < 0" using key.cmp_swap [OF Qk(4) Pk(4)] by simp
    have km: "key_ok ?s (key_max t)" using b by (simp add: blink_iff conf_ok_def)
    have "sibling_ptr P \<noteq> GlobalAddress_Null"
    proof
      assume "sibling_ptr P = GlobalAddress_Null"
      then have "GetHighest ?s P = key_max t" using blinkD(4) [OF b P(1)] by simp
      then show False using gt Qk(12) key.cmp_swap [OF km Qk(4)] by simp
    qed
    then obtain S where S: "pages t (sibling_ptr P) = Some S" "page_level S = page_level P" "GetLowest ?s S = GetHighest ?s P"
      using blinkD(3) [OF b P(1)] by (auto simp: node_at_def)
    have "(GetLowest ?s S, leftmost_ptr S) \<in> children ?s S" by (simp add: children_def)
    then obtain D where D: "pages t (leftmost_ptr S) = Some D" "page_level D = page_level P - 1" "GetLowest ?s D = GetHighest ?s P"
      using blinkD(2) [OF b S(1)] S(2,3) P(2) by (auto simp: node_at_def)
    note Dk = page_okD [OF blinkD(1) [OF b D(1)]]
    have kP: "key_compare ?s k (GetHighest ?s P) < 0" using k(2) by (simp add: in_page_def)
    have "key_compare ?s y k \<le> 0" using y(2) key.cmp_swap [OF k(1) yk] by simp
    then have yP: "key_compare ?s y (GetHighest ?s P) < 0" using key.le_less_trans_key [OF yk k(1) Pk(4)] kP by blast
    then have "in_page ?s (GetHighest ?s P) q" using gt q'(1) key.cmp_swap [OF yk Pk(4)] by (simp add: in_page_def)
    moreover have "in_page ?s (GetHighest ?s P) D" using D(3) Dk(5) key.cmp_refl [OF Pk(4)] by (simp add: in_page_def)
    ultimately have "leftmost_ptr S = ?d" using cover_unique [OF b D(1) q _ Pk(4)] D(2) q'(2) by simp
    then have "y = GetHighest ?s P" using D(1,3) q q'(1) by simp
    then show False using yP key.cmp_refl [OF yk] by simp
  qed
  then show ?thesis using lo q'(1) by (simp add: contains_def)
qed

lemma path_push:
  assumes "path_above t (Suc l) H (GetLowest (index_scheme t) p) (GetHighest (index_scheme t) p)" "Suc l < H"
    "pages t c = Some p" "page_level p = Suc l" "contains (index_scheme t) p lo hi"
    "pages t' = pages t" "index_scheme t' = index_scheme t" "index_root t' = index_root t" "path_stack t' = (path_stack t)(Suc l := c)"
  shows "path_above t' l H lo hi"
proof -
  have P: "\<exists>q. pages t (path_stack t j) = Some q \<and> page_level q = j
      \<and> (j = Suc (Suc l) \<longrightarrow> contains (index_scheme t) q (GetLowest (index_scheme t) p) (GetHighest (index_scheme t) p))
      \<and> (\<forall>r. j < H \<longrightarrow> pages t (path_stack t (Suc j)) = Some r \<longrightarrow> contains (index_scheme t) r (GetLowest (index_scheme t) q) (GetHighest (index_scheme t) q))"
    if "Suc l < j" "j \<le> H" for j using assms(1) that unfolding path_above_def by blast
  show ?thesis
    unfolding path_above_def assms(6-9)
  proof (intro conjI allI impI)
    fix j assume j: "l < j" "j \<le> H"
    show "\<exists>q. pages t (((path_stack t)(Suc l := c)) j) = Some q \<and> page_level q = j \<and> (j = Suc l \<longrightarrow> contains (index_scheme t) q lo hi)
        \<and> (\<forall>r. j < H \<longrightarrow> pages t (((path_stack t)(Suc l := c)) (Suc j)) = Some r
            \<longrightarrow> contains (index_scheme t) r (GetLowest (index_scheme t) q) (GetHighest (index_scheme t) q))"
    proof (cases "j = Suc l")
      case True
      obtain q where "pages t (path_stack t (Suc (Suc l))) = Some q" "contains (index_scheme t) q (GetLowest (index_scheme t) p) (GetHighest (index_scheme t) p)"
        using P [of "Suc (Suc l)"] assms(2) by auto
      then show ?thesis using True assms(3-5) by auto
    next
      case False
      then show ?thesis using P [of j] j by auto
    qed
  qed (use assms(1,2) in \<open>auto simp: path_above_def\<close>)
qed

definition root_only_empty :: "Btr \<Rightarrow> bool" where
  "root_only_empty t \<longleftrightarrow> (\<forall>a p. pages t a = Some p \<longrightarrow> page_level p = 0 \<longrightarrow> 0 < cnt p \<or> a = index_root t)"

definition inserted_into :: "Btr \<Rightarrow> byte list \<Rightarrow> Btr \<Rightarrow> bool" where
  "inserted_into t v t' \<longleftrightarrow> blink t' \<and> complete t' \<and> (\<exists>H. fresh_root t' H) \<and> same_conf t t' \<and> stored t' = with_record (index_scheme t) v (stored t)
     \<and> (root_only_empty t \<longrightarrow> no_empty_leaf t')"

lemma nonempty_after_store:
  fixes t a v
  defines "s \<equiv> index_scheme t"
  assumes b: "blink t" "complete t" and p: "pages t a = Some p" "page_level p = 0" and k: "in_page s (rec_key s v) p" "rec_ok s v" "key_in t (rec_key s v)"
    and st: "store_leaf a (rec_key s v) v lg p t = Inr (split, t')" and e: "root_only_empty t"
  shows "no_empty_leaf t'"
proof -
  have old: "0 < cnt q" if q: "pages t c = Some q" "page_level q = 0" "c \<noteq> a" for c q
  proof (rule ccontr)
    assume "\<not> 0 < cnt q"
    then have c: "c = index_root t" using e [unfolded root_only_empty_def, rule_format, OF q(1,2)] by simp
    obtain r where r: "pages t (index_root t) = Some r" "GetLowest s r = key_min t" using b(1) by (auto simp: blink_iff root_ok_def s_def)
    moreover have "GetHighest s r = key_max t" using b(2) r(1) by (auto simp: complete_def Let_def s_def)
    ultimately have "in_page s (rec_key s v) q" using c q(1) k(3) by (simp add: in_page_def key_in_def s_def)
    then show False using cover_unique [OF b(1) q(1) p(1), where k = "rec_key s v"] q(2,3) p(2) k(1,3) by (simp add: s_def key_in_def)
  qed
  have ne: "0 < cnt x" if "set (entries x) = with_record s v (set (entries p))" for x
    using that by (cases "entries x") (auto simp: with_record_def dest: arg_cong [where f = length])
  show ?thesis using b(1) p k(1,2) [unfolded s_def] st [unfolded s_def]
  proof (cases rule: store_leaf_cases)
    case (plain p1)
    then show ?thesis using old ne [of p1] by (auto simp: no_empty_leaf_def s_def split: if_splits)
  next
    case (split p2 sib sk c buf)
    then show ?thesis using old by (auto simp: no_empty_leaf_def split: if_splits)
  qed
qed

lemma insert_leaf_ok:
  fixes t v
  defines "s \<equiv> index_scheme t"
  assumes b: "blink t" "complete t" "fresh_root t H" "Suc H < 2 ^ 8" and p: "pages t c = Some p" "page_level p = 0"
    and k: "in_page s (rec_key s v) p" "rec_ok s v" "key_in t (rec_key s v)"
    and pa: "path_above (t\<lparr>path_stack := (path_stack t)(0 := c)\<rparr>) 0 H (GetLowest s p) (GetHighest s p)"
    and fuel: "Suc H < length (free_slots t)" "3 * H + 2 \<le> n"
  shows "\<exists>t'. Btr_leaf_page_store n c (rec_key s v) v lg t = Inr (True, t') \<and> inserted_into t v t'"
proof -
  obtain n' where n': "n = Suc n'" "3 * H + 1 \<le> n'" using fuel(2) by (cases n) auto
  define t1 where "t1 = t\<lparr>path_stack := (path_stack t)(0 := c), nested_retry_counter := 0\<rparr>"
  have sh: "same_shared t t1" "free_slots t1 = free_slots t" by (simp_all add: t1_def same_shared_def same_conf_def)
  note F = shared_facts [OF sh b(1)]
  have s1: "index_scheme t1 = s" "pages t1 = pages t" "index_root t1 = index_root t" by (simp_all add: t1_def s_def)
  have c1: "complete t1" using blink_shared(2) [OF b(1) sh] b(2) by simp
  have P1: "pages t1 c = Some p" "in_page (index_scheme t1) (rec_key (index_scheme t1) v) p" "rec_ok (index_scheme t1) v" using p(1) k s1 by simp_all
  have "free_slots t1 \<noteq> []" using fuel(1) sh(2) by auto
  then obtain split t2 where st: "store_leaf c (rec_key s v) v lg p t1 = Inr (split, t2)" using store_leaf_total by blast
  note st' = st [folded s1(1)]
  note L = store_leaf_step [OF F(1) P1(1) p(2) P1(2,3) st'] and C = complete_store_leaf [OF F(1) c1 P1(1) p(2) P1(2,3) st']
  have ne: "root_only_empty t \<longrightarrow> no_empty_leaf t2"
    using nonempty_after_store [OF F(1) c1 P1(1) p(2) P1(2,3) _ st'] k(3) s1 by (simp add: root_only_empty_def key_in_def t1_def s_def)
  have sc: "same_conf t t2" "same_local t1 t2" using L(2,3) by (auto simp: grows_def same_conf_def t1_def)
  have fr2: "fresh_root t2 H"
  proof -
    obtain r where r: "pages t1 (index_root t1) = Some r" "page_level r = H" using b(3) s1 by (auto simp: fresh_root_def)
    then have "node_at t2 (index_root t1) H (GetLowest (index_scheme t1) r)" using L(2) by (auto simp: grows_def node_at_def)
    then show ?thesis using b(3) sc(2) by (auto simp: fresh_root_def same_local_def node_at_def t1_def)
  qed
  have stored: "stored t2 = with_record s v (stored t)" using L(4) F(5) s1 by simp
  have run: "Btr_leaf_page_store n c (rec_key s v) v lg t = (case split of None \<Rightarrow> Inr (True, t2)
      | Some (sk, d) \<Rightarrow> after_split n' 0 sk d (rec_key s v) lg t2)"
    using n'(1) p k(1) st by (simp add: found_def Let_def in_page_def t1_def s_def split: option.split)
  show ?thesis
  proof (cases split)
    case None
    then have "complete t2" using C complete_routes [OF L(1)] by simp
    then show ?thesis using run None L(1) fr2 sc(1) stored ne by (auto simp: inserted_into_def s_def)
  next
    case (Some x)
    obtain sk d where x: "x = (sk, d)" by (cases x)
    have "\<exists>p2 sib buf. pages t2 = (pages t1)(d \<mapsto> sib, c \<mapsto> p2) \<and> halved s p d sk p2 sib \<and> free_slots t1 = (d, buf) # free_slots t2"
      using F(1) P1(1) p(2) P1(2,3) st'
    proof (cases rule: store_leaf_cases)
      case (plain p1)
      then show ?thesis using Some by simp
    next
      case (split p2 sib y e buf)
      then have "y = sk" "e = d" using Some x by simp_all
      then show ?thesis using split(2,5,8) s1(1) by metis
    qed
    then obtain p2 sib buf where H: "pages t2 = (pages t1)(d \<mapsto> sib, c \<mapsto> p2)" "halved s p d sk p2 sib" "free_slots t1 = (d, buf) # free_slots t2" by blast
    have none: "pages t1 d = None" using F(1) H(3) by (simp add: blink_iff slots_ok_def)
    have cd: "c \<noteq> d" using none P1(1) by auto
    have s2: "index_scheme t2 = s" using sc(1) by (simp add: same_conf_def s_def)
    have sib: "pages t2 d = Some sib" "GetHighest (index_scheme t2) sib = GetHighest s p" using H(1,2) cd s2 by (simp_all add: halved_def)
    have pa2: "path_above t2 0 H (GetLowest s p) (GetHighest (index_scheme t2) sib)"
    proof (rule path_above_cong)
      show "path_above (t\<lparr>path_stack := (path_stack t)(0 := c)\<rparr>) 0 H (GetLowest s p) (GetHighest (index_scheme t2) sib)" using pa sib(2) by simp
      show "path_stack t2 = path_stack (t\<lparr>path_stack := (path_stack t)(0 := c)\<rparr>)" "index_root t2 = index_root (t\<lparr>path_stack := (path_stack t)(0 := c)\<rparr>)"
        "index_scheme t2 = index_scheme (t\<lparr>path_stack := (path_stack t)(0 := c)\<rparr>)" using sc(2) s2 by (simp_all add: same_local_def t1_def s_def)
      show "pages t2 e = Some q" if "pages (t\<lparr>path_stack := (path_stack t)(0 := c)\<rparr>) e = Some q" "0 < page_level q" for e q
        using that p H(1) none s1(2) by auto
    qed
    have "key_ok (index_scheme t2) (GetLowest s p)" using page_okD(3) [OF blinkD(1) [OF b(1) p(1)]] s2 by (simp add: s_def)
    moreover have "key_compare (index_scheme t2) (GetLowest s p) sk \<le> 0" using H(2) s2 by (simp add: halved_def key_between_def)
    moreover have "length (free_slots t) = Suc (length (free_slots t2))" using arg_cong [OF H(3), of length] sh(2) by simp
    then have "H - 0 < length (free_slots t2)" using fuel(1) by linarith
    moreover have "3 * (H - 0) + 1 \<le> n'" using n'(2) by simp
    moreover have "routes t2 {d}" "root_covers t2 {d}" "pending t2 0 sk d" using C L(5) Some x by simp_all
    ultimately obtain t' where t': "after_split n' 0 sk d (rec_key s v) lg t2 = Inr (True, t')" "finished t2 t'"
      using after_split_ok [OF L(1) _ _ _ fr2 _ b(4) sib(1) pa2, of sk n' "rec_key s v" lg] by blast
    have "complete t'" using t'(2) complete_routes by (simp add: finished_def)
    moreover have "no_empty_leaf t'" if "root_only_empty t" using ne that t'(2) unfolding no_empty_leaf_def finished_def same_leaves_def by blast
    ultimately have "inserted_into t v t'" using t'(2) sc(1) stored by (auto simp: inserted_into_def finished_def same_conf_def s_def)
    then show ?thesis using run Some x t'(1) by simp
  qed
qed

lemma inserted_shared:
  assumes "blink t" "same_shared t t1" "free_slots t1 = free_slots t" "inserted_into t1 v t'"
  shows "inserted_into t v t'"
  using assms(2,4) blink_shared(3) [OF assms(1-3)] by (auto simp: inserted_into_def root_only_empty_def same_shared_def same_conf_def)

text \<open>One step of the loop of \<^verbatim>\<open>insert\<close> after the search of a page, which gave \<open>r\<close>.\<close>

abbreviation insert_below :: "nat \<Rightarrow> GlobalAddress \<Rightarrow> GlobalAddress \<Rightarrow> byte list \<Rightarrow> byte list \<Rightarrow> SearchResult \<Rightarrow> int \<Rightarrow> bool \<Rightarrow> Btr \<Rightarrow> btr_error + Btr" where
  "insert_below n root p k v r level lg t \<equiv> (case next_page p r level of (p, level) \<Rightarrow>
     if level \<noteq> 0 then insert_loop n root p k v r level False lg t
     else btr_bind (Btr_leaf_page_store n p k v lg t) (\<lambda>(stored, t).
       if stored then Inr t
       else if path_stack t 1 \<noteq> GlobalAddress_Null
       then let p = path_stack t 1 in insert_loop n root p k v r 1 (p = root) lg t
       else btr_bind (found (get_root_ptr_protected t)) (\<lambda>(p, t). insert_loop n root p k v r (- 1) True lg t)))"

lemma insert_from_next:
  assumes "blink t" "complete t" "fresh_root t H" "Suc H < 2 ^ 8" "rec_ok (index_scheme t) v" "key_in t (rec_key (index_scheme t) v)"
    "pages t (next_level r) = Some q" "page_level q = lv" "in_page (index_scheme t) (rec_key (index_scheme t) v) q"
    "next_level r \<noteq> GlobalAddress_Null" "slibing r = GlobalAddress_Null" "r_level r = Suc lv" "lv < H"
    "path_above t lv H (GetLowest (index_scheme t) q) (GetHighest (index_scheme t) q)"
    "Suc H < length (free_slots t)" "lv + 3 * H + 2 \<le> n"
  shows "\<exists>t'. insert_below n root a (rec_key (index_scheme t) v) v r l lg t = Inr t' \<and> inserted_into t v t'"
  using assms
proof (induction lv arbitrary: t r q a l n)
  case 0
  let ?s = "index_scheme t" and ?n = "next_level r"
  have "path_above (t\<lparr>path_stack := (path_stack t)(0 := ?n)\<rparr>) 0 H (GetLowest ?s q) (GetHighest ?s q)"
    using 0(14) \<open>0 < H\<close> by (simp add: path_above_def)
  from insert_leaf_ok [OF 0(1-4,7,8,9,5,6) this 0(15), of n lg] 0(16)
  obtain t' where "Btr_leaf_page_store n ?n (rec_key ?s v) v lg t = Inr (True, t')" "inserted_into t v t'" by auto
  moreover have "next_page a r l = (?n, 0)" using 0(10-12) by (simp add: next_page_def)
  ultimately show ?case by simp
next
  case (Suc lv)
  let ?s = "index_scheme t" and ?n = "next_level r" and ?k = "rec_key (index_scheme t) v"
  obtain n' where n': "n = Suc n'" "lv + 3 * H + 2 \<le> n'" using Suc.prems(16) by (cases n) auto
  have lq: "0 < page_level q" "page_level q = Suc lv" using Suc.prems(8) by simp_all
  have kok: "key_ok ?s ?k" using Suc.prems(6) by (simp add: key_in_def)
  obtain q' where q': "pages t (InternalPage_search ?k ?s q) = Some q'" "page_level q' = lv" "in_page ?s ?k q'"
      "InternalPage_search ?k ?s q \<noteq> GlobalAddress_Null"
    using next_covered [OF Suc.prems(1,2,7) lq(1) kok Suc.prems(9)] lq(2) by auto
  define r1 where "r1 = (SearchResult_Reset r)\<lparr>r_level := Suc lv, next_level := InternalPage_search ?k ?s q\<rparr>"
  define t1 where "t1 = t\<lparr>path_stack := (path_stack t)(Suc lv := ?n), nested_retry_counter := 0\<rparr>"
  have rg: "key_lt t ?k (GetHighest ?s q)" "\<not> key_lt t ?k (GetLowest ?s q)" using Suc.prems(9) by (simp_all add: in_page_def)
  have "visit_page ?n ?k r False False q t = Return True r1 t1"
    using rg lq(2) by (simp add: visit_page_def Let_def r1_def t1_def)
  then have vis: "Btr_internal_page_search ?n ?k r (int (Suc lv)) False t = Some (True, r1, int (Suc lv), t1)"
    using Suc.prems(7) by (simp add: Btr_internal_page_search_def r1_def)
  have sh: "same_shared t t1" "free_slots t1 = free_slots t" by (simp_all add: t1_def same_shared_def same_conf_def)
  note B = blink_shared [OF Suc.prems(1) sh]
  have path: "path_above t1 lv H (GetLowest ?s q') (GetHighest ?s q')"
    by (rule path_push [OF Suc.prems(14,13,7) lq(2) child_within [OF Suc.prems(1,7) lq(1) kok Suc.prems(9) q'(1)]]) (simp_all add: t1_def)
  have ih: "\<exists>t'. insert_below n' root ?n (rec_key (index_scheme t1) v) v r1 (int (Suc lv)) lg t1 = Inr t' \<and> inserted_into t1 v t'"
  proof (rule Suc.IH [OF B(1), where q = q'])
    show "path_above t1 lv H (GetLowest (index_scheme t1) q') (GetHighest (index_scheme t1) q')" using path by (simp add: t1_def)
  qed (use Suc.prems q' n' B(2) in \<open>auto simp: t1_def r1_def SearchResult_Reset_def fresh_root_def key_in_def\<close>)
  have s1: "index_scheme t1 = ?s" by (simp add: t1_def)
  obtain t' where t': "insert_below n' root ?n ?k v r1 (int (Suc lv)) lg t1 = Inr t'" "inserted_into t1 v t'" using ih [unfolded s1] by blast
  have "next_page a r l = (?n, int (Suc lv))" using Suc.prems(10-12) by (simp add: next_page_def)
  then have "insert_below n root a ?k v r l lg t = insert_below n' root ?n ?k v r1 (int (Suc lv)) lg t1"
    using vis n'(1) by (simp add: found_def)
  then show ?case using t'(1) inserted_shared [OF Suc.prems(1) sh t'(2)] by simp
qed

lemma insert_at_root:
  assumes b: "blink t" "complete t" "fresh_root t H" "Suc H < 2 ^ 8" and k: "rec_ok (index_scheme t) v" "key_in t (rec_key (index_scheme t) v)"
    and ps: "path_stack t = (\<lambda>_. GlobalAddress_Null)" and fuel: "Suc H < length (free_slots t)" "4 * H + 3 \<le> n"
  shows "\<exists>t'. insert_loop n root (index_root t) (rec_key (index_scheme t) v) v r l True lg t = Inr t' \<and> inserted_into t v t'"
proof -
  let ?s = "index_scheme t" and ?c = "index_root t" and ?k = "rec_key (index_scheme t) v"
  obtain n' where n': "n = Suc n'" "4 * H + 2 \<le> n'" using fuel(2) by (cases n) auto
  obtain p where p: "pages t ?c = Some p" "page_level p = H" "GetLowest ?s p = key_min t"
    using b(1,3) by (auto simp: fresh_root_def blink_iff root_ok_def)
  have "GetHighest ?s p = key_max t" using b(2) p(1) by (auto simp: complete_def Let_def)
  then have ip: "in_page ?s ?k p" "key_ok ?s ?k" using p(3) k(2) by (simp_all add: in_page_def key_in_def)
  then have rg: "key_lt t ?k (GetHighest ?s p)" "\<not> key_lt t ?k (GetLowest ?s p)" by (simp_all add: in_page_def)
  have h: "root_handle ?c t = Some (True, t)" using b(3) blinkD(5) [OF b(1) p(1)] by (simp add: root_handle_def fresh_root_def)
  show ?thesis
  proof (cases "H = 0")
    case True
    define r1 where "r1 = (SearchResult_Reset r)\<lparr>r_level := 0\<rparr>"
    define t1 where "t1 = t\<lparr>path_stack := (path_stack t)(0 := ?c)\<rparr>"
    have "visit_page ?c ?k r True True p t = Return True r1 t1" using rg True p(2) by (simp add: visit_page_def Let_def r1_def t1_def)
    then have vis: "Btr_internal_page_search ?c ?k r l True t = Some (True, r1, 0, t1)" using p(1) h by (simp add: Btr_internal_page_search_def r1_def)
    have sh: "same_shared t t1" "free_slots t1 = free_slots t" "index_scheme t1 = ?s" by (simp_all add: t1_def same_shared_def same_conf_def)
    note B = blink_shared [OF b(1) sh(1,2)]
    have "path_above (t1\<lparr>path_stack := (path_stack t1)(0 := ?c)\<rparr>) 0 H (GetLowest (index_scheme t1) p) (GetHighest (index_scheme t1) p)"
      using True ps by (simp add: path_above_def t1_def)
    moreover have "complete t1" "fresh_root t1 H" "pages t1 ?c = Some p" "page_level p = 0" "key_in t1 ?k" "Suc H < length (free_slots t1)" "3 * H + 2 \<le> n'"
      using B(2) b(2,3) p(1,2) True k(2) fuel(1) n' by (simp_all add: t1_def fresh_root_def key_in_def)
    ultimately obtain t' where t': "Btr_leaf_page_store n' ?c ?k v lg t1 = Inr (True, t')" "inserted_into t1 v t'"
      using insert_leaf_ok [OF B(1), where H = H and c = ?c and p = p and v = v and n = n' and lg = lg, unfolded sh(3)] b(4) ip(1) k(1) sh(3) by auto
    have "next_page ?c r1 0 = (?c, 0)" by (simp add: next_page_def r1_def SearchResult_Reset_def)
    then have "insert_loop n root ?c ?k v r l True lg t = Inr t'" using vis t'(1) n'(1) by (simp add: found_def)
    then show ?thesis using inserted_shared [OF b(1) sh(1,2) t'(2)] by simp
  next
    case False
    define r1 where "r1 = (SearchResult_Reset r)\<lparr>r_level := H, next_level := InternalPage_search ?k ?s p\<rparr>"
    define t1 where "t1 = t\<lparr>path_stack := (path_stack t)(H := ?c), nested_retry_counter := 0\<rparr>"
    have "visit_page ?c ?k r True True p t = Return True r1 t1" using rg False p(2) by (simp add: visit_page_def Let_def r1_def t1_def)
    then have vis: "Btr_internal_page_search ?c ?k r l True t = Some (True, r1, int H, t1)" using p(1) h by (simp add: Btr_internal_page_search_def r1_def)
    have lp: "0 < page_level p" using False p(2) by simp
    obtain q where q: "pages t (InternalPage_search ?k ?s p) = Some q" "page_level q = H - 1" "in_page ?s ?k q" "InternalPage_search ?k ?s p \<noteq> GlobalAddress_Null"
      using next_covered [OF b(1,2) p(1) lp ip(2,1)] p(2) by auto
    have sh: "same_shared t t1" "free_slots t1 = free_slots t" "index_scheme t1 = ?s" by (simp_all add: t1_def same_shared_def same_conf_def)
    note B = blink_shared [OF b(1) sh(1,2)]
    have "path_above t1 (H - 1) H (GetLowest (index_scheme t1) q) (GetHighest (index_scheme t1) q)"
      using ps p(1,2) False child_within [OF b(1) p(1) lp ip(2,1) q(1)] by (auto simp: path_above_def t1_def)
    moreover have "complete t1" "fresh_root t1 H" "pages t1 (next_level r1) = Some q" "key_in t1 ?k" "Suc H < length (free_slots t1)"
        "next_level r1 \<noteq> GlobalAddress_Null" "slibing r1 = GlobalAddress_Null" "r_level r1 = Suc (H - 1)" "H - 1 < H" "(H - 1) + 3 * H + 2 \<le> n'"
      using B(2) b(2,3) q k(2) fuel(1) n' False by (simp_all add: t1_def r1_def SearchResult_Reset_def fresh_root_def key_in_def)
    ultimately obtain t' where t': "insert_below n' root ?c ?k v r1 (int H) lg t1 = Inr t'" "inserted_into t1 v t'"
      using insert_from_next [OF B(1), where H = H and v = v and r = r1 and q = q and lv = "H - 1" and n = n' and root = root and a = ?c and l = "int H" and lg = lg, unfolded sh(3)] b(4) k(1) sh(3) q(2,3) by auto
    have "insert_loop n root ?c ?k v r l True lg t = Inr t'" using vis t'(1) n'(1) by (simp add: found_def)
    then show ?thesis using inserted_shared [OF b(1) sh(1,2) t'(2)] by simp
  qed
qed

lemma insert_ok:
  assumes "blink t" "complete t" "fresh_root t H" "Suc H < 2 ^ 8" "rec_ok (index_scheme t) v" "key_in t (rec_key (index_scheme t) v)"
    "H + 2 \<le> length (free_slots t)" "4 * H + 3 \<le> n"
  shows "\<exists>t'. Btr_insert n (rec_key (index_scheme t) v) v lg t = Inr t' \<and> inserted_into t v t'"
proof -
  define t0 where "t0 = before_operation t"
  let ?k = "rec_key (index_scheme t) v"
  have sh: "same_shared t t0" "free_slots t0 = free_slots t" by (simp_all add: t0_def before_operation_def same_shared_def same_conf_def)
  note B = blink_shared [OF assms(1) sh]
  have c: "index_scheme t0 = index_scheme t" "index_root t0 = index_root t" by (simp_all add: t0_def before_operation_def)
  have f: "fresh_root t0 H" "key_in t0 ?k" "path_stack t0 = (\<lambda>_. GlobalAddress_Null)"
    using assms(3,6) by (simp_all add: t0_def before_operation_def fresh_root_def key_in_def)
  obtain r where "pages t0 (index_root t0) = Some r" using f(1) by (auto simp: fresh_root_def)
  then have "get_root_ptr_protected t0 = Some (index_root t0, t0)"
    using f(1) blinkD(5) [OF B(1)] by (auto simp: get_root_ptr_protected_def fresh_root_def)
  moreover obtain t' where "insert_loop n (index_root t0) (index_root t0) ?k v SearchResult_0 (- 1) True lg t0 = Inr t'" "inserted_into t0 v t'"
    using insert_at_root [OF B(1), where H = H and v = v and n = n and root = "index_root t0" and r = SearchResult_0 and l = "- 1" and lg = lg] B(2)
      assms(2,4,5,7,8) f c sh(2) by auto
  ultimately show ?thesis using inserted_shared [OF assms(1) sh] by (auto simp: Btr_insert_def t0_def [symmetric] found_def)
qed

text \<open>
  C6: An insertion on a tree without unfinished splits, by a node that knows its root, finishes within
  the stated fuel and with one free slot per level and one for a new root: the leaf and as many pages above as
  have to be are split, and the root gets a new root.  The result again is a B-link tree without unfinished splits in
  which the node knows the root; its records are the old ones with the new one in place of a record of the same key.
\<close>
theorem insert_correct:
  fixes t v
  defines "s \<equiv> index_scheme t"
  assumes "blink t" "complete t" "fresh_root t H" "Suc H < 2 ^ 8" "rec_ok s v" "key_in t (rec_key s v)"
    "H + 2 \<le> length (free_slots t)" "4 * H + 3 \<le> n"
  shows "\<exists>t'. Btr_insert n (rec_key s v) v lg t = Inr t' \<and> blink t' \<and> complete t' \<and> (\<exists>H'. fresh_root t' H')
    \<and> stored t' = {u \<in> stored t. key_compare s (rec_key s v) (rec_key s u) \<noteq> 0} \<union> {v}
    \<and> (root_only_empty t \<longrightarrow> no_empty_leaf t')"
  using insert_ok [OF assms(2-4), of v n lg] assms(5-9) by (auto simp: inserted_into_def with_record_def s_def)

section \<open>An example\<close>

lemma Btr_new_ready:
  assumes "tree_fits s kmin kmax" "distinct (map fst slots)" "GlobalAddress_Null \<notin> fst ` set slots" "Btr_new s kmin kmax slots = Some t"
  shows "complete t" "fresh_root t 0" "root_only_empty t" "Suc (length (free_slots t)) = length slots" "key_min t = kmin" "key_max t = kmax"
proof -
  obtain root buf fs where sl: "slots = (root, buf) # fs" using assms(4) by (cases slots) (auto simp: Btr_new_def)
  define p where "p = LeafPage_new root (of_nat (leaf_cardinality kLeafPageSize s)) s 0 kmin kmax (\<lambda>_. 0)"
  have t: "pages t = [root \<mapsto> p]" "index_root t = root" "g_root_ptr t = root" "cached_root t = root" "tree_height t = 0" "root_lock t = 0"
      "free_slots t = fs" "index_scheme t = s" "key_max t = kmax" "key_min t = kmin"
    using assms(4) by (auto simp: Btr_new_def sl Let_def p_def)
  have lv: "page_level p = 0" using LeafPage_new_level(1) [of 0 root "of_nat (leaf_cardinality kLeafPageSize s)" s kmin kmax "\<lambda>_. 0", folded p_def] by simp
  have hi: "GetHighest s p = kmax" using assms(1) unfolding p_def LeafPage_new_def Let_def tree_fits_def by (simp add: page_simps)
  show "complete t" using t lv hi by (auto simp: complete_def Let_def)
  show "fresh_root t 0" "root_only_empty t" using t lv by (auto simp: fresh_root_def root_only_empty_def split: if_splits)
  show "Suc (length (free_slots t)) = length slots" "key_min t = kmin" "key_max t = kmax" using t sl by simp_all
qed

definition demo_min :: "byte list" where
  "demo_min = le_bytes 8 (0x8000000000000000 :: u64) @ replicate 8 0"

definition demo_max :: "byte list" where
  "demo_max = le_bytes 8 (0x7fffffffffffffff :: u64) @ replicate 8 0xff"

lemma demo_fits: "tree_fits demo_schema demo_min demo_max"
proof -
  have "key_compare demo_schema demo_min demo_max < 0" by code_simp
  then show ?thesis unfolding tree_fits_def
    by (simp add: demo_sizes leaf_cardinality_def internal_cardinality_def Let_def kLeafPageSize_def kInternalPageSize_def INDEX_DATA_OFF_def
      demo_key_ok demo_min_def demo_max_def)
qed

definition demo_slots :: "(GlobalAddress \<times> mem) list" where
  "demo_slots = map (\<lambda>n. (GlobalAddress 1 (of_nat n * 0x4000), \<lambda>_. 0)) [1..<4]"

lemma demo_tree:
  obtains t where "Btr_new demo_schema demo_min demo_max demo_slots = Some t" "blink t" "complete t" "fresh_root t 0" "root_only_empty t"
    "index_scheme t = demo_schema" "stored t = {}" "length (free_slots t) = 2" "rec_ok demo_schema demo_row" "key_in t (rec_key demo_schema demo_row)"
proof -
  have sl: "distinct (map fst demo_slots)" "GlobalAddress_Null \<notin> fst ` set demo_slots" "length demo_slots = 3" "demo_slots \<noteq> []"
    by (simp_all add: demo_slots_def upt_rec GlobalAddress_Null_def)
  have "Btr_new demo_schema demo_min demo_max demo_slots \<noteq> None" using sl(4) by (simp add: Btr_new_def Let_def split: list.split)
  then obtain t where t: "Btr_new demo_schema demo_min demo_max demo_slots = Some t" by blast
  note B = Btr_new_blink [OF demo_fits sl(1,2) t] and R = Btr_new_ready [OF demo_fits sl(1,2) t]
  have "0 \<le> key_compare demo_schema (rec_key demo_schema demo_row) demo_min" "key_compare demo_schema (rec_key demo_schema demo_row) demo_max < 0"
    by code_simp+
  then have "key_in t (rec_key demo_schema demo_row)" using B(3) R(5,6) demo_row_key by (simp add: key_in_def)
  then show thesis using that [OF t B(1) R(1-3) B(3,2)] R(4) sl(3) demo_row_key by (simp add: rec_ok_def demo_sizes)
qed

theorem insert_correct_witness:
  "\<exists>t t'. Btr_new demo_schema demo_min demo_max demo_slots = Some t
     \<and> Btr_insert 3 (rec_key demo_schema demo_row) demo_row True t = Inr t' \<and> stored t' = {demo_row} \<and> no_empty_leaf t'"
proof -
  obtain t where t: "Btr_new demo_schema demo_min demo_max demo_slots = Some t" "blink t" "complete t" "fresh_root t 0" "root_only_empty t"
    "index_scheme t = demo_schema" "stored t = {}" "length (free_slots t) = 2" "rec_ok demo_schema demo_row" "key_in t (rec_key demo_schema demo_row)"
    by (rule demo_tree)
  from insert_correct [OF t(2-4), of demo_row 3 True] t show ?thesis by auto
qed


theorem interleavings_refine_map_witness:
  "\<exists>t t' S. Btr_new demo_schema demo_min demo_max demo_slots = Some t \<and> tree_run (t, {}) [demo_row] (t', S)
     \<and> blink t' \<and> stored t' = {demo_row}"
proof -
  obtain t where t: "Btr_new demo_schema demo_min demo_max demo_slots = Some t" "blink t" "complete t" "fresh_root t 0" "root_only_empty t"
    "index_scheme t = demo_schema" "stored t = {}" "length (free_slots t) = 2" "rec_ok demo_schema demo_row" "key_in t (rec_key demo_schema demo_row)"
    by (rule demo_tree)
  obtain p where p: "pages t (index_root t) = Some p" "page_level p = 0" "GetLowest demo_schema p = key_min t" "GetHighest demo_schema p = key_max t"
    using t(2-4,6) by (auto simp: fresh_root_def blink_iff root_ok_def complete_def Let_def)
  then have "in_page demo_schema (rec_key demo_schema demo_row) p" using t(6,10) by (simp add: in_page_def key_in_def)
  moreover obtain split t' where "store_leaf (index_root t) (rec_key demo_schema demo_row) demo_row True p t = Inr (split, t')"
    using store_leaf_total t(8) by force
  ultimately have "tree_step (t, {}) [demo_row] (t', {} \<union> new_split 0 split)"
    using p(1,2) t(6,9) tree_step.leaf [of t "index_root t" p demo_row True split t' "{}"] by simp
  from tree_cons [OF this tree_nil] have "tree_run (t, {}) [demo_row] (t', new_split 0 split)" by simp
  with interleavings_refine_map [OF this t(2)] t(1,7) show ?thesis by (auto simp: splits_ok_def with_record_def)
qed

end
