(* ===== verification/Record_Delta.thy ===== *)
theory Record_Delta
  imports Index_Page
begin

text \<open>
  Tuples and their deltas (\<^verbatim>\<open>storage/Record.h\<close>, \<^verbatim>\<open>storage/ColumnInfo.h\<close>,
  \<^verbatim>\<open>txn/DeltaRecord.h\<close>): access to the columns of a tuple, its meta column, the delta record into
  which an update saves the columns it overwrites, and the roll back that restores them.  The lemmas show that a roll
  back undoes the update.
\<close>


section \<open>Tuples\<close>

text \<open>The meta column of the multi-version build, packed.\<close>

record MetaColumn =
  Wts :: u64
  prev_version :: GlobalAddress
  prev_delta_epoch :: u64
  prev_delta_data_size :: u32
  next_version_ts :: u64
  is_visible :: bool

definition meta_bytes :: "MetaColumn \<Rightarrow> byte list" where
  "meta_bytes m = le_bytes 8 (Wts m) @ le_bytes 8 (gval (prev_version m)) @ le_bytes 8 (prev_delta_epoch m)
     @ le_bytes 4 (prev_delta_data_size m) @ le_bytes 8 (next_version_ts m) @ [if is_visible m then 1 else 0]"

definition meta_at :: "nat \<Rightarrow> mem \<Rightarrow> MetaColumn" where
  "meta_at a p = \<lparr>Wts = get_u64 a p, prev_version = get_addr (a + 8) p, prev_delta_epoch = get_u64 (a + 16) p,
     prev_delta_data_size = get_u32 (a + 24) p, next_version_ts = get_u64 (a + 28) p, is_visible = (get_u8 (a + 36) p \<noteq> 0)\<rparr>"

text \<open>A tuple: the buffer starts at address 0, whether it is a copy or lies in a page.  The set of dirty columns is
  kept as the ascending list in which it is iterated.\<close>

record Record =
  schema_ptr :: RecordSchema
  data_ptr :: mem
  dirty_col_ids :: "nat list"

definition Record_new :: "RecordSchema \<Rightarrow> mem \<Rightarrow> Record" where
  "Record_new s data = \<lparr>schema_ptr = s, data_ptr = data, dirty_col_ids = []\<rparr>"

definition set_insert :: "nat \<Rightarrow> nat list \<Rightarrow> nat list" where
  "set_insert c cs = (if c \<in> set cs then cs else insort c cs)"

definition CopyFrom :: "Record \<Rightarrow> Record \<Rightarrow> Record" where
  "CopyFrom src r = r\<lparr>data_ptr := store_bytes 0 (load_bytes 0 (GetRecordTotalSize (schema_ptr r)) (data_ptr src)) (data_ptr r)\<rparr>"

definition CopyTo :: "Record \<Rightarrow> Record \<Rightarrow> Record" where
  "CopyTo dst r = dst\<lparr>data_ptr := store_bytes 0 (load_bytes 0 (GetRecordTotalSize (schema_ptr r)) (data_ptr r)) (data_ptr dst)\<rparr>"

text \<open>\<open>data\<close> is what the source pointer points to.\<close>

definition SetColumn :: "nat \<Rightarrow> byte list \<Rightarrow> Record \<Rightarrow> Record" where
  "SetColumn c data r = r\<lparr>data_ptr := store_bytes (GetColumnOffset (schema_ptr r) c) (take (GetColumnSize (schema_ptr r) c) data) (data_ptr r),
                          dirty_col_ids := set_insert c (dirty_col_ids r)\<rparr>"

definition UpdateColumn :: "nat \<Rightarrow> byte list \<Rightarrow> Record \<Rightarrow> Record" where
  "UpdateColumn c data r = r\<lparr>data_ptr := store_bytes (GetColumnOffset (schema_ptr r) c) (take (GetColumnSize (schema_ptr r) c) data) (data_ptr r),
                             dirty_col_ids := set_insert c (dirty_col_ids r)\<rparr>"

text \<open>The variants for character columns copy as many bytes as they are given.\<close>

definition SetColumn_chars :: "nat \<Rightarrow> byte list \<Rightarrow> Record \<Rightarrow> Record" where
  "SetColumn_chars c data r = r\<lparr>data_ptr := store_bytes (GetColumnOffset (schema_ptr r) c) data (data_ptr r),
                                dirty_col_ids := set_insert c (dirty_col_ids r)\<rparr>"

definition FillRecord :: "byte list \<Rightarrow> Record \<Rightarrow> Record" where
  "FillRecord data r = r\<lparr>data_ptr := store_bytes 0 data (data_ptr r)\<rparr>"

definition GetColumn :: "nat \<Rightarrow> Record \<Rightarrow> byte list" where
  "GetColumn c r = load_bytes (GetColumnOffset (schema_ptr r) c) (GetColumnSize (schema_ptr r) c) (data_ptr r)"

text \<open>The key is assembled in a buffer from the key columns and their sizes.\<close>

definition key_of_columns :: "nat \<Rightarrow> nat list \<Rightarrow> nat list \<Rightarrow> nat \<Rightarrow> Record \<Rightarrow> byte list" where
  "key_of_columns n ids sizes len r =
    (if len = 0 then load_bytes 0 (GetRecordTotalSize (schema_ptr r)) (data_ptr r)
     else concat (map (\<lambda>(c, sz). load_bytes (GetColumnOffset (schema_ptr r) c) sz (data_ptr r)) (take n (zip ids sizes))))"

definition GetPrimaryKey :: "Record \<Rightarrow> byte list" where
  "GetPrimaryKey r = key_of_columns (primary_col_num (schema_ptr r)) (primary_col_ids (schema_ptr r)) (primary_col_sizes (schema_ptr r))
     (GetPrimaryKeyLength (schema_ptr r)) r"

definition GetSecondaryKey :: "nat \<Rightarrow> Record \<Rightarrow> byte list" where
  "GetSecondaryKey i r = key_of_columns (secondary_col_num (schema_ptr r) ! i) (drop (5 * i) (secondary_col_ids (schema_ptr r)))
     (drop (5 * i) (secondary_col_sizes (schema_ptr r))) (secondary_key_length (schema_ptr r) ! i) r"

definition Record_GetPartitionHashcode :: "Record \<Rightarrow> u32" where
  "Record_GetPartitionHashcode r = sum_list (map (\<lambda>c. get_u32 (GetColumnOffset (schema_ptr r) c) (data_ptr r))
     (take (partition_col_num (schema_ptr r)) (partition_col_ids (schema_ptr r))))"

abbreviation meta_off :: "RecordSchema \<Rightarrow> nat" where
  "meta_off s \<equiv> GetColumnOffset s (GetMetaColumnId s)"

definition GetMeta :: "Record \<Rightarrow> MetaColumn" where
  "GetMeta r = meta_at (meta_off (schema_ptr r)) (data_ptr r)"

definition PutMeta :: "MetaColumn \<Rightarrow> Record \<Rightarrow> Record" where
  "PutMeta m r = SetColumn (GetMetaColumnId (schema_ptr r)) (meta_bytes m) r"

definition GetVisible :: "Record \<Rightarrow> bool" where
  "GetVisible r = is_visible (GetMeta r)"

definition SetVisible :: "bool \<Rightarrow> Record \<Rightarrow> Record" where
  "SetVisible b r = PutMeta ((GetMeta r)\<lparr>is_visible := b\<rparr>) r"

definition GetWTS :: "Record \<Rightarrow> u64" where
  "GetWTS r = Wts (GetMeta r)"

definition PutWTS :: "u64 \<Rightarrow> Record \<Rightarrow> Record" where
  "PutWTS w r = PutMeta ((GetMeta r)\<lparr>Wts := w\<rparr>) r"


section \<open>Deltas\<close>

text \<open>Byte offsets of the packed members of \<^verbatim>\<open>DeltaRecord\<close>.\<close>

definition DELTA_DATA_OFF :: nat where "DELTA_DATA_OFF = 41"

definition delta_marker :: "nat \<Rightarrow> mem \<Rightarrow> byte" where "delta_marker a m = get_u8 a m"
definition delta_Wts :: "nat \<Rightarrow> mem \<Rightarrow> u64" where "delta_Wts a m = get_u64 (a + 1) m"
definition next_delta_wts :: "nat \<Rightarrow> mem \<Rightarrow> u64" where "next_delta_wts a m = get_u64 (a + 9) m"
definition prev_delta_gaddr :: "nat \<Rightarrow> mem \<Rightarrow> GlobalAddress" where "prev_delta_gaddr a m = get_addr (a + 17) m"
definition delta_prev_epoch :: "nat \<Rightarrow> mem \<Rightarrow> u64" where "delta_prev_epoch a m = get_u64 (a + 25) m"
definition delta_prev_size :: "nat \<Rightarrow> mem \<Rightarrow> u32" where "delta_prev_size a m = get_u32 (a + 33) m"
definition current_record_data_size :: "nat \<Rightarrow> mem \<Rightarrow> u32" where "current_record_data_size a m = get_u32 (a + 37) m"

lemmas delta_members = delta_marker_def delta_Wts_def next_delta_wts_def prev_delta_gaddr_def delta_prev_epoch_def
  delta_prev_size_def current_record_data_size_def

definition DeltaRecord_new :: "u64 \<Rightarrow> u32 \<Rightarrow> GlobalAddress \<Rightarrow> u64 \<Rightarrow> u64 \<Rightarrow> u32 \<Rightarrow> nat \<Rightarrow> mem \<Rightarrow> mem" where
  "DeltaRecord_new wts d_record_size prev_delta next_wts prev_epoch prev_record_size a m =
    store_bytes a (0x26 # le_bytes 8 wts @ le_bytes 8 next_wts @ le_bytes 8 (gval prev_delta) @ le_bytes 8 prev_epoch
      @ le_bytes 4 prev_record_size @ le_bytes 4 d_record_size) m"

text \<open>\<open>start\<close> moves over the saved columns.\<close>

function roll_back_loop :: "RecordSchema \<Rightarrow> nat \<Rightarrow> nat \<Rightarrow> mem \<Rightarrow> mem \<Rightarrow> mem" where
  "roll_back_loop s start e d p =
    (if start < e then
       let column_id = unat (get_u64 start d); column_size = unat (get_u64 (start + 8) d)
       in roll_back_loop s (start + 16 + column_size) e d
            (store_bytes (GetColumnOffset s column_id) (load_bytes (start + 16) column_size d) p)
     else p)"
  by pat_completeness auto
termination
  by (relation "measure (\<lambda>(s, start, e, d, p). e - start)") (auto simp: Let_def)

declare roll_back_loop.simps [simp del]

definition roll_back :: "nat \<Rightarrow> mem \<Rightarrow> Record \<Rightarrow> Record" where
  "roll_back a d r =
    (let r1 = r\<lparr>data_ptr := roll_back_loop (schema_ptr r) (a + DELTA_DATA_OFF) (a + unat (current_record_data_size a d)) d (data_ptr r)\<rparr>
     in PutMeta ((GetMeta r1)\<lparr>Wts := delta_Wts a d, prev_version := prev_delta_gaddr a d,
                              prev_delta_epoch := delta_prev_epoch a d, prev_delta_data_size := delta_prev_size a d\<rparr>) r1)"

fun serialize_loop :: "Record \<Rightarrow> nat list \<Rightarrow> nat \<Rightarrow> mem \<Rightarrow> mem" where
  "serialize_loop r [] start d = d"
| "serialize_loop r (c # cs) start d =
    (let n = GetColumnSize (schema_ptr r) c; d = put_u64 start (of_nat c) d; d = put_u64 (start + 8) (of_nat n) d
     in serialize_loop r cs (start + 16 + n)
          (store_bytes (start + 16) (load_bytes (GetColumnOffset (schema_ptr r) c) n (data_ptr r)) d))"

definition serialize_to_delta :: "nat \<Rightarrow> Record \<Rightarrow> mem \<Rightarrow> mem" where
  "serialize_to_delta a r d = serialize_loop r (dirty_col_ids r) (a + DELTA_DATA_OFF) d"

definition estimate_delta_size :: "Record \<Rightarrow> nat" where
  "estimate_delta_size r = sum_list (map (\<lambda>c. 16 + GetColumnSize (schema_ptr r) c) (dirty_col_ids r)) + DELTA_DATA_OFF"

text \<open>What \<^verbatim>\<open>fill_in_delta_record_single\<close> writes into the section at offset \<open>a\<close>: the saved columns are
  the dirty ones of the new tuple with their values in the old one.\<close>

definition write_delta :: "Record \<Rightarrow> Record \<Rightarrow> u64 \<Rightarrow> nat \<Rightarrow> mem \<Rightarrow> mem" where
  "write_delta new_record old_record commit_ts a m =
    (let meta_col = GetMeta old_record;
         m = DeltaRecord_new (Wts meta_col) (of_nat (estimate_delta_size new_record)) (prev_version meta_col) commit_ts
               (prev_delta_epoch meta_col) (prev_delta_data_size meta_col) a m
     in serialize_to_delta a (old_record\<lparr>dirty_col_ids := dirty_col_ids new_record\<rparr>) m)"


section \<open>Layout\<close>

text \<open>Columns follow each other, and the last one is the meta column.\<close>

definition in_column :: "RecordSchema \<Rightarrow> nat \<Rightarrow> nat \<Rightarrow> bool" where
  "in_column s c x \<longleftrightarrow> GetColumnOffset s c \<le> x \<and> x < GetColumnOffset s c + GetColumnSize s c"

definition layout_ok :: "RecordSchema \<Rightarrow> bool" where
  "layout_ok s \<longleftrightarrow> columns s \<noteq> [] \<and> column_count s = length (columns s) \<and> GetColumnSize s (GetMetaColumnId s) = kMetaSize
     \<and> (\<forall>i j. i < j \<longrightarrow> j < column_count s \<longrightarrow> GetColumnOffset s i + GetColumnSize s i \<le> GetColumnOffset s j)
     \<and> (\<forall>i < column_count s. GetColumnOffset s i + GetColumnSize s i \<le> GetRecordTotalSize s)
     \<and> column_count s < 2 ^ 32 \<and> GetRecordTotalSize s < 2 ^ 32"

lemma place_columns_layout:
  assumes "place_columns cs off = (cs', off')"
  shows "length cs' = length cs" "off \<le> off'"
    "i < length cs \<Longrightarrow> column_size (cs' ! i) = column_size (cs ! i) \<and> off \<le> column_offset (cs' ! i) \<and> column_offset (cs' ! i) + column_size (cs' ! i) \<le> off'"
    "i < j \<Longrightarrow> j < length cs \<Longrightarrow> column_offset (cs' ! i) + column_size (cs' ! i) \<le> column_offset (cs' ! j)"
proof -
  have "length cs' = length cs \<and> off \<le> off'
    \<and> (\<forall>i < length cs. column_size (cs' ! i) = column_size (cs ! i) \<and> off \<le> column_offset (cs' ! i) \<and> column_offset (cs' ! i) + column_size (cs' ! i) \<le> off')
    \<and> (\<forall>j < length cs. \<forall>i < j. column_offset (cs' ! i) + column_size (cs' ! i) \<le> column_offset (cs' ! j))"
    using assms
  proof (induction cs arbitrary: off cs' off')
    case (Cons c cs)
    obtain ds o1 where ds: "place_columns cs (off + column_size c) = (ds, o1)" by (cases "place_columns cs (off + column_size c)")
    note IH = Cons.IH [OF ds]
    have eq: "cs' = c\<lparr>column_offset := off\<rparr> # ds" "off' = o1" using Cons.prems ds by simp_all
    show ?case unfolding eq using IH by (auto simp: less_Suc_eq_0_disj)
  qed simp
  then show "length cs' = length cs" "off \<le> off'"
    "i < length cs \<Longrightarrow> column_size (cs' ! i) = column_size (cs ! i) \<and> off \<le> column_offset (cs' ! i) \<and> column_offset (cs' ! i) + column_size (cs' ! i) \<le> off'"
    "i < j \<Longrightarrow> j < length cs \<Longrightarrow> column_offset (cs' ! i) + column_size (cs' ! i) \<le> column_offset (cs' ! j)" by auto
qed

lemma BulkloadColumns_layout:
  assumes "cols \<noteq> []" "column_size (last cols) = kMetaSize" "length cols < 2 ^ 32" "GetRecordTotalSize (BulkloadColumns cols s) < 2 ^ 32"
  shows "layout_ok (BulkloadColumns cols s)"
proof -
  obtain cs off where p: "place_columns cols (row_size s) = (cs, off)" by (cases "place_columns cols (row_size s)")
  note P = place_columns_layout [OF p]
  have "last cols = cols ! (length cols - 1)" using assms(1) by (simp add: last_conv_nth)
  moreover have "column_offset (cs ! i) + column_size (cols ! i) \<le> off" if "i < length cols" for i using P(3) [OF that] by simp
  ultimately show ?thesis using assms P p
    by (auto simp: layout_ok_def BulkloadColumns_def Let_def GetMetaColumnId_def GetColumnSize_def GetColumnOffset_def GetRecordTotalSize_def)
qed

section \<open>Saving and restoring\<close>

lemma load_bytes_1: "load_bytes a 1 m = [m a]"
  by (simp add: load_bytes_def)

lemma length_meta_bytes [simp]: "length (meta_bytes m) = 37"
  by (simp add: meta_bytes_def)

lemma meta_at_bytes:
  assumes "load_bytes a 37 p = meta_bytes m"
  shows "meta_at a p = m"
proof -
  have "load_bytes a (8 + (8 + (8 + (4 + (8 + 1))))) p = meta_bytes m" using assms by simp
  then have "load_bytes a 8 p = le_bytes 8 (Wts m)" "load_bytes (a + 8) 8 p = le_bytes 8 (gval (prev_version m))"
    "load_bytes (a + 16) 8 p = le_bytes 8 (prev_delta_epoch m)" "load_bytes (a + 24) 4 p = le_bytes 4 (prev_delta_data_size m)"
    "load_bytes (a + 28) 8 p = le_bytes 8 (next_version_ts m)" "load_bytes (a + 36) 1 p = [if is_visible m then 1 else 0]"
    unfolding load_bytes_split meta_bytes_def by (simp_all add: add.assoc)
  moreover from this(6) have "p (a + 36) = (if is_visible m then 1 else 0)" unfolding load_bytes_1 by simp
  ultimately show ?thesis by (simp add: meta_at_def get_u64_def get_u32_def get_u8_def get_addr_def)
qed

lemma meta_at_store [simp]: "meta_at a (store_bytes a (meta_bytes m) p) = m"
  by (rule meta_at_bytes) simp

lemma meta_at_cong: "load_bytes a 37 p = load_bytes a 37 q \<Longrightarrow> meta_at a p = meta_at a q"
proof -
  assume h: "load_bytes a 37 p = load_bytes a 37 q"
  have eq: "p x = q x" if "a \<le> x" "x < a + 37" for x
    using arg_cong [OF h, of "\<lambda>bs. bs ! (x - a)"] that by simp
  have "load_bytes b n p = load_bytes b n q" if "a \<le> b" "b + n \<le> a + 37" for b n
    using that eq by (intro load_bytes_cong) auto
  then show ?thesis using eq by (simp add: meta_at_def get_u64_def get_u32_def get_u8_def get_addr_def)
qed

text \<open>The bytes of the saved columns.\<close>

definition saved :: "RecordSchema \<Rightarrow> mem \<Rightarrow> nat list \<Rightarrow> byte list" where
  "saved s data cs = concat (map (\<lambda>c. le_bytes 8 (of_nat c :: u64) @ le_bytes 8 (of_nat (GetColumnSize s c) :: u64)
     @ load_bytes (GetColumnOffset s c) (GetColumnSize s c) data) cs)"

lemma length_saved: "length (saved s data cs) = sum_list (map (\<lambda>c. 16 + GetColumnSize s c) cs)"
  by (induction cs) (simp_all add: saved_def)

lemma saved_Cons: "saved s data (c # cs) = le_bytes 8 (of_nat c :: u64) @ le_bytes 8 (of_nat (GetColumnSize s c) :: u64)
     @ load_bytes (GetColumnOffset s c) (GetColumnSize s c) data @ saved s data cs"
  by (simp add: saved_def)

lemma serialize_loop_saved: "serialize_loop r cs start d = store_bytes start (saved (schema_ptr r) (data_ptr r) cs) d"
proof (induction cs arbitrary: start d)
  case (Cons c cs)
  show ?case
    by (simp add: Cons Let_def saved_Cons put_u64_def store_bytes_append store_store_swap add.assoc)
qed (simp add: saved_def)

text \<open>Restoring columns from a tuple.\<close>

definition covered :: "RecordSchema \<Rightarrow> nat list \<Rightarrow> nat \<Rightarrow> bool" where
  "covered s cs x \<longleftrightarrow> (\<exists>c \<in> set cs. in_column s c x)"

lemma roll_back_saved:
  assumes "load_bytes start (length (saved s old cs)) d = saved s old cs" "\<forall>c \<in> set cs. c < 2 ^ 64 \<and> GetColumnSize s c < 2 ^ 64"
  shows "roll_back_loop s start (start + length (saved s old cs)) d p = (\<lambda>x. if covered s cs x then old x else p x)"
  using assms
proof (induction cs arbitrary: start p)
  case Nil
  then show ?case by (simp add: roll_back_loop.simps saved_def covered_def)
next
  case (Cons c cs)
  let ?n = "GetColumnSize s c" and ?o = "GetColumnOffset s c"
  have n: "unat (of_nat c :: u64) = c" "unat (of_nat ?n :: u64) = ?n" using Cons.prems(2) by (simp_all add: unat_of_nat_small)
  have "load_bytes start (8 + (8 + (?n + length (saved s old cs)))) d = saved s old (c # cs)" using Cons.prems(1) by (simp add: saved_Cons)
  then have b: "load_bytes start 8 d = le_bytes 8 (of_nat c :: u64)" "load_bytes (start + 8) 8 d = le_bytes 8 (of_nat ?n :: u64)"
    "load_bytes (start + 16) ?n d = load_bytes ?o ?n old" "load_bytes (start + 16 + ?n) (length (saved s old cs)) d = saved s old cs"
    unfolding load_bytes_split saved_Cons by (simp_all add: add.assoc)
  have "roll_back_loop s start (start + length (saved s old (c # cs))) d p
      = roll_back_loop s (start + 16 + ?n) (start + 16 + ?n + length (saved s old cs)) d (store_bytes ?o (load_bytes ?o ?n old) p)"
    by (subst roll_back_loop.simps) (simp add: saved_Cons get_u64_def b n Let_def add.assoc)
  also have "\<dots> = (\<lambda>x. if covered s cs x then old x else store_bytes ?o (load_bytes ?o ?n old) p x)"
    using Cons.IH [OF b(4)] Cons.prems(2) by simp
  also have "\<dots> = (\<lambda>x. if covered s (c # cs) x then old x else p x)"
    by (rule ext) (auto simp: covered_def in_column_def store_bytes_def)
  finally show ?case .
qed

lemma delta_header:
  assumes "m = DeltaRecord_new w sz g nw pe ps a m0"
  shows "delta_marker a m = 0x26" "delta_Wts a m = w" "next_delta_wts a m = nw" "prev_delta_gaddr a m = g"
    "delta_prev_epoch a m = pe" "delta_prev_size a m = ps" "current_record_data_size a m = sz"
proof -
  let ?rest = "le_bytes 8 w @ le_bytes 8 nw @ le_bytes 8 (gval g) @ le_bytes 8 pe @ le_bytes 4 ps @ le_bytes 4 sz"
  have m: "m = store_bytes (a + 1) ?rest (store_bytes a [0x26] m0)"
    using store_store_swap [of "a + 1" ?rest a "[0x26]" m0] store_bytes_append [of a "[0x26]" ?rest m0]
    by (simp add: assms DeltaRecord_new_def)
  have "m a = 0x26" unfolding m by (simp add: store_bytes_def)
  moreover have "load_bytes (a + 1) (8 + (8 + (8 + (8 + (4 + 4))))) m = ?rest" unfolding m by (rule load_store_same) simp
  then have "load_bytes (a + 1) 8 m = le_bytes 8 w" "load_bytes (a + 9) 8 m = le_bytes 8 nw"
    "load_bytes (a + 17) 8 m = le_bytes 8 (gval g)" "load_bytes (a + 25) 8 m = le_bytes 8 pe" "load_bytes (a + 33) 4 m = le_bytes 4 ps"
    "load_bytes (a + 37) 4 m = le_bytes 4 sz"
    unfolding load_bytes_split by (simp_all add: add.commute [of a])
  ultimately show "delta_marker a m = 0x26" "delta_Wts a m = w" "next_delta_wts a m = nw" "prev_delta_gaddr a m = g"
    "delta_prev_epoch a m = pe" "delta_prev_size a m = ps" "current_record_data_size a m = sz"
    by (simp_all add: delta_members get_u64_def get_u32_def get_u8_def get_addr_def)
qed

lemma delta_written:
  fixes old_record new_record a m0 ts
  defines "m \<equiv> write_delta new_record old_record ts a m0" and "s \<equiv> schema_ptr old_record"
  assumes "schema_ptr new_record = s" "estimate_delta_size new_record < 2 ^ 32"
  shows "delta_marker a m = 0x26" "delta_Wts a m = GetWTS old_record" "next_delta_wts a m = ts"
    "prev_delta_gaddr a m = prev_version (GetMeta old_record)" "delta_prev_epoch a m = prev_delta_epoch (GetMeta old_record)"
    "delta_prev_size a m = prev_delta_data_size (GetMeta old_record)"
    "a + unat (current_record_data_size a m) = a + DELTA_DATA_OFF + length (saved s (data_ptr old_record) (dirty_col_ids new_record))"
    "load_bytes (a + DELTA_DATA_OFF) (length (saved s (data_ptr old_record) (dirty_col_ids new_record))) m = saved s (data_ptr old_record) (dirty_col_ids new_record)"
    "x < a \<or> a + estimate_delta_size new_record \<le> x \<Longrightarrow> m x = m0 x"
proof -
  let ?meta = "GetMeta old_record" and ?sv = "saved s (data_ptr old_record) (dirty_col_ids new_record)"
  define h where "h = DeltaRecord_new (Wts ?meta) (of_nat (estimate_delta_size new_record)) (prev_version ?meta) ts (prev_delta_epoch ?meta) (prev_delta_data_size ?meta) a m0"
  note H = delta_header [OF h_def]
  have m: "m = store_bytes (a + DELTA_DATA_OFF) ?sv h"
    by (simp add: m_def write_delta_def Let_def serialize_to_delta_def serialize_loop_saved h_def s_def)
  have keep: "get_u8 b m = get_u8 b h" if "b + 1 \<le> a + 41" for b using that by (simp add: m page_simps DELTA_DATA_OFF_def)
  have keep4: "get_u32 b m = get_u32 b h" if "b + 4 \<le> a + 41" for b using that by (simp add: m page_simps DELTA_DATA_OFF_def)
  have keep8: "get_u64 b m = get_u64 b h" if "b + 8 \<le> a + 41" for b using that by (simp add: m page_simps DELTA_DATA_OFF_def)
  show "delta_marker a m = 0x26" "delta_Wts a m = GetWTS old_record" "next_delta_wts a m = ts"
    "prev_delta_gaddr a m = prev_version ?meta" "delta_prev_epoch a m = prev_delta_epoch ?meta" "delta_prev_size a m = prev_delta_data_size ?meta"
    using H(1-6) by (simp_all add: delta_members keep keep4 keep8 get_addr_def GetWTS_def)
  have "unat (of_nat (estimate_delta_size new_record) :: u32) = estimate_delta_size new_record"
    using assms(4) by (intro unat_of_nat_small) simp
  moreover have "current_record_data_size a m = of_nat (estimate_delta_size new_record)" using H(7) by (simp add: delta_members keep4)
  moreover have "estimate_delta_size new_record = DELTA_DATA_OFF + length ?sv" using assms(3) by (simp add: estimate_delta_size_def length_saved)
  ultimately show "a + unat (current_record_data_size a m) = a + DELTA_DATA_OFF + length ?sv" by simp
  show "load_bytes (a + DELTA_DATA_OFF) (length ?sv) m = ?sv" by (simp add: m)
  show "m x = m0 x" if "x < a \<or> a + estimate_delta_size new_record \<le> x"
    using that assms(3) unfolding m h_def DeltaRecord_new_def
    by (auto simp: store_bytes_def estimate_delta_size_def length_saved DELTA_DATA_OFF_def)
qed

text \<open>Two tuples that differ at most in the given columns and in the meta column.\<close>

definition differs_in :: "nat list \<Rightarrow> Record \<Rightarrow> Record \<Rightarrow> bool" where
  "differs_in cs r r' \<longleftrightarrow> schema_ptr r = schema_ptr r'
     \<and> (\<forall>x < GetRecordTotalSize (schema_ptr r). \<not> covered (schema_ptr r) cs x \<longrightarrow> \<not> in_column (schema_ptr r) (GetMetaColumnId (schema_ptr r)) x
          \<longrightarrow> data_ptr r x = data_ptr r' x)"

lemma PutMeta_data:
  assumes "layout_ok (schema_ptr r)"
  shows "data_ptr (PutMeta m r) = store_bytes (meta_off (schema_ptr r)) (meta_bytes m) (data_ptr r)" "schema_ptr (PutMeta m r) = schema_ptr r"
    "GetMeta (PutMeta m r) = m"
  using assms by (simp_all add: PutMeta_def SetColumn_def layout_ok_def kMetaSize_def GetMeta_def)

lemma other_column_meta:
  assumes "layout_ok s" "c < GetMetaColumnId s"
  shows "GetColumnOffset s c + GetColumnSize s c \<le> meta_off s"
  using assms by (auto simp: layout_ok_def GetMetaColumnId_def)

text \<open>Two records with the same meta data and the same bytes elsewhere.\<close>

definition same_tuple :: "Record \<Rightarrow> Record \<Rightarrow> bool" where
  "same_tuple r r' \<longleftrightarrow> schema_ptr r = schema_ptr r' \<and> GetMeta r = GetMeta r'
     \<and> (\<forall>x < GetRecordTotalSize (schema_ptr r'). \<not> in_column (schema_ptr r') (GetMetaColumnId (schema_ptr r')) x \<longrightarrow> data_ptr r x = data_ptr r' x)"

lemma same_tuple_column:
  assumes "same_tuple r r'" "layout_ok (schema_ptr r')" "c < GetMetaColumnId (schema_ptr r')"
  shows "GetColumn c r = GetColumn c r'"
proof -
  let ?s = "schema_ptr r'"
  have "c < column_count ?s" using assms(2,3) by (auto simp: layout_ok_def GetMetaColumnId_def)
  then have "GetColumnOffset ?s c + GetColumnSize ?s c \<le> GetRecordTotalSize ?s" using assms(2) by (auto simp: layout_ok_def)
  then have "load_bytes (GetColumnOffset ?s c) (GetColumnSize ?s c) (data_ptr r) = load_bytes (GetColumnOffset ?s c) (GetColumnSize ?s c) (data_ptr r')"
    using assms(1) other_column_meta [OF assms(2,3)] by (intro load_bytes_cong) (auto simp: same_tuple_def in_column_def)
  then show ?thesis using assms(1) by (simp add: GetColumn_def same_tuple_def)
qed

lemma roll_back_written:
  assumes "layout_ok (schema_ptr old)" "schema_ptr n = schema_ptr old" "dirty_col_ids n = cs" "\<forall>c \<in> set cs. c < column_count (schema_ptr old)"
    and "estimate_delta_size n < 2 ^ 32" "differs_in cs n' old" "next_version_ts (GetMeta n') = next_version_ts (GetMeta old)"
    and "is_visible (GetMeta n') = is_visible (GetMeta old)"
    and "load_bytes a (estimate_delta_size n) d = load_bytes a (estimate_delta_size n) (write_delta n old ts a m0)"
  shows "same_tuple (roll_back a d n') old"
proof -
  let ?s = "schema_ptr old" and ?m = "write_delta n old ts a m0" and ?off = "meta_off (schema_ptr old)"
  note W = delta_written [OF assms(2,5), where ts = ts and a = a and ?m0.0 = m0]
  have len: "length (saved ?s (data_ptr old) cs) + DELTA_DATA_OFF = estimate_delta_size n" using assms(2,3) by (simp add: estimate_delta_size_def length_saved)
  have eq: "d x = ?m x" if "a \<le> x" "x < a + estimate_delta_size n" for x
    using arg_cong [OF assms(9), of "\<lambda>bs. bs ! (x - a)"] that by simp
  have ld: "load_bytes b k d = load_bytes b k ?m" if "a \<le> b" "b + k \<le> a + estimate_delta_size n" for b k
    using that eq by (intro load_bytes_cong) auto
  have hd: "delta_Wts a d = GetWTS old" "prev_delta_gaddr a d = prev_version (GetMeta old)" "delta_prev_epoch a d = prev_delta_epoch (GetMeta old)"
    "delta_prev_size a d = prev_delta_data_size (GetMeta old)" "a + unat (current_record_data_size a d) = a + DELTA_DATA_OFF + length (saved ?s (data_ptr old) cs)"
    using W(2,4-7) ld len assms(3) by (simp_all add: delta_members get_u64_def get_u32_def get_addr_def DELTA_DATA_OFF_def)
  have ns: "schema_ptr n' = ?s" using assms(6) by (simp add: differs_in_def)
  have small: "\<forall>c \<in> set cs. c < 2 ^ 64 \<and> GetColumnSize ?s c < 2 ^ 64"
  proof
    fix c assume "c \<in> set cs"
    then have "c < column_count ?s" using assms(4) by blast
    then have "c < 2 ^ 32" "GetColumnSize ?s c < 2 ^ 32" using assms(1) by (auto simp: layout_ok_def)
    then show "c < 2 ^ 64 \<and> GetColumnSize ?s c < 2 ^ 64" by simp
  qed
  have "load_bytes (a + DELTA_DATA_OFF) (length (saved ?s (data_ptr old) cs)) d = saved ?s (data_ptr old) cs"
    using W(8) ld len assms(3) by simp
  note RB = roll_back_saved [OF this small, of "data_ptr n'"]
  define r1 where "r1 = n'\<lparr>data_ptr := (\<lambda>x. if covered ?s cs x then data_ptr old x else data_ptr n' x)\<rparr>"
  have rb: "roll_back a d n' = PutMeta ((GetMeta r1)\<lparr>Wts := GetWTS old, prev_version := prev_version (GetMeta old),
      prev_delta_epoch := prev_delta_epoch (GetMeta old), prev_delta_data_size := prev_delta_data_size (GetMeta old)\<rparr>) r1"
    by (simp add: roll_back_def Let_def ns hd RB r1_def)
  have lay: "layout_ok (schema_ptr r1)" "schema_ptr r1 = ?s" using assms(1) by (simp_all add: r1_def ns)
  note P = PutMeta_data [OF lay(1)]
  have meta1: "next_version_ts (GetMeta r1) = next_version_ts (GetMeta old) \<and> is_visible (GetMeta r1) = is_visible (GetMeta old)"
  proof (cases "GetMetaColumnId ?s \<in> set cs")
    case True
    have "load_bytes ?off 37 (data_ptr r1) = load_bytes ?off 37 (data_ptr old)"
      using True assms(1) by (intro load_bytes_cong) (auto simp: r1_def covered_def in_column_def layout_ok_def kMetaSize_def)
    from meta_at_cong [OF this] show ?thesis by (simp add: GetMeta_def lay(2))
  next
    case False
    have "\<not> covered ?s cs x" if "?off \<le> x" "x < ?off + 37" for x
      unfolding covered_def
    proof
      assume "\<exists>c \<in> set cs. in_column ?s c x"
      then obtain c where c: "c \<in> set cs" "in_column ?s c x" by blast
      have "c < column_count ?s" "c \<noteq> GetMetaColumnId ?s" using c(1) False assms(4) by auto
      then have "c < GetMetaColumnId ?s" by (simp add: GetMetaColumnId_def)
      then show False using other_column_meta [OF assms(1)] c(2) that(1) by (fastforce simp: in_column_def)
    qed
    then have "load_bytes ?off 37 (data_ptr r1) = load_bytes ?off 37 (data_ptr n')" by (intro load_bytes_cong) (simp add: r1_def)
    from meta_at_cong [OF this] show ?thesis using assms(7,8) by (simp add: GetMeta_def lay(2) ns)
  qed
  then have "GetMeta (roll_back a d n') = GetMeta old" unfolding rb P(3) by (simp add: GetWTS_def)
  moreover have "data_ptr (roll_back a d n') x = data_ptr old x" if "x < GetRecordTotalSize ?s" "\<not> in_column ?s (GetMetaColumnId ?s) x" for x
  proof -
    have "x < ?off \<or> ?off + 37 \<le> x" using that(2) assms(1) by (auto simp: in_column_def layout_ok_def kMetaSize_def)
    then have "data_ptr (roll_back a d n') x = data_ptr r1 x" unfolding rb P(1) lay(2) by (auto simp: store_bytes_def)
    then show ?thesis using assms(6) that ns by (auto simp: r1_def differs_in_def)
  qed
  ultimately show ?thesis by (simp add: same_tuple_def rb P(2) lay(2))
qed

text \<open>
  C18: A delta undoes its update.  Wherever the delta record of an update lies, if its bytes are
  as the update wrote them, rolling the updated tuple back with it gives every column its old value and
  restores the meta column: write timestamp, the link to the next older delta with its epoch and size, and visibility.  The
  updated tuple may differ from the old one in the columns marked dirty and in the meta column.
\<close>
theorem delta_undoes_update:
  assumes "layout_ok (schema_ptr old)" "schema_ptr new = schema_ptr old" "\<forall>c \<in> set (dirty_col_ids new). c < column_count (schema_ptr old)"
    and "estimate_delta_size new < 2 ^ 32" "differs_in (dirty_col_ids new) cur old" "next_version_ts (GetMeta cur) = next_version_ts (GetMeta old)"
    and "is_visible (GetMeta cur) = is_visible (GetMeta old)"
    and "load_bytes a (estimate_delta_size new) d = load_bytes a (estimate_delta_size new) (write_delta new old ts a m)"
  shows "GetMeta (roll_back a d cur) = GetMeta old \<and> (\<forall>c < GetMetaColumnId (schema_ptr old). GetColumn c (roll_back a d cur) = GetColumn c old)"
proof -
  note same = roll_back_written [OF assms(1,2) refl assms(3-8)]
  show ?thesis using same_tuple_column [OF same assms(1)] same [unfolded same_tuple_def] by blast
qed

definition demo_tuple :: Record where
  "demo_tuple = Record_new demo_schema (store_bytes 0 (demo_row) (\<lambda>_. 0))"

definition demo_update :: Record where
  "demo_update = UpdateColumn 2 (le_bytes 8 (5 :: u64)) demo_tuple"

lemma demo_layout: "layout_ok demo_schema"
proof -
  have c: "GetColumnOffset demo_schema 0 = 0" "GetColumnOffset demo_schema 1 = 8" "GetColumnOffset demo_schema 2 = 16" "GetColumnOffset demo_schema 3 = 24"
    "GetColumnSize demo_schema 0 = 8" "GetColumnSize demo_schema 1 = 8" "GetColumnSize demo_schema 2 = 8" "GetColumnSize demo_schema 3 = 37"
    "GetMetaColumnId demo_schema = 3" "GetRecordTotalSize demo_schema = 61" "column_count demo_schema = 4" "length (columns demo_schema) = 4" "columns demo_schema \<noteq> []"
    by (simp_all add: demo_schema_eq RecordSchema_new_def GetMetaColumnId_def GetColumnSize_def GetColumnOffset_def GetRecordTotalSize_def)
  have ids: "i = 0 \<or> i = 1 \<or> i = 2 \<or> i = 3" if "i < 4" for i :: nat using that by auto
  have "GetColumnOffset demo_schema i + GetColumnSize demo_schema i \<le> 61" if "i < 4" for i using ids [OF that] c by auto
  moreover have "GetColumnOffset demo_schema i + GetColumnSize demo_schema i \<le> GetColumnOffset demo_schema j" if "i < j" "j < 4" for i j
    using ids [of i] ids [OF that(2)] that c by auto
  ultimately show ?thesis unfolding layout_ok_def using c by (auto simp: kMetaSize_def)
qed

theorem delta_undoes_update_witness:
  "GetColumn 2 demo_update = le_bytes 8 (5 :: u64)
   \<and> GetColumn 2 (roll_back 64 (write_delta demo_update demo_tuple 9 64 (\<lambda>_. 0)) (PutWTS 9 demo_update)) = replicate 8 0"
proof -
  have s: "schema_ptr demo_tuple = demo_schema" "schema_ptr demo_update = demo_schema" "dirty_col_ids demo_update = [2]" "dirty_col_ids demo_tuple = []"
    by (simp_all add: demo_tuple_def demo_update_def UpdateColumn_def Record_new_def set_insert_def)
  have lay: "layout_ok (schema_ptr demo_tuple)" "layout_ok (schema_ptr demo_update)" using demo_layout s by simp_all
  note P = PutMeta_data [OF lay(2)]
  have off: "GetColumnOffset demo_schema 2 = 16" "GetColumnSize demo_schema 2 = 8" "GetMetaColumnId demo_schema = 3" "GetColumnOffset demo_schema 3 = 24" "GetColumnSize demo_schema 3 = 37"
    by (simp_all add: demo_schema_eq RecordSchema_new_def GetMetaColumnId_def GetColumnSize_def GetColumnOffset_def)
  have data: "data_ptr demo_update = store_bytes 16 (le_bytes 8 (5 :: u64)) (data_ptr demo_tuple)"
    by (simp add: demo_update_def UpdateColumn_def s off)
  have meta: "GetMeta demo_update = GetMeta demo_tuple"
    unfolding GetMeta_def s off data by (rule meta_at_cong) (simp add: load_store_disjoint)
  have "differs_in [2] (PutWTS 9 demo_update) demo_tuple"
    unfolding differs_in_def PutWTS_def P(1,2) s data by (auto simp: off covered_def in_column_def store_bytes_def)
  moreover have "GetMeta (PutWTS 9 demo_update) = (GetMeta demo_tuple)\<lparr>Wts := 9\<rparr>" unfolding PutWTS_def P(3) meta ..
  moreover have "estimate_delta_size demo_update < 2 ^ 32" by (simp add: estimate_delta_size_def s off DELTA_DATA_OFF_def)
  moreover have "\<forall>c \<in> set (dirty_col_ids demo_update). c < column_count (schema_ptr demo_tuple)" by (simp add: s demo_schema_eq)
  ultimately have "GetColumn 2 (roll_back 64 (write_delta demo_update demo_tuple 9 64 (\<lambda>_. 0)) (PutWTS 9 demo_update)) = GetColumn 2 demo_tuple"
    using delta_undoes_update [OF lay(1), of demo_update "PutWTS 9 demo_update" 64 "write_delta demo_update demo_tuple 9 64 (\<lambda>_. 0)" 9 "\<lambda>_. 0"] s off by simp
  moreover have "GetColumn 2 demo_tuple = replicate 8 0"
    by (simp add: GetColumn_def s off) (simp add: demo_tuple_def Record_new_def demo_row_def load_bytes_def store_bytes_def upt_rec nth_append
      replicate_eq_replicate eval_nat_numeral)
  moreover have "GetColumn 2 demo_update = le_bytes 8 (5 :: u64)" by (simp add: GetColumn_def s off data)
  ultimately show ?thesis by simp
qed

end
