(* ===== verification/Delta_Section.thy ===== *)
theory Delta_Section
  imports Record_Delta
begin

text \<open>
  The ring buffer of delta records (\<^verbatim>\<open>txn/DeltaSection.h\<close>): one section per compute node, written
  by its owner, garbage collected by snapshot and copied by the other nodes on demand.  The lemmas describe the
  ring as a list of deltas, and show which bytes a copy has to fetch so that it holds every live delta.
\<close>


section \<open>The section\<close>

text \<open>The packed members of \<^verbatim>\<open>DeltaSection\<close>; \<open>ds_local\<close> is the memory from \<^verbatim>\<open>local_addr_\<close> on.
  Offsets stay below the size of the section, a few megabytes, and are natural numbers.\<close>

record DeltaSection =
  danger_size :: nat
  ds_epoch :: nat
  ds_head :: nat
  ds_tail :: nat
  tail_allocated :: nat
  max_ts :: u64
  is_empty :: bool
  ds_local :: mem

record DeltaSectionWrap = DeltaSection +
  owner_compute_node_id :: nat
  seg_addr :: GlobalAddress
  seg_real_size :: nat

definition DS_HEADER :: nat where "DS_HEADER = 49"

definition sub64 :: "nat \<Rightarrow> nat \<Rightarrow> nat" where
  "sub64 a b = (a + 2 ^ 64 - b) mod 2 ^ 64"

text \<open>The constructor leaves \<^verbatim>\<open>danger_size\<close> and \<^verbatim>\<open>tail_allocated\<close> as they are in the
  memory of the slot.\<close>

definition DeltaSectionWrap_new :: "nat \<Rightarrow> GlobalAddress \<Rightarrow> nat \<Rightarrow> DeltaSection \<Rightarrow> DeltaSectionWrap" where
  "DeltaSectionWrap_new compute_node_id addr seg_size slot =
    \<lparr>danger_size = danger_size slot, ds_epoch = 0, ds_head = 0, ds_tail = 0, tail_allocated = tail_allocated slot, max_ts = 0,
     is_empty = True, ds_local = ds_local slot, owner_compute_node_id = compute_node_id, seg_addr = addr,
     seg_real_size = seg_size - DS_HEADER - 1\<rparr>"

text \<open>The condition under which an allocation does not wait.\<close>

definition has_room :: "nat \<Rightarrow> DeltaSectionWrap \<Rightarrow> bool" where
  "has_room delta_size w \<longleftrightarrow> is_empty w \<or> delta_size < sub64 (ds_head w + seg_real_size w) (tail_allocated w) mod seg_real_size w"

text \<open>The result is the old end, the place of the new delta and its end.\<close>

definition AllocateDelta :: "nat \<Rightarrow> DeltaSectionWrap \<Rightarrow> ((nat \<times> nat \<times> nat) \<times> DeltaSectionWrap) option" where
  "AllocateDelta delta_size w =
    (if \<not> has_room delta_size w then None
     else let prev_offset = tail_allocated w;
              w = (if sub64 (seg_real_size w) (tail_allocated w) < delta_size
                   then (if tail_allocated w < seg_real_size w then w\<lparr>ds_local := (ds_local w)(tail_allocated w := 0x5e)\<rparr> else w)\<lparr>tail_allocated := 0\<rparr>
                   else w);
              return_offset = tail_allocated w;
              w = w\<lparr>tail_allocated := return_offset + delta_size, is_empty := False\<rparr>
          in Some ((prev_offset, return_offset, tail_allocated w), w))"

text \<open>Writing the delta, outside the latch, and publishing it: the tail moves only once every earlier allocation has
  been published.\<close>

definition write_delta_record :: "Record \<Rightarrow> Record \<Rightarrow> u64 \<Rightarrow> nat \<Rightarrow> DeltaSectionWrap \<Rightarrow> DeltaSectionWrap" where
  "write_delta_record new_record old_record commit_ts offset_to_write w =
    w\<lparr>max_ts := (if max_ts w < GetWTS old_record then GetWTS old_record else max_ts w),
      ds_local := write_delta new_record old_record commit_ts offset_to_write (ds_local w)\<rparr>"

definition publish_delta :: "nat \<Rightarrow> nat \<Rightarrow> DeltaSectionWrap \<Rightarrow> DeltaSectionWrap option" where
  "publish_delta prev_offset next_offset w =
    (let w = (if next_offset < prev_offset then w\<lparr>ds_epoch := ds_epoch w + 1\<rparr> else w)
     in if ds_tail w = prev_offset then Some (w\<lparr>ds_tail := next_offset\<rparr>) else None)"

definition delta_address :: "nat \<Rightarrow> DeltaSectionWrap \<Rightarrow> GlobalAddress" where
  "delta_address off w = GlobalAddress (nodeID (seg_addr w)) (goffset (seg_addr w) + of_nat (off + DS_HEADER))"

definition fill_in_delta_record_single ::
  "Record \<Rightarrow> Record \<Rightarrow> u64 \<Rightarrow> DeltaSectionWrap \<Rightarrow> ((GlobalAddress \<times> nat) \<times> DeltaSectionWrap) option" where
  "fill_in_delta_record_single new_record old_record commit_ts w =
    (let delta_size = estimate_delta_size new_record in
     case AllocateDelta delta_size w of None \<Rightarrow> None
     | Some ((prev_offset, offset_to_write, next_offset), w) \<Rightarrow>
         (case publish_delta prev_offset next_offset (write_delta_record new_record old_record commit_ts offset_to_write w) of None \<Rightarrow> None
          | Some w \<Rightarrow> Some ((delta_address offset_to_write w, delta_size), w)))"

text \<open>The loop of \<^verbatim>\<open>GarbageCollectionBySnapshot\<close>.\<close>

partial_function (option) gc_loop :: "u64 \<Rightarrow> DeltaSectionWrap \<Rightarrow> DeltaSectionWrap option" where
  "gc_loop snapshot w =
    (if is_empty w then Some w
     else let w = (if delta_marker (ds_head w) (ds_local w) = 0x5e \<or> ds_head w = seg_real_size w then w\<lparr>ds_head := 0\<rparr> else w)
       in if ds_head w = ds_tail w then Some w
          else if next_delta_wts (ds_head w) (ds_local w) < snapshot then
            let w = w\<lparr>ds_head := ds_head w + unat (current_record_data_size (ds_head w) (ds_local w))\<rparr>
            in gc_loop snapshot (if ds_head w = tail_allocated w then w\<lparr>is_empty := True\<rparr> else w)
          else Some w)"

definition GarbageCollectionBySnapshot :: "u64 \<Rightarrow> DeltaSectionWrap \<Rightarrow> DeltaSectionWrap option" where
  "GarbageCollectionBySnapshot snapshot w = gc_loop snapshot w"


section \<open>Reading a copy\<close>

definition isOffsetDangerous :: "nat \<Rightarrow> DeltaSectionWrap \<Rightarrow> bool" where
  "isOffsetDangerous pos w =
    (let danger_size = danger_size w; head = ds_head w; tail = ds_tail w; capacity = seg_real_size w in
     if danger_size = 0 then False
     else if head \<le> tail then
       let danger_start = (if tail \<le> danger_size then 0 else tail - danger_size) in danger_start \<le> pos \<and> pos \<le> tail
     else if danger_size \<le> tail then tail - danger_size \<le> pos \<and> pos \<le> tail
     else if pos \<le> tail then True
     else let upper_start = sub64 capacity (danger_size - tail) in upper_start \<le> pos \<and> pos < capacity)"

definition isOffsetValid :: "nat \<Rightarrow> nat \<Rightarrow> DeltaSectionWrap \<Rightarrow> bool" where
  "isOffsetValid offset epoch w =
    (let head = ds_head w; tail = ds_tail w; current_epoch = ds_epoch w in
     if current_epoch < epoch then False
     else if head \<le> tail then offset < tail
     else head \<le> offset \<and> offset < seg_real_size w \<or> offset < tail)"

definition isvalidandnotdangerours :: "nat \<Rightarrow> nat \<Rightarrow> DeltaSectionWrap \<Rightarrow> bool" where
  "isvalidandnotdangerours offset epoch w =
    (let head = ds_head w; tail = ds_tail w; current_epoch = ds_epoch w; danger_sz = danger_size w in
     if current_epoch < epoch then False
     else let valid = (if head \<le> tail then offset < tail else head \<le> offset \<and> offset < seg_real_size w \<or> offset < tail) in
       if \<not> valid then False
       else if danger_sz = 0 then True
       else let pos = offset; capacity = seg_real_size w in
         if head \<le> tail then
           let danger_start = (if tail \<le> danger_sz then 0 else tail - danger_sz) in \<not> (danger_start \<le> pos \<and> pos \<le> tail)
         else if danger_sz \<le> tail then
           let lower_start = tail - danger_sz in \<not> (lower_start \<le> pos \<and> pos \<le> tail)
         else if pos \<le> tail then False
         else let upper_start = sub64 capacity (danger_sz - tail) in \<not> (upper_start \<le> pos \<and> pos < capacity))"


section \<open>Copying a section\<close>

definition BIGPAGESIZE :: nat where "BIGPAGESIZE = 1048576"

function split_range :: "nat \<Rightarrow> nat \<Rightarrow> (nat \<times> nat) list" where
  "split_range current_start e =
    (if current_start < e then
       let current_end = min (current_start + BIGPAGESIZE) e in (current_start, current_end) # split_range current_end e
     else [])"
  by pat_completeness auto
termination
  by (relation "measure (\<lambda>(a, e). e - a)") (auto simp: BIGPAGESIZE_def)

declare split_range.simps [simp del]

definition SplitBoundariesByBigPage :: "(nat \<times> nat) list \<Rightarrow> (nat \<times> nat) list" where
  "SplitBoundariesByBigPage boundaries =
    concat (map (\<lambda>(start, e). if sub64 e start \<le> BIGPAGESIZE then [(start, e)] else split_range start e) boundaries)"

text \<open>Neighbouring ranges are merged.\<close>

definition merge_thre :: nat where "merge_thre = 2048"

fun prune :: "(nat \<times> nat) list \<Rightarrow> (nat \<times> nat) list" where
  "prune [b0, b1, b2] =
    (let bs = (if sub64 (fst b2) (snd b1) \<le> merge_thre then [b0, (fst b1, snd b2)] else [b0, b1, b2]);
         b1 = bs ! 1
     in if sub64 (fst b1) (snd b0) \<le> merge_thre then (fst b0, snd b1) # drop 2 bs else bs)"
| "prune bs = bs"

text \<open>The boundaries before they are cut into pieces of a big page.\<close>

definition pull_ranges :: "nat \<Rightarrow> nat \<Rightarrow> DeltaSectionWrap \<Rightarrow> (nat \<times> nat) list" where
  "pull_ranges old_t old_epoch w =
    (let head = ds_head w; tail = ds_tail w; epoch = ds_epoch w; seg = seg_real_size w in
     if old_epoch < epoch then
       if head < tail then
         prune [(0, DS_HEADER), (DS_HEADER + head, DS_HEADER + tail), (DS_HEADER + seg, DS_HEADER + seg + 1)]
       else
         [(0, DS_HEADER), (DS_HEADER, DS_HEADER + tail),
          (if old_epoch = epoch - 1 then if head < old_t then DS_HEADER + old_t else DS_HEADER + head else DS_HEADER + head, DS_HEADER + seg + 1)]
     else
       if head < tail then
         prune [(0, DS_HEADER), (if head < old_t then DS_HEADER + old_t else DS_HEADER + head, DS_HEADER + tail), (DS_HEADER + seg, DS_HEADER + seg + 1)]
       else
         prune [(0, DS_HEADER), (DS_HEADER + old_t, DS_HEADER + tail), (DS_HEADER + seg, DS_HEADER + seg + 1)])"

text \<open>The first component of the result is the danger size.  The loop at the start waits for unfinished writes.\<close>

definition CalculateWriteBoundaries :: "nat \<Rightarrow> nat \<Rightarrow> DeltaSectionWrap \<Rightarrow> (nat \<times> (nat \<times> nat) list) option" where
  "CalculateWriteBoundaries old_t old_epoch w =
    (if ds_tail w \<noteq> tail_allocated w then None
     else Some (if old_epoch < ds_epoch w then sub64 (ds_tail w + seg_real_size w) old_t else sub64 (ds_tail w) old_t,
       SplitBoundariesByBigPage (pull_ranges old_t old_epoch w)))"

text \<open>What one RDMA write of the range changes in the copy: the first one carries the header, with the danger size
  filled in.  The last byte of the section only signals the end.\<close>

definition write_range :: "nat \<Rightarrow> DeltaSectionWrap \<Rightarrow> nat \<times> nat \<Rightarrow> DeltaSectionWrap \<Rightarrow> DeltaSectionWrap" where
  "write_range danger src b dst =
    (let (start, e) = b;
         dst = (if start = 0 then dst\<lparr>danger_size := danger, ds_epoch := ds_epoch src, ds_head := ds_head src, ds_tail := ds_tail src,
                  tail_allocated := tail_allocated src, max_ts := max_ts src, is_empty := is_empty src\<rparr> else dst)
     in dst\<lparr>ds_local := (\<lambda>x. if start \<le> x + DS_HEADER \<and> x + DS_HEADER < e then ds_local src x else ds_local dst x)\<rparr>)"

definition ProcessDeltaPull :: "nat \<Rightarrow> nat \<Rightarrow> DeltaSectionWrap \<Rightarrow> DeltaSectionWrap \<Rightarrow> DeltaSectionWrap option" where
  "ProcessDeltaPull old_tail old_epoch ds_w requester =
    (case CalculateWriteBoundaries old_tail old_epoch ds_w of None \<Rightarrow> None
     | Some (danger, boundaries) \<Rightarrow> Some (fold (write_range danger ds_w) boundaries requester))"

text \<open>The requester clears the danger size once the last byte has arrived.\<close>

definition PullUpdates :: "DeltaSectionWrap \<Rightarrow> DeltaSectionWrap \<Rightarrow> DeltaSectionWrap option" where
  "PullUpdates owner copy =
    (case ProcessDeltaPull (ds_tail copy) (ds_epoch copy) owner copy of None \<Rightarrow> None
     | Some copy \<Rightarrow> Some (copy\<lparr>danger_size := 0\<rparr>))"


section \<open>What a copy holds after a pull\<close>

text \<open>A place of the ring is live in the lap it was written in.  The lap of the head is one behind that of the tail when
  the ring is wrapped.\<close>

definition wrapped :: "DeltaSectionWrap \<Rightarrow> bool" where
  "wrapped w \<longleftrightarrow> ds_tail w < ds_head w \<or> ds_tail w = ds_head w \<and> \<not> is_empty w"

definition live :: "nat \<Rightarrow> nat \<Rightarrow> DeltaSectionWrap \<Rightarrow> bool" where
  "live lap x w \<longleftrightarrow>
    (if wrapped w then lap = ds_epoch w \<and> x < ds_tail w \<or> Suc lap = ds_epoch w \<and> ds_head w \<le> x \<and> x < seg_real_size w
     else lap = ds_epoch w \<and> ds_head w \<le> x \<and> x < ds_tail w)"

definition head_pos :: "DeltaSectionWrap \<Rightarrow> nat \<times> nat" where
  "head_pos w = (if wrapped w then ds_epoch w - 1 else ds_epoch w, ds_head w)"

definition later :: "DeltaSectionWrap \<Rightarrow> DeltaSectionWrap \<Rightarrow> bool" where
  "later w w' \<longleftrightarrow> (ds_epoch w < ds_epoch w' \<or> ds_epoch w = ds_epoch w' \<and> ds_tail w \<le> ds_tail w')
    \<and> (fst (head_pos w) < fst (head_pos w') \<or> fst (head_pos w) = fst (head_pos w') \<and> snd (head_pos w) \<le> snd (head_pos w'))"

text \<open>\<open>holds\<close>: every live place of the section contains the byte its owner wrote there in that lap.\<close>

definition holds :: "(nat \<Rightarrow> nat \<Rightarrow> byte) \<Rightarrow> DeltaSectionWrap \<Rightarrow> bool" where
  "holds content w \<longleftrightarrow> (\<forall>lap x. live lap x w \<longrightarrow> ds_local w x = content lap x)"

definition ring_ok :: "DeltaSectionWrap \<Rightarrow> bool" where
  "ring_ok w \<longleftrightarrow> ds_head w \<le> seg_real_size w \<and> ds_tail w \<le> seg_real_size w \<and> tail_allocated w = ds_tail w
    \<and> seg_real_size w < 2 ^ 32 \<and> (wrapped w \<longrightarrow> 0 < ds_epoch w) \<and> (is_empty w \<longrightarrow> ds_head w = ds_tail w)"

definition range_covers :: "(nat \<times> nat) list \<Rightarrow> nat \<Rightarrow> bool" where
  "range_covers bs x \<longleftrightarrow> (\<exists>(s, e) \<in> set bs. s \<le> x \<and> x < e)"

lemma range_covers_simps [simp]:
  "range_covers [] x \<longleftrightarrow> False"
  "range_covers (b # bs) x \<longleftrightarrow> fst b \<le> x \<and> x < snd b \<or> range_covers bs x"
  "range_covers (bs @ cs) x \<longleftrightarrow> range_covers bs x \<or> range_covers cs x"
  by (auto simp: range_covers_def)

lemma sub64_le [simp]: "b \<le> a \<Longrightarrow> a < 2 ^ 64 \<Longrightarrow> sub64 a b = a - b"
proof -
  assume "b \<le> a" "a < 2 ^ 64"
  then have "a + 2 ^ 64 - b = (a - b) + 2 ^ 64" "a - b < 2 ^ 64" by simp_all
  then show ?thesis unfolding sub64_def by (metis mod_add_self2 mod_less)
qed

lemma split_range_covers: "range_covers (split_range s e) x \<longleftrightarrow> s \<le> x \<and> x < e"
proof (induction s e rule: split_range.induct)
  case (1 s e)
  then show ?case by (subst split_range.simps) (auto simp: Let_def BIGPAGESIZE_def min_def)
qed

lemma split_covers: "range_covers (SplitBoundariesByBigPage bs) x \<longleftrightarrow> range_covers bs x"
  unfolding SplitBoundariesByBigPage_def by (induction bs) (auto simp: split_range_covers split: if_splits)

lemma write_range_local: "ds_local (write_range d src b dst) x
  = (if fst b \<le> x + DS_HEADER \<and> x + DS_HEADER < snd b then ds_local src x else ds_local dst x)"
  by (cases b) (simp add: write_range_def Let_def)

lemma write_range_frame [simp]:
  "seg_real_size (write_range d src b dst) = seg_real_size dst"
  "owner_compute_node_id (write_range d src b dst) = owner_compute_node_id dst"
  "seg_addr (write_range d src b dst) = seg_addr dst"
  by (simp_all add: write_range_def Let_def split: prod.splits)

lemma write_ranges_local: "ds_local (fold (write_range d src) bs dst) x
  = (if range_covers bs (x + DS_HEADER) then ds_local src x else ds_local dst x)"
  by (induction bs arbitrary: dst) (auto simp: write_range_local)

lemma write_ranges_frame [simp]: "seg_real_size (fold (write_range d src) bs dst) = seg_real_size dst"
  by (induction bs arbitrary: dst) auto

definition same_header :: "DeltaSectionWrap \<Rightarrow> DeltaSectionWrap \<Rightarrow> bool" where
  "same_header w w' \<longleftrightarrow> ds_epoch w = ds_epoch w' \<and> ds_head w = ds_head w' \<and> ds_tail w = ds_tail w'
    \<and> tail_allocated w = tail_allocated w' \<and> max_ts w = max_ts w' \<and> is_empty w = is_empty w'"

lemma write_range_header: "same_header w src \<or> fst b = 0 \<Longrightarrow> same_header (write_range d src b w) src"
  by (cases b) (auto simp: write_range_def same_header_def Let_def)

lemma write_ranges_header: "same_header w src \<or> (\<exists>b \<in> set bs. fst b = 0) \<Longrightarrow> same_header (fold (write_range d src) bs w) src"
proof (induction bs arbitrary: w)
  case (Cons b bs)
  show ?case
  proof (cases "same_header w src \<or> fst b = 0")
    case True
    then show ?thesis using Cons.IH write_range_header by simp
  next
    case False
    then show ?thesis using Cons by auto
  qed
qed simp

lemma split_keeps_first: "\<exists>b \<in> set bs. fst b = 0 \<and> 0 < snd b \<and> snd b < 2 ^ 64 \<Longrightarrow> \<exists>b \<in> set (SplitBoundariesByBigPage bs). fst b = 0"
proof -
  assume "\<exists>b \<in> set bs. fst b = 0 \<and> 0 < snd b \<and> snd b < 2 ^ 64"
  then obtain e where e: "(0, e) \<in> set bs" "0 < e" by auto
  have "\<exists>b \<in> set (if sub64 e 0 \<le> BIGPAGESIZE then [(0, e)] else split_range 0 e). fst b = 0"
    using e(2) by (subst split_range.simps) (auto simp: Let_def)
  then obtain b where b: "b \<in> set (if sub64 e 0 \<le> BIGPAGESIZE then [(0, e)] else split_range 0 e)" "fst b = 0" by blast
  have "b \<in> set (SplitBoundariesByBigPage bs)"
    unfolding SplitBoundariesByBigPage_def set_concat set_map using b(1) e(1) by (intro UN_I [OF imageI [OF e(1)]]) simp
  then show ?thesis using b(2) by blast
qed

lemma prune_covers:
  assumes "fst b0 \<le> fst b1" "fst b1 \<le> fst b2" "snd b0 \<le> snd b1" "snd b1 \<le> snd b2" "range_covers [b0, b1, b2] x"
  shows "range_covers (prune [b0, b1, b2]) x"
  using assms by (auto simp: Let_def)

lemma prune_first:
  assumes "fst b0 = 0" "0 < snd b0" "snd b0 \<le> snd b1" "snd b1 \<le> snd b2" "snd b2 < 2 ^ 64"
  shows "\<exists>b \<in> set (prune [b0, b1, b2]). fst b = 0 \<and> 0 < snd b \<and> snd b < 2 ^ 64"
  using assms by (auto simp: Let_def)

lemma later_tail: "later w w' \<Longrightarrow> ds_epoch w < ds_epoch w' \<or> ds_epoch w = ds_epoch w' \<and> ds_tail w \<le> ds_tail w'"
  by (simp add: later_def)

text \<open>Every live byte of the owner that the copy does not hold yet lies in one of the ranges.\<close>

lemma pull_ranges_cover:
  assumes "ring_ok owner" and "ring_ok copy" and "later copy owner" and "seg_real_size copy = seg_real_size owner"
    and "live lap x owner" and "\<not> live lap x copy"
  shows "range_covers (pull_ranges (ds_tail copy) (ds_epoch copy) owner) (x + DS_HEADER)"
proof (cases "ds_epoch copy < ds_epoch owner")
  case True
  show ?thesis
  proof (cases "ds_head owner < ds_tail owner")
    case ht: True
    then have "\<not> wrapped owner" by (simp add: wrapped_def)
    then have "ds_head owner \<le> x" "x < ds_tail owner" using assms(5) by (simp_all add: live_def)
    then show ?thesis using True ht assms(1) unfolding pull_ranges_def Let_def
      by (auto simp: ring_ok_def simp del: prune.simps intro!: prune_covers)
  next
    case ht: False
    then have w: "wrapped owner" using assms(1,5) by (auto simp: wrapped_def live_def ring_ok_def)
    consider "x < ds_tail owner" | "Suc lap = ds_epoch owner" "ds_head owner \<le> x" "x < seg_real_size owner"
      using assms(5) w by (auto simp: live_def)
    then show ?thesis
    proof cases
      case 1
      then show ?thesis using True ht by (simp add: pull_ranges_def Let_def)
    next
      case 2
      have "x < ds_tail copy \<Longrightarrow> ds_epoch copy = ds_epoch owner - 1 \<Longrightarrow> live lap x copy"
        using 2 assms(3) w True by (auto simp: live_def later_def head_pos_def split: if_splits)
      then have "ds_epoch copy = ds_epoch owner - 1 \<Longrightarrow> ds_tail copy \<le> x" using assms(6) by fastforce
      then show ?thesis using True ht 2 by (simp add: pull_ranges_def Let_def)
    qed
  qed
next
  case False
  then have e: "ds_epoch copy = ds_epoch owner" "ds_tail copy \<le> ds_tail owner" using later_tail [OF assms(3)] by auto
  show ?thesis
  proof (cases "ds_head owner < ds_tail owner")
    case ht: True
    then have nw: "\<not> wrapped owner" by (simp add: wrapped_def)
    then have x: "ds_head owner \<le> x" "x < ds_tail owner" "lap = ds_epoch owner" using assms(5) by (simp_all add: live_def)
    have "x < ds_tail copy \<Longrightarrow> live lap x copy"
      using x e assms(3) nw by (auto simp: live_def later_def head_pos_def split: if_splits)
    then have "ds_tail copy \<le> x" using assms(6) by fastforce
    then show ?thesis using False ht assms(1) x e unfolding pull_ranges_def Let_def
      by (auto simp: ring_ok_def simp del: prune.simps intro!: prune_covers)
  next
    case ht: False
    then have w: "wrapped owner" using assms(1,5) by (auto simp: wrapped_def live_def ring_ok_def)
    then have pos: "0 < ds_epoch owner" using assms(1) by (simp add: ring_ok_def)
    have wc: "wrapped copy" using assms(3) w e pos by (auto simp: later_def head_pos_def split: if_splits)
    have "ds_head copy \<le> ds_head owner" using assms(3) w wc e by (auto simp: later_def head_pos_def)
    then have "lap = ds_epoch owner" "x < ds_tail owner" "ds_tail copy \<le> x"
      using assms(4-6) w wc e by (auto simp: live_def)
    then show ?thesis using False ht assms(1) e unfolding pull_ranges_def Let_def
      by (auto simp: ring_ok_def simp del: prune.simps intro!: prune_covers)
  qed
qed

lemma pull_ranges_first:
  assumes "ring_ok owner" and "later copy owner"
  shows "\<exists>b \<in> set (pull_ranges (ds_tail copy) (ds_epoch copy) owner). fst b = 0 \<and> 0 < snd b \<and> snd b < 2 ^ 64"
proof -
  have m: "\<exists>b \<in> set (prune [(0, DS_HEADER), (s, DS_HEADER + ds_tail owner), (DS_HEADER + seg_real_size owner, DS_HEADER + seg_real_size owner + 1)]).
      fst b = 0 \<and> 0 < snd b \<and> snd b < 2 ^ 64" for s
    using assms(1) by (intro prune_first) (simp_all add: DS_HEADER_def ring_ok_def)
  show ?thesis unfolding pull_ranges_def Let_def
    by (cases "ds_epoch copy < ds_epoch owner"; cases "ds_head owner < ds_tail owner") (simp_all only: if_True if_False m, simp_all add: DS_HEADER_def)
qed

lemma same_header_live: "same_header w w' \<Longrightarrow> seg_real_size w = seg_real_size w' \<Longrightarrow> live lap x w = live lap x w'"
  by (simp add: same_header_def live_def wrapped_def)


definition demo_owner :: DeltaSectionWrap where
  "demo_owner = \<lparr>danger_size = 0, ds_epoch = 1, ds_head = 50, ds_tail = 20, tail_allocated = 20, max_ts = 9, is_empty = False,
    ds_local = (\<lambda>x. if x < 20 then 7 else 3), owner_compute_node_id = 2, seg_addr = GlobalAddress 2 0, seg_real_size = 100\<rparr>"

definition demo_copy :: DeltaSectionWrap where
  "demo_copy = \<lparr>danger_size = 0, ds_epoch = 0, ds_head = 40, ds_tail = 60, tail_allocated = 60, max_ts = 5, is_empty = False,
    ds_local = (\<lambda>x. if x < 60 then 3 else 0), owner_compute_node_id = 2, seg_addr = GlobalAddress 2 0, seg_real_size = 100\<rparr>"


section \<open>The ring as a queue of deltas\<close>

definition delta_size_at :: "DeltaSectionWrap \<Rightarrow> nat \<Rightarrow> nat" where
  "delta_size_at w a = unat (current_record_data_size a (ds_local w))"

definition marker_at :: "DeltaSectionWrap \<Rightarrow> nat \<Rightarrow> bool" where
  "marker_at w off \<longleftrightarrow> delta_marker off (ds_local w) = 0x5e"

text \<open>The places of the deltas from \<open>off\<close> to the tail, in the order they were written.  \<open>upper\<close> tells whether \<open>off\<close> is
  still in the lap before the one of the tail.\<close>

fun chain :: "DeltaSectionWrap \<Rightarrow> bool \<Rightarrow> nat \<Rightarrow> nat list \<Rightarrow> bool" where
  "chain w upper off [] \<longleftrightarrow> \<not> upper \<and> off = ds_tail w"
| "chain w upper off (a # ds) \<longleftrightarrow> \<not> marker_at w a \<and> 41 \<le> delta_size_at w a \<and>
    (if upper \<and> a \<noteq> off
     then a = 0 \<and> (off = seg_real_size w \<or> off < seg_real_size w \<and> marker_at w off) \<and> delta_size_at w a \<le> ds_tail w \<and> chain w False (delta_size_at w a) ds
     else a = off \<and> off + delta_size_at w a \<le> (if upper then seg_real_size w else ds_tail w) \<and> chain w upper (off + delta_size_at w a) ds)"

definition ring_inv :: "DeltaSectionWrap \<Rightarrow> nat list \<Rightarrow> bool" where
  "ring_inv w ds \<longleftrightarrow> chain w (ds_tail w < ds_head w) (ds_head w) ds \<and> (is_empty w \<longleftrightarrow> ds = []) \<and> tail_allocated w = ds_tail w
    \<and> ds_head w \<le> seg_real_size w \<and> ds_tail w \<le> seg_real_size w \<and> seg_real_size w < 2 ^ 31"

lemma chain_cong:
  "ds_tail w' = ds_tail w \<Longrightarrow> ds_local w' = ds_local w \<Longrightarrow> seg_real_size w' = seg_real_size w \<Longrightarrow> chain w' upper off ds = chain w upper off ds"
  by (induction ds arbitrary: off upper) (simp_all add: delta_size_at_def marker_at_def)

text \<open>Garbage collection returns, and removes the longest prefix of deltas that were overwritten before the snapshot.\<close>

lemma gc_drops:
  assumes "ring_inv w ds"
  shows "\<exists>w'. gc_loop snapshot w = Some w' \<and> ring_inv w' (dropWhile (\<lambda>a. next_delta_wts a (ds_local w) < snapshot) ds)
    \<and> w' = w\<lparr>ds_head := ds_head w', is_empty := is_empty w'\<rparr>"
  using assms
proof (induction ds arbitrary: w)
  case Nil
  then show ?case by (subst gc_loop.simps) (simp add: ring_inv_def)
next
  case (Cons a ds)
  let ?w = "w\<lparr>ds_head := a\<rparr>" and ?h = "a + delta_size_at w a" and ?up = "ds_tail w < ds_head w"
  have c: "chain w ?up (ds_head w) (a # ds)" using Cons.prems by (simp add: ring_inv_def)
  have w: "(if delta_marker (ds_head w) (ds_local w) = 0x5e \<or> ds_head w = seg_real_size w then w\<lparr>ds_head := 0\<rparr> else w) = ?w"
    using c Cons.prems by (auto simp: marker_at_def ring_inv_def split: if_splits)
  have a: "a \<noteq> ds_tail w" "a \<le> seg_real_size w" "?h \<le> seg_real_size w" "(ds_tail w < a) = (?up \<and> a = ds_head w)"
    "(ds_tail w < ?h) = (?up \<and> a = ds_head w)" "chain w (ds_tail w < ?h) ?h ds" "chain w (ds_tail w < a) a (a # ds)"
    using c Cons.prems by (auto simp: ring_inv_def split: if_splits)
  show ?case
  proof (cases "next_delta_wts a (ds_local w) < snapshot")
    case False
    then have "gc_loop snapshot w = Some ?w" using a(1) Cons.prems by (subst gc_loop.simps, subst w) (simp add: ring_inv_def)
    moreover have "ring_inv ?w (a # ds)" using Cons.prems a(2,7) chain_cong [of ?w w] by (simp add: ring_inv_def del: chain.simps)
    ultimately show ?thesis using False by (intro exI [of _ ?w]) simp
  next
    case True
    let ?v = "w\<lparr>ds_head := ?h, is_empty := (ds = [])\<rparr>"
    have end_iff: "?h = ds_tail w \<longleftrightarrow> ds = []" using a(6) by (cases ds) (auto split: if_splits)
    have ne: "\<not> is_empty w" "tail_allocated w = ds_tail w" using Cons.prems by (simp_all add: ring_inv_def)
    have "gc_loop snapshot w = gc_loop snapshot (if ds = [] then w\<lparr>ds_head := ?h, is_empty := True\<rparr> else w\<lparr>ds_head := ?h\<rparr>)"
      using True a(1) ne end_iff by (subst gc_loop.simps, subst w) (simp add: Let_def delta_size_at_def)
    moreover have "(if ds = [] then w\<lparr>ds_head := ?h, is_empty := True\<rparr> else w\<lparr>ds_head := ?h\<rparr>) = ?v" using ne(1) by (cases w) simp
    ultimately have "gc_loop snapshot w = gc_loop snapshot ?v" by metis
    moreover have "ring_inv ?v ds" using Cons.prems a(3,6) chain_cong [of ?v w] by (simp add: ring_inv_def)
    then obtain w' where "gc_loop snapshot ?v = Some w'" "ring_inv w' (dropWhile (\<lambda>a. next_delta_wts a (ds_local w) < snapshot) ds)"
      "w' = ?v\<lparr>ds_head := ds_head w', is_empty := is_empty w'\<rparr>"
      using Cons.IH [of ?v] by auto
    ultimately show ?thesis using True by (intro exI [of _ w']) simp
  qed
qed

definition area :: "DeltaSectionWrap \<Rightarrow> bool \<Rightarrow> nat \<Rightarrow> nat \<Rightarrow> bool" where
  "area w upper off x \<longleftrightarrow> upper \<and> off \<le> x \<and> x < seg_real_size w \<or> x < ds_tail w \<and> (upper \<or> off \<le> x)"

lemma delta_header_cong:
  assumes "\<And>x. a \<le> x \<Longrightarrow> x < a + 41 \<Longrightarrow> ds_local w' x = ds_local w x"
  shows "delta_size_at w' a = delta_size_at w a" "marker_at w' a = marker_at w a"
    "next_delta_wts a (ds_local w') = next_delta_wts a (ds_local w)"
proof -
  have "load_bytes (a + 37) 4 (ds_local w') = load_bytes (a + 37) 4 (ds_local w)" by (rule load_bytes_cong) (use assms in auto)
  then show "delta_size_at w' a = delta_size_at w a" by (simp add: delta_size_at_def current_record_data_size_def get_u32_def)
  have "load_bytes (a + 9) 8 (ds_local w') = load_bytes (a + 9) 8 (ds_local w)" by (rule load_bytes_cong) (use assms in auto)
  then show "next_delta_wts a (ds_local w') = next_delta_wts a (ds_local w)" by (simp add: next_delta_wts_def get_u64_def)
  show "marker_at w' a = marker_at w a" using assms [of a] by (simp add: marker_at_def delta_marker_def get_u8_def)
qed

lemma chain_append:
  assumes "chain w upper off ds" and "\<And>x. area w upper off x \<Longrightarrow> ds_local w' x = ds_local w x"
    and "seg_real_size w' = seg_real_size w" and "ds_tail w' = ds_tail w + n"
    and "\<not> marker_at w' (ds_tail w)" "delta_size_at w' (ds_tail w) = n" "41 \<le> n"
  shows "chain w' upper off (ds @ [ds_tail w])"
  using assms(1,2)
proof (induction ds arbitrary: upper off)
  case Nil
  then show ?case using assms(3-) by simp
next
  case (Cons a ds)
  have "area w upper off x" if "a \<le> x" "x < a + 41" for x using Cons.prems(1) that by (auto simp: area_def split: if_splits)
  then have h: "delta_size_at w' a = delta_size_at w a" "marker_at w' a = marker_at w a"
    by (auto intro!: delta_header_cong Cons.prems(2))
  show ?case
  proof (cases "upper \<and> a \<noteq> off")
    case True
    then have c: "chain w False (delta_size_at w a) ds" using Cons.prems(1) unfolding chain.simps by argo
    have "chain w' False (delta_size_at w a) (ds @ [ds_tail w])"
      using True by (intro Cons.IH [OF c] Cons.prems(2)) (auto simp: area_def)
    moreover have "off < seg_real_size w \<Longrightarrow> marker_at w' off = marker_at w off"
      using True Cons.prems(2) [of off] by (simp add: area_def marker_at_def delta_marker_def get_u8_def)
    ultimately show ?thesis using True Cons.prems(1) h assms(3,4) by auto
  next
    case False
    then have c: "chain w upper (off + delta_size_at w a) ds" using Cons.prems(1) by auto
    have "chain w' upper (off + delta_size_at w a) (ds @ [ds_tail w])"
      by (intro Cons.IH [OF c] Cons.prems(2)) (auto simp: area_def)
    then show ?thesis using False Cons.prems(1) h assms(3,4) by auto
  qed
qed

lemma chain_append_wrap:
  assumes "chain w False off ds" and "\<And>x. off \<le> x \<Longrightarrow> x < ds_tail w \<Longrightarrow> ds_local w' x = ds_local w x"
    and "seg_real_size w' = seg_real_size w" and "ds_tail w \<le> seg_real_size w"
    and "ds_tail w = seg_real_size w \<or> marker_at w' (ds_tail w)"
    and "\<not> marker_at w' 0" "delta_size_at w' 0 = ds_tail w'" "41 \<le> ds_tail w'" "ds_tail w' < off"
  shows "chain w' True off (ds @ [0])"
  using assms(1,2,9)
proof (induction ds arbitrary: off)
  case Nil
  then show ?case using assms(3-8) by auto
next
  case (Cons a ds)
  have c: "chain w False (off + delta_size_at w a) ds" "a = off" "off + delta_size_at w a \<le> ds_tail w" "41 \<le> delta_size_at w a" "\<not> marker_at w a"
    using Cons.prems(1) by auto
  have "ds_local w' x = ds_local w x" if "a \<le> x" "x < a + 41" for x using that c by (intro Cons.prems(2)) auto
  then have h: "delta_size_at w' a = delta_size_at w a" "marker_at w' a = marker_at w a"
    using delta_header_cong [of a w' w] by blast+
  have "chain w' True (off + delta_size_at w a) (ds @ [0])" using Cons.prems(2,3) by (intro Cons.IH [OF c(1)]) auto
  then show ?case using c(2-5) h assms(3,4) by simp
qed

text \<open>An allocation that goes round the end of the ring stays clear of the oldest delta only if it ends before the head,
  which \<^verbatim>\<open>AllocateDelta\<close> does not check.\<close>

definition fits_ring :: "nat \<Rightarrow> DeltaSectionWrap \<Rightarrow> bool" where
  "fits_ring n w \<longleftrightarrow> (seg_real_size w - tail_allocated w < n \<longrightarrow> n < ds_head w)"

definition place_of :: "nat \<Rightarrow> DeltaSectionWrap \<Rightarrow> nat" where
  "place_of n w = (if seg_real_size w - tail_allocated w < n then 0 else tail_allocated w)"

lemma ring_room:
  assumes "ring_inv w ds" and "has_room n w" and "fits_ring n w" and "41 \<le> n"
  shows "ds_tail w < ds_head w \<Longrightarrow> ds_tail w + n < ds_head w"
    and "\<not> ds_tail w < ds_head w \<Longrightarrow> ds_tail w + n \<le> seg_real_size w \<or> seg_real_size w - ds_tail w < n \<and> n < ds_head w"
proof -
  have I: "tail_allocated w = ds_tail w" "ds_head w \<le> seg_real_size w" "ds_tail w \<le> seg_real_size w" "seg_real_size w < 2 ^ 31"
    "is_empty w \<longleftrightarrow> ds = []" "chain w (ds_tail w < ds_head w) (ds_head w) ds"
    using assms(1) by (simp_all add: ring_inv_def)
  show "ds_tail w + n < ds_head w" if up: "ds_tail w < ds_head w"
  proof -
    have "\<not> is_empty w" using I(5,6) up by auto
    then have r: "n < (ds_head w + seg_real_size w - ds_tail w) mod seg_real_size w"
      using assms(2) I(1-4) by (simp add: has_room_def)
    have e: "ds_head w + seg_real_size w - ds_tail w = (ds_head w - ds_tail w) + seg_real_size w" using up by simp
    have "(ds_head w + seg_real_size w - ds_tail w) mod seg_real_size w \<le> ds_head w - ds_tail w"
      unfolding e mod_add_self2 by (rule mod_less_eq_dividend)
    then show ?thesis using r by linarith
  qed
  show "ds_tail w + n \<le> seg_real_size w \<or> seg_real_size w - ds_tail w < n \<and> n < ds_head w" if "\<not> ds_tail w < ds_head w"
    using assms(3) I(1,3) by (auto simp: fits_ring_def)
qed

lemma fill_in_delta_record_single_eq:
  fixes w new_record old_record ts
  defines "n \<equiv> estimate_delta_size new_record"
  defines "m \<equiv> (if seg_real_size w - tail_allocated w < n \<and> tail_allocated w < seg_real_size w then (ds_local w)(tail_allocated w := 0x5e) else ds_local w)"
  assumes "has_room n w" and "tail_allocated w = ds_tail w" and "ds_tail w \<le> seg_real_size w" and "seg_real_size w < 2 ^ 31"
  shows "fill_in_delta_record_single new_record old_record ts w = Some ((delta_address (place_of n w) w, n),
    w\<lparr>ds_epoch := (if place_of n w + n < ds_tail w then ds_epoch w + 1 else ds_epoch w), ds_tail := place_of n w + n, tail_allocated := place_of n w + n,
      is_empty := False, max_ts := (if max_ts w < GetWTS old_record then GetWTS old_record else max_ts w),
      ds_local := write_delta new_record old_record ts (place_of n w) m\<rparr>)"
  using assms unfolding fill_in_delta_record_single_def AllocateDelta_def publish_delta_def write_delta_record_def
  by (simp add: Let_def place_of_def delta_address_def)

text \<open>A filled delta is appended to the queue and no live byte of the ring changes.\<close>

lemma fill_appends:
  fixes w new_record old_record ts
  defines "n \<equiv> estimate_delta_size new_record"
  assumes "ring_inv w ds" and "has_room n w" and "fits_ring n w" and "schema_ptr new_record = schema_ptr old_record" and "n < 2 ^ 31"
  shows "\<exists>w' m. fill_in_delta_record_single new_record old_record ts w = Some ((delta_address (place_of n w) w, n), w')
    \<and> ring_inv w' (ds @ [place_of n w]) \<and> next_delta_wts (place_of n w) (ds_local w') = ts \<and> delta_size_at w' (place_of n w) = n
    \<and> ds_local w' = write_delta new_record old_record ts (place_of n w) m
    \<and> (\<forall>x. area w (ds_tail w < ds_head w) (ds_head w) x \<longrightarrow> ds_local w' x = ds_local w x)"
proof -
  let ?a = "place_of n w" and ?up = "ds_tail w < ds_head w"
  have n41: "41 \<le> n" by (simp add: n_def estimate_delta_size_def DELTA_DATA_OFF_def)
  have I: "tail_allocated w = ds_tail w" "ds_head w \<le> seg_real_size w" "ds_tail w \<le> seg_real_size w" "seg_real_size w < 2 ^ 31"
    "chain w ?up (ds_head w) ds"
    using assms(2) by (simp_all add: ring_inv_def)
  note room = ring_room [OF assms(2-4) n41]
  define m where "m = (if seg_real_size w - tail_allocated w < n \<and> tail_allocated w < seg_real_size w then (ds_local w)(tail_allocated w := 0x5e) else ds_local w)"
  define w' where "w' = w\<lparr>ds_epoch := (if ?a + n < ds_tail w then ds_epoch w + 1 else ds_epoch w), ds_tail := ?a + n, tail_allocated := ?a + n,
      is_empty := False, max_ts := (if max_ts w < GetWTS old_record then GetWTS old_record else max_ts w),
      ds_local := write_delta new_record old_record ts ?a m\<rparr>"
  have fill: "fill_in_delta_record_single new_record old_record ts w = Some ((delta_address ?a w, n), w')"
    using fill_in_delta_record_single_eq [OF assms(3) [unfolded n_def] I(1,3,4)] by (simp add: w'_def m_def n_def)
  have n32: "estimate_delta_size new_record < 2 ^ 32" using assms(6) by (simp add: n_def)
  note W = delta_written [where ts = ts and a = ?a and ?m0.0 = m, OF assms(5) n32]
  have D: "\<not> marker_at w' ?a" "delta_size_at w' ?a = n" "next_delta_wts ?a (ds_local w') = ts"
    using W(1,3,7) assms(5,6) by (simp_all add: w'_def marker_at_def delta_size_at_def n_def estimate_delta_size_def length_saved)
  have frame: "x < ?a \<or> ?a + n \<le> x \<Longrightarrow> ds_local w' x = m x" for x using W(9) assms(6) by (simp add: w'_def n_def)
  have keep: "ds_local w' x = ds_local w x" if "area w ?up (ds_head w) x" for x
  proof -
    have "(x < ?a \<or> ?a + n \<le> x) \<and> m x = ds_local w x"
      using that room I(1-4) unfolding area_def place_of_def m_def by (cases ?up) auto
    then show ?thesis using frame by simp
  qed
  have seg: "seg_real_size w' = seg_real_size w" "ds_tail w' = ?a + n" "ds_head w' = ds_head w" "tail_allocated w' = ?a + n" "\<not> is_empty w'"
    by (simp_all add: w'_def)
  have "chain w' (ds_tail w' < ds_head w') (ds_head w') (ds @ [?a]) \<and> ds_tail w' \<le> seg_real_size w"
  proof (cases "seg_real_size w - ds_tail w < n")
    case False
    then have "chain w' ?up (ds_head w) (ds @ [?a])"
      using D chain_append [OF I(5) keep seg(1), of n] n41 by (simp add: place_of_def I(1) seg)
    then show ?thesis using False room seg I by (cases ?up) (simp_all add: place_of_def)
  next
    case True
    then have low: "\<not> ?up" using room(1) I(2) by auto
    then have "n < ds_head w" using True room(2) by linarith
    note low = low this
    have "ds_tail w < seg_real_size w \<Longrightarrow> marker_at w' (ds_tail w)"
      using True low frame [of "ds_tail w"] by (simp add: place_of_def I(1) marker_at_def delta_marker_def get_u8_def m_def)
    then have "ds_tail w = seg_real_size w \<or> marker_at w' (ds_tail w)" using I(3) by fastforce
    then have "chain w' True (ds_head w) (ds @ [0])"
      using True low I D n41 seg keep by (intro chain_append_wrap [where w = w]) (auto simp: place_of_def area_def)
    then show ?thesis using True low seg I by (simp add: place_of_def)
  qed
  then have "ring_inv w' (ds @ [?a])" using I seg by (simp add: ring_inv_def)
  moreover have "ds_local w' = write_delta new_record old_record ts ?a m" by (simp add: w'_def)
  ultimately show ?thesis using fill D(2,3) keep by blast
qed

text \<open>The histories of a ring, with the queue of the deltas written and not recycled as a ghost: the place of a delta, its
  bytes, and the commit timestamp of the version that replaced it.\<close>

type_synonym delta = "nat \<times> byte list \<times> u64"

inductive ring_history :: "DeltaSectionWrap \<Rightarrow> delta list \<Rightarrow> bool" where
  ring_new: "tail_allocated slot = 0 \<Longrightarrow> seg_size < 2 ^ 31 \<Longrightarrow> ring_history (DeltaSectionWrap_new node addr seg_size slot) []"
| ring_fill: "ring_history w q \<Longrightarrow> fill_in_delta_record_single new_record old_record ts w = Some ((g, n), w') \<Longrightarrow>
    fits_ring n w \<Longrightarrow> schema_ptr new_record = schema_ptr old_record \<Longrightarrow> n < 2 ^ 31 \<Longrightarrow>
    ring_history w' (q @ [(place_of n w, load_bytes (place_of n w) n (ds_local w'), ts)])"
| ring_gc: "ring_history w q \<Longrightarrow> GarbageCollectionBySnapshot snapshot w = Some w' \<Longrightarrow>
    ring_history w' (dropWhile (\<lambda>(a, bs, ts). ts < snapshot) q)"

definition intact :: "DeltaSectionWrap \<Rightarrow> delta \<Rightarrow> bool" where
  "intact w d \<longleftrightarrow> (case d of (a, bs, ts) \<Rightarrow> load_bytes a (length bs) (ds_local w) = bs \<and> length bs = delta_size_at w a
    \<and> next_delta_wts a (ds_local w) = ts)"

lemma chain_area: "chain w upper off ds \<Longrightarrow> a \<in> set ds \<Longrightarrow> 41 \<le> delta_size_at w a \<and> (\<forall>x. a \<le> x \<and> x < a + delta_size_at w a \<longrightarrow> area w upper off x)"
proof (induction ds arbitrary: upper off)
  case (Cons b ds)
  show ?case
  proof (cases "a = b")
    case True
    then show ?thesis using Cons.prems(1) by (auto simp: area_def split: if_splits)
  next
    case False
    then have "a \<in> set ds" using Cons.prems(2) by simp
    then show ?thesis using Cons.prems(1) Cons.IH by (fastforce simp: area_def split: if_splits)
  qed
qed simp

lemma fill_room: "fill_in_delta_record_single new_record old_record ts w = Some ((g, n), w') \<Longrightarrow> n = estimate_delta_size new_record \<and> has_room n w"
  by (auto simp: fill_in_delta_record_single_def AllocateDelta_def Let_def split: option.splits if_splits)

lemma ring_history_inv: "ring_history w q \<Longrightarrow> ring_inv w (map fst q) \<and> (\<forall>d \<in> set q. intact w d)"
proof (induction rule: ring_history.induct)
  case (ring_new slot seg_size node addr)
  then show ?case by (simp add: ring_inv_def DeltaSectionWrap_new_def)
next
  case (ring_fill w q new_record old_record ts g n w')
  let ?a = "place_of n w"
  have n: "n = estimate_delta_size new_record" "has_room n w" using fill_room [OF ring_fill.hyps(2)] by auto
  obtain m where f: "ring_inv w' (map fst q @ [?a])" "next_delta_wts ?a (ds_local w') = ts" "delta_size_at w' ?a = n"
    "\<forall>x. area w (ds_tail w < ds_head w) (ds_head w) x \<longrightarrow> ds_local w' x = ds_local w x"
    using fill_appends [of w "map fst q" new_record old_record ts] ring_fill n by auto
  have "intact w' d" if d: "d \<in> set q" for d
  proof -
    obtain a bs t where d': "d = (a, bs, t)" by (cases d)
    have i: "load_bytes a (length bs) (ds_local w) = bs" "length bs = delta_size_at w a" "next_delta_wts a (ds_local w) = t"
      using ring_fill.IH d by (auto simp: d' intact_def)
    have "a \<in> set (map fst q)" using d d' by force
    then have c: "41 \<le> delta_size_at w a" "\<And>x. a \<le> x \<Longrightarrow> x < a + delta_size_at w a \<Longrightarrow> ds_local w' x = ds_local w x"
      using ring_fill.IH chain_area [of w _ _ "map fst q" a] f(4) by (auto simp: ring_inv_def)
    have h: "delta_size_at w' a = delta_size_at w a" "next_delta_wts a (ds_local w') = next_delta_wts a (ds_local w)"
      using delta_header_cong [of a w' w] c by auto
    have "load_bytes a (length bs) (ds_local w') = load_bytes a (length bs) (ds_local w)"
      by (rule load_bytes_cong) (use c(2) i(2) in auto)
    then show ?thesis using i h by (simp add: d' intact_def)
  qed
  moreover have "intact w' (?a, load_bytes ?a n (ds_local w'), ts)" using f by (simp add: intact_def)
  ultimately show ?case using f(1) by auto
next
  case (ring_gc w q snapshot w')
  let ?old = "\<lambda>a. next_delta_wts a (ds_local w) < snapshot"
  have "\<forall>d \<in> set q. ?old (fst d) = (case d of (a, bs, ts) \<Rightarrow> ts < snapshot)" using ring_gc.IH by (auto simp: intact_def)
  then have e: "dropWhile ?old (map fst q) = map fst (dropWhile (\<lambda>(a, bs, ts). ts < snapshot) q)"
    unfolding dropWhile_map by (intro arg_cong [where f = "map fst"] dropWhile_cong) auto
  have "gc_loop snapshot w = Some w'" using ring_gc.hyps by (simp add: GarbageCollectionBySnapshot_def)
  then have g: "ring_inv w' (dropWhile ?old (map fst q))" "w' = w\<lparr>ds_head := ds_head w', is_empty := is_empty w'\<rparr>"
    using gc_drops [of w "map fst q" snapshot] ring_gc.IH by auto
  have "ds_local w' = ds_local w" by (subst g(2)) simp
  then have "intact w' d = intact w d" for d by (simp add: intact_def delta_size_at_def)
  then show ?case using g(1) e ring_gc.IH by (auto dest: set_dropWhileD)
qed


text \<open>C37: an allocation can overwrite deltas that are still needed.  When the ring is not wrapped, the record does not fit
  behind the tail and it is longer than the space before the head, but shorter than the two together, \<^verbatim>\<open>AllocateDelta\<close>
  does not wait: it hands out a place at the start of the ring that runs over the head, the oldest live delta.\<close>

theorem allocation_overruns:
  assumes "ring_inv w ds" and "ds_head w < ds_tail w" and "seg_real_size w - ds_tail w < n" and "ds_head w < n"
    and "n < ds_head w + (seg_real_size w - ds_tail w)"
  shows "\<exists>w'. AllocateDelta n w = Some ((ds_tail w, 0, n), w') \<and> ds \<noteq> [] \<and> hd ds = ds_head w \<and> ds_head w \<in> {0..<n}"
proof -
  have I: "tail_allocated w = ds_tail w" "ds_tail w \<le> seg_real_size w" "seg_real_size w < 2 ^ 31" "chain w False (ds_head w) ds"
    using assms(1,2) by (simp_all add: ring_inv_def)
  have "(ds_head w + seg_real_size w - ds_tail w) mod seg_real_size w = ds_head w + (seg_real_size w - ds_tail w)"
    using assms(2) I(2) by simp
  then have "has_room n w" using assms(2,5) I(1-3) by (simp add: has_room_def)
  moreover have "ds \<noteq> [] \<and> hd ds = ds_head w" using I(4) assms(2) by (cases ds) auto
  ultimately show ?thesis using assms(3,4) I(1-3) by (simp add: AllocateDelta_def Let_def)
qed

text \<open>The fast check is the conjunction of the two slow ones.\<close>

lemma isvalidandnotdangerours_iff: "isvalidandnotdangerours x e w \<longleftrightarrow> isOffsetValid x e w \<and> \<not> isOffsetDangerous x w"
  by (auto simp: isvalidandnotdangerours_def isOffsetValid_def isOffsetDangerous_def Let_def)

text \<open>C38: a copy accepts places it does not hold.  When a copy is wrapped and the owner has since written, in the same lap,
  at a place behind the head of the copy, the reader's check says that the copy is good for the delta there, although the
  copy still has the bytes of the lap before.\<close>

theorem stale_place_accepted:
  assumes "holds content owner" and "holds content copy" and "seg_real_size copy = seg_real_size owner"
    and "ds_tail copy < ds_head copy" and "danger_size copy = 0" and "ds_epoch copy = Suc lap"
    and "ds_head copy \<le> x" and "x < seg_real_size owner"
    and "live (Suc lap) x owner" and "content (Suc lap) x \<noteq> content lap x"
  shows "isvalidandnotdangerours x (Suc lap) copy \<and> ds_local copy x = content lap x \<and> ds_local copy x \<noteq> ds_local owner x"
proof -
  have "live lap x copy" using assms(3,4,6-8) by (simp add: live_def wrapped_def)
  then have "ds_local copy x = content lap x" "ds_local owner x = content (Suc lap) x" using assms(1,2,9) by (simp_all add: holds_def)
  moreover have "isvalidandnotdangerours x (Suc lap) copy"
    using assms(3-8) by (simp add: isvalidandnotdangerours_iff isOffsetValid_def isOffsetDangerous_def)
  ultimately show ?thesis using assms(10) by simp
qed

definition demo_slot :: DeltaSection where
  "demo_slot = \<lparr>danger_size = 0, ds_epoch = 0, ds_head = 0, ds_tail = 0, tail_allocated = 0, max_ts = 0, is_empty = True, ds_local = \<lambda>_. 0\<rparr>"

definition demo_ring :: DeltaSectionWrap where
  "demo_ring = DeltaSectionWrap_new 2 (GlobalAddress 2 0) 1000 demo_slot"


definition demo_full :: DeltaSectionWrap where
  "demo_full = demo_ring\<lparr>ds_tail := 900, tail_allocated := 900, ds_head := 100, is_empty := False,
    ds_local := store_bytes 137 (le_bytes 4 (800 :: u32)) (\<lambda>_. 0)\<rparr>"

theorem allocation_overruns_witness:
  "ring_inv demo_full [100] \<and> (\<exists>w'. AllocateDelta 120 demo_full = Some ((900, 0, 120), w') \<and> 100 \<in> {0..<120 :: nat})"
proof -
  have "load_bytes 137 4 (store_bytes 137 (le_bytes 4 (800 :: u32)) (\<lambda>_. 0)) = le_bytes 4 (800 :: u32)" by simp
  then have sz: "delta_size_at demo_full 100 = 800"
    by (simp add: delta_size_at_def current_record_data_size_def demo_full_def get_u32_def)
  have "\<not> marker_at demo_full 100" by (simp add: marker_at_def delta_marker_def get_u8_def demo_full_def store_bytes_def)
  then have inv: "ring_inv demo_full [100]"
    using sz by (simp add: ring_inv_def demo_full_def demo_ring_def DeltaSectionWrap_new_def DS_HEADER_def)
  then show ?thesis using allocation_overruns [of demo_full "[100]" 120]
    by (simp add: demo_full_def demo_ring_def DeltaSectionWrap_new_def DS_HEADER_def)
qed

definition demo_reader :: DeltaSectionWrap where
  "demo_reader = demo_owner\<lparr>ds_tail := 20, ds_head := 50, ds_epoch := 1\<rparr>"

definition demo_writer :: DeltaSectionWrap where
  "demo_writer = demo_owner\<lparr>ds_tail := 60, ds_head := 80, ds_epoch := 1, ds_local := \<lambda>x. if x < 60 then 7 else 3\<rparr>"

theorem stale_place_accepted_witness:
  "later demo_reader demo_writer \<and> isvalidandnotdangerours 55 1 demo_reader \<and> ds_local demo_reader 55 = 3 \<and> ds_local demo_writer 55 = 7"
proof -
  let ?c = "\<lambda>lap x :: nat. if lap = (1 :: nat) then 7 else 3 :: byte"
  have "holds ?c demo_reader" "holds ?c demo_writer"
    by (auto simp: holds_def live_def wrapped_def demo_reader_def demo_writer_def demo_owner_def)
  moreover have "live (Suc 0) 55 demo_writer" by (simp add: live_def wrapped_def demo_writer_def demo_owner_def)
  ultimately have "isvalidandnotdangerours 55 (Suc 0) demo_reader \<and> ds_local demo_reader 55 = ?c 0 55 \<and> ds_local demo_reader 55 \<noteq> ds_local demo_writer 55"
    by (intro stale_place_accepted [of ?c]) (simp_all add: demo_reader_def demo_writer_def demo_owner_def)
  moreover have "later demo_reader demo_writer"
    by (simp add: later_def head_pos_def wrapped_def demo_reader_def demo_writer_def demo_owner_def)
  ultimately show ?thesis by (simp add: demo_writer_def demo_owner_def)
qed

end
