(* ===== verification/Allocator.thy ===== *)
theory Allocator
  imports Address
begin

text \<open>
  The allocation of memory (\<^verbatim>\<open>storage/rdma.h\<close>, \<^verbatim>\<open>storage/rdma.cc\<close>, \<^verbatim>\<open>memory_node/memory_node_keeper.cpp\<close>).  A memory node divides
  the regions it hosts into chunks of 512 MB and gives them to compute nodes; a compute node divides a
  chunk into pages or delta sections with an \<^verbatim>\<open>In_Use_Array\<close>, and uses the same structure for its local registered
  buffers.  The interleavings of the allocating threads of all compute nodes never give out overlapping memory, and
  the page of an address inside an allocated page is that page.
\<close>

section \<open>The free list of a chunk\<close>

record In_Use_Array =
  element_size :: nat
  iu_chunk_size :: nat
  free_list :: "nat list"
  mr_ori :: "(nat \<times> nat) option"
  gptr_ori :: GlobalAddress
  Array_used_up :: bool

text \<open>The constructors for a local buffer, with its start and length, and for a remote chunk.\<close>

definition In_Use_Array_local :: "nat \<Rightarrow> nat \<Rightarrow> nat \<times> nat \<Rightarrow> In_Use_Array" where
  "In_Use_Array_local sz chunk mr =
    \<lparr>element_size = sz, iu_chunk_size = chunk, free_list = [0..<sz], mr_ori = Some mr, gptr_ori = GlobalAddress_Null, Array_used_up = False\<rparr>"

definition In_Use_Array_remote :: "nat \<Rightarrow> nat \<Rightarrow> GlobalAddress \<Rightarrow> In_Use_Array" where
  "In_Use_Array_remote sz chunk gptr =
    \<lparr>element_size = sz, iu_chunk_size = chunk, free_list = [0..<sz], mr_ori = None, gptr_ori = gptr, Array_used_up = False\<rparr>"

text \<open>The result is an \<^verbatim>\<open>int\<close>, -1 if there is no free slot.\<close>

definition allocate_memory_slot :: "In_Use_Array \<Rightarrow> int \<times> In_Use_Array" where
  "allocate_memory_slot a =
    (if Array_used_up a then (- 1, a)
     else if free_list a = [] then (- 1, a\<lparr>Array_used_up := True\<rparr>)
     else (int (last (free_list a)), a\<lparr>free_list := butlast (free_list a)\<rparr>))"

definition deallocate_memory_slot :: "nat \<Rightarrow> In_Use_Array \<Rightarrow> bool \<times> In_Use_Array" where
  "deallocate_memory_slot index a =
    (let a = a\<lparr>free_list := free_list a @ [index]\<rparr>
     in if index < element_size a then (True, a\<lparr>Array_used_up := False\<rparr>) else (False, a))"

text \<open>Insertion into an ordered map; an entry that is there stays, as with \<^verbatim>\<open>std::map::insert\<close>.\<close>

fun ordered_insert :: "'k::linorder \<Rightarrow> 'v \<Rightarrow> ('k \<times> 'v) list \<Rightarrow> ('k \<times> 'v) list" where
  "ordered_insert k v [] = [(k, v)]"
| "ordered_insert k v ((k', v') # m) = (if k < k' then (k, v) # (k', v') # m else if k = k' then (k', v') # m else (k', v') # ordered_insert k v m)"

fun map_update :: "'k \<Rightarrow> 'v \<Rightarrow> ('k \<times> 'v) list \<Rightarrow> ('k \<times> 'v) list" where
  "map_update k v [] = []"
| "map_update k v (e # m) = (if fst e = k then (k, v) # m else e # map_update k v m)"


section \<open>Memory nodes\<close>

datatype Chunk_type = Regular_Page | LockTable | Message | BigPage | DeltaChunk

record memory_node =
  mn_id :: u16
  mn_groups :: logical_groups
  pre_allocated_pool :: "u16 \<Rightarrow> u64 list"

text \<open>\<^verbatim>\<open>Preregister_Memory\<close> lays the regions that the node hosts out one after the other in the buffer, in the order
  \<open>ids\<close> in which the map of logical groups is traversed, and cuts each into chunks.\<close>

fun place_regions :: "u16 \<Rightarrow> u32 \<Rightarrow> u64 \<Rightarrow> u64 \<Rightarrow> PhysicalRegion list \<Rightarrow> u64 \<times> PhysicalRegion list" where
  "place_regions pid key bytes base [] = (base, [])"
| "place_regions pid key bytes base (r # rs) =
    (if phys_id r = pid
     then let (b, rs') = place_regions pid key bytes (base + bytes) rs in (b, r\<lparr>base_ptr := base, rkey := key\<rparr> # rs')
     else let (b, rs') = place_regions pid key bytes base rs in (b, r # rs'))"

fun lay_out :: "u32 \<Rightarrow> u16 list \<Rightarrow> u64 \<Rightarrow> memory_node \<Rightarrow> memory_node" where
  "lay_out key [] base n = n"
| "lay_out key (l # ids) base n =
    (case mn_groups n l of None \<Rightarrow> lay_out key ids base n
     | Some g \<Rightarrow>
        let (base, rs) = place_regions (mn_id n) key (lg_bytes g) base (physical_regions g)
        in lay_out key ids base (n\<lparr>mn_groups := (mn_groups n)(l \<mapsto> g\<lparr>physical_regions := rs\<rparr>)\<rparr>))"

definition chunks_for_region :: "LogicalGroup \<Rightarrow> nat" where
  "chunks_for_region g = (let c = unat (lg_bytes g) div Alloc_Granu in if c = 0 then 1 else c)"

definition own_region :: "memory_node \<Rightarrow> u16 \<Rightarrow> PhysicalRegion option" where
  "own_region n l = (case mn_groups n l of None \<Rightarrow> None | Some g \<Rightarrow> find (\<lambda>r. phys_id r = mn_id n) (physical_regions g))"

definition fill_pool :: "memory_node \<Rightarrow> u16 \<Rightarrow> u64 list" where
  "fill_pool n l =
    (case (mn_groups n l, own_region n l) of
       (Some g, Some r) \<Rightarrow>
         if 0 < lg_bytes g then map (\<lambda>i. base_ptr r + of_nat (i * Alloc_Granu)) [0..<chunks_for_region g] else []
     | _ \<Rightarrow> [])"

definition Preregister_Memory :: "u16 list \<Rightarrow> u64 \<Rightarrow> u32 \<Rightarrow> memory_node \<Rightarrow> memory_node" where
  "Preregister_Memory ids buff key n = (let n = lay_out key ids buff n in n\<lparr>pre_allocated_pool := fill_pool n\<rparr>)"

text \<open>The request for a chunk: the node takes the last chunk of the region; without one it answers
  with the null address.\<close>

definition create_mr_1GB_handler :: "u16 \<Rightarrow> memory_node \<Rightarrow> GlobalAddress \<times> memory_node" where
  "create_mr_1GB_handler l n =
    (case pre_allocated_pool n l of [] \<Rightarrow> (GlobalAddress_Null, n)
     | chunks \<Rightarrow>
        let addr = last chunks;
            n = n\<lparr>pre_allocated_pool := (pre_allocated_pool n)(l := butlast chunks)\<rparr>;
            off = (case mn_groups n l of None \<Rightarrow> addr
                   | Some g \<Rightarrow> (case find (\<lambda>r. phys_id r = mn_id n) (physical_regions g) of None \<Rightarrow> 0 | Some r \<Rightarrow> addr - base_ptr r))
        in (GlobalAddress l (ucast off), n))"

section \<open>Compute nodes\<close>

definition DELTASECTIONSIZE :: nat where
  "DELTASECTIONSIZE = 256 * 1024 * 1024"

definition remote_chunk_size :: "Chunk_type \<Rightarrow> nat" where
  "remote_chunk_size pool_name = (if pool_name = Regular_Page then kLeafPageSize else DELTASECTIONSIZE)"

text \<open>What a compute node has for one region and one of the two remote pools.\<close>

record remote_pool =
  Bitmap_map :: "(u64 \<times> In_Use_Array) list"
  remote_mem_pool :: "GlobalAddress list"

record cluster =
  groups :: logical_groups
  memory_nodes :: "u16 \<Rightarrow> memory_node"
  remote_pools :: "u16 \<times> u16 \<times> Chunk_type \<Rightarrow> remote_pool"

fun ask_replicas :: "u16 \<Rightarrow> PhysicalRegion list \<Rightarrow> (u16 \<Rightarrow> memory_node) \<Rightarrow> GlobalAddress list \<times> (u16 \<Rightarrow> memory_node)" where
  "ask_replicas l [] ms = ([], ms)"
| "ask_replicas l (r # rs) ms =
    (let (g, n) = create_mr_1GB_handler l (ms (phys_id r)); (gs, ms') = ask_replicas l rs (ms(phys_id r := n))
     in (g # gs, ms'))"

text \<open>\<open>q\<close> is the compute node, the region and the pool.\<close>

definition Remote_Memory_Register :: "nat \<Rightarrow> u16 \<times> u16 \<times> Chunk_type \<Rightarrow> cluster \<Rightarrow> bool \<times> cluster" where
  "Remote_Memory_Register sz q c =
    (let (node, l, pool_name) = q; replicas = GetReplicaSet (groups c) l in
     if groups c l = None \<or> replicas = [] then (False, c)
     else let (gs, ms) = ask_replicas l replicas (memory_nodes c); base_gptr = hd gs; c = c\<lparr>memory_nodes := ms\<rparr> in
       if gval base_gptr = 0 then (False, c)
       else let chunk_size = remote_chunk_size pool_name; p = remote_pools c q;
                p = p\<lparr>remote_mem_pool := remote_mem_pool p @ [base_gptr],
                      Bitmap_map := ordered_insert (gval base_gptr) (In_Use_Array_remote (sz div chunk_size) chunk_size base_gptr) (Bitmap_map p)\<rparr>
            in (True, c\<lparr>remote_pools := (remote_pools c)(q := p)\<rparr>))"

definition slot_gaddr :: "GlobalAddress \<Rightarrow> int \<Rightarrow> nat \<Rightarrow> GlobalAddress" where
  "slot_gaddr base_gptr sst_index chunk_size = GlobalAddress (nodeID base_gptr) (goffset base_gptr + of_int (sst_index * int chunk_size))"

fun scan_regions :: "nat \<Rightarrow> (u64 \<times> In_Use_Array) list \<Rightarrow> GlobalAddress option \<times> (u64 \<times> In_Use_Array) list" where
  "scan_regions chunk_size [] = (None, [])"
| "scan_regions chunk_size ((k, a) # m) =
    (let (i, a) = allocate_memory_slot a in
     if 0 \<le> i then (Some (slot_gaddr (gptr_ori a) i chunk_size), (k, a) # m)
     else let (r, m) = scan_regions chunk_size m in (r, (k, a) # m))"

text \<open>A slot of the chunk that was registered last; \<open>None\<close> if there is none, which the code does not check.\<close>

definition last_element_slot :: "nat \<Rightarrow> remote_pool \<Rightarrow> (int \<times> GlobalAddress \<times> remote_pool) option" where
  "last_element_slot chunk_size p =
    (if remote_mem_pool p = [] then None
     else let base = last (remote_mem_pool p) in
       case map_of (Bitmap_map p) (gval base) of None \<Rightarrow> None
       | Some a \<Rightarrow> let (i, a) = allocate_memory_slot a in Some (i, slot_gaddr base i chunk_size, p\<lparr>Bitmap_map := map_update (gval base) a (Bitmap_map p)\<rparr>))"

definition put_pool :: "u16 \<times> u16 \<times> Chunk_type \<Rightarrow> remote_pool \<Rightarrow> cluster \<Rightarrow> cluster" where
  "put_pool q p c = c\<lparr>remote_pools := (remote_pools c)(q := p)\<rparr>"

text \<open>The part under the exclusive latch: another thread may have registered a chunk in the meantime.\<close>

definition allocate_latched :: "u16 \<times> u16 \<times> Chunk_type \<Rightarrow> cluster \<Rightarrow> (GlobalAddress \<times> cluster) option" where
  "allocate_latched q c =
    (let chunk_size = remote_chunk_size (snd (snd q));
         (found, c) = (case last_element_slot chunk_size (remote_pools c q) of None \<Rightarrow> (None, c)
                       | Some (i, g, p) \<Rightarrow> (if 0 \<le> i then Some g else None, put_pool q p c))
     in case found of Some g \<Rightarrow> Some (g, c)
        | None \<Rightarrow>
           let c = snd (Remote_Memory_Register Alloc_Granu q c) in
           case last_element_slot chunk_size (remote_pools c q) of None \<Rightarrow> None
           | Some (i, g, p) \<Rightarrow> Some (g, put_pool q p c))"

definition register_first :: "u16 \<times> u16 \<times> Chunk_type \<Rightarrow> cluster \<Rightarrow> cluster" where
  "register_first q c = (if Bitmap_map (remote_pools c q) = [] then snd (Remote_Memory_Register Alloc_Granu q c) else c)"

definition Allocate_Remote_RDMA_Slot :: "u16 \<times> u16 \<times> Chunk_type \<Rightarrow> cluster \<Rightarrow> (GlobalAddress \<times> cluster) option" where
  "Allocate_Remote_RDMA_Slot q c =
    (let c = register_first q c; p = remote_pools c q;
         (found, m) = scan_regions (remote_chunk_size (snd (snd q))) (Bitmap_map p); c = put_pool q (p\<lparr>Bitmap_map := m\<rparr>) c
     in case found of Some g \<Rightarrow> Some (g, c) | None \<Rightarrow> allocate_latched q c)"

text \<open>The counter of the calling thread spreads the allocations over the regions; the identifier is a \<^verbatim>\<open>uint8_t\<close>.\<close>

definition Allocate_Remote :: "nat \<Rightarrow> u16 \<Rightarrow> Chunk_type \<Rightarrow> u64 \<Rightarrow> cluster \<Rightarrow> (GlobalAddress \<times> u64 \<times> cluster) option" where
  "Allocate_Remote memory_node_count node pool_name round_robin_cur c =
    (let target_node = of_nat (2 * (unat round_robin_cur mod memory_node_count) + 1) :: byte
     in case Allocate_Remote_RDMA_Slot (node, ucast target_node, pool_name) c of None \<Rightarrow> None
        | Some (g, c) \<Rightarrow> Some (g, round_robin_cur + 1, c))"

section \<open>The contract of a free list\<close>

text \<open>A pool of slots: an allocation gives a slot that is not in use or tells that all are, and a slot in use can be
  given back.\<close>

locale slot_pool =
  fixes ok :: "'a \<Rightarrow> bool" and cap :: "'a \<Rightarrow> nat" and used :: "'a \<Rightarrow> nat set"
    and alloc :: "'a \<Rightarrow> int \<times> 'a" and free :: "nat \<Rightarrow> 'a \<Rightarrow> bool \<times> 'a"
  assumes used_range: "ok a \<Longrightarrow> used a \<subseteq> {..<cap a}"
    and alloc_new: "ok a \<Longrightarrow> alloc a = (j, a') \<Longrightarrow> 0 \<le> j \<Longrightarrow> ok a' \<and> cap a' = cap a \<and> nat j < cap a \<and> nat j \<notin> used a \<and> used a' = insert (nat j) (used a)"
    and alloc_full: "ok a \<Longrightarrow> alloc a = (j, a') \<Longrightarrow> j < 0 \<Longrightarrow> ok a' \<and> cap a' = cap a \<and> used a' = used a \<and> used a = {..<cap a}"
    and free_used: "ok a \<Longrightarrow> i \<in> used a \<Longrightarrow> free i a = (b, a') \<Longrightarrow> b \<and> ok a' \<and> cap a' = cap a \<and> used a' = used a - {i}"
begin

lemma alloc_ok: "ok a \<Longrightarrow> alloc a = (j, a') \<Longrightarrow> ok a' \<and> cap a' = cap a"
  using alloc_new [of a j a'] alloc_full [of a j a'] by (cases "0 \<le> j") auto

lemma alloc_room:
  assumes "ok a" "used a \<noteq> {..<cap a}"
  shows "0 \<le> fst (alloc a)"
  using alloc_full [OF assms(1), of "fst (alloc a)" "snd (alloc a)"] assms(2) by (cases "fst (alloc a) < 0") auto

lemma free_then_alloc:
  assumes "ok a" "i \<in> used a" "free i a = (b, a')"
  shows "0 \<le> fst (alloc a')"
proof -
  have "ok a'" "cap a' = cap a" "used a' = used a - {i}" using free_used [OF assms] by simp_all
  moreover have "i \<in> {..<cap a}" using used_range [OF assms(1)] assms(2) by (rule subsetD)
  ultimately show ?thesis using alloc_room [of a'] by auto
qed

end

definition used_slots :: "In_Use_Array \<Rightarrow> nat set" where
  "used_slots a = {..<element_size a} - set (free_list a)"

definition slots_ok :: "In_Use_Array \<Rightarrow> bool" where
  "slots_ok a \<longleftrightarrow> distinct (free_list a) \<and> set (free_list a) \<subseteq> {..<element_size a} \<and> (Array_used_up a \<longrightarrow> free_list a = [])"

interpretation iu: slot_pool slots_ok element_size used_slots allocate_memory_slot deallocate_memory_slot
proof
  fix a :: In_Use_Array and j a' assume a: "slots_ok a" "allocate_memory_slot a = (j, a')"
  {
    assume j: "0 \<le> j"
    define x ys where "x = last (free_list a)" and "ys = butlast (free_list a)"
    have "\<not> Array_used_up a" "free_list a \<noteq> []" "j = int x" "a' = a\<lparr>free_list := ys\<rparr>"
      using a(2) j by (auto simp: allocate_memory_slot_def x_def ys_def split: if_splits)
    moreover have "free_list a = ys @ [x]" using calculation(2) by (simp add: x_def ys_def)
    ultimately show "slots_ok a' \<and> element_size a' = element_size a \<and> nat j < element_size a \<and> nat j \<notin> used_slots a
        \<and> used_slots a' = insert (nat j) (used_slots a)"
      using a(1) by (auto simp: slots_ok_def used_slots_def)
  }
  assume "j < 0"
  then show "slots_ok a' \<and> element_size a' = element_size a \<and> used_slots a' = used_slots a \<and> used_slots a = {..<element_size a}"
    using a by (auto simp: allocate_memory_slot_def slots_ok_def used_slots_def split: if_splits)
next
  fix a :: In_Use_Array
  show "used_slots a \<subseteq> {..<element_size a}" by (auto simp: used_slots_def)
next
  fix a :: In_Use_Array and i b a' assume a: "slots_ok a" "i \<in> used_slots a" "deallocate_memory_slot i a = (b, a')"
  then have "b" "a' = a\<lparr>free_list := free_list a @ [i], Array_used_up := False\<rparr>"
    by (simp_all add: deallocate_memory_slot_def used_slots_def)
  then show "b \<and> slots_ok a' \<and> element_size a' = element_size a \<and> used_slots a' = used_slots a - {i}"
    using a(1,2) by (auto simp: slots_ok_def used_slots_def)
qed

lemma allocate_slot_frame:
  "allocate_memory_slot a = (j, a') \<Longrightarrow> gptr_ori a' = gptr_ori a \<and> iu_chunk_size a' = iu_chunk_size a \<and> mr_ori a' = mr_ori a"
  by (auto simp: allocate_memory_slot_def split: if_splits)

lemma new_array_ok [simp]:
  "slots_ok (In_Use_Array_remote n k g)" "used_slots (In_Use_Array_remote n k g) = {}"
  "slots_ok (In_Use_Array_local n k mr)" "used_slots (In_Use_Array_local n k mr) = {}"
  by (auto simp: slots_ok_def used_slots_def In_Use_Array_remote_def In_Use_Array_local_def atLeast0LessThan)

text \<open>Ordered maps.\<close>

lemma map_of_map_update: "map_of (map_update k v m) = (if k \<in> fst ` set m then (map_of m)(k \<mapsto> v) else map_of m)"
  by (induction m) auto

lemma keys_map_update [simp]: "map fst (map_update k v m) = map fst m"
  by (induction m) auto

lemma key_set_map_update [simp]: "fst ` set (map_update k v m) = fst ` set m"
  by (metis keys_map_update list.set_map)

lemma map_of_ordered_insert: "map_of m k = None \<Longrightarrow> map_of (ordered_insert k v m) = (map_of m)(k \<mapsto> v)"
  by (induction k v m rule: ordered_insert.induct) (auto simp: fun_eq_iff split: if_splits)

lemma set_ordered_insert: "k \<notin> fst ` set m \<Longrightarrow> set (ordered_insert k v m) = insert (k, v) (set m)"
  by (induction k v m rule: ordered_insert.induct) auto

lemma distinct_ordered_insert: "k \<notin> fst ` set m \<Longrightarrow> distinct (map fst m) \<Longrightarrow> distinct (map fst (ordered_insert k v m))"
  by (induction k v m rule: ordered_insert.induct) (auto simp: set_ordered_insert)

section \<open>The cluster\<close>

text \<open>The start of chunk \<open>i\<close> of a region.\<close>

definition chunk_base :: "u16 \<Rightarrow> nat \<Rightarrow> GlobalAddress" where
  "chunk_base l i = GlobalAddress l (of_nat (i * Alloc_Granu))"

text \<open>Memory node \<open>n\<close> holds the first \<open>k\<close> chunks of region \<open>l\<close>.\<close>

definition holds_chunks :: "memory_node \<Rightarrow> u16 \<Rightarrow> nat \<Rightarrow> bool" where
  "holds_chunks n l k \<longleftrightarrow>
    (\<exists>r. own_region n l = Some r \<and> pre_allocated_pool n l = map (\<lambda>i. base_ptr r + of_nat (i * Alloc_Granu)) [0..<k])"

text \<open>All copies of a region have the same chunks left, so that another copy can take over.\<close>

definition replicas_ok :: "(u16 \<Rightarrow> nat) \<Rightarrow> cluster \<Rightarrow> bool" where
  "replicas_ok left c \<longleftrightarrow> groups c 0 = None
    \<and> (\<forall>l. distinct (map phys_id (GetReplicaSet (groups c) l))
        \<and> (\<forall>r \<in> set (GetReplicaSet (groups c) l). holds_chunks (memory_nodes c (phys_id r)) l (left l)))"

lemma ucast_of_nat_48: "ucast (of_nat n :: u64) = (of_nat n :: 48 word)"
  by (rule bit_word_eqI) (simp add: bit_simps unsigned_of_nat)

lemma own_region_pool [simp]: "own_region (n\<lparr>pre_allocated_pool := x\<rparr>) l = own_region n l"
  by (simp add: own_region_def cong: option.case_cong)

lemma handler_takes_last:
  assumes "holds_chunks n l (Suc k)"
  shows "fst (create_mr_1GB_handler l n) = chunk_base l k" "holds_chunks (snd (create_mr_1GB_handler l n)) l k"
    "l' \<noteq> l \<Longrightarrow> holds_chunks n l' k' \<Longrightarrow> holds_chunks (snd (create_mr_1GB_handler l n)) l' k'"
proof -
  obtain r g where r: "mn_groups n l = Some g" "find (\<lambda>r. phys_id r = mn_id n) (physical_regions g) = Some r"
      "pre_allocated_pool n l = map (\<lambda>i. base_ptr r + of_nat (i * Alloc_Granu)) [0..<Suc k]"
    using assms by (auto simp: holds_chunks_def own_region_def split: option.splits)
  have pool: "pre_allocated_pool n l \<noteq> []" "last (pre_allocated_pool n l) = base_ptr r + of_nat (k * Alloc_Granu)"
      "butlast (pre_allocated_pool n l) = map (\<lambda>i. base_ptr r + of_nat (i * Alloc_Granu)) [0..<k]"
    by (simp_all add: r(3) butlast_append)
  have h: "create_mr_1GB_handler l n
      = (GlobalAddress l (ucast (of_nat (k * Alloc_Granu) :: u64)), n\<lparr>pre_allocated_pool := (pre_allocated_pool n)(l := butlast (pre_allocated_pool n l))\<rparr>)"
    using pool(1,2) r(1,2) by (cases "pre_allocated_pool n l") (simp_all add: create_mr_1GB_handler_def Let_def)
  show "fst (create_mr_1GB_handler l n) = chunk_base l k" by (simp add: h chunk_base_def ucast_of_nat_48 del: of_nat_mult)
  show "holds_chunks (snd (create_mr_1GB_handler l n)) l k"
    using assms r(1,2) by (simp add: h holds_chunks_def pool(3)) (simp add: own_region_def)
  show "l' \<noteq> l \<Longrightarrow> holds_chunks n l' k' \<Longrightarrow> holds_chunks (snd (create_mr_1GB_handler l n)) l' k'"
    by (simp add: h holds_chunks_def)
qed

lemma ask_replicas_take:
  assumes "distinct (map phys_id rs)" "\<forall>r \<in> set rs. holds_chunks (ms (phys_id r)) l (Suc k)" "ask_replicas l rs ms = (gs, ms')"
  shows "gs = replicate (length rs) (chunk_base l k) \<and> (\<forall>r \<in> set rs. holds_chunks (ms' (phys_id r)) l k)
    \<and> (\<forall>p. p \<notin> phys_id ` set rs \<longrightarrow> ms' p = ms p) \<and> (\<forall>p l' k'. l' \<noteq> l \<longrightarrow> holds_chunks (ms p) l' k' \<longrightarrow> holds_chunks (ms' p) l' k')"
  using assms
proof (induction rs arbitrary: ms gs)
  case (Cons r rs)
  define n where "n = snd (create_mr_1GB_handler l (ms (phys_id r)))"
  have hr: "holds_chunks (ms (phys_id r)) l (Suc k)" using Cons.prems(2) by simp
  note H = handler_takes_last [OF hr]
  obtain gs1 where a: "ask_replicas l rs (ms(phys_id r := n)) = (gs1, ms')" "gs = chunk_base l k # gs1"
    using Cons.prems(3) H(1) by (auto simp: n_def Let_def split: prod.splits)
  have "\<forall>x \<in> set rs. holds_chunks ((ms(phys_id r := n)) (phys_id x)) l (Suc k)" using Cons.prems(1,2) by (auto simp: image_iff)
  note IH = Cons.IH [OF _ this a(1)]
  have "holds_chunks (ms' p) l' k'" if "l' \<noteq> l" "holds_chunks (ms p) l' k'" for p l' k'
    using IH Cons.prems(1) H(3) [of l' k'] that by (cases "p = phys_id r") (auto simp: n_def)
  then show ?case using IH Cons.prems(1) a(2) H(2) by (auto simp: n_def)
qed auto

text \<open>Registering a chunk: every copy gives its last chunk away, the compute node enters the address of it.\<close>

definition with_chunk :: "nat \<Rightarrow> Chunk_type \<Rightarrow> GlobalAddress \<Rightarrow> remote_pool \<Rightarrow> remote_pool" where
  "with_chunk sz t g p = p\<lparr>remote_mem_pool := remote_mem_pool p @ [g],
     Bitmap_map := ordered_insert (gval g) (In_Use_Array_remote (sz div remote_chunk_size t) (remote_chunk_size t) g) (Bitmap_map p)\<rparr>"

lemma gval_chunk_base: "l \<noteq> 0 \<Longrightarrow> gval (chunk_base l i) \<noteq> 0"
proof -
  have "gval GlobalAddress_Null = 0" by (simp add: gval_def GlobalAddress_Null_def)
  then show "l \<noteq> 0 \<Longrightarrow> gval (chunk_base l i) \<noteq> 0"
    using gval_inject [of "chunk_base l i" GlobalAddress_Null] by (simp add: chunk_base_def GlobalAddress_Null_def)
qed

lemma register_effect:
  assumes "replicas_ok left c" "GetReplicaSet (groups c) l \<noteq> []" "left l = Suc k"
  obtains ms where "Remote_Memory_Register sz (n, l, t) c
      = (True, put_pool (n, l, t) (with_chunk sz t (chunk_base l k) (remote_pools c (n, l, t))) (c\<lparr>memory_nodes := ms\<rparr>))"
    "replicas_ok (left(l := k)) (c\<lparr>memory_nodes := ms\<rparr>)"
proof -
  let ?rs = "GetReplicaSet (groups c) l"
  obtain gs ms where a: "ask_replicas l ?rs (memory_nodes c) = (gs, ms)" by (metis surj_pair)
  have rs: "distinct (map phys_id ?rs)" "\<forall>r \<in> set ?rs. holds_chunks (memory_nodes c (phys_id r)) l (Suc k)" "groups c 0 = None"
    using assms(1) unfolding replicas_ok_def assms(3) [symmetric] by blast+
  note T = ask_replicas_take [OF rs(1,2) a]
  have l: "groups c l \<noteq> None" "l \<noteq> 0" using assms(2) rs(3) by (auto simp: GetReplicaSet_def split: option.splits)
  have "hd gs = chunk_base l k" using T assms(2) by (cases ?rs) simp_all
  then have "Remote_Memory_Register sz (n, l, t) c
      = (True, put_pool (n, l, t) (with_chunk sz t (chunk_base l k) (remote_pools c (n, l, t))) (c\<lparr>memory_nodes := ms\<rparr>))"
    using l(1) assms(2) gval_chunk_base [OF l(2)] by (simp add: Remote_Memory_Register_def a Let_def with_chunk_def put_pool_def)
  moreover have "holds_chunks (ms (phys_id r)) l' ((left(l := k)) l')" if "r \<in> set (GetReplicaSet (groups c) l')" for r l'
    using T assms(1) that by (cases "l' = l") (auto simp: replicas_ok_def)
  ultimately show thesis using that [of ms] assms(1) by (simp add: replicas_ok_def)
qed

text \<open>The arrays of a compute node: \<open>left\<close> and \<open>tot\<close> are the chunks that the memory nodes still hold and all chunks
  of the region.\<close>

definition array_ok :: "nat \<Rightarrow> nat \<Rightarrow> u16 \<Rightarrow> Chunk_type \<Rightarrow> u64 \<Rightarrow> In_Use_Array \<Rightarrow> bool" where
  "array_ok left tot l t key a \<longleftrightarrow> slots_ok a \<and> element_size a = Alloc_Granu div remote_chunk_size t
    \<and> key = gval (gptr_ori a) \<and> (\<exists>i. left \<le> i \<and> i < tot \<and> gptr_ori a = chunk_base l i)"

definition pool_ok :: "nat \<Rightarrow> nat \<Rightarrow> u16 \<Rightarrow> Chunk_type \<Rightarrow> remote_pool \<Rightarrow> bool" where
  "pool_ok left tot l t p \<longleftrightarrow> distinct (map fst (Bitmap_map p)) \<and> gval ` set (remote_mem_pool p) = fst ` set (Bitmap_map p)
    \<and> (\<forall>(key, a) \<in> set (Bitmap_map p). array_ok left tot l t key a)"

definition pool_keys :: "cluster \<Rightarrow> u16 \<times> u16 \<times> Chunk_type \<Rightarrow> u64 set" where
  "pool_keys c q = fst ` set (Bitmap_map (remote_pools c q))"

definition pools_ok :: "(u16 \<Rightarrow> nat) \<Rightarrow> (u16 \<Rightarrow> nat) \<Rightarrow> cluster \<Rightarrow> bool" where
  "pools_ok left tot c \<longleftrightarrow> (\<forall>n l t. pool_ok (left l) (tot l) l t (remote_pools c (n, l, t)))
    \<and> (\<forall>q q'. q \<noteq> q' \<longrightarrow> pool_keys c q \<inter> pool_keys c q' = {})"

lemma pools_okD:
  assumes "pools_ok left tot c"
  shows "pool_ok (left l) (tot l) l t (remote_pools c (n, l, t))"
    "(key, a) \<in> set (Bitmap_map (remote_pools c (n, l, t))) \<Longrightarrow> array_ok (left l) (tot l) l t key a"
    "key \<in> pool_keys c q \<Longrightarrow> key \<in> pool_keys c q' \<Longrightarrow> q = q'"
    "(key, a) \<in> set (Bitmap_map (remote_pools c q)) \<Longrightarrow> (key, b) \<in> set (Bitmap_map (remote_pools c q)) \<Longrightarrow> a = b"
proof -
  show p: "pool_ok (left l) (tot l) l t (remote_pools c (n, l, t))" for n l t using assms by (simp add: pools_ok_def)
  show "(key, a) \<in> set (Bitmap_map (remote_pools c (n, l, t))) \<Longrightarrow> array_ok (left l) (tot l) l t key a"
    using p [of l t n] by (auto simp: pool_ok_def)
  show "key \<in> pool_keys c q \<Longrightarrow> key \<in> pool_keys c q' \<Longrightarrow> q = q'" using assms unfolding pools_ok_def by blast
  have "distinct (map fst (Bitmap_map (remote_pools c q)))" using p by (cases q) (simp add: pool_ok_def)
  then show "(key, a) \<in> set (Bitmap_map (remote_pools c q)) \<Longrightarrow> (key, b) \<in> set (Bitmap_map (remote_pools c q)) \<Longrightarrow> a = b"
    by (rule eq_key_imp_eq_value)
qed

lemma set_map_update:
  "distinct (map fst m) \<Longrightarrow> (k, a) \<in> set m \<Longrightarrow> set (map_update k v m) = insert (k, v) (set m - {(k, a)})"
  by (induction m) (auto simp: image_iff)

lemma pool_ok_pop:
  assumes "pool_ok left tot l t p" "(key, a) \<in> set (Bitmap_map p)" "allocate_memory_slot a = (i, a')"
  shows "pool_ok left tot l t (p\<lparr>Bitmap_map := map_update key a' (Bitmap_map p)\<rparr>)"
proof -
  have d: "distinct (map fst (Bitmap_map p))" using assms(1) by (simp add: pool_ok_def)
  have "array_ok left tot l t key a" using assms(1,2) by (auto simp: pool_ok_def)
  then have "array_ok left tot l t key a'"
    using iu.alloc_ok [of a i a'] allocate_slot_frame [OF assms(3)] assms(3) by (simp add: array_ok_def)
  then have "\<forall>(key, a) \<in> set (map_update key a' (Bitmap_map p)). array_ok left tot l t key a"
    using assms(1) by (auto simp: pool_ok_def set_map_update [OF d assms(2)])
  then show ?thesis using assms(1) by (simp add: pool_ok_def)
qed

lemma pools_ok_put:
  assumes "pools_ok left tot c" "pool_ok (left l) (tot l) l t p" "fst ` set (Bitmap_map p) = pool_keys c (n, l, t)"
  shows "pools_ok left tot (put_pool (n, l, t) p c)"
  using assms unfolding pools_ok_def put_pool_def pool_keys_def by (simp add: fun_upd_apply)

lemma chunk_base_inj:
  assumes "i * Alloc_Granu < 2 ^ 48" "j * Alloc_Granu < 2 ^ 48"
  shows "chunk_base l i = chunk_base l' j \<longleftrightarrow> l = l' \<and> i = j"
proof -
  have "unat (of_nat (i * Alloc_Granu) :: 48 word) = i * Alloc_Granu" "unat (of_nat (j * Alloc_Granu) :: 48 word) = j * Alloc_Granu"
    using assms by (simp_all add: unat_of_nat_small del: of_nat_mult)
  then have "(of_nat (i * Alloc_Granu) :: 48 word) = of_nat (j * Alloc_Granu) \<longleftrightarrow> i * Alloc_Granu = j * Alloc_Granu" by metis
  then show ?thesis by (simp add: chunk_base_def Alloc_Granu_def del: of_nat_mult)
qed

definition fits_offset :: "(u16 \<Rightarrow> nat) \<Rightarrow> bool" where
  "fits_offset tot \<longleftrightarrow> (\<forall>l. tot l * Alloc_Granu \<le> 2 ^ 48)"

lemma fits_chunk: "fits_offset tot \<Longrightarrow> i < tot l \<Longrightarrow> i * Alloc_Granu + Alloc_Granu \<le> 2 ^ 48"
proof -
  assume "fits_offset tot" "i < tot l"
  then have "Suc i * Alloc_Granu \<le> tot l * Alloc_Granu" "tot l * Alloc_Granu \<le> 2 ^ 48"
    by (simp_all only: fits_offset_def mult_le_mono1 Suc_leI)
  then show ?thesis by simp
qed

lemma chunk_fits: "fits_offset tot \<Longrightarrow> i < tot l \<Longrightarrow> i * Alloc_Granu < 2 ^ 48"
  using fits_chunk [of tot i l] by (simp add: Alloc_Granu_def)

lemma chunk_not_registered:
  assumes "pools_ok left tot c" "fits_offset tot" "k < tot l" "k < left l"
  shows "gval (chunk_base l k) \<notin> pool_keys c q"
proof
  assume "gval (chunk_base l k) \<in> pool_keys c q"
  then obtain n' l' t' a where a: "q = (n', l', t')" "(gval (chunk_base l k), a) \<in> set (Bitmap_map (remote_pools c q))" by (cases q) (auto simp: pool_keys_def)
  then have "array_ok (left l') (tot l') l' t' (gval (chunk_base l k)) a" using pools_okD(2) [OF assms(1)] by simp
  then obtain i where "left l' \<le> i" "i < tot l'" "chunk_base l k = chunk_base l' i" by (auto simp: array_ok_def gval_inject)
  then show False using chunk_base_inj [of k i l l'] chunk_fits [OF assms(2,3)] chunk_fits [OF assms(2), of i l'] assms(4) by auto
qed

lemma register_pools_ok:
  assumes "pools_ok left tot c" "left l = Suc k" "k < tot l" "fits_offset tot"
    "c' = put_pool (n, l, t) (with_chunk Alloc_Granu t (chunk_base l k) (remote_pools c (n, l, t))) (c\<lparr>memory_nodes := ms\<rparr>)"
  shows "pools_ok (left(l := k)) tot c'"
proof -
  let ?g = "chunk_base l k" and ?p = "remote_pools c (n, l, t)"
  have fresh: "gval ?g \<notin> pool_keys c q" for q using chunk_not_registered [OF assms(1,4,3)] assms(2) by simp
  have weaker: "array_ok (left l') (tot l') l' t' key a \<Longrightarrow> array_ok ((left(l := k)) l') (tot l') l' t' key a" for l' t' key a
    using assms(2) by (cases "l' = l") (auto simp: array_ok_def dest: Suc_leD)
  have old: "pool_ok ((left(l := k)) l') (tot l') l' t' (remote_pools c (n', l', t'))" for n' l' t'
    using assms(1) weaker by (fastforce simp: pools_ok_def pool_ok_def)
  have new: "array_ok k (tot l) l t (gval ?g) (In_Use_Array_remote (Alloc_Granu div remote_chunk_size t) (remote_chunk_size t) ?g)"
    using assms(3) by (simp add: array_ok_def) (auto simp: In_Use_Array_remote_def)
  have nk: "gval ?g \<notin> fst ` set (Bitmap_map ?p)" using fresh [of "(n, l, t)"] by (simp add: pool_keys_def)
  have p: "pool_ok k (tot l) l t (with_chunk Alloc_Granu t ?g ?p)"
    using old [of l t n] new by (simp add: pool_ok_def with_chunk_def set_ordered_insert [OF nk] distinct_ordered_insert [OF nk])
  have keys: "pool_keys c' q = (if q = (n, l, t) then insert (gval ?g) (pool_keys c q) else pool_keys c q)" for q
    by (simp add: assms(5) pool_keys_def put_pool_def with_chunk_def set_ordered_insert [OF nk])
  have "pool_ok ((left(l := k)) l') (tot l') l' t' (remote_pools c' (n', l', t'))" for n' l' t'
    using p old [of l' t' n'] by (simp add: assms(5) put_pool_def)
  moreover have "pool_keys c' q \<inter> pool_keys c' q' = {}" if "q \<noteq> q'" for q q'
  proof -
    have "pool_keys c q \<inter> pool_keys c q' = {}" using assms(1) that unfolding pools_ok_def by blast
    then show ?thesis using that fresh [of q] fresh [of q'] by (auto simp: keys)
  qed
  ultimately show ?thesis by (simp add: pools_ok_def)
qed

text \<open>The place of a slot.\<close>

lemma slot_place:
  assumes "array_ok left (tot l) l t key a" "i < element_size a" "fits_offset tot"
  obtains j where "gptr_ori a = chunk_base l j" "j < tot l" "nodeID (slot_gaddr (gptr_ori a) (int i) (remote_chunk_size t)) = l"
    "unat (goffset (slot_gaddr (gptr_ori a) (int i) (remote_chunk_size t))) = j * Alloc_Granu + i * remote_chunk_size t"
    "i * remote_chunk_size t + remote_chunk_size t \<le> Alloc_Granu"
proof -
  obtain j where j: "gptr_ori a = chunk_base l j" "j < tot l" using assms(1) by (auto simp: array_ok_def)
  have "Suc i \<le> Alloc_Granu div remote_chunk_size t" using assms(1,2) by (simp add: array_ok_def)
  then have "Suc i * remote_chunk_size t \<le> Alloc_Granu div remote_chunk_size t * remote_chunk_size t" by (rule mult_le_mono1)
  also have "\<dots> \<le> Alloc_Granu" by simp
  finally have i: "i * remote_chunk_size t + remote_chunk_size t \<le> Alloc_Granu" by simp
  have "0 < remote_chunk_size t" by (simp add: remote_chunk_size_def kLeafPageSize_def DELTASECTIONSIZE_def)
  then have "j * Alloc_Granu + i * remote_chunk_size t < 2 ^ 48" using i fits_chunk [OF assms(3) j(2)] by linarith
  then have "unat (of_nat (j * Alloc_Granu + i * remote_chunk_size t) :: 48 word) = j * Alloc_Granu + i * remote_chunk_size t"
    by (simp add: unat_of_nat_small del: of_nat_mult of_nat_add)
  moreover have "goffset (slot_gaddr (gptr_ori a) (int i) (remote_chunk_size t)) = of_nat (j * Alloc_Granu + i * remote_chunk_size t)"
    by (simp add: slot_gaddr_def j(1) chunk_base_def)
  ultimately show thesis using that [OF j] i by (simp add: slot_gaddr_def j(1) chunk_base_def)
qed

text \<open>What has been given out, the last allocation first: pools and addresses.\<close>

definition slot_in_use :: "cluster \<Rightarrow> Chunk_type \<times> GlobalAddress \<Rightarrow> bool" where
  "slot_in_use c x \<longleftrightarrow> (\<exists>n key a i. (key, a) \<in> set (Bitmap_map (remote_pools c (n, nodeID (snd x), fst x)))
     \<and> i \<in> used_slots a \<and> snd x = slot_gaddr (gptr_ori a) (int i) (remote_chunk_size (fst x)))"

definition given_ok :: "cluster \<Rightarrow> (Chunk_type \<times> GlobalAddress) list \<Rightarrow> bool" where
  "given_ok c out \<longleftrightarrow> distinct out \<and> (\<forall>x \<in> set out. slot_in_use c x)"

definition range_of :: "Chunk_type \<times> GlobalAddress \<Rightarrow> nat set" where
  "range_of x = {unat (goffset (snd x))..<unat (goffset (snd x)) + remote_chunk_size (fst x)}"

text \<open>Slots of the same region that overlap are the same slot of the same array.\<close>

lemma slots_overlap:
  assumes "pools_ok left tot c" "fits_offset tot"
    and a: "(key, a) \<in> set (Bitmap_map (remote_pools c (n, l, t)))" "i < element_size a"
    and b: "(key', b) \<in> set (Bitmap_map (remote_pools c (n', l, t')))" "i' < element_size b"
    and x: "x \<in> range_of (t, slot_gaddr (gptr_ori a) (int i) (remote_chunk_size t))"
      "x \<in> range_of (t', slot_gaddr (gptr_ori b) (int i') (remote_chunk_size t'))"
  shows "(n', t') = (n, t)" "key' = key" "a = b" "i = i'"
proof -
  note ok = pools_okD(2) [OF assms(1) a(1)] pools_okD(2) [OF assms(1) b(1)]
  obtain j where j: "gptr_ori a = chunk_base l j" "unat (goffset (slot_gaddr (gptr_ori a) (int i) (remote_chunk_size t))) = j * Alloc_Granu + i * remote_chunk_size t"
      "i * remote_chunk_size t + remote_chunk_size t \<le> Alloc_Granu"
    using slot_place [OF ok(1) a(2) assms(2)] by metis
  obtain j' where j': "gptr_ori b = chunk_base l j'" "unat (goffset (slot_gaddr (gptr_ori b) (int i') (remote_chunk_size t'))) = j' * Alloc_Granu + i' * remote_chunk_size t'"
      "i' * remote_chunk_size t' + remote_chunk_size t' \<le> Alloc_Granu"
    using slot_place [OF ok(2) b(2) assms(2)] by metis
  have r: "j * Alloc_Granu + i * remote_chunk_size t \<le> x" "x < j * Alloc_Granu + (i * remote_chunk_size t + remote_chunk_size t)"
      "j' * Alloc_Granu + i' * remote_chunk_size t' \<le> x" "x < j' * Alloc_Granu + (i' * remote_chunk_size t' + remote_chunk_size t')"
    using x by (simp_all add: range_of_def j(2) j'(2))
  have "x div Alloc_Granu = j" "x div Alloc_Granu = j'" using r j(3) j'(3) by (auto intro!: div_nat_eqI simp: mult.commute)
  then have jj: "j' = j" by simp
  then have k: "key' = key" using ok j(1) j'(1) by (simp add: array_ok_def)
  then have q: "(n, l, t) = (n', l, t')" using a(1) b(1) by (intro pools_okD(3) [OF assms(1), of key]) (force simp: pool_keys_def)+
  show "(n', t') = (n, t)" "key' = key" using q k by simp_all
  show "a = b" using q k a(1) b(1) by (intro pools_okD(4) [OF assms(1)]) auto
  have "(x - j * Alloc_Granu) div remote_chunk_size t = i" "(x - j * Alloc_Granu) div remote_chunk_size t = i'"
    using r jj q by (auto intro!: div_nat_eqI simp: mult.commute)
  then show "i = i'" by simp
qed

lemma given_mono:
  assumes "given_ok c out"
    "\<And>q key a. (key, a) \<in> set (Bitmap_map (remote_pools c q)) \<Longrightarrow>
      \<exists>a'. (key, a') \<in> set (Bitmap_map (remote_pools c' q)) \<and> gptr_ori a' = gptr_ori a \<and> used_slots a \<subseteq> used_slots a'"
  shows "given_ok c' out"
proof -
  have "slot_in_use c' x" if "slot_in_use c x" for x
  proof -
    obtain n key a i where a: "(key, a) \<in> set (Bitmap_map (remote_pools c (n, nodeID (snd x), fst x)))" "i \<in> used_slots a"
        "snd x = slot_gaddr (gptr_ori a) (int i) (remote_chunk_size (fst x))"
      using \<open>slot_in_use c x\<close> unfolding slot_in_use_def by blast
    from assms(2) [OF a(1)] show ?thesis using a(2,3) unfolding slot_in_use_def by (metis subsetD)
  qed
  then show ?thesis using assms(1) unfolding given_ok_def by blast
qed

definition pop_slot :: "u16 \<times> u16 \<times> Chunk_type \<Rightarrow> u64 \<Rightarrow> In_Use_Array \<Rightarrow> cluster \<Rightarrow> cluster" where
  "pop_slot q key a' c = put_pool q ((remote_pools c q)\<lparr>Bitmap_map := map_update key a' (Bitmap_map (remote_pools c q))\<rparr>) c"

definition given_after :: "Chunk_type \<Rightarrow> int \<Rightarrow> GlobalAddress \<Rightarrow> (Chunk_type \<times> GlobalAddress) list \<Rightarrow> (Chunk_type \<times> GlobalAddress) list" where
  "given_after t i g out = (if 0 \<le> i then (t, g) # out else out)"

lemma given_pop:
  assumes ok: "pools_ok left tot c" "fits_offset tot" "given_ok c out"
    and a: "(key, a) \<in> set (Bitmap_map (remote_pools c (n, l, t)))" "allocate_memory_slot a = (i, a')"
  shows "given_ok (pop_slot (n, l, t) key a' c) (given_after t i (slot_gaddr (gptr_ori a) i (remote_chunk_size t)) out)"
proof -
  let ?g = "slot_gaddr (gptr_ori a) i (remote_chunk_size t)" and ?c = "pop_slot (n, l, t) key a' c"
  note arr = pools_okD(2) [OF ok(1) a(1)]
  have d: "distinct (map fst (Bitmap_map (remote_pools c (n, l, t))))" using pools_okD(1) [OF ok(1)] by (simp add: pool_ok_def)
  have s: "slots_ok a" using arr by (simp add: array_ok_def)
  have set: "set (Bitmap_map (remote_pools ?c (n, l, t))) = insert (key, a') (set (Bitmap_map (remote_pools c (n, l, t))) - {(key, a)})"
    by (simp add: pop_slot_def put_pool_def set_map_update [OF d a(1)])
  have grow: "used_slots a \<subseteq> used_slots a'" using iu.alloc_new [OF s a(2)] iu.alloc_full [OF s a(2)] by (cases "0 \<le> i") auto
  have "\<exists>b'. (k, b') \<in> set (Bitmap_map (remote_pools ?c q)) \<and> gptr_ori b' = gptr_ori b \<and> used_slots b \<subseteq> used_slots b'"
    if "(k, b) \<in> set (Bitmap_map (remote_pools c q))" for q k b
  proof (cases "q = (n, l, t) \<and> (k, b) = (key, a)")
    case True
    then show ?thesis using grow set allocate_slot_frame [OF a(2)] by auto
  next
    case False
    then have "(k, b) \<in> set (Bitmap_map (remote_pools ?c q))" using that set by (cases "q = (n, l, t)") (auto simp: pop_slot_def put_pool_def)
    then show ?thesis by blast
  qed
  with ok(3) have given: "given_ok ?c out" by (rule given_mono)
  show ?thesis
  proof (cases "0 \<le> i")
    case True
    note new = iu.alloc_new [OF s a(2) True]
    have i: "int (nat i) = i" using True by simp
    obtain j where g: "nodeID ?g = l" using slot_place [OF arr _ ok(2), of "nat i"] new i by metis
    have "(t, ?g) \<notin> set out"
    proof
      assume "(t, ?g) \<in> set out"
      then obtain n' key' b i' where b: "(key', b) \<in> set (Bitmap_map (remote_pools c (n', l, t)))" "i' \<in> used_slots b"
          "?g = slot_gaddr (gptr_ori b) (int i') (remote_chunk_size t)"
        using ok(3) g unfolding given_ok_def slot_in_use_def by fastforce
      have "slots_ok b" using pools_okD(2) [OF ok(1) b(1)] by (simp add: array_ok_def)
      then have "i' < element_size b" using iu.used_range b(2) by blast
      moreover have "unat (goffset ?g) \<in> range_of (t, ?g)" by (simp add: range_of_def remote_chunk_size_def kLeafPageSize_def DELTASECTIONSIZE_def)
      ultimately have "a = b \<and> nat i = i'" using slots_overlap(3,4) [OF ok(1,2) a(1) _ b(1), of "nat i" i' "unat (goffset ?g)"] new b(3) i by metis
      then show False using new b(2) by blast
    qed
    moreover have "slot_in_use ?c (t, ?g)"
      using set g new i allocate_slot_frame [OF a(2)] unfolding slot_in_use_def
      by (intro exI [of _ n] exI [of _ key] exI [of _ a'] exI [of _ "nat i"]) simp
    ultimately show ?thesis using given True by (simp add: given_ok_def given_after_def)
  qed (use given in \<open>simp add: given_after_def\<close>)
qed

section \<open>Interleavings\<close>

text \<open>Memory for region \<open>l\<close> is left if the primary copy has a chunk.\<close>

definition has_chunk :: "cluster \<Rightarrow> u16 \<Rightarrow> bool" where
  "has_chunk c l \<longleftrightarrow> (case GetReplicaSet (groups c) l of [] \<Rightarrow> False | r # _ \<Rightarrow> pre_allocated_pool (memory_nodes c (phys_id r)) l \<noteq> [])"

text \<open>Only these two pools exist remotely.\<close>

definition remote_type :: "Chunk_type \<Rightarrow> bool" where
  "remote_type t \<longleftrightarrow> t = Regular_Page \<or> t = DeltaChunk"

text \<open>The atomic parts of the allocations of all threads on all compute nodes, and the failure of a memory node.  The
  list holds what the calls have returned.\<close>

inductive alloc_step :: "cluster \<times> (Chunk_type \<times> GlobalAddress) list \<Rightarrow> cluster \<times> (Chunk_type \<times> GlobalAddress) list \<Rightarrow> bool" where
  first_chunk: "remote_type t \<Longrightarrow> has_chunk c l \<Longrightarrow> alloc_step (c, out) (register_first (n, l, t) c, out)"
| scan_chunk: "remote_type t \<Longrightarrow> (key, a) \<in> set (Bitmap_map (remote_pools c (n, l, t))) \<Longrightarrow> allocate_memory_slot a = (i, a')
    \<Longrightarrow> alloc_step (c, out) (pop_slot (n, l, t) key a' c, given_after t i (slot_gaddr (gptr_ori a) i (remote_chunk_size t)) out)"
| latched: "remote_type t \<Longrightarrow> has_chunk c l \<Longrightarrow> allocate_latched (n, l, t) c = Some (g, c') \<Longrightarrow> alloc_step (c, out) (c', (t, g) # out)"
| failover: "alloc_step (c, out) (c\<lparr>groups := RemoveFailedMemoryNodeFromLogicalGroups f (groups c)\<rparr>, out)"

inductive alloc_run :: "cluster \<times> (Chunk_type \<times> GlobalAddress) list \<Rightarrow> cluster \<times> (Chunk_type \<times> GlobalAddress) list \<Rightarrow> bool" where
  alloc_nil: "alloc_run x x"
| alloc_cons: "alloc_step x y \<Longrightarrow> alloc_run y z \<Longrightarrow> alloc_run x z"

lemma alloc_run_trans: "alloc_run x y \<Longrightarrow> alloc_run y z \<Longrightarrow> alloc_run x z"
  by (induction rule: alloc_run.induct) (auto intro: alloc_cons)

definition cluster_ok :: "(u16 \<Rightarrow> nat) \<Rightarrow> cluster \<Rightarrow> (Chunk_type \<times> GlobalAddress) list \<Rightarrow> bool" where
  "cluster_ok tot c out \<longleftrightarrow> fits_offset tot
    \<and> (\<exists>left. replicas_ok left c \<and> pools_ok left tot c \<and> (\<forall>l. left l \<le> tot l)) \<and> given_ok c out"

lemma ok_pop:
  assumes "cluster_ok tot c out" "(key, a) \<in> set (Bitmap_map (remote_pools c (n, l, t)))" "allocate_memory_slot a = (i, a')"
  shows "cluster_ok tot (pop_slot (n, l, t) key a' c) (given_after t i (slot_gaddr (gptr_ori a) i (remote_chunk_size t)) out)"
proof -
  obtain left where ok: "fits_offset tot" "replicas_ok left c" "pools_ok left tot c" "\<forall>l. left l \<le> tot l" "given_ok c out"
    using assms(1) unfolding cluster_ok_def by blast
  have "pools_ok left tot (pop_slot (n, l, t) key a' c)"
    unfolding pop_slot_def using pool_ok_pop [OF pools_okD(1) [OF ok(3)] assms(2,3)] by (intro pools_ok_put [OF ok(3)]) (simp_all add: pool_keys_def)
  moreover have "replicas_ok left (pop_slot (n, l, t) key a' c)" using ok(2) by (simp add: replicas_ok_def pop_slot_def put_pool_def)
  ultimately show ?thesis using ok given_pop [OF ok(3,1,5) assms(2,3)] unfolding cluster_ok_def by blast
qed

lemma ok_register:
  assumes "cluster_ok tot c out" "has_chunk c l" "Remote_Memory_Register Alloc_Granu (n, l, t) c = (b, c')"
  obtains k where "cluster_ok tot c' out"
    "remote_pools c' (n, l, t) = with_chunk Alloc_Granu t (chunk_base l k) (remote_pools c (n, l, t))"
    "gval (chunk_base l k) \<notin> pool_keys c (n, l, t)"
proof -
  obtain left where ok: "fits_offset tot" "replicas_ok left c" "pools_ok left tot c" "\<forall>l. left l \<le> tot l" "given_ok c out"
    using assms(1) unfolding cluster_ok_def by blast
  obtain r rs where r: "GetReplicaSet (groups c) l = r # rs" "pre_allocated_pool (memory_nodes c (phys_id r)) l \<noteq> []"
    using assms(2) by (auto simp: has_chunk_def split: list.splits)
  have "holds_chunks (memory_nodes c (phys_id r)) l (left l)" using ok(2) r(1) by (auto simp: replicas_ok_def)
  then obtain k where k: "left l = Suc k" using r(2) by (cases "left l") (auto simp: holds_chunks_def)
  obtain ms where m: "c' = put_pool (n, l, t) (with_chunk Alloc_Granu t (chunk_base l k) (remote_pools c (n, l, t))) (c\<lparr>memory_nodes := ms\<rparr>)"
      "replicas_ok (left(l := k)) (c\<lparr>memory_nodes := ms\<rparr>)"
    using register_effect [OF ok(2) _ k, of Alloc_Granu n t] r(1) assms(3) by (metis list.distinct(1) snd_conv)
  have kt: "k < tot l" using ok(4) k Suc_le_lessD by metis
  have nk: "gval (chunk_base l k) \<notin> pool_keys c (n, l, t)" using chunk_not_registered [OF ok(3,1) kt] k by simp
  have "pools_ok (left(l := k)) tot c'" by (rule register_pools_ok [OF ok(3) k kt ok(1) m(1)])
  moreover have "replicas_ok (left(l := k)) c'" using m by (simp add: replicas_ok_def put_pool_def)
  moreover have "\<forall>l'. (left(l := k)) l' \<le> tot l'" using ok(4) kt by simp
  moreover have "given_ok c' out"
    using ok(5) by (rule given_mono) (use nk in \<open>auto simp: m(1) put_pool_def with_chunk_def set_ordered_insert pool_keys_def\<close>)
  ultimately have "cluster_ok tot c' out" using ok(1) unfolding cluster_ok_def by blast
  then show thesis using that nk m(1) by (simp add: put_pool_def)
qed

lemma last_slot_pop:
  assumes "cluster_ok tot c out" "remote_mem_pool (remote_pools c (n, l, t)) \<noteq> []"
  obtains a i a' where "map_of (Bitmap_map (remote_pools c (n, l, t))) (gval (last (remote_mem_pool (remote_pools c (n, l, t))))) = Some a"
    "allocate_memory_slot a = (i, a')"
    "last_element_slot (remote_chunk_size t) (remote_pools c (n, l, t)) = Some (i, slot_gaddr (gptr_ori a) i (remote_chunk_size t),
       remote_pools (pop_slot (n, l, t) (gval (last (remote_mem_pool (remote_pools c (n, l, t))))) a' c) (n, l, t))"
proof -
  let ?p = "remote_pools c (n, l, t)"
  obtain left where ok: "pools_ok left tot c" using assms(1) unfolding cluster_ok_def by blast
  have "gval (last (remote_mem_pool ?p)) \<in> fst ` set (Bitmap_map ?p)"
    using pools_okD(1) [OF ok, of l t n] assms(2) unfolding pool_ok_def by (metis imageI last_in_set)
  then obtain a where a: "map_of (Bitmap_map ?p) (gval (last (remote_mem_pool ?p))) = Some a" by (metis map_of_eq_None_iff not_None_eq)
  have "gptr_ori a = last (remote_mem_pool ?p)"
    using pools_okD(2) [OF ok map_of_SomeD [OF a]] by (auto simp: array_ok_def gval_inject)
  moreover obtain i a' where "allocate_memory_slot a = (i, a')" by fastforce
  ultimately show thesis using that [OF a] assms(2) a by (simp add: last_element_slot_def Let_def pop_slot_def put_pool_def)
qed

lemma has_chunk_pop [simp]: "has_chunk (pop_slot q key a c) l = has_chunk c l"
  by (simp add: has_chunk_def pop_slot_def put_pool_def cong: list.case_cong)

lemma put_pop [simp]: "put_pool q (remote_pools (pop_slot q key a c) q) c = pop_slot q key a c"
  by (simp add: pop_slot_def put_pool_def)

text \<open>A chunk that has just been registered has a free slot.\<close>

lemma slot_of_new_chunk:
  fixes c n l t
  assumes "cluster_ok tot c out" "has_chunk c l"
  defines "c1 \<equiv> snd (Remote_Memory_Register Alloc_Granu (n, l, t) c)"
  obtains i g p where "cluster_ok tot c1 out" "last_element_slot (remote_chunk_size t) (remote_pools c1 (n, l, t)) = Some (i, g, p)" "0 \<le> i"
    "cluster_ok tot (put_pool (n, l, t) p c1) ((t, g) # out)" "\<exists>x \<in> set (Bitmap_map (remote_pools c1 (n, l, t))). used_slots (snd x) \<noteq> {..<element_size (snd x)}"
proof -
  have "Remote_Memory_Register Alloc_Granu (n, l, t) c = (fst (Remote_Memory_Register Alloc_Granu (n, l, t) c), c1)" by (simp add: c1_def)
  from ok_register [OF assms(1,2) this] obtain k where k: "cluster_ok tot c1 out"
      "remote_pools c1 (n, l, t) = with_chunk Alloc_Granu t (chunk_base l k) (remote_pools c (n, l, t))" "gval (chunk_base l k) \<notin> pool_keys c (n, l, t)" .
  let ?new = "In_Use_Array_remote (Alloc_Granu div remote_chunk_size t) (remote_chunk_size t) (chunk_base l k)"
  have nk: "gval (chunk_base l k) \<notin> fst ` set (Bitmap_map (remote_pools c (n, l, t)))" using k(3) by (simp add: pool_keys_def)
  have pool: "remote_mem_pool (remote_pools c1 (n, l, t)) \<noteq> []" "last (remote_mem_pool (remote_pools c1 (n, l, t))) = chunk_base l k"
      "Bitmap_map (remote_pools c1 (n, l, t)) = ordered_insert (gval (chunk_base l k)) ?new (Bitmap_map (remote_pools c (n, l, t)))"
    by (simp_all add: k(2) with_chunk_def)
  have "map_of (Bitmap_map (remote_pools c1 (n, l, t))) (gval (chunk_base l k)) = Some ?new"
    using nk by (simp add: pool(3) map_of_ordered_insert map_of_eq_None_iff)
  with last_slot_pop [OF k(1) pool(1)] obtain i a' where s: "allocate_memory_slot ?new = (i, a')"
      "last_element_slot (remote_chunk_size t) (remote_pools c1 (n, l, t)) = Some (i, slot_gaddr (gptr_ori ?new) i (remote_chunk_size t),
         remote_pools (pop_slot (n, l, t) (gval (chunk_base l k)) a' c1) (n, l, t))"
    by (metis pool(2) option.inject)
  have room: "0 < element_size ?new"
    by (simp add: In_Use_Array_remote_def remote_chunk_size_def Alloc_Granu_def kLeafPageSize_def DELTASECTIONSIZE_def)
  then have i: "0 \<le> i" using iu.alloc_room [of ?new] s(1) by auto
  have "(gval (chunk_base l k), ?new) \<in> set (Bitmap_map (remote_pools c1 (n, l, t)))" by (simp add: pool(3) set_ordered_insert [OF nk])
  from ok_pop [OF k(1) this s(1)] have "cluster_ok tot (pop_slot (n, l, t) (gval (chunk_base l k)) a' c1) ((t, slot_gaddr (gptr_ori ?new) i (remote_chunk_size t)) # out)"
    using i by (simp add: given_after_def)
  moreover have "\<exists>x \<in> set (Bitmap_map (remote_pools c1 (n, l, t))). used_slots (snd x) \<noteq> {..<element_size (snd x)}"
    using room by (auto simp: pool(3) set_ordered_insert [OF nk])
  ultimately show thesis using that [OF k(1) s(2) i] by simp
qed

lemma ok_latched:
  assumes "cluster_ok tot c out" "has_chunk c l"
  obtains g c' where "allocate_latched (n, l, t) c = Some (g, c')" "cluster_ok tot c' ((t, g) # out)"
proof (cases "remote_mem_pool (remote_pools c (n, l, t)) = []")
  case True
  then have none: "last_element_slot (remote_chunk_size t) (remote_pools c (n, l, t)) = None" by (simp add: last_element_slot_def)
  let ?c1 = "snd (Remote_Memory_Register Alloc_Granu (n, l, t) c)"
  obtain i g p where "last_element_slot (remote_chunk_size t) (remote_pools ?c1 (n, l, t)) = Some (i, g, p)" "cluster_ok tot (put_pool (n, l, t) p ?c1) ((t, g) # out)"
    by (rule slot_of_new_chunk [OF assms, of n t])
  then show thesis using that none by (simp add: allocate_latched_def)
next
  case False
  let ?key = "gval (last (remote_mem_pool (remote_pools c (n, l, t))))"
  obtain a i a' where s: "map_of (Bitmap_map (remote_pools c (n, l, t))) ?key = Some a" "allocate_memory_slot a = (i, a')"
      "last_element_slot (remote_chunk_size t) (remote_pools c (n, l, t))
        = Some (i, slot_gaddr (gptr_ori a) i (remote_chunk_size t), remote_pools (pop_slot (n, l, t) ?key a' c) (n, l, t))"
    using last_slot_pop [OF assms(1) False] .
  note P = ok_pop [OF assms(1) map_of_SomeD [OF s(1)] s(2)]
  show thesis
  proof (cases "0 \<le> i")
    case True
    then show thesis using that P s(3) by (simp add: allocate_latched_def given_after_def)
  next
    case False
    then have c: "cluster_ok tot (pop_slot (n, l, t) ?key a' c) out" "has_chunk (pop_slot (n, l, t) ?key a' c) l"
      using P assms(2) by (simp_all add: given_after_def)
    let ?c1 = "snd (Remote_Memory_Register Alloc_Granu (n, l, t) (pop_slot (n, l, t) ?key a' c))"
    obtain j g p where "last_element_slot (remote_chunk_size t) (remote_pools ?c1 (n, l, t)) = Some (j, g, p)" "cluster_ok tot (put_pool (n, l, t) p ?c1) ((t, g) # out)"
      by (rule slot_of_new_chunk [OF c, of n t])
    then show thesis using that s(3) False by (simp add: allocate_latched_def)
  qed
qed

lemma ok_failover:
  assumes "cluster_ok tot c out"
  shows "cluster_ok tot (c\<lparr>groups := RemoveFailedMemoryNodeFromLogicalGroups f (groups c)\<rparr>) out"
proof -
  obtain left where ok: "replicas_ok left c" "pools_ok left tot c" "\<forall>l. left l \<le> tot l" "fits_offset tot" "given_ok c out"
    using assms unfolding cluster_ok_def by blast
  have "replicas_ok left (c\<lparr>groups := RemoveFailedMemoryNodeFromLogicalGroups f (groups c)\<rparr>)"
    using ok(1) by (auto simp: replicas_ok_def GetReplicaSet_RemoveFailed distinct_map_filter)
      (simp add: RemoveFailedMemoryNodeFromLogicalGroups_def)
  moreover have "pools_ok left tot (c\<lparr>groups := x\<rparr>)" "given_ok (c\<lparr>groups := x\<rparr>) out" for x
    using ok(2,5) by (simp_all add: pools_ok_def pool_keys_def given_ok_def slot_in_use_def)
  ultimately show ?thesis using ok(3,4) unfolding cluster_ok_def by blast
qed

lemma ok_first:
  assumes "cluster_ok tot c out" "has_chunk c l"
  shows "cluster_ok tot (register_first (n, l, t) c) out"
  using assms(1) ok_register [OF assms, of n t] by (metis register_first_def prod.collapse)

lemma ok_step:
  assumes "alloc_step (c, out) (c', out')" "cluster_ok tot c out"
  shows "cluster_ok tot c' out'"
  using assms(1)
proof (cases rule: alloc_step.cases)
  case first_chunk
  then show ?thesis using ok_first [OF assms(2)] by simp
next
  case scan_chunk
  then show ?thesis using ok_pop [OF assms(2)] by simp
next
  case (latched t l n g)
  then show ?thesis using ok_latched [OF assms(2), of l n t] by auto
next
  case failover
  then show ?thesis using ok_failover [OF assms(2)] by simp
qed

lemma ok_run:
  assumes "alloc_run x y" "cluster_ok tot (fst x) (snd x)"
  shows "cluster_ok tot (fst y) (snd y)"
  using assms
proof (induction rule: alloc_run.induct)
  case (alloc_cons x y z)
  then show ?case using ok_step [of "fst x" "snd x" "fst y" "snd y"] by simp
qed

text \<open>A call is a sequence of these steps.\<close>

definition returned :: "Chunk_type \<Rightarrow> GlobalAddress option \<Rightarrow> (Chunk_type \<times> GlobalAddress) list \<Rightarrow> (Chunk_type \<times> GlobalAddress) list" where
  "returned t r out = (case r of None \<Rightarrow> out | Some g \<Rightarrow> (t, g) # out)"

lemma map_update_middle: "k \<notin> fst ` set xs \<Longrightarrow> map_update k v (xs @ (k, a) # ys) = xs @ (k, v) # ys"
  by (induction xs) auto

lemma scan_run:
  assumes "cluster_ok tot c out" "remote_type t" "Bitmap_map (remote_pools c (n, l, t)) = pre @ m" "scan_regions (remote_chunk_size t) m = (r, m')"
  shows "alloc_run (c, out) (put_pool (n, l, t) ((remote_pools c (n, l, t))\<lparr>Bitmap_map := pre @ m'\<rparr>) c, returned t r out)
    \<and> (r = None \<longrightarrow> (\<forall>x \<in> set m. used_slots (snd x) = {..<element_size (snd x)}))"
  using assms
proof (induction m arbitrary: pre c out m')
  case Nil
  have "(remote_pools c (n, l, t))\<lparr>Bitmap_map := pre\<rparr> = remote_pools c (n, l, t)" using Nil.prems(3) by (cases "remote_pools c (n, l, t)") simp
  then have "put_pool (n, l, t) ((remote_pools c (n, l, t))\<lparr>Bitmap_map := pre\<rparr>) c = c" by (simp add: put_pool_def)
  then show ?case using Nil.prems(4) by (simp add: returned_def alloc_nil)
next
  case (Cons x m)
  obtain k a i a' where x: "x = (k, a)" "allocate_memory_slot a = (i, a')" by (metis surj_pair)
  obtain left where "pools_ok left tot c" using Cons.prems(1) unfolding cluster_ok_def by blast
  from pools_okD(1) [OF this, of l t n] have k: "k \<notin> fst ` set pre" and s: "slots_ok a"
    using Cons.prems(3) x(1) by (auto simp: pool_ok_def array_ok_def)
  have mem: "(k, a) \<in> set (Bitmap_map (remote_pools c (n, l, t)))" using Cons.prems(3) x(1) by simp
  note step = scan_chunk [OF Cons.prems(2) mem x(2)] and P = ok_pop [OF Cons.prems(1) mem x(2)]
  have pop: "pop_slot (n, l, t) k a' c = put_pool (n, l, t) ((remote_pools c (n, l, t))\<lparr>Bitmap_map := pre @ (k, a') # m\<rparr>) c"
    using Cons.prems(3) x(1) map_update_middle [OF k] by (simp add: pop_slot_def)
  have g: "gptr_ori a' = gptr_ori a" using allocate_slot_frame [OF x(2)] by simp
  show ?case
  proof (cases "0 \<le> i")
    case True
    then have "r = Some (slot_gaddr (gptr_ori a) i (remote_chunk_size t))" "m' = (k, a') # m" using Cons.prems(4) x g by auto
    then show ?thesis using alloc_cons [OF step alloc_nil] True pop by (simp add: given_after_def returned_def)
  next
    case False
    then obtain m1 where m1: "scan_regions (remote_chunk_size t) m = (r, m1)" "m' = (k, a') # m1"
      using Cons.prems(4) x by (auto split: prod.splits)
    have "cluster_ok tot (pop_slot (n, l, t) k a' c) out" using P False by (simp add: given_after_def)
    from Cons.IH [OF this Cons.prems(2) _ m1(1), of "pre @ [(k, a')]"] have
      "alloc_run (pop_slot (n, l, t) k a' c, out) (put_pool (n, l, t) ((remote_pools c (n, l, t))\<lparr>Bitmap_map := pre @ m'\<rparr>) c, returned t r out)
        \<and> (r = None \<longrightarrow> (\<forall>x \<in> set m. used_slots (snd x) = {..<element_size (snd x)}))"
      by (simp add: pop put_pool_def m1(2))
    moreover have "used_slots a = {..<element_size a}" using iu.alloc_full [OF s x(2)] False by simp
    ultimately show ?thesis using alloc_cons [OF step] False x(1) by (simp add: given_after_def)
  qed
qed

lemma allocate_run:
  assumes "cluster_ok tot c out" "has_chunk c l" "remote_type t"
  obtains g c' where "Allocate_Remote_RDMA_Slot (n, l, t) c = Some (g, c')" "alloc_run (c, out) (c', (t, g) # out)"
proof -
  define c1 where "c1 = register_first (n, l, t) c"
  note s1 = first_chunk [OF assms(3,2), of out n, folded c1_def] and ok1 = ok_first [OF assms(1,2), of n t, folded c1_def]
  obtain r m where sc: "scan_regions (remote_chunk_size t) (Bitmap_map (remote_pools c1 (n, l, t))) = (r, m)" by (metis surj_pair)
  define c2 where "c2 = put_pool (n, l, t) ((remote_pools c1 (n, l, t))\<lparr>Bitmap_map := m\<rparr>) c1"
  have R: "alloc_run (c1, out) (c2, returned t r out)" "r = None \<Longrightarrow> \<forall>x \<in> set (Bitmap_map (remote_pools c1 (n, l, t))). used_slots (snd x) = {..<element_size (snd x)}"
    using scan_run [OF ok1 assms(3) _ sc, of n l "[]"] by (auto simp: c2_def)
  have call: "Allocate_Remote_RDMA_Slot (n, l, t) c = (case r of Some g \<Rightarrow> Some (g, c2) | None \<Rightarrow> allocate_latched (n, l, t) c2)"
    by (cases r) (simp_all add: Allocate_Remote_RDMA_Slot_def Let_def c1_def [symmetric] sc c2_def)
  show thesis
  proof (cases r)
    case None
    have "Bitmap_map (remote_pools c (n, l, t)) \<noteq> []"
    proof
      assume "Bitmap_map (remote_pools c (n, l, t)) = []"
      then have "c1 = snd (Remote_Memory_Register Alloc_Granu (n, l, t) c)" by (simp add: c1_def register_first_def)
      then show False using slot_of_new_chunk [OF assms(1,2), of n t] R(2) [OF None] by metis
    qed
    then have "c1 = c" by (simp add: c1_def register_first_def)
    then have "has_chunk c2 l" using assms(2) by (simp add: c2_def has_chunk_def put_pool_def cong: list.case_cong)
    moreover have "cluster_ok tot c2 out" using ok_run [OF R(1)] ok1 None by (simp add: returned_def)
    ultimately obtain g c' where l: "allocate_latched (n, l, t) c2 = Some (g, c')" using ok_latched by metis
    have "alloc_run (c2, out) (c', (t, g) # out)" using latched [OF assms(3) \<open>has_chunk c2 l\<close> l] by (blast intro: alloc_cons alloc_nil)
    then show thesis using that call l None alloc_cons [OF s1 alloc_run_trans [OF R(1)]] by (simp add: returned_def)
  next
    case (Some g)
    then show thesis using that call alloc_cons [OF s1 R(1)] by (simp add: returned_def)
  qed
qed

text \<open>A cluster after its start: every memory node has laid out and cut the regions it hosts, no compute node has memory
  yet.\<close>

definition region_chunks :: "logical_groups \<Rightarrow> u16 \<Rightarrow> nat" where
  "region_chunks gs l = (case gs l of None \<Rightarrow> 0 | Some g \<Rightarrow> if lg_bytes g = 0 then 0 else chunks_for_region g)"

definition cluster_start :: "u16 list \<Rightarrow> cluster \<Rightarrow> bool" where
  "cluster_start ids c \<longleftrightarrow> groups c 0 = None \<and> (\<forall>l. distinct (map phys_id (GetReplicaSet (groups c) l)))
    \<and> (\<forall>q. remote_pools c q = \<lparr>Bitmap_map = [], remote_mem_pool = []\<rparr>)
    \<and> (\<forall>p. \<exists>buff key. memory_nodes c p = Preregister_Memory ids buff key \<lparr>mn_id = p, mn_groups = groups c, pre_allocated_pool = (\<lambda>_. [])\<rparr>)
    \<and> fits_offset (region_chunks (groups c))"

lemma place_regions_ids: "map phys_id (snd (place_regions pid key bytes base rs)) = map phys_id rs"
  by (induction pid key bytes base rs rule: place_regions.induct) (auto simp: Let_def split: prod.splits)

definition ids_of :: "logical_groups \<Rightarrow> u16 \<Rightarrow> (u64 \<times> u16 list) option" where
  "ids_of gs l = map_option (\<lambda>g. (lg_bytes g, map phys_id (physical_regions g))) (gs l)"

lemma lay_out_frame: "mn_id (lay_out key ids base n) = mn_id n \<and> ids_of (mn_groups (lay_out key ids base n)) = ids_of (mn_groups n)"
proof (induction ids arbitrary: base n)
  case (Cons l ids)
  show ?case
  proof (cases "mn_groups n l")
    case None
    then show ?thesis using Cons.IH by simp
  next
    case (Some g)
    obtain b rs where p: "place_regions (mn_id n) key (lg_bytes g) base (physical_regions g) = (b, rs)" by (metis surj_pair)
    have "map phys_id rs = map phys_id (physical_regions g)" using place_regions_ids [of "mn_id n" key "lg_bytes g" base "physical_regions g"] p by simp
    then have "ids_of ((mn_groups n)(l \<mapsto> g\<lparr>physical_regions := rs\<rparr>)) = ids_of (mn_groups n)" using Some by (simp add: ids_of_def fun_eq_iff)
    then show ?thesis using Cons.IH Some p by (simp add: Let_def fun_upd_def)
  qed
qed simp

lemma find_by_id: "pid \<in> phys_id ` set rs \<Longrightarrow> \<exists>r. find (\<lambda>r. phys_id r = pid) rs = Some r"
  by (induction rs) auto

lemma Preregister_holds:
  assumes "r \<in> set (GetReplicaSet gs l)"
  shows "holds_chunks (Preregister_Memory ids buff key \<lparr>mn_id = phys_id r, mn_groups = gs, pre_allocated_pool = pools\<rparr>) l (region_chunks gs l)"
proof -
  define n where "n = lay_out key ids buff \<lparr>mn_id = phys_id r, mn_groups = gs, pre_allocated_pool = pools\<rparr>"
  have fr: "mn_id n = phys_id r" "ids_of (mn_groups n) = ids_of gs" using lay_out_frame by (simp_all add: n_def)
  obtain g where g: "gs l = Some g" "r \<in> set (physical_regions g)" using assms by (cases "gs l") (auto simp: GetReplicaSet_def)
  obtain h where h: "mn_groups n l = Some h" "lg_bytes h = lg_bytes g" "map phys_id (physical_regions h) = map phys_id (physical_regions g)"
    using fun_cong [OF fr(2), of l] g(1) by (auto simp: ids_of_def)
  have "phys_id r \<in> phys_id ` set (physical_regions h)" using g(2) arg_cong [OF h(3), of set] by auto
  then obtain r' where "own_region n l = Some r'" using find_by_id h(1) fr(1) by (fastforce simp: own_region_def)
  moreover have "chunks_for_region h = chunks_for_region g" using h(2) by (simp add: chunks_for_region_def)
  ultimately show ?thesis using h(1,2) g(1)
    by (simp add: Preregister_Memory_def n_def [symmetric] Let_def holds_chunks_def fill_pool_def region_chunks_def word_greater_zero_iff)
qed

lemma start_ok:
  assumes "cluster_start ids c"
  shows "cluster_ok (region_chunks (groups c)) c []"
proof -
  have "replicas_ok (region_chunks (groups c)) c"
    using assms Preregister_holds unfolding cluster_start_def replicas_ok_def by metis
  moreover have "pools_ok (region_chunks (groups c)) (region_chunks (groups c)) c"
    using assms by (simp add: cluster_start_def pools_ok_def pool_ok_def pool_keys_def)
  ultimately show ?thesis using assms unfolding cluster_ok_def cluster_start_def given_ok_def by auto
qed

lemma TOPAGE_in_slot:
  assumes "unat (goffset g) = j * Alloc_Granu + i * kLeafPageSize" "i * kLeafPageSize + kLeafPageSize \<le> Alloc_Granu" "d < kLeafPageSize"
    "j * Alloc_Granu + Alloc_Granu \<le> 2 ^ 48"
  shows "TOPAGE (GADD g (int d)) = g"
proof -
  have lt: "unat (goffset g) + d < 2 ^ 48" using assms by linarith
  then have u: "unat (goffset (GADD g (int d))) = j * Alloc_Granu + (i * kLeafPageSize + d)"
    by (simp add: GADD_def unat_word_ariths unsigned_of_nat take_bit_nat_eq_self assms(1))
  have x: "i * kLeafPageSize + d < Alloc_Granu" using assms(2,3) by linarith
  then have "(j * Alloc_Granu + (i * kLeafPageSize + d)) div Alloc_Granu = j" "(j * Alloc_Granu + (i * kLeafPageSize + d)) mod Alloc_Granu = i * kLeafPageSize + d"
    by (simp_all add: div_mult_self3)
  moreover have "(i * kLeafPageSize + d) div kLeafPageSize = i" using assms(3) by simp
  ultimately have "page_base (j * Alloc_Granu + (i * kLeafPageSize + d)) = j * Alloc_Granu + i * kLeafPageSize" by (simp add: page_base_def)
  then have "unat (goffset (TOPAGE (GADD g (int d)))) = unat (goffset g)" using TOPAGE_page_base(2) [of "GADD g (int d)"] u assms(1) by simp
  moreover have "nodeID (TOPAGE (GADD g (int d))) = nodeID g" using TOPAGE_page_base(1) [of "GADD g (int d)"] by (simp add: GADD_def)
  ultimately show ?thesis by (simp add: GlobalAddress.expand word_unat_eq_iff)
qed

lemma given_place:
  assumes "cluster_ok tot c out" "x \<in> set out"
  obtains n key a i j where "(key, a) \<in> set (Bitmap_map (remote_pools c (n, nodeID (snd x), fst x)))" "i < element_size a"
    "snd x = slot_gaddr (gptr_ori a) (int i) (remote_chunk_size (fst x))" "j < tot (nodeID (snd x))"
    "unat (goffset (snd x)) = j * Alloc_Granu + i * remote_chunk_size (fst x)" "i * remote_chunk_size (fst x) + remote_chunk_size (fst x) \<le> Alloc_Granu"
proof -
  obtain left where ok: "fits_offset tot" "pools_ok left tot c" "given_ok c out" using assms(1) unfolding cluster_ok_def by blast
  obtain n key a i where a: "(key, a) \<in> set (Bitmap_map (remote_pools c (n, nodeID (snd x), fst x)))" "i \<in> used_slots a"
      "snd x = slot_gaddr (gptr_ori a) (int i) (remote_chunk_size (fst x))"
    using ok(3) assms(2) unfolding given_ok_def slot_in_use_def by blast
  note arr = pools_okD(2) [OF ok(2) a(1)]
  have "slots_ok a" using arr by (simp add: array_ok_def)
  then have i: "i < element_size a" using iu.used_range [of a] a(2) by auto
  obtain j where "j < tot (nodeID (snd x))" "unat (goffset (snd x)) = j * Alloc_Granu + i * remote_chunk_size (fst x)"
      "i * remote_chunk_size (fst x) + remote_chunk_size (fst x) \<le> Alloc_Granu"
    by (rule slot_place [OF arr i ok(1), folded a(3)])
  then show thesis by (rule that [OF a(1) i a(3)])
qed

lemma given_disjoint:
  assumes "cluster_ok tot c out" "x \<in> set out" "y \<in> set out" "x \<noteq> y" "nodeID (snd y) = nodeID (snd x)"
  shows "range_of x \<inter> range_of y = {}"
proof (rule ccontr)
  assume "range_of x \<inter> range_of y \<noteq> {}"
  then obtain p where p: "p \<in> range_of (fst x, snd x)" "p \<in> range_of (fst y, snd y)" by auto
  obtain left where inv: "fits_offset tot" "pools_ok left tot c" using assms(1) unfolding cluster_ok_def by blast
  obtain n key a k where a: "(key, a) \<in> set (Bitmap_map (remote_pools c (n, nodeID (snd x), fst x)))" "k < element_size a"
      "snd x = slot_gaddr (gptr_ori a) (int k) (remote_chunk_size (fst x))"
    by (rule given_place [OF assms(1,2)])
  obtain n' key' b k' where b: "(key', b) \<in> set (Bitmap_map (remote_pools c (n', nodeID (snd x), fst y)))" "k' < element_size b"
      "snd y = slot_gaddr (gptr_ori b) (int k') (remote_chunk_size (fst y))"
    by (rule given_place [OF assms(1,3), unfolded assms(5)])
  note S = slots_overlap [OF inv(2,1) a(1,2) b(1,2) p(1) [unfolded a(3)] p(2) [unfolded b(3)]]
  have "fst y = fst x" using S(1) by simp
  moreover have "snd x = snd y" using a(3) b(3) S(3,4) calculation by simp
  ultimately show False using assms(4) by (simp add: prod_eq_iff)
qed

lemma given_in_region:
  assumes "cluster_ok tot c out" "x \<in> set out"
  shows "range_of x \<subseteq> {..<tot (nodeID (snd x)) * Alloc_Granu}"
proof -
  obtain i j where j: "j < tot (nodeID (snd x))" "unat (goffset (snd x)) = j * Alloc_Granu + i * remote_chunk_size (fst x)"
      "i * remote_chunk_size (fst x) + remote_chunk_size (fst x) \<le> Alloc_Granu"
    by (rule given_place [OF assms])
  have "j * Alloc_Granu + Alloc_Granu \<le> tot (nodeID (snd x)) * Alloc_Granu" using mult_le_mono1 [OF Suc_leI [OF j(1)], of Alloc_Granu] by simp
  then show ?thesis using j(2,3) by (auto simp: range_of_def)
qed

lemma given_TOPAGE:
  assumes "cluster_ok tot c out" "(Regular_Page, g) \<in> set out" "d < kLeafPageSize"
  shows "TOPAGE (GADD g (int d)) = g"
proof -
  have cs: "remote_chunk_size Regular_Page = kLeafPageSize" by (simp add: remote_chunk_size_def)
  obtain i j where j: "j < tot (nodeID g)" "unat (goffset g) = j * Alloc_Granu + i * kLeafPageSize" "i * kLeafPageSize + kLeafPageSize \<le> Alloc_Granu"
    by (rule given_place [OF assms(1,2), unfolded fst_conv snd_conv cs])
  have "fits_offset tot" using assms(1) by (simp add: cluster_ok_def)
  from fits_chunk [OF this j(1)] show ?thesis by (rule TOPAGE_in_slot [OF j(2,3) assms(3)])
qed


text \<open>A cluster with one region of a gigabyte on one memory node.\<close>

definition small_cluster :: cluster where
  "small_cluster = (let gs = [1 \<mapsto> \<lparr>physical_regions = [\<lparr>phys_id = 1, base_ptr = 0, rkey = 0\<rparr>], lg_bytes = 1073741824\<rparr>] in
    \<lparr>groups = gs, memory_nodes = (\<lambda>p. Preregister_Memory [1] 4096 7 \<lparr>mn_id = p, mn_groups = gs, pre_allocated_pool = (\<lambda>_. [])\<rparr>),
     remote_pools = (\<lambda>_. \<lparr>Bitmap_map = [], remote_mem_pool = []\<rparr>)\<rparr>)"

lemma small_cluster_start: "cluster_start [1] small_cluster" "has_chunk small_cluster 1"
proof -
  let ?gs = "groups small_cluster"
  have gs: "?gs = [1 \<mapsto> \<lparr>physical_regions = [\<lparr>phys_id = 1, base_ptr = 0, rkey = 0\<rparr>], lg_bytes = 1073741824\<rparr>]" by (simp add: small_cluster_def Let_def)
  have rs: "GetReplicaSet ?gs l = (if l = 1 then [\<lparr>phys_id = 1, base_ptr = 0, rkey = 0\<rparr>] else [])" for l by (simp add: gs GetReplicaSet_def)
  have ch: "region_chunks ?gs l = (if l = 1 then 2 else 0)" for l by (simp add: gs region_chunks_def chunks_for_region_def Alloc_Granu_def)
  have mn: "memory_nodes small_cluster p = Preregister_Memory [1] 4096 7 \<lparr>mn_id = p, mn_groups = ?gs, pre_allocated_pool = (\<lambda>_. [])\<rparr>" for p
    by (simp add: small_cluster_def Let_def)
  show "cluster_start [1] small_cluster"
    unfolding cluster_start_def mn by (auto simp: rs ch fits_offset_def Alloc_Granu_def) (simp_all add: small_cluster_def Let_def)
  have "holds_chunks (memory_nodes small_cluster 1) 1 2"
    using Preregister_holds [of "\<lparr>phys_id = 1, base_ptr = 0, rkey = 0\<rparr>" ?gs 1 "[1]" 4096 7 "\<lambda>_. []"] by (simp add: rs ch mn)
  then show "has_chunk small_cluster 1" by (auto simp: has_chunk_def rs holds_chunks_def)
qed



section \<open>No memory left\<close>

lemma allocate_from_full: "free_list a = [] \<Longrightarrow> allocate_memory_slot a = (- 1, a\<lparr>Array_used_up := True\<rparr>)"
  by (cases "Array_used_up a") (simp_all add: allocate_memory_slot_def)

definition mark_used_up :: "u64 \<times> In_Use_Array \<Rightarrow> u64 \<times> In_Use_Array" where
  "mark_used_up x = (fst x, (snd x)\<lparr>Array_used_up := True\<rparr>)"

lemma scan_full: "\<forall>x \<in> set m. free_list (snd x) = [] \<Longrightarrow> scan_regions k m = (None, map mark_used_up m)"
  by (induction m) (auto simp: allocate_from_full mark_used_up_def)

lemma map_of_mark_used_up: "map_of (map mark_used_up m) k = map_option (\<lambda>a. a\<lparr>Array_used_up := True\<rparr>) (map_of m k)"
  by (induction m) (auto simp: mark_used_up_def)

lemma ask_replicas_empty:
  "\<forall>r \<in> set rs. pre_allocated_pool (ms (phys_id r)) l = [] \<Longrightarrow> ask_replicas l rs ms = (replicate (length rs) GlobalAddress_Null, ms)"
  by (induction rs) (simp_all add: create_mr_1GB_handler_def)

lemma last_slot_full:
  assumes "remote_mem_pool p \<noteq> []" "map_of (Bitmap_map p) (gval (last (remote_mem_pool p))) = Some a" "free_list a = []"
  shows "\<exists>m. last_element_slot k p = Some (- 1, slot_gaddr (last (remote_mem_pool p)) (- 1) k, p\<lparr>Bitmap_map := m\<rparr>)
    \<and> map_of m (gval (last (remote_mem_pool p))) = Some (a\<lparr>Array_used_up := True\<rparr>)"
proof -
  let ?m = "map_update (gval (last (remote_mem_pool p))) (a\<lparr>Array_used_up := True\<rparr>) (Bitmap_map p)"
  have "gval (last (remote_mem_pool p)) \<in> fst ` set (Bitmap_map p)" using map_of_SomeD [OF assms(2)] by force
  then have "map_of ?m (gval (last (remote_mem_pool p))) = Some (a\<lparr>Array_used_up := True\<rparr>)" by (simp add: map_of_map_update)
  then show ?thesis using assms by (intro exI [of _ ?m]) (simp add: last_element_slot_def allocate_from_full Let_def)
qed

lemma page_before_chunk:
  assumes "Suc i * Alloc_Granu < 2 ^ 48"
  shows "unat (goffset (slot_gaddr (chunk_base l (Suc i)) (- 1) kLeafPageSize)) = i * Alloc_Granu + (Alloc_Granu - kLeafPageSize)"
proof -
  have "(of_nat (Suc i * Alloc_Granu) - of_nat kLeafPageSize :: 48 word) = of_nat (i * Alloc_Granu + (Alloc_Granu - kLeafPageSize))"
    by (subst of_nat_diff [symmetric]) (simp_all add: Alloc_Granu_def kLeafPageSize_def)
  moreover have "unat (of_nat (i * Alloc_Granu + (Alloc_Granu - kLeafPageSize)) :: 48 word) = i * Alloc_Granu + (Alloc_Granu - kLeafPageSize)"
    using assms by (intro unat_of_nat_small) simp
  ultimately show ?thesis by (simp add: slot_gaddr_def chunk_base_def del: of_nat_mult of_nat_add of_nat_diff)
qed

lemma last_page_of_chunk:
  assumes "Suc i * Alloc_Granu < 2 ^ 48"
  shows "unat (goffset (slot_gaddr (chunk_base l i) (int (Alloc_Granu div kLeafPageSize - 1)) kLeafPageSize)) = i * Alloc_Granu + (Alloc_Granu div kLeafPageSize - 1) * kLeafPageSize"
proof -
  let ?x = "i * Alloc_Granu + (Alloc_Granu div kLeafPageSize - 1) * kLeafPageSize"
  have "goffset (slot_gaddr (chunk_base l i) (int (Alloc_Granu div kLeafPageSize - 1)) kLeafPageSize) = of_nat ?x"
    by (simp add: slot_gaddr_def chunk_base_def del: of_nat_diff)
  moreover have "?x < 2 ^ 48" using assms by (simp add: Alloc_Granu_def kLeafPageSize_def)
  ultimately show ?thesis by (simp add: unat_of_nat_small del: of_nat_mult of_nat_add of_nat_diff)
qed


text \<open>Two chunks of region 1, both used up, and a memory node without chunks.\<close>

definition used_up_array :: "nat \<Rightarrow> In_Use_Array" where
  "used_up_array i = (In_Use_Array_remote (Alloc_Granu div kLeafPageSize) kLeafPageSize (chunk_base 1 i))\<lparr>free_list := []\<rparr>"

definition full_cluster :: cluster where
  "full_cluster = \<lparr>groups = [1 \<mapsto> \<lparr>physical_regions = [\<lparr>phys_id = 1, base_ptr = 0, rkey = 0\<rparr>], lg_bytes = 1073741824\<rparr>],
     memory_nodes = (\<lambda>p. \<lparr>mn_id = p, mn_groups = Map.empty, pre_allocated_pool = (\<lambda>_. [])\<rparr>),
     remote_pools = (\<lambda>_. \<lparr>Bitmap_map = [(gval (chunk_base 1 0), used_up_array 0), (gval (chunk_base 1 1), used_up_array 1)],
                           remote_mem_pool = [chunk_base 1 0, chunk_base 1 1]\<rparr>)\<rparr>"


end
