(* ===== verification/Mvocc.thy ===== *)
theory Mvocc
  imports Delta_Section Allocator "HOL-Library.AList" "HOL-Library.Sublist"
begin

text \<open>
  The multi-version optimistic concurrency control of a compute node (\<^verbatim>\<open>txn/TransactionManagerMVOCC.cpp\<close>,
  \<^verbatim>\<open>txn/TransactionManager.h\<close>, \<^verbatim>\<open>txn/GlobalTimestamp.cpp\<close>): timestamps and pinned snapshots, reading a tuple at a
  snapshot, validation and commit, the redo records of a commit, and the floor of the garbage collection.
\<close>


section \<open>State\<close>

datatype ISOLATION_LEVEL = READ_COMMITTED | READ_UNCOMMITTED | REPEATABLE_READ | SNAPSHOT_ISOLATION | SERIALIZABLE

record Access =
  access_type :: AccessType
  txn_local_tuple :: Record
  access_addr :: GlobalAddress
  primary_key_buffer :: "byte list"

text \<open>The calls of the latch layer, in the order they are made.  A call returns with the page latched, so the page of a
  latched tuple is the one in \<open>data_pages\<close>.\<close>

datatype latch_call =
    SELCC_Shared_Lock GlobalAddress
  | SELCC_Shared_UnLock GlobalAddress
  | SELCC_Exclusive_Lock GlobalAddress
  | SELCC_Exclusive_UnLock GlobalAddress
  | SELCC_Lock_Upgrade GlobalAddress

type_synonym sections = "(GlobalAddress \<times> DeltaSectionWrap) list"

text \<open>The members of the transaction manager of a thread together with the static ones of the node.  \<open>ds_for_write\<close> is the
  address of the node's own section.  The ordered maps are sorted lists.\<close>

record TransactionManager =
  node_id :: nat
  local_ts_next :: u64
  largest_sp_acquired :: u64
  pined_snapshot_this_node :: "(u64 \<times> nat) list"
  cluster_least_sp :: "(nat \<times> u64) list"
  delta_sections :: sections
  ds_for_write :: GlobalAddress
  snapshot_ts :: u64
  is_first_access :: bool
  pure_read_txn :: bool
  have_rolled_back :: bool
  plain_occ :: bool
  max_seen_ts :: u64
  isolation_level :: ISOLATION_LEVEL
  log_enabled :: bool
  access_list :: "Access list"
  locked_handles :: "(GlobalAddress \<times> AccessType) list"
  data_pages :: "GlobalAddress \<Rightarrow> mem"
  txn_log :: "log_append list"
  pri_index :: "(byte list \<times> GlobalAddress) list"
  latch_calls :: "latch_call list"

definition call :: "latch_call \<Rightarrow> TransactionManager \<Rightarrow> TransactionManager" where
  "call c tm = tm\<lparr>latch_calls := latch_calls tm @ [c]\<rparr>"

section \<open>Timestamps and snapshots\<close>

definition FetchAddMonotoneTimestamp :: "TransactionManager \<Rightarrow> u64 \<times> TransactionManager" where
  "FetchAddMonotoneTimestamp tm = (local_ts_next tm, tm\<lparr>local_ts_next := local_ts_next tm + 1\<rparr>)"

definition GetMonotoneTimestamp :: "TransactionManager \<Rightarrow> u64" where
  "GetMonotoneTimestamp tm = local_ts_next tm"

definition EnsureCommitFloor :: "u64 \<Rightarrow> TransactionManager \<Rightarrow> TransactionManager" where
  "EnsureCommitFloor minimum tm =
    (if minimum = 0 then tm else if local_ts_next tm < minimum then tm\<lparr>local_ts_next := minimum\<rparr> else tm)"

definition GetSnapshot :: "TransactionManager \<Rightarrow> TransactionManager" where
  "GetSnapshot tm =
    (let ts = GetMonotoneTimestamp tm;
         pins = (case map_of (pined_snapshot_this_node tm) ts of
                   None \<Rightarrow> ordered_insert ts 1 (pined_snapshot_this_node tm)
                 | Some n \<Rightarrow> AList.update ts ((n + 1) mod 2 ^ 16) (pined_snapshot_this_node tm))
     in tm\<lparr>snapshot_ts := ts, largest_sp_acquired := (if largest_sp_acquired tm < ts then ts else largest_sp_acquired tm),
           pined_snapshot_this_node := pins\<rparr>)"

definition ReleaseSnapshot :: "TransactionManager \<Rightarrow> TransactionManager" where
  "ReleaseSnapshot tm =
    (let ts = snapshot_ts tm; pins = pined_snapshot_this_node tm
     in tm\<lparr>pined_snapshot_this_node := (case map_of pins ts of
               Some n \<Rightarrow> if n = 1 then AList.delete ts pins else AList.update ts (n - 1) pins
             | None \<Rightarrow> ordered_insert ts (2 ^ 16 - 1) pins),
           snapshot_ts := 0\<rparr>)"

definition ClearStates :: "TransactionManager \<Rightarrow> TransactionManager" where
  "ClearStates tm =
    (let tm = tm\<lparr>locked_handles := []\<rparr>;
         tm = (if \<not> is_first_access tm then ReleaseSnapshot tm else tm)
     in tm\<lparr>is_first_access := True, pure_read_txn := True, have_rolled_back := False, snapshot_ts := 0, plain_occ := False\<rparr>)"

definition RegisterSeenTs :: "u64 \<Rightarrow> TransactionManager \<Rightarrow> TransactionManager" where
  "RegisterSeenTs ts tm = (if max_seen_ts tm < ts then tm\<lparr>max_seen_ts := ts\<rparr> else tm)"

text \<open>The latches that a transaction holds at its end are released.\<close>

definition release_handle :: "GlobalAddress \<times> AccessType \<Rightarrow> TransactionManager \<Rightarrow> TransactionManager" where
  "release_handle h = call (if snd h = READ_ONLY then SELCC_Shared_UnLock (fst h) else SELCC_Exclusive_UnLock (fst h))"

definition AbortTransaction :: "TransactionManager \<Rightarrow> TransactionManager" where
  "AbortTransaction tm =
    (let tm = tm\<lparr>access_list := []\<rparr>;
         tm = fold release_handle (locked_handles tm) tm;
         tm = (if max_seen_ts tm \<noteq> 0 then EnsureCommitFloor (max_seen_ts tm + 1) tm else tm)
     in ClearStates tm)"


section \<open>Reading a tuple\<close>

definition tuple_offset :: "GlobalAddress \<Rightarrow> nat" where
  "tuple_offset a = unat (goffset a) - unat (goffset (TOPAGE a))"

text \<open>The record whose buffer is the tuple in its page.\<close>

definition global_record :: "RecordSchema \<Rightarrow> GlobalAddress \<Rightarrow> TransactionManager \<Rightarrow> Record" where
  "global_record s a tm = Record_new s (\<lambda>x. data_pages tm (TOPAGE a) (tuple_offset a + x))"

text \<open>The sections are ordered by descending address, so this is \<^verbatim>\<open>lower_bound\<close>.\<close>

definition section_of :: "GlobalAddress \<Rightarrow> sections \<Rightarrow> (GlobalAddress \<times> DeltaSectionWrap) option" where
  "section_of g secs = find (\<lambda>e. \<not> g < fst e) secs"

definition place_in :: "GlobalAddress \<Rightarrow> DeltaSectionWrap \<Rightarrow> nat" where
  "place_in g w = unat (goffset g) - unat (goffset (seg_addr w)) - DS_HEADER"

text \<open>\<open>owners\<close> gives the sections as their owners have them; a section of this node is never pulled.\<close>

definition fetch_delta ::
  "(GlobalAddress \<Rightarrow> DeltaSectionWrap) \<Rightarrow> nat \<Rightarrow> GlobalAddress \<Rightarrow> nat \<Rightarrow> sections \<Rightarrow> ((nat \<times> DeltaSectionWrap) \<times> sections) option" where
  "fetch_delta owners node prev_delta epoch secs =
    (case section_of prev_delta secs of None \<Rightarrow> None
     | Some (g, w) \<Rightarrow>
         let offset = place_in prev_delta w in
         if is_empty w \<or> \<not> isOffsetValid offset epoch w then
           if owner_compute_node_id w \<noteq> node then
             (case PullUpdates (owners g) w of None \<Rightarrow> None
              | Some w \<Rightarrow> Some ((offset, w), AList.update g w secs))
           else Some ((offset, w), secs)
         else if isOffsetDangerous offset w then None
         else Some ((offset, w), secs))"

text \<open>The loop that rolls a record back to the snapshot.  \<open>None\<close> as a record: the tuple did not exist.\<close>

partial_function (option) rollback_loop ::
  "(GlobalAddress \<Rightarrow> DeltaSectionWrap) \<Rightarrow> nat \<Rightarrow> u64 \<Rightarrow> Record \<Rightarrow> sections \<Rightarrow> (Record option \<times> sections) option" where
  "rollback_loop owners node snapshot record secs =
    (if \<not> snapshot < GetWTS record then Some (Some record, secs)
     else let meta = GetMeta record in
       if prev_version meta = GlobalAddress_Null then Some (None, secs)
       else case fetch_delta owners node (prev_version meta) (unat (prev_delta_epoch meta)) secs of None \<Rightarrow> None
         | Some d \<Rightarrow> rollback_loop owners node snapshot (roll_back (fst (fst d)) (ds_local (snd (fst d))) record) (snd d))"

definition latch_tuple :: "AccessType \<Rightarrow> GlobalAddress \<Rightarrow> TransactionManager \<Rightarrow> TransactionManager" where
  "latch_tuple t page tm = (case t of
      READ_ONLY \<Rightarrow> call (SELCC_Shared_Lock page) tm
    | SCAN_READ \<Rightarrow>
        if map_of (locked_handles tm) page = None then
          let tm = (case locked_handles tm of [] \<Rightarrow> tm | h # hs \<Rightarrow> (call (SELCC_Shared_UnLock (fst h)) tm)\<lparr>locked_handles := []\<rparr>)
          in (call (SELCC_Shared_Lock page) tm)\<lparr>locked_handles := [(page, SCAN_READ)]\<rparr>
        else tm
    | _ \<Rightarrow> call (SELCC_Exclusive_Lock page) (tm\<lparr>pure_read_txn := False\<rparr>))"

definition unlatch_tuple :: "AccessType \<Rightarrow> GlobalAddress \<Rightarrow> TransactionManager \<Rightarrow> TransactionManager" where
  "unlatch_tuple t page tm = (case t of
      READ_ONLY \<Rightarrow> call (SELCC_Shared_UnLock page) tm
    | SCAN_READ \<Rightarrow> tm
    | _ \<Rightarrow> call (SELCC_Exclusive_UnLock page) tm)"

definition early_abort :: "AccessType \<Rightarrow> u64 \<Rightarrow> TransactionManager \<Rightarrow> bool" where
  "early_abort t ts tm \<longleftrightarrow>
    isolation_level tm = SERIALIZABLE \<and> \<not> pure_read_txn tm \<and> have_rolled_back tm \<and> snapshot_ts tm < ts
    \<or> isolation_level tm = SNAPSHOT_ISOLATION \<and> t = READ_WRITE \<and> snapshot_ts tm < ts"

text \<open>The result is the return value and the record handed to the caller, which an abort has freed.\<close>

definition SelectRecordCC ::
  "(GlobalAddress \<Rightarrow> DeltaSectionWrap) \<Rightarrow> RecordSchema \<Rightarrow> GlobalAddress \<Rightarrow> AccessType \<Rightarrow> TransactionManager
   \<Rightarrow> (bool \<times> Record option \<times> TransactionManager) option" where
  "SelectRecordCC owners schema tuple_gaddr t tm =
    (let tm = (if is_first_access tm then (GetSnapshot tm)\<lparr>is_first_access := False\<rparr> else tm);
         page = TOPAGE tuple_gaddr;
         tm = latch_tuple t page tm;
         record = CopyFrom (global_record schema tuple_gaddr tm) (Record_new schema (\<lambda>_. 0));
         ts = GetWTS record;
         tm = RegisterSeenTs ts tm
     in if early_abort t ts tm then Some (False, None, AbortTransaction (unlatch_tuple t page tm))
        else
          let tm = (if isolation_level tm = SERIALIZABLE \<and> \<not> pure_read_txn tm \<and> snapshot_ts tm < ts \<and> \<not> have_rolled_back tm
                    then tm\<lparr>plain_occ := True\<rparr> else tm);
              tm = (if \<not> plain_occ tm \<and> snapshot_ts tm < ts then tm\<lparr>have_rolled_back := True\<rparr> else tm)
          in case (if plain_occ tm then Some (Some record, delta_sections tm)
                   else rollback_loop owners (node_id tm) (snapshot_ts tm) record (delta_sections tm)) of
               None \<Rightarrow> None
             | Some (None, secs) \<Rightarrow> Some (True, None, unlatch_tuple t page (tm\<lparr>delta_sections := secs\<rparr>))
             | Some (Some record, secs) \<Rightarrow>
                 let record = (if t = DELETE_ONLY then SetVisible False (PutWTS (- 1) record) else record);
                     a = \<lparr>access_type = t, txn_local_tuple = record, access_addr = tuple_gaddr, primary_key_buffer = []\<rparr>
                 in Some (True, Some record, unlatch_tuple t page (tm\<lparr>delta_sections := secs, access_list := access_list tm @ [a]\<rparr>)))"


section \<open>Commit\<close>

text \<open>The new tuple of an insertion, after its slot has been found: it is hidden until the commit.\<close>

definition write_tuple :: "GlobalAddress \<Rightarrow> Record \<Rightarrow> TransactionManager \<Rightarrow> TransactionManager" where
  "write_tuple a r tm = tm\<lparr>data_pages := (data_pages tm)(TOPAGE a :=
     store_bytes (tuple_offset a) (load_bytes 0 (GetRecordTotalSize (schema_ptr r)) (data_ptr r)) (data_pages tm (TOPAGE a)))\<rparr>"

definition AllocateNewRecord_tuple :: "RecordSchema \<Rightarrow> GlobalAddress \<Rightarrow> TransactionManager \<Rightarrow> TransactionManager" where
  "AllocateNewRecord_tuple schema tuple_gaddr tm =
    (let r = SetVisible False (PutWTS (- 1) (global_record schema tuple_gaddr tm));
         tm = write_tuple tuple_gaddr r (tm\<lparr>pure_read_txn := False\<rparr>);
         a = \<lparr>access_type = INSERT_ONLY, txn_local_tuple = CopyFrom r (Record_new schema (\<lambda>_. 0)), access_addr = tuple_gaddr, primary_key_buffer = []\<rparr>
     in tm\<lparr>access_list := access_list tm @ [a]\<rparr>)"

definition Txn_InsertRecord :: "nat \<Rightarrow> byte list \<Rightarrow> TransactionManager \<Rightarrow> TransactionManager" where
  "Txn_InsertRecord i key tm = tm\<lparr>access_list := (access_list tm)[i := (access_list tm ! i)\<lparr>primary_key_buffer := key\<rparr>]\<rparr>"

text \<open>The redo record of one tuple.  The bytes of the changed columns are those of the page, the meta data those of the
  local tuple.\<close>

definition update_payload :: "Record \<Rightarrow> nat \<Rightarrow> mem \<Rightarrow> byte list" where
  "update_payload local off page =
    (let s = schema_ptr local in
     if dirty_col_ids local \<noteq> [] then
       AddUpdateBytes
         (foldl (\<lambda>buf c. AddUpdateBytes buf (of_nat (off + GetColumnOffset s c)) (load_bytes (off + GetColumnOffset s c) (GetColumnSize s c) page) (of_nat (GetColumnSize s c)))
           Encoder_new (dirty_col_ids local))
         (of_nat (off + meta_off s)) (meta_bytes (GetMeta local)) (of_nat kMetaSize)
     else AddUpdateBytes Encoder_new (of_nat off) (load_bytes off (GetRecordTotalSize s) page) (of_nat (GetRecordTotalSize s)))"

definition LogDataUpdateOperation :: "Access \<Rightarrow> TransactionManager \<Rightarrow> TransactionManager" where
  "LogDataUpdateOperation a tm =
    (let page_gaddr = TOPAGE (access_addr a);
         page = data_pages tm page_gaddr;
         new_page_version = index_version page + 1;
         page = put_u64 P_VERSION_OFF new_page_version page;
         tm = tm\<lparr>data_pages := (data_pages tm)(page_gaddr := page)\<rparr>
     in if log_enabled tm then
          tm\<lparr>txn_log := txn_log tm @ [(nodeID (access_addr a), page_gaddr, new_page_version, update_payload (txn_local_tuple a) (tuple_offset (access_addr a)) page)]\<rparr>
        else tm)"

text \<open>The validation of the accesses in the order of their addresses.\<close>

fun sorted_access :: "Access list \<Rightarrow> nat \<Rightarrow> (u64 \<times> nat) list \<Rightarrow> (u64 \<times> nat) list" where
  "sorted_access [] i m = m"
| "sorted_access (a # as) i m = sorted_access as (i + 1) (ordered_insert (gval (access_addr a)) i m)"

definition latch_for :: "bool \<Rightarrow> AccessType \<Rightarrow> GlobalAddress \<Rightarrow> TransactionManager \<Rightarrow> TransactionManager" where
  "latch_for write t page tm = (case map_of (locked_handles tm) page of
      None \<Rightarrow> (call (if write then SELCC_Exclusive_Lock page else SELCC_Shared_Lock page) tm)\<lparr>locked_handles := locked_handles tm @ [(page, t)]\<rparr>
    | Some t' \<Rightarrow> if write \<and> t' = READ_ONLY
        then (call (SELCC_Lock_Upgrade page) tm)\<lparr>locked_handles := AList.update page t (locked_handles tm)\<rparr>
        else tm)"

fun validate :: "(u64 \<times> nat) list \<Rightarrow> TransactionManager \<Rightarrow> bool \<times> TransactionManager" where
  "validate [] tm = (True, tm)"
| "validate ((k, i) # rest) tm =
    (let a = access_list tm ! i; t = access_type a; local = txn_local_tuple a in
     if t = DELETE_ONLY \<or> t \<noteq> READ_WRITE \<and> t \<noteq> INSERT_ONLY \<and> isolation_level tm \<noteq> SERIALIZABLE then validate rest tm
     else let tm = latch_for (t = READ_WRITE \<or> t = INSERT_ONLY) t (TOPAGE (access_addr a)) tm;
              wts = GetWTS (global_record (schema_ptr local) (access_addr a) tm)
          in if GetWTS local < wts then (False, AbortTransaction (RegisterSeenTs wts tm)) else validate rest tm)"

definition own_section :: "TransactionManager \<Rightarrow> DeltaSectionWrap" where
  "own_section tm = the (map_of (delta_sections tm) (ds_for_write tm))"

text \<open>Writing one tuple; \<open>None\<close> while the ring has no room.\<close>

definition commit_access :: "u64 \<Rightarrow> Access \<Rightarrow> TransactionManager \<Rightarrow> TransactionManager option" where
  "commit_access commit_ts a tm =
    (let local = txn_local_tuple a; s = schema_ptr local in
     if access_type a = READ_WRITE \<and> dirty_col_ids local \<noteq> [] then
       (case fill_in_delta_record_single local (global_record s (access_addr a) tm) commit_ts (own_section tm) of None \<Rightarrow> None
        | Some ((delta_gadd, delta_size), w) \<Rightarrow>
            let meta = (GetMeta local)\<lparr>prev_version := delta_gadd, prev_delta_epoch := of_nat (ds_epoch w),
                                       prev_delta_data_size := of_nat delta_size, Wts := commit_ts\<rparr>;
                local = PutMeta meta (local\<lparr>dirty_col_ids := []\<rparr>);
                tm = tm\<lparr>delta_sections := AList.update (ds_for_write tm) w (delta_sections tm)\<rparr>;
                tm = LogDataUpdateOperation (a\<lparr>txn_local_tuple := local\<rparr>) tm
            in Some (write_tuple (access_addr a) local tm))
     else if access_type a = INSERT_ONLY then
       let local = PutWTS commit_ts local;
           tm = LogDataUpdateOperation (a\<lparr>txn_local_tuple := local\<rparr>) tm;
           tm = write_tuple (access_addr a) local tm
       in Some (tm\<lparr>pri_index := pri_index tm @ [(primary_key_buffer a, access_addr a)]\<rparr>)
     else Some tm)"

fun commit_accesses :: "u64 \<Rightarrow> Access list \<Rightarrow> TransactionManager \<Rightarrow> TransactionManager option" where
  "commit_accesses commit_ts [] tm = Some tm"
| "commit_accesses commit_ts (a # as) tm = (case commit_access commit_ts a tm of None \<Rightarrow> None | Some tm \<Rightarrow> commit_accesses commit_ts as tm)"

definition commit_stage :: "TransactionManager \<Rightarrow> (bool \<times> TransactionManager) option" where
  "commit_stage tm =
    (let tm = (if max_seen_ts tm \<noteq> 0 then EnsureCommitFloor (max_seen_ts tm + 1) tm else tm);
         (commit_ts, tm) = FetchAddMonotoneTimestamp tm
     in case commit_accesses commit_ts (access_list tm) tm of None \<Rightarrow> None
        | Some tm \<Rightarrow>
            let tm = fold release_handle (locked_handles tm) (tm\<lparr>access_list := []\<rparr>)
            in Some (True, (ClearStates tm)\<lparr>max_seen_ts := commit_ts\<rparr>))"

definition CommitTransaction :: "TransactionManager \<Rightarrow> (bool \<times> TransactionManager) option" where
  "CommitTransaction tm =
    (if pure_read_txn tm then
       Some (True, ClearStates (fold (\<lambda>h. call (SELCC_Shared_UnLock (fst h))) (locked_handles tm) (tm\<lparr>access_list := []\<rparr>)))
     else let (ok, tm) = validate (sorted_access (access_list tm) 0 []) tm
          in if ok then commit_stage tm else Some (False, tm))"


section \<open>Garbage collection\<close>

definition ProcessSnapshotPush :: "nat \<Rightarrow> u64 \<Rightarrow> TransactionManager \<Rightarrow> TransactionManager" where
  "ProcessSnapshotPush node least_spn tm = tm\<lparr>cluster_least_sp := AList.update node least_spn (cluster_least_sp tm)\<rparr>"

text \<open>The locals of the collector thread.\<close>

record gc_state =
  last_broadcasted_sp :: u64
  last_gc_ts :: u64
  largest_snapshot :: u64

definition least_sp_this_node :: "u64 \<Rightarrow> TransactionManager \<Rightarrow> u64" where
  "least_sp_this_node largest tm = (case pined_snapshot_this_node tm of [] \<Rightarrow> largest | p # ps \<Rightarrow> fst p)"

definition least_sp_across_cluster :: "TransactionManager \<Rightarrow> u64" where
  "least_sp_across_cluster tm = fold (\<lambda>e m. if snd e < m then snd e else m) (cluster_least_sp tm) (- 1)"

text \<open>One round of the loop.  The first step finds the least snapshot of this node and enters it; the first component of the
  result is what is broadcast.\<close>

definition announce_least_sp :: "nat \<Rightarrow> gc_state \<Rightarrow> TransactionManager \<Rightarrow> u64 option \<times> gc_state \<times> TransactionManager" where
  "announce_least_sp compute_nodes gc tm =
    (let (gc, tm) = (if largest_snapshot gc < largest_sp_acquired tm then (gc\<lparr>largest_snapshot := largest_sp_acquired tm\<rparr>, tm)
                     else let ts = GetMonotoneTimestamp tm in (gc\<lparr>largest_snapshot := ts\<rparr>, tm\<lparr>largest_sp_acquired := ts\<rparr>));
         least = least_sp_this_node (largest_snapshot gc) tm;
         msg = (if least \<noteq> last_broadcasted_sp gc then Some least else None);
         tm = (if cluster_least_sp tm = [] then tm\<lparr>cluster_least_sp := map (\<lambda>i. (2 * i, 0)) [0..<compute_nodes]\<rparr> else tm)
     in (msg, gc\<lparr>last_broadcasted_sp := least\<rparr>, tm\<lparr>cluster_least_sp := AList.update (node_id tm) least (cluster_least_sp tm)\<rparr>))"

definition GarbageCollection ::
  "nat \<Rightarrow> gc_state \<Rightarrow> TransactionManager \<Rightarrow> (u64 option \<times> gc_state \<times> TransactionManager) option" where
  "GarbageCollection compute_nodes gc tm =
    (let (msg, gc, tm) = announce_least_sp compute_nodes gc tm; least_all = least_sp_across_cluster tm
     in if last_gc_ts gc < least_all \<or> last_gc_ts gc = - 1 then
          (case GarbageCollectionBySnapshot least_all (own_section tm) of None \<Rightarrow> None
           | Some w \<Rightarrow> Some (msg, gc\<lparr>last_gc_ts := least_all\<rparr>, tm\<lparr>delta_sections := AList.update (ds_for_write tm) w (delta_sections tm)\<rparr>))
        else Some (msg, gc, tm))"

definition ProcessDeltaCreate :: "nat \<Rightarrow> DeltaSection \<Rightarrow> GlobalAddress \<Rightarrow> nat \<Rightarrow> TransactionManager \<Rightarrow> TransactionManager" where
  "ProcessDeltaCreate delta_section_size slot ds_gaddr compute_node_id tm = tm\<lparr>delta_sections :=
     (let old = delta_sections tm in
      if map_of old ds_gaddr \<noteq> None then old
      else takeWhile (\<lambda>e. ds_gaddr < fst e) old @ (ds_gaddr, DeltaSectionWrap_new compute_node_id ds_gaddr delta_section_size slot)
           # dropWhile (\<lambda>e. ds_gaddr < fst e) old)\<rparr>"

section \<open>Versions of a tuple\<close>

text \<open>The bytes \<open>bs\<close> of a delta at \<open>p\<close> turn the version \<open>r\<close> back into \<open>r'\<close>.\<close>

definition undo :: "nat \<Rightarrow> byte list \<Rightarrow> Record \<Rightarrow> Record \<Rightarrow> bool" where
  "undo p bs r r' \<longleftrightarrow> (\<forall>d n. load_bytes p (length bs) d = bs \<longrightarrow> same_tuple n r \<longrightarrow> same_tuple (roll_back p d n) r')"

text \<open>The versions of a tuple, newest first, down to the first one that is not newer than \<open>floor\<close>: each points to its
  delta in the ring, which leads to the next one.\<close>

fun version_chain :: "DeltaSectionWrap \<Rightarrow> delta list \<Rightarrow> u64 \<Rightarrow> Record list \<Rightarrow> bool" where
  "version_chain w q floor [] \<longleftrightarrow> False"
| "version_chain w q floor [r] \<longleftrightarrow> (floor < GetWTS r \<longrightarrow> prev_version (GetMeta r) = GlobalAddress_Null)"
| "version_chain w q floor (r # r' # rs) \<longleftrightarrow> GetWTS r' < GetWTS r \<and> version_chain w q floor (r' # rs)
    \<and> (floor < GetWTS r \<longrightarrow> (\<exists>p bs. (p, bs, GetWTS r) \<in> set q \<and> undo p bs r r'
         \<and> prev_version (GetMeta r) = delta_address p w \<and> unat (prev_delta_epoch (GetMeta r)) \<le> ds_epoch w))"

definition ring_placed :: "DeltaSectionWrap \<Rightarrow> bool" where
  "ring_placed w \<longleftrightarrow> danger_size w = 0 \<and> unat (goffset (seg_addr w)) + seg_real_size w + DS_HEADER < 2 ^ 48"

lemma delta_address_place:
  assumes "ring_placed w" and "p \<le> seg_real_size w"
  shows "place_in (delta_address p w) w = p" "delta_address p w \<noteq> GlobalAddress_Null" "\<not> delta_address p w < seg_addr w"
proof -
  have b: "unat (goffset (seg_addr w)) + (p + DS_HEADER) < 2 ^ 48" using assms by (simp add: ring_placed_def)
  then have "unat (of_nat (p + DS_HEADER) :: 48 word) = p + DS_HEADER" by (intro unat_of_nat_small) simp
  then have u: "unat (goffset (seg_addr w) + of_nat (p + DS_HEADER)) = unat (goffset (seg_addr w)) + (p + DS_HEADER)"
    using b by (subst unat_add_lem [THEN iffD1]) simp_all
  then show "place_in (delta_address p w) w = p" by (simp add: place_in_def delta_address_def)
  have "goffset (seg_addr w) + of_nat (p + DS_HEADER) \<noteq> 0" using u by (auto simp: DS_HEADER_def)
  then show "delta_address p w \<noteq> GlobalAddress_Null" by (simp add: delta_address_def GlobalAddress_Null_def)
  show "\<not> delta_address p w < seg_addr w"
    using u by (simp add: delta_address_def less_GlobalAddress_def word_less_nat_alt)
qed

lemma fetch_own_delta:
  assumes "ring_history w q" and "ring_placed w" and "(p, bs, ts) \<in> set q" and "epoch \<le> ds_epoch w"
  shows "fetch_delta owners node (delta_address p w) epoch [(seg_addr w, w)] = Some ((p, w), [(seg_addr w, w)])"
    and "load_bytes p (length bs) (ds_local w) = bs" and "delta_address p w \<noteq> GlobalAddress_Null"
proof -
  have I: "ring_inv w (map fst q)" "intact w (p, bs, ts)" using ring_history_inv [OF assms(1)] assms(3) by auto
  have "p \<in> set (map fst q)" using assms(3) by force
  then have c: "41 \<le> delta_size_at w p" "area w (ds_tail w < ds_head w) (ds_head w) p"
    using I(1) chain_area [of w "ds_tail w < ds_head w" "ds_head w" "map fst q" p] by (auto simp: ring_inv_def)
  have ne: "\<not> is_empty w" using I(1) assms(3) by (auto simp: ring_inv_def)
  have p: "p \<le> seg_real_size w" using c(2) I(1) by (auto simp: area_def ring_inv_def)
  have v: "isOffsetValid p epoch w" using c(2) assms(4) by (auto simp: isOffsetValid_def area_def Let_def)
  have d: "\<not> isOffsetDangerous p w" using assms(2) by (simp add: isOffsetDangerous_def ring_placed_def)
  show "fetch_delta owners node (delta_address p w) epoch [(seg_addr w, w)] = Some ((p, w), [(seg_addr w, w)])"
    using delta_address_place [OF assms(2) p] ne v d by (simp add: fetch_delta_def section_of_def)
  show "load_bytes p (length bs) (ds_local w) = bs" using I(2) unfolding intact_def prod.case by blast
  show "delta_address p w \<noteq> GlobalAddress_Null" using delta_address_place [OF assms(2) p] by simp
qed

lemma same_tuple_WTS: "same_tuple n r \<Longrightarrow> GetWTS n = GetWTS r"
  by (simp add: same_tuple_def GetWTS_def)

text \<open>The loop of the reader returns the newest version that is not newer than the snapshot.\<close>

lemma rollback_finds:
  assumes "ring_history w q" and "ring_placed w" and "version_chain w q floor vs" and "floor \<le> snapshot" and "same_tuple n (hd vs)"
  shows "\<exists>res. rollback_loop owners node snapshot n [(seg_addr w, w)] = Some (res, [(seg_addr w, w)])
    \<and> (case find (\<lambda>v. GetWTS v \<le> snapshot) vs of None \<Rightarrow> res = None | Some v \<Rightarrow> \<exists>r. res = Some r \<and> same_tuple r v)"
  using assms(3,5)
proof (induction vs arbitrary: n)
  case (Cons r rs)
  let ?secs = "[(seg_addr w, w)]"
  have wts: "GetWTS n = GetWTS r" "GetMeta n = GetMeta r" using Cons.prems(2) by (simp_all add: same_tuple_WTS) (simp add: same_tuple_def)
  show ?case
  proof (cases "GetWTS r \<le> snapshot")
    case True
    then have "\<not> snapshot < GetWTS n" using wts(1) by simp
    then have "rollback_loop owners node snapshot n ?secs = Some (Some n, ?secs)" by (subst rollback_loop.simps) (simp only: if_True simp_thms)
    then show ?thesis using True Cons.prems(2) by simp
  next
    case newer: False
    then have fl: "floor < GetWTS r" "snapshot < GetWTS r" using assms(4) by auto
    show ?thesis
    proof (cases rs)
      case Nil
      then have "prev_version (GetMeta r) = GlobalAddress_Null" using Cons.prems(1) fl(1) by simp
      then have "rollback_loop owners node snapshot n ?secs = Some (None, ?secs)" using wts fl(2) by (subst rollback_loop.simps) simp
      then show ?thesis using newer Nil by simp
    next
      case (Cons r' rs')
      obtain p bs where d: "(p, bs, GetWTS r) \<in> set q" "undo p bs r r'" "prev_version (GetMeta r) = delta_address p w"
        "unat (prev_delta_epoch (GetMeta r)) \<le> ds_epoch w"
        using Cons.prems(1) fl(1) by (auto simp: Cons)
      note F = fetch_own_delta [OF assms(1,2) d(1,4)]
      have step: "rollback_loop owners node snapshot n ?secs = rollback_loop owners node snapshot (roll_back p (ds_local w) n) ?secs"
        using wts fl(2) d(3) F by (subst rollback_loop.simps) (simp add: Let_def)
      have "same_tuple (roll_back p (ds_local w) n) (hd rs)" using d(2) F(2) Cons.prems(2) by (simp add: undo_def Cons)
      moreover have "version_chain w q floor rs" using Cons.prems(1) by (simp add: Cons)
      ultimately show ?thesis using Cons.IH newer step by simp
    qed
  qed
qed simp

section \<open>Histories of a node\<close>

text \<open>\<open>T\<close>: the addresses of the tuples, with their schemas; tuples of a page do not overlap and lie behind its header.\<close>

definition tuple_space :: "GlobalAddress set \<Rightarrow> (GlobalAddress \<Rightarrow> RecordSchema) \<Rightarrow> bool" where
  "tuple_space T sch \<longleftrightarrow> (\<forall>a \<in> T. layout_ok (sch a) \<and> DATA_OFF \<le> tuple_offset a)
    \<and> (\<forall>a \<in> T. \<forall>b \<in> T. a \<noteq> b \<longrightarrow> TOPAGE a = TOPAGE b \<longrightarrow>
         tuple_offset a + GetRecordTotalSize (sch a) \<le> tuple_offset b \<or> tuple_offset b + GetRecordTotalSize (sch b) \<le> tuple_offset a)"

lemma bytes_same_tuple:
  assumes "layout_ok (schema_ptr r')" "schema_ptr r = schema_ptr r'" "\<And>x. x < GetRecordTotalSize (schema_ptr r') \<Longrightarrow> data_ptr r x = data_ptr r' x"
  shows "same_tuple r r'"
proof -
  let ?s = "schema_ptr r'"
  have "GetMetaColumnId ?s < column_count ?s" using assms(1) by (auto simp: layout_ok_def GetMetaColumnId_def)
  then have "GetColumnOffset ?s (GetMetaColumnId ?s) + GetColumnSize ?s (GetMetaColumnId ?s) \<le> GetRecordTotalSize ?s"
    using assms(1) unfolding layout_ok_def by blast
  moreover have "GetColumnSize ?s (GetMetaColumnId ?s) = kMetaSize" using assms(1) unfolding layout_ok_def by blast
  ultimately have "meta_off ?s + 37 \<le> GetRecordTotalSize ?s" by (simp add: kMetaSize_def)
  then have "load_bytes (meta_off ?s) 37 (data_ptr r) = load_bytes (meta_off ?s) 37 (data_ptr r')"
    using assms(3) by (intro load_bytes_cong) auto
  from meta_at_cong [OF this] show ?thesis using assms(2,3) by (simp add: same_tuple_def GetMeta_def)
qed

lemma same_tuple_refl [simp]: "same_tuple r r"
  by (simp add: same_tuple_def)

lemma same_tuple_trans: "same_tuple a b \<Longrightarrow> same_tuple b c \<Longrightarrow> same_tuple a c"
  by (simp add: same_tuple_def)

lemma LogDataUpdateOperation_frame [simp]:
  "delta_sections (LogDataUpdateOperation a tm) = delta_sections tm" "ds_for_write (LogDataUpdateOperation a tm) = ds_for_write tm"
  "delta_sections (write_tuple g r tm) = delta_sections tm" "ds_for_write (write_tuple g r tm) = ds_for_write tm"
  by (simp_all add: LogDataUpdateOperation_def write_tuple_def Let_def)

lemma schema_global_record [simp]: "schema_ptr (global_record s a tm) = s"
  by (simp add: global_record_def Record_new_def)

lemma log_write_data:
  assumes "tuple_space T sch" and "access_addr a \<in> T" and "schema_ptr r = sch (access_addr a)"
    and "tm' = write_tuple (access_addr a) r (LogDataUpdateOperation a' tm)" and "access_addr a' = access_addr a"
  shows "x < GetRecordTotalSize (sch (access_addr a)) \<Longrightarrow> data_ptr (global_record (sch (access_addr a)) (access_addr a) tm') x = data_ptr r x"
    and "b \<in> T \<Longrightarrow> b \<noteq> access_addr a \<Longrightarrow> same_tuple (global_record (sch b) b tm') (global_record (sch b) b tm)"
proof -
  let ?g = "access_addr a" and ?n = "GetRecordTotalSize (sch (access_addr a))"
  have pages: "data_pages tm' = (data_pages tm)(TOPAGE ?g := store_bytes (tuple_offset ?g) (load_bytes 0 ?n (data_ptr r))
      (put_u64 P_VERSION_OFF (index_version (data_pages tm (TOPAGE ?g)) + 1) (data_pages tm (TOPAGE ?g))))"
    by (auto simp: assms(3-5) write_tuple_def LogDataUpdateOperation_def Let_def)
  show "data_ptr (global_record (sch ?g) ?g tm') x = data_ptr r x" if "x < ?n"
    using that by (simp add: global_record_def Record_new_def pages store_bytes_def)
  show "same_tuple (global_record (sch b) b tm') (global_record (sch b) b tm)" if b: "b \<in> T" "b \<noteq> ?g"
  proof (rule bytes_same_tuple)
    show "layout_ok (schema_ptr (global_record (sch b) b tm))" using assms(1) b(1) by (simp add: tuple_space_def)
    fix x assume x: "x < GetRecordTotalSize (schema_ptr (global_record (sch b) b tm))"
    have "DATA_OFF \<le> tuple_offset b" using assms(1) b(1) by (simp add: tuple_space_def)
    moreover have "TOPAGE b = TOPAGE ?g \<Longrightarrow> tuple_offset b + x < tuple_offset ?g \<or> tuple_offset ?g + ?n \<le> tuple_offset b + x"
      using assms(1,2) b x unfolding tuple_space_def by fastforce
    ultimately show "data_ptr (global_record (sch b) b tm') x = data_ptr (global_record (sch b) b tm) x"
      by (auto simp: global_record_def Record_new_def pages store_bytes_def put_u64_def P_VERSION_OFF_def DATA_OFF_def)
  qed simp
qed

text \<open>A local tuple that was read from \<open>old\<close> and changed in its dirty columns.\<close>

definition changed_from :: "Record \<Rightarrow> Record \<Rightarrow> bool" where
  "changed_from old local \<longleftrightarrow> schema_ptr local = schema_ptr old \<and> GetMeta local = GetMeta old \<and> differs_in (dirty_col_ids local) local old
    \<and> dirty_col_ids local \<noteq> [] \<and> (\<forall>c \<in> set (dirty_col_ids local). c < column_count (schema_ptr old))"

lemma written_undo:
  assumes "layout_ok (schema_ptr old)" and "changed_from old local" and "estimate_delta_size local < 2 ^ 31"
    and "same_tuple cur (PutMeta meta (local\<lparr>dirty_col_ids := []\<rparr>))"
    and "next_version_ts meta = next_version_ts (GetMeta old)" "is_visible meta = is_visible (GetMeta old)"
    and "m = write_delta local old ts p m0"
  shows "undo p (load_bytes p (estimate_delta_size local) m) cur old"
  unfolding undo_def
proof (intro allI impI)
  fix d n assume d: "load_bytes p (length (load_bytes p (estimate_delta_size local) m)) d = load_bytes p (estimate_delta_size local) m" and n: "same_tuple n cur"
  let ?s = "schema_ptr old" and ?l = "local\<lparr>dirty_col_ids := []\<rparr>"
  have C: "schema_ptr local = ?s" "GetMeta local = GetMeta old" "differs_in (dirty_col_ids local) local old" "\<forall>c \<in> set (dirty_col_ids local). c < column_count ?s"
    using assms(2) by (simp_all add: changed_from_def)
  have lay: "layout_ok (schema_ptr ?l)" using assms(1) C(1) by simp
  note P = PutMeta_data [OF lay, of meta]
  have nl: "same_tuple n (PutMeta meta ?l)" using same_tuple_trans [OF n assms(4)] .
  have "differs_in (dirty_col_ids local) n old"
    using nl C(1,3) assms(1) unfolding same_tuple_def differs_in_def P(1,2)
    by (auto simp: in_column_def store_bytes_def layout_ok_def kMetaSize_def)
  moreover have "GetMeta n = meta" using nl P(3) by (simp add: same_tuple_def)
  moreover have "load_bytes p (estimate_delta_size local) d = load_bytes p (estimate_delta_size local) (write_delta local old ts p m0)"
    using d by (simp add: assms(7))
  ultimately show "same_tuple (roll_back p d n) old"
    using assms(3,5,6) by (intro roll_back_written [OF assms(1) C(1) refl C(4)]) simp_all
qed

lemma version_chain_mono:
  assumes "version_chain w q floor vs" and "seg_addr w' = seg_addr w" "ds_epoch w \<le> ds_epoch w'" "floor \<le> floor'"
    and "\<And>d. d \<in> set q \<Longrightarrow> floor' < snd (snd d) \<Longrightarrow> d \<in> set q'"
  shows "version_chain w' q' floor' vs"
  using assms(1)
proof (induction vs)
  case (Cons r rs)
  show ?case
  proof (cases rs)
    case Nil
    then show ?thesis using Cons.prems assms(4) by auto
  next
    case (Cons r' rs')
    have "\<exists>p bs. (p, bs, GetWTS r) \<in> set q' \<and> undo p bs r r' \<and> prev_version (GetMeta r) = delta_address p w'
        \<and> unat (prev_delta_epoch (GetMeta r)) \<le> ds_epoch w'" if "floor' < GetWTS r"
    proof -
      have "floor < GetWTS r" using that assms(4) by simp
      then obtain p bs where "(p, bs, GetWTS r) \<in> set q" "undo p bs r r'" "prev_version (GetMeta r) = delta_address p w"
        "unat (prev_delta_epoch (GetMeta r)) \<le> ds_epoch w" using Cons.prems by (auto simp: Cons)
      moreover have "(p, bs, GetWTS r) \<in> set q'" using assms(5) [OF calculation(1)] that by simp
      ultimately show ?thesis using assms(2,3) by (intro exI [of _ p] exI [of _ bs]) (simp add: delta_address_def)
    qed
    then show ?thesis using Cons.prems Cons.IH by (simp add: Cons)
  qed
qed simp

text \<open>The histories of a node with its own section: committed updates of tuples that have not changed since they were read,
  and collections.  As ghosts, the versions of each tuple and the largest snapshot of a collection.\<close>

inductive mv_history :: "GlobalAddress set \<Rightarrow> (GlobalAddress \<Rightarrow> RecordSchema) \<Rightarrow> TransactionManager \<Rightarrow> (GlobalAddress \<Rightarrow> Record list) \<Rightarrow> u64 \<Rightarrow> bool"
  for T sch where
  mv_init: "w = DeltaSectionWrap_new (node_id tm) (ds_for_write tm) delta_section_size slot \<Longrightarrow> delta_sections tm = [(ds_for_write tm, w)] \<Longrightarrow>
    tail_allocated slot = 0 \<Longrightarrow> ring_placed w \<Longrightarrow> delta_section_size < 2 ^ 31 \<Longrightarrow>
    (\<forall>a \<in> T. prev_version (GetMeta (global_record (sch a) a tm)) = GlobalAddress_Null) \<Longrightarrow>
    mv_history T sch tm (\<lambda>a. [global_record (sch a) a tm]) 0"
| mv_commit: "mv_history T sch tm vs floor \<Longrightarrow> commit_access ts a tm = Some tm' \<Longrightarrow> access_type a = READ_WRITE \<Longrightarrow> access_addr a \<in> T \<Longrightarrow>
    g = access_addr a \<Longrightarrow> changed_from (global_record (sch g) g tm) (txn_local_tuple a) \<Longrightarrow> GetWTS (global_record (sch g) g tm) < ts \<Longrightarrow>
    fits_ring (estimate_delta_size (txn_local_tuple a)) (own_section tm) \<Longrightarrow> estimate_delta_size (txn_local_tuple a) < 2 ^ 31 \<Longrightarrow>
    mv_history T sch tm' (vs(g := global_record (sch g) g tm' # vs g)) floor"
| mv_gc: "mv_history T sch tm vs floor \<Longrightarrow> GarbageCollectionBySnapshot snapshot (own_section tm) = Some w \<Longrightarrow>
    mv_history T sch (tm\<lparr>delta_sections := AList.update (ds_for_write tm) w (delta_sections tm)\<rparr>) vs (max floor snapshot)"

definition mv_inv :: "GlobalAddress set \<Rightarrow> (GlobalAddress \<Rightarrow> RecordSchema) \<Rightarrow> TransactionManager \<Rightarrow> (GlobalAddress \<Rightarrow> Record list) \<Rightarrow> u64 \<Rightarrow> DeltaSectionWrap \<Rightarrow> delta list \<Rightarrow> bool" where
  "mv_inv T sch tm vs floor w q \<longleftrightarrow> delta_sections tm = [(ds_for_write tm, w)] \<and> seg_addr w = ds_for_write tm \<and> ring_history w q \<and> ring_placed w
    \<and> (\<forall>a \<in> T. vs a \<noteq> [] \<and> same_tuple (global_record (sch a) a tm) (hd (vs a)) \<and> version_chain w q floor (vs a))"

lemma own_section_inv: "mv_inv T sch tm vs floor w q \<Longrightarrow> own_section tm = w"
  by (simp add: mv_inv_def own_section_def)

lemma commit_update_cases:
  assumes "commit_access ts a tm = Some tm'" and "access_type a = READ_WRITE" and "dirty_col_ids (txn_local_tuple a) \<noteq> []"
  shows "\<exists>ga n w r. fill_in_delta_record_single (txn_local_tuple a) (global_record (schema_ptr (txn_local_tuple a)) (access_addr a) tm) ts (own_section tm) = Some ((ga, n), w)
    \<and> r = PutMeta ((GetMeta (txn_local_tuple a))\<lparr>prev_version := ga, prev_delta_epoch := of_nat (ds_epoch w), prev_delta_data_size := of_nat n, Wts := ts\<rparr>)
          ((txn_local_tuple a)\<lparr>dirty_col_ids := []\<rparr>)
    \<and> tm' = write_tuple (access_addr a) r (LogDataUpdateOperation (a\<lparr>txn_local_tuple := r\<rparr>) (tm\<lparr>delta_sections := AList.update (ds_for_write tm) w (delta_sections tm)\<rparr>))"
  using assms by (auto simp: commit_access_def Let_def split: option.splits)

text \<open>The effect of committing one update: the old version goes to the ring, the new one to the page, with a link to the delta.\<close>

lemma commit_update_effect:
  assumes "tuple_space T sch" and "delta_sections tm = [(ds_for_write tm, w)]" and "ring_history w q" and "commit_access ts a tm = Some tm'"
    and "access_type a = READ_WRITE" and "access_addr a \<in> T" and "g = access_addr a" and "changed_from (global_record (sch g) g tm) (txn_local_tuple a)"
    and "fits_ring (estimate_delta_size (txn_local_tuple a)) w" and "estimate_delta_size (txn_local_tuple a) < 2 ^ 31"
  shows "\<exists>w' p bs. delta_sections tm' = [(ds_for_write tm, w')] \<and> ds_for_write tm' = ds_for_write tm \<and> ring_history w' (q @ [(p, bs, ts)])
    \<and> ds_epoch w \<le> ds_epoch w' \<and> seg_addr w' = seg_addr w \<and> seg_real_size w' = seg_real_size w \<and> danger_size w' = danger_size w
    \<and> undo p bs (global_record (sch g) g tm') (global_record (sch g) g tm) \<and> GetWTS (global_record (sch g) g tm') = ts
    \<and> prev_version (GetMeta (global_record (sch g) g tm')) = delta_address p w'
    \<and> unat (prev_delta_epoch (GetMeta (global_record (sch g) g tm'))) \<le> ds_epoch w'
    \<and> (\<forall>b \<in> T. b \<noteq> g \<longrightarrow> same_tuple (global_record (sch b) b tm') (global_record (sch b) b tm))"
proof -
  let ?l = "txn_local_tuple a" and ?old = "global_record (sch g) g tm"
  let ?n = "estimate_delta_size ?l" and ?p = "place_of (estimate_delta_size (txn_local_tuple a)) w"
  have own: "own_section tm = w" using assms(2) by (simp add: own_section_def)
  have C: "schema_ptr ?l = sch g" "GetMeta ?l = GetMeta ?old" "dirty_col_ids ?l \<noteq> []" using assms(8) by (simp_all add: changed_from_def)
  have lay: "layout_ok (sch g)" using assms(1,6,7) by (simp add: tuple_space_def)
  obtain ga n w' r where f0: "fill_in_delta_record_single ?l (global_record (schema_ptr ?l) (access_addr a) tm) ts (own_section tm) = Some ((ga, n), w')"
    and r_def: "r = PutMeta ((GetMeta ?l)\<lparr>prev_version := ga, prev_delta_epoch := of_nat (ds_epoch w'), prev_delta_data_size := of_nat n, Wts := ts\<rparr>) (?l\<lparr>dirty_col_ids := []\<rparr>)"
    and tm'0: "tm' = write_tuple (access_addr a) r (LogDataUpdateOperation (a\<lparr>txn_local_tuple := r\<rparr>) (tm\<lparr>delta_sections := AList.update (ds_for_write tm) w' (delta_sections tm)\<rparr>))"
    using commit_update_cases [OF assms(4,5) C(3)] by (elim exE conjE)
  have f: "fill_in_delta_record_single ?l ?old ts w = Some ((ga, n), w')" using f0 own C(1) assms(7) by simp
  have room: "n = ?n" "has_room ?n w" using fill_room [OF f] by auto
  obtain m where F: "ga = delta_address ?p w" "ds_local w' = write_delta ?l ?old ts ?p m"
    using fill_appends [of w "map fst q" ?l ?old ts] ring_history_inv [OF assms(3)] room(2) assms(9,10) C(1) f by auto
  have E: "ds_epoch w \<le> ds_epoch w'" "seg_addr w' = seg_addr w" "seg_real_size w' = seg_real_size w" "danger_size w' = danger_size w"
    using f ring_history_inv [OF assms(3)] room(2) fill_in_delta_record_single_eq [of ?l w ?old ts] by (auto simp: ring_inv_def)
  define meta where "meta = (GetMeta ?l)\<lparr>prev_version := ga, prev_delta_epoch := of_nat (ds_epoch w'), prev_delta_data_size := of_nat n, Wts := ts\<rparr>"
  note r_def = r_def [folded meta_def]
  define tm1 where "tm1 = tm\<lparr>delta_sections := [(ds_for_write tm, w')]\<rparr>"
  have tm': "tm' = write_tuple g r (LogDataUpdateOperation (a\<lparr>txn_local_tuple := r\<rparr>) tm1)"
    using tm'0 assms(2,7) by (simp add: tm1_def)
  have r: "schema_ptr r = sch g" "GetMeta r = meta" using PutMeta_data [of "?l\<lparr>dirty_col_ids := []\<rparr>" meta] lay C(1) by (simp_all add: r_def)
  have g1: "global_record s b tm1 = global_record s b tm" for s b by (simp add: tm1_def global_record_def)
  note L = log_write_data [OF assms(1,6), of r tm' "a\<lparr>txn_local_tuple := r\<rparr>" tm1]
  have cur: "same_tuple (global_record (sch g) g tm') r" using L(1) lay r(1) tm' by (intro bytes_same_tuple) (simp_all add: assms(7))
  have others: "same_tuple (global_record (sch b) b tm') (global_record (sch b) b tm)" if "b \<in> T" "b \<noteq> g" for b
    using L(2) [OF _ _ _ that(1)] r(1) tm' that(2) g1 by (simp add: assms(7))
  let ?bs = "load_bytes ?p ?n (ds_local w')" and ?cur = "global_record (sch g) g tm'"
  have rh: "ring_history w' (q @ [(?p, ?bs, ts)])" using ring_fill [OF assms(3) f] room(1) assms(9,10) C(1) by simp
  have gm: "GetMeta ?cur = meta" using cur r(2) unfolding same_tuple_def by argo
  have "undo ?p ?bs ?cur ?old"
    using F(2) assms(8,10) cur C(2) lay by (intro written_undo [where local = ?l and meta = meta]) (auto simp: r_def meta_def)
  moreover have "GetWTS ?cur = ts" using gm by (simp add: GetWTS_def meta_def)
  moreover have "prev_version (GetMeta ?cur) = delta_address ?p w'" "unat (prev_delta_epoch (GetMeta ?cur)) \<le> ds_epoch w'"
    unfolding gm using F(1) E(2) by (simp_all add: meta_def delta_address_def unat_of_nat)
  moreover have "delta_sections tm' = [(ds_for_write tm, w')]" "ds_for_write tm' = ds_for_write tm" by (simp_all add: tm' tm1_def)
  ultimately show ?thesis using rh E others by blast
qed

lemma mv_commit_inv:
  assumes "tuple_space T sch" and "mv_inv T sch tm vs floor w q" and "commit_access ts a tm = Some tm'" and "access_type a = READ_WRITE"
    and "access_addr a \<in> T" and "g = access_addr a" and "changed_from (global_record (sch g) g tm) (txn_local_tuple a)" and "GetWTS (global_record (sch g) g tm) < ts"
    and "fits_ring (estimate_delta_size (txn_local_tuple a)) w" and "estimate_delta_size (txn_local_tuple a) < 2 ^ 31"
  shows "\<exists>w' q'. mv_inv T sch tm' (vs(g := global_record (sch g) g tm' # vs g)) floor w' q'"
proof -
  let ?old = "global_record (sch g) g tm" and ?cur = "global_record (sch g) g tm'"
  let ?vs = "vs(g := ?cur # vs g)"
  have inv: "delta_sections tm = [(ds_for_write tm, w)]" "seg_addr w = ds_for_write tm" "ring_history w q" "ring_placed w"
    using assms(2) by (simp_all add: mv_inv_def)
  obtain w' p bs where W: "delta_sections tm' = [(ds_for_write tm, w')]" "ds_for_write tm' = ds_for_write tm" "ring_history w' (q @ [(p, bs, ts)])"
    "ds_epoch w \<le> ds_epoch w'" "seg_addr w' = seg_addr w" "seg_real_size w' = seg_real_size w" "danger_size w' = danger_size w"
    "undo p bs ?cur ?old" "GetWTS ?cur = ts" "prev_version (GetMeta ?cur) = delta_address p w'" "unat (prev_delta_epoch (GetMeta ?cur)) \<le> ds_epoch w'"
    "\<forall>b \<in> T. b \<noteq> g \<longrightarrow> same_tuple (global_record (sch b) b tm') (global_record (sch b) b tm)"
    using commit_update_effect [OF assms(1) inv(1,3) assms(3-7,9,10)] by blast
  let ?q = "q @ [(p, bs, ts)]"
  have old: "vs b \<noteq> []" "same_tuple (global_record (sch b) b tm) (hd (vs b))" "version_chain w q floor (vs b)" if "b \<in> T" for b
    using assms(2) that unfolding mv_inv_def by blast+
  have mono: "version_chain w' ?q floor (vs b)" if "b \<in> T" for b
    by (rule version_chain_mono [OF old(3) [OF that]]) (use W(4,5) in simp_all)
  have gT: "g \<in> T" using assms(5,6) by simp
  obtain v rest where v: "vs g = v # rest" using old(1) [OF gT] by (cases "vs g") auto
  have v_old: "same_tuple ?old v" using old(2) [OF gT] v by simp
  have "undo p bs ?cur v" using W(8) v_old same_tuple_trans unfolding undo_def by blast
  moreover have "GetWTS v < GetWTS ?cur" using same_tuple_WTS [OF v_old] assms(8) W(9) by simp
  moreover have "version_chain w' ?q floor (v # rest)" using mono [OF gT] v by simp
  moreover have "(p, bs, GetWTS ?cur) \<in> set ?q" using W(9) by simp
  ultimately have new: "version_chain w' ?q floor (?cur # vs g)" unfolding v version_chain.simps using W(10,11) by blast
  have "?vs b \<noteq> [] \<and> same_tuple (global_record (sch b) b tm') (hd (?vs b)) \<and> version_chain w' ?q floor (?vs b)" if b: "b \<in> T" for b
  proof (cases "b = g")
    case True
    then show ?thesis using new by simp
  next
    case False
    then have "same_tuple (global_record (sch b) b tm') (hd (vs b))" using W(12) b same_tuple_trans old(2) [OF b] by blast
    then show ?thesis using mono [OF b] old(1) [OF b] False by simp
  qed
  moreover have "ring_placed w'" using inv(4) W(5-7) by (simp add: ring_placed_def)
  ultimately have "mv_inv T sch tm' ?vs floor w' ?q" unfolding mv_inv_def using inv(2) W(1-3,5) by metis
  then show ?thesis by blast
qed

lemma mv_gc_inv:
  assumes "mv_inv T sch tm vs floor w q" and "GarbageCollectionBySnapshot snapshot w = Some w'"
  shows "mv_inv T sch (tm\<lparr>delta_sections := [(ds_for_write tm, w')]\<rparr>) vs (max floor snapshot) w' (dropWhile (\<lambda>(a, bs, ts). ts < snapshot) q)"
proof -
  let ?q = "dropWhile (\<lambda>(a, bs, ts). ts < snapshot) q"
  have inv: "seg_addr w = ds_for_write tm" "ring_history w q" "ring_placed w" using assms(1) by (simp_all add: mv_inv_def)
  have "gc_loop snapshot w = Some w'" using assms(2) by (simp add: GarbageCollectionBySnapshot_def)
  then have w': "w' = w\<lparr>ds_head := ds_head w', is_empty := is_empty w'\<rparr>"
    using gc_drops ring_history_inv [OF inv(2)] by (metis option.inject)
  have f: "seg_addr w' = seg_addr w" "ds_epoch w' = ds_epoch w" "danger_size w' = danger_size w" "seg_real_size w' = seg_real_size w"
    by (subst w', simp)+
  have keep: "d \<in> set ?q" if "d \<in> set q" "max floor snapshot < snd (snd d)" for d
  proof -
    have "d \<in> set (takeWhile (\<lambda>(a, bs, ts). ts < snapshot) q) \<or> d \<in> set ?q" using that(1) by (metis Un_iff set_append takeWhile_dropWhile_id)
    then show ?thesis using that(2) by (auto dest: set_takeWhileD)
  qed
  have "version_chain w' ?q (max floor snapshot) (vs b)" if "b \<in> T" for b
  proof (rule version_chain_mono [of w q floor])
    show "version_chain w q floor (vs b)" using assms(1) that unfolding mv_inv_def by blast
  qed (use f keep in simp_all)
  moreover have "global_record s b (tm\<lparr>delta_sections := [(ds_for_write tm, w')]\<rparr>) = global_record s b tm" for s b by (simp add: global_record_def)
  ultimately show ?thesis using assms(1) ring_gc [OF inv(2) assms(2)] f inv(3) by (simp add: mv_inv_def ring_placed_def)
qed

lemma mv_history_inv:
  assumes "mv_history T sch tm vs floor" and "tuple_space T sch"
  shows "\<exists>w q. mv_inv T sch tm vs floor w q"
  using assms(1)
proof (induction rule: mv_history.induct)
  case (mv_init w tm delta_section_size slot)
  have "ring_history w []" unfolding mv_init.hyps(1) using mv_init.hyps(3,5) by (intro ring_new)
  moreover have "seg_addr w = ds_for_write tm" by (simp add: mv_init.hyps(1) DeltaSectionWrap_new_def)
  ultimately have "mv_inv T sch tm (\<lambda>a. [global_record (sch a) a tm]) 0 w []" using mv_init.hyps by (simp add: mv_inv_def)
  then show ?case by blast
next
  case (mv_commit tm vs floor ts a tm' g)
  then obtain w q where inv: "mv_inv T sch tm vs floor w q" by blast
  have "fits_ring (estimate_delta_size (txn_local_tuple a)) w" using mv_commit.hyps(8) own_section_inv [OF inv] by simp
  then show ?case by (rule mv_commit_inv [OF assms(2) inv mv_commit.hyps(2-7) _ mv_commit.hyps(9)])
next
  case (mv_gc tm vs floor snapshot w')
  then obtain w q where inv: "mv_inv T sch tm vs floor w q" by blast
  then have "AList.update (ds_for_write tm) w' (delta_sections tm) = [(ds_for_write tm, w')]" by (simp add: mv_inv_def)
  then show ?case using mv_gc_inv [OF inv] mv_gc.hyps(2) own_section_inv [OF inv] by auto
qed

lemma commit_access_txn: "commit_access ts a tm = Some tm' \<Longrightarrow> snapshot_ts tm' = snapshot_ts tm \<and> is_first_access tm' = is_first_access tm
    \<and> plain_occ tm' = plain_occ tm \<and> isolation_level tm' = isolation_level tm"
  by (auto simp: commit_access_def write_tuple_def LogDataUpdateOperation_def Let_def split: option.splits if_splits)

lemma select_read_only:
  assumes "mv_inv T sch tm vs floor w q" and "tuple_space T sch" and "a \<in> T" and "floor \<le> snapshot_ts tm"
    and "\<not> is_first_access tm" and "\<not> plain_occ tm" and "isolation_level tm = SNAPSHOT_ISOLATION"
  shows "\<exists>res tm'. SelectRecordCC owners (sch a) a READ_ONLY tm = Some (True, res, tm')
    \<and> (case find (\<lambda>v. GetWTS v \<le> snapshot_ts tm) (vs a) of None \<Rightarrow> res = None | Some v \<Rightarrow> \<exists>r. res = Some r \<and> same_tuple r v)
    \<and> latch_calls tm' = latch_calls tm @ [SELCC_Shared_Lock (TOPAGE a), SELCC_Shared_UnLock (TOPAGE a)]"
proof -
  note inv = assms(1)
  let ?g = "global_record (sch a) a tm"
  let ?r = "CopyFrom ?g (Record_new (sch a) (\<lambda>_. 0))"
  have lay: "layout_ok (sch a)" using assms(2,3) by (simp add: tuple_space_def)
  have "same_tuple ?r ?g" using lay by (intro bytes_same_tuple) (simp_all add: CopyFrom_def Record_new_def store_bytes_def)
  moreover have "same_tuple ?g (hd (vs a))" "version_chain w q floor (vs a)" using inv assms(3) unfolding mv_inv_def by blast+
  ultimately have rb: "\<exists>res. rollback_loop owners (node_id tm) (snapshot_ts tm) ?r [(seg_addr w, w)] = Some (res, [(seg_addr w, w)])
      \<and> (case find (\<lambda>v. GetWTS v \<le> snapshot_ts tm) (vs a) of None \<Rightarrow> res = None | Some v \<Rightarrow> \<exists>r. res = Some r \<and> same_tuple r v)"
    using inv assms(4) same_tuple_trans by (intro rollback_finds) (auto simp: mv_inv_def)
  then obtain res where res: "rollback_loop owners (node_id tm) (snapshot_ts tm) ?r (delta_sections tm) = Some (res, delta_sections tm)"
      "case find (\<lambda>v. GetWTS v \<le> snapshot_ts tm) (vs a) of None \<Rightarrow> res = None | Some v \<Rightarrow> \<exists>r. res = Some r \<and> same_tuple r v"
    using inv by (auto simp: mv_inv_def)
  let ?tm = "RegisterSeenTs (GetWTS ?r) (latch_tuple READ_ONLY (TOPAGE a) tm)"
  have f: "global_record (sch a) a (latch_tuple READ_ONLY (TOPAGE a) tm) = ?g" "isolation_level ?tm = SNAPSHOT_ISOLATION" "plain_occ ?tm = plain_occ tm"
    "snapshot_ts ?tm = snapshot_ts tm" "node_id ?tm = node_id tm" "delta_sections ?tm = delta_sections tm"
    "latch_calls ?tm = latch_calls tm @ [SELCC_Shared_Lock (TOPAGE a)]"
    using assms(7) by (simp_all add: latch_tuple_def call_def global_record_def RegisterSeenTs_def)
  have "\<exists>tm'. SelectRecordCC owners (sch a) a READ_ONLY tm = Some (True, res, tm')
      \<and> latch_calls tm' = latch_calls tm @ [SELCC_Shared_Lock (TOPAGE a), SELCC_Shared_UnLock (TOPAGE a)]"
    using assms(5,6) unfolding SelectRecordCC_def Let_def
    by (cases res) (simp_all add: f early_abort_def res(1) unlatch_tuple_def call_def)
  then show ?thesis using res(2) by blast
qed


text \<open>C34: a snapshot is not stable.  \<^verbatim>\<open>GetSnapshot\<close> takes the timestamp that the next commit of the node is going to get,
  and versions up to and including the snapshot are visible: when another transaction then commits an update of a tuple, with
  that timestamp, two reads of the tuple at the same snapshot return the version before and the version after it.\<close>

theorem snapshot_not_stable:
  assumes "mv_history T sch tm vs floor" and "tuple_space T sch" and "floor \<le> snapshot_ts tm" and "\<not> is_first_access tm" and "\<not> plain_occ tm"
    and "isolation_level tm = SNAPSHOT_ISOLATION" and "snapshot_ts tm = GetMonotoneTimestamp tm" and "ts = fst (FetchAddMonotoneTimestamp tm)"
    and "commit_access ts a tm = Some tm'" and "access_type a = READ_WRITE" and "g = access_addr a" and "g \<in> T"
    and "changed_from (global_record (sch g) g tm) (txn_local_tuple a)" and "GetWTS (global_record (sch g) g tm) < ts"
    and "fits_ring (estimate_delta_size (txn_local_tuple a)) (own_section tm)" and "estimate_delta_size (txn_local_tuple a) < 2 ^ 31"
  shows "\<exists>r1 r2 tm1 tm2. SelectRecordCC owners (sch g) g READ_ONLY tm = Some (True, Some r1, tm1) \<and> same_tuple r1 (global_record (sch g) g tm)
    \<and> SelectRecordCC owners (sch g) g READ_ONLY tm' = Some (True, Some r2, tm2) \<and> same_tuple r2 (global_record (sch g) g tm')
    \<and> snapshot_ts tm' = snapshot_ts tm \<and> GetWTS r1 < GetWTS r2"
proof -
  obtain w q where inv: "mv_inv T sch tm vs floor w q" using mv_history_inv [OF assms(1,2)] by blast
  have aT: "access_addr a \<in> T" using assms(11,12) by simp
  have fit: "fits_ring (estimate_delta_size (txn_local_tuple a)) w" using assms(15) own_section_inv [OF inv] by simp
  let ?cur = "global_record (sch g) g tm'" and ?old = "global_record (sch g) g tm"
  obtain w' q' where inv': "mv_inv T sch tm' (vs(g := ?cur # vs g)) floor w' q'"
    using mv_commit_inv [OF assms(2) inv assms(9,10) aT assms(11,13,14) fit assms(16)] by blast
  have ts: "GetWTS ?cur = ts"
    using commit_update_effect [OF assms(2) _ _ assms(9,10) aT assms(11,13) fit assms(16)] inv by (auto simp: mv_inv_def)
  have snap: "snapshot_ts tm = ts" using assms(7,8) by (simp add: GetMonotoneTimestamp_def FetchAddMonotoneTimestamp_def)
  have fr: "snapshot_ts tm' = snapshot_ts tm" "is_first_access tm' = is_first_access tm" "plain_occ tm' = plain_occ tm" "isolation_level tm' = isolation_level tm"
    using commit_access_txn [OF assms(9)] by simp_all
  obtain v rest where v: "vs g = v # rest" "same_tuple ?old v" using inv assms(12) by (cases "vs g") (auto simp: mv_inv_def)
  have "find (\<lambda>v. GetWTS v \<le> snapshot_ts tm) (vs g) = Some v" using v same_tuple_WTS [OF v(2)] assms(14) snap by auto
  then obtain r1 tm1 where r1: "SelectRecordCC owners (sch g) g READ_ONLY tm = Some (True, Some r1, tm1)" "same_tuple r1 v"
    using select_read_only [OF inv assms(2,12,3,4,5,6), of owners] by auto
  have "find (\<lambda>v. GetWTS v \<le> snapshot_ts tm') ((vs(g := ?cur # vs g)) g) = Some ?cur" using ts snap fr by simp
  then obtain r2 tm2 where r2: "SelectRecordCC owners (sch g) g READ_ONLY tm' = Some (True, Some r2, tm2)" "same_tuple r2 ?cur"
    using select_read_only [OF inv' assms(2,12), of owners] assms(3-6) fr by auto
  have "same_tuple r1 ?old" using r1(2) v(2) by (auto simp: same_tuple_def)
  moreover have "GetWTS r1 < GetWTS r2" using same_tuple_WTS [OF r2(2)] same_tuple_WTS [OF calculation] ts assms(14) by simp
  ultimately show ?thesis using r1(1) r2 fr(1) by blast
qed


section \<open>The latches of a commit\<close>

text \<open>The 64-bit value of an address has the offset in its upper bits.\<close>

lemma uint_gval: "uint (gval g) = uint (nodeID g) + 2 ^ 16 * uint (goffset g)"
proof -
  have n: "take_bit 16 (uint (nodeID g)) = uint (nodeID g)" using bintr_uint [of 16 "nodeID g"] by simp
  have o64: "take_bit 64 (push_bit 16 (uint (goffset g))) = push_bit 16 (uint (goffset g))"
    using bintr_uint [of 48 "goffset g"] by (simp add: take_bit_push_bit)
  have a: "uint (ucast (nodeID g) :: u64) = uint (nodeID g)" by (rule uint_up_ucast) (simp add: is_up)
  have b: "uint (ucast (goffset g) :: u64) = uint (goffset g)" by (rule uint_up_ucast) (simp add: is_up)
  have "uint (gval g) = uint (nodeID g) OR take_bit 64 (push_bit 16 (uint (goffset g)))"
    unfolding gval_def unsigned_or_eq unsigned_push_bit_eq a b by simp
  also have "\<dots> = concat_bit 16 (uint (nodeID g)) (uint (goffset g))" unfolding o64 concat_bit_def n ..
  also have "\<dots> = uint (nodeID g) + push_bit 16 (uint (goffset g))" unfolding concat_bit_eq n ..
  finally show ?thesis by (simp add: push_bit_eq_mult)
qed

lemma scaled_less_iff: "0 \<le> a \<Longrightarrow> a < k \<Longrightarrow> 0 \<le> b \<Longrightarrow> b < k \<Longrightarrow> a + k * x < b + k * y \<longleftrightarrow> x < y \<or> x = y \<and> a < b" for a b k x y :: int
proof -
  assume *: "0 \<le> a" "a < k" "0 \<le> b" "b < k"
  have "k * x + k \<le> k * y" if "x < y" using that * mult_left_mono [of "x + 1" y k] by (simp add: algebra_simps)
  moreover have "k * y + k \<le> k * x" if "y < x" using that * mult_left_mono [of "y + 1" x k] by (simp add: algebra_simps)
  moreover have "x < y \<or> x = y \<or> y < x" by linarith
  ultimately show ?thesis using * by auto
qed

lemma gval_less_iff: "gval g < gval h \<longleftrightarrow> goffset g < goffset h \<or> goffset g = goffset h \<and> nodeID g < nodeID h"
  unfolding word_less_def uint_gval word_uint_eq_iff
  using uint_lt2p [of "nodeID g"] uint_lt2p [of "nodeID h"] by (intro scaled_less_iff) simp_all

definition writes :: "Access \<Rightarrow> bool" where
  "writes a \<longleftrightarrow> access_type a = READ_WRITE \<or> access_type a = INSERT_ONLY"

text \<open>The tuple has not changed since the transaction read it.\<close>

definition still_valid :: "TransactionManager \<Rightarrow> Access \<Rightarrow> bool" where
  "still_valid tm a \<longleftrightarrow> GetWTS (global_record (schema_ptr (txn_local_tuple a)) (access_addr a) tm) \<le> GetWTS (txn_local_tuple a)"

definition latched :: "(GlobalAddress \<times> AccessType) list \<Rightarrow> TransactionManager \<Rightarrow> TransactionManager" where
  "latched hs tm = tm\<lparr>locked_handles := locked_handles tm @ hs, latch_calls := latch_calls tm @ map (\<lambda>h. SELCC_Exclusive_Lock (fst h)) hs\<rparr>"

lemma latched_simps [simp]: "latched [] tm = tm" "latched hs (latched gs tm) = latched (gs @ hs) tm"
  "data_pages (latched hs tm) = data_pages tm" "access_list (latched hs tm) = access_list tm" "isolation_level (latched hs tm) = isolation_level tm"
  "locked_handles (latched hs tm) = locked_handles tm @ hs" "still_valid (latched hs tm) = still_valid tm"
  by (simp_all add: latched_def still_valid_def global_record_def fun_eq_iff)

lemma latch_for_write:
  assumes "READ_ONLY \<notin> snd ` set (locked_handles tm)"
  shows "latch_for True t page tm = latched (if page \<in> fst ` set (locked_handles tm) then [] else [(page, t)]) tm"
proof (cases "map_of (locked_handles tm) page")
  case None
  then have "page \<notin> fst ` set (locked_handles tm)" by (simp add: map_of_eq_None_iff)
  then show ?thesis using None by (simp add: latch_for_def latched_def call_def)
next
  case (Some t')
  then have "(page, t') \<in> set (locked_handles tm)" by (rule map_of_SomeD)
  then have "t' \<noteq> READ_ONLY" "page \<in> fst ` set (locked_handles tm)" using assms by force+
  then show ?thesis using Some by (simp add: latch_for_def)
qed

abbreviation pages_of :: "TransactionManager \<Rightarrow> (u64 \<times> nat) list \<Rightarrow> GlobalAddress list" where
  "pages_of tm xs \<equiv> map (\<lambda>x. TOPAGE (access_addr (access_list tm ! snd x))) (filter (\<lambda>x. writes (access_list tm ! snd x)) xs)"

text \<open>Validation under snapshot isolation latches the pages of the written tuples one after the other, each once, and stops
  at the first tuple that has changed.\<close>

definition validated :: "TransactionManager \<Rightarrow> (u64 \<times> nat) list \<Rightarrow> (GlobalAddress \<times> AccessType) list \<Rightarrow> bool \<Rightarrow> TransactionManager \<Rightarrow> bool" where
  "validated tm xs hs ok tm' \<longleftrightarrow> distinct (map fst (locked_handles tm @ hs)) \<and> READ_ONLY \<notin> snd ` set hs \<and> subseq (map fst hs) (pages_of tm xs)
    \<and> (ok \<longrightarrow> tm' = latched hs tm \<and> (\<forall>x \<in> set xs. writes (access_list tm ! snd x) \<longrightarrow> still_valid tm (access_list tm ! snd x))
         \<and> set (pages_of tm xs) \<subseteq> fst ` set (locked_handles tm @ hs))
    \<and> (\<not> ok \<longrightarrow> (\<exists>x \<in> set xs. \<exists>wts. writes (access_list tm ! snd x) \<and> \<not> still_valid tm (access_list tm ! snd x)
         \<and> tm' = AbortTransaction (RegisterSeenTs wts (latched hs tm))))"

lemma validated_skip: "\<not> writes (access_list tm ! snd x) \<Longrightarrow> validated tm xs hs ok tm' \<Longrightarrow> validated tm (x # xs) hs ok tm'"
  by (simp add: validated_def)

lemma validated_step:
  assumes "writes (access_list tm ! snd x)" "still_valid tm (access_list tm ! snd x)" "validated (latched h tm) xs hs ok tm'" "READ_ONLY \<notin> snd ` set h"
    and "subseq (map fst h) [TOPAGE (access_addr (access_list tm ! snd x))]" "TOPAGE (access_addr (access_list tm ! snd x)) \<in> fst ` set (locked_handles tm @ h)"
  shows "validated tm (x # xs) (h @ hs) ok tm'"
proof -
  have v: "distinct (map fst (locked_handles tm @ h @ hs))" "READ_ONLY \<notin> snd ` set hs" "subseq (map fst hs) (pages_of tm xs)"
    using assms(3) by (simp_all add: validated_def)
  have "subseq (map fst (h @ hs)) (pages_of tm (x # xs))" using list_emb_append_mono [OF assms(5) v(3)] assms(1) by simp
  moreover have "tm' = latched (h @ hs) tm \<and> (\<forall>x' \<in> set (x # xs). writes (access_list tm ! snd x') \<longrightarrow> still_valid tm (access_list tm ! snd x'))
      \<and> set (pages_of tm (x # xs)) \<subseteq> fst ` set (locked_handles tm @ h @ hs)" if ok
    using assms(1,2,3,6) that by (auto simp: validated_def)
  moreover have "\<exists>x' \<in> set (x # xs). \<exists>wts. writes (access_list tm ! snd x') \<and> \<not> still_valid tm (access_list tm ! snd x')
      \<and> tm' = AbortTransaction (RegisterSeenTs wts (latched (h @ hs) tm))" if "\<not> ok"
    using assms(3) that by (auto simp: validated_def)
  ultimately show ?thesis using v(1,2) assms(4) unfolding validated_def by (simp add: image_Un)
qed

lemma validate_write:
  assumes "READ_ONLY \<notin> snd ` set (locked_handles tm)" and "writes (access_list tm ! i)"
  defines "a \<equiv> access_list tm ! i"
  defines "h \<equiv> (if TOPAGE (access_addr a) \<in> fst ` set (locked_handles tm) then [] else [(TOPAGE (access_addr a), access_type a)])"
  shows "validate ((k, i) # xs) tm = (if still_valid tm a then validate xs (latched h tm)
    else (False, AbortTransaction (RegisterSeenTs (GetWTS (global_record (schema_ptr (txn_local_tuple a)) (access_addr a) tm)) (latched h tm))))"
proof -
  have lf: "latch_for True (access_type a) (TOPAGE (access_addr a)) tm = latched h tm" unfolding h_def by (rule latch_for_write [OF assms(1)])
  have "global_record s g (latched h tm) = global_record s g tm" for s g by (simp add: global_record_def)
  then show ?thesis using assms(2) lf by (auto simp: a_def [symmetric] writes_def Let_def still_valid_def not_less)
qed

lemma validate_run:
  assumes "isolation_level tm = SNAPSHOT_ISOLATION" and "READ_ONLY \<notin> snd ` set (locked_handles tm)" and "distinct (map fst (locked_handles tm))"
    and "validate xs tm = (ok, tm')"
  shows "\<exists>hs. validated tm xs hs ok tm'"
  using assms
proof (induction xs arbitrary: tm)
  case Nil
  then show ?case by (intro exI [of _ "[]"]) (simp add: validated_def)
next
  case (Cons x xs)
  obtain k i where x: "x = (k, i)" by (cases x)
  let ?a = "access_list tm ! i"
  show ?case
  proof (cases "writes ?a")
    case False
    then have "validate xs tm = (ok, tm')" using Cons.prems(1,4) by (auto simp: x writes_def Let_def split: if_splits)
    then obtain hs where "validated tm xs hs ok tm'" using Cons.IH [OF Cons.prems(1-3)] by blast
    then have "validated tm (x # xs) hs ok tm'" using False x by (intro validated_skip) simp_all
    then show ?thesis by blast
  next
    case True
    let ?p = "TOPAGE (access_addr ?a)"
    define h where "h = (if ?p \<in> fst ` set (locked_handles tm) then [] else [(?p, access_type ?a)])"
    define wts where "wts = GetWTS (global_record (schema_ptr (txn_local_tuple ?a)) (access_addr ?a) tm)"
    have h: "distinct (map fst (locked_handles tm @ h))" "READ_ONLY \<notin> snd ` set h" "subseq (map fst h) [?p]" "?p \<in> fst ` set (locked_handles tm @ h)"
      using Cons.prems(3) True by (auto simp: writes_def h_def)
    have step: "validate (x # xs) tm = (if still_valid tm ?a then validate xs (latched h tm) else (False, AbortTransaction (RegisterSeenTs wts (latched h tm))))"
      unfolding x h_def wts_def by (rule validate_write [OF Cons.prems(2) True])
    show ?thesis
    proof (cases "still_valid tm ?a")
      case False
      then have "ok = False" "tm' = AbortTransaction (RegisterSeenTs wts (latched h tm))" using step Cons.prems(4) by auto
      moreover have "subseq (map fst h) (pages_of tm (x # xs))" using list_emb_append_mono [OF h(3) list_emb_Nil [of _ "pages_of tm xs"]] True by (simp add: x)
      ultimately have "validated tm (x # xs) h ok tm'" unfolding validated_def using h(1,2) False True x by auto
      then show ?thesis by blast
    next
      case valid: True
      have v: "validate xs (latched h tm) = (ok, tm')" using step valid Cons.prems(4) by simp
      have "READ_ONLY \<notin> snd ` set (locked_handles (latched h tm))" "distinct (map fst (locked_handles (latched h tm)))" using Cons.prems(2) h(1,2) by auto
      from Cons.IH [OF _ this v] Cons.prems(1) obtain hs where "validated (latched h tm) xs hs ok tm'" by auto
      then have "validated tm (x # xs) (h @ hs) ok tm'" using True valid h(2-4) x by (intro validated_step) simp_all
      then show ?thesis by blast
    qed
  qed
qed

lemma ordered_insert_keys [simp]: "set (map fst (ordered_insert k v m)) = insert k (set (map fst m))"
  by (induction k v m rule: ordered_insert.induct) auto

lemma ordered_insert_sorted: "sorted_wrt (<) (map fst m) \<Longrightarrow> sorted_wrt (<) (map fst (ordered_insert k v m))"
proof (induction k v m rule: ordered_insert.induct)
  case (2 k v k' v' m)
  have "\<forall>x \<in> set (map fst (ordered_insert k v m)). x = k \<or> x \<in> set (map fst m)" unfolding ordered_insert_keys by blast
  then have "\<forall>x \<in> set (map fst (ordered_insert k v m)). k' < x" if "k' < k" using that "2.prems" by fastforce
  then show ?case using 2 by auto
qed simp

lemma sorted_access_keys:
  assumes "sorted_wrt (<) (map fst m)" "distinct (map access_addr as)" "\<forall>a \<in> set as. gval (access_addr a) \<notin> fst ` set m"
  shows "sorted_wrt (<) (map fst (sorted_access as i m))"
    and "set (sorted_access as i m) = set m \<union> {(gval (access_addr (as ! j)), i + j) |j. j < length as}"
proof -
  have "sorted_wrt (<) (map fst (sorted_access as i m)) \<and> set (sorted_access as i m) = set m \<union> {(gval (access_addr (as ! j)), i + j) |j. j < length as}"
    using assms
  proof (induction as i m rule: sorted_access.induct)
    case (2 a as i m)
    let ?m = "ordered_insert (gval (access_addr a)) i m"
    have keys: "fst ` set ?m = insert (gval (access_addr a)) (fst ` set m)" using ordered_insert_keys [of "gval (access_addr a)" i m] by simp
    have "access_addr b \<noteq> access_addr a" if "b \<in> set as" for b using "2.prems"(2) imageI [OF that, of access_addr] by auto
    then have "\<forall>b \<in> set as. gval (access_addr b) \<notin> fst ` set ?m" unfolding keys using "2.prems"(3) by (simp add: gval_inject)
    then have ih: "sorted_wrt (<) (map fst (sorted_access as (i + 1) ?m))"
      "set (sorted_access as (i + 1) ?m) = set ?m \<union> {(gval (access_addr (as ! j)), i + 1 + j) |j. j < length as}"
      using "2.IH" ordered_insert_sorted [OF "2.prems"(1)] "2.prems"(2) by auto
    have "{(gval (access_addr ((a # as) ! j)), i + j) |j. j < length (a # as)} = insert (gval (access_addr a), i) {(gval (access_addr (as ! j)), i + 1 + j) |j. j < length as}"
    proof (intro set_eqI iffI)
      fix x assume "x \<in> {(gval (access_addr ((a # as) ! j)), i + j) |j. j < length (a # as)}"
      then obtain j where "x = (gval (access_addr ((a # as) ! j)), i + j)" "j < length (a # as)" by blast
      then show "x \<in> insert (gval (access_addr a), i) {(gval (access_addr (as ! j)), i + 1 + j) |j. j < length as}" by (cases j) auto
    next
      fix x assume "x \<in> insert (gval (access_addr a), i) {(gval (access_addr (as ! j)), i + 1 + j) |j. j < length as}"
      then consider "x = (gval (access_addr a), i)" | j where "x = (gval (access_addr (as ! j)), i + 1 + j)" "j < length as" by blast
      then show "x \<in> {(gval (access_addr ((a # as) ! j)), i + j) |j. j < length (a # as)}"
      proof cases
        case 1
        then show ?thesis by (intro CollectI exI [of _ 0]) simp
      next
        case (2 j)
        then show ?thesis by (intro CollectI exI [of _ "Suc j"]) simp
      qed
    qed
    then show ?case using ih set_ordered_insert [of "gval (access_addr a)" m i] "2.prems"(3) by simp
  qed simp
  then show "sorted_wrt (<) (map fst (sorted_access as i m))"
    "set (sorted_access as i m) = set m \<union> {(gval (access_addr (as ! j)), i + j) |j. j < length as}" by blast+
qed

lemma page_base_mono: "x \<le> y \<Longrightarrow> page_base x \<le> page_base y"
  using page_base_between [of y x] page_base_le [of x] by (cases "page_base y \<le> x") auto

lemma TOPAGE_mono: "nodeID g = nodeID h \<Longrightarrow> goffset g \<le> goffset h \<Longrightarrow> TOPAGE g \<le> TOPAGE h"
  using page_base_mono by (simp add: less_eq_GlobalAddress_def TOPAGE_page_base word_le_nat_alt word_less_nat_alt not_less)

lemma subseq_sorted_wrt: "subseq xs ys \<Longrightarrow> sorted_wrt P ys \<Longrightarrow> sorted_wrt P xs"
proof (induction rule: list_emb.induct)
  case (list_emb_Cons2 x y xs ys)
  have "P x z" if "z \<in> set xs" for z
    using list_emb_set [OF list_emb_Cons2.hyps(2) that] list_emb_Cons2.hyps(1) list_emb_Cons2.prems by auto
  then show ?case using list_emb_Cons2 by simp
qed simp_all

definition page_before :: "GlobalAddress \<Rightarrow> GlobalAddress \<Rightarrow> bool" where
  "page_before p q \<longleftrightarrow> (nodeID p = nodeID q \<longrightarrow> p < q)"

lemma page_before_sorted: "sorted_wrt (\<lambda>p q. nodeID p = nodeID q \<longrightarrow> p \<le> q) ps \<Longrightarrow> distinct ps \<Longrightarrow> sorted_wrt page_before ps"
  by (induction ps) (auto simp: page_before_def order.order_iff_strict)

text \<open>The accesses of a transaction in the order of validation, and the order of their pages.\<close>

lemma validation_order:
  assumes "distinct (map access_addr (access_list tm))"
  defines "xs \<equiv> sorted_access (access_list tm) 0 []"
  shows "(\<lambda>x. access_list tm ! snd x) ` set xs = set (access_list tm)"
    and "sorted_wrt (\<lambda>p q. nodeID p = nodeID q \<longrightarrow> p \<le> q) (pages_of tm xs)"
    and "set (pages_of tm xs) = {TOPAGE (access_addr a) |a. a \<in> set (access_list tm) \<and> writes a}"
proof -
  note K = sorted_access_keys [of "[]" "access_list tm" 0, simplified, OF assms(1)]
  have set_xs: "set xs = {(gval (access_addr (access_list tm ! j)), j) |j. j < length (access_list tm)}" using K(2) by (simp add: xs_def)
  show acc: "(\<lambda>x. access_list tm ! snd x) ` set xs = set (access_list tm)" unfolding set_xs by (force simp: in_set_conv_nth)
  show "set (pages_of tm xs) = {TOPAGE (access_addr a) |a. a \<in> set (access_list tm) \<and> writes a}" unfolding acc [symmetric] by auto
  have "sorted_wrt (\<lambda>x y. fst x < fst y) xs" using K(1) by (simp add: xs_def sorted_wrt_map)
  then have "sorted_wrt (\<lambda>x y. fst x < fst y) (filter (\<lambda>x. writes (access_list tm ! snd x)) xs)" by (rule sorted_wrt_filter)
  then have "sorted_wrt (\<lambda>x y. nodeID (TOPAGE (access_addr (access_list tm ! snd x))) = nodeID (TOPAGE (access_addr (access_list tm ! snd y)))
      \<longrightarrow> TOPAGE (access_addr (access_list tm ! snd x)) \<le> TOPAGE (access_addr (access_list tm ! snd y))) (filter (\<lambda>x. writes (access_list tm ! snd x)) xs)"
  proof (rule sorted_wrt_mono_rel [rotated])
    fix x y assume "x \<in> set (filter (\<lambda>x. writes (access_list tm ! snd x)) xs)" "y \<in> set (filter (\<lambda>x. writes (access_list tm ! snd x)) xs)" "fst x < fst y"
    then have "gval (access_addr (access_list tm ! snd x)) < gval (access_addr (access_list tm ! snd y))" using set_xs by auto
    then show "nodeID (TOPAGE (access_addr (access_list tm ! snd x))) = nodeID (TOPAGE (access_addr (access_list tm ! snd y)))
      \<longrightarrow> TOPAGE (access_addr (access_list tm ! snd x)) \<le> TOPAGE (access_addr (access_list tm ! snd y))"
      unfolding gval_less_iff TOPAGE_page_base(1) by (auto intro: TOPAGE_mono)
  qed
  then show "sorted_wrt (\<lambda>p q. nodeID p = nodeID q \<longrightarrow> p \<le> q) (pages_of tm xs)" by (simp add: sorted_wrt_map)
qed

lemma release_handles: "READ_ONLY \<notin> snd ` set hs \<Longrightarrow>
  fold release_handle hs tm = tm\<lparr>latch_calls := latch_calls tm @ map (\<lambda>h. SELCC_Exclusive_UnLock (fst h)) hs\<rparr>"
  by (induction hs arbitrary: tm) (auto simp: release_handle_def call_def)

lemma ClearStates_frame [simp]:
  "latch_calls (ClearStates tm) = latch_calls tm" "data_pages (ClearStates tm) = data_pages tm" "txn_log (ClearStates tm) = txn_log tm"
  "delta_sections (ClearStates tm) = delta_sections tm" "access_list (ClearStates tm) = access_list tm" "locked_handles (ClearStates tm) = []"
  by (simp_all add: ClearStates_def ReleaseSnapshot_def Let_def)

lemma EnsureCommitFloor_frame [simp]:
  "latch_calls (EnsureCommitFloor m tm) = latch_calls tm" "data_pages (EnsureCommitFloor m tm) = data_pages tm" "txn_log (EnsureCommitFloor m tm) = txn_log tm"
  "delta_sections (EnsureCommitFloor m tm) = delta_sections tm" "access_list (EnsureCommitFloor m tm) = access_list tm"
  "locked_handles (EnsureCommitFloor m tm) = locked_handles tm"
  by (simp_all add: EnsureCommitFloor_def)

lemma AbortTransaction_effect:
  assumes "READ_ONLY \<notin> snd ` set (locked_handles tm)"
  shows "latch_calls (AbortTransaction tm) = latch_calls tm @ map (\<lambda>h. SELCC_Exclusive_UnLock (fst h)) (locked_handles tm)"
    "data_pages (AbortTransaction tm) = data_pages tm" "txn_log (AbortTransaction tm) = txn_log tm" "delta_sections (AbortTransaction tm) = delta_sections tm"
    "access_list (AbortTransaction tm) = []" "locked_handles (AbortTransaction tm) = []"
  using release_handles [OF assms, of "tm\<lparr>access_list := []\<rparr>"] by (simp_all add: AbortTransaction_def Let_def)

lemma commit_access_frame: "commit_access ts a tm = Some tm' \<Longrightarrow> latch_calls tm' = latch_calls tm \<and> locked_handles tm' = locked_handles tm"
  by (auto simp: commit_access_def write_tuple_def LogDataUpdateOperation_def Let_def split: option.splits if_splits)

lemma commit_accesses_frame: "commit_accesses ts as tm = Some tm' \<Longrightarrow> latch_calls tm' = latch_calls tm \<and> locked_handles tm' = locked_handles tm"
proof (induction as arbitrary: tm)
  case (Cons a as)
  then obtain tm1 where "commit_access ts a tm = Some tm1" "commit_accesses ts as tm1 = Some tm'" by (auto split: option.splits)
  then show ?case using Cons.IH commit_access_frame by fastforce
qed simp

lemma u64_suc: "x < - 1 \<Longrightarrow> x < x + 1 \<and> x + 1 \<noteq> 0" for x :: u64
proof -
  assume "x < - 1"
  then have "unat x < 2 ^ 64 - 1" by (simp add: word_less_nat_alt unsigned_minus_1_eq_mask mask_eq_exp_minus_1)
  then have "unat (x + 1) = unat x + 1" by (simp add: unat_word_ariths)
  then show ?thesis by (auto simp: word_less_nat_alt)
qed

lemma commit_stage_effect:
  assumes "commit_stage tm = Some (ok, tm')" and "READ_ONLY \<notin> snd ` set (locked_handles tm)" and "max_seen_ts tm < - 1" and "0 < local_ts_next tm"
  shows "ok" "latch_calls tm' = latch_calls tm @ map (\<lambda>h. SELCC_Exclusive_UnLock (fst h)) (locked_handles tm)"
    "locked_handles tm' = []" "access_list tm' = []" "max_seen_ts tm < max_seen_ts tm'"
proof -
  define tm1 where "tm1 = (if max_seen_ts tm \<noteq> 0 then EnsureCommitFloor (max_seen_ts tm + 1) tm else tm)"
  obtain tm2 where tm2: "commit_accesses (local_ts_next tm1) (access_list tm1) (tm1\<lparr>local_ts_next := local_ts_next tm1 + 1\<rparr>) = Some tm2"
      "ok" "tm' = (ClearStates (fold release_handle (locked_handles tm2) (tm2\<lparr>access_list := []\<rparr>)))\<lparr>max_seen_ts := local_ts_next tm1\<rparr>"
    using assms(1) by (auto simp: commit_stage_def Let_def FetchAddMonotoneTimestamp_def tm1_def split: option.splits)
  have f: "latch_calls tm2 = latch_calls tm" "locked_handles tm2 = locked_handles tm" using commit_accesses_frame [OF tm2(1)] by (simp_all add: tm1_def)
  show "ok" "latch_calls tm' = latch_calls tm @ map (\<lambda>h. SELCC_Exclusive_UnLock (fst h)) (locked_handles tm)"
    "locked_handles tm' = []" "access_list tm' = []" "max_seen_ts tm < max_seen_ts tm'"
    using u64_suc [OF assms(3)] tm2(2) assms(4) release_handles [of "locked_handles tm" "tm2\<lparr>access_list := []\<rparr>"] assms(2)
    by (auto simp: tm2(3) f tm1_def EnsureCommitFloor_def)
qed


lemma validate_two:
  assumes "isolation_level tm = SNAPSHOT_ISOLATION" and "locked_handles tm = []" and "access_list tm = [a, b]" and "writes a" "writes b"
    and "gval (access_addr a) < gval (access_addr b)" and "TOPAGE (access_addr a) \<noteq> TOPAGE (access_addr b)" and "still_valid tm a"
  shows "\<exists>rest. latch_calls (snd (validate (sorted_access (access_list tm) 0 []) tm))
    = latch_calls tm @ [SELCC_Exclusive_Lock (TOPAGE (access_addr a)), SELCC_Exclusive_Lock (TOPAGE (access_addr b))] @ rest"
proof -
  let ?xs = "sorted_access (access_list tm) 0 []"
  have xs: "?xs = [(gval (access_addr a), 0), (gval (access_addr b), Suc 0)]" using assms(3,6) by auto
  let ?A = "(TOPAGE (access_addr a), access_type a)" and ?B = "(TOPAGE (access_addr b), access_type b)"
  have ab: "access_list tm ! 0 = a" "access_list tm ! Suc 0 = b" "access_list (latched [?A] tm) ! Suc 0 = b" using assms(3) by simp_all
  have ro: "access_type a \<noteq> READ_ONLY" "access_type b \<noteq> READ_ONLY" using assms(4,5) by (auto simp: writes_def)
  have "validate ?xs tm = validate [(gval (access_addr b), Suc 0)] (latched [?A] tm)"
    unfolding xs using validate_write [of tm 0 _ "[(gval (access_addr b), Suc 0)]"] assms(2,4,8) ab by simp
  also have "\<dots> = (if still_valid tm b then (True, latched [?A, ?B] tm)
      else (False, AbortTransaction (RegisterSeenTs (GetWTS (global_record (schema_ptr (txn_local_tuple b)) (access_addr b) (latched [?A] tm))) (latched [?A, ?B] tm))))"
    using validate_write [of "latched [?A] tm" "Suc 0" _ "[]"] assms(2,5,7) ab ro by simp
  finally have v: "validate ?xs tm = (if still_valid tm b then (True, latched [?A, ?B] tm)
      else (False, AbortTransaction (RegisterSeenTs (GetWTS (global_record (schema_ptr (txn_local_tuple b)) (access_addr b) (latched [?A] tm))) (latched [?A, ?B] tm))))" .
  have "locked_handles (RegisterSeenTs wts (latched [?A, ?B] tm)) = [?A, ?B]"
    "latch_calls (RegisterSeenTs wts (latched [?A, ?B] tm)) = latch_calls tm @ map (\<lambda>h. SELCC_Exclusive_Lock (fst h)) [?A, ?B]" for wts
    using assms(2) by (simp_all add: RegisterSeenTs_def latched_def)
  then show ?thesis using AbortTransaction_effect(1) ro by (auto simp: v latched_def)
qed

text \<open>C35: the latches of two commits can cross.  The accesses are ordered by the value of the tuple addresses, in which the
  offset comes before the region, so for tuples at offsets \<open>x < y\<close> of one page of the regions \<open>m\<close> and \<open>n\<close> a transaction
  that writes \<open>(m, x)\<close> and \<open>(n, y)\<close> latches the page of \<open>m\<close> first, and one that writes \<open>(n, x)\<close> and \<open>(m, y)\<close> the page of
  \<open>n\<close>: each can wait for the other, although the order is there to avoid deadlocks.\<close>

theorem commit_latches_can_cross:
  assumes "m \<noteq> n" and "x < y" and "page_base (unat x) = page_base (unat y)"
    and "isolation_level tm1 = SNAPSHOT_ISOLATION" "locked_handles tm1 = []" "access_list tm1 = [a, b]" "writes a" "writes b" "still_valid tm1 a"
    and "isolation_level tm2 = SNAPSHOT_ISOLATION" "locked_handles tm2 = []" "access_list tm2 = [c, d]" "writes c" "writes d" "still_valid tm2 c"
    and "access_addr a = GlobalAddress m x" "access_addr b = GlobalAddress n y" "access_addr c = GlobalAddress n x" "access_addr d = GlobalAddress m y"
  shows "\<exists>P Q rest1 rest2. P \<noteq> Q
    \<and> latch_calls (snd (validate (sorted_access (access_list tm1) 0 []) tm1)) = latch_calls tm1 @ [SELCC_Exclusive_Lock P, SELCC_Exclusive_Lock Q] @ rest1
    \<and> latch_calls (snd (validate (sorted_access (access_list tm2) 0 []) tm2)) = latch_calls tm2 @ [SELCC_Exclusive_Lock Q, SELCC_Exclusive_Lock P] @ rest2"
proof -
  have page: "TOPAGE (GlobalAddress k x) = TOPAGE (GlobalAddress k y)" for k
    using assms(3) TOPAGE_page_base [of "GlobalAddress k x"] TOPAGE_page_base [of "GlobalAddress k y"] by (simp add: GlobalAddress.expand word_unat_eq_iff)
  have ne: "TOPAGE (GlobalAddress m x) \<noteq> TOPAGE (GlobalAddress n z)" "TOPAGE (GlobalAddress n x) \<noteq> TOPAGE (GlobalAddress m z)" for z
    using assms(1) TOPAGE_page_base(1) by (metis GlobalAddress.sel(1))+
  have lt: "gval (GlobalAddress k x) < gval (GlobalAddress l y)" for k l using assms(2) by (simp add: gval_less_iff)
  obtain r1 where "latch_calls (snd (validate (sorted_access (access_list tm1) 0 []) tm1))
      = latch_calls tm1 @ [SELCC_Exclusive_Lock (TOPAGE (GlobalAddress m x)), SELCC_Exclusive_Lock (TOPAGE (GlobalAddress n y))] @ r1"
    using validate_two [OF assms(4-8)] assms(9,16,17) lt ne by auto
  moreover obtain r2 where "latch_calls (snd (validate (sorted_access (access_list tm2) 0 []) tm2))
      = latch_calls tm2 @ [SELCC_Exclusive_Lock (TOPAGE (GlobalAddress n x)), SELCC_Exclusive_Lock (TOPAGE (GlobalAddress m y))] @ r2"
    using validate_two [OF assms(10-14)] assms(15,18,19) lt ne by auto
  ultimately show ?thesis using ne(1) page by metis
qed

section \<open>The redo record of an update\<close>

lemma update_payload_meta:
  assumes "layout_ok (schema_ptr l)" "dirty_col_ids l = []"
  shows "update_payload (PutMeta meta l) off page = encode_ops
    [UPDATE_BYTES (of_nat (off + meta_off (schema_ptr l))) (of_nat kMetaSize) (load_bytes (off + meta_off (schema_ptr l)) kMetaSize page),
     UPDATE_BYTES (of_nat (off + meta_off (schema_ptr l))) (of_nat kMetaSize) (meta_bytes meta)]"
proof -
  let ?s = "schema_ptr l"
  note P = PutMeta_data [OF assms(1), of meta]
  have d: "dirty_col_ids (PutMeta meta l) = [GetMetaColumnId ?s]" using assms(2) by (simp add: PutMeta_def SetColumn_def set_insert_def)
  have sz: "GetColumnSize ?s (GetMetaColumnId ?s) = kMetaSize" using assms(1) unfolding layout_ok_def by blast
  show ?thesis unfolding update_payload_def Let_def d P(2,3) encode_ops_def AddOp_def by (simp add: sz)
qed

lemma replay_meta_record:
  assumes "page_phys P page_g = base" "base \<noteq> 0" "length bs = kMetaSize" "length cs = kMetaSize" "off < 2 ^ 32"
  shows "ProcessLogRecord P (mk_header page_g ver len) (encode_ops [UPDATE_BYTES (of_nat off) (of_nat kMetaSize) bs, UPDATE_BYTES (of_nat off) (of_nat kMetaSize) cs]) m
    = (True, store_bytes (base + off) cs (store_bytes (base + off) bs m))"
proof -
  have off: "unat (of_nat off :: u32) = off" "unat (of_nat kMetaSize :: u32) = kMetaSize"
    using assms(5) by (intro unat_of_nat_small, simp add: kMetaSize_def)+
  then have "list_all op_wf [UPDATE_BYTES (of_nat off) (of_nat kMetaSize) bs, UPDATE_BYTES (of_nat off) (of_nat kMetaSize) cs]" using assms(3,4) by simp
  from decode_encode_ops [OF this] show ?thesis using assms(1-4) off by (simp add: ProcessLogRecord_def mk_header_def apply_ops_def)
qed

lemma load_bytes_shift: "load_bytes a n (\<lambda>x. f (b + x)) = load_bytes (b + a) n f"
  by (simp add: load_bytes_def list_eq_iff_nth_eq add.assoc)

lemma column_of_copy:
  assumes "page_at base (data_pages tm (TOPAGE g)) m" "\<And>x. x < base + tuple_offset g + meta_off s \<Longrightarrow> m' x = m x"
    "GetColumnOffset s c + GetColumnSize s c \<le> meta_off s" "DATA_OFF \<le> tuple_offset g" "tuple_offset g + meta_off s \<le> kLeafPageSize"
  shows "load_bytes (base + tuple_offset g + GetColumnOffset s c) (GetColumnSize s c) m' = GetColumn c (global_record s g tm)"
proof -
  have "load_bytes (tuple_offset g + GetColumnOffset s c) (GetColumnSize s c) (\<lambda>x. m' (base + x))
      = load_bytes (tuple_offset g + GetColumnOffset s c) (GetColumnSize s c) (data_pages tm (TOPAGE g))"
  proof (rule load_bytes_cong)
    fix x assume x: "tuple_offset g + GetColumnOffset s c \<le> x" "x < tuple_offset g + GetColumnOffset s c + GetColumnSize s c"
    then have "m' (base + x) = m (base + x)" using assms(2,3) by simp
    then show "m' (base + x) = data_pages tm (TOPAGE g) x" using x assms(1,3-5) by (simp add: page_at_def DATA_OFF_def)
  qed
  then show ?thesis unfolding GetColumn_def global_record_def Record_new_def Record.select_convs load_bytes_shift by (simp add: add.assoc)
qed

lemma wts_of_copy: "GetWTS (Record_new s (\<lambda>x. store_bytes (a + meta_off s) (meta_bytes meta) m (a + x))) = Wts meta"
proof -
  have "load_bytes (meta_off s) 37 (\<lambda>x. store_bytes (a + meta_off s) (meta_bytes meta) m (a + x)) = load_bytes (meta_off s) 37 (store_bytes (meta_off s) (meta_bytes meta) (\<lambda>_. 0))"
    unfolding load_bytes_shift by simp
  from meta_at_cong [OF this] have "meta_at (meta_off s) (\<lambda>x. store_bytes (a + meta_off s) (meta_bytes meta) m (a + x)) = meta" by simp
  then show ?thesis by (simp add: GetWTS_def GetMeta_def Record_new_def)
qed

text \<open>C33: the redo record of a committed update does not contain the update.  The columns that the transaction changed are
  no longer marked when the record is built, and the columns that are logged are read from the page before it is written: a
  replica that replays the record has the new timestamp and still the old value of every column, while the page has the
  new ones.\<close>

theorem update_not_replayed:
  assumes "commit_access ts a tm = Some tm'" and "access_type a = READ_WRITE" and "dirty_col_ids (txn_local_tuple a) \<noteq> []" and "log_enabled tm"
    and "s = schema_ptr (txn_local_tuple a)" and "layout_ok s" and "g = access_addr a" and "DATA_OFF \<le> tuple_offset g"
    and "tuple_offset g + GetRecordTotalSize s \<le> kLeafPageSize" and "page_phys P (TOPAGE g) = base" and "base \<noteq> 0"
    and "page_at base (data_pages tm (TOPAGE g)) m" and "c < GetMetaColumnId s"
  shows "\<exists>ver payload. txn_log tm' = txn_log tm @ [(nodeID g, TOPAGE g, ver, payload)]
    \<and> (case ProcessLogRecord P (mk_header (TOPAGE g) ver (of_nat (length payload))) payload m of (ok, m') \<Rightarrow>
         ok \<and> load_bytes (base + tuple_offset g + GetColumnOffset s c) (GetColumnSize s c) m' = GetColumn c (global_record s g tm)
         \<and> GetWTS (Record_new s (\<lambda>x. m' (base + tuple_offset g + x))) = ts)
    \<and> GetColumn c (global_record s g tm') = GetColumn c (txn_local_tuple a)"
proof -
  let ?l = "txn_local_tuple a" and ?off = "tuple_offset g + meta_off s"
  obtain ga n w r where r_def: "r = PutMeta ((GetMeta ?l)\<lparr>prev_version := ga, prev_delta_epoch := of_nat (ds_epoch w), prev_delta_data_size := of_nat n, Wts := ts\<rparr>) (?l\<lparr>dirty_col_ids := []\<rparr>)"
    and tm'0: "tm' = write_tuple (access_addr a) r (LogDataUpdateOperation (a\<lparr>txn_local_tuple := r\<rparr>) (tm\<lparr>delta_sections := AList.update (ds_for_write tm) w (delta_sections tm)\<rparr>))"
    using commit_update_cases [OF assms(1-3)] by (elim exE conjE)
  define meta where "meta = (GetMeta ?l)\<lparr>prev_version := ga, prev_delta_epoch := of_nat (ds_epoch w), prev_delta_data_size := of_nat n, Wts := ts\<rparr>"
  note r_def = r_def [folded meta_def]
  define tm1 where "tm1 = tm\<lparr>delta_sections := AList.update (ds_for_write tm) w (delta_sections tm)\<rparr>"
  define page where "page = put_u64 P_VERSION_OFF (index_version (data_pages tm (TOPAGE g)) + 1) (data_pages tm (TOPAGE g))"
  have tm': "tm' = write_tuple g r (LogDataUpdateOperation (a\<lparr>txn_local_tuple := r\<rparr>) tm1)"
    using tm'0 assms(7) by (simp add: tm1_def)
  have P: "data_ptr r = store_bytes (meta_off s) (meta_bytes meta) (data_ptr ?l)" "schema_ptr r = s"
    using PutMeta_data [of "?l\<lparr>dirty_col_ids := []\<rparr>" meta] assms(5,6) by (simp_all add: r_def)
  define ops where "ops = [UPDATE_BYTES (of_nat ?off) (of_nat kMetaSize) (load_bytes ?off kMetaSize page), UPDATE_BYTES (of_nat ?off) (of_nat kMetaSize) (meta_bytes meta)]"
  have log: "txn_log tm' = txn_log tm @ [(nodeID g, TOPAGE g, index_version (data_pages tm (TOPAGE g)) + 1, encode_ops ops)]"
    using assms(4,5,7) update_payload_meta [of "?l\<lparr>dirty_col_ids := []\<rparr>" meta] assms(6)
    by (simp add: tm' write_tuple_def LogDataUpdateOperation_def Let_def tm1_def page_def ops_def r_def)
  have col: "GetColumnOffset s c + GetColumnSize s c \<le> meta_off s" by (rule other_column_meta [OF assms(6,13)])
  have "GetMetaColumnId s < column_count s" using assms(6) by (auto simp: layout_ok_def GetMetaColumnId_def)
  then have tot: "meta_off s + kMetaSize \<le> GetRecordTotalSize s" using assms(6) unfolding layout_ok_def by metis
  define m' where "m' = store_bytes (base + ?off) (meta_bytes meta) (store_bytes (base + ?off) (load_bytes ?off kMetaSize page) m)"
  have rep: "ProcessLogRecord P (mk_header (TOPAGE g) ver len) (encode_ops ops) m = (True, m')" for ver len
    unfolding ops_def m'_def using assms(9-11) tot by (intro replay_meta_record) (simp_all add: kMetaSize_def kLeafPageSize_def)
  have frame: "m' x = m x" if "x < base + ?off" for x using that by (simp add: m'_def store_bytes_def)
  have "load_bytes (base + tuple_offset g + GetColumnOffset s c) (GetColumnSize s c) m' = GetColumn c (global_record s g tm)"
    using tot by (intro column_of_copy [OF assms(12) _ col assms(8)]) (use frame assms(9) in \<open>simp_all add: add.assoc\<close>)
  moreover have "GetWTS (Record_new s (\<lambda>x. m' (base + tuple_offset g + x))) = ts"
    using wts_of_copy [of s "base + tuple_offset g" meta] by (simp add: m'_def add.assoc meta_def)
  moreover have "GetColumn c (global_record s g tm') = GetColumn c ?l"
  proof -
    have "data_pages tm' (TOPAGE g) = store_bytes (tuple_offset g) (load_bytes 0 (GetRecordTotalSize s) (data_ptr r)) page"
      by (simp add: tm' write_tuple_def LogDataUpdateOperation_def Let_def tm1_def P(2) page_def assms(7) [symmetric])
    then have "load_bytes (GetColumnOffset s c) (GetColumnSize s c) (\<lambda>x. data_pages tm' (TOPAGE g) (tuple_offset g + x)) = load_bytes (GetColumnOffset s c) (GetColumnSize s c) (data_ptr ?l)"
      using col tot by (intro load_bytes_cong) (simp add: store_bytes_def P(1) kMetaSize_def)
    then show ?thesis by (simp add: GetColumn_def global_record_def Record_new_def assms(5))
  qed
  ultimately show ?thesis using log rep by (intro exI) auto
qed

section \<open>The floor of the garbage collection\<close>

lemma least_sp_lower: "(n, l) \<in> set (cluster_least_sp tm) \<Longrightarrow> least_sp_across_cluster tm \<le> l"
proof -
  have low: "fold (\<lambda>e m. if snd e < m then snd e else m) es m \<le> m \<and> (\<forall>e \<in> set es. fold (\<lambda>e m. if snd e < m then snd e else m) es m \<le> snd e)"
    for es :: "(nat \<times> u64) list" and m
  proof (induction es arbitrary: m)
    case (Cons e es)
    let ?m = "if snd e < m then snd e else m"
    have "?m \<le> m" "?m \<le> snd e" by auto
    then show ?case using Cons.IH [of ?m] by (auto intro: order_trans)
  qed simp
  assume "(n, l) \<in> set (cluster_least_sp tm)"
  then show ?thesis using low [where es = "cluster_least_sp tm" and m = "- 1"] unfolding least_sp_across_cluster_def by force
qed

lemma least_pinned: "sorted_wrt (<) (map fst (pined_snapshot_this_node tm)) \<Longrightarrow> (s, c) \<in> set (pined_snapshot_this_node tm) \<Longrightarrow> least_sp_this_node l tm \<le> s"
  by (cases "pined_snapshot_this_node tm") (auto simp: least_sp_this_node_def)

text \<open>Taking and releasing a snapshot keep the pinned snapshots sorted, and count them.\<close>

lemma AList_update_keys: "k \<in> fst ` set m \<Longrightarrow> map fst (AList.update k v m) = map fst m"
  by (induction m) (auto split: if_splits)

lemma snapshot_pins:
  assumes "sorted_wrt (<) (map fst (pined_snapshot_this_node tm))"
  shows "sorted_wrt (<) (map fst (pined_snapshot_this_node (GetSnapshot tm)))" "sorted_wrt (<) (map fst (pined_snapshot_this_node (ReleaseSnapshot tm)))"
    "snapshot_ts (GetSnapshot tm) \<in> set (map fst (pined_snapshot_this_node (GetSnapshot tm)))"
proof -
  have upd: "sorted_wrt (<) (map fst (AList.update k v (pined_snapshot_this_node tm)))" if "map_of (pined_snapshot_this_node tm) k = Some x" for k v x
    using assms AList_update_keys [of k "pined_snapshot_this_node tm" v] map_of_SomeD [OF that] by (metis fst_conv image_eqI)
  have del: "sorted_wrt (<) (map fst (AList.delete k (pined_snapshot_this_node tm)))" for k
    using assms by (simp add: AList.delete_eq sorted_wrt_map sorted_wrt_filter)
  show "sorted_wrt (<) (map fst (pined_snapshot_this_node (GetSnapshot tm)))"
    using upd ordered_insert_sorted [OF assms] by (auto simp: GetSnapshot_def Let_def split: option.splits)
  show "sorted_wrt (<) (map fst (pined_snapshot_this_node (ReleaseSnapshot tm)))"
    using upd del ordered_insert_sorted [OF assms] by (auto simp: ReleaseSnapshot_def Let_def split: option.splits)
  have "local_ts_next tm \<in> set (map fst (ordered_insert (local_ts_next tm) 1 (pined_snapshot_this_node tm)))" unfolding ordered_insert_keys by simp
  then show "snapshot_ts (GetSnapshot tm) \<in> set (map fst (pined_snapshot_this_node (GetSnapshot tm)))"
    by (auto simp: GetSnapshot_def Let_def GetMonotoneTimestamp_def AList.update_conv' dom_map_of_conv_image_fst [symmetric] split: option.splits)
qed

lemma announce_effect:
  assumes "announce_least_sp compute_nodes gc tm = (msg, gc', tm')"
  shows "delta_sections tm' = delta_sections tm" "ds_for_write tm' = ds_for_write tm"
    "\<exists>l. map_of (cluster_least_sp tm') (node_id tm) = Some (least_sp_this_node l tm)"
    "n \<noteq> node_id tm \<Longrightarrow> map_of (cluster_least_sp tm) n = Some k \<Longrightarrow> map_of (cluster_least_sp tm') n = Some k"
proof -
  have "least_sp_this_node l (tm\<lparr>largest_sp_acquired := x\<rparr>) = least_sp_this_node l tm" for l x by (simp add: least_sp_this_node_def)
  then have "map_of (cluster_least_sp tm') (node_id tm)
      = Some (least_sp_this_node (if largest_snapshot gc < largest_sp_acquired tm then largest_sp_acquired tm else GetMonotoneTimestamp tm) tm)"
    using assms by (auto simp: announce_least_sp_def Let_def AList.update_conv' split: if_splits)
  then show "\<exists>l. map_of (cluster_least_sp tm') (node_id tm) = Some (least_sp_this_node l tm)" by blast
  show "delta_sections tm' = delta_sections tm" "ds_for_write tm' = ds_for_write tm"
    "n \<noteq> node_id tm \<Longrightarrow> map_of (cluster_least_sp tm) n = Some k \<Longrightarrow> map_of (cluster_least_sp tm') n = Some k"
    using assms by (auto simp: announce_least_sp_def Let_def AList.update_conv' split: if_splits)
qed

text \<open>C12: a round of the garbage collection keeps what a reader may need.  The round returns, and every delta that was
  overwritten at or after a snapshot pinned on this node, or at or after the least snapshot that another node has announced,
  is still in the ring afterwards.\<close>

theorem gc_keeps_needed:
  assumes "map_of (delta_sections tm) (ds_for_write tm) = Some w" and "ring_history w q" and "sorted_wrt (<) (map fst (pined_snapshot_this_node tm))"
    and "GarbageCollection compute_nodes gc tm = res"
  shows "\<exists>msg gc' tm' q'. res = Some (msg, gc', tm') \<and> ring_history (own_section tm') q'
    \<and> (\<forall>d \<in> set q. (\<exists>s c. (s, c) \<in> set (pined_snapshot_this_node tm) \<and> s \<le> snd (snd d))
         \<or> (\<exists>n l. n \<noteq> node_id tm \<and> map_of (cluster_least_sp tm) n = Some l \<and> l \<le> snd (snd d)) \<longrightarrow> d \<in> set q')"
proof -
  obtain msg gc1 tm1 where st: "announce_least_sp compute_nodes gc tm = (msg, gc1, tm1)" by (cases "announce_least_sp compute_nodes gc tm") auto
  note A = announce_effect [OF st]
  define all where "all = least_sp_across_cluster tm1"
  have l1: "all \<le> s" if "(s, c) \<in> set (pined_snapshot_this_node tm)" for s c
    using A(3) least_pinned [OF assms(3) that] least_sp_lower map_of_SomeD unfolding all_def by (metis order_trans)
  have l2: "all \<le> l" if "n \<noteq> node_id tm" "map_of (cluster_least_sp tm) n = Some l" for n l
    using A(4) that least_sp_lower map_of_SomeD unfolding all_def by metis
  have need: "all \<le> snd (snd d)" if "(\<exists>s c. (s, c) \<in> set (pined_snapshot_this_node tm) \<and> s \<le> snd (snd d))
      \<or> (\<exists>n l. n \<noteq> node_id tm \<and> map_of (cluster_least_sp tm) n = Some l \<and> l \<le> snd (snd d))" for d :: delta
    using that l1 l2 by (meson order_trans)
  obtain w' where w': "GarbageCollectionBySnapshot all w = Some w'" "ring_history w' (dropWhile (\<lambda>(a, bs, ts). ts < all) q)"
    using gc_drops ring_history_inv [OF assms(2)] ring_gc [OF assms(2)] by (metis GarbageCollectionBySnapshot_def)
  have keep: "d \<in> set (dropWhile (\<lambda>(a, bs, ts). ts < all) q)" if "d \<in> set q" "all \<le> snd (snd d)" for d
  proof -
    have "d \<in> set (takeWhile (\<lambda>(a, bs, ts). ts < all) q) \<or> d \<in> set (dropWhile (\<lambda>(a, bs, ts). ts < all) q)"
      using that(1) by (metis Un_iff set_append takeWhile_dropWhile_id)
    then show ?thesis using that(2) by (auto dest: set_takeWhileD)
  qed
  have "own_section tm1 = w" using assms(1) A(1,2) by (simp add: own_section_def)
  then have "(\<exists>msg gc' tm'. res = Some (msg, gc', tm') \<and> own_section tm' = w') \<or> (\<exists>msg gc' tm'. res = Some (msg, gc', tm') \<and> own_section tm' = w)"
    using w'(1) assms(4) by (auto simp: GarbageCollection_def st Let_def all_def [symmetric] own_section_def AList.update_conv')
  then show ?thesis
  proof
    assume "\<exists>msg gc' tm'. res = Some (msg, gc', tm') \<and> own_section tm' = w'"
    then show ?thesis using w'(2) keep need by blast
  next
    assume "\<exists>msg gc' tm'. res = Some (msg, gc', tm') \<and> own_section tm' = w"
    then show ?thesis using assms(2) by blast
  qed
qed

section \<open>A concrete node\<close>

definition demo_addr :: GlobalAddress where "demo_addr = GlobalAddress 5 100"

definition demo_node :: TransactionManager where
  "demo_node = \<lparr>node_id = 2, local_ts_next = 9, largest_sp_acquired = 9, pined_snapshot_this_node = [(9, 1)], cluster_least_sp = [(0, 4)],
    delta_sections = [(GlobalAddress 2 0, demo_ring)], ds_for_write = GlobalAddress 2 0, snapshot_ts = 9, is_first_access = False, pure_read_txn = False,
    have_rolled_back = False, plain_occ = False, max_seen_ts = 0, isolation_level = SNAPSHOT_ISOLATION, log_enabled = True, access_list = [],
    locked_handles = [], data_pages = (\<lambda>_ _. 0), txn_log = [], pri_index = [], latch_calls = []\<rparr>"

definition demo_access :: "GlobalAddress \<Rightarrow> Access" where
  "demo_access a = \<lparr>access_type = READ_WRITE, txn_local_tuple = UpdateColumn 2 (le_bytes 8 (5 :: u64)) (Record_new demo_schema (\<lambda>_. 0)),
    access_addr = a, primary_key_buffer = []\<rparr>"

lemma demo_columns: "GetColumnOffset demo_schema 2 = 16" "GetColumnSize demo_schema 2 = 8" "GetMetaColumnId demo_schema = 3" "GetColumnOffset demo_schema 3 = 24"
  "column_count demo_schema = 4" "GetRecordTotalSize demo_schema = 61"
  by (simp_all add: demo_schema_eq RecordSchema_new_def GetMetaColumnId_def GetColumnSize_def GetColumnOffset_def GetRecordTotalSize_def)

lemma demo_local: "schema_ptr (txn_local_tuple (demo_access a)) = demo_schema" "dirty_col_ids (txn_local_tuple (demo_access a)) = [2]"
  "data_ptr (txn_local_tuple (demo_access a)) = store_bytes 16 (le_bytes 8 (5 :: u64)) (\<lambda>_. 0)" "estimate_delta_size (txn_local_tuple (demo_access a)) = 65"
  "access_type (demo_access a) = READ_WRITE" "access_addr (demo_access a) = a"
  by (simp_all add: demo_access_def UpdateColumn_def Record_new_def set_insert_def demo_columns estimate_delta_size_def DELTA_DATA_OFF_def)

lemma demo_page_of: "TOPAGE demo_addr = GlobalAddress 5 0" "tuple_offset demo_addr = 100"
  by (simp_all add: demo_addr_def TOPAGE_def tuple_offset_def Alloc_Granu_def kLeafPageSize_def)

lemma le_word_zeros: "le_word (load_bytes x n (\<lambda>_. 0)) = 0"
proof -
  have "le_word (map (\<lambda>_. 0) xs) = (0 :: 'a::len word)" for xs :: "nat list" by (induction xs) simp_all
  then show "le_word (load_bytes x n (\<lambda>_. 0)) = (0 :: 'a::len word)" unfolding load_bytes_def .
qed

lemma demo_global: "GetMeta (global_record demo_schema a demo_node) = \<lparr>Wts = 0, prev_version = GlobalAddress_Null, prev_delta_epoch = 0, prev_delta_data_size = 0, next_version_ts = 0, is_visible = False\<rparr>"
  by (simp add: le_word_zeros GetMeta_def meta_at_def global_record_def Record_new_def demo_node_def demo_columns get_u64_def get_u32_def get_addr_def get_u8_def gaddr_of_val_def GlobalAddress_Null_def)

lemma demo_space: "tuple_space {demo_addr} (\<lambda>_. demo_schema)"
  by (simp add: tuple_space_def demo_layout demo_page_of DATA_OFF_def)

lemma demo_history: "mv_history {demo_addr} (\<lambda>_. demo_schema) demo_node (\<lambda>a. [global_record demo_schema a demo_node]) 0"
proof (rule mv_init)
  show "demo_ring = DeltaSectionWrap_new (node_id demo_node) (ds_for_write demo_node) 1000 demo_slot" by (simp add: demo_ring_def demo_node_def)
  show "delta_sections demo_node = [(ds_for_write demo_node, demo_ring)]" by (simp add: demo_node_def)
  show "ring_placed demo_ring" by (simp add: ring_placed_def demo_ring_def DeltaSectionWrap_new_def demo_slot_def DS_HEADER_def)
qed (simp_all add: demo_slot_def demo_global)

lemma demo_changed: "changed_from (global_record demo_schema a demo_node) (txn_local_tuple (demo_access b))"
proof -
  have "load_bytes 24 37 (store_bytes 16 (le_bytes 8 (5 :: u64)) (\<lambda>_. 0)) = load_bytes 24 37 (\<lambda>_. 0)" by (simp add: load_store_disjoint)
  from meta_at_cong [OF this] have "GetMeta (txn_local_tuple (demo_access b)) = GetMeta (global_record demo_schema a demo_node)"
    by (simp add: GetMeta_def demo_local demo_columns global_record_def Record_new_def demo_node_def)
  then show ?thesis
    by (auto simp: changed_from_def demo_local demo_columns differs_in_def covered_def in_column_def global_record_def Record_new_def demo_node_def store_bytes_def)
qed

lemma demo_fit: "fits_ring 65 demo_ring" "has_room 65 demo_ring" "own_section demo_node = demo_ring"
  by (simp_all add: fits_ring_def has_room_def demo_ring_def DeltaSectionWrap_new_def demo_slot_def DS_HEADER_def own_section_def demo_node_def)

lemma demo_commit_any:
  assumes "delta_sections tm = [(GlobalAddress 2 0, demo_ring)]" "ds_for_write tm = GlobalAddress 2 0"
  shows "\<exists>tm'. commit_access ts (demo_access a) tm = Some tm'"
proof -
  have own: "own_section tm = demo_ring" using assms by (simp add: own_section_def)
  have "ring_inv demo_ring []" by (simp add: ring_inv_def demo_ring_def DeltaSectionWrap_new_def demo_slot_def DS_HEADER_def)
  then obtain ga n w where "fill_in_delta_record_single (txn_local_tuple (demo_access a)) (global_record demo_schema a tm) ts demo_ring = Some ((ga, n), w)"
    using fill_appends [of demo_ring "[]" "txn_local_tuple (demo_access a)" "global_record demo_schema a tm" ts] demo_fit demo_local by auto
  then show ?thesis by (simp add: commit_access_def Let_def demo_local own)
qed

lemma demo_commit: "\<exists>tm'. commit_access ts (demo_access a) demo_node = Some tm'"
  by (rule demo_commit_any) (simp_all add: demo_node_def)


theorem snapshot_not_stable_witness:
  "\<exists>tm' r1 r2 tm1 tm2. commit_access 9 (demo_access demo_addr) demo_node = Some tm'
    \<and> SelectRecordCC (\<lambda>_. demo_ring) demo_schema demo_addr READ_ONLY demo_node = Some (True, Some r1, tm1)
    \<and> SelectRecordCC (\<lambda>_. demo_ring) demo_schema demo_addr READ_ONLY tm' = Some (True, Some r2, tm2) \<and> GetWTS r1 < GetWTS r2"
proof -
  obtain tm' where c: "commit_access 9 (demo_access demo_addr) demo_node = Some tm'" using demo_commit by blast
  have n: "(0 :: u64) \<le> snapshot_ts demo_node" "\<not> is_first_access demo_node" "\<not> plain_occ demo_node" "isolation_level demo_node = SNAPSHOT_ISOLATION"
    "snapshot_ts demo_node = GetMonotoneTimestamp demo_node" "9 = fst (FetchAddMonotoneTimestamp demo_node)"
    by (simp_all add: demo_node_def GetMonotoneTimestamp_def FetchAddMonotoneTimestamp_def)
  have "GetWTS (global_record demo_schema demo_addr demo_node) < 9" by (simp add: GetWTS_def demo_global)
  then show ?thesis using snapshot_not_stable [OF demo_history demo_space n(1-6) c, of demo_addr "\<lambda>_. demo_ring"] demo_local demo_changed demo_fit c by auto
qed

theorem gc_keeps_needed_witness:
  "\<exists>w bs msg gc tm' q'. ring_history w [(0, bs, 9)]
    \<and> GarbageCollection 2 \<lparr>last_broadcasted_sp = 0, last_gc_ts = 0, largest_snapshot = 0\<rparr> (demo_node\<lparr>delta_sections := [(GlobalAddress 2 0, w)]\<rparr>) = Some (msg, gc, tm')
    \<and> ring_history (own_section tm') q' \<and> (0, bs, 9) \<in> set q'"
proof -
  let ?l = "txn_local_tuple (demo_access demo_addr)"
  have h: "ring_history demo_ring []" unfolding demo_ring_def by (rule ring_new) (simp_all add: demo_slot_def)
  obtain w where f: "fill_in_delta_record_single ?l ?l 9 demo_ring = Some ((delta_address 0 demo_ring, 65), w)"
    using fill_appends [of demo_ring "[]" ?l ?l 9] ring_history_inv [OF h] demo_fit demo_local
    by (auto simp: place_of_def demo_ring_def DeltaSectionWrap_new_def demo_slot_def DS_HEADER_def)
  define bs where "bs = load_bytes 0 65 (ds_local w)"
  have p: "place_of 65 demo_ring = 0" by (simp add: place_of_def demo_ring_def DeltaSectionWrap_new_def demo_slot_def DS_HEADER_def)
  have w: "ring_history w [(0, bs, 9)]" using ring_fill [OF h f demo_fit(1)] by (simp add: p bs_def)
  let ?tm = "demo_node\<lparr>delta_sections := [(GlobalAddress 2 0, w)]\<rparr>"
  have m: "map_of (delta_sections ?tm) (ds_for_write ?tm) = Some w" "sorted_wrt (<) (map fst (pined_snapshot_this_node ?tm))" "(9, 1) \<in> set (pined_snapshot_this_node ?tm)"
    by (simp_all add: demo_node_def)
  show ?thesis using gc_keeps_needed [OF m(1) w m(2) refl, of 2 "\<lparr>last_broadcasted_sp = 0, last_gc_ts = 0, largest_snapshot = 0\<rparr>"] m(3) w by fastforce
qed

theorem update_not_replayed_witness:
  "\<exists>tm' ver payload. commit_access 12 (demo_access demo_addr) demo_node = Some tm' \<and> txn_log tm' = [(5, GlobalAddress 5 0, ver, payload)]
    \<and> load_bytes (4096 + 116) 8 (snd (ProcessLogRecord (lm_node demo_manager) (mk_header (GlobalAddress 5 0) ver (of_nat (length payload))) payload (\<lambda>_. 0))) = replicate 8 0
    \<and> GetColumn 2 (global_record demo_schema demo_addr tm') = le_bytes 8 (5 :: u64)"
proof -
  let ?a = "demo_access demo_addr"
  obtain tm' where c: "commit_access 12 ?a demo_node = Some tm'" using demo_commit by blast
  have pg: "page_at 4096 (data_pages demo_node (TOPAGE demo_addr)) (\<lambda>_. 0)" by (simp add: page_at_def demo_node_def)
  have "GetColumn 2 (global_record demo_schema demo_addr demo_node) = replicate 8 0"
    unfolding GetColumn_def global_record_def Record_new_def demo_node_def TransactionManager.select_convs Record.select_convs load_bytes_def map_replicate_const
    by (simp add: demo_columns) (simp add: eval_nat_numeral)
  moreover have "GetColumn 2 (txn_local_tuple ?a) = le_bytes 8 (5 :: u64)" by (simp add: GetColumn_def demo_local demo_columns)
  moreover obtain ver payload where "txn_log tm' = txn_log demo_node @ [(nodeID demo_addr, TOPAGE demo_addr, ver, payload)]"
    "case ProcessLogRecord (lm_node demo_manager) (mk_header (TOPAGE demo_addr) ver (of_nat (length payload))) payload (\<lambda>_. 0) of (ok, m') \<Rightarrow>
       ok \<and> load_bytes (4096 + tuple_offset demo_addr + GetColumnOffset demo_schema 2) (GetColumnSize demo_schema 2) m' = GetColumn 2 (global_record demo_schema demo_addr demo_node)
       \<and> GetWTS (Record_new demo_schema (\<lambda>x. m' (4096 + tuple_offset demo_addr + x))) = 12"
    "GetColumn 2 (global_record demo_schema demo_addr tm') = GetColumn 2 (txn_local_tuple ?a)"
    using update_not_replayed [OF c, where s = demo_schema and g = demo_addr and P = "lm_node demo_manager" and base = 4096 and m = "\<lambda>_. 0" and c = 2]
      demo_local demo_layout demo_page_of demo_columns pg demo_page by (auto simp: DATA_OFF_def kLeafPageSize_def demo_node_def)
  moreover have "txn_log demo_node = []" "nodeID demo_addr = 5" by (simp_all add: demo_node_def demo_addr_def)
  ultimately show ?thesis using c by (auto simp: demo_page_of demo_columns split: prod.splits)
qed

lemma demo_valid: "data_pages tm = data_pages demo_node \<Longrightarrow> still_valid tm (demo_access a)"
  using demo_global [of a] by (simp add: still_valid_def demo_local GetWTS_def global_record_def)

lemma demo_writes: "writes (demo_access a)"
  by (simp add: writes_def demo_local)


theorem commit_latches_can_cross_witness:
  "\<exists>P Q rest1 rest2. P \<noteq> Q
    \<and> latch_calls (snd (validate (sorted_access [demo_access (GlobalAddress 5 100), demo_access (GlobalAddress 6 200)] 0 []) (demo_node\<lparr>access_list := [demo_access (GlobalAddress 5 100), demo_access (GlobalAddress 6 200)]\<rparr>)))
        = [SELCC_Exclusive_Lock P, SELCC_Exclusive_Lock Q] @ rest1
    \<and> latch_calls (snd (validate (sorted_access [demo_access (GlobalAddress 6 100), demo_access (GlobalAddress 5 200)] 0 []) (demo_node\<lparr>access_list := [demo_access (GlobalAddress 6 100), demo_access (GlobalAddress 5 200)]\<rparr>)))
        = [SELCC_Exclusive_Lock Q, SELCC_Exclusive_Lock P] @ rest2"
proof -
  let ?tm1 = "demo_node\<lparr>access_list := [demo_access (GlobalAddress 5 100), demo_access (GlobalAddress 6 200)]\<rparr>"
  let ?tm2 = "demo_node\<lparr>access_list := [demo_access (GlobalAddress 6 100), demo_access (GlobalAddress 5 200)]\<rparr>"
  have t: "isolation_level ?tm1 = SNAPSHOT_ISOLATION" "locked_handles ?tm1 = []" "isolation_level ?tm2 = SNAPSHOT_ISOLATION" "locked_handles ?tm2 = []"
    "latch_calls ?tm1 = []" "latch_calls ?tm2 = []" "(5 :: u16) \<noteq> 6" "(100 :: 48 word) < 200" by (simp_all add: demo_node_def)
  have pb: "page_base (unat (100 :: 48 word)) = page_base (unat (200 :: 48 word))" by (simp add: page_base_def Alloc_Granu_def kLeafPageSize_def)
  show ?thesis
    using commit_latches_can_cross [OF t(7,8) pb t(1,2) _ demo_writes demo_writes demo_valid t(3,4) _ demo_writes demo_writes demo_valid] t(5,6)
    by (simp add: demo_local)
qed

end
